(* ===== verification/Cxx_Core.thy ===== *)
theory Cxx_Core
  imports Main "HOL-Library.Multiset" "HOL-Library.Signed_Division"
begin

text \<open>
  The prelude of the development.  A C++ function of the repository is translated into a
  HOL function that returns a \<open>run\<close>: \<open>None\<close> when the function does not return,
  \<open>Some (Inl e)\<close> when it performs the undefined behaviour (or the failing library call)
  \<open>e\<close>, and \<open>Some (Inr x)\<close> when it returns \<open>x\<close>.  The theory holds the
  sequencing operator \<open>bnd\<close>, the loop operators \<open>for_up\<close>, \<open>for_down\<close> and
  \<open>loop\<close>, the total-correctness predicate \<open>wp\<close> with one rewrite or rule for each of
  them, and the checked 32-bit arithmetic of \<open>int\<close>.
\<close>

section \<open>Outcomes of a run\<close>

datatype ub =
    Out_Of_Bounds       \<comment> \<open>an array access outside the array\<close>
  | Null_Deref          \<comment> \<open>a member access through a null pointer\<close>
  | Dangling            \<comment> \<open>an access through a pointer to no live object, or a second delete\<close>
  | Uninitialised       \<comment> \<open>the value of an uninitialised object\<close>
  | Signed_Overflow     \<comment> \<open>an int result that 32 bits cannot hold\<close>
  | Division_By_Zero
  | Missing_Return      \<comment> \<open>the end of a value-returning function is reached\<close>
  | Bad_Access          \<comment> \<open>a standard library precondition is violated\<close>
  | End_Of_Input        \<comment> \<open>the program reads past the input it was given\<close>

type_synonym 'a run = "(ub + 'a) option"

definition ok :: "'a \<Rightarrow> 'a run" where
  "ok x = Some (Inr x)"

definition fail :: "ub \<Rightarrow> 'a run" where
  "fail e = Some (Inl e)"

definition bnd :: "'a run \<Rightarrow> ('a \<Rightarrow> 'b run) \<Rightarrow> 'b run" where
  "bnd m f = (case m of None \<Rightarrow> None
     | Some r \<Rightarrow> (case r of Inl e \<Rightarrow> Some (Inl e) | Inr x \<Rightarrow> f x))"

definition wp :: "'a run \<Rightarrow> ('a \<Rightarrow> bool) \<Rightarrow> bool" where
  "wp m Q = (case m of None \<Rightarrow> False
     | Some r \<Rightarrow> (case r of Inl e \<Rightarrow> False | Inr x \<Rightarrow> Q x))"

text \<open>The continuation of \<open>bnd\<close> is simplified only once its argument is known.\<close>

lemma bnd_weak_cong [cong]: "m = m' \<Longrightarrow> bnd m f = bnd m' f"
  by simp

lemma ok_eq [simp]: "ok x = ok y \<longleftrightarrow> x = y"
  by (simp add: ok_def)

lemma fail_eq [simp]: "fail x = fail y \<longleftrightarrow> x = y"
  by (simp add: fail_def)

lemma ok_neq_fail [simp]: "ok x \<noteq> fail e" "fail e \<noteq> ok x" "ok x \<noteq> None" "fail e \<noteq> None"
    "None \<noteq> ok x" "None \<noteq> fail e"
  by (simp_all add: ok_def fail_def)

lemma bnd_ok [simp]: "bnd (ok x) f = f x"
  by (simp add: bnd_def ok_def)

lemma bnd_fail [simp]: "bnd (fail e) f = fail e"
  by (simp add: bnd_def fail_def)

lemma bnd_None [simp]: "bnd None f = None"
  by (simp add: bnd_def)

lemma bnd_assoc: "bnd (bnd m f) g = bnd m (\<lambda>x. bnd (f x) g)"
  by (simp add: bnd_def split: option.split sum.split)

text \<open>Recursive calls under \<open>bnd\<close> may use what the earlier run returned.\<close>

lemma bnd_fundef_cong [fundef_cong]:
  "m = m' \<Longrightarrow> (\<And>x. m' = ok x \<Longrightarrow> f x = g x) \<Longrightarrow> bnd m f = bnd m' g"
  by (auto simp: bnd_def ok_def split: option.split sum.split)

lemma run_cases [case_names diverges fails returns]:
  fixes m :: "'a run"
  assumes "m = None \<Longrightarrow> P" "\<And>e. m = fail e \<Longrightarrow> P" "\<And>x. m = ok x \<Longrightarrow> P"
  shows P
  using assms by (cases m) (auto simp: ok_def fail_def split: sum.splits elim: sumE)

lemma bnd_eq_ok: "bnd m f = ok y \<longleftrightarrow> (\<exists>x. m = ok x \<and> f x = ok y)"
  by (cases m rule: run_cases) auto

lemma wp_ok [simp]: "wp (ok x) Q \<longleftrightarrow> Q x"
  by (simp add: wp_def ok_def)

lemma wp_fail [simp]: "\<not> wp (fail e) Q"
  by (simp add: wp_def fail_def)

lemma wp_None [simp]: "\<not> wp None Q"
  by (simp add: wp_def)

lemma wp_bnd [simp]: "wp (bnd m f) Q \<longleftrightarrow> wp m (\<lambda>x. wp (f x) Q)"
  by (cases m rule: run_cases) auto

lemma wp_if [simp]: "wp (if b then m else m') Q \<longleftrightarrow> (if b then wp m Q else wp m' Q)"
  by simp

lemma wp_iff: "wp m Q \<longleftrightarrow> (\<exists>x. m = ok x \<and> Q x)"
  by (cases m rule: run_cases) auto

lemma wp_conseq: "wp m R \<Longrightarrow> (\<And>x. R x \<Longrightarrow> Q x) \<Longrightarrow> wp m Q"
  by (auto simp: wp_iff)

lemma wp_conj: "wp m P \<Longrightarrow> wp m Q \<Longrightarrow> wp m (\<lambda>x. P x \<and> Q x)"
  by (auto simp: wp_iff)

lemma wp_eq_ok: "wp m (\<lambda>x. x = y) \<longleftrightarrow> m = ok y"
  by (auto simp: wp_iff)

lemma all_less_step:
  "l \<le> i \<Longrightarrow> (\<forall>p. l \<le> p \<and> p \<le> i \<longrightarrow> P p) \<longleftrightarrow> (\<forall>p. l \<le> p \<and> p < i \<longrightarrow> P p) \<and> P i" for l i :: int
  by (auto simp: order.order_iff_strict)

section \<open>Loops\<close>

subsection \<open>Counting loops\<close>

text \<open>\<open>for (int i = lo; i < hi; i++)\<close> with a bound the body does not change.\<close>

function for_up :: "int \<Rightarrow> int \<Rightarrow> (int \<Rightarrow> 's \<Rightarrow> 's run) \<Rightarrow> 's \<Rightarrow> 's run" where
  "for_up lo hi f s = (if lo < hi then bnd (f lo s) (for_up (lo + 1) hi f) else ok s)"
  by pat_completeness auto
termination
  by (relation "measure (\<lambda>(lo, hi, f, s). nat (hi - lo))") auto

declare for_up.simps [simp del]

lemma for_up_step [simp]: "lo < hi \<Longrightarrow> for_up lo hi f s = bnd (f lo s) (for_up (lo + 1) hi f)"
  by (simp add: for_up.simps)

lemma for_up_done [simp]: "hi \<le> lo \<Longrightarrow> for_up lo hi f s = ok s"
  by (simp add: for_up.simps)

text \<open>A loop that appends a piece of text in every turn.\<close>

lemma for_up_append:
  "(\<And>i out. lo \<le> i \<Longrightarrow> i < hi \<Longrightarrow> F i out = ok (out @ f i)) \<Longrightarrow>
   for_up lo hi F out = ok (out @ concat (map f [lo..hi - 1]))"
proof (induction "nat (hi - lo)" arbitrary: lo out)
  case (Suc k)
  then have "lo < hi" by simp
  with Suc.hyps(1) [of "lo + 1" "out @ f lo"] Suc.hyps(2) Suc.prems show ?case
    by (simp add: upto_rec1)
qed simp

text \<open>\<open>for (int i = hi; i >= lo; i--)\<close>.\<close>

function for_down :: "int \<Rightarrow> int \<Rightarrow> (int \<Rightarrow> 's \<Rightarrow> 's run) \<Rightarrow> 's \<Rightarrow> 's run" where
  "for_down hi lo f s = (if lo \<le> hi then bnd (f hi s) (for_down (hi - 1) lo f) else ok s)"
  by pat_completeness auto
termination
  by (relation "measure (\<lambda>(hi, lo, f, s). nat (hi - lo + 1))") auto

declare for_down.simps [simp del]

lemma for_down_step [simp]:
  "lo \<le> hi \<Longrightarrow> for_down hi lo f s = bnd (f hi s) (for_down (hi - 1) lo f)"
  by (simp add: for_down.simps)

lemma for_down_done [simp]: "hi < lo \<Longrightarrow> for_down hi lo f s = ok s"
  by (simp add: for_down.simps)

lemma wp_for_up:
  assumes "I lo s"
    and "\<And>i s. lo \<le> i \<Longrightarrow> i < hi \<Longrightarrow> I i s \<Longrightarrow> wp (f i s) (I (i + 1))"
    and "\<And>s. I (max lo hi) s \<Longrightarrow> Q s"
  shows "wp (for_up lo hi f s) Q"
  using assms
proof (induction lo hi f s rule: for_up.induct)
  case (1 lo hi f s)
  show ?case
  proof (cases "lo < hi")
    case True
    have "wp (f lo s) (I (lo + 1))"
      using "1.prems" True by simp
    then obtain s' where s': "f lo s = ok s'" "I (lo + 1) s'"
      by (auto simp: wp_iff)
    have "wp (for_up (lo + 1) hi f s') Q"
      using "1.IH" [OF True s'(1)] s'(2) "1.prems"(2,3) True by (simp add: max_def)
    with True s' show ?thesis by simp
  next
    case False
    with "1.prems" show ?thesis by (simp add: max_def split: if_splits)
  qed
qed

lemma wp_for_down:
  assumes "I hi s"
    and "\<And>i s. lo \<le> i \<Longrightarrow> i \<le> hi \<Longrightarrow> I i s \<Longrightarrow> wp (f i s) (I (i - 1))"
    and "\<And>s. I (min hi (lo - 1)) s \<Longrightarrow> Q s"
  shows "wp (for_down hi lo f s) Q"
  using assms
proof (induction hi lo f s rule: for_down.induct)
  case (1 hi lo f s)
  show ?case
  proof (cases "lo \<le> hi")
    case True
    then have m: "min (hi - 1) (lo - 1) = lo - 1" "min hi (lo - 1) = lo - 1"
      by auto
    have "wp (f hi s) (I (hi - 1))"
      using "1.prems" True by simp
    then obtain s' where s': "f hi s = ok s'" "I (hi - 1) s'"
      by (auto simp: wp_iff)
    have "wp (for_down (hi - 1) lo f s') Q"
      using "1.IH" [OF True s'(1)] s'(2) "1.prems"(2,3) True by (simp add: m)
    with True s' show ?thesis by simp
  next
    case False
    with "1.prems" show ?thesis by (simp add: min_def split: if_splits)
  qed
qed

subsection \<open>Iterating over a container\<close>

text \<open>A loop over the elements of a standard container, from its begin to its end.\<close>

fun for_each :: "('a \<Rightarrow> 's \<Rightarrow> 's run) \<Rightarrow> 'a list \<Rightarrow> 's \<Rightarrow> 's run" where
  "for_each f [] s = ok s"
| "for_each f (x # xs) s = bnd (f x s) (for_each f xs)"

lemma wp_for_each:
  assumes "I [] s"
    and "\<And>ys y zs s. xs = ys @ y # zs \<Longrightarrow> I ys s \<Longrightarrow> wp (f y s) (I (ys @ [y]))"
    and "\<And>s. I xs s \<Longrightarrow> Q s"
  shows "wp (for_each f xs s) Q"
proof -
  have "wp (for_each f zs s) Q" if "xs = ys @ zs" "I ys s" for ys zs s
    using that
  proof (induction zs arbitrary: ys s)
    case Nil
    then show ?case using assms(3) by simp
  next
    case (Cons z zs)
    then have "wp (f z s) (I (ys @ [z]))" using assms(2) by blast
    then show ?case
      by (simp, elim wp_conseq) (use Cons in auto)
  qed
  from this [of "[]" xs s] assms(1) show ?thesis by simp
qed

text \<open>Calling a removal operation \<open>n\<close> times, and the values it returns.\<close>

fun collect :: "('s \<Rightarrow> ('a \<times> 's) run) \<Rightarrow> nat \<Rightarrow> 's \<Rightarrow> ('a list \<times> 's) run" where
  "collect f 0 s = ok ([], s)"
| "collect f (Suc n) s = bnd (f s) (\<lambda>(y, s). bnd (collect f n s) (\<lambda>(ys, s). ok (y # ys, s)))"

lemma collect_numeral [simp]:
  "collect f (numeral k) s =
     bnd (f s) (\<lambda>(y, s). bnd (collect f (pred_numeral k) s) (\<lambda>(ys, s). ok (y # ys, s)))"
  by (simp add: numeral_eq_Suc)

subsection \<open>Loops with exits\<close>

text \<open>
  The general loop: the body either continues with a new state (\<open>Inl\<close>) or leaves the loop
  with a result (\<open>Inr\<close>).  A loop that never leaves is \<open>None\<close>.
\<close>

partial_function (option) loop :: "('s \<Rightarrow> ('s + 'r) run) \<Rightarrow> 's \<Rightarrow> 'r run" where
  "loop f s = (case f s of None \<Rightarrow> None
     | Some o1 \<Rightarrow> (case o1 of Inl e \<Rightarrow> Some (Inl e)
         | Inr x \<Rightarrow> (case x of Inl s' \<Rightarrow> loop f s' | Inr r \<Rightarrow> Some (Inr r))))"

declare loop.simps [code]

lemma loop_unfold: "loop f s = bnd (f s) (\<lambda>x. case x of Inl s' \<Rightarrow> loop f s' | Inr r \<Rightarrow> ok r)"
  by (subst loop.simps) (simp add: bnd_def ok_def split: option.split sum.split)

definition while_run :: "('s \<Rightarrow> bool run) \<Rightarrow> ('s \<Rightarrow> 's run) \<Rightarrow> 's \<Rightarrow> 's run" where
  "while_run c f = loop (\<lambda>s. bnd (c s) (\<lambda>t. if t then bnd (f s) (\<lambda>s'. ok (Inl s')) else ok (Inr s)))"

lemma while_run_unfold:
  "while_run c f s = bnd (c s) (\<lambda>t. if t then bnd (f s) (while_run c f) else ok s)"
  unfolding while_run_def
  by (subst loop_unfold)
    (simp add: bnd_assoc, cases "c s" rule: run_cases; simp add: bnd_assoc cong del: bnd_weak_cong)

lemma wp_loop_wf:
  assumes "wf r" and "I s"
    and step: "\<And>s. I s \<Longrightarrow> wp (f s) (\<lambda>x. case x of Inl s' \<Rightarrow> I s' \<and> (s', s) \<in> r | Inr y \<Rightarrow> Q y)"
  shows "wp (loop f s) Q"
  using assms(1,2)
proof (induction s rule: wf_induct_rule)
  case (less s)
  from step [OF less.prems] obtain x where x: "f s = ok x"
    "case x of Inl s' \<Rightarrow> I s' \<and> (s', s) \<in> r | Inr y \<Rightarrow> Q y"
    by (auto simp: wp_iff)
  then show ?case
    using less.IH by (subst loop_unfold) (auto split: sum.splits)
qed

lemma wp_loop:
  fixes m :: "'s \<Rightarrow> nat"
  assumes "I s"
    and "\<And>s. I s \<Longrightarrow> wp (f s) (\<lambda>x. case x of Inl s' \<Rightarrow> I s' \<and> m s' < m s | Inr r \<Rightarrow> Q r)"
  shows "wp (loop f s) Q"
  by (rule wp_loop_wf [where r = "measure m" and I = I, unfolded in_measure, OF wf_measure]) fact+

lemma wp_while_wf:
  assumes "wf r" and "I s"
    and step: "\<And>s. I s \<Longrightarrow> wp (c s) (\<lambda>t. if t then wp (f s) (\<lambda>s'. I s' \<and> (s', s) \<in> r) else Q s)"
  shows "wp (while_run c f s) Q"
  unfolding while_run_def
proof (rule wp_loop_wf [where I = I and r = r])
  fix s assume "I s"
  from step [OF this]
  show "wp (bnd (c s) (\<lambda>t. if t then bnd (f s) (\<lambda>s'. ok (Inl s')) else ok (Inr s)))
     (\<lambda>x. case x of Inl s' \<Rightarrow> I s' \<and> (s', s) \<in> r | Inr y \<Rightarrow> Q y)"
    by (auto elim!: wp_conseq split: if_splits)
qed (use assms in auto)

lemma wp_while:
  fixes m :: "'s \<Rightarrow> nat"
  assumes "I s"
    and "\<And>s. I s \<Longrightarrow> wp (c s) (\<lambda>t. if t then wp (f s) (\<lambda>s'. I s' \<and> m s' < m s) else Q s)"
  shows "wp (while_run c f s) Q"
  by (rule wp_while_wf [where r = "measure m" and I = I, unfolded in_measure, OF wf_measure]) fact+

text \<open>
  A loop that consumes a list: \<open>I\<close> relates what is left of it to the loop state.  Walks
  along linked structures and loops over containers use these two rules.
\<close>

lemma wp_loop_list:
  assumes "I xs s"
    and "\<And>x xs s. I (x # xs) s \<Longrightarrow> wp (f s) (\<lambda>r. case r of Inl s' \<Rightarrow> I xs s' | Inr y \<Rightarrow> Q y)"
    and "\<And>s. I [] s \<Longrightarrow> wp (f s) (\<lambda>r. case r of Inl s' \<Rightarrow> False | Inr y \<Rightarrow> Q y)"
  shows "wp (loop f s) Q"
  using assms(1)
proof (induction xs arbitrary: s)
  case Nil
  with assms(3) [of s] obtain r where "f s = ok r" "case r of Inl s' \<Rightarrow> False | Inr y \<Rightarrow> Q y"
    by (auto simp: wp_iff [of "f s"])
  then show ?case by (subst loop_unfold) (simp split: sum.splits)
next
  case (Cons x xs)
  with assms(2) [of x xs s] obtain r where "f s = ok r" "case r of Inl s' \<Rightarrow> I xs s' | Inr y \<Rightarrow> Q y"
    by (auto simp: wp_iff [of "f s"])
  with Cons.IH show ?case by (subst loop_unfold) (auto split: sum.splits)
qed

lemma wp_while_list:
  assumes "I xs s"
    and "\<And>x xs s. I (x # xs) s \<Longrightarrow> wp (c s) (\<lambda>t. if t then wp (f s) (I xs) else Q s)"
    and "\<And>s. I [] s \<Longrightarrow> wp (c s) (\<lambda>t. \<not> t \<and> Q s)"
  shows "wp (while_run c f s) Q"
  using assms(1)
proof (induction xs arbitrary: s)
  case Nil
  with assms(3) [of s] obtain t where "c s = ok t" "\<not> t" "Q s" by (auto simp: wp_iff [of "c s"])
  then show ?case by (subst while_run_unfold) simp
next
  case (Cons x xs)
  with assms(2) [of x xs s] obtain t where t: "c s = ok t" "if t then wp (f s) (I xs) else Q s"
    by (auto simp: wp_iff [of "c s"])
  show ?case
  proof (cases t)
    case True
    with t(2) obtain s' where "f s = ok s'" "I xs s'" by (auto simp: wp_iff)
    with t True Cons.IH show ?thesis by (subst while_run_unfold) simp
  next
    case False
    with t show ?thesis by (subst while_run_unfold) simp
  qed
qed

text \<open>A loop whose body always continues inside a set of states does not return.\<close>

lemma loop_diverges:
  assumes "I s" and step: "\<And>s. I s \<Longrightarrow> \<exists>s'. f s = ok (Inl s') \<and> I s'"
  shows "loop f s = None"
proof (rule ccontr)
  assume "loop f s \<noteq> None"
  then obtain r where r: "loop f s = Some r" by blast
  have "f = f \<longrightarrow> \<not> I s"
  proof (rule loop.raw_induct [where P = "\<lambda>g s r. g = f \<longrightarrow> \<not> I s", OF _ r])
    fix lp :: "('a \<Rightarrow> ('a + 'b) run) \<Rightarrow> 'a \<Rightarrow> 'b run" and g s r
    assume IH: "\<And>g s r. lp g s = Some r \<Longrightarrow> g = f \<longrightarrow> \<not> I s"
      and eq: "(case g s of None \<Rightarrow> None
        | Some o1 \<Rightarrow> (case o1 of Inl e \<Rightarrow> Some (Inl e)
            | Inr x \<Rightarrow> (case x of Inl s' \<Rightarrow> lp g s' | Inr r \<Rightarrow> Some (Inr r)))) = Some r"
    show "g = f \<longrightarrow> \<not> I s"
    proof (intro impI notI)
      assume "g = f" "I s"
      from step [OF \<open>I s\<close>] obtain s' where "f s = ok (Inl s')" "I s'" by blast
      with eq IH [of f s' r] \<open>g = f\<close> show False by (simp add: ok_def)
    qed
  qed
  with assms(1) show False by simp
qed

section \<open>What a run that returns has kept, and how it may fail\<close>

text \<open>
  \<open>within E P m\<close>: the run, if it ends, returns with \<open>P\<close> or fails with an error of \<open>E\<close>.
\<close>

definition within :: "ub set \<Rightarrow> ('a \<Rightarrow> bool) \<Rightarrow> 'a run \<Rightarrow> bool" where
  "within E P m = (case m of None \<Rightarrow> True | Some r \<Rightarrow> (case r of Inl e \<Rightarrow> e \<in> E | Inr x \<Rightarrow> P x))"

lemma within_simps [simp]: "within E P (ok x) \<longleftrightarrow> P x" "within E P (fail e) \<longleftrightarrow> e \<in> E" "within E P None"
  by (simp_all add: within_def ok_def fail_def)

lemma within_bnd: "within E Q m \<Longrightarrow> (\<And>x. Q x \<Longrightarrow> within E P (f x)) \<Longrightarrow> within E P (bnd m f)"
  by (cases m rule: run_cases) auto

lemma within_mono: "within E P m \<Longrightarrow> E \<subseteq> F \<Longrightarrow> (\<And>x. P x \<Longrightarrow> Q x) \<Longrightarrow> within F Q m"
  by (cases m rule: run_cases) auto

lemma within_wp: "wp m P \<Longrightarrow> within E P m"
  by (auto simp: wp_iff)

lemma within_loop:
  assumes "I s" and step: "\<And>s. I s \<Longrightarrow> within E (\<lambda>x. case x of Inl s' \<Rightarrow> I s' | Inr r \<Rightarrow> Q r) (f s)"
  shows "within E Q (loop f s)"
proof (cases "loop f s")
  case (Some r)
  have "f = f \<longrightarrow> I s \<longrightarrow> within E Q (Some r)"
  proof (rule loop.raw_induct [where P = "\<lambda>g s r. g = f \<longrightarrow> I s \<longrightarrow> within E Q (Some r)", OF _ Some])
    fix lp :: "('a \<Rightarrow> ('a + 'b) run) \<Rightarrow> 'a \<Rightarrow> 'b run" and g s r
    assume IH: "\<And>g s r. lp g s = Some r \<Longrightarrow> g = f \<longrightarrow> I s \<longrightarrow> within E Q (Some r)"
      and eq: "(case g s of None \<Rightarrow> None
        | Some o1 \<Rightarrow> (case o1 of Inl e \<Rightarrow> Some (Inl e)
            | Inr x \<Rightarrow> (case x of Inl s' \<Rightarrow> lp g s' | Inr r \<Rightarrow> Some (Inr r)))) = Some r"
    show "g = f \<longrightarrow> I s \<longrightarrow> within E Q (Some r)"
    proof (intro impI)
      assume "g = f" "I s"
      then show "within E Q (Some r)"
        using step [OF \<open>I s\<close>] eq IH [of f _ r] by (auto simp: within_def split: option.splits sum.splits)
    qed
  qed
  with Some assms(1) show ?thesis by simp
qed simp

section \<open>Recursive functions\<close>

text \<open>Recursive functions may call themselves under \<open>bnd\<close> and in counting loops.\<close>

lemma bnd_mono [partial_function_mono]:
  fixes B :: "('x \<Rightarrow> 'y option) \<Rightarrow> 'a run" and C :: "'a \<Rightarrow> ('x \<Rightarrow> 'y option) \<Rightarrow> 'b run"
  assumes B: "mono_option B" and C: "\<And>y. mono_option (\<lambda>f. C y f)"
  shows "mono_option (\<lambda>f. bnd (B f) (\<lambda>y. C y f))"
proof (rule monotoneI)
  fix f g :: "'x \<Rightarrow> 'y option" assume fg: "fun_ord option_ord f g"
  have "option_ord (B f) (B g)" using B fg by (rule monotoneD [of _ _ _ f g])
  moreover have "option_ord (C y f) (C y g)" for y using C fg by (rule monotoneD [of _ _ _ f g])
  ultimately show "option_ord (bnd (B f) (\<lambda>y. C y f)) (bnd (B g) (\<lambda>y. C y g))"
    unfolding flat_ord_def by (cases "B f" rule: run_cases) (metis bnd_None bnd_fail bnd_ok ok_neq_fail)+
qed

lemma for_up_mono [partial_function_mono]:
  assumes "\<And>i s. mono_option (\<lambda>f. F f i s)"
  shows "mono_option (\<lambda>f. for_up lo hi (F f) s)"
proof (induction "nat (hi - lo)" arbitrary: lo s)
  case (Suc k)
  then have "mono_option (\<lambda>f. for_up (lo + 1) hi (F f) s)" for s by simp
  with Suc.hyps(2) show ?case by (simp add: bnd_mono assms)
qed (simp add: monotoneI flat_ord_def)

section \<open>Signed 32-bit arithmetic\<close>

abbreviation int_max :: int where "int_max \<equiv> 2147483647"
abbreviation int_min :: int where "int_min \<equiv> - 2147483648"

definition i32 :: "int \<Rightarrow> int run" where
  "i32 x = (if int_min \<le> x \<and> x \<le> int_max then ok x else fail Signed_Overflow)"

definition div32 :: "int \<Rightarrow> int \<Rightarrow> int run" where
  "div32 a b = (if b = 0 then fail Division_By_Zero else i32 (a sdiv b))"

definition mod32 :: "int \<Rightarrow> int \<Rightarrow> int run" where
  "mod32 a b = (if b = 0 then fail Division_By_Zero else i32 (a smod b))"

lemma wp_i32 [simp]: "wp (i32 x) Q \<longleftrightarrow> int_min \<le> x \<and> x \<le> int_max \<and> Q x"
  by (auto simp: i32_def)

lemma i32_in: "int_min \<le> x \<Longrightarrow> x \<le> int_max \<Longrightarrow> i32 x = ok x"
  by (simp add: i32_def)

lemma i32_out: "\<not> (int_min \<le> x \<and> x \<le> int_max) \<Longrightarrow> i32 x = fail Signed_Overflow"
  by (simp add: i32_def)

lemma sdiv_nonneg: "0 \<le> a \<Longrightarrow> 0 < b \<Longrightarrow> (a::int) sdiv b = a div b"
  by (cases "a = 0") (simp_all add: signed_divide_int_def)

lemma smod_nonneg: "0 \<le> a \<Longrightarrow> 0 < b \<Longrightarrow> (a::int) smod b = a mod b"
  by (cases "a = 0") (simp_all add: signed_modulo_int_def sgn_if)

end
