(* ===== verification/Cxx_Array.thy ===== *)
theory Cxx_Array
  imports Cxx_Core
begin

text \<open>
  C++ arrays as lists indexed by \<open>int\<close>: \<open>rd\<close> and \<open>wr\<close> are the checked accesses
  \<open>a[i]\<close> and \<open>a[i] = v\<close>, \<open>at\<close> and \<open>upd\<close> what they read and write.  The
  lemmas give index arithmetic, permutation and sortedness on that view; the locale
  \<open>sorting_routine\<close> is the contract the sorting programs share.
\<close>

section \<open>Checked access\<close>

abbreviation len :: "'a list \<Rightarrow> int" where
  "len a \<equiv> int (length a)"

definition at :: "'a list \<Rightarrow> int \<Rightarrow> 'a" where
  "at a i = a ! nat i"

definition upd :: "'a list \<Rightarrow> int \<Rightarrow> 'a \<Rightarrow> 'a list" where
  "upd a i v = a[nat i := v]"

definition rd :: "'a list \<Rightarrow> int \<Rightarrow> 'a run" where
  "rd a i = (if 0 \<le> i \<and> i < len a then ok (at a i) else fail Out_Of_Bounds)"

definition wr :: "'a list \<Rightarrow> int \<Rightarrow> 'a \<Rightarrow> 'a list run" where
  "wr a i v = (if 0 \<le> i \<and> i < len a then ok (upd a i v) else fail Out_Of_Bounds)"

text \<open>An array without initialiser holds \<open>None\<close> until it is written.\<close>

definition uninit :: "int \<Rightarrow> 'a option list" where
  "uninit n = replicate (nat n) None"

definition rdi :: "'a option list \<Rightarrow> int \<Rightarrow> 'a run" where
  "rdi a i = bnd (rd a i) (\<lambda>v. case v of None \<Rightarrow> fail Uninitialised | Some x \<Rightarrow> ok x)"

definition swap_at :: "'a list \<Rightarrow> int \<Rightarrow> int \<Rightarrow> 'a list run" where
  "swap_at a i j =
     bnd (rd a i) (\<lambda>temp. bnd (rd a j) (\<lambda>y. bnd (wr a i y) (\<lambda>a. wr a j temp)))"

lemma length_upd [simp]: "length (upd a i v) = length a"
  by (simp add: upd_def)

lemma at_upd: "0 \<le> i \<Longrightarrow> i < len a \<Longrightarrow> 0 \<le> j \<Longrightarrow> at (upd a i v) j = (if i = j then v else at a j)"
  by (auto simp: at_def upd_def nth_list_update)

lemma at_upd_eq [simp]: "0 \<le> i \<Longrightarrow> i < len a \<Longrightarrow> at (upd a i v) i = v"
  by (simp add: at_upd)

lemma at_upd_neq [simp]: "i \<noteq> j \<Longrightarrow> 0 \<le> i \<Longrightarrow> 0 \<le> j \<Longrightarrow> at (upd a i v) j = at a j"
  by (auto simp: at_def upd_def)

lemma at_in_set [simp, intro]: "0 \<le> i \<Longrightarrow> i < len a \<Longrightarrow> at a i \<in> set a"
  by (auto simp: at_def)

lemma upd_same [simp]: "upd a i (at a i) = a"
  by (simp add: upd_def at_def)

lemma upd_upd [simp]: "upd (upd a i v) i w = upd a i w"
  by (simp add: upd_def)

lemma set_upd_subset: "set (upd a i v) \<subseteq> insert v (set a)"
  by (simp add: upd_def set_update_subset_insert)

lemma in_set_at: "x \<in> set a \<longleftrightarrow> (\<exists>i. 0 \<le> i \<and> i < len a \<and> at a i = x)"
proof
  assume "x \<in> set a"
  then obtain k where "k < length a" "a ! k = x" by (auto simp: in_set_conv_nth)
  then show "\<exists>i. 0 \<le> i \<and> i < len a \<and> at a i = x"
    by (intro exI [of _ "int k"]) (simp add: at_def)
qed auto

lemma list_eq_at: "length a = length b \<Longrightarrow> (\<And>i. 0 \<le> i \<Longrightarrow> i < len a \<Longrightarrow> at a i = at b i) \<Longrightarrow> a = b"
proof (rule nth_equalityI)
  fix k assume "\<And>i. 0 \<le> i \<Longrightarrow> i < len a \<Longrightarrow> at a i = at b i" "k < length a"
  from this(1) [of "int k"] this(2) show "a ! k = b ! k" by (simp add: at_def)
qed simp

lemma wp_rd [simp]: "wp (rd a i) Q \<longleftrightarrow> 0 \<le> i \<and> i < len a \<and> Q (at a i)"
  by (auto simp: rd_def)

lemma wp_wr [simp]: "wp (wr a i v) Q \<longleftrightarrow> 0 \<le> i \<and> i < len a \<and> Q (upd a i v)"
  by (auto simp: wr_def)

lemma rd_in: "0 \<le> i \<Longrightarrow> i < len a \<Longrightarrow> rd a i = ok (at a i)"
  by (simp add: rd_def)

lemma wr_in: "0 \<le> i \<Longrightarrow> i < len a \<Longrightarrow> wr a i v = ok (upd a i v)"
  by (simp add: wr_def)

lemma wp_rdi [simp]: "wp (rdi a i) Q \<longleftrightarrow> 0 \<le> i \<and> i < len a \<and> (\<exists>x. at a i = Some x \<and> Q x)"
  by (auto simp: rdi_def split: option.split)

lemma length_uninit [simp]: "length (uninit n) = nat n"
  by (simp add: uninit_def)

text \<open>\<open>filled n a f\<close>: an array of \<open>n\<close> initialised places that hold the values of \<open>f\<close>.\<close>

definition filled :: "int \<Rightarrow> 'a option list \<Rightarrow> (int \<Rightarrow> 'a) \<Rightarrow> bool" where
  "filled n a f \<longleftrightarrow> len a = n \<and> (\<forall>i. 0 \<le> i \<and> i < n \<longrightarrow> at a i = Some (f i))"

lemma filled_rdi: "filled n a f \<Longrightarrow> 0 \<le> i \<Longrightarrow> i < n \<Longrightarrow> rdi a i = ok (f i)"
  by (auto simp: filled_def rdi_def rd_in)

lemma filled_wr: "filled n a f \<Longrightarrow> 0 \<le> i \<Longrightarrow> i < n \<Longrightarrow> wr a i v = ok (upd a i v)"
  by (auto simp: filled_def wr_in)

lemma filled_upd: "filled n a f \<Longrightarrow> 0 \<le> i \<Longrightarrow> i < n \<Longrightarrow> filled n (upd a i (Some x)) (f(i := x))"
  by (auto simp: filled_def at_upd)

subsection \<open>Exchanging two elements\<close>

definition exch :: "'a list \<Rightarrow> int \<Rightarrow> int \<Rightarrow> 'a list" where
  "exch a i j = upd (upd a i (at a j)) j (at a i)"

lemma wp_swap_at [simp]:
  "wp (swap_at a i j) Q \<longleftrightarrow> 0 \<le> i \<and> i < len a \<and> 0 \<le> j \<and> j < len a \<and> Q (exch a i j)"
  by (auto simp: swap_at_def exch_def)

lemma length_exch [simp]: "length (exch a i j) = length a"
  by (simp add: exch_def)

lemma at_exch:
  "0 \<le> i \<Longrightarrow> i < len a \<Longrightarrow> 0 \<le> j \<Longrightarrow> j < len a \<Longrightarrow> 0 \<le> k \<Longrightarrow>
   at (exch a i j) k = (if k = j then at a i else if k = i then at a j else at a k)"
  by (simp add: exch_def at_upd)

lemma mset_exch [simp]:
  "0 \<le> i \<Longrightarrow> i < len a \<Longrightarrow> 0 \<le> j \<Longrightarrow> j < len a \<Longrightarrow> mset (exch a i j) = mset a"
  by (simp add: exch_def upd_def at_def nat_less_iff mset_swap)

lemma at_exch_0: "0 \<le> j \<Longrightarrow> j < len a \<Longrightarrow> 0 \<le> k \<Longrightarrow>
    at (exch a 0 j) k = (if k = j then at a 0 else if k = 0 then at a j else at a k)"
  by (rule at_exch) linarith+

lemma mset_exch_0 [simp]: "0 \<le> j \<Longrightarrow> j < len a \<Longrightarrow> mset (exch a 0 j) = mset a"
  by (rule mset_exch) linarith+

lemma exch_self [simp]: "exch a i i = a"
  by (simp add: exch_def)

lemma at_map_Some: "0 \<le> i \<Longrightarrow> i < len xs \<Longrightarrow> at (map Some xs) i = Some (at xs i)"
  by (simp add: at_def nat_less_iff)

lemma drop_at: "0 \<le> i \<Longrightarrow> i < len xs \<Longrightarrow> drop (nat i) xs = at xs i # drop (nat (i + 1)) xs"
  by (simp add: at_def nat_add_distrib Cons_nth_drop_Suc nat_less_iff)

subsection \<open>Sorted arrays\<close>

text \<open>The elements of \<open>a\<close> at the indices of \<open>{lo..<hi}\<close> are in order.\<close>

definition sorted_on :: "int \<Rightarrow> int \<Rightarrow> 'a::linorder list \<Rightarrow> bool" where
  "sorted_on lo hi a \<longleftrightarrow> (\<forall>i j. lo \<le> i \<longrightarrow> i \<le> j \<longrightarrow> j < hi \<longrightarrow> at a i \<le> at a j)"

lemma sorted_onD: "sorted_on lo hi a \<Longrightarrow> lo \<le> i \<Longrightarrow> i \<le> j \<Longrightarrow> j < hi \<Longrightarrow> at a i \<le> at a j"
  by (auto simp: sorted_on_def)

lemma sorted_onI: "(\<And>i j. lo \<le> i \<Longrightarrow> i < j \<Longrightarrow> j < hi \<Longrightarrow> at a i \<le> at a j) \<Longrightarrow> sorted_on lo hi a"
  unfolding sorted_on_def by (metis order.order_iff_strict)

lemma sorted_on_trivial [simp]: "hi \<le> lo + 1 \<Longrightarrow> sorted_on lo hi a"
  by (rule sorted_onI) simp

lemma sorted_on_subset: "sorted_on lo hi a \<Longrightarrow> lo \<le> lo' \<Longrightarrow> hi' \<le> hi \<Longrightarrow> sorted_on lo' hi' a"
  by (simp add: sorted_on_def)

lemma sorted_on_adjacentI:
  assumes "\<And>i. lo \<le> i \<Longrightarrow> i + 1 < hi \<Longrightarrow> at a i \<le> at a (i + 1)"
  shows "sorted_on lo hi a"
proof (rule sorted_onI)
  fix i j assume "lo \<le> i" "i < j" "j < hi"
  then show "at a i \<le> at a j"
  proof (induction "nat (j - i)" arbitrary: j)
    case (Suc k)
    show ?case
    proof (cases "i = j - 1")
      case True
      with Suc.prems assms [of i] show ?thesis by simp
    next
      case False
      have "at a i \<le> at a (j - 1)"
        using Suc.hyps(1) [of "j - 1"] Suc.hyps(2) Suc.prems False by simp
      also have "\<dots> \<le> at a j"
        using assms [of "j - 1"] Suc.prems by simp
      finally show ?thesis .
    qed
  qed simp
qed

lemma sorted_conv_on: "sorted a \<longleftrightarrow> sorted_on 0 (len a) a"
proof
  assume "sorted a"
  then show "sorted_on 0 (len a) a"
    by (auto simp: sorted_on_def at_def sorted_iff_nth_mono)
next
  assume s: "sorted_on 0 (len a) a"
  show "sorted a"
    unfolding sorted_iff_nth_mono
  proof (intro allI impI)
    fix i j assume "i \<le> j" "j < length a"
    with s show "a ! i \<le> a ! j"
      using sorted_onD [OF s, of "int i" "int j"] by (simp add: at_def)
  qed
qed

lemma sort_unique: "sorted b \<Longrightarrow> mset b = mset a \<Longrightarrow> b = sort a"
  using properties_for_sort by metis

lemma run_sort: "wp m (\<lambda>b. sorted b \<and> mset b = mset a) \<Longrightarrow> m = ok (sort a)"
  by (auto simp: wp_iff dest: sort_unique)

lemma mset_eq_len: "mset a = mset b \<Longrightarrow> length a = length b"
  by (metis size_mset)

subsection \<open>Rearrangements of a range\<close>

lemma mset_at: "mset a = image_mset (at a) (mset_set {0..<len a})"
proof -
  have "mset a = image_mset ((!) a) (mset_set {0..<length a})"
    by (metis map_nth mset_map mset_upt)
  also have "\<dots> = image_mset (at a) (image_mset int (mset_set {0..<length a}))"
    by (simp add: multiset.map_comp comp_def at_def)
  also have "image_mset int (mset_set {0..<length a}) = mset_set {0..<len a}"
    by (simp add: image_mset_mset_set image_int_atLeastLessThan)
  finally show ?thesis .
qed

text \<open>A rearrangement that leaves the elements outside a range alone rearranges the range.\<close>

lemma inside_image:
  assumes "mset b = mset a" "0 \<le> lo" "hi < len a"
    and frame: "\<And>k. 0 \<le> k \<and> k < lo \<or> hi < k \<and> k < len a \<Longrightarrow> at b k = at a k"
  shows "at b ` {lo..hi} = at a ` {lo..hi}"
proof (cases "lo \<le> hi")
  case True
  have parts: "mset x = image_mset (at x) (mset_set {lo..hi}) + image_mset (at x) (mset_set ({0..<len x} - {lo..hi}))"
    if "len x = len a" for x :: "'a list"
  proof -
    have "{0..<len x} = {lo..hi} \<union> ({0..<len x} - {lo..hi})" using assms(2,3) that by auto
    then have "mset_set {0..<len x} = mset_set {lo..hi} + mset_set ({0..<len x} - {lo..hi})"
      by (metis Diff_disjoint finite_atLeastAtMost_int finite_atLeastLessThan_int finite_Diff mset_set_Union)
    then show ?thesis by (simp add: mset_at)
  qed
  have l: "len b = len a" using assms(1) mset_eq_len by metis
  have "image_mset (at b) (mset_set ({0..<len a} - {lo..hi})) = image_mset (at a) (mset_set ({0..<len a} - {lo..hi}))"
    by (rule image_mset_cong) (use frame in auto)
  then have "image_mset (at b) (mset_set {lo..hi}) = image_mset (at a) (mset_set {lo..hi})"
    using parts [of a] parts [of b] l assms(1) by simp
  then have "set_mset (image_mset (at b) (mset_set {lo..hi})) = set_mset (image_mset (at a) (mset_set {lo..hi}))"
    by simp
  then show ?thesis by simp
qed simp

lemma inside_all:
  assumes "mset b = mset a" "0 \<le> lo" "hi < len a"
    and "\<And>k. 0 \<le> k \<and> k < lo \<or> hi < k \<and> k < len a \<Longrightarrow> at b k = at a k"
    and "\<And>k. lo \<le> k \<Longrightarrow> k \<le> hi \<Longrightarrow> P (at a k)" and "lo \<le> k" "k \<le> hi"
  shows "P (at b k)"
proof -
  have "at b k \<in> at a ` {lo..hi}"
    using inside_image [OF assms(1-4)] assms(6,7) by auto
  with assms(5) show ?thesis by auto
qed

subsection \<open>Subarrays\<close>

text \<open>\<open>slice a l n\<close> is the subarray of the \<open>n\<close> elements from index \<open>l\<close>.\<close>

definition slice :: "'a list \<Rightarrow> int \<Rightarrow> int \<Rightarrow> 'a list" where
  "slice a l n = take (nat n) (drop (nat l) a)"

lemma slice_full [simp]: "slice a 0 (len a) = a"
  by (simp add: slice_def)

lemma slice_split:
  "0 \<le> l \<Longrightarrow> 0 \<le> n \<Longrightarrow> 0 \<le> n' \<Longrightarrow> slice a l (n + n') = slice a l n @ slice a (l + n) n'"
  by (simp add: slice_def nat_add_distrib take_add add.commute)

text \<open>\<open>splice a l xs\<close> is \<open>a\<close> with \<open>xs\<close> written from index \<open>l\<close> on.\<close>

definition splice_at :: "'a list \<Rightarrow> int \<Rightarrow> 'a list \<Rightarrow> 'a list" where
  "splice_at a l xs = take (nat l) a @ xs @ drop (nat l + length xs) a"

lemma splice_at_Nil [simp]: "splice_at a l [] = a"
  by (simp add: splice_at_def)

lemma length_splice_at [simp]: "0 \<le> l \<Longrightarrow> l + len xs \<le> len a \<Longrightarrow> length (splice_at a l xs) = length a"
  by (simp add: splice_at_def)

lemma upd_splice_at:
  assumes "0 \<le> l" "l + len xs < len a" "k = l + len xs"
  shows "upd (splice_at a l xs) k v = splice_at a l (xs @ [v])"
proof -
  define n where "n = nat l + length xs"
  have n: "nat k = n" "n < length a" "nat l \<le> length a" using assms by (auto simp: n_def)
  then have "drop n a = a ! n # drop (Suc n) a" by (simp add: Cons_nth_drop_Suc)
  then have "splice_at a l xs = (take (nat l) a @ xs) @ a ! n # drop (Suc n) a"
    by (simp add: splice_at_def n_def)
  moreover have "nat k = length (take (nat l) a @ xs)"
    using n by (simp add: n_def)
  ultimately have "upd (splice_at a l xs) k v = (take (nat l) a @ xs) @ v # drop (Suc n) a"
    by (simp only: upd_def list_update_length)
  then show ?thesis by (simp add: splice_at_def n_def)
qed

lemma at_splice_end:
  "0 \<le> l \<Longrightarrow> l + len xs < len a \<Longrightarrow> k = l + len xs \<Longrightarrow> at (splice_at a l xs) k = at a k"
  by (simp add: splice_at_def at_def nth_append nat_add_distrib)

lemma slice_splice_at: "0 \<le> l \<Longrightarrow> l + len xs \<le> len a \<Longrightarrow> slice (splice_at a l xs) l (len xs) = xs"
  by (simp add: slice_def splice_at_def)

lemma mset_splice_at:
  assumes "mset xs = mset (slice a l (len xs))"
  shows "mset (splice_at a l xs) = mset a"
proof -
  have "mset (splice_at a l xs) = mset (take (nat l) a @ slice a l (len xs) @ drop (nat l + length xs) a)"
    by (simp add: splice_at_def assms)
  also have "take (nat l) a @ slice a l (len xs) @ drop (nat l + length xs) a = a"
    unfolding slice_def nat_int by (metis append_take_drop_id drop_drop add.commute)
  finally show ?thesis .
qed

section \<open>The contract of a sorting routine\<close>

text \<open>
  \<open>srt\<close> is what a program calls to sort a whole array, \<open>dom\<close> the arrays it accepts.
  The one law is that it returns an ordered rearrangement of its argument; the client facts
  are that the result is the sorted list, that sorting again changes nothing and that the
  order of the input does not matter.
\<close>

locale sorting_routine =
  fixes srt :: "'a::linorder list \<Rightarrow> 'a list run"
    and dom :: "'a list \<Rightarrow> bool"
  assumes sorts: "dom a \<Longrightarrow> wp (srt a) (\<lambda>b. sorted b \<and> mset b = mset a)"
    and dom_mset: "dom a \<Longrightarrow> mset b = mset a \<Longrightarrow> dom b"
begin

lemma returns_sort: "dom a \<Longrightarrow> srt a = ok (sort a)"
  by (rule run_sort) (rule sorts)

lemma idempotent: "dom a \<Longrightarrow> bnd (srt a) srt = srt a"
proof -
  assume "dom a"
  moreover from this have "dom (sort a)" by (rule dom_mset) simp
  ultimately show ?thesis by (simp add: returns_sort sorted_sort_id)
qed

lemma permutation_invariant: "dom a \<Longrightarrow> mset b = mset a \<Longrightarrow> srt b = srt a"
  using returns_sort dom_mset by (metis sort_unique sorted_sort mset_sort)

end

end
