(* ===== verification/Sort_Exchange.thy ===== *)
theory Sort_Exchange
  imports Cxx_Array
begin

text \<open>
  The quadratic sorts of \<open>DataStructure/sort\<close>: \<open>buble_sort.cxx\<close>,
  \<open>selection_sort.cxx\<close> and \<open>insertion_sort.cxx\<close>.  Arrays are lists, every access is
  checked, and each program is shown to return the sorted list for every array.
\<close>

section \<open>Bubble sort\<close>

definition bubble_pass :: "int \<Rightarrow> int \<Rightarrow> int list \<Rightarrow> int list run" where
  "bubble_pass n i arr =
     for_up 0 (n - i - 1) (\<lambda>j arr.
       bnd (rd arr j) (\<lambda>x. bnd (rd arr (j + 1)) (\<lambda>y.
         if x > y then swap_at arr j (j + 1) else ok arr))) arr"

definition bubbleSort :: "int list \<Rightarrow> int \<Rightarrow> int list run" where
  "bubbleSort arr n = for_up 0 (n - 1) (bubble_pass n) arr"

text \<open>After pass \<open>i\<close> the last \<open>i + 1\<close> elements are in their final place.\<close>

definition bubble_inv :: "int list \<Rightarrow> int \<Rightarrow> int list \<Rightarrow> bool" where
  "bubble_inv a i b \<longleftrightarrow> mset b = mset a \<and> sorted_on (len a - i) (len a) b \<and>
     (\<forall>p q. 0 \<le> p \<and> p < len a - i \<and> len a - i \<le> q \<and> q < len a \<longrightarrow> at b p \<le> at b q)"

lemma bubble_pass_spec:
  assumes "bubble_inv a i b" "0 \<le> i" "i < len a - 1"
  shows "wp (bubble_pass (len a) i b) (bubble_inv a (i + 1))"
proof -
  define J where "J j c \<longleftrightarrow> bubble_inv a i c \<and> (\<forall>p. 0 \<le> p \<and> p < j \<longrightarrow> at c p \<le> at c j)" for j c
  have l: "len c = len a" if "bubble_inv a i c" for c
    using that mset_eq_len unfolding bubble_inv_def by metis
  have "J 0 b" using assms by (simp add: J_def)
  moreover have "J (j + 1) c" if j: "0 \<le> j" "j < len a - i - 1" and c: "J j c" "at c j \<le> at c (j + 1)" for j c
  proof -
    have "at c p \<le> at c (j + 1)" if "0 \<le> p" "p < j + 1" for p
      using c that by (cases "p = j") (auto simp: J_def intro: order.trans [of _ "at c j"])
    with c show ?thesis by (simp add: J_def)
  qed
  moreover have "J (j + 1) (exch c j (j + 1))"
    if j: "0 \<le> j" "j < len a - i - 1" and c: "J j c" "at c j > at c (j + 1)" for j c
  proof -
    have "bubble_inv a i c" using c by (simp add: J_def)
    with j c l [of c] assms(2) show ?thesis
      unfolding J_def bubble_inv_def sorted_on_def
      by (intro conjI allI impI) (auto simp: at_exch)
  qed
  moreover have "bubble_inv a (i + 1) c" if c: "J (len a - i - 1) c" for c
  proof -
    have b: "bubble_inv a i c" and top: "\<And>p. 0 \<le> p \<Longrightarrow> p < len a - i - 1 \<Longrightarrow> at c p \<le> at c (len a - i - 1)"
      using c by (auto simp: J_def)
    have "sorted_on (len a - (i + 1)) (len a) c"
      unfolding sorted_on_def
    proof (intro allI impI)
      fix p q assume pq: "len a - (i + 1) \<le> p" "p \<le> q" "q < len a"
      consider "p = q" | "p = len a - i - 1" "len a - i \<le> q" | "len a - i \<le> p"
        using pq by linarith
      then show "at c p \<le> at c q"
        using b pq assms unfolding bubble_inv_def sorted_on_def by cases auto
    qed
    moreover have "at c p \<le> at c q"
      if "0 \<le> p" "p < len a - (i + 1)" "len a - (i + 1) \<le> q" "q < len a" for p q
      using b top [of p] that unfolding bubble_inv_def by (cases "q = len a - i - 1") auto
    ultimately show ?thesis using b by (simp add: bubble_inv_def)
  qed
  ultimately show ?thesis
    unfolding bubble_pass_def
    by (intro wp_for_up [where I = J]) (use assms l in \<open>auto simp: J_def max_def\<close>)
qed

lemma bubbleSort_sorts: "wp (bubbleSort a (len a)) (\<lambda>b. sorted b \<and> mset b = mset a)"
  unfolding bubbleSort_def
proof (rule wp_for_up [where I = "bubble_inv a"])
  show "bubble_inv a 0 a" by (simp add: bubble_inv_def)
next
  fix i b assume "0 \<le> i" "i < len a - 1" "bubble_inv a i b"
  then show "wp (bubble_pass (len a) i b) (bubble_inv a (i + 1))"
    by (simp add: bubble_pass_spec)
next
  fix b assume b: "bubble_inv a (max 0 (len a - 1)) b"
  then have "len b = len a" unfolding bubble_inv_def using mset_eq_len by metis
  moreover have "sorted_on 0 (len a) b"
  proof (cases "len a \<le> 1")
    case False
    then have m: "max 0 (len a - 1) = len a - 1" by simp
    show ?thesis
      unfolding sorted_on_def
    proof (intro allI impI)
      fix i j assume "0 \<le> i" "i \<le> j" "j < len a"
      with b show "at b i \<le> at b j"
        unfolding bubble_inv_def m sorted_on_def by (cases "i = 0") (cases "j = 0"; auto)+
    qed
  qed simp
  ultimately show "sorted b \<and> mset b = mset a"
    using b by (simp add: sorted_conv_on bubble_inv_def)
qed

section \<open>Selection sort\<close>

definition selection_min :: "int \<Rightarrow> int \<Rightarrow> int list \<Rightarrow> int run" where
  "selection_min n i arr =
     for_up (i + 1) n (\<lambda>j min_idx.
       bnd (rd arr j) (\<lambda>x. bnd (rd arr min_idx) (\<lambda>y.
         if x < y then ok j else ok min_idx))) i"

definition selectionSort :: "int list \<Rightarrow> int \<Rightarrow> int list run" where
  "selectionSort arr n =
     for_up 0 (n - 1) (\<lambda>i arr.
       bnd (selection_min n i arr) (\<lambda>min_idx. swap_at arr min_idx i)) arr"

lemma selection_min_spec:
  assumes "0 \<le> i" "i < len a"
  shows "wp (selection_min (len a) i a) (\<lambda>m. i \<le> m \<and> m < len a \<and> (\<forall>k. i \<le> k \<and> k < len a \<longrightarrow> at a m \<le> at a k))"
  unfolding selection_min_def
  by (rule wp_for_up [where I = "\<lambda>j m. i \<le> m \<and> m < j \<and> (\<forall>k. i \<le> k \<and> k < j \<longrightarrow> at a m \<le> at a k)"])
    (use assms in \<open>auto simp: max_def split: if_splits\<close>, (smt (verit) order.trans)+)

text \<open>Before round \<open>i\<close> the first \<open>i\<close> elements are final: sorted, and below all others.\<close>

definition selection_inv :: "int list \<Rightarrow> int \<Rightarrow> int list \<Rightarrow> bool" where
  "selection_inv a i b \<longleftrightarrow> mset b = mset a \<and>
     (\<forall>p q. 0 \<le> p \<and> p < i \<and> p \<le> q \<and> q < len a \<longrightarrow> at b p \<le> at b q)"

lemma selection_step:
  assumes inv: "selection_inv a i b" and i: "0 \<le> i" "i < len a - 1"
  shows "wp (bnd (selection_min (len a) i b) (\<lambda>m. swap_at b m i)) (selection_inv a (i + 1))"
proof -
  have l: "len b = len a" using inv mset_eq_len unfolding selection_inv_def by metis
  have "selection_inv a (i + 1) (exch b m i)"
    if m: "i \<le> m" "m < len a" "\<And>k. i \<le> k \<Longrightarrow> k < len a \<Longrightarrow> at b m \<le> at b k" for m
    unfolding selection_inv_def
  proof (intro conjI allI impI)
    fix p q assume pq: "0 \<le> p \<and> p < i + 1 \<and> p \<le> q \<and> q < len a"
    show "at (exch b m i) p \<le> at (exch b m i) q"
    proof (cases "p = i")
      case True
      with m i pq l show ?thesis by (auto simp: at_exch)
    next
      case False
      with m i pq l inv show ?thesis unfolding selection_inv_def by (auto simp: at_exch)
    qed
  qed (use m i l inv in \<open>simp add: selection_inv_def\<close>)
  with i l show ?thesis
    by (simp, intro wp_conseq [OF selection_min_spec [of i b, unfolded l]]) auto
qed

lemma selectionSort_sorts: "wp (selectionSort a (len a)) (\<lambda>b. sorted b \<and> mset b = mset a)"
  unfolding selectionSort_def
proof (rule wp_for_up [where I = "selection_inv a"])
  show "selection_inv a 0 a" by (simp add: selection_inv_def)
next
  fix b assume b: "selection_inv a (max 0 (len a - 1)) b"
  then have "len b = len a" unfolding selection_inv_def using mset_eq_len by metis
  moreover have "sorted_on 0 (len a) b"
    using b by (intro sorted_onI) (auto simp: selection_inv_def)
  ultimately show "sorted b \<and> mset b = mset a"
    using b by (simp add: sorted_conv_on selection_inv_def)
qed (rule selection_step)

section \<open>Insertion sort\<close>

text \<open>The inner loop moves the elements above \<open>key\<close> one place up and returns the gap.\<close>

definition insertion_shift :: "int \<Rightarrow> int list \<times> int \<Rightarrow> (int list \<times> int) run" where
  "insertion_shift key = while_run
     (\<lambda>(arr, j). if j \<ge> 0 then bnd (rd arr j) (\<lambda>x. ok (x > key)) else ok False)
     (\<lambda>(arr, j). bnd (rd arr j) (\<lambda>x. bnd (wr arr (j + 1) x) (\<lambda>arr. ok (arr, j - 1))))"

definition insertionSort :: "int list \<Rightarrow> int \<Rightarrow> int list run" where
  "insertionSort arr n =
     for_up 1 n (\<lambda>i arr.
       bnd (rd arr i) (\<lambda>key.
       bnd (insertion_shift key (arr, i - 1)) (\<lambda>(arr, j).
       wr arr (j + 1) key))) arr"

lemma insertion_shift_spec:
  assumes "0 < i" "i < len a" "sorted_on 0 i a"
  shows "wp (insertion_shift (at a i) (a, i - 1))
     (\<lambda>(b, j). -1 \<le> j \<and> j < i \<and> length b = length a \<and>
        mset (upd b (j + 1) (at a i)) = mset a \<and> sorted_on 0 (i + 1) (upd b (j + 1) (at a i)))"
proof -
  let ?key = "at a i"
  define I where "I = (\<lambda>(b, j). -1 \<le> j \<and> j < i \<and> length b = length a \<and>
      mset (upd b (j + 1) ?key) = mset a \<and> sorted_on 0 (j + 1) b \<and> sorted_on (j + 2) (i + 1) b \<and>
      (\<forall>p q. 0 \<le> p \<and> p \<le> j \<and> j + 2 \<le> q \<and> q \<le> i \<longrightarrow> at b p \<le> at b q) \<and>
      (\<forall>q. j + 2 \<le> q \<and> q \<le> i \<longrightarrow> ?key < at b q))"
  have start: "I (a, i - 1)"
    using assms by (simp add: I_def)
  have step: "I (upd b (j + 1) (at b j), j - 1)" if I: "I (b, j)" and j: "0 \<le> j" "?key < at b j" for b j
  proof -
    let ?b = "upd b (j + 1) (at b j)"
    have bj: "j < i" "length b = length a" using I by (auto simp: I_def)
    have "upd ?b j ?key = exch (upd b (j + 1) ?key) j (j + 1)"
      using j bj assms by (simp add: exch_def upd_def at_def nat_add_distrib list_update_swap)
    then have "mset (upd ?b j ?key) = mset a"
      using I j bj assms by (simp add: I_def)
    with I j bj assms show ?thesis
      unfolding I_def sorted_on_def by (auto simp: at_upd)
  qed
  have final: "sorted_on 0 (i + 1) (upd b (j + 1) ?key)"
    if I: "I (b, j)" and "j < 0 \<or> at b j \<le> ?key" for b j
  proof -
    have below: "at b p \<le> ?key" if "0 \<le> p" "p \<le> j" for p
    proof -
      have "at b p \<le> at b j" using I that by (auto simp: I_def sorted_on_def)
      with that \<open>j < 0 \<or> at b j \<le> ?key\<close> show ?thesis by auto
    qed
    have above: "?key < at b q" if "j + 2 \<le> q" "q \<le> i" for q
      using I that by (simp add: I_def)
    show ?thesis
      unfolding sorted_on_def
    proof (intro allI impI)
      fix p q assume pq: "0 \<le> p" "p \<le> q" "q < i + 1"
      consider "p = q" | "p \<le> j" "q \<le> j" | "p \<le> j" "q = j + 1" | "p \<le> j" "j + 2 \<le> q"
        | "p = j + 1" "j + 2 \<le> q" | "j + 2 \<le> p" "j + 2 \<le> q"
        using pq by linarith
      then show "at (upd b (j + 1) ?key) p \<le> at (upd b (j + 1) ?key) q"
        using I pq assms below [of p] above [of q]
        unfolding I_def sorted_on_def by cases (auto simp: at_upd)
    qed
  qed
  show ?thesis
    unfolding insertion_shift_def
    by (rule wp_while [where I = I and m = "\<lambda>(b, j). nat (j + 1)"], rule start)
      (use assms in \<open>auto simp: step final simp flip: not_less, auto simp: I_def\<close>)
qed

lemma insertionSort_sorts: "wp (insertionSort a (len a)) (\<lambda>b. sorted b \<and> mset b = mset a)"
  unfolding insertionSort_def
proof (rule wp_for_up [where I = "\<lambda>i b. mset b = mset a \<and> length b = length a \<and> sorted_on 0 i b"])
  fix i b assume "1 \<le> i" "i < len a" and b: "mset b = mset a \<and> length b = length a \<and> sorted_on 0 i b"
  then show "wp (bnd (rd b i) (\<lambda>key. bnd (insertion_shift key (b, i - 1)) (\<lambda>(arr, j). wr arr (j + 1) key)))
     (\<lambda>b. mset b = mset a \<and> length b = length a \<and> sorted_on 0 (i + 1) b)"
    by (simp, intro wp_conseq [OF insertion_shift_spec [of i b]]) auto
qed (auto simp: sorted_conv_on max_def intro: sorted_on_subset split: if_splits)

section \<open>The three programs meet the contract\<close>

interpretation bubble: sorting_routine "\<lambda>a. bubbleSort a (len a)" "\<lambda>_. True"
  by unfold_locales (simp_all add: bubbleSort_sorts)

interpretation selection: sorting_routine "\<lambda>a. selectionSort a (len a)" "\<lambda>_. True"
  by unfold_locales (simp_all add: selectionSort_sorts)

interpretation insertion: sorting_routine "\<lambda>a. insertionSort a (len a)" "\<lambda>_. True"
  by unfold_locales (simp_all add: insertionSort_sorts)

section \<open>Properties\<close>

text \<open>C31: the bubble, selection and insertion sorts return the sorted array, whatever the array.\<close>

theorem elementary_sorts_correct:
  "bubbleSort a (len a) = ok (sort a) \<and> selectionSort a (len a) = ok (sort a) \<and>
   insertionSort a (len a) = ok (sort a)"
  by (simp add: bubble.returns_sort selection.returns_sort insertion.returns_sort)

end
