(* ===== verification/Sort_Gap.thy ===== *)
theory Sort_Gap
  imports Cxx_Array
begin

text \<open>
  The gap sorts of \<open>DataStructure/sort\<close>: \<open>shell_sort.cxx\<close> and \<open>comb_sort.cxx\<close>.
  Shell sort is correct because a pass with gap \<open>g\<close> makes the array \<open>g\<close>-sorted and the
  last gap is 1.  Comb sort ends because the gap shrinks to 1 and every further pass that
  swaps removes an inversion.
\<close>

section \<open>Shell sort\<close>

text \<open>The \<open>j\<close> loop: gap-sorted elements above \<open>temp\<close> move up by \<open>gap\<close>.\<close>

definition shell_shift :: "int \<Rightarrow> int \<Rightarrow> int list \<times> int \<Rightarrow> (int list \<times> int) run" where
  "shell_shift gap temp = while_run
     (\<lambda>(arr, j). if j \<ge> gap then bnd (rd arr (j - gap)) (\<lambda>x. ok (x > temp)) else ok False)
     (\<lambda>(arr, j). bnd (rd arr (j - gap)) (\<lambda>x. bnd (wr arr j x) (\<lambda>arr. ok (arr, j - gap))))"

definition shell_pass :: "int \<Rightarrow> int \<Rightarrow> int list \<Rightarrow> int list run" where
  "shell_pass n gap arr =
     for_up gap n (\<lambda>i arr.
       bnd (rd arr i) (\<lambda>temp.
       bnd (shell_shift gap temp (arr, i)) (\<lambda>(arr, j).
       wr arr j temp))) arr"

definition shellSort :: "int list \<Rightarrow> int \<Rightarrow> int list run" where
  "shellSort arr n =
     bnd (while_run (\<lambda>(arr, gap). ok (gap > 0))
       (\<lambda>(arr, gap). bnd (shell_pass n gap arr) (\<lambda>arr. ok (arr, gap sdiv 2)))
       (arr, n sdiv 2)) (\<lambda>(arr, gap). ok arr)"

lemma dvd_step: "g dvd q - (j - g) \<longleftrightarrow> g dvd q - j" "g dvd j - g - p \<longleftrightarrow> g dvd j - p" for g :: int
proof -
  have "q - (j - g) = q - j + g" "j - p = j - g - p + g" by simp_all
  then show "g dvd q - (j - g) \<longleftrightarrow> g dvd q - j" "g dvd j - g - p \<longleftrightarrow> g dvd j - p"
    by (metis dvd_add_triv_right_iff)+
qed

lemma dvd_gap: "0 < p - q \<Longrightarrow> g dvd p - q \<Longrightarrow> g \<le> p - q" for g :: int
  by (rule zdvd_imp_le)

text \<open>The first \<open>hi\<close> elements are in order within each residue class of \<open>g\<close>.\<close>

definition gap_sorted :: "int \<Rightarrow> int \<Rightarrow> int list \<Rightarrow> bool" where
  "gap_sorted g hi a \<longleftrightarrow> (\<forall>p q. 0 \<le> p \<and> p < q \<and> q < hi \<and> g dvd q - p \<longrightarrow> at a p \<le> at a q)"

lemma gap_sorted_1: "gap_sorted 1 hi a \<longleftrightarrow> sorted_on 0 hi a"
  by (auto simp: gap_sorted_def sorted_on_def order.order_iff_strict)

lemma gap_sorted_start: "0 < g \<Longrightarrow> hi \<le> g \<Longrightarrow> gap_sorted g hi a"
  unfolding gap_sorted_def using zdvd_imp_le by force

lemma shell_shift_spec:
  assumes "0 < g" "g \<le> i" "i < len a" "gap_sorted g i a"
  shows "wp (shell_shift g (at a i) (a, i))
     (\<lambda>(b, j). 0 \<le> j \<and> j \<le> i \<and> length b = length a \<and>
        mset (upd b j (at a i)) = mset a \<and> gap_sorted g (i + 1) (upd b j (at a i)))"
proof -
  let ?t = "at a i"
  define I where "I = (\<lambda>(b, j). 0 \<le> j \<and> j \<le> i \<and> g dvd i - j \<and> length b = length a \<and>
      mset (upd b j ?t) = mset a \<and>
      (\<forall>p q. 0 \<le> p \<and> p < q \<and> q \<le> i \<and> g dvd q - p \<and> p \<noteq> j \<and> q \<noteq> j \<longrightarrow> at b p \<le> at b q) \<and>
      (\<forall>q. j < q \<and> q \<le> i \<and> g dvd q - j \<longrightarrow> ?t < at b q))"
  have start: "I (a, i)"
    using assms by (auto simp: I_def gap_sorted_def)
  have step: "I (upd b j (at b (j - g)), j - g)"
    if I: "I (b, j)" and j: "g \<le> j" "?t < at b (j - g)" for b j
  proof -
    let ?b = "upd b j (at b (j - g))"
    have bj: "j \<le> i" "length b = length a" and dv: "g dvd i - j" using I by (auto simp: I_def)
    have "upd ?b (j - g) ?t = exch (upd b j ?t) (j - g) j"
      using j bj assms by (simp add: exch_def upd_def at_def nat_eq_iff list_update_swap)
    then have ms: "mset (upd ?b (j - g) ?t) = mset a"
      using I j bj assms by (simp add: I_def)
    have ord: "at ?b p \<le> at ?b q"
      if pq: "0 \<le> p" "p < q" "q \<le> i" "g dvd q - p" "p \<noteq> j - g" "q \<noteq> j - g" for p q
    proof -
      consider "p = j" | "q = j" | "p \<noteq> j" "q \<noteq> j" by blast
      then show ?thesis
      proof cases
        case 1
        then have "at b (j - g) \<le> at b q"
          using I j pq assms(1) dvd_step(1) [of g q j] by (auto simp: I_def)
        with 1 pq j bj assms show ?thesis by (simp add: at_upd)
      next
        case 2
        then have "g dvd j - g - p" using pq dvd_step(2) by simp
        moreover have "p < j - g"
          using dvd_gap [of j p g] pq 2 by auto
        ultimately have "at b p \<le> at b (j - g)"
          using I pq(1) j assms(1) bj(1) by (simp add: I_def)
        with 2 pq j bj assms show ?thesis by (simp add: at_upd)
      next
        case 3
        with I pq have "at b p \<le> at b q" by (simp add: I_def)
        with 3 pq j bj assms show ?thesis by (simp add: at_upd)
      qed
    qed
    have gt: "?t < at ?b q" if q: "j - g < q" "q \<le> i" "g dvd q - (j - g)" for q
    proof (cases "q = j")
      case True
      with j bj assms show ?thesis by simp
    next
      case False
      have "g \<le> q - (j - g)" using dvd_gap [OF _ q(3)] q by simp
      with False q have "j < q" by simp
      with q I dvd_step(1) [of g q j] have "?t < at b q" by (simp add: I_def)
      with False j q assms show ?thesis by simp
    qed
    show ?thesis
      using j bj dv ms ord gt assms by (auto simp: I_def dvd_step(1))
  qed
  have final: "gap_sorted g (i + 1) (upd b j ?t)"
    if I: "I (b, j)" and stop: "j < g \<or> at b (j - g) \<le> ?t" for b j
    unfolding gap_sorted_def
  proof (intro allI impI)
    fix p q assume pq: "0 \<le> p \<and> p < q \<and> q < i + 1 \<and> g dvd q - p"
    have below: "at b p \<le> ?t" if "q = j"
    proof -
      have gp: "g \<le> j - p" using dvd_gap [of j p g] pq that by simp
      then have le: "at b (j - g) \<le> ?t" using pq stop by auto
      show ?thesis
      proof (cases "p = j - g")
        case True with le show ?thesis by simp
      next
        case False
        have "g dvd j - g - p" using pq that dvd_step(2) by simp
        with I pq that False gp assms(1) have "at b p \<le> at b (j - g)" by (auto simp: I_def)
        with le show ?thesis by simp
      qed
    qed
    show "at (upd b j ?t) p \<le> at (upd b j ?t) q"
      using I pq below assms by (auto simp: I_def at_upd)
  qed
  show ?thesis
    unfolding shell_shift_def
    by (rule wp_while [where I = I and m = "\<lambda>(b, j). nat j"], rule start)
      (use assms in \<open>auto simp: step final simp flip: not_less, auto simp: I_def\<close>)
qed

lemma shell_pass_spec:
  assumes "0 < g"
  shows "wp (shell_pass (len a) g a) (\<lambda>b. mset b = mset a \<and> gap_sorted g (len a) b)"
  unfolding shell_pass_def
proof (rule wp_for_up [where I = "\<lambda>i b. mset b = mset a \<and> length b = length a \<and> gap_sorted g i b"])
  fix i b assume "g \<le> i" "i < len a" and b: "mset b = mset a \<and> length b = length a \<and> gap_sorted g i b"
  with assms show "wp (bnd (rd b i) (\<lambda>temp. bnd (shell_shift g temp (b, i)) (\<lambda>(arr, j). wr arr j temp)))
     (\<lambda>b. mset b = mset a \<and> length b = length a \<and> gap_sorted g (i + 1) b)"
    by (simp, intro wp_conseq [OF shell_shift_spec [of g i b]]) auto
next
  fix b assume b: "mset b = mset a \<and> length b = length a \<and> gap_sorted g (max g (len a)) b"
  have "gap_sorted g (len a) b"
    unfolding gap_sorted_def
    by (intro allI impI) (use b in \<open>auto simp: gap_sorted_def\<close>)
  with b show "mset b = mset a \<and> gap_sorted g (len a) b" by simp
qed (use assms gap_sorted_start in auto)

lemma shellSort_sorts: "wp (shellSort a (len a)) (\<lambda>b. sorted b \<and> mset b = mset a)"
proof -
  define I where "I = (\<lambda>(b, gap::int). mset b = mset a \<and> length b = length a \<and> 0 \<le> gap \<and>
     (gap = 0 \<longrightarrow> sorted_on 0 (len a) b))"
  have pass: "wp (shell_pass (len a) gap b) (\<lambda>c. I (c, gap div 2))" if I: "I (b, gap)" and g: "0 < gap" for b gap
  proof -
    have b: "length b = length a" "mset b = mset a" using I by (auto simp: I_def)
    have "I (c, gap div 2)" if c: "mset c = mset b" "gap_sorted gap (len b) c" for c
    proof -
      have "sorted_on 0 (len a) c" if "gap div 2 = 0"
      proof -
        from that g have "gap = 1" by simp
        with c b show ?thesis by (simp flip: gap_sorted_1)
      qed
      with c b g show ?thesis by (auto simp: I_def dest: mset_eq_len)
    qed
    with shell_pass_spec [OF g, of b] b show ?thesis by (auto elim: wp_conseq)
  qed
  have start: "I (a, len a sdiv 2)"
    by (auto simp: I_def sdiv_nonneg)
  show ?thesis
    unfolding shellSort_def wp_bnd
  proof (rule wp_while [where I = I and m = "\<lambda>(b, gap). nat gap"], rule start)
    fix s assume "I s"
    obtain b gap where s: "s = (b, gap)" by force
    with \<open>I s\<close> pass [of b gap]
    show "wp ((\<lambda>(arr, gap). ok (gap > 0)) s) (\<lambda>t. if t
        then wp ((\<lambda>(arr, gap). bnd (shell_pass (len a) gap arr) (\<lambda>arr. ok (arr, gap sdiv 2))) s)
               (\<lambda>s'. I s' \<and> (case s' of (b, gap) \<Rightarrow> nat gap) < (case s of (b, gap) \<Rightarrow> nat gap))
        else wp (case s of (arr, gap) \<Rightarrow> ok arr) (\<lambda>b. sorted b \<and> mset b = mset a))"
      by (auto simp: sdiv_nonneg I_def sorted_conv_on elim!: wp_conseq)
  qed
qed

interpretation shell: sorting_routine "\<lambda>a. shellSort a (len a)" "\<lambda>_. True"
  by unfold_locales (simp_all add: shellSort_sorts)

section \<open>Comb sort\<close>

definition getNextGap :: "int \<Rightarrow> int run" where
  "getNextGap gap =
     bnd (i32 (gap * 10)) (\<lambda>g. bnd (div32 g 13) (\<lambda>gap.
       if gap < 1 then ok 1 else ok gap))"

definition comb_pass :: "int \<Rightarrow> int \<Rightarrow> int list \<Rightarrow> (int list \<times> bool) run" where
  "comb_pass n gap a =
     for_up 0 (n - gap) (\<lambda>i (a, swapped).
       bnd (rd a i) (\<lambda>x. bnd (rd a (i + gap)) (\<lambda>y.
         if x > y then bnd (swap_at a i (i + gap)) (\<lambda>a. ok (a, True))
         else ok (a, swapped)))) (a, False)"

definition combSort :: "int list \<Rightarrow> int \<Rightarrow> int list run" where
  "combSort a n =
     bnd (while_run (\<lambda>(a, gap, swapped). ok (gap \<noteq> 1 \<or> swapped))
       (\<lambda>(a, gap, swapped). bnd (getNextGap gap) (\<lambda>gap.
          bnd (comb_pass n gap a) (\<lambda>(a, swapped). ok (a, gap, swapped))))
       (a, n, True)) (\<lambda>(a, gap, swapped). ok a)"

definition inversions :: "int list \<Rightarrow> (int \<times> int) set" where
  "inversions a = {(i, j). 0 \<le> i \<and> i < j \<and> j < len a \<and> at a i > at a j}"

lemma finite_inversions [simp]: "finite (inversions a)"
  by (rule finite_subset [of _ "{0..<len a} \<times> {0..<len a}"]) (auto simp: inversions_def)

text \<open>Exchanging an adjacent pair that is out of order removes exactly that inversion.\<close>

lemma inversions_exch:
  assumes "0 \<le> k" "k + 1 < len a" "at a k > at a (k + 1)"
  shows "card (inversions (exch a k (k + 1))) < card (inversions a)"
proof -
  define t where "t i = (if i = k then k + 1 else if i = k + 1 then k else i)" for i :: int
  have t: "t (t i) = i" for i by (simp add: t_def)
  have at: "at (exch a k (k + 1)) i = at a (t i)" if "0 \<le> i" for i
    using assms that by (auto simp: at_exch t_def)
  have "(t i, t j) \<in> inversions a - {(k, k + 1)}" if ij: "(i, j) \<in> inversions (exch a k (k + 1))" for i j
  proof -
    have b: "0 \<le> i" "i < j" "j < len a" and v: "at a (t i) > at a (t j)"
      using ij at by (auto simp: inversions_def)
    have "\<not> (i = k \<and> j = k + 1)" using v assms by (auto simp: t_def)
    then have "0 \<le> t i" "t i < t j" "t j < len a" "(t i, t j) \<noteq> (k, k + 1)"
      using b assms by (auto simp: t_def)
    with v show ?thesis by (simp add: inversions_def)
  qed
  then have sub: "(\<lambda>(i, j). (t i, t j)) ` inversions (exch a k (k + 1)) \<subseteq> inversions a - {(k, k + 1)}"
    by auto
  have inj: "inj_on (\<lambda>(i, j). (t i, t j)) A" for A
    by (auto simp: inj_on_def t_def split: if_splits)
  have "card (inversions (exch a k (k + 1))) \<le> card (inversions a - {(k, k + 1)})"
    using card_inj_on_le [OF inj sub] by simp
  also have "\<dots> < card (inversions a)"
    by (rule card_Diff1_less, simp) (use assms in \<open>simp add: inversions_def\<close>)
  finally show ?thesis .
qed

lemma getNextGap_spec:
  assumes "0 \<le> g" "g * 10 \<le> int_max"
  shows "wp (getNextGap g) (\<lambda>h. 1 \<le> h \<and> (h < g \<or> h = 1) \<and> h * 10 \<le> int_max)"
  using assms by (auto simp: getNextGap_def div32_def sdiv_nonneg)

lemma comb_pass_spec:
  assumes "1 \<le> g"
  shows "wp (comb_pass (len a) g a) (\<lambda>(b, swp). mset b = mset a \<and>
     (swp \<and> g = 1 \<longrightarrow> card (inversions b) < card (inversions a)) \<and>
     (\<not> swp \<and> g = 1 \<longrightarrow> sorted b))"
proof -
  define I where "I i = (\<lambda>(b, swp). mset b = mset a \<and> length b = length a \<and>
     (g = 1 \<longrightarrow> (if swp then card (inversions b) < card (inversions a)
                 else b = a \<and> (\<forall>p. 0 \<le> p \<and> p < i \<longrightarrow> at a p \<le> at a (p + 1)))))" for i
  have fin: "case s of (b, swp) \<Rightarrow> mset b = mset a \<and>
     (swp \<and> g = 1 \<longrightarrow> card (inversions b) < card (inversions a)) \<and> (\<not> swp \<and> g = 1 \<longrightarrow> sorted b)"
    if "I (max 0 (len a - g)) s" for s
    using that
    by (auto simp: I_def sorted_conv_on max_def intro!: sorted_on_adjacentI split: if_splits)
  show ?thesis
    unfolding comb_pass_def
  proof (rule wp_for_up [where I = I, OF _ _ fin])
    fix i s assume i: "0 \<le> i" "i < len a - g" and "I i s"
    obtain b swp where s: "s = (b, swp)" by force
    have b: "length b = length a" using \<open>I i s\<close> by (simp add: I_def s)
    have "card (inversions (exch b i (i + 1))) < card (inversions a)"
      if "g = 1" "at b i > at b (i + 1)"
    proof -
      have "card (inversions (exch b i (i + 1))) < card (inversions b)"
        using inversions_exch [of i b] that i b by simp
      with \<open>I i s\<close> that show ?thesis by (auto simp: I_def s split: if_splits)
    qed
    with \<open>I i s\<close> i b assms
    show "wp (case s of (a, swapped) \<Rightarrow> bnd (rd a i) (\<lambda>x. bnd (rd a (i + g)) (\<lambda>y.
         if x > y then bnd (swap_at a i (i + g)) (\<lambda>a. ok (a, True)) else ok (a, swapped))))
       (I (i + 1))"
      by (auto simp: s I_def all_less_step simp del: for_up_step split: if_splits)
  qed (simp add: I_def)
qed

lemma combSort_sorts:
  assumes "len a * 10 \<le> int_max"
  shows "wp (combSort a (len a)) (\<lambda>b. sorted b \<and> mset b = mset a)"
proof -
  define I where "I = (\<lambda>(b, gap::int, swp). mset b = mset a \<and> length b = length a \<and> 0 \<le> gap \<and>
     gap * 10 \<le> int_max \<and> (gap = 1 \<and> \<not> swp \<longrightarrow> sorted b))"
  define r where "r = inv_image (less_than <*lex*> less_than)
     (\<lambda>(b, gap, swp). (if gap = 0 then 2 else nat gap, if swp then Suc (card (inversions b)) else 0))"
  have round: "wp (bnd (getNextGap gap) (\<lambda>gap. bnd (comb_pass (len a) gap b) (\<lambda>(b, swp). ok (b, gap, swp))))
      (\<lambda>s'. I s' \<and> (s', b, gap, swp) \<in> r)" if I: "I (b, gap, swp)" and go: "gap \<noteq> 1 \<or> swp" for b gap swp
  proof -
    have b: "length b = length a" "mset b = mset a" and g: "0 \<le> gap" "gap * 10 \<le> int_max"
      using I by (auto simp: I_def)
    have "wp (bnd (comb_pass (len a) h b) (\<lambda>(b, swp). ok (b, h, swp))) (\<lambda>s'. I s' \<and> (s', b, gap, swp) \<in> r)"
      if h: "1 \<le> h" "h < gap \<or> h = 1" "h * 10 \<le> int_max" for h
      unfolding wp_bnd
      by (rule wp_conseq [OF comb_pass_spec [OF h(1), of b, unfolded b(1)]])
        (use h b g go in \<open>auto simp: I_def r_def dest: mset_eq_len split: if_splits\<close>)
    with getNextGap_spec [OF g] show ?thesis by (auto elim!: wp_conseq)
  qed
  show ?thesis
    unfolding combSort_def wp_bnd
  proof (rule wp_while_wf [where I = I and r = r])
    fix s assume "I s"
    obtain b gap swp where s: "s = (b, gap, swp)" by (cases s)
    with \<open>I s\<close> round [of b gap swp]
    show "wp ((\<lambda>(a, gap, swapped). ok (gap \<noteq> 1 \<or> swapped)) s) (\<lambda>t. if t
        then wp ((\<lambda>(c, gap, swapped). bnd (getNextGap gap) (\<lambda>gap.
          bnd (comb_pass (len a) gap c) (\<lambda>(a, swapped). ok (a, gap, swapped)))) s)
               (\<lambda>s'. I s' \<and> (s', s) \<in> r)
        else wp (case s of (a, gap, swapped) \<Rightarrow> ok a) (\<lambda>b. sorted b \<and> mset b = mset a))"
      by (auto simp: I_def)
  qed (use assms in \<open>auto simp: r_def I_def\<close>)
qed

interpretation comb: sorting_routine "\<lambda>a. combSort a (len a)" "\<lambda>a. len a * 10 \<le> int_max"
  by unfold_locales (auto simp: combSort_sorts dest: mset_eq_len)

section \<open>Properties\<close>

text \<open>C30: Shell sort, with the gaps n/2, n/4, ..., 1, returns the sorted array.\<close>

theorem shellSort_correct: "shellSort a (len a) = ok (sort a)"
  by (rule shell.returns_sort) simp

text \<open>
  C29: comb sort returns, and returns the sorted array, when ten times the length fits an
  \<open>int\<close>; a longer array makes the first gap computation overflow.
\<close>

theorem combSort_correct:
  "combSort a (len a) = (if len a * 10 \<le> int_max then ok (sort a) else fail Signed_Overflow)"
proof (cases "len a * 10 \<le> int_max")
  case False
  then have "getNextGap (len a) = fail Signed_Overflow" by (simp add: getNextGap_def i32_def)
  with False show ?thesis by (auto simp: combSort_def while_run_unfold)
qed (simp add: comb.returns_sort)

end
