(* ===== verification/Sort_Merge.thy ===== *)
theory Sort_Merge
  imports Cxx_Array
begin

text \<open>
  \<open>DataStructure/sort/merge_sort.cxx\<close>.  The two temporaries of \<open>merge\<close> are arrays that
  hold nothing until they are written; the three loops are shown to compute the functional
  merge of the two subarrays.
\<close>

section \<open>The program\<close>

definition copy_out :: "int list \<Rightarrow> int \<Rightarrow> int \<Rightarrow> int option list run" where
  "copy_out arr l n =
     for_up 0 n (\<lambda>i L. bnd (rd arr (l + i)) (\<lambda>x. wr L i (Some x))) (uninit n)"

definition merge_main :: "int \<Rightarrow> int \<Rightarrow> int option list \<Rightarrow> int option list \<Rightarrow>
    int list \<times> int \<times> int \<times> int \<Rightarrow> (int list \<times> int \<times> int \<times> int) run" where
  "merge_main n1 n2 L R = while_run
     (\<lambda>(arr, i, j, k). ok (i < n1 \<and> j < n2))
     (\<lambda>(arr, i, j, k). bnd (rdi L i) (\<lambda>x. bnd (rdi R j) (\<lambda>y.
        if x \<le> y then bnd (wr arr k x) (\<lambda>arr. ok (arr, i + 1, j, k + 1))
        else bnd (wr arr k y) (\<lambda>arr. ok (arr, i, j + 1, k + 1)))))"

definition merge_rest :: "int \<Rightarrow> int option list \<Rightarrow> int list \<times> int \<times> int \<Rightarrow> (int list \<times> int \<times> int) run" where
  "merge_rest n1 L = while_run
     (\<lambda>(arr, i, k). ok (i < n1))
     (\<lambda>(arr, i, k). bnd (rdi L i) (\<lambda>x. bnd (wr arr k x) (\<lambda>arr. ok (arr, i + 1, k + 1))))"

definition merge :: "int list \<Rightarrow> int \<Rightarrow> int \<Rightarrow> int \<Rightarrow> int list run" where
  "merge arr l m r =
     (let n1 = m - l + 1; n2 = r - m in
      bnd (copy_out arr l n1) (\<lambda>L.
      bnd (copy_out arr (m + 1) n2) (\<lambda>R.
      bnd (merge_main n1 n2 L R (arr, 0, 0, l)) (\<lambda>(arr, i, j, k).
      bnd (merge_rest n1 L (arr, i, k)) (\<lambda>(arr, i, k).
      bnd (merge_rest n2 R (arr, j, k)) (\<lambda>(arr, j, k). ok arr))))))"

function mergeSort :: "int list \<Rightarrow> int \<Rightarrow> int \<Rightarrow> int list run" where
  "mergeSort arr l r =
     (if l < r then
        (let m = l + (r - l) sdiv 2 in
         bnd (mergeSort arr l m) (\<lambda>arr.
         bnd (mergeSort arr (m + 1) r) (\<lambda>arr.
         merge arr l m r)))
      else ok arr)"
  by pat_completeness auto
termination
  by (relation "measure (\<lambda>(arr, l, r). nat (r - l))") (auto simp: sdiv_nonneg)

declare mergeSort.simps [simp del]

section \<open>The functional merge\<close>

fun fmerge :: "int list \<Rightarrow> int list \<Rightarrow> int list" where
  "fmerge [] ys = ys"
| "fmerge xs [] = xs"
| "fmerge (x # xs) (y # ys) =
     (if x \<le> y then x # fmerge xs (y # ys) else y # fmerge (x # xs) ys)"

lemma fmerge_Nil2 [simp]: "fmerge xs [] = xs"
  by (cases xs) simp_all

lemma mset_fmerge [simp]: "mset (fmerge xs ys) = mset xs + mset ys"
  by (induction xs ys rule: fmerge.induct) simp_all

lemma set_fmerge [simp]: "set (fmerge xs ys) = set xs \<union> set ys"
  by (metis mset_fmerge set_mset_mset set_mset_union)

lemma length_fmerge [simp]: "length (fmerge xs ys) = length xs + length ys"
  by (metis mset_fmerge size_mset size_union)

lemma sorted_fmerge [simp]: "sorted xs \<Longrightarrow> sorted ys \<Longrightarrow> sorted (fmerge xs ys)"
  by (induction xs ys rule: fmerge.induct) auto

section \<open>Correctness\<close>

lemma copy_out_spec:
  assumes "0 \<le> l" "0 \<le> n" "l + n \<le> len arr"
  shows "wp (copy_out arr l n) (\<lambda>L. L = map Some (slice arr l n))"
  unfolding copy_out_def
proof (rule wp_for_up [where I = "\<lambda>i L. L = map Some (slice arr l i) @ replicate (nat (n - i)) None"])
  fix i L assume i: "0 \<le> i" "i < n" and L: "L = map Some (slice arr l i) @ replicate (nat (n - i)) None"
  have len_s: "length (slice arr l i) = nat i"
    using assms i by (simp add: slice_def)
  have "slice arr l (i + 1) = slice arr l i @ [at arr (l + i)]"
    using assms i by (simp add: slice_def at_def nat_add_distrib take_Suc_conv_app_nth)
  moreover have "replicate (nat (n - i)) None = (None::int option) # replicate (nat (n - (i + 1))) None"
    using i by (simp flip: replicate_Suc add: Suc_nat_eq_nat_zadd1)
  ultimately show "wp (bnd (rd arr (l + i)) (\<lambda>x. wr L i (Some x)))
     (\<lambda>L. L = map Some (slice arr l (i + 1)) @ replicate (nat (n - (i + 1))) None)"
    using assms i len_s by (simp add: L upd_def list_update_append)
qed (use assms in \<open>auto simp: slice_def uninit_def max_def\<close>)

lemma merge_rest_eq:
  assumes "0 \<le> l" "0 \<le> i" "i \<le> len xs" "k = l + len P" "l + len P + (len xs - i) \<le> len a"
  shows "merge_rest (len xs) (map Some xs) (splice_at a l P, i, k) =
     ok (splice_at a l (P @ drop (nat i) xs), len xs, k + (len xs - i))"
proof -
  define I where "I = (\<lambda>(b, i', k'). \<exists>P'. b = splice_at a l P' \<and> i \<le> i' \<and> i' \<le> len xs \<and>
     k' = l + len P' \<and> len P' = len P + (i' - i) \<and> P' @ drop (nat i') xs = P @ drop (nat i) xs)"
  show ?thesis
    unfolding merge_rest_def wp_eq_ok [symmetric]
  proof (rule wp_while [where I = I and m = "\<lambda>(b, i', k'). nat (len xs - i')"])
    fix s assume "I s"
    obtain b i' k' where s: "s = (b, i', k')" by (cases s)
    with \<open>I s\<close> obtain P' where P': "b = splice_at a l P'" "i \<le> i'" "i' \<le> len xs"
      "k' = l + len P'" "len P' = len P + (i' - i)" "P' @ drop (nat i') xs = P @ drop (nat i) xs"
      by (auto simp: I_def)
    have "I (upd b k' (at xs i'), i' + 1, k' + 1)" if "i' < len xs"
      unfolding I_def prod.case
      by (rule exI [of _ "P' @ [at xs i']"])
        (use P' that assms drop_at [of i' xs] in \<open>simp add: upd_splice_at\<close>)
    with P' s assms show "wp ((\<lambda>(arr, i, k). ok (i < len xs)) s) (\<lambda>t. if t
        then wp ((\<lambda>(arr, i, k). bnd (rdi (map Some xs) i) (\<lambda>x. bnd (wr arr k x) (\<lambda>arr. ok (arr, i + 1, k + 1)))) s)
          (\<lambda>s'. I s' \<and> (case s' of (b, i', k') \<Rightarrow> nat (len xs - i')) < (case s of (b, i', k') \<Rightarrow> nat (len xs - i')))
        else s = (splice_at a l (P @ drop (nat i) xs), len xs, k + (len xs - i)))"
      by (auto simp: at_map_Some)
  qed (use assms in \<open>auto simp: I_def\<close>)
qed

lemma merge_main_spec:
  assumes "0 \<le> l" "l + len xs + len ys \<le> len a"
  shows "wp (merge_main (len xs) (len ys) (map Some xs) (map Some ys) (a, 0, 0, l))
     (\<lambda>(b, i, j, k). \<exists>P. b = splice_at a l P \<and> k = l + len P \<and> 0 \<le> i \<and> i \<le> len xs \<and> 0 \<le> j \<and> j \<le> len ys \<and>
        len P = i + j \<and> (i = len xs \<or> j = len ys) \<and>
        P @ fmerge (drop (nat i) xs) (drop (nat j) ys) = fmerge xs ys)"
proof -
  define I where "I = (\<lambda>(b, i, j, k). \<exists>P. b = splice_at a l P \<and> k = l + len P \<and>
     0 \<le> i \<and> i \<le> len xs \<and> 0 \<le> j \<and> j \<le> len ys \<and> len P = i + j \<and>
     P @ fmerge (drop (nat i) xs) (drop (nat j) ys) = fmerge xs ys)"
  show ?thesis
    unfolding merge_main_def
  proof (rule wp_while [where I = I and m = "\<lambda>(b, i, j, k). nat (len xs - i + (len ys - j))"])
    fix s assume "I s"
    obtain b i j k where s: "s = (b, i, j, k)" by (cases s)
    with \<open>I s\<close> obtain P where P: "b = splice_at a l P" "k = l + len P" "0 \<le> i" "i \<le> len xs" "0 \<le> j"
      "j \<le> len ys" "len P = i + j" "P @ fmerge (drop (nat i) xs) (drop (nat j) ys) = fmerge xs ys"
      by (auto simp: I_def)
    have left: "I (upd b k (at xs i), i + 1, j, k + 1)" if "i < len xs" "j < len ys" "at xs i \<le> at ys j"
      unfolding I_def prod.case
      by (rule exI [of _ "P @ [at xs i]"])
        (use P that assms drop_at [of i xs] drop_at [of j ys] in \<open>simp add: upd_splice_at\<close>)
    have right: "I (upd b k (at ys j), i, j + 1, k + 1)" if "i < len xs" "j < len ys" "\<not> at xs i \<le> at ys j"
      unfolding I_def prod.case
      by (rule exI [of _ "P @ [at ys j]"])
        (use P that assms drop_at [of i xs] drop_at [of j ys] in \<open>simp add: upd_splice_at\<close>)
    from P s assms left right
    show "wp ((\<lambda>(arr, i, j, k). ok (i < len xs \<and> j < len ys)) s) (\<lambda>t. if t
        then wp ((\<lambda>(arr, i, j, k). bnd (rdi (map Some xs) i) (\<lambda>x. bnd (rdi (map Some ys) j) (\<lambda>y.
          if x \<le> y then bnd (wr arr k x) (\<lambda>arr. ok (arr, i + 1, j, k + 1))
          else bnd (wr arr k y) (\<lambda>arr. ok (arr, i, j + 1, k + 1))))) s)
          (\<lambda>s'. I s' \<and> (case s' of (b, i, j, k) \<Rightarrow> nat (len xs - i + (len ys - j)))
             < (case s of (b, i, j, k) \<Rightarrow> nat (len xs - i + (len ys - j))))
        else (case s of (b, i, j, k) \<Rightarrow> \<exists>P. b = splice_at a l P \<and> k = l + len P \<and> 0 \<le> i \<and> i \<le> len xs \<and>
          0 \<le> j \<and> j \<le> len ys \<and> len P = i + j \<and> (i = len xs \<or> j = len ys) \<and>
          P @ fmerge (drop (nat i) xs) (drop (nat j) ys) = fmerge xs ys))"
      by (auto simp: at_map_Some)
  qed (auto simp: I_def)
qed

lemma merge_spec:
  assumes "0 \<le> l" "l \<le> m" "m \<le> r" "r < len a"
  shows "wp (merge a l m r) (\<lambda>b. b = splice_at a l (fmerge (slice a l (m - l + 1)) (slice a (m + 1) (r - m))))"
proof -
  define xs where "xs = slice a l (m - l + 1)"
  define ys where "ys = slice a (m + 1) (r - m)"
  have lx: "len xs = m - l + 1" and ly: "len ys = r - m"
    using assms by (auto simp: xs_def ys_def slice_def)
  have X: "wp (copy_out a l (len xs)) (\<lambda>L. L = map Some xs)"
    using copy_out_spec [of l "len xs" a] assms lx by (simp add: xs_def)
  have Y: "wp (copy_out a (m + 1) (len ys)) (\<lambda>L. L = map Some ys)"
    using copy_out_spec [of "m + 1" "len ys" a] assms ly by (simp add: ys_def)
  have rest: "bnd (merge_rest (len xs) (map Some xs) (b, i, k)) (\<lambda>(b, i, k).
      bnd (merge_rest (len ys) (map Some ys) (b, j, k)) (\<lambda>(b, j, k). ok b)) =
      ok (splice_at a l (fmerge xs ys))"
    if P: "b = splice_at a l P" "k = l + len P" "0 \<le> i" "i \<le> len xs" "0 \<le> j" "j \<le> len ys"
      "len P = i + j" "i = len xs \<or> j = len ys" "P @ fmerge (drop (nat i) xs) (drop (nat j) ys) = fmerge xs ys"
    for b i j k P
  proof -
    have all: "(P @ drop (nat i) xs) @ drop (nat j) ys = fmerge xs ys"
      using P(8,9) by auto
    have "merge_rest (len xs) (map Some xs) (b, i, k) =
        ok (splice_at a l (P @ drop (nat i) xs), len xs, k + (len xs - i))"
      unfolding P(1) by (rule merge_rest_eq) (use P assms lx ly in auto)
    moreover have "merge_rest (len ys) (map Some ys) (splice_at a l (P @ drop (nat i) xs), j, k + (len xs - i)) =
        ok (splice_at a l (fmerge xs ys), len ys, k + (len xs - i) + (len ys - j))"
      unfolding all [symmetric] by (rule merge_rest_eq) (use P assms lx ly in auto)
    ultimately show ?thesis by simp
  qed
  have "wp (merge_main (len xs) (len ys) (map Some xs) (map Some ys) (a, 0, 0, l))
     (\<lambda>(arr, i, j, k). wp (bnd (merge_rest (len xs) (map Some xs) (arr, i, k)) (\<lambda>(arr, i, k).
      bnd (merge_rest (len ys) (map Some ys) (arr, j, k)) (\<lambda>(arr, j, k). ok arr)))
      (\<lambda>b. b = splice_at a l (fmerge xs ys)))"
  proof (rule wp_conseq [OF merge_main_spec])
    fix s assume "case s of (b, i, j, k) \<Rightarrow> \<exists>P. b = splice_at a l P \<and> k = l + len P \<and> 0 \<le> i \<and> i \<le> len xs \<and>
        0 \<le> j \<and> j \<le> len ys \<and> len P = i + j \<and> (i = len xs \<or> j = len ys) \<and>
        P @ fmerge (drop (nat i) xs) (drop (nat j) ys) = fmerge xs ys"
    then show "case s of (arr, i, j, k) \<Rightarrow> wp (bnd (merge_rest (len xs) (map Some xs) (arr, i, k)) (\<lambda>(arr, i, k).
      bnd (merge_rest (len ys) (map Some ys) (arr, j, k)) (\<lambda>(arr, j, k). ok arr)))
      (\<lambda>b. b = splice_at a l (fmerge xs ys))"
      unfolding wp_eq_ok by (cases s) (auto simp only: prod.case intro: rest)
  qed (use assms lx ly in auto)
  then show ?thesis
    unfolding merge_def Let_def wp_bnd xs_def [symmetric] ys_def [symmetric] unfolding lx [symmetric] ly [symmetric]
    by (intro wp_conseq [OF X]) (auto intro!: wp_conseq [OF Y] simp: case_prod_unfold)
qed

lemma splice_at_append:
  "0 \<le> l \<Longrightarrow> l + len xs + len ys \<le> len a \<Longrightarrow>
   splice_at (splice_at a l xs) (l + len xs) ys = splice_at a l (xs @ ys)"
  by (simp add: splice_at_def nat_add_distrib add.commute add.left_commute)

lemma splice_at_again:
  "0 \<le> l \<Longrightarrow> l + len xs \<le> len a \<Longrightarrow> len ys = len xs \<Longrightarrow> splice_at (splice_at a l xs) l ys = splice_at a l ys"
  by (simp add: splice_at_def)

lemma slice_past_splice:
  "0 \<le> l \<Longrightarrow> l + len xs \<le> len a \<Longrightarrow> slice (splice_at a l xs) (l + len xs) n = slice a (l + len xs) n"
  by (simp add: slice_def splice_at_def nat_add_distrib)

lemma slice_splice_parts:
  assumes "0 \<le> l" "l + len xs + len ys \<le> len a"
  shows "slice (splice_at a l (xs @ ys)) l (len xs) = xs"
    and "slice (splice_at a l (xs @ ys)) (l + len xs) (len ys) = ys"
  using assms by (simp_all add: slice_def splice_at_def nat_add_distrib)

lemma mergeSort_spec:
  assumes "0 \<le> l" "r < len a"
  shows "wp (mergeSort a l r) (\<lambda>b. \<exists>xs. b = splice_at a l xs \<and> sorted xs \<and>
     mset xs = mset (slice a l (r - l + 1)))"
  using assms
proof (induction a l r rule: mergeSort.induct)
  case (1 a l r)
  show ?case
  proof (cases "l < r")
    case False
    have "sorted (slice a l (r - l + 1)) \<and> splice_at a l (slice a l (r - l + 1)) = a"
    proof (cases "l = r")
      case True
      with 1 have "drop (nat l) a = a ! nat l # drop (Suc (nat l)) a"
        by (simp add: Cons_nth_drop_Suc nat_less_iff)
      moreover from this have "take (nat l) a @ a ! nat l # drop (Suc (nat l)) a = a"
        by (metis append_take_drop_id)
      ultimately show ?thesis using True by (simp add: slice_def splice_at_def)
    next
      case neq: False
      with False show ?thesis by (simp add: slice_def)
    qed
    with False show ?thesis by (subst mergeSort.simps) (auto intro!: exI [of _ "slice a l (r - l + 1)"])
  next
    case True
    define m where "m = l + (r - l) sdiv 2"
    have m: "l \<le> m" "m < r" using True by (auto simp: m_def sdiv_nonneg)
    have "wp (mergeSort a l m) (\<lambda>b. \<exists>xs. b = splice_at a l xs \<and> sorted xs \<and> mset xs = mset (slice a l (m - l + 1)))"
      using "1.IH"(1) [OF True m_def] "1.prems" m by simp
    then obtain xs where xs: "mergeSort a l m = ok (splice_at a l xs)" "sorted xs"
      "mset xs = mset (slice a l (m - l + 1))" by (auto simp: wp_iff)
    have lx: "len xs = m - l + 1"
      using mset_eq_len [OF xs(3)] m "1.prems" by (simp add: slice_def)
    have bl: "l + len xs = m + 1" using lx by simp
    have "wp (mergeSort (splice_at a l xs) (m + 1) r) (\<lambda>b. \<exists>ys. b = splice_at (splice_at a l xs) (m + 1) ys \<and>
        sorted ys \<and> mset ys = mset (slice (splice_at a l xs) (m + 1) (r - (m + 1) + 1)))"
      using "1.IH"(2) [OF True m_def xs(1)] "1.prems" m lx by simp
    then obtain ys where ys: "mergeSort (splice_at a l xs) (m + 1) r = ok (splice_at a l (xs @ ys))" "sorted ys"
      "mset ys = mset (slice a (m + 1) (r - m))" and ly: "len ys = r - m"
    proof (clarsimp simp: wp_iff simp del: ok_eq)
      fix ys assume hyp: "\<And>ys'. ok (splice_at (splice_at a l xs) (m + 1) ys) = ok (splice_at a l (xs @ ys')) \<Longrightarrow>
          sorted ys' \<Longrightarrow> mset ys' = mset (slice a (m + 1) (r - m)) \<Longrightarrow> len ys' = r - m \<Longrightarrow> thesis"
        and "sorted ys" and ms: "mset ys = mset (slice (splice_at a l xs) (m + 1) (r - m))"
      have ms': "mset ys = mset (slice a (m + 1) (r - m))"
        using ms slice_past_splice [of l xs a "r - m"] "1.prems" m lx bl by simp
      then have "len ys = r - m"
        using mset_eq_len [OF ms'] m "1.prems" by (simp add: slice_def)
      with hyp [of ys] ms' \<open>sorted ys\<close> splice_at_append [of l xs ys a] "1.prems" m lx bl show thesis by simp
    qed
    let ?c = "splice_at a l (xs @ ys)"
    have c: "slice ?c l (m - l + 1) = xs" "slice ?c (m + 1) (r - m) = ys"
      using slice_splice_parts [of l xs ys a] "1.prems" m lx ly bl by simp_all
    have "wp (merge ?c l m r) (\<lambda>b. b = splice_at a l (fmerge xs ys))"
      using merge_spec [of l m r ?c] "1.prems" m lx ly c splice_at_again [of l "xs @ ys" a "fmerge xs ys"] by simp
    moreover have "mset (fmerge xs ys) = mset (slice a l (r - l + 1))"
      using slice_split [of l "m - l + 1" "r - m" a] xs(3) ys(3) "1.prems" m
      by (simp add: algebra_simps)
    ultimately show ?thesis
      using True xs(1,2) ys(1,2)
      by (subst mergeSort.simps) (auto simp: Let_def m_def [symmetric] elim!: wp_conseq
        intro!: exI [of _ "fmerge xs ys"])
  qed
qed

lemma mergeSort_sorts: "wp (mergeSort a 0 (len a - 1)) (\<lambda>b. sorted b \<and> mset b = mset a)"
proof (rule wp_conseq [OF mergeSort_spec])
  fix b assume "\<exists>xs. b = splice_at a 0 xs \<and> sorted xs \<and> mset xs = mset (slice a 0 (len a - 1 - 0 + 1))"
  then obtain xs where xs: "b = splice_at a 0 xs" "sorted xs" "mset xs = mset a" by auto
  with mset_eq_len [OF xs(3)] show "sorted b \<and> mset b = mset a"
    by (simp add: splice_at_def)
qed simp_all

interpretation merges: sorting_routine "\<lambda>a. mergeSort a 0 (len a - 1)" "\<lambda>_. True"
  by unfold_locales (simp_all add: mergeSort_sorts)

section \<open>Properties\<close>

text \<open>C22: merge sort of a whole array returns the sorted array.\<close>

theorem mergeSort_correct: "mergeSort a 0 (len a - 1) = ok (sort a)"
  by (rule merges.returns_sort) simp

end
