(* ===== verification/Sort_Quick.thy ===== *)
theory Sort_Quick
  imports Cxx_Array
begin

text \<open>
  \<open>DataStructure/sort/quick_sort.cxx\<close>: the partition around the last element and the
  recursion on the two sides.
\<close>

definition partition :: "int list \<Rightarrow> int \<Rightarrow> int \<Rightarrow> (int list \<times> int) run" where
  "partition arr low high =
     bnd (rd arr high) (\<lambda>pivot.
     bnd (for_up low high (\<lambda>j (arr, i).
            bnd (rd arr j) (\<lambda>x.
              if x \<le> pivot then bnd (swap_at arr (i + 1) j) (\<lambda>arr. ok (arr, i + 1))
              else ok (arr, i))) (arr, low - 1)) (\<lambda>(arr, i).
     bnd (swap_at arr (i + 1) high) (\<lambda>arr. ok (arr, i + 1))))"

lemma partition_spec:
  assumes "0 \<le> low" "low \<le> high" "high < len a"
  shows "wp (partition a low high) (\<lambda>(b, p). low \<le> p \<and> p \<le> high \<and> mset b = mset a \<and>
     (\<forall>k. 0 \<le> k \<and> k < low \<or> high < k \<and> k < len a \<longrightarrow> at b k = at a k) \<and>
     (\<forall>k. low \<le> k \<and> k < p \<longrightarrow> at b k \<le> at b p) \<and>
     (\<forall>k. p < k \<and> k \<le> high \<longrightarrow> at b p < at b k))"
proof -
  let ?pv = "at a high"
  define I where "I j = (\<lambda>(b, i). low - 1 \<le> i \<and> i < j \<and> mset b = mset a \<and> length b = length a \<and>
     (\<forall>k. 0 \<le> k \<and> k < low \<or> high \<le> k \<and> k < len a \<longrightarrow> at b k = at a k) \<and>
     (\<forall>k. low \<le> k \<and> k \<le> i \<longrightarrow> at b k \<le> ?pv) \<and> (\<forall>k. i < k \<and> k < j \<longrightarrow> ?pv < at b k))" for j
  have loop: "wp (for_up low high (\<lambda>j (arr, i).
            bnd (rd arr j) (\<lambda>x.
              if x \<le> ?pv then bnd (swap_at arr (i + 1) j) (\<lambda>arr. ok (arr, i + 1))
              else ok (arr, i))) (a, low - 1)) (I high)"
  proof (rule wp_for_up [where I = I])
    fix j s assume j: "low \<le> j" "j < high" and "I j s"
    obtain b i where s: "s = (b, i)" by force
    with \<open>I j s\<close> have I: "low - 1 \<le> i" "i < j" "mset b = mset a" "length b = length a"
      "\<And>k. 0 \<le> k \<and> k < low \<or> high \<le> k \<and> k < len a \<Longrightarrow> at b k = at a k"
      "\<And>k. low \<le> k \<Longrightarrow> k \<le> i \<Longrightarrow> at b k \<le> ?pv" "\<And>k. i < k \<Longrightarrow> k < j \<Longrightarrow> ?pv < at b k"
      by (auto simp: I_def)
    have "I (j + 1) (exch b (i + 1) j, i + 1)" if "at b j \<le> ?pv"
    proof -
      have at: "at (exch b (i + 1) j) k = (if k = j then at b (i + 1) else if k = i + 1 then at b j else at b k)"
        if "0 \<le> k" for k
        using that I j assms by (simp add: at_exch)
      show ?thesis
        using that I j assms by (auto simp: I_def at)
    qed
    moreover have "I (j + 1) (b, i)" if "\<not> at b j \<le> ?pv"
      using that I j by (auto simp: I_def zless_add1_eq order.order_iff_strict)
    ultimately show "wp (case s of (arr, i) \<Rightarrow> bnd (rd arr j) (\<lambda>x.
              if x \<le> ?pv then bnd (swap_at arr (i + 1) j) (\<lambda>arr. ok (arr, i + 1))
              else ok (arr, i))) (I (j + 1))"
      using I j assms by (simp add: s)
  qed (use assms in \<open>auto simp: I_def max_def split: if_splits\<close>)
  have fin: "0 \<le> i + 1 \<and> i + 1 < len b \<and> high < len b \<and> low \<le> i + 1 \<and> i + 1 \<le> high \<and>
     mset (exch b (i + 1) high) = mset a \<and>
     (\<forall>k. 0 \<le> k \<and> k < low \<or> high < k \<and> k < len a \<longrightarrow> at (exch b (i + 1) high) k = at a k) \<and>
     (\<forall>k. low \<le> k \<and> k < i + 1 \<longrightarrow> at (exch b (i + 1) high) k \<le> at (exch b (i + 1) high) (i + 1)) \<and>
     (\<forall>k. i + 1 < k \<and> k \<le> high \<longrightarrow> at (exch b (i + 1) high) (i + 1) < at (exch b (i + 1) high) k)"
    if "I high (b, i)" for b i
  proof -
    have at: "at (exch b (i + 1) high) k = (if k = high then at b (i + 1) else if k = i + 1 then at b high else at b k)"
      if "0 \<le> k" for k
      using that \<open>I high (b, i)\<close> assms by (simp add: at_exch I_def)
    have "at b high = ?pv" using that assms by (simp add: I_def)
    with that assms show ?thesis by (auto simp: I_def at)
  qed
  show ?thesis
    unfolding partition_def wp_bnd
    by (subst wp_rd) (use assms in \<open>auto intro!: wp_conseq [OF loop] dest!: fin\<close>)
qed

lemma partition_ok_bounds:
  assumes "partition a low high = ok (b, p)" "low < high"
  shows "low \<le> p \<and> p \<le> high"
proof -
  from assms have "0 \<le> high \<and> high < len a"
    by (auto simp: partition_def rd_def split: if_splits)
  moreover from this assms have "0 \<le> low"
    by (rule_tac ccontr) (auto simp: partition_def rd_def split: if_splits)
  ultimately show ?thesis
    using partition_spec [of low high a] assms by (auto simp: wp_iff)
qed

function quickSort :: "int list \<Rightarrow> int \<Rightarrow> int \<Rightarrow> int list run" where
  "quickSort arr low high =
     (if low < high then
        bnd (partition arr low high) (\<lambda>x.
        bnd (quickSort (fst x) low (snd x - 1)) (\<lambda>arr.
        quickSort arr (snd x + 1) high))
      else ok arr)"
  by pat_completeness auto
termination
  by (relation "measure (\<lambda>(arr, low, high). nat (high - low))")
    (auto dest: partition_ok_bounds)

declare quickSort.simps [simp del]

lemma quickSort_spec:
  assumes "0 \<le> low" "high < len a"
  shows "wp (quickSort a low high) (\<lambda>b. mset b = mset a \<and>
     (\<forall>k. 0 \<le> k \<and> k < low \<or> high < k \<and> k < len a \<longrightarrow> at b k = at a k) \<and>
     sorted_on low (high + 1) b)"
  using assms
proof (induction a low high rule: quickSort.induct)
  case (1 a low high)
  show ?case
  proof (cases "low < high")
    case False
    then show ?thesis by (subst quickSort.simps) simp
  next
    case True
    obtain b p where part: "partition a low high = ok (b, p)" and
      p: "low \<le> p" "p \<le> high" "mset b = mset a" and
      frame_b: "\<And>k. 0 \<le> k \<and> k < low \<or> high < k \<and> k < len a \<Longrightarrow> at b k = at a k" and
      left_b: "\<And>k. low \<le> k \<Longrightarrow> k < p \<Longrightarrow> at b k \<le> at b p" and
      right_b: "\<And>k. p < k \<Longrightarrow> k \<le> high \<Longrightarrow> at b p < at b k"
      using partition_spec [of low high a] "1.prems" True by (fastforce simp: wp_iff)
    have lb: "len b = len a" using p(3) mset_eq_len by metis
    obtain c where c: "quickSort b low (p - 1) = ok c" "mset c = mset b" and
      frame_c: "\<And>k. 0 \<le> k \<and> k < low \<or> p - 1 < k \<and> k < len b \<Longrightarrow> at c k = at b k" and
      sort_c: "sorted_on low p c"
      using "1.IH"(1) [OF True part] "1.prems" p lb True by (fastforce simp: wp_iff)
    have lc: "len c = len a" using c(2) lb mset_eq_len by metis
    obtain d where d: "quickSort c (p + 1) high = ok d" "mset d = mset c" and
      frame_d: "\<And>k. 0 \<le> k \<and> k < p + 1 \<or> high < k \<and> k < len c \<Longrightarrow> at d k = at c k" and
      sort_d: "sorted_on (p + 1) (high + 1) d"
      using "1.IH"(2) [OF True part, of c] "1.prems" p lc True c(1) by (fastforce simp: wp_iff)
    have below: "at c k \<le> at b p" if "low \<le> k" "k \<le> p - 1" for k
      by (rule inside_all [where a = b and lo = low and hi = "p - 1", OF c(2) _ _ frame_c])
        (use that left_b p "1.prems" lb in auto)
    have above: "at b p < at d k" if "p + 1 \<le> k" "k \<le> high" for k
      by (rule inside_all [where a = c and lo = "p + 1" and hi = high, OF d(2) _ _ frame_d])
        (use that right_b frame_c p "1.prems" lb lc in auto)
    have dp: "at d p = at b p" using frame_d [of p] frame_c [of p] p "1.prems" lb by simp
    have left: "at d k \<le> at b p" if "low \<le> k" "k \<le> p" for k
    proof (cases "k = p")
      case False
      with that have "at c k \<le> at b p" using below by simp
      with that False frame_d [of k] "1.prems" show ?thesis by simp
    qed (simp add: dp)
    have right: "at b p < at d k" if "p < k" "k \<le> high" for k
      using above that by simp
    have sorted: "sorted_on low (high + 1) d"
    proof (rule sorted_onI)
      fix i j assume ij: "low \<le> i" "i < j" "j < high + 1"
      consider "j < p" | "i \<le> p" "p \<le> j" | "p < i" using ij by linarith
      then show "at d i \<le> at d j"
      proof cases
        case 1
        with ij sorted_onD [OF sort_c, of i j] frame_d [of i] frame_d [of j] "1.prems" show ?thesis by simp
      next
        case 2
        with ij left [of i] right [of j] dp show ?thesis by (cases "j = p") auto
      next
        case 3
        with ij sorted_onD [OF sort_d, of i j] show ?thesis by simp
      qed
    qed
    show ?thesis
      using True part c d frame_b frame_c frame_d sorted p lb lc "1.prems"
      by (subst quickSort.simps) auto
  qed
qed

lemma quickSort_sorts: "wp (quickSort a 0 (len a - 1)) (\<lambda>b. sorted b \<and> mset b = mset a)"
  by (rule wp_conseq [OF quickSort_spec]) (auto simp: sorted_conv_on dest: mset_eq_len)

interpretation quick: sorting_routine "\<lambda>a. quickSort a 0 (len a - 1)" "\<lambda>_. True"
  by unfold_locales (simp_all add: quickSort_sorts)

section \<open>Properties\<close>

text \<open>C20: quick sort of a whole array returns the sorted array.\<close>

theorem quickSort_correct: "quickSort a 0 (len a - 1) = ok (sort a)"
  by (rule quick.returns_sort) simp

end
