(* ===== verification/Sort_Heap.thy ===== *)
theory Sort_Heap
  imports Cxx_Array
begin

text \<open>
  \<open>DataStructure/sort/heap_sort.cxx\<close>.  The heap order is stated edge by edge between a
  node and its parent \<open>(c - 1) div 2\<close>.  The children's indices \<open>2*i + 1\<close> and
  \<open>2*i + 2\<close> are computed in 32 bits, so the contract covers arrays of fewer than \<open>2^30\<close> elements.
\<close>

section \<open>The program\<close>

definition pick_child :: "int list \<Rightarrow> int \<Rightarrow> int \<Rightarrow> int \<Rightarrow> int run" where
  "pick_child arr n c largest =
     (if c < n then bnd (rd arr c) (\<lambda>x. bnd (rd arr largest) (\<lambda>y.
        if x > y then ok c else ok largest))
      else ok largest)"

definition heap_largest :: "int list \<Rightarrow> int \<Rightarrow> int \<Rightarrow> int run" where
  "heap_largest arr n i =
     bnd (i32 (2 * i + 1)) (\<lambda>l. bnd (i32 (2 * i + 2)) (\<lambda>r.
     bnd (pick_child arr n l i) (\<lambda>largest. pick_child arr n r largest)))"

lemma heap_largest_ok:
  assumes "heap_largest arr n i = ok m" "m \<noteq> i"
  shows "(m = 2 * i + 1 \<or> m = 2 * i + 2) \<and> m < n \<and> 0 \<le> m"
  using assms by (auto simp: heap_largest_def pick_child_def bnd_eq_ok i32_def rd_def split: if_splits)

function heapify :: "int list \<Rightarrow> int \<Rightarrow> int \<Rightarrow> int list run" where
  "heapify arr n i =
     bnd (heap_largest arr n i) (\<lambda>largest.
       if largest \<noteq> i
       then bnd (swap_at arr i largest) (\<lambda>arr. heapify arr n largest)
       else ok arr)"
  by pat_completeness auto
termination
proof (relation "measure (\<lambda>(arr, n, i). nat (n - i))")
  fix arr n i m arr'
  assume m: "heap_largest arr n i = ok m" "m \<noteq> i" and "swap_at arr i m = ok arr'"
  then have "0 \<le> i" by (auto simp: swap_at_def bnd_eq_ok rd_def split: if_splits)
  with heap_largest_ok [OF m] show "((arr', n, m), arr, n, i) \<in> measure (\<lambda>(arr, n, i). nat (n - i))"
    by auto
qed simp

declare heapify.simps [simp del]

definition heapSort :: "int list \<Rightarrow> int \<Rightarrow> int list run" where
  "heapSort arr n =
     bnd (for_down (n sdiv 2 - 1) 0 (\<lambda>i arr. heapify arr n i) arr)
       (for_down (n - 1) 0 (\<lambda>i arr.
          bnd (swap_at arr 0 i) (\<lambda>arr. heapify arr i 0)))"

section \<open>The heap order\<close>

abbreviation par :: "int \<Rightarrow> int" where
  "par c \<equiv> (c - 1) div 2"

text \<open>Every edge below \<open>n\<close> whose parent is at least \<open>k\<close> is in order.\<close>

definition heap_from :: "int \<Rightarrow> int \<Rightarrow> int list \<Rightarrow> bool" where
  "heap_from k n a \<longleftrightarrow> (\<forall>c. 0 < c \<and> c < n \<and> k \<le> par c \<longrightarrow> at a c \<le> at a (par c))"

text \<open>The same but for the edges to the children of \<open>i\<close>, which \<open>i\<close>'s parent dominates.\<close>

definition heap_but :: "int \<Rightarrow> int \<Rightarrow> int \<Rightarrow> int list \<Rightarrow> bool" where
  "heap_but i k n a \<longleftrightarrow>
     (\<forall>c. 0 < c \<and> c < n \<and> k \<le> par c \<and> par c \<noteq> i \<longrightarrow> at a c \<le> at a (par c)) \<and>
     (\<forall>c. 0 < c \<and> c < n \<and> par c = i \<and> 0 < i \<and> k \<le> par i \<longrightarrow> at a c \<le> at a (par i))"

lemma par_children: "0 \<le> i \<Longrightarrow> 0 < c \<Longrightarrow> par c = i \<longleftrightarrow> c = 2 * i + 1 \<or> c = 2 * i + 2" for c i :: int
  by presburger

lemma par_less: "0 < c \<Longrightarrow> 0 \<le> par c \<and> par c < c" for c :: int
  by presburger

lemma heap_largest_spec:
  assumes "0 \<le> i" "i < n" "n \<le> len a" "len a \<le> 1073741823"
  shows "wp (heap_largest a n i) (\<lambda>m. (m = i \<or> m = 2 * i + 1 \<or> m = 2 * i + 2) \<and> m < n \<and>
     at a i \<le> at a m \<and> (\<forall>c. 0 < c \<and> c < n \<and> par c = i \<longrightarrow> at a c \<le> at a m))"
proof -
  have small: "2 * i + 2 \<le> int_max" using assms by linarith
  have children: "(\<forall>c. 0 < c \<and> c < n \<and> par c = i \<longrightarrow> at a c \<le> x) \<longleftrightarrow>
      (2 * i + 1 < n \<longrightarrow> at a (2 * i + 1) \<le> x) \<and> (2 * i + 2 < n \<longrightarrow> at a (2 * i + 2) \<le> x)"
    (is "?L \<longleftrightarrow> ?R") for x
  proof
    assume ?L
    from this [rule_format, of "2 * i + 1"] this [rule_format, of "2 * i + 2"] assms(1)
    show ?R by simp
  next
    assume R: ?R
    show ?L
    proof (intro allI impI)
      fix c assume c: "0 < c \<and> c < n \<and> par c = i"
      then have "c = 2 * i + 1 \<or> c = 2 * i + 2" by presburger
      then show "at a c \<le> x" using R c by auto
    qed
  qed
  show ?thesis
    unfolding children using assms small
    by (auto simp: heap_largest_def pick_child_def)
qed

lemma heap_but_step:
  assumes a: "heap_but i k n a" and i: "0 \<le> i" "0 < m" "par m = i" "m < n" "n \<le> len a"
    and top: "at a i \<le> at a m" "\<And>c. 0 < c \<Longrightarrow> c < n \<Longrightarrow> par c = i \<Longrightarrow> at a c \<le> at a m"
  shows "heap_but m k n (exch a i m)"
proof -
  have im: "i < m" using i par_less by metis
  have at: "at (exch a i m) c = (if c = m then at a i else if c = i then at a m else at a c)" if "0 \<le> c" for c
    using that i im by (simp add: at_exch)
  have e1: "at a c \<le> at a (par c)" if "0 < c" "c < n" "k \<le> par c" "par c \<noteq> i" for c
    using a that by (simp add: heap_but_def)
  have e2: "at a c \<le> at a (par i)" if "0 < c" "c < n" "par c = i" "0 < i" "k \<le> par i" for c
    using a that by (simp add: heap_but_def)
  have "at (exch a i m) c \<le> at (exch a i m) (par c)" if c: "0 < c" "c < n" "k \<le> par c" "par c \<noteq> m" for c
  proof -
    have "0 \<le> par c" "par c < c" using par_less c by auto
    consider "c = m" | "c = i" | "c \<noteq> m" "c \<noteq> i" "par c = i" | "c \<noteq> m" "c \<noteq> i" "par c \<noteq> i" by blast
    then show ?thesis
    proof cases
      case 1 with i im top(1) show ?thesis by (simp add: at)
    next
      case 2
      then have "at a m \<le> at a (par i)" using e2 [of m] i c im by auto
      with 2 c im \<open>par c < c\<close> \<open>0 \<le> par c\<close> show ?thesis by (simp add: at)
    next
      case 3 with top(2) [of c] c i im show ?thesis by (simp add: at)
    next
      case 4 with e1 [of c] c i im \<open>0 \<le> par c\<close> show ?thesis by (simp add: at)
    qed
  qed
  moreover have "at (exch a i m) c \<le> at (exch a i m) (par m)"
    if c: "0 < c" "c < n" "par c = m" "k \<le> par m" for c
  proof -
    have "par c < c" using par_less c by auto
    with e1 [of c] c im i show ?thesis by (simp add: at)
  qed
  ultimately show ?thesis by (auto simp: heap_but_def)
qed

lemma heapify_spec:
  assumes "heap_but i k n a" "0 \<le> i" "i < n" "n \<le> len a" "len a \<le> 1073741823"
  shows "wp (heapify a n i) (\<lambda>b. heap_from k n b \<and> mset b = mset a \<and>
     (\<forall>q. n \<le> q \<and> q < len a \<longrightarrow> at b q = at a q))"
  using assms
proof (induction a n i rule: heapify.induct)
  case (1 a n i)
  obtain m where m: "heap_largest a n i = ok m" "m = i \<or> m = 2 * i + 1 \<or> m = 2 * i + 2" "m < n"
    "at a i \<le> at a m" "\<And>c. 0 < c \<Longrightarrow> c < n \<Longrightarrow> par c = i \<Longrightarrow> at a c \<le> at a m"
    using heap_largest_spec [of i n a] "1.prems" by (auto simp: wp_iff)
  show ?case
  proof (cases "m = i")
    case True
    have "heap_from k n a"
      using m(5) "1.prems" True by (auto simp: heap_from_def heap_but_def)
    with True m(1) show ?thesis by (subst heapify.simps) simp
  next
    case False
    have pm: "par m = i" "0 < m" using m(2) False "1.prems" by auto
    have sw: "swap_at a i m = ok (exch a i m)"
      using "1.prems" m(3) pm by (simp add: wp_eq_ok [symmetric])
    have "heap_but m k n (exch a i m)"
      using heap_but_step [of i k n a m] "1.prems" m pm by simp
    then have "wp (heapify (exch a i m) n m) (\<lambda>b. heap_from k n b \<and> mset b = mset (exch a i m) \<and>
        (\<forall>q. n \<le> q \<and> q < len (exch a i m) \<longrightarrow> at b q = at (exch a i m) q))"
      using "1.IH" [OF m(1) _ sw] False "1.prems" m(3) pm by simp
    moreover have "at (exch a i m) q = at a q" if "n \<le> q" for q
      using that "1.prems" m(3) pm by (simp add: at_exch)
    ultimately show ?thesis
      using False m sw "1.prems" pm by (subst heapify.simps) (auto elim!: wp_conseq)
  qed
qed

lemma heap_top:
  assumes "heap_from 0 n a" "0 \<le> c" "c < n"
  shows "at a c \<le> at a 0"
  using assms(2,3)
proof (induction "nat c" arbitrary: c rule: less_induct)
  case less
  show ?case
  proof (cases "c = 0")
    case False
    then have "0 \<le> par c" "par c < c" using less.prems par_less [of c] by auto
    then have "at a (par c) \<le> at a 0" using less by simp
    moreover have "at a c \<le> at a (par c)" using assms(1) False less.prems \<open>0 \<le> par c\<close> by (simp add: heap_from_def)
    ultimately show ?thesis by simp
  qed simp
qed

text \<open>
  The second phase: the first \<open>i + 1\<close> elements are a heap, the others are sorted and not below
  them.
\<close>

definition phase :: "int list \<Rightarrow> int \<Rightarrow> int list \<Rightarrow> bool" where
  "phase a i b \<longleftrightarrow> mset b = mset a \<and> heap_from 0 (i + 1) b \<and> sorted_on (i + 1) (len a) b \<and>
     (\<forall>p q. 0 \<le> p \<and> p \<le> i \<and> i < q \<and> q < len a \<longrightarrow> at b p \<le> at b q)"

lemma phase_step:
  assumes b: "phase a i b" and i: "0 \<le> i" "i < len a" and small: "len a \<le> 1073741823"
  shows "wp (bnd (swap_at b 0 i) (\<lambda>arr. heapify arr i 0)) (phase a (i - 1))"
proof -
  let ?c = "exch b 0 i"
  have l: "len b = len a" using b mset_eq_len unfolding phase_def by metis
  have at: "at ?c q = (if q = i then at b 0 else if q = 0 then at b i else at b q)" if "0 \<le> q" for q
    using that i l by (simp add: at_exch_0)
  have heap: "heap_from 0 (i + 1) b" and sorted: "sorted_on (i + 1) (len a) b"
    and sep: "\<And>p q. 0 \<le> p \<Longrightarrow> p \<le> i \<Longrightarrow> i < q \<Longrightarrow> q < len a \<Longrightarrow> at b p \<le> at b q"
    using b by (auto simp: phase_def)
  have ms: "mset ?c = mset a" using b i l by (simp add: phase_def)
  have srt: "sorted_on i (len a) ?c"
  proof (rule sorted_onI)
    fix p q assume pq: "i \<le> p" "p < q" "q < len a"
    then show "at ?c p \<le> at ?c q"
      using i at [of p] at [of q] sep [of 0 q] sorted_onD [OF sorted, of p q] by (cases "p = i") auto
  qed
  have sepc: "at ?c p \<le> at ?c q" if "0 \<le> p" "p < i" "i \<le> q" "q < len a" for p q
    using that i at [of p] at [of q] sep [of p q] sep [of i q] heap_top [OF heap, of p] heap_top [OF heap, of i]
    by (cases "q = i") auto
  have fin: "phase a (i - 1) d" if d: "heap_from 0 i d" "mset d = mset ?c"
    "\<And>q. i \<le> q \<and> q < len ?c \<Longrightarrow> at d q = at ?c q" for d
  proof -
    have "at d p \<le> at d q" if pq: "0 \<le> p" "p \<le> i - 1" "i - 1 < q" "q < len a" for p q
    proof -
      have "at d p \<le> at ?c q"
        by (rule inside_all [where a = ?c and lo = 0 and hi = "i - 1", OF d(2)])
          (use d(3) sepc pq i l in auto)
      with d(3) [of q] pq l show ?thesis by simp
    qed
    moreover have "sorted_on i (len a) d"
      using srt d(3) l i by (auto simp: sorted_on_def)
    ultimately show ?thesis using d ms by (simp add: phase_def)
  qed
  show ?thesis
  proof (cases "i = 0")
    case True
    have "heap_largest b 0 0 = ok 0" by (simp add: heap_largest_def pick_child_def i32_def)
    then have "heapify b 0 0 = ok b" by (subst heapify.simps) simp
    moreover have "heap_from 0 0 b" by (simp add: heap_from_def)
    ultimately show ?thesis using True i l fin [of b] by simp
  next
    case False
    have "heap_but 0 0 i ?c"
      unfolding heap_but_def
    proof (intro conjI allI impI)
      fix c assume c: "0 < c \<and> c < i \<and> 0 \<le> par c \<and> par c \<noteq> 0"
      then have "par c < c" using par_less by blast
      with c heap i at [of c] at [of "par c"] show "at ?c c \<le> at ?c (par c)" by (auto simp: heap_from_def)
    qed simp
    then have "wp (heapify ?c i 0) (\<lambda>d. heap_from 0 i d \<and> mset d = mset ?c \<and>
        (\<forall>q. i \<le> q \<and> q < len ?c \<longrightarrow> at d q = at ?c q))"
      using False i l small by (intro heapify_spec) auto
    then show ?thesis using i l fin by (auto elim!: wp_conseq)
  qed
qed

lemma heapSort_sorts:
  assumes "len a \<le> 1073741823"
  shows "wp (heapSort a (len a)) (\<lambda>b. sorted b \<and> mset b = mset a)"
proof -
  have build: "wp (for_down (len a sdiv 2 - 1) 0 (\<lambda>i arr. heapify arr (len a) i) a)
      (\<lambda>b. heap_from 0 (len a) b \<and> mset b = mset a)"
  proof (rule wp_for_down [where I = "\<lambda>i b. heap_from (i + 1) (len a) b \<and> mset b = mset a"])
    show "heap_from (len a sdiv 2 - 1 + 1) (len a) a \<and> mset a = mset a"
      by (auto simp: heap_from_def sdiv_nonneg)
  next
    fix i b assume i: "0 \<le> i" "i \<le> len a sdiv 2 - 1" and b: "heap_from (i + 1) (len a) b \<and> mset b = mset a"
    have l: "len b = len a" using b mset_eq_len by metis
    have "i < len a" using i by (simp add: sdiv_nonneg)
    moreover have "heap_but i i (len a) b"
      using b i par_less [of i] by (auto simp: heap_but_def heap_from_def)
    ultimately show "wp (heapify b (len a) i) (\<lambda>b. heap_from (i - 1 + 1) (len a) b \<and> mset b = mset a)"
      using heapify_spec [of i i "len a" b] i b l assms by (auto elim!: wp_conseq)
  next
    fix b assume "heap_from (min (len a sdiv 2 - 1) (0 - 1) + 1) (len a) b \<and> mset b = mset a"
    moreover have "min (len a sdiv 2 - 1) (0 - 1) + 1 = 0" by (simp add: sdiv_nonneg)
    ultimately show "heap_from 0 (len a) b \<and> mset b = mset a" by simp
  qed
  have drain: "wp (for_down (len a - 1) 0 (\<lambda>i arr. bnd (swap_at arr 0 i) (\<lambda>arr. heapify arr i 0)) b)
      (\<lambda>b. sorted b \<and> mset b = mset a)" if "heap_from 0 (len a) b \<and> mset b = mset a" for b
  proof (rule wp_for_down [where I = "phase a"])
    show "phase a (len a - 1) b" using that by (simp add: phase_def)
  next
    fix i c assume "0 \<le> i" "i \<le> len a - 1" "phase a i c"
    with assms show "wp (bnd (swap_at c 0 i) (\<lambda>arr. heapify arr i 0)) (phase a (i - 1))"
      by (intro phase_step) auto
  next
    fix c assume "phase a (min (len a - 1) (0 - 1)) c"
    moreover have "min (len a - 1) (0 - 1) = (-1::int)" by simp
    ultimately show "sorted c \<and> mset c = mset a"
      by (auto simp: phase_def sorted_conv_on dest: mset_eq_len)
  qed
  show ?thesis
    unfolding heapSort_def wp_bnd by (rule wp_conseq [OF build]) (rule drain)
qed

interpretation heaps: sorting_routine "\<lambda>a. heapSort a (len a)" "\<lambda>a. len a \<le> 1073741823"
  by unfold_locales (auto simp: heapSort_sorts dest: mset_eq_len)

section \<open>Properties\<close>

text \<open>
  C21: heap sort returns the sorted array; the bound on the length keeps the child index
  \<open>2*i + 2\<close> inside an \<open>int\<close>.
\<close>

theorem heapSort_correct: "len a \<le> 1073741823 \<Longrightarrow> heapSort a (len a) = ok (sort a)"
  by (rule heaps.returns_sort)

lemma heapSort_correct_witness: "heapSort [12, 11, 13, 5, 6, 7] 6 = ok [5, 6, 7, 11, 12, 13]"
  using heapSort_correct [of "[12, 11, 13, 5, 6, 7]"] by simp

end
