(* ===== verification/Sort_Count.thy ===== *)
theory Sort_Count
  imports Cxx_Array
begin

text \<open>
  The distribution sorts of \<open>DataStructure/sort\<close>: \<open>radix_sort.cxx\<close>,
  \<open>counting_sort.cxx\<close> and \<open>pigeonhole_sort.cxx\<close>.  The first two place each element
  through a table of counters; the invariant \<open>placed\<close> of that placement is shared, and its
  end is the stable sort \<open>sort_key\<close> by the counter's index.
\<close>

section \<open>Placing elements through a table of counters\<close>

definition below :: "('a \<Rightarrow> int) \<Rightarrow> 'a multiset \<Rightarrow> int \<Rightarrow> int" where
  "below f M v = int (size (filter_mset (\<lambda>x. f x < v) M))"

definition equals :: "('a \<Rightarrow> int) \<Rightarrow> 'a multiset \<Rightarrow> int \<Rightarrow> int" where
  "equals f M v = int (size (filter_mset (\<lambda>x. f x = v) M))"

lemma below_nonneg [simp]: "0 \<le> below f M v" and equals_nonneg [simp]: "0 \<le> equals f M v"
  by (simp_all add: below_def equals_def)

lemma equals_empty [simp]: "equals f {#} v = 0"
  by (simp add: equals_def)

lemma equals_add [simp]: "equals f (add_mset x M) v = equals f M v + (if f x = v then 1 else 0)"
  by (simp add: equals_def)

lemma below_Suc: "below f M (v + 1) = below f M v + equals f M v"
proof -
  have "filter_mset (\<lambda>x. f x < v + 1) M = filter_mset (\<lambda>x. f x < v) M + filter_mset (\<lambda>x. f x = v) M"
    by (induction M) auto
  then show ?thesis by (simp add: below_def equals_def)
qed

lemma below_mono: "v \<le> w \<Longrightarrow> below f M v \<le> below f M w"
  unfolding below_def by (induction M) auto

lemma below_equals_le: "below f M v + equals f M v \<le> int (size M)"
  unfolding below_Suc [symmetric] unfolding below_def by (simp add: size_filter_mset_lesseq)

definition placed :: "('a \<Rightarrow> int) \<Rightarrow> int \<Rightarrow> 'a list \<Rightarrow> 'a multiset \<Rightarrow> (int \<Rightarrow> 'a list) \<Rightarrow>
    'a option list \<Rightarrow> int list \<Rightarrow> bool" where
  "placed f K xs rest F out cnt \<longleftrightarrow> length out = length xs \<and> len cnt = K \<and>
     (\<forall>v. 0 \<le> v \<and> v < K \<longrightarrow>
        at cnt v = below f (mset xs) v + equals f rest v \<and>
        len (F v) + equals f rest v = equals f (mset xs) v \<and>
        (\<forall>t. 0 \<le> t \<and> t < len (F v) \<longrightarrow>
           at out (below f (mset xs) v + equals f rest v + t) = Some (at (F v) t)))"

lemma placed_step:
  assumes p: "placed f K xs (add_mset x rest) F out cnt" and x: "0 \<le> f x" "f x < K"
  shows "0 \<le> at cnt (f x) - 1 \<and> at cnt (f x) - 1 < len xs"
    and "placed f K xs rest (F(f x := x # F (f x))) (upd out (at cnt (f x) - 1) (Some x))
           (upd cnt (f x) (at cnt (f x) - 1))"
proof -
  let ?M = "mset xs" and ?k = "f x"
  have cnt: "at cnt v = below f ?M v + equals f rest v + (if ?k = v then 1 else 0)" and
    tot: "len (F v) + equals f rest v + (if ?k = v then 1 else 0) = equals f ?M v"
    if "0 \<le> v" "v < K" for v
    using p that by (auto simp: placed_def)
  have out: "at out (below f ?M v + equals f rest v + (if ?k = v then 1 else 0) + t) = Some (at (F v) t)"
    if "0 \<le> v" "v < K" "0 \<le> t" "t < len (F v)" for v t
    using p that by (auto simp: placed_def algebra_simps)
  define p where "p = at cnt ?k - 1"
  have pk: "p = below f ?M ?k + equals f rest ?k" using cnt [OF x] by (simp add: p_def)
  have room: "p < below f ?M ?k + equals f ?M ?k" using tot [OF x] pk by simp
  have pb: "0 \<le> p" "p < len xs" using pk room below_equals_le [of f ?M ?k] by simp_all
  then show "0 \<le> at cnt (f x) - 1 \<and> at cnt (f x) - 1 < len xs" by (simp add: p_def)
  have other: "below f ?M v + equals f rest v + t \<noteq> p"
    if v: "v \<noteq> ?k" "0 \<le> v" "v < K" "0 \<le> t" "t < len (F v)" for v t
  proof (cases "v < ?k")
    case True
    then have "below f ?M v + equals f ?M v \<le> below f ?M ?k"
      using below_mono [of "v + 1" ?k f ?M] by (simp add: below_Suc)
    moreover have "len (F v) + equals f rest v = equals f ?M v" using v tot [of v] by simp
    ultimately show ?thesis using v pk equals_nonneg [of f rest ?k] by linarith
  next
    case False
    then have "below f ?M ?k + equals f ?M ?k \<le> below f ?M v"
      using below_mono [of "?k + 1" v f ?M] v by (simp add: below_Suc)
    with v room equals_nonneg [of f rest v] show ?thesis by linarith
  qed
  have len: "length out = length xs" "len cnt = K" using \<open>placed f K xs (add_mset x rest) F out cnt\<close>
    by (auto simp: placed_def)
  show "placed f K xs rest (F(?k := x # F ?k)) (upd out (at cnt ?k - 1) (Some x)) (upd cnt ?k (at cnt ?k - 1))"
    unfolding placed_def p_def [symmetric]
  proof (intro conjI allI impI)
    fix v assume v: "0 \<le> v \<and> v < K"
    show "at (upd cnt ?k p) v = below f ?M v + equals f rest v"
      using v x len cnt [of v] pk by (simp add: at_upd)
    show "len ((F(?k := x # F ?k)) v) + equals f rest v = equals f ?M v"
      using v tot [of v] by auto
    fix t assume t: "0 \<le> t \<and> t < len ((F(?k := x # F ?k)) v)"
    show "at (upd out p (Some x)) (below f ?M v + equals f rest v + t) = Some (at ((F(?k := x # F ?k)) v) t)"
    proof (cases "v = ?k")
      case True
      show ?thesis
      proof (cases "t = 0")
        case t0: True
        then have "at ((F(?k := x # F ?k)) v) t = x" using True by (simp add: at_def)
        with True t0 pb len show ?thesis by (simp add: pk [symmetric])
      next
        case False
        then have "at out (p + 1 + (t - 1)) = Some (at (F ?k) (t - 1))"
          using out [of ?k "t - 1"] t True x pk by simp
        moreover have "at (x # F ?k) t = at (F ?k) (t - 1)"
          using False t by (simp add: at_def nat_diff_distrib nth_Cons')
        ultimately show ?thesis using True t False pb len by (simp add: pk [symmetric] at_upd)
      qed
    next
      case False
      with other [of v t] out [of v t] t v pb len show ?thesis by (simp add: at_upd)
    qed
  qed (simp_all add: len)
qed

lemma sort_key_split:
  fixes f :: "'a \<Rightarrow> int"
  shows "sort_key f xs = sort_key f (filter (\<lambda>x. f x < v) xs) @ filter (\<lambda>x. f x = v) xs @
     sort_key f (filter (\<lambda>x. v < f x) xs)" (is "_ = ?ys")
proof (rule properties_for_sort_key)
  show "mset ?ys = mset xs"
    by (simp add: multiset_eq_iff)
  fix k
  have split: "(\<lambda>x. f x < v \<and> f x = f k) = (if f k < v then (\<lambda>x. f x = f k) else (\<lambda>x. False))"
    "(\<lambda>x. f x = v \<and> f x = f k) = (if f k = v then (\<lambda>x. f x = f k) else (\<lambda>x. False))"
    "(\<lambda>x. v < f x \<and> f x = f k) = (if v < f k then (\<lambda>x. f x = f k) else (\<lambda>x. False))"
    by auto
  have "filter (\<lambda>x. f x = f k) ?ys = filter (\<lambda>x. f x = f k) xs"
    by (cases "f k" v rule: linorder_cases) (simp_all add: sort_key_stable filter_filter split)
  then show "filter (\<lambda>x. f k = f x) ?ys = filter (\<lambda>x. f k = f x) xs"
    by (simp only: eq_commute [of "f k"])
next
  show "sorted (map f ?ys)"
    by (auto simp: sorted_append intro: sorted_map_same)
qed

text \<open>
  Once every element is placed, and in each class in the order of the input, the output is the
  stable sort.
\<close>

lemma at_sort_key:
  assumes "0 \<le> t" "t < len (filter (\<lambda>x. f x = v) xs)"
  shows "at (sort_key f xs) (below f (mset xs) v + t) = at (filter (\<lambda>x. f x = v) xs) t"
proof -
  let ?A = "sort_key f (filter (\<lambda>x. f x < v) xs)" and ?B = "filter (\<lambda>x. f x = v) xs"
  have A: "len ?A = below f (mset xs) v" by (simp add: below_def flip: mset_filter)
  have "at (?A @ ?B @ C) (len ?A + t) = at ?B t" for C
    using assms by (simp add: at_def nat_add_distrib nth_append nat_less_iff)
  then show ?thesis using sort_key_split [of f xs v] A by simp
qed

lemma sort_key_position:
  fixes f :: "'a \<Rightarrow> int"
  assumes "0 \<le> p" "p < len xs"
  obtains v t where "v \<in> f ` set xs" "0 \<le> t" "t < equals f (mset xs) v" "p = below f (mset xs) v + t"
proof -
  define v where "v = f (at (sort_key f xs) p)"
  let ?A = "sort_key f (filter (\<lambda>x. f x < v) xs)" and ?B = "filter (\<lambda>x. f x = v) xs"
    and ?C = "sort_key f (filter (\<lambda>x. v < f x) xs)"
  have ys: "sort_key f xs = ?A @ ?B @ ?C" by (rule sort_key_split)
  have A: "len ?A = below f (mset xs) v" by (simp add: below_def flip: mset_filter)
  have B: "len ?B = equals f (mset xs) v" by (simp add: equals_def flip: mset_filter)
  have mem: "at (sort_key f xs) p \<in> set xs"
    using assms at_in_set [of p "sort_key f xs"] by simp
  have "\<not> p < len ?A"
  proof
    assume "p < len ?A"
    with assms have "at (sort_key f xs) p \<in> set ?A"
      by (subst ys) (auto simp: at_def nth_append nat_less_iff simp del: set_sort)
    then show False by (simp add: v_def)
  qed
  moreover have "p < len ?A + len ?B"
  proof (rule ccontr)
    assume n: "\<not> p < len ?A + len ?B"
    have "at (sort_key f xs) p = ?C ! (nat p - length ?A - length ?B)"
      using n assms by (subst ys) (auto simp: at_def nth_append)
    moreover have "nat p - length ?A - length ?B < length ?C"
    proof -
      have "length xs = length ?A + length ?B + length ?C"
        using arg_cong [OF ys, of length] by simp
      with n assms show ?thesis by linarith
    qed
    ultimately have "at (sort_key f xs) p \<in> set ?C" by (metis nth_mem)
    then show False by (simp add: v_def)
  qed
  ultimately show thesis
    using A B mem by (intro that [of v "p - below f (mset xs) v"]) (auto simp: v_def)
qed

lemma placed_all:
  assumes "placed f K xs {#} F out cnt" "\<And>x. x \<in> set xs \<Longrightarrow> 0 \<le> f x \<and> f x < K"
    and "\<And>v. 0 \<le> v \<Longrightarrow> v < K \<Longrightarrow> F v = filter (\<lambda>x. f x = v) xs"
  shows "out = map Some (sort_key f xs)"
proof (rule list_eq_at)
  show "length out = length (map Some (sort_key f xs))" using assms(1) by (simp add: placed_def)
  fix p assume p: "0 \<le> p" "p < len out"
  then have "p < len xs" using assms(1) by (simp add: placed_def)
  with p obtain v t where v: "v \<in> f ` set xs" "0 \<le> t" "t < equals f (mset xs) v" "p = below f (mset xs) v + t"
    using sort_key_position [OF _ \<open>p < len xs\<close>, of f] by blast
  then have vK: "0 \<le> v" "v < K" using assms(2) by auto
  have tl: "t < len (filter (\<lambda>x. f x = v) xs)" using v(3) by (simp add: equals_def flip: mset_filter)
  have "at out p = Some (at (F v) t)"
    using assms(1) v vK tl assms(3) [OF vK] by (simp add: placed_def)
  also have "\<dots> = Some (at (sort_key f xs) p)"
    using at_sort_key [OF v(2) tl] assms(3) [OF vK] v(4) by simp
  also have "\<dots> = at (map Some (sort_key f xs)) p"
    using p \<open>p < len xs\<close> by (simp add: at_def nat_less_iff)
  finally show "at out p = at (map Some (sort_key f xs)) p" .
qed

section \<open>The two counting loops\<close>

text \<open>
  The counters after the first loop hold the class sizes; the second loop turns them into the
  ends of the classes.
\<close>

definition prefix_sums :: "int \<Rightarrow> int list \<Rightarrow> int list run" where
  "prefix_sums K cnt =
     for_up 1 K (\<lambda>i cnt.
       bnd (rd cnt i) (\<lambda>x. bnd (rd cnt (i - 1)) (\<lambda>y. wr cnt i (x + y)))) cnt"

lemma prefix_sums_spec:
  assumes "0 < K" "len cnt = K" "\<And>v. 0 \<le> v \<Longrightarrow> v < K \<Longrightarrow> at cnt v = equals f M v"
    and "below f M 0 = 0"
  shows "wp (prefix_sums K cnt) (\<lambda>c. len c = K \<and>
     (\<forall>v. 0 \<le> v \<and> v < K \<longrightarrow> at c v = below f M v + equals f M v))"
proof -
  have b0: "below f M v = 0" if "v < 1" for v
    using below_mono [of v 0 f M] assms(4) below_nonneg [of f M v] that by simp
  show ?thesis
    unfolding prefix_sums_def
  proof (rule wp_for_up [where I = "\<lambda>i c. len c = K \<and>
     (\<forall>v. 0 \<le> v \<and> v < K \<longrightarrow> at c v = (if v < i then below f M v else 0) + equals f M v)"])
  fix i c assume i: "1 \<le> i" "i < K" and c: "len c = K \<and>
     (\<forall>v. 0 \<le> v \<and> v < K \<longrightarrow> at c v = (if v < i then below f M v else 0) + equals f M v)"
  have "below f M i = below f M (i - 1) + equals f M (i - 1)"
    using below_Suc [of f M "i - 1"] by simp
  with i c show "wp (bnd (rd c i) (\<lambda>x. bnd (rd c (i - 1)) (\<lambda>y. wr c i (x + y))))
     (\<lambda>c. len c = K \<and> (\<forall>v. 0 \<le> v \<and> v < K \<longrightarrow>
        at c v = (if v < i + 1 then below f M v else 0) + equals f M v))"
      by (auto simp: at_upd)
  qed (use assms b0 in auto)
qed

section \<open>Radix sort\<close>

definition getMax :: "int list \<Rightarrow> int \<Rightarrow> int run" where
  "getMax arr n =
     bnd (rd arr 0) (\<lambda>mx.
       for_up 1 n (\<lambda>i mx. bnd (rd arr i) (\<lambda>x. if x > mx then ok x else ok mx)) mx)"

definition digit_of :: "int \<Rightarrow> int \<Rightarrow> int run" where
  "digit_of x exp = bnd (div32 x exp) (\<lambda>q. mod32 q 10)"

definition radix_countSort :: "int list \<Rightarrow> int \<Rightarrow> int \<Rightarrow> int list run" where
  "radix_countSort arr n exp =
     bnd (for_up 0 n (\<lambda>i cnt.
            bnd (rd arr i) (\<lambda>x. bnd (digit_of x exp) (\<lambda>d.
            bnd (rd cnt d) (\<lambda>c. wr cnt d (c + 1))))) (replicate 10 0)) (\<lambda>cnt.
     bnd (prefix_sums 10 cnt) (\<lambda>cnt.
     bnd (for_down (n - 1) 0 (\<lambda>i (output, cnt).
            bnd (rd arr i) (\<lambda>x. bnd (digit_of x exp) (\<lambda>d.
            bnd (rd cnt d) (\<lambda>c.
            bnd (wr output (c - 1) (Some x)) (\<lambda>output.
            bnd (wr cnt d (c - 1)) (\<lambda>cnt. ok (output, cnt))))))) (uninit n, cnt)) (\<lambda>(output, cnt).
     for_up 0 n (\<lambda>i arr. bnd (rdi output i) (\<lambda>x. wr arr i x)) arr)))"

definition radixsort :: "int list \<Rightarrow> int \<Rightarrow> int list run" where
  "radixsort arr n =
     bnd (getMax arr n) (\<lambda>m.
     bnd (while_run (\<lambda>(arr, exp). bnd (div32 m exp) (\<lambda>q. ok (q > 0)))
            (\<lambda>(arr, exp). bnd (radix_countSort arr n exp) (\<lambda>arr.
               bnd (i32 (exp * 10)) (\<lambda>exp. ok (arr, exp)))) (arr, 1)) (\<lambda>(arr, exp). ok arr))"

lemma getMax_spec:
  assumes "a \<noteq> []"
  shows "wp (getMax a (len a)) (\<lambda>m. m \<in> set a \<and> (\<forall>x \<in> set a. x \<le> m))"
proof -
  have "wp (for_up 1 (len a) (\<lambda>i mx. bnd (rd a i) (\<lambda>x. if x > mx then ok x else ok mx)) (at a 0))
      (\<lambda>m. m \<in> set a \<and> (\<forall>x \<in> set a. x \<le> m))"
  proof (rule wp_for_up [where I = "\<lambda>i m. m \<in> set a \<and> (\<forall>k. 0 \<le> k \<and> k < i \<longrightarrow> at a k \<le> m)"])
    show "at a 0 \<in> set a \<and> (\<forall>k. 0 \<le> k \<and> k < 1 \<longrightarrow> at a k \<le> at a 0)"
      using assms by (auto intro: at_in_set simp: int_one_le_iff_zero_less order.order_iff_strict)
  next
    fix i m assume "1 \<le> i" "i < len a" "m \<in> set a \<and> (\<forall>k. 0 \<le> k \<and> k < i \<longrightarrow> at a k \<le> m)"
    then show "wp (bnd (rd a i) (\<lambda>x. if x > m then ok x else ok m))
      (\<lambda>m. m \<in> set a \<and> (\<forall>k. 0 \<le> k \<and> k < i + 1 \<longrightarrow> at a k \<le> m))"
      by (auto simp: all_less_step)
  next
    fix m assume "m \<in> set a \<and> (\<forall>k. 0 \<le> k \<and> k < max 1 (len a) \<longrightarrow> at a k \<le> m)"
    then show "m \<in> set a \<and> (\<forall>x \<in> set a. x \<le> m)" by (auto simp: in_set_at)
  qed
  with assms show ?thesis by (simp add: getMax_def)
qed

abbreviation digit :: "int \<Rightarrow> int \<Rightarrow> int" where
  "digit exp x \<equiv> x div exp mod 10"

lemma digit_of_ok: "0 \<le> x \<Longrightarrow> x \<le> int_max \<Longrightarrow> 0 < exp \<Longrightarrow> digit_of x exp = ok (digit exp x)"
proof -
  assume a: "0 \<le> x" "x \<le> int_max" "0 < exp"
  then have "0 \<le> x div exp" "x div exp \<le> x"
    by (simp_all add: pos_imp_zdiv_nonneg_iff zdiv_mono2 [of x 1 exp, simplified])
  with a show ?thesis
    by (simp add: digit_of_def div32_def mod32_def sdiv_nonneg smod_nonneg i32_in)
qed

lemma mset_take_step: "0 \<le> i \<Longrightarrow> i < len a \<Longrightarrow>
    mset (take (nat (i + 1)) a) = add_mset (at a i) (mset (take (nat i) a))"
  by (simp add: at_def nat_add_distrib take_Suc_conv_app_nth nat_less_iff)

lemma mset_drop_step: "0 \<le> i \<Longrightarrow> i < len a \<Longrightarrow>
    mset (drop (nat i) a) = add_mset (at a i) (mset (drop (nat (i + 1)) a))"
  by (simp add: drop_at)

lemma radix_countSort_spec:
  assumes dom: "\<And>x. x \<in> set a \<Longrightarrow> 0 \<le> x \<and> x \<le> int_max" and e: "0 < exp"
  shows "wp (radix_countSort a (len a) exp) (\<lambda>b. b = sort_key (digit exp) a)"
proof -
  let ?f = "digit exp" and ?M = "mset a"
  have dg: "digit_of (at a i) exp = ok (?f (at a i))" if "0 \<le> i" "i < len a" for i
    using that e dom [of "at a i"] by (intro digit_of_ok) auto
  have fb: "0 \<le> ?f x" "?f x < 10" for x by simp_all
  have rep: "at (replicate 10 (0::int)) v = 0" if "0 \<le> v" "v < 10" for v
    using that by (simp add: at_def nat_less_iff)
  have count: "wp (for_up 0 (len a) (\<lambda>i cnt.
            bnd (rd a i) (\<lambda>x. bnd (digit_of x exp) (\<lambda>d.
            bnd (rd cnt d) (\<lambda>c. wr cnt d (c + 1))))) (replicate 10 0))
      (\<lambda>c. len c = 10 \<and> (\<forall>v. 0 \<le> v \<and> v < 10 \<longrightarrow> at c v = equals ?f ?M v))"
    by (rule wp_for_up [where I = "\<lambda>i c. len c = 10 \<and>
          (\<forall>v. 0 \<le> v \<and> v < 10 \<longrightarrow> at c v = equals ?f (mset (take (nat i) a)) v)"])
      (use fb in \<open>auto simp: rep dg at_upd mset_take_step\<close>)
  have base0: "below ?f ?M 0 = 0" by (simp add: below_def not_less fb flip: mset_filter)
  have sums: "wp (prefix_sums 10 c) (\<lambda>c. len c = 10 \<and>
      (\<forall>v. 0 \<le> v \<and> v < 10 \<longrightarrow> at c v = below ?f ?M v + equals ?f ?M v))"
    if "len c = 10 \<and> (\<forall>v. 0 \<le> v \<and> v < 10 \<longrightarrow> at c v = equals ?f ?M v)" for c
    by (rule prefix_sums_spec) (use that base0 in auto)
  define J where "J i = (\<lambda>(out, cnt). placed ?f 10 a (mset (take (nat (i + 1)) a))
      (\<lambda>v. filter (\<lambda>x. ?f x = v) (drop (nat (i + 1)) a)) out cnt)" for i
  have place: "wp (for_down (len a - 1) 0 (\<lambda>i (output, cnt).
            bnd (rd a i) (\<lambda>x. bnd (digit_of x exp) (\<lambda>d.
            bnd (rd cnt d) (\<lambda>c.
            bnd (wr output (c - 1) (Some x)) (\<lambda>output.
            bnd (wr cnt d (c - 1)) (\<lambda>cnt. ok (output, cnt))))))) (uninit (len a), c)) (J (-1))"
    if c: "len c = 10 \<and> (\<forall>v. 0 \<le> v \<and> v < 10 \<longrightarrow> at c v = below ?f ?M v + equals ?f ?M v)" for c
  proof (rule wp_for_down [where I = J])
    show "J (len a - 1) (uninit (len a), c)"
      using c by (auto simp: J_def placed_def)
  next
    fix i s assume i: "0 \<le> i" "i \<le> len a - 1" and "J i s"
    obtain out cnt where s: "s = (out, cnt)" by force
    let ?x = "at a i" and ?F = "\<lambda>v. filter (\<lambda>x. ?f x = v) (drop (nat (i + 1)) a)"
    have p: "placed ?f 10 a (add_mset ?x (mset (take (nat i) a))) ?F out cnt"
      using \<open>J i s\<close> i by (simp add: J_def s mset_take_step)
    have F: "?F (?f ?x := ?x # ?F (?f ?x)) = (\<lambda>v. filter (\<lambda>x. ?f x = v) (drop (nat i) a))"
      using i drop_at [of i a] by auto
    have len: "length out = length a" "len cnt = 10" using p by (auto simp: placed_def)
    from placed_step [OF p fb] i dg [of i] len fb [of ?x]
    show "wp (case s of (output, cnt) \<Rightarrow>
            bnd (rd a i) (\<lambda>x. bnd (digit_of x exp) (\<lambda>d.
            bnd (rd cnt d) (\<lambda>c.
            bnd (wr output (c - 1) (Some x)) (\<lambda>output.
            bnd (wr cnt d (c - 1)) (\<lambda>cnt. ok (output, cnt))))))) (J (i - 1))"
      unfolding F by (simp add: s J_def)
  next
    fix s assume "J (min (len a - 1) (0 - 1)) s"
    moreover have "min (len a - 1) (0 - 1) = (-1::int)" by simp
    ultimately show "J (-1) s" by simp
  qed
  have copy: "wp (for_up 0 (len a) (\<lambda>i arr. bnd (rdi out i) (\<lambda>x. wr arr i x)) a) (\<lambda>b. b = sort_key ?f a)"
    if "J (-1) (out, cnt)" for out cnt
  proof -
    have out: "out = map Some (sort_key ?f a)"
      using that by (intro placed_all [where K = 10 and F = "\<lambda>v. filter (\<lambda>x. ?f x = v) a" and cnt = cnt])
        (simp_all add: J_def)
    let ?ys = "sort_key ?f a"
    show ?thesis
      unfolding out
      by (rule wp_for_up [where I = "\<lambda>i b. length b = length a \<and> (\<forall>k. 0 \<le> k \<and> k < i \<longrightarrow> at b k = at ?ys k)"])
        (auto simp: at_map_Some at_upd intro!: list_eq_at)
  qed
  show ?thesis
    unfolding radix_countSort_def wp_bnd
    by (rule wp_conseq [OF count], rule wp_conseq [OF sums], assumption, rule wp_conseq [OF place], assumption)
      (use copy in \<open>auto simp: J_def\<close>)
qed

subsection \<open>The passes together\<close>

lemma sorted_wrt_insort_key:
  assumes "sorted_wrt P ys" "\<And>y. y \<in> set ys \<Longrightarrow> f x \<le> f y \<Longrightarrow> P x y" "\<And>y. y \<in> set ys \<Longrightarrow> f y < f x \<Longrightarrow> P y x"
    and "sorted (map f ys)"
  shows "sorted_wrt P (insort_key f x ys)"
  using assms
proof (induction ys)
  case (Cons y ys)
  show ?case
  proof (cases "f x \<le> f y")
    case True
    with Cons.prems show ?thesis by force
  next
    case False
    with Cons show ?thesis by (auto simp: set_insort_key)
  qed
qed simp

text \<open>Sorting stably by \<open>f\<close> a list sorted by \<open>g\<close> sorts by \<open>f\<close>, then \<open>g\<close>.\<close>

lemma sort_key_lex:
  assumes "sorted (map g xs)"
  shows "sorted_wrt (\<lambda>x y. f x < f y \<or> f x = f y \<and> g x \<le> g y) (sort_key f xs)"
  using assms
proof (induction xs)
  case (Cons x xs)
  then show ?case
    by (auto intro!: sorted_wrt_insort_key simp: order.order_iff_strict)
qed simp

lemma mod_digit: "0 < p \<Longrightarrow> x mod (p * 10) = digit p x * p + x mod p" for x p :: int
  by (simp add: zmod_zmult2_eq mult.commute)

lemma radix_pass:
  assumes "sorted (map (\<lambda>x. x mod p) a)" "0 < p"
  shows "sorted (map (\<lambda>x. x mod (p * 10)) (sort_key (digit p) a))"
proof -
  have "x mod (p * 10) \<le> y mod (p * 10)"
    if "digit p x < digit p y \<or> digit p x = digit p y \<and> x mod p \<le> y mod p" for x y :: int
    using that
  proof
    assume "digit p x < digit p y"
    then have "(digit p x + 1) * p \<le> digit p y * p" using assms(2) by (intro mult_right_mono) auto
    then have "digit p x * p + p \<le> digit p y * p" by (simp add: algebra_simps)
    then show ?thesis
      unfolding mod_digit [OF assms(2)]
      using pos_mod_bound [OF assms(2), of x] pos_mod_sign [OF assms(2), of y] by linarith
  qed (use assms(2) in \<open>simp add: mod_digit\<close>)
  then show ?thesis
    unfolding sorted_map by (rule sorted_wrt_mono_rel [OF _ sort_key_lex [OF assms(1)]])
qed

lemma radixsort_sorts:
  assumes "a \<noteq> []" and dom: "\<And>x. x \<in> set a \<Longrightarrow> 0 \<le> x \<and> x < 1000000000"
  shows "wp (radixsort a (len a)) (\<lambda>b. sorted b \<and> mset b = mset a)"
proof -
  define I where "I m = (\<lambda>(b, e). mset b = mset a \<and> 0 < e \<and> e \<le> 1000000000 \<and>
     (\<exists>k. e = 10 ^ k) \<and> sorted (map (\<lambda>x. x mod e) b))" for m :: int
  have run: "wp (while_run (\<lambda>(arr, exp). bnd (div32 m exp) (\<lambda>q. ok (q > 0)))
            (\<lambda>(arr, exp). bnd (radix_countSort arr (len a) exp) (\<lambda>arr.
               bnd (i32 (exp * 10)) (\<lambda>exp. ok (arr, exp)))) (a, 1))
        (\<lambda>(b, e). sorted b \<and> mset b = mset a)"
    if m: "m \<in> set a" "\<forall>x \<in> set a. x \<le> m" for m
  proof (rule wp_while [where I = "I m" and m = "\<lambda>(b, e). nat (10000000000 - e)"])
    have "sorted (map (\<lambda>x. x mod 1) a)" by (induction a) auto
    then show "I m (a, 1)" by (auto simp: I_def intro: exI [of _ 0])
  next
    fix s assume "I m s"
    obtain b e where s: "s = (b, e)" by force
    with \<open>I m s\<close> obtain k where I: "mset b = mset a" "0 < e" "e \<le> 1000000000" "e = 10 ^ k"
      "sorted (map (\<lambda>x. x mod e) b)" by (auto simp: I_def)
    have m9: "0 \<le> m" "m < 1000000000" using dom m(1) by auto
    have set: "set b = set a" using I(1) by (rule mset_eq_setD)
    have len: "len b = len a" using I(1) mset_eq_len by metis
    have dv: "div32 m e = ok (m div e)"
    proof -
      have "0 \<le> m div e" "m div e \<le> m"
        using m9 I(2) zdiv_mono2 [of m 1 e] by (simp_all add: pos_imp_zdiv_nonneg_iff)
      then show ?thesis using m9 I(2) by (simp add: div32_def sdiv_nonneg i32_in)
    qed
    have done_: "sorted b" if "\<not> 0 < m div e"
    proof -
      have "m < e" using that I(2) by (simp add: pos_imp_zdiv_pos_iff)
      then have "map (\<lambda>x. x mod e) b = b"
        using m(2) dom set by (intro map_idI) (auto intro!: mod_pos_pos_trivial)
      with I(5) show ?thesis by simp
    qed
    have pass: "wp (radix_countSort b (len a) e) (\<lambda>c. c = sort_key (digit e) b)"
      using radix_countSort_spec [of b e] I(2) dom set len by force
    have small: "e < 1000000000" if "0 < m div e"
    proof -
      have "e \<le> m" using that I(2) by (simp add: pos_imp_zdiv_pos_iff)
      with m9 show ?thesis by simp
    qed
    have small': "e \<le> 100000000" if "0 < m div e"
    proof -
      have "k < 9" using small [OF that] I(4) power_less_imp_less_exp [of "10::int" k 9] by simp
      then have "(10::int) ^ k \<le> 10 ^ 8" by (intro power_increasing) auto
      with I(4) show ?thesis by simp
    qed
    have "I m (sort_key (digit e) b, e * 10)" if "0 < m div e"
      using small' [OF that] I radix_pass [OF I(5,2)] by (auto simp: I_def intro: exI [of _ "Suc k"])
    with pass small' I(2) show "wp ((\<lambda>(arr, exp). bnd (div32 m exp) (\<lambda>q. ok (q > 0))) s) (\<lambda>t. if t
        then wp ((\<lambda>(arr, exp). bnd (radix_countSort arr (len a) exp) (\<lambda>arr.
               bnd (i32 (exp * 10)) (\<lambda>exp. ok (arr, exp)))) s)
          (\<lambda>s'. I m s' \<and> (case s' of (b, e) \<Rightarrow> nat (10000000000 - e)) < (case s of (b, e) \<Rightarrow> nat (10000000000 - e)))
        else (case s of (b, e) \<Rightarrow> sorted b \<and> mset b = mset a))"
      using done_ I(1,3) by (auto simp: s dv elim!: wp_conseq)
  qed
  show ?thesis
    unfolding radixsort_def wp_bnd
    by (rule wp_conseq [OF getMax_spec [OF assms(1)]], elim conjE, rule wp_conseq [OF run]) auto
qed

interpretation radix: sorting_routine "\<lambda>a. radixsort a (len a)"
  "\<lambda>a. a \<noteq> [] \<and> (\<forall>x \<in> set a. 0 \<le> x \<and> x < 1000000000)"
  by unfold_locales (auto simp: radixsort_sorts dest: mset_eq_setD)

section \<open>Counting sort of a character string\<close>

text \<open>
  The characters are the bytes of a NUL-terminated string, as the signed values an x86
  \<open>char\<close> gives them; a negative one indexes \<open>count\<close> out of bounds.  \<open>for_str\<close> is
  \<open>for (i = 0; arr[i]; ++i)\<close> over the array \<open>get s\<close> of the state.
\<close>

definition for_str :: "('s \<Rightarrow> int list) \<Rightarrow> (int \<Rightarrow> 's \<Rightarrow> 's run) \<Rightarrow> 's \<Rightarrow> 's run" where
  "for_str get f s =
     bnd (while_run (\<lambda>(i, s). bnd (rd (get s) i) (\<lambda>c. ok (c \<noteq> 0)))
            (\<lambda>(i, s). bnd (f i s) (\<lambda>s. ok (i + 1, s))) (0, s)) (\<lambda>(i, s). ok s)"

definition c_strlen :: "int list \<Rightarrow> int run" where
  "c_strlen arr = for_str (\<lambda>_. arr) (\<lambda>i n. ok (n + 1)) 0"

definition char_countSort :: "int list \<Rightarrow> int list run" where
  "char_countSort arr =
     bnd (c_strlen arr) (\<lambda>n.
     bnd (for_str (\<lambda>_. arr) (\<lambda>i cnt.
            bnd (rd arr i) (\<lambda>c. bnd (rd cnt c) (\<lambda>x. wr cnt c (x + 1)))) (replicate 256 0)) (\<lambda>cnt.
     bnd (prefix_sums 256 cnt) (\<lambda>cnt.
     bnd (for_str (\<lambda>_. arr) (\<lambda>i (output, cnt).
            bnd (rd arr i) (\<lambda>c. bnd (rd cnt c) (\<lambda>x.
            bnd (wr output (x - 1) (Some c)) (\<lambda>output.
            bnd (wr cnt c (x - 1)) (\<lambda>cnt. ok (output, cnt)))))) (uninit n, cnt)) (\<lambda>(output, cnt).
     for_str (\<lambda>arr. arr) (\<lambda>i arr. bnd (rdi output i) (\<lambda>c. wr arr i c)) arr))))"

lemma wp_for_str:
  assumes "0 \<le> n" "I 0 s"
    and "\<And>i s. 0 \<le> i \<Longrightarrow> i < n \<Longrightarrow> I i s \<Longrightarrow>
       i < len (get s) \<and> at (get s) i \<noteq> 0 \<and> wp (f i s) (I (i + 1))"
    and "\<And>s. I n s \<Longrightarrow> n < len (get s) \<and> at (get s) n = 0 \<and> Q s"
  shows "wp (for_str get f s) Q"
proof -
  define J where "J = (\<lambda>(i, s). 0 \<le> i \<and> i \<le> n \<and> I i s)"
  show ?thesis
    unfolding for_str_def wp_bnd
  proof (rule wp_while [where I = J and m = "\<lambda>(i, s). nat (n - i)"])
    fix t assume "J t"
    obtain i s where t: "t = (i, s)" by force
    with \<open>J t\<close> have i: "0 \<le> i" "i \<le> n" "I i s" by (auto simp: J_def)
    show "wp ((\<lambda>(i, s). bnd (rd (get s) i) (\<lambda>c. ok (c \<noteq> 0))) t) (\<lambda>b. if b
        then wp ((\<lambda>(i, s). bnd (f i s) (\<lambda>s. ok (i + 1, s))) t)
           (\<lambda>s'. J s' \<and> (case s' of (i, s) \<Rightarrow> nat (n - i)) < (case t of (i, s) \<Rightarrow> nat (n - i)))
        else wp (case t of (i, s) \<Rightarrow> ok s) Q)"
    proof (cases "i = n")
      case True
      with i assms(4) show ?thesis by (auto simp: t)
    next
      case False
      with i assms(3) [of i s] show ?thesis by (auto simp: t J_def elim!: wp_conseq)
    qed
  qed (use assms in \<open>simp add: J_def\<close>)
qed

lemma at_append1: "0 \<le> i \<Longrightarrow> i < len xs \<Longrightarrow> at (xs @ ys) i = at xs i"
  by (simp add: at_def nth_append nat_less_iff)

lemma at_append2: "at (xs @ y # ys) (len xs) = y"
  by (simp add: at_def)

lemma char_countSort_spec:
  assumes chars: "\<And>c. c \<in> set xs \<Longrightarrow> 0 < c \<and> c \<le> 127"
  shows "wp (char_countSort (xs @ 0 # ys)) (\<lambda>b. b = sort xs @ 0 # ys)"
proof -
  let ?a = "xs @ 0 # ys" and ?f = "\<lambda>c::int. c" and ?M = "mset xs"
  have ch: "0 < at xs i" "at xs i < 256" if "0 \<le> i" "i < len xs" for i
    using chars [of "at xs i"] that by auto
  note simps = at_append1 at_append2
  have strlen: "wp (c_strlen ?a) (\<lambda>n. n = len xs)"
    unfolding c_strlen_def
    by (rule wp_for_str [where n = "len xs" and I = "\<lambda>i n. n = i"]) (use ch in \<open>force simp: simps\<close>)+
  have rep: "at (replicate 256 (0::int)) v = 0" if "0 \<le> v" "v < 256" for v
    using that by (simp add: at_def nat_less_iff)
  have count: "wp (for_str (\<lambda>_. ?a) (\<lambda>i cnt.
            bnd (rd ?a i) (\<lambda>c. bnd (rd cnt c) (\<lambda>x. wr cnt c (x + 1)))) (replicate 256 0))
      (\<lambda>c. len c = 256 \<and> (\<forall>v. 0 \<le> v \<and> v < 256 \<longrightarrow> at c v = equals ?f ?M v))"
  proof (rule wp_for_str [where n = "len xs" and I = "\<lambda>i c. len c = 256 \<and>
          (\<forall>v. 0 \<le> v \<and> v < 256 \<longrightarrow> at c v = equals ?f (mset (take (nat i) xs)) v)"])
    fix i c assume "0 \<le> i" "i < len xs" "len c = 256 \<and>
          (\<forall>v. 0 \<le> v \<and> v < 256 \<longrightarrow> at c v = equals ?f (mset (take (nat i) xs)) v)"
    with ch [of i] show "i < len ?a \<and> at ?a i \<noteq> 0 \<and>
        wp (bnd (rd ?a i) (\<lambda>x. bnd (rd c x) (\<lambda>y. wr c x (y + 1)))) (\<lambda>c. len c = 256 \<and>
          (\<forall>v. 0 \<le> v \<and> v < 256 \<longrightarrow> at c v = equals ?f (mset (take (nat (i + 1)) xs)) v))"
      by (auto simp: simps at_upd mset_take_step)
  qed (auto simp: rep simps)
  have base0: "below ?f ?M 0 = 0"
    using chars by (simp add: below_def not_less order.strict_implies_order flip: mset_filter)
  have sums: "wp (prefix_sums 256 c) (\<lambda>c. len c = 256 \<and>
      (\<forall>v. 0 \<le> v \<and> v < 256 \<longrightarrow> at c v = below ?f ?M v + equals ?f ?M v))"
    if "len c = 256 \<and> (\<forall>v. 0 \<le> v \<and> v < 256 \<longrightarrow> at c v = equals ?f ?M v)" for c
    by (rule prefix_sums_spec) (use that base0 in auto)
  define J where "J i = (\<lambda>(out, cnt). placed ?f 256 xs (mset (drop (nat i) xs))
      (\<lambda>v. filter (\<lambda>x. x = v) (rev (take (nat i) xs))) out cnt)" for i
  have place: "wp (for_str (\<lambda>_. ?a) (\<lambda>i (output, cnt).
            bnd (rd ?a i) (\<lambda>c. bnd (rd cnt c) (\<lambda>x.
            bnd (wr output (x - 1) (Some c)) (\<lambda>output.
            bnd (wr cnt c (x - 1)) (\<lambda>cnt. ok (output, cnt)))))) (uninit (len xs), c)) (J (len xs))"
    if c: "len c = 256 \<and> (\<forall>v. 0 \<le> v \<and> v < 256 \<longrightarrow> at c v = below ?f ?M v + equals ?f ?M v)" for c
  proof (rule wp_for_str [where n = "len xs" and I = J])
    show "J 0 (uninit (len xs), c)"
      using c by (auto simp: J_def placed_def)
  next
    fix i s assume i: "0 \<le> i" "i < len xs" and "J i s"
    obtain out cnt where s: "s = (out, cnt)" by force
    let ?x = "at xs i" and ?F = "\<lambda>v. filter (\<lambda>x. x = v) (rev (take (nat i) xs))"
    have p: "placed ?f 256 xs (add_mset ?x (mset (drop (nat (i + 1)) xs))) ?F out cnt"
      using \<open>J i s\<close> i by (simp add: J_def s mset_drop_step)
    have F: "?F (?x := ?x # ?F ?x) = (\<lambda>v. filter (\<lambda>x. x = v) (rev (take (nat (i + 1)) xs)))"
      using i by (auto simp: nat_add_distrib take_Suc_conv_app_nth at_def nat_less_iff)
    have len: "length out = length xs" "len cnt = 256" using p by (auto simp: placed_def)
    from placed_step [OF p _ ch(2) [OF i]] i len ch [OF i]
    show "i < len ?a \<and> at ?a i \<noteq> 0 \<and> wp (case s of (output, cnt) \<Rightarrow>
            bnd (rd ?a i) (\<lambda>c. bnd (rd cnt c) (\<lambda>x.
            bnd (wr output (x - 1) (Some c)) (\<lambda>output.
            bnd (wr cnt c (x - 1)) (\<lambda>cnt. ok (output, cnt)))))) (J (i + 1))"
      unfolding F by (simp add: s J_def simps)
  qed (auto simp: simps)
  have copy: "wp (for_str (\<lambda>arr. arr) (\<lambda>i arr. bnd (rdi out i) (\<lambda>c. wr arr i c)) ?a)
      (\<lambda>b. b = sort xs @ 0 # ys)" if "J (len xs) (out, cnt)" for out cnt
  proof -
    have rep_count: "filter (\<lambda>x. x = v) zs = replicate (count (mset zs) v) v" for zs :: "int list" and v
      by (induction zs) auto
    have rv: "filter (\<lambda>x. x = v) (rev xs) = filter (\<lambda>x. x = v) xs" for v
      by (simp add: rep_count)
    have out: "out = map Some (sort xs)"
      using that chars rv by (intro placed_all [where K = 256 and F = "\<lambda>v. filter (\<lambda>x. x = v) xs" and cnt = cnt])
        (force simp: J_def)+
    have pos: "0 < at (sort xs) k" if "0 \<le> k" "k < len xs" for k
      using chars [of "at (sort xs) k"] at_in_set [of k "sort xs"] that by simp
    have "wp (for_str (\<lambda>arr. arr) (\<lambda>i arr. bnd (rdi out i) (\<lambda>c. wr arr i c)) ?a)
        (\<lambda>b. b = splice_at ?a 0 (sort xs))"
      unfolding out
    proof (rule wp_for_str [where n = "len xs" and I = "\<lambda>i b. b = splice_at ?a 0 (take (nat i) (sort xs))"])
      fix i b assume i: "0 \<le> i" "i < len xs" and b: "b = splice_at ?a 0 (take (nat i) (sort xs))"
      have l: "len (take (nat i) (sort xs)) = i" using i by simp
      have "at b i = at ?a i"
        unfolding b using i l by (intro at_splice_end) auto
      then have "at b i = at xs i" by (simp only: at_append1 [OF i])
      moreover have "upd b i (at (sort xs) i) = splice_at ?a 0 (take (nat (i + 1)) (sort xs))"
        unfolding b using i l by (subst upd_splice_at)
          (use i in \<open>auto simp: nat_add_distrib take_Suc_conv_app_nth at_def nat_less_iff
              split: if_splits\<close>)
      ultimately show "i < len b \<and> at b i \<noteq> 0 \<and> wp (bnd (rdi (map Some (sort xs)) i) (\<lambda>c. wr b i c))
          (\<lambda>b. b = splice_at ?a 0 (take (nat (i + 1)) (sort xs)))"
        using i ch [OF i] by (simp add: b at_map_Some)
    next
      fix b assume b: "b = splice_at ?a 0 (take (nat (len xs)) (sort xs))"
      then show "len xs < len b \<and> at b (len xs) = 0 \<and> b = splice_at ?a 0 (sort xs)"
        by (simp add: splice_at_def at_def nth_append)
    qed simp_all
    then show ?thesis by (simp add: splice_at_def)
  qed
  show ?thesis
    unfolding char_countSort_def wp_bnd
    by (rule wp_conseq [OF strlen], simp, rule wp_conseq [OF count], rule wp_conseq [OF sums], assumption,
        rule wp_conseq [OF place], assumption) (use copy in \<open>auto simp: J_def\<close>)
qed

section \<open>Pigeonhole sort\<close>

definition pigeonholeSort :: "int list \<Rightarrow> int \<Rightarrow> int list run" where
  "pigeonholeSort arr n =
     bnd (rd arr 0) (\<lambda>a0.
     bnd (for_up 1 n (\<lambda>i (min, max).
            bnd (rd arr i) (\<lambda>x.
            ok (if x < min then x else min, if x > max then x else max))) (a0, a0)) (\<lambda>(min, max).
     bnd (i32 (max - min)) (\<lambda>d. bnd (i32 (d + 1)) (\<lambda>range.
     bnd (for_up 0 n (\<lambda>i holes.
            bnd (rd arr i) (\<lambda>x. bnd (i32 (x - min)) (\<lambda>h.
            bnd (rd holes h) (\<lambda>v. wr holes h (v @ [x]))))) (replicate (nat range) [])) (\<lambda>holes.
     bnd (for_up 0 range (\<lambda>i s.
            bnd (rd holes i) (\<lambda>hole.
              for_each (\<lambda>x (index, arr).
                bnd (wr arr index x) (\<lambda>arr. bnd (i32 (index + 1)) (\<lambda>index. ok (index, arr)))) hole s))
            (0, arr)) (\<lambda>(index, arr).
     ok arr))))))"

lemma all_below_1: "(\<forall>k::int. 0 \<le> k \<and> k < 1 \<longrightarrow> P k) \<longleftrightarrow> P 0"
proof -
  have "0 \<le> k \<and> k < 1 \<longleftrightarrow> k = 0" for k :: int by auto
  then show ?thesis by simp
qed

lemma min_max_spec:
  fixes a :: "int list"
  assumes "a \<noteq> []"
  shows "wp (for_up 1 (len a) (\<lambda>i (min, max).
            bnd (rd a i) (\<lambda>x.
            ok (if x < min then x else min, if x > max then x else max))) (at a 0, at a 0))
     (\<lambda>(mn, mx). mn \<in> set a \<and> mx \<in> set a \<and> (\<forall>x \<in> set a. mn \<le> x \<and> x \<le> mx))"
proof (rule wp_for_up [where I = "\<lambda>i (mn, mx). mn \<in> set a \<and> mx \<in> set a \<and>
    (\<forall>k. 0 \<le> k \<and> k < i \<longrightarrow> mn \<le> at a k \<and> at a k \<le> mx)"])
  show "case (at a 0, at a 0) of (mn, mx) \<Rightarrow> mn \<in> set a \<and> mx \<in> set a \<and>
      (\<forall>k. 0 \<le> k \<and> k < 1 \<longrightarrow> mn \<le> at a k \<and> at a k \<le> mx)"
    using assms by (simp add: all_below_1)
next
  fix i s assume "1 \<le> i" "i < len a" "case s of (mn, mx) \<Rightarrow> mn \<in> set a \<and> mx \<in> set a \<and>
      (\<forall>k. 0 \<le> k \<and> k < i \<longrightarrow> mn \<le> at a k \<and> at a k \<le> mx)"
  then show "wp ((\<lambda>(min, max). bnd (rd a i) (\<lambda>x.
            ok (if x < min then x else min, if x > max then x else max))) s)
      (\<lambda>(mn, mx). mn \<in> set a \<and> mx \<in> set a \<and>
        (\<forall>k. 0 \<le> k \<and> k < i + 1 \<longrightarrow> mn \<le> at a k \<and> at a k \<le> mx))"
    by (fastforce simp: all_less_step)
qed (auto simp: in_set_at)

text \<open>Writing out the holes: \<open>below\<close> elements are in place, the next hole is appended.\<close>

lemma write_hole:
  assumes "l + len xs \<le> len a" "0 \<le> l" "len a \<le> int_max" and that: "l = len out"
  shows "wp (for_each (\<lambda>x (index, arr).
                bnd (wr arr index x) (\<lambda>arr. bnd (i32 (index + 1)) (\<lambda>index. ok (index, arr))))
            xs (l, splice_at a 0 out))
     (\<lambda>(index, arr). index = l + len xs \<and> arr = splice_at a 0 (out @ xs))"
proof (rule wp_for_each [where I = "\<lambda>ys (index, arr). index = l + len ys \<and> arr = splice_at a 0 (out @ ys)"])
  fix ys y zs s assume xs: "xs = ys @ y # zs"
    and "case s of (index, arr) \<Rightarrow> index = l + len ys \<and> arr = splice_at a 0 (out @ ys)"
  then obtain arr where s: "s = (l + len ys, arr)" "arr = splice_at a 0 (out @ ys)" by auto
  have "upd arr (l + len ys) y = splice_at a 0 ((out @ ys) @ [y])"
    unfolding s(2) by (rule upd_splice_at) (use assms that xs in auto)
  moreover have "length arr = length a"
    unfolding s(2) by (rule length_splice_at) (use assms that xs in auto)
  ultimately show "wp (case s of (index, arr) \<Rightarrow>
      bnd (wr arr index y) (\<lambda>arr. bnd (i32 (index + 1)) (\<lambda>index. ok (index, arr))))
      (\<lambda>(index, arr). index = l + len (ys @ [y]) \<and> arr = splice_at a 0 (out @ ys @ [y]))"
    using assms that xs by (simp add: s(1))
qed auto

lemma pigeonholeSort_sorts:
  assumes "a \<noteq> []" and n: "len a \<le> int_max"
    and range: "\<And>x y. x \<in> set a \<Longrightarrow> y \<in> set a \<Longrightarrow> x - y < int_max"
  shows "wp (pigeonholeSort a (len a)) (\<lambda>b. sorted b \<and> mset b = mset a)"
proof -
  define F where "F mn i = sort (filter (\<lambda>x. x < mn + i) a)" for mn i :: int
  have F_step: "F mn (i + 1) = F mn i @ filter (\<lambda>x. x = mn + i) a" for mn i
  proof -
    have [simp]: "x \<le> c \<and> x < c \<longleftrightarrow> x < c" "x \<le> c \<and> x = c \<longleftrightarrow> x = c" for x c :: int
      by auto
    show ?thesis
      using sort_key_split [of "\<lambda>x. x" "filter (\<lambda>x. x < mn + (i + 1)) a" "mn + i"]
      by (simp add: F_def flip: add.assoc)
  qed
  define holds where "holds mn mx i holes \<longleftrightarrow> len holes = mx - mn + 1 \<and>
      (\<forall>v. 0 \<le> v \<and> v < mx - mn + 1 \<longrightarrow> at holes v = filter (\<lambda>x. x = mn + v) (take (nat i) a))"
    for mn mx i and holes :: "int list list"
  have fill: "wp (for_up 0 (len a) (\<lambda>i holes.
            bnd (rd a i) (\<lambda>x. bnd (i32 (x - mn)) (\<lambda>h.
            bnd (rd holes h) (\<lambda>v. wr holes h (v @ [x]))))) (replicate (nat (mx - mn + 1)) []))
       (holds mn mx (len a))"
    if m: "mn \<in> set a \<and> mx \<in> set a \<and> (\<forall>x \<in> set a. mn \<le> x \<and> x \<le> mx)" for mn mx
  proof (rule wp_for_up [where I = "holds mn mx"])
    show "holds mn mx 0 (replicate (nat (mx - mn + 1)) [])"
      using m by (auto simp: holds_def at_def)
  next
    fix i h assume i: "0 \<le> i" "i < len a" and h: "holds mn mx i h"
    have x: "mn \<le> at a i" "at a i \<le> mx" "at a i - mn < int_max" using m i range by auto
    have t: "take (nat (i + 1)) a = take (nat i) a @ [at a i]"
      using i by (simp add: at_def nat_add_distrib take_Suc_conv_app_nth nat_less_iff)
    show "wp (bnd (rd a i) (\<lambda>x. bnd (i32 (x - mn)) (\<lambda>k. bnd (rd h k) (\<lambda>v. wr h k (v @ [x])))))
        (holds mn mx (i + 1))"
      using i x h by (auto simp: holds_def t at_upd)
  qed simp
  have emit: "wp (for_up 0 (mx - mn + 1) (\<lambda>i s.
            bnd (rd holes i) (\<lambda>hole.
              for_each (\<lambda>x (index, arr).
                bnd (wr arr index x) (\<lambda>arr. bnd (i32 (index + 1)) (\<lambda>index. ok (index, arr)))) hole s))
            (0, a)) (\<lambda>(index, arr). arr = sort a)"
    if m: "mn \<in> set a \<and> mx \<in> set a \<and> (\<forall>x \<in> set a. mn \<le> x \<and> x \<le> mx)"
      and h: "holds mn mx (len a) holes" for mn mx holes
  proof (rule wp_for_up [where I = "\<lambda>i (index, arr). index = len (F mn i) \<and> arr = splice_at a 0 (F mn i)"])
    have "filter (\<lambda>x. x < mn) a = []" using m by (auto simp: filter_empty_conv)
    then show "case (0, a) of (index, arr) \<Rightarrow> index = len (F mn 0) \<and> arr = splice_at a 0 (F mn 0)"
      by (simp add: F_def)
  next
    fix i s assume i: "0 \<le> i" "i < mx - mn + 1"
      and "case s of (index, arr) \<Rightarrow> index = len (F mn i) \<and> arr = splice_at a 0 (F mn i)"
    then have s: "s = (len (F mn i), splice_at a 0 (F mn i))" by auto
    have "len (F mn (i + 1)) \<le> len a" by (simp add: F_def)
    then have l: "len (F mn i) + len (filter (\<lambda>x. x = mn + i) a) \<le> len a" by (simp add: F_step)
    show "wp (bnd (rd holes i) (\<lambda>hole.
              for_each (\<lambda>x (index, arr).
                bnd (wr arr index x) (\<lambda>arr. bnd (i32 (index + 1)) (\<lambda>index. ok (index, arr)))) hole s))
        (\<lambda>(index, arr). index = len (F mn (i + 1)) \<and> arr = splice_at a 0 (F mn (i + 1)))"
      using i h wp_conseq [OF write_hole [OF l _ n refl]] by (simp add: holds_def s F_step)
  next
    fix s assume s: "case s of (index, arr) \<Rightarrow> index = len (F mn (max 0 (mx - mn + 1))) \<and>
        arr = splice_at a 0 (F mn (max 0 (mx - mn + 1)))"
    have "mn \<le> mx" using m by auto
    then have "F mn (max 0 (mx - mn + 1)) = sort a"
      using m by (auto simp: F_def max_def intro!: arg_cong [where f = sort] filter_True)
    with s show "case s of (index, arr) \<Rightarrow> arr = sort a" by (auto simp: splice_at_def)
  qed
  show ?thesis
    unfolding pigeonholeSort_def wp_bnd wp_rd
  proof (intro conjI)
    show "wp (for_up 1 (len a) (\<lambda>i (min, max). bnd (rd a i) (\<lambda>x.
            ok (if x < min then x else min, if x > max then x else max))) (at a 0, at a 0))
       (\<lambda>s. wp ((\<lambda>(min, max).
          bnd (i32 (max - min)) (\<lambda>d. bnd (i32 (d + 1)) (\<lambda>range.
          bnd (for_up 0 (len a) (\<lambda>i holes.
            bnd (rd a i) (\<lambda>x. bnd (i32 (x - min)) (\<lambda>h.
            bnd (rd holes h) (\<lambda>v. wr holes h (v @ [x]))))) (replicate (nat range) [])) (\<lambda>holes.
          bnd (for_up 0 range (\<lambda>i s.
            bnd (rd holes i) (\<lambda>hole.
              for_each (\<lambda>x (index, arr).
                bnd (wr arr index x) (\<lambda>arr. bnd (i32 (index + 1)) (\<lambda>index. ok (index, arr)))) hole s))
            (0, a)) (\<lambda>(index, arr). ok arr))))) s)
         (\<lambda>b. sorted b \<and> mset b = mset a))"
    proof (rule wp_conseq [OF min_max_spec [OF assms(1)]], clarify)
      fix mn mx assume m: "mn \<in> set a" "mx \<in> set a" "\<forall>x \<in> set a. mn \<le> x \<and> x \<le> mx"
      then have "0 \<le> mx - mn" "mx - mn < int_max" using range by auto
      then show "wp (bnd (i32 (mx - mn)) (\<lambda>d. bnd (i32 (d + 1)) (\<lambda>range.
          bnd (for_up 0 (len a) (\<lambda>i holes.
            bnd (rd a i) (\<lambda>x. bnd (i32 (x - mn)) (\<lambda>h.
            bnd (rd holes h) (\<lambda>v. wr holes h (v @ [x]))))) (replicate (nat range) [])) (\<lambda>holes.
          bnd (for_up 0 range (\<lambda>i s.
            bnd (rd holes i) (\<lambda>hole.
              for_each (\<lambda>x (index, arr).
                bnd (wr arr index x) (\<lambda>arr. bnd (i32 (index + 1)) (\<lambda>index. ok (index, arr)))) hole s))
            (0, a)) (\<lambda>(index, arr). ok arr)))))
         (\<lambda>b. sorted b \<and> mset b = mset a)"
        unfolding wp_bnd wp_i32
        by (intro conjI wp_conseq [OF fill] wp_conseq [OF emit]) (use m in auto)
    qed
  qed (use assms(1) in auto)
qed

interpretation pigeonhole: sorting_routine "\<lambda>a. pigeonholeSort a (len a)"
  "\<lambda>a. a \<noteq> [] \<and> len a \<le> int_max \<and> (\<forall>x \<in> set a. \<forall>y \<in> set a. x - y < int_max)"
proof
  show "wp (pigeonholeSort a (len a)) (\<lambda>b. sorted b \<and> mset b = mset a)"
    if "a \<noteq> [] \<and> len a \<le> int_max \<and> (\<forall>x \<in> set a. \<forall>y \<in> set a. x - y < int_max)" for a
    using that by (intro pigeonholeSort_sorts) auto
qed (auto dest: mset_eq_setD mset_eq_len)

section \<open>Properties\<close>

text \<open>
  C28: radix sort returns the sorted array for numbers from 0 to 999999999; beyond that the
  power of ten \<open>exp\<close> would overflow.
\<close>

theorem radixsort_correct:
  assumes "a \<noteq> []" "\<forall>x \<in> set a. 0 \<le> x \<and> x < 1000000000"
  shows "radixsort a (len a) = ok (sort a)"
  using assms by (intro radix.returns_sort) auto

lemma radixsort_correct_witness: "radixsort [170, 45, 802] 3 = ok [45, 170, 802]"
  using radixsort_correct [of "[170, 45, 802]"] by auto

text \<open>
  counting sort of a NUL-terminated string of 7-bit characters sorts the characters before
  the terminator and leaves the rest of the array alone.
\<close>

theorem char_countSort_correct:
  assumes "\<forall>c \<in> set xs. 0 < c \<and> c \<le> 127"
  shows "char_countSort (xs @ 0 # ys) = ok (sort xs @ 0 # ys)"
  using char_countSort_spec [of xs ys] assms by (simp add: wp_eq_ok)

lemma char_countSort_correct_witness: "char_countSort [103, 101, 101, 107, 0, 9] = ok [101, 101, 103, 107, 0, 9]"
  using char_countSort_correct [of "[103, 101, 101, 107]" "[9]"] by auto

text \<open>
  pigeonhole sort returns the sorted array when the array is not empty and its greatest and
  smallest numbers are less than \<open>INT_MAX\<close> apart.
\<close>

theorem pigeonholeSort_correct:
  assumes "a \<noteq> []" "len a \<le> int_max" "\<forall>x \<in> set a. \<forall>y \<in> set a. x - y < int_max"
  shows "pigeonholeSort a (len a) = ok (sort a)"
  using assms by (intro pigeonhole.returns_sort) auto

lemma pigeonholeSort_correct_witness: "pigeonholeSort [8, 3, -2] 3 = ok [-2, 3, 8]"
  using pigeonholeSort_correct [of "[8, 3, -2]"] by auto

end
