(* ===== verification/Cxx_Console.thy ===== *)
theory Cxx_Console
  imports Cxx_Core
begin

text \<open>
  The console of the interactive programs: the numbers \<open>std::cin\<close> delivers and the text
  \<open>std::cout\<close> received.  The state records of the programs extend \<open>console\<close>.  The
  second part is the simulation calculus: \<open>sim R m m'\<close> says that two programs do the same
  (both return related results, both fail alike, or neither returns).
\<close>

section \<open>Text\<close>

abbreviation nl :: string where "nl \<equiv> [CHR 0x0A]"
abbreviation tab :: string where "tab \<equiv> [CHR 0x09]"

text \<open>The UTF-8 bytes of the letters the Portuguese messages use.\<close>

abbreviation A_tilde :: string where "A_tilde \<equiv> [CHR 0xC3, CHR 0x83]"
abbreviation A_acute :: string where "A_acute \<equiv> [CHR 0xC3, CHR 0x81]"
abbreviation C_cedilla :: string where "C_cedilla \<equiv> [CHR 0xC3, CHR 0x87]"
abbreviation O_tilde :: string where "O_tilde \<equiv> [CHR 0xC3, CHR 0x95]"
abbreviation U_acute :: string where "U_acute \<equiv> [CHR 0xC3, CHR 0x9A]"
abbreviation ordinal :: string where "ordinal \<equiv> [CHR 0xC2, CHR 0xBA]"

fun dec_nat :: "nat \<Rightarrow> string" where
  "dec_nat n = (if n < 10 then [''0123456789'' ! n] else dec_nat (n div 10) @ [''0123456789'' ! (n mod 10)])"

declare dec_nat.simps [simp del]

text \<open>The decimal text \<open>operator<<\<close> and \<open>%d\<close> print for an \<open>int\<close>.\<close>

definition dec :: "int \<Rightarrow> string" where
  "dec x = (if x < 0 then CHR ''-'' # dec_nat (nat (- x)) else dec_nat (nat x))"

lemma dec_nat_digit [simp]: "n < 10 \<Longrightarrow> dec_nat n = [''0123456789'' ! n]"
  by (simp add: dec_nat.simps)

lemma dec_nat_step [simp]: "10 \<le> n \<Longrightarrow> dec_nat n = dec_nat (n div 10) @ [''0123456789'' ! (n mod 10)]"
  by (subst dec_nat.simps) simp

text \<open>The elements of a range or a list, each followed by a blank.\<close>

definition blanks :: "int list \<Rightarrow> string" where
  "blanks xs = concat (map (\<lambda>x. dec x @ '' '') xs)"

lemma blanks_simps [simp]: "blanks [] = []" "blanks (x # xs) = dec x @ '' '' @ blanks xs"
    "blanks (xs @ ys) = blanks xs @ blanks ys"
  by (simp_all add: blanks_def)

section \<open>The console\<close>

record console =
  inp :: "int list"
  out :: string

definition print :: "string \<Rightarrow> 'a console_scheme \<Rightarrow> 'a console_scheme" where
  "print t s = s\<lparr>out := out s @ t\<rparr>"

text \<open>
  \<open>std::cin >> x\<close>; when the input is exhausted, or the number does not fit an \<open>int\<close>, the
  stream fails and the run ends there.
\<close>

definition read_int :: "'a console_scheme \<Rightarrow> ('a console_scheme \<times> int) run" where
  "read_int s = (case inp s of [] \<Rightarrow> fail End_Of_Input
     | x # xs \<Rightarrow> if int_min \<le> x \<and> x \<le> int_max then ok (s\<lparr>inp := xs\<rparr>, x) else fail End_Of_Input)"

lemma print_simps [simp]:
  "out (print t s) = out s @ t" "inp (print t s) = inp s" "print u (print t s) = print (t @ u) s"
  "print [] s = s"
  by (simp_all add: print_def)

lemma wp_read_int [simp]: "wp (read_int s) Q \<longleftrightarrow>
    (\<exists>x xs. inp s = x # xs \<and> int_min \<le> x \<and> x \<le> int_max \<and> Q (s\<lparr>inp := xs\<rparr>, x))"
  by (auto simp: read_int_def split: list.split)

section \<open>Simulation\<close>

definition sim :: "('a \<Rightarrow> 'b \<Rightarrow> bool) \<Rightarrow> 'a run \<Rightarrow> 'b run \<Rightarrow> bool" where
  "sim R m m' \<longleftrightarrow> rel_option (rel_sum (=) R) m m'"

lemma sim_ok [simp]: "sim R (ok x) (ok y) \<longleftrightarrow> R x y"
  by (simp add: sim_def ok_def)

lemma sim_fail [simp]: "sim R (fail e) (fail e') \<longleftrightarrow> e = e'"
  by (simp add: sim_def fail_def)

lemma sim_None1 [simp]: "sim R None m \<longleftrightarrow> m = None"
  by (auto simp: sim_def)

lemma sim_None2 [simp]: "sim R m None \<longleftrightarrow> m = None"
  by (auto simp: sim_def)

lemma sim_ok_fail [simp]: "\<not> sim R (ok x) (fail e)"
  by (auto simp: sim_def fail_def ok_def)

lemma sim_fail_ok [simp]: "\<not> sim R (fail e) (ok x)"
  by (auto simp: sim_def fail_def ok_def)

lemma sim_cases:
  assumes "sim R m m'"
  obtains "m = None" "m' = None" | e where "m = fail e" "m' = fail e"
    | x y where "m = ok x" "m' = ok y" "R x y"
  using assms by (cases m rule: run_cases; cases m' rule: run_cases) auto

lemma sim_bnd:
  assumes "sim R m m'" "\<And>x y. R x y \<Longrightarrow> sim S (f x) (g y)"
  shows "sim S (bnd m f) (bnd m' g)"
  using assms(1) by (cases rule: sim_cases) (auto intro: assms(2))

lemma sim_mono: "sim R m m' \<Longrightarrow> (\<And>x y. R x y \<Longrightarrow> S x y) \<Longrightarrow> sim S m m'"
  by (auto elim!: sim_cases)

lemma sim_wp_ok: "wp m (\<lambda>x. R x y) \<Longrightarrow> sim R m (ok y)"
  by (auto simp: wp_iff)

lemma sim_wp_bnd: "wp m (\<lambda>x. sim R (f x) m') \<Longrightarrow> sim R (bnd m f) m'"
  by (auto simp: wp_iff)

lemma sim_if: "(b \<Longrightarrow> sim R m m') \<Longrightarrow> (\<not> b \<Longrightarrow> sim R n n') \<Longrightarrow>
    sim R (if b then m else n) (if b then m' else n')"
  by simp

lemma sim_for_up:
  assumes "\<And>i s t. lo \<le> i \<Longrightarrow> i < hi \<Longrightarrow> R s t \<Longrightarrow> sim R (f i s) (g i t)" "R s t"
  shows "sim R (for_up lo hi f s) (for_up lo hi g t)"
  using assms
proof (induction "nat (hi - lo)" arbitrary: lo s t)
  case (Suc n)
  have rest: "sim R (for_up (lo + 1) hi f s') (for_up (lo + 1) hi g t')" if "R s' t'" for s' t'
    by (rule Suc.hyps(1)) (use Suc that in auto)
  from Suc.hyps(2) have "lo < hi" by simp
  then show ?case using Suc.prems by (auto intro!: sim_bnd [where R = R] rest)
qed simp

lemma loop_sim_step:
  assumes step: "\<And>s t. I s t \<Longrightarrow> sim (rel_sum I Q) (f s) (g t)"
    and "I s t" "loop f s = Some r"
  shows "\<exists>r'. loop g t = Some r' \<and> rel_sum (=) Q r r'"
proof -
  have "f = f \<longrightarrow> (\<forall>t. I s t \<longrightarrow> (\<exists>r'. loop g t = Some r' \<and> rel_sum (=) Q r r'))"
  proof (rule loop.raw_induct [where P = "\<lambda>h s r. h = f \<longrightarrow>
        (\<forall>t. I s t \<longrightarrow> (\<exists>r'. loop g t = Some r' \<and> rel_sum (=) Q r r'))", OF _ assms(3)])
    fix lp :: "('a \<Rightarrow> ('a + 'c) run) \<Rightarrow> 'a \<Rightarrow> 'c run" and h s r
    assume IH: "\<And>h s r. lp h s = Some r \<Longrightarrow> h = f \<longrightarrow>
        (\<forall>t. I s t \<longrightarrow> (\<exists>r'. loop g t = Some r' \<and> rel_sum (=) Q r r'))"
      and eq: "(case h s of None \<Rightarrow> None
        | Some o1 \<Rightarrow> (case o1 of Inl e \<Rightarrow> Some (Inl e)
            | Inr x \<Rightarrow> (case x of Inl s' \<Rightarrow> lp h s' | Inr r \<Rightarrow> Some (Inr r)))) = Some r"
    show "h = f \<longrightarrow> (\<forall>t. I s t \<longrightarrow> (\<exists>r'. loop g t = Some r' \<and> rel_sum (=) Q r r'))"
    proof (intro impI allI)
      fix t assume h: "h = f" and "I s t"
      from step [OF \<open>I s t\<close>] show "\<exists>r'. loop g t = Some r' \<and> rel_sum (=) Q r r'"
      proof (cases rule: sim_cases)
        case 1
        with eq h show ?thesis by simp
      next
        case (2 e)
        with eq h show ?thesis by (subst loop_unfold) (auto simp: fail_def bnd_def)
      next
        case (3 x y)
        show ?thesis
        proof (cases x)
          case (Inl s')
          with 3 obtain t' where y: "y = Inl t'" "I s' t'" by (auto elim: rel_sum.cases)
          with eq h 3 Inl IH [of f s' r] show ?thesis by (subst loop_unfold) (simp add: ok_def bnd_def)
        next
          case (Inr q)
          with 3 obtain q' where y: "y = Inr q'" "Q q q'" by (auto elim: rel_sum.cases)
          with eq h 3 Inr show ?thesis by (subst loop_unfold) (auto simp: ok_def bnd_def)
        qed
      qed
    qed
  qed
  with assms(2) show ?thesis by blast
qed

lemma sim_loop:
  assumes step: "\<And>s t. I s t \<Longrightarrow> sim (rel_sum I Q) (f s) (g t)" and "I s t"
  shows "sim Q (loop f s) (loop g t)"
proof (cases "loop f s")
  case (Some r)
  with loop_sim_step [of I Q f g, OF step assms(2)] show ?thesis by (auto simp: sim_def)
next
  case None
  have "sim (rel_sum I\<inverse>\<inverse> Q\<inverse>\<inverse>) (g t) (f s)" if "I\<inverse>\<inverse> t s" for t s
    using step [of s t] that by (auto elim!: sim_cases rel_sum.cases)
  from loop_sim_step [of "I\<inverse>\<inverse>" "Q\<inverse>\<inverse>" g f t s, OF this] assms(2) None show ?thesis
    by (cases "loop g t") auto
qed

lemma sim_read_int:
  assumes "inp s = inp a"
    and "\<And>x xs. inp s = x # xs \<Longrightarrow> R (s\<lparr>inp := xs\<rparr>, x) (a\<lparr>inp := xs\<rparr>, x)"
  shows "sim R (read_int s) (read_int a)"
  using assms by (auto simp: read_int_def split: list.split)

text \<open>
  A run that returns, with at most \<open>n\<close> numbers of the input left, or ends in one of the errors \<open>E\<close>.
  When \<open>E\<close> is \<open>{End_Of_Input}\<close> it has no undefined behaviour and no endless loop.
\<close>

definition awaits :: "ub set \<Rightarrow> nat \<Rightarrow> ('a \<Rightarrow> int list) \<Rightarrow> 'a run \<Rightarrow> bool" where
  "awaits E n g m \<longleftrightarrow> (\<exists>e \<in> E. m = fail e) \<or> (\<exists>x. m = ok x \<and> length (g x) \<le> n)"

lemma awaits_simps [simp]: "awaits E n g (ok x) \<longleftrightarrow> length (g x) \<le> n"
    "awaits E n g (fail e) \<longleftrightarrow> e \<in> E" "\<not> awaits E n g None"
  by (auto simp: awaits_def)

lemma awaits_bnd:
  "awaits E n g m \<Longrightarrow> (\<And>x. length (g x) \<le> n \<Longrightarrow> awaits E k g' (f x)) \<Longrightarrow> awaits E k g' (bnd m f)"
  by (auto simp: awaits_def [of E n])

lemma awaits_read_int [intro]:
  "End_Of_Input \<in> E \<Longrightarrow> length (inp s) \<le> n \<Longrightarrow> awaits E (n - 1) (\<lambda>(s, x). inp s) (read_int s)"
  by (auto simp: read_int_def split: list.split)

lemma awaits_read:
  "End_Of_Input \<in> E \<Longrightarrow> length (inp s) \<le> n \<Longrightarrow> (\<And>s x. length (inp s) \<le> n \<Longrightarrow> awaits E n g (f s x)) \<Longrightarrow>
   awaits E n g (bnd (read_int s) (\<lambda>(s, x). f s x))"
  by (rule awaits_bnd [OF awaits_read_int]) auto

lemma awaits_for_up:
  "length (g s) \<le> n \<Longrightarrow> (\<And>i s. length (g s) \<le> n \<Longrightarrow> awaits E n g (f i s)) \<Longrightarrow>
   awaits E n g (for_up lo hi f s)"
proof (induction lo hi f s rule: for_up.induct)
  case (1 lo hi f s)
  show ?case
  proof (cases "lo < hi")
    case True
    from "1.prems" have "awaits E n g (f lo s)" by blast
    then show ?thesis
      using "1.IH" [OF True] "1.prems"(2) True by (cases "f lo s" rule: run_cases) auto
  qed (use "1.prems" in simp)
qed

lemma awaits_loop:
  assumes "\<And>s. awaits E (length (g s) - 1) (case_sum g g') (f s)" and "\<And>s. g s = [] \<Longrightarrow> f s = fail End_Of_Input" and "End_Of_Input \<in> E"
  shows "awaits E (length (g s)) g' (loop f s)"
proof (induction "length (g s)" arbitrary: s rule: less_induct)
  case less
  show ?case
  proof (cases "g s = []")
    case True
    then show ?thesis by (subst loop_unfold) (simp add: assms(2,3))
  next
    case False
    then have l: "length (g s) - 1 < length (g s)" by simp
    have "awaits E (length (g s)) g' (case x of Inl s' \<Rightarrow> loop f s' | Inr r \<Rightarrow> ok r)"
      if "length (case_sum g g' x) \<le> length (g s) - 1" for x
      using less [of "projl x"] that l by (cases x) (auto simp: awaits_def)
    then show ?thesis by (subst loop_unfold) (rule awaits_bnd [OF assms(1)])
  qed
qed

text \<open>A do-while loop over the choice the user types: it ends with the choice \<open>quit\<close>.\<close>

definition menu_loop :: "int \<Rightarrow> ('s \<Rightarrow> ('s \<times> int) run) \<Rightarrow> 's \<Rightarrow> 's run" where
  "menu_loop quit body = loop (\<lambda>s. bnd (body s) (\<lambda>(s, esc). ok (if esc \<noteq> quit then Inl s else Inr s)))"

lemma sim_menu_loop:
  assumes "\<And>s t. R s t \<Longrightarrow> sim (rel_prod R (=)) (f s) (g t)" "R s t"
  shows "sim R (menu_loop quit f s) (menu_loop quit g t)"
  unfolding menu_loop_def
  by (rule sim_loop [where I = R]) (use assms in \<open>auto intro!: sim_bnd\<close>)

section \<open>Menu programs\<close>

text \<open>
  The interactive programs repeat a dialogue: print the menu, read a choice, do what it asks
  for, and say good bye at the choice \<open>quit\<close> or complain about a choice outside the menu.
  Their handlers do not assign to the choice, so that the sequence of \<open>if (esc == k)\<close> is
  one step \<open>step esc\<close>.
\<close>

definition sair :: "string \<Rightarrow> int \<Rightarrow> int \<Rightarrow> 'a console_scheme \<Rightarrow> 'a console_scheme" where
  "sair bye quit esc s =
     (if esc < 1 \<or> esc > quit then print (nl @ tab @ ''OP'' @ C_cedilla @ A_tilde @ ''O INV'' @ A_acute @ ''LIDA!!!'') s
      else if esc = quit then print bye s else s)"

definition good_bye :: string where
  "good_bye = nl @ tab @ ''GOOD BYE ...!!'' @ nl @ nl"

definition menu_program :: "string \<Rightarrow> int \<Rightarrow> (int \<Rightarrow> 'a console_scheme \<Rightarrow> 'a console_scheme run) \<Rightarrow>
    'a console_scheme \<Rightarrow> 'a console_scheme run" where
  "menu_program menu quit step = menu_loop quit (\<lambda>s.
     bnd (read_int (print menu s)) (\<lambda>(s, esc).
     bnd (step esc s) (\<lambda>s. ok (sair good_bye quit esc s, esc))))"

text \<open>
  Two dialogues whose steps simulate each other under \<open>R\<close>: one on the program's heap, one
  on the values it stands for.
\<close>

locale dialogue =
  fixes R :: "'a console_scheme \<Rightarrow> 'b console_scheme \<Rightarrow> bool"
    and step :: "int \<Rightarrow> 'a console_scheme \<Rightarrow> 'a console_scheme run"
    and spec :: "int \<Rightarrow> 'b console_scheme \<Rightarrow> 'b console_scheme run"
  assumes same_console: "R s a \<Longrightarrow> inp s = inp a \<and> out s = out a"
    and print_rel: "R s a \<Longrightarrow> R (print t s) (print t a)"
    and read_rel: "R s a \<Longrightarrow> inp a = x # xs \<Longrightarrow> R (s\<lparr>inp := xs\<rparr>) (a\<lparr>inp := xs\<rparr>)"
    and step_sim: "R s a \<Longrightarrow> sim R (step esc s) (spec esc a)"
begin

lemma read_sim: "R s a \<Longrightarrow> sim (rel_prod R (=)) (read_int (print t s)) (read_int (print t a))"
  using same_console [of s a] by (intro sim_read_int) (auto intro: read_rel print_rel)

lemma program_sim: "R s a \<Longrightarrow> sim R (menu_program menu quit step s) (menu_program menu quit spec a)"
  unfolding menu_program_def
proof (erule sim_menu_loop [rotated])
  fix s a assume r: "R s a"
  show "sim (rel_prod R (=)) (bnd (read_int (print menu s)) (\<lambda>(s, esc).
     bnd (step esc s) (\<lambda>s. ok (sair good_bye quit esc s, esc))))
     (bnd (read_int (print menu a)) (\<lambda>(a, esc).
     bnd (spec esc a) (\<lambda>a. ok (sair good_bye quit esc a, esc))))"
  proof (rule sim_bnd [OF read_sim [OF r]])
    fix x :: "'a console_scheme \<times> int" and y assume "rel_prod R (=) x y"
    then obtain s a esc where x: "x = (s, esc)" "y = (a, esc)" and r: "R s a"
      by (cases x; cases y) auto
    have "R (sair good_bye quit esc s) (sair good_bye quit esc a)" if "R s a" for s a
      using that by (auto simp: sair_def intro: print_rel)
    then show "sim (rel_prod R (=))
      (case x of (s, esc) \<Rightarrow> bnd (step esc s) (\<lambda>s. ok (sair good_bye quit esc s, esc)))
      (case y of (a, esc) \<Rightarrow> bnd (spec esc a) (\<lambda>a. ok (sair good_bye quit esc a, esc)))"
      unfolding x prod.case by (intro sim_bnd [OF step_sim [OF r]]) simp
  qed
qed

text \<open>What the program prints is what the dialogue on values prints.\<close>

lemma same_output:
  assumes "R s a"
  shows "sim (\<lambda>s a. out s = out a \<and> inp s = inp a) (menu_program menu quit step s) (menu_program menu quit spec a)"
  using program_sim [OF assms] by (rule sim_mono) (simp add: same_console)

end

text \<open>A dialogue whose steps return, wait for input or fail as \<open>E\<close> says, and its program.\<close>

locale safe_dialogue = dialogue +
  fixes E :: "ub set"
  assumes waits: "End_Of_Input \<in> E"
    and spec_awaits: "awaits E (length (inp a)) inp (spec esc a)"
begin

lemma spec_program_awaits: "awaits E (length (inp a)) inp (menu_program menu quit spec a)"
  unfolding menu_program_def menu_loop_def
proof (rule awaits_loop)
  show "awaits E (length (inp a) - 1) (case_sum inp inp)
      (bnd (bnd (read_int (print menu a)) (\<lambda>(s, esc). bnd (spec esc s)
         (\<lambda>s. ok (sair good_bye quit esc s, esc))))
      (\<lambda>(s, esc). ok (if esc \<noteq> quit then Inl s else Inr s)))" for a
  proof (rule awaits_bnd [OF awaits_bnd [OF awaits_read_int [OF waits]]])
    fix x :: "'b console_scheme \<times> int" assume "length (case x of (s, _) \<Rightarrow> inp s) \<le> length (inp a) - 1"
    then show "awaits E (length (inp a) - 1) (\<lambda>(s, _). inp s)
        (case x of (s, esc) \<Rightarrow> bnd (spec esc s) (\<lambda>s. ok (sair good_bye quit esc s, esc)))"
      by (cases x) (auto simp: sair_def intro!: awaits_bnd [OF spec_awaits])
  qed (auto split: prod.splits)
qed (simp_all add: read_int_def waits)

lemma program_returns_or_waits:
  assumes "R s a"
  shows "(\<exists>s'. menu_program menu quit step s = ok s') \<or> (\<exists>e \<in> E. menu_program menu quit step s = fail e)"
  using spec_program_awaits [of a menu quit] program_sim [OF assms, of menu quit]
  by (auto simp: awaits_def elim: sim_cases)

end

end
