(* ===== verification/Sort_Programs.thy ===== *)
theory Sort_Programs
  imports Sort_Exchange Sort_Gap Sort_Merge Sort_Quick Sort_Heap Sort_Count Cxx_Console
begin

text \<open>
  The drivers of \<open>DataStructure/sort\<close>: each sorts a literal array and prints it.  The
  printing loops of the files differ in the function they call (\<open>printf\<close> or
  \<open>operator<<\<close>) only, so that they share \<open>printArray\<close>.  What a driver prints
  follows from \<open>sorting_routine.returns_sort\<close> and the literal array, and is the text of
  the comment that closes its file.
\<close>

section \<open>Printing\<close>

definition printArray :: "int list \<Rightarrow> int \<Rightarrow> string run" where
  "printArray arr n =
     bnd (for_up 0 n (\<lambda>i t. bnd (rd arr i) (\<lambda>x. ok (t @ dec x @ '' ''))) []) (\<lambda>t. ok (t @ nl))"

lemma printArray_whole: "printArray arr (len arr) = ok (blanks arr @ nl)"
proof -
  have "wp (printArray arr (len arr)) (\<lambda>t. t = blanks arr @ nl)"
    unfolding printArray_def wp_bnd
  proof (rule wp_for_up [where I = "\<lambda>i t. t = blanks (take (nat i) arr)"])
    fix i t assume i: "0 \<le> i" "i < len arr" "t = blanks (take (nat i) arr)"
    then have "take (nat (i + 1)) arr = take (nat i) arr @ [at arr i]"
      by (simp add: nat_add_distrib take_Suc_conv_app_nth at_def)
    with i show "wp (bnd (rd arr i) (\<lambda>x. ok (t @ dec x @ '' ''))) (\<lambda>t. t = blanks (take (nat (i + 1)) arr))"
      by simp
  qed auto
  then show ?thesis by (simp add: wp_eq_ok)
qed

section \<open>The drivers\<close>

definition bubble_main :: "string run" where
  "bubble_main =
     (let arr = [64, 34, 25, 12, 22, 11, 90]; n = len arr in
      bnd (bubbleSort arr n) (\<lambda>arr. bnd (printArray arr n) (\<lambda>t. ok (''Sorted array: '' @ nl @ t))))"

definition comb_main :: "string run" where
  "comb_main =
     (let a = [8, 4, 1, 56, 3, -44, 23, -6, 28, 0]; n = len a in
      bnd (combSort a n) (\<lambda>a. bnd (printArray a n) (\<lambda>t. ok (''Sorted array: '' @ nl @ t))))"

definition heap_main :: "string run" where
  "heap_main =
     (let arr = [12, 11, 13, 5, 6, 7]; n = len arr in
      bnd (heapSort arr n) (\<lambda>arr. bnd (printArray arr n) (\<lambda>t. ok (''Sorted array is '' @ nl @ t))))"

definition insertion_main :: "string run" where
  "insertion_main =
     (let arr = [12, 11, 13, 5, 6]; n = len arr in bnd (insertionSort arr n) (\<lambda>arr. printArray arr n))"

definition merge_main_program :: "string run" where
  "merge_main_program =
     (let arr = [12, 11, 13, 5, 6, 7]; arr_size = len arr in
      bnd (printArray arr arr_size) (\<lambda>t1.
      bnd (mergeSort arr 0 (arr_size - 1)) (\<lambda>arr.
      bnd (printArray arr arr_size) (\<lambda>t2.
        ok (''Given array is '' @ nl @ t1 @ nl @ ''Sorted array is '' @ nl @ t2)))))"

definition pigeonhole_main :: "string run" where
  "pigeonhole_main =
     (let arr = [8, 3, 2, 7, 4, 6, 8]; n = len arr in
      bnd (pigeonholeSort arr n) (\<lambda>arr. bnd (printArray arr n) (\<lambda>t. ok (''Sorted order is : '' @ t))))"

definition quick_main :: "string run" where
  "quick_main =
     (let arr = [10, 7, 8, 9, 1, 5]; n = len arr in
      bnd (quickSort arr 0 (n - 1)) (\<lambda>arr. bnd (printArray arr n) (\<lambda>t. ok (''Sorted array: '' @ t))))"

definition radix_main :: "string run" where
  "radix_main =
     (let arr = [170, 45, 75, 90, 802, 24, 2, 66]; n = len arr in
      bnd (radixsort arr n) (\<lambda>arr. printArray arr n))"

definition selection_main :: "string run" where
  "selection_main =
     (let arr = [64, 25, 12, 22, 11]; n = len arr in
      bnd (selectionSort arr n) (\<lambda>arr. bnd (printArray arr n) (\<lambda>t. ok (''Sorted array: '' @ nl @ t))))"

definition shell_main :: "string run" where
  "shell_main =
     (let arr = [12, 34, 54, 2, 3]; n = len arr in
      bnd (printArray arr n) (\<lambda>t1. bnd (shellSort arr n) (\<lambda>arr. bnd (printArray arr n) (\<lambda>t2.
        ok (''Array before sorting: '' @ nl @ t1 @ nl @ ''Array after sorting: '' @ nl @ t2)))))"

text \<open>A character array with its terminating NUL, and the string \<open>%s\<close> prints of one.\<close>

definition c_string :: "string \<Rightarrow> int list" where
  "c_string t = map of_char t @ [0]"

definition c_text :: "int list \<Rightarrow> string" where
  "c_text arr = map char_of (takeWhile (\<lambda>c. c \<noteq> 0) arr)"

definition counting_main :: "string run" where
  "counting_main = bnd (char_countSort (c_string ''geeksforgeeks'')) (\<lambda>arr.
     ok (''Sorted character array is '' @ c_text arr @ nl))"

section \<open>What they print\<close>

text \<open>The results of the sorting calls, in the form in which the drivers ask for them.\<close>

lemma prints_sorted:
  assumes "srt = ok (sort a)" "n = len a"
  shows "bnd srt (\<lambda>a. printArray a n) = ok (blanks (sort a) @ nl)"
    and "bnd srt (\<lambda>a. bnd (printArray a n) (\<lambda>t. ok (f t))) = ok (f (blanks (sort a) @ nl))"
  using printArray_whole [of "sort a"] assms by simp_all

lemma bubble_prints: "bubble_main = ok (''Sorted array: '' @ nl @ ''11 12 22 25 34 64 90 '' @ nl)"
  unfolding bubble_main_def Let_def
  by (subst prints_sorted(2) [OF bubble.returns_sort]) (simp_all add: dec_def)

lemma comb_prints: "comb_main = ok (''Sorted array: '' @ nl @ ''-44 -6 0 1 3 4 8 23 28 56 '' @ nl)"
  unfolding comb_main_def Let_def
  by (subst prints_sorted(2) [OF comb.returns_sort]) (simp_all add: dec_def)

lemma heap_prints: "heap_main = ok (''Sorted array is '' @ nl @ ''5 6 7 11 12 13 '' @ nl)"
  unfolding heap_main_def Let_def
  by (subst prints_sorted(2) [OF heaps.returns_sort]) (simp_all add: dec_def)

lemma insertion_prints: "insertion_main = ok (''5 6 11 12 13 '' @ nl)"
  unfolding insertion_main_def Let_def
  by (subst prints_sorted(1) [OF insertion.returns_sort]) (simp_all add: dec_def)

lemma merge_prints: "merge_main_program = ok (''Given array is '' @ nl @ ''12 11 13 5 6 7 '' @ nl @ nl @
    ''Sorted array is '' @ nl @ ''5 6 7 11 12 13 '' @ nl)"
  unfolding merge_main_program_def Let_def printArray_whole bnd_ok
  by (subst prints_sorted(2) [OF merges.returns_sort]) (simp_all add: dec_def)

lemma pigeonhole_prints: "pigeonhole_main = ok (''Sorted order is : '' @ ''2 3 4 6 7 8 8 '' @ nl)"
  unfolding pigeonhole_main_def Let_def
  by (subst prints_sorted(2) [OF pigeonhole.returns_sort]) (simp_all add: dec_def)

lemma quick_prints: "quick_main = ok (''Sorted array: '' @ ''1 5 7 8 9 10 '' @ nl)"
  unfolding quick_main_def Let_def
  by (subst prints_sorted(2) [OF quick.returns_sort]) (simp_all add: dec_def)

lemma radix_prints: "radix_main = ok (''2 24 45 66 75 90 170 802 '' @ nl)"
  unfolding radix_main_def Let_def
  by (subst prints_sorted(1) [OF radix.returns_sort]) (simp_all add: dec_def)

lemma selection_prints: "selection_main = ok (''Sorted array: '' @ nl @ ''11 12 22 25 64 '' @ nl)"
  unfolding selection_main_def Let_def
  by (subst prints_sorted(2) [OF selection.returns_sort]) (simp_all add: dec_def)

lemma shell_prints: "shell_main = ok (''Array before sorting: '' @ nl @ ''12 34 54 2 3 '' @ nl @ nl @
    ''Array after sorting: '' @ nl @ ''2 3 12 34 54 '' @ nl)"
  unfolding shell_main_def Let_def printArray_whole bnd_ok
  by (subst prints_sorted(2) [OF shell.returns_sort]) (simp_all add: dec_def)

lemma counting_sorts_text:
  assumes "\<And>c. c \<in> set t \<Longrightarrow> c \<noteq> CHR 0x00 \<and> (of_char c :: int) \<le> 127"
  shows "char_countSort (c_string t) = ok (sort (map of_char t) @ [0])"
proof -
  have "(0::int) < of_char c" if "c \<noteq> CHR 0x00" for c
  proof -
    have "(of_char c :: int) \<noteq> of_char (CHR 0x00)" using that by (simp only: of_char_eq_iff) simp
    then have "(of_char c :: int) \<noteq> 0" by simp
    moreover have "(0::int) \<le> of_char c" by (cases c) (simp add: of_char_def)
    ultimately show ?thesis by linarith
  qed
  with assms have "wp (char_countSort (map of_char t @ 0 # [])) (\<lambda>b. b = sort (map of_char t) @ 0 # [])"
    by (intro char_countSort_spec) auto
  then show ?thesis by (simp add: wp_eq_ok c_string_def)
qed

lemma counting_prints: "counting_main = ok (''Sorted character array is eeeefggkkorss'' @ nl)"
  unfolding counting_main_def
  by (subst counting_sorts_text) (auto simp: c_text_def char_of_def)

section \<open>Properties\<close>

text \<open>
  every sorting driver prints the sample output quoted at the end of its source file.
\<close>

theorem sort_drivers_print:
  "bubble_main = ok (''Sorted array: '' @ nl @ ''11 12 22 25 34 64 90 '' @ nl)
   \<and> comb_main = ok (''Sorted array: '' @ nl @ ''-44 -6 0 1 3 4 8 23 28 56 '' @ nl)
   \<and> heap_main = ok (''Sorted array is '' @ nl @ ''5 6 7 11 12 13 '' @ nl)
   \<and> insertion_main = ok (''5 6 11 12 13 '' @ nl)
   \<and> merge_main_program = ok (''Given array is '' @ nl @ ''12 11 13 5 6 7 '' @ nl @ nl @
        ''Sorted array is '' @ nl @ ''5 6 7 11 12 13 '' @ nl)
   \<and> pigeonhole_main = ok (''Sorted order is : '' @ ''2 3 4 6 7 8 8 '' @ nl)
   \<and> quick_main = ok (''Sorted array: '' @ ''1 5 7 8 9 10 '' @ nl)
   \<and> radix_main = ok (''2 24 45 66 75 90 170 802 '' @ nl)
   \<and> selection_main = ok (''Sorted array: '' @ nl @ ''11 12 22 25 64 '' @ nl)
   \<and> shell_main = ok (''Array before sorting: '' @ nl @ ''12 34 54 2 3 '' @ nl @ nl @
        ''Array after sorting: '' @ nl @ ''2 3 12 34 54 '' @ nl)
   \<and> counting_main = ok (''Sorted character array is eeeefggkkorss'' @ nl)"
  by (intro conjI bubble_prints comb_prints heap_prints insertion_prints merge_prints pigeonhole_prints
      quick_prints radix_prints selection_prints shell_prints counting_prints)

end
