(* ===== verification/Cxx_Heap.thy ===== *)
theory Cxx_Heap
  imports Cxx_Array
begin

text \<open>
  The heap the linked structures live in: objects at positive addresses, \<open>null\<close> the address
  0, \<open>new\<close> never reuses an address, so that an access after \<open>delete\<close> is seen as
  \<open>Dangling\<close>.  The records of the programs extend \<open>link\<close>, whose field \<open>nxt\<close> is
  \<open>None\<close> until it is assigned; \<open>lseg\<close> is the path along that field, and the lemmas
  say what it becomes when a cell is written, allocated or deleted.
\<close>

section \<open>Objects and pointers\<close>

type_synonym ptr = nat

abbreviation null :: ptr where "null \<equiv> 0"

record 'n heap =
  cells :: "ptr \<Rightarrow> 'n option"
  brk :: nat

definition empty_heap :: "'n heap" where
  "empty_heap = \<lparr>cells = (\<lambda>_. None), brk = 1\<rparr>"

definition put :: "'n heap \<Rightarrow> ptr \<Rightarrow> 'n \<Rightarrow> 'n heap" where
  "put h p n = h\<lparr>cells := (cells h)(p \<mapsto> n)\<rparr>"

definition ld :: "'n heap \<Rightarrow> ptr \<Rightarrow> 'n run" where
  "ld h p = (if p = null then fail Null_Deref
     else case cells h p of None \<Rightarrow> fail Dangling | Some n \<Rightarrow> ok n)"

definition st :: "'n heap \<Rightarrow> ptr \<Rightarrow> 'n \<Rightarrow> 'n heap run" where
  "st h p n = bnd (ld h p) (\<lambda>_. ok (put h p n))"

text \<open>\<open>new\<close> with the values its initialiser and the assignments right after it give.\<close>

definition alloc :: "'n heap \<Rightarrow> 'n \<Rightarrow> 'n heap \<times> ptr" where
  "alloc h n = ((put h (brk h) n)\<lparr>brk := brk h + 1\<rparr>, brk h)"

definition dispose :: "'n heap \<Rightarrow> ptr \<Rightarrow> 'n heap run" where
  "dispose h p = (if p = null then ok h
     else bnd (ld h p) (\<lambda>_. ok (h\<lparr>cells := (cells h)(p := None)\<rparr>)))"

definition heap_ok :: "'n heap \<Rightarrow> bool" where
  "heap_ok h \<longleftrightarrow> 0 < brk h \<and> (\<forall>p \<in> dom (cells h). 0 < p \<and> p < brk h)"

lemma cells_put [simp]: "cells (put h p n) = (cells h)(p \<mapsto> n)"
  and brk_put [simp]: "brk (put h p n) = brk h"
  by (simp_all add: put_def)

lemma put_put [simp]: "put (put h p n) p m = put h p m"
  and put_brk [simp]: "put (h\<lparr>brk := b\<rparr>) p n = (put h p n)\<lparr>brk := b\<rparr>"
  by (simp_all add: put_def)

lemma heap_ok_empty [simp]: "heap_ok empty_heap"
  by (simp add: heap_ok_def empty_heap_def)

lemma cells_empty [simp]: "cells empty_heap p = None"
  by (simp add: empty_heap_def)

lemma heap_ok_put [simp]: "heap_ok h \<Longrightarrow> 0 < p \<Longrightarrow> p < brk h \<Longrightarrow> heap_ok (put h p n)"
  by (simp add: heap_ok_def)

lemma heap_ok_put_dom [simp]: "heap_ok h \<Longrightarrow> cells h p = Some m \<Longrightarrow> heap_ok (put h p n)"
  by (auto simp: heap_ok_def)

lemma heap_ok_del [simp]: "heap_ok h \<Longrightarrow> heap_ok (h\<lparr>cells := (cells h)(p := None)\<rparr>)"
  by (auto simp: heap_ok_def split: if_splits)

lemma heap_ok_alloc [simp]: "heap_ok h \<Longrightarrow> heap_ok (h\<lparr>cells := (cells h)(brk h \<mapsto> n), brk := Suc (brk h)\<rparr>)"
  by (auto simp: heap_ok_def less_Suc_eq split: if_splits)

lemma heap_okD: "heap_ok h \<Longrightarrow> cells h p = Some n \<Longrightarrow> 0 < p \<and> p < brk h"
  by (auto simp: heap_ok_def)

lemma heap_ok_fresh [simp]: "heap_ok h \<Longrightarrow> cells h (brk h) = None"
  by (auto simp: heap_ok_def)

lemma heap_ok_null [simp]: "heap_ok h \<Longrightarrow> cells h null = None"
  by (auto simp: heap_ok_def)

lemma heap_ok_brk [simp]: "heap_ok h \<Longrightarrow> 0 < brk h"
  by (simp add: heap_ok_def)

lemma wp_ld [simp]: "wp (ld h p) Q \<longleftrightarrow> 0 < p \<and> (\<exists>n. cells h p = Some n \<and> Q n)"
  by (auto simp: ld_def split: option.split)

lemma wp_st [simp]: "wp (st h p n) Q \<longleftrightarrow> 0 < p \<and> (\<exists>m. cells h p = Some m) \<and> Q (put h p n)"
  by (auto simp: st_def)

lemma wp_dispose [simp]: "wp (dispose h p) Q \<longleftrightarrow>
    (if p = 0 then Q h else (\<exists>n. cells h p = Some n) \<and> Q (h\<lparr>cells := (cells h)(p := None)\<rparr>))"
  by (auto simp: dispose_def)

lemma ld_ok: "0 < p \<Longrightarrow> cells h p = Some n \<Longrightarrow> ld h p = ok n"
  by (simp add: ld_def)

lemma ld_null [simp]: "ld h null = fail Null_Deref"
  by (simp add: ld_def)

lemma ld_dangling: "0 < p \<Longrightarrow> cells h p = None \<Longrightarrow> ld h p = fail Dangling"
  by (simp add: ld_def)

section \<open>Linked cells\<close>

record link = nxt :: "ptr option"

definition init_ptr :: "ptr option \<Rightarrow> ptr run" where
  "init_ptr v = (case v of None \<Rightarrow> fail Uninitialised | Some p \<Rightarrow> ok p)"

text \<open>\<open>p->next\<close> and \<open>p->next = q\<close>.\<close>

definition get_next :: "'n link_scheme heap \<Rightarrow> ptr \<Rightarrow> ptr run" where
  "get_next h p = bnd (ld h p) (\<lambda>n. init_ptr (nxt n))"

definition set_next :: "'n link_scheme heap \<Rightarrow> ptr \<Rightarrow> ptr \<Rightarrow> 'n link_scheme heap run" where
  "set_next h p q = bnd (ld h p) (\<lambda>n. st h p (n\<lparr>nxt := Some q\<rparr>))"

lemma wp_init_ptr [simp]: "wp (init_ptr v) Q \<longleftrightarrow> (\<exists>p. v = Some p \<and> Q p)"
  by (auto simp: init_ptr_def split: option.split)

lemma wp_get_next [simp]:
  "wp (get_next h p) Q \<longleftrightarrow> 0 < p \<and> (\<exists>n q. cells h p = Some n \<and> nxt n = Some q \<and> Q q)"
  by (auto simp: get_next_def)

lemma wp_set_next [simp]:
  "wp (set_next h p q) Q \<longleftrightarrow> 0 < p \<and> (\<exists>n. cells h p = Some n \<and> Q (put h p (n\<lparr>nxt := Some q\<rparr>)))"
  by (auto simp: set_next_def)

section \<open>Paths\<close>

text \<open>\<open>lseg m p as q\<close>: following \<open>nxt\<close> from \<open>p\<close> visits the cells \<open>as\<close> and arrives at \<open>q\<close>.\<close>

primrec lseg :: "(ptr \<Rightarrow> 'n link_scheme option) \<Rightarrow> ptr \<Rightarrow> ptr list \<Rightarrow> ptr \<Rightarrow> bool" where
  "lseg m p [] q \<longleftrightarrow> p = q"
| "lseg m p (a # as) q \<longleftrightarrow> p = a \<and> 0 < a \<and> (\<exists>n r. m a = Some n \<and> nxt n = Some r \<and> lseg m r as q)"

lemma lseg_append [simp]: "lseg m p (as @ bs) q \<longleftrightarrow> (\<exists>r. lseg m p as r \<and> lseg m r bs q)"
  by (induction as arbitrary: p) (auto)

lemma lseg_null [simp]: "lseg m 0 as q \<longleftrightarrow> as = [] \<and> q = 0"
  by (cases as) auto

lemma lseg_upd_other [simp]: "a \<notin> set as \<Longrightarrow> lseg (m(a := v)) p as q \<longleftrightarrow> lseg m p as q"
  by (induction as arbitrary: p) auto

lemma lseg_cong: "(\<And>a. a \<in> set as \<Longrightarrow> m a = m' a) \<Longrightarrow> lseg m p as q \<longleftrightarrow> lseg m' p as q"
  by (induction as arbitrary: p) auto

lemma lseg_dom: "lseg m p as q \<Longrightarrow> a \<in> set as \<Longrightarrow> 0 < a \<and> (\<exists>n. m a = Some n)"
  by (induction as arbitrary: p) auto

lemma lseg_in_domD: "lseg m p as q \<Longrightarrow> set as \<subseteq> dom m"
  by (auto dest: lseg_dom)

lemma lseg_null_unique: "lseg m p as 0 \<Longrightarrow> lseg m p bs 0 \<Longrightarrow> as = bs"
proof (induction as arbitrary: p bs)
  case (Cons a as)
  then show ?case by (cases bs) auto
qed auto

lemma lseg_distinct: "lseg m p as 0 \<Longrightarrow> distinct as"
proof (induction as arbitrary: p)
  case (Cons a as)
  then obtain r where r: "lseg m r as 0" by auto
  have "a \<notin> set as"
  proof
    assume "a \<in> set as"
    then obtain us vs where as: "as = us @ a # vs" by (meson split_list)
    with r have "lseg m a (a # vs) 0" by auto
    moreover from Cons.prems have "lseg m a (a # as) 0" by auto
    ultimately have "a # vs = a # as" using lseg_null_unique by blast
    with as show False by simp
  qed
  with Cons r show ?case by auto
qed simp

lemma lseg_below_brk: "heap_ok h \<Longrightarrow> lseg (cells h) p as q \<Longrightarrow> a \<in> set as \<Longrightarrow> a < brk h"
  by (drule (1) lseg_dom) (auto dest: heap_okD)

lemma lseg_fresh [simp]: "heap_ok h \<Longrightarrow> lseg (cells h) p as q \<Longrightarrow> brk h \<notin> set as"
  by (auto dest: lseg_below_brk)

lemma lseg_start: "lseg m p as q \<Longrightarrow> p = (case as of [] \<Rightarrow> q | a # _ \<Rightarrow> a)"
  by (cases as) auto

lemma lseg_start_null: "lseg m p as 0 \<Longrightarrow> p = 0 \<longleftrightarrow> as = []"
  by (cases as) auto

text \<open>A path that may end at \<open>null\<close> only is split at a member.\<close>

lemma lseg_member:
  assumes "lseg m p as q" "a \<in> set as"
  obtains bs cs n r where "as = bs @ a # cs" "a \<notin> set bs" "lseg m p bs a" "m a = Some n" "nxt n = Some r"
    "lseg m r cs q" "0 < a"
  using assms by (auto dest!: split_list_first)

subsection \<open>What the cells of a path hold\<close>

definition along :: "('n \<Rightarrow> 'a) \<Rightarrow> (ptr \<Rightarrow> 'n option) \<Rightarrow> ptr list \<Rightarrow> 'a list" where
  "along f m as = map (\<lambda>a. f (the (m a))) as"

lemma along_simps [simp]:
  "along f m [] = []" "along f m (a # as) = f (the (m a)) # along f m as"
  "along f m (as @ bs) = along f m as @ along f m bs" "along f m (rev as) = rev (along f m as)"
  "length (along f m as) = length as"
  by (simp_all add: along_def rev_map)

lemma along_upd_other [simp]: "a \<notin> set as \<Longrightarrow> along f (m(a := v)) as = along f m as"
  by (simp add: along_def)

lemma along_upd_same: "m a = Some n \<Longrightarrow> f n' = f n \<Longrightarrow> along f (m(a \<mapsto> n')) as = along f m as"
  by (simp add: along_def)

lemma along_cong: "(\<And>a. a \<in> set as \<Longrightarrow> m a = m' a) \<Longrightarrow> along f m as = along f m' as"
  by (simp add: along_def)

lemma along_Nil_iff [simp]: "along f m as = [] \<longleftrightarrow> as = []" "[] = along f m as \<longleftrightarrow> as = []"
  by (auto simp: along_def)

section \<open>Null-terminated lists\<close>

text \<open>
  \<open>list_at f h p xs\<close>: the heap is well-formed and the null-terminated list from \<open>p\<close>
  holds \<open>xs\<close> in the field \<open>f\<close>.
\<close>

definition chain :: "'n link_scheme heap \<Rightarrow> ptr \<Rightarrow> ptr list \<Rightarrow> bool" where
  "chain h p as \<longleftrightarrow> heap_ok h \<and> lseg (cells h) p as 0"

definition list_at :: "('n link_scheme \<Rightarrow> 'a) \<Rightarrow> 'n link_scheme heap \<Rightarrow> ptr \<Rightarrow> 'a list \<Rightarrow> bool" where
  "list_at f h p xs \<longleftrightarrow> (\<exists>as. chain h p as \<and> along f (cells h) as = xs)"

lemma chain_distinct: "chain h p as \<Longrightarrow> distinct as"
  by (auto simp: chain_def dest: lseg_distinct)

lemma chain_null [simp]: "chain h 0 as \<longleftrightarrow> heap_ok h \<and> as = []"
  by (auto simp: chain_def)

lemma chain_Nil [simp]: "chain h p [] \<longleftrightarrow> heap_ok h \<and> p = 0"
  by (auto simp: chain_def)

lemma list_at_null [simp]: "list_at f h 0 xs \<longleftrightarrow> heap_ok h \<and> xs = []"
  by (auto simp: list_at_def)

lemma list_at_empty_iff: "list_at f h p xs \<Longrightarrow> p = 0 \<longleftrightarrow> xs = []"
  by (auto simp: list_at_def chain_def dest: lseg_start_null)

lemma list_at_unique: "list_at f h p xs \<Longrightarrow> list_at f h p ys \<Longrightarrow> xs = ys"
  by (auto simp: list_at_def chain_def dest: lseg_null_unique)

lemma list_at_heap_ok: "list_at f h p xs \<Longrightarrow> heap_ok h"
  by (auto simp: list_at_def chain_def)

text \<open>Allocating a new first cell.\<close>

lemma list_at_push:
  assumes "list_at f h p xs" "alloc h n = (h', q)" "nxt n = Some p" "f n = x"
  shows "list_at f h' q (x # xs)"
proof -
  from assms(1) obtain as where as: "heap_ok h" "lseg (cells h) p as 0" "along f (cells h) as = xs"
    by (auto simp: list_at_def chain_def)
  then show ?thesis
    using assms(2-4)
    by (auto simp: list_at_def chain_def alloc_def put_def intro!: exI [of _ "brk h # as"])
qed

lemma list_at_single:
  "heap_ok h \<Longrightarrow> alloc h n = (h', q) \<Longrightarrow> nxt n = Some 0 \<Longrightarrow> f n = x \<Longrightarrow> list_at f h' q [x]"
  by (rule list_at_push [where p = 0 and h = h]) auto

text \<open>The first cell of a list that is not empty, and what its deletion leaves.\<close>

lemma list_at_ConsE:
  assumes "list_at f h p (x # xs)"
  obtains n q where "0 < p" "cells h p = Some n" "f n = x" "nxt n = Some q" "list_at f h q xs"
    "list_at f (h\<lparr>cells := (cells h)(p := None)\<rparr>) q xs"
proof -
  from assms obtain as where as: "chain h p as" "along f (cells h) as = x # xs"
    by (auto simp: list_at_def)
  then obtain b bs where bs: "as = b # bs" by (cases as) auto
  with as obtain n q where n: "0 < p" "cells h p = Some n" "f n = x" "nxt n = Some q" "p = b"
      "chain h q bs" "along f (cells h) bs = xs"
    by (auto simp: chain_def)
  moreover have "b \<notin> set bs" using chain_distinct [OF as(1)] bs by simp
  then have "list_at f (h\<lparr>cells := (cells h)(p := None)\<rparr>) q xs"
    using n by (auto simp: list_at_def chain_def intro!: exI [of _ bs])
  ultimately show thesis by (intro that) (auto simp: list_at_def)
qed

lemma list_at_NilE: "list_at f h p [] \<Longrightarrow> p = 0"
  by (auto dest: list_at_empty_iff)

text \<open>What allocation and deletion leave of the lists they do not touch.\<close>

abbreviation del :: "'n heap \<Rightarrow> ptr \<Rightarrow> 'n heap" where
  "del h p \<equiv> h\<lparr>cells := (cells h)(p := None)\<rparr>"

lemma alloc_frame:
  assumes "heap_ok h" "alloc h n = (h', q)"
  shows "heap_ok h'" "0 < q" "cells h' q = Some n"
    and "chain h p as \<Longrightarrow> chain h' p as" "chain h p as \<Longrightarrow> q \<notin> set as"
    and "chain h p as \<Longrightarrow> along f (cells h') as = along f (cells h) as"
    and "chain h p as \<Longrightarrow> nxt n = Some p \<Longrightarrow> chain h' q (q # as)"
proof -
  have h': "cells h' = (cells h)(q \<mapsto> n)" "q = brk h" and ok': "heap_ok h'"
    using assms by (auto simp: alloc_def put_def)
  show "heap_ok h'" "0 < q" "cells h' q = Some n" using ok' h' assms(1) by auto
  assume c: "chain h p as"
  then show q: "q \<notin> set as" using h' by (auto simp: chain_def)
  then show "chain h' p as" using c h' ok' by (auto simp: chain_def)
  show "along f (cells h') as = along f (cells h) as" using q h' by simp
  show "chain h' q (q # as)" if "nxt n = Some p"
    using that c q h' ok' assms(1) by (auto simp: chain_def)
qed

lemma del_frame:
  "chain h p as \<Longrightarrow> a \<notin> set as \<Longrightarrow> chain (del h a) p as"
  "a \<notin> set as \<Longrightarrow> along f (cells (del h a)) as = along f (cells h) as"
  by (auto simp: chain_def)

lemma put_frame:
  "chain h p as \<Longrightarrow> a \<notin> set as \<Longrightarrow> cells h a = Some n \<Longrightarrow> chain (put h a n') p as"
  by (auto simp: chain_def)

text \<open>Writing the other fields of a cell.\<close>

lemma lseg_put_same:
  "m a = Some n \<Longrightarrow> nxt n' = nxt n \<Longrightarrow> lseg (m(a \<mapsto> n')) p as q \<longleftrightarrow> lseg m p as q"
  by (induction as arbitrary: p) auto

lemma chain_put_same:
  "cells h a = Some n \<Longrightarrow> nxt n' = nxt n \<Longrightarrow> chain h p as \<Longrightarrow> chain (put h a n') p as"
  by (auto simp: chain_def lseg_put_same)

lemma chain_ConsE:
  assumes "chain h p (a # as)"
  obtains n q where "p = a" "0 < a" "cells h a = Some n" "nxt n = Some q" "chain h q as"
    "a \<notin> set as" "chain (del h a) q as" "heap_ok h"
proof -
  have a: "a \<notin> set as" using chain_distinct [OF assms] by simp
  from assms obtain n q where "p = a" "0 < a" "cells h a = Some n" "nxt n = Some q" "chain h q as" "heap_ok h"
    by (auto simp: chain_def)
  with a that show thesis by (auto intro: del_frame)
qed

end
