(* ===== verification/Cxx_List.thy ===== *)
theory Cxx_List
  imports Cxx_Heap Cxx_Console
begin

text \<open>
  The loops the linked-list programs have in common: printing a list, searching it, walking to
  its last cell and deleting every cell.  The programs call them where their source has the
  same loop; each has one rule about null-terminated lists.
\<close>

section \<open>Printing\<close>

text \<open>\<open>while (cur) { cout << ...; cur = cur->next; }\<close>\<close>

definition print_cells :: "('n link_scheme \<Rightarrow> string) \<Rightarrow> 'n link_scheme heap \<Rightarrow> ptr \<Rightarrow> string run" where
  "print_cells g h p =
     bnd (while_run (\<lambda>(cur, t). ok (cur \<noteq> null))
            (\<lambda>(cur, t). bnd (ld h cur) (\<lambda>n. bnd (get_next h cur) (\<lambda>q. ok (q, t @ g n)))) (p, []))
       (\<lambda>(cur, t). ok t)"

lemma print_cells_chain:
  assumes "lseg (cells h) p as 0"
  shows "print_cells g h p = ok (concat (along g (cells h) as))"
proof -
  have "wp (print_cells g h p) (\<lambda>t. t = concat (along g (cells h) as))"
    unfolding print_cells_def wp_bnd
    by (rule wp_while_list [where xs = as and I = "\<lambda>bs (cur, t). lseg (cells h) cur bs 0 \<and>
            t @ concat (along g (cells h) bs) = concat (along g (cells h) as)"])
      (use assms in auto)
  then show ?thesis by (simp add: wp_eq_ok)
qed

lemma print_cells_list_at:
  assumes "list_at f h p xs" "\<And>n. g n = t (f n)"
  shows "print_cells g h p = ok (concat (map t xs))"
proof -
  from assms(1) obtain as where "lseg (cells h) p as 0" "xs = along f (cells h) as"
    by (auto simp: list_at_def chain_def)
  moreover from this have "along g (cells h) as = map t xs"
    using assms(2) by (simp add: along_def)
  ultimately show ?thesis by (simp add: print_cells_chain)
qed

section \<open>Searching\<close>

text \<open>\<open>while (cur) { if (...) return cur; cur = cur->next; }\<close>, falling through with \<open>NULL\<close>.\<close>

definition find_cell :: "('n link_scheme \<Rightarrow> bool) \<Rightarrow> 'n link_scheme heap \<Rightarrow> ptr \<Rightarrow> ptr run" where
  "find_cell P h p =
     loop (\<lambda>cur. if cur = null then ok (Inr null)
       else bnd (ld h cur) (\<lambda>n. if P n then ok (Inr cur)
         else bnd (get_next h cur) (\<lambda>q. ok (Inl q)))) p"

lemma find_cell_chain:
  assumes "lseg (cells h) p as 0"
  shows "find_cell P h p = ok (case find (\<lambda>a. P (the (cells h a))) as of None \<Rightarrow> 0 | Some a \<Rightarrow> a)"
proof -
  have "wp (find_cell P h p)
     (\<lambda>a. a = (case find (\<lambda>a. P (the (cells h a))) as of None \<Rightarrow> 0 | Some a \<Rightarrow> a))"
    unfolding find_cell_def
    by (rule wp_loop_list [where xs = as and I = "\<lambda>bs cur. lseg (cells h) cur bs 0 \<and>
            find (\<lambda>a. P (the (cells h a))) as = find (\<lambda>a. P (the (cells h a))) bs"])
      (use assms in \<open>auto split: if_splits\<close>)
  then show ?thesis by (simp add: wp_eq_ok)
qed

lemma find_SomeE:
  assumes "find P as = Some a"
  obtains bs cs where "as = bs @ a # cs" "P a" "\<forall>b \<in> set bs. \<not> P b"
proof -
  have "\<exists>bs cs. as = bs @ a # cs \<and> P a \<and> (\<forall>b \<in> set bs. \<not> P b)"
    using assms
  proof (induction as)
    case (Cons x xs)
    show ?case
    proof (cases "P x")
      case True
      with Cons.prems show ?thesis by (intro exI [of _ "[]"] exI [of _ xs]) simp
    next
      case False
      with Cons obtain bs cs where "xs = bs @ a # cs" "P a" "\<forall>b \<in> set bs. \<not> P b" by auto
      with False show ?thesis by (intro exI [of _ "x # bs"] exI [of _ cs]) simp
    qed
  qed simp
  then show thesis using that by blast
qed

text \<open>The cell found is the first one that holds a value with the property.\<close>

lemma find_along_Some:
  assumes "find (\<lambda>a. P (f (the (m a)))) as = Some a"
  obtains bs cs where "as = bs @ a # cs" "P (f (the (m a)))" "\<forall>x \<in> set (along f m bs). \<not> P x"
  using assms by (elim find_SomeE) (auto simp: along_def)

lemma find_along_None:
  "find (\<lambda>a. P (f (the (m a)))) as = None \<longleftrightarrow> (\<forall>x \<in> set (along f m as). \<not> P x)"
  by (auto simp: find_None_iff along_def)

section \<open>Walking to the end\<close>

text \<open>\<open>while (cur) { if (cur->next == NULL) { cur->next = q; return; } cur = cur->next; }\<close>\<close>

definition link_last :: "'n link_scheme heap \<Rightarrow> ptr \<Rightarrow> ptr \<Rightarrow> 'n link_scheme heap run" where
  "link_last h p q =
     loop (\<lambda>cur. if cur = null then ok (Inr h)
       else bnd (get_next h cur) (\<lambda>r. if r = null then bnd (set_next h cur q) (\<lambda>h. ok (Inr h))
         else ok (Inl r))) p"

definition linked_last :: "'n link_scheme heap \<Rightarrow> ptr list \<Rightarrow> ptr \<Rightarrow> 'n link_scheme heap" where
  "linked_last h as q = put h (last as) ((the (cells h (last as)))\<lparr>nxt := Some q\<rparr>)"

lemma lseg_last: "lseg m p as 0 \<Longrightarrow> as \<noteq> [] \<Longrightarrow> 0 < last as \<and> (\<exists>n. m (last as) = Some n \<and> nxt n = Some 0)"
  by (induction as arbitrary: p) auto

lemma link_last_chain:
  assumes "lseg (cells h) p as 0" "as \<noteq> []"
  shows "link_last h p q = ok (linked_last h as q)"
proof -
  have "wp (link_last h p q) (\<lambda>h'. h' = linked_last h as q)"
    unfolding link_last_def
  proof (rule wp_loop_list [where xs = as and
      I = "\<lambda>bs cur. lseg (cells h) cur bs 0 \<and> bs \<noteq> [] \<and> last bs = last as"])
    fix b bs cur assume I: "lseg (cells h) cur (b # bs) 0 \<and> b # bs \<noteq> [] \<and> last (b # bs) = last as"
    show "wp (if cur = null then ok (Inr h)
       else bnd (get_next h cur) (\<lambda>r. if r = null then bnd (set_next h cur q) (\<lambda>h. ok (Inr h)) else ok (Inl r)))
     (\<lambda>r. case r of Inl cur \<Rightarrow> lseg (cells h) cur bs 0 \<and> bs \<noteq> [] \<and> last bs = last as
        | Inr h' \<Rightarrow> h' = linked_last h as q)"
      using I lseg_start_null by (cases bs) (auto simp: linked_last_def)
  qed (use assms in auto)
  then show ?thesis by (simp add: wp_eq_ok)
qed

lemma cells_linked_last:
  "cells (linked_last h as q) = (cells h)(last as \<mapsto> (the (cells h (last as)))\<lparr>nxt := Some q\<rparr>)"
  by (simp add: linked_last_def)

lemma lseg_relink:
  assumes "lseg m p as 0" "as \<noteq> []" "lseg m q bs r" "set as \<inter> set bs = {}"
  shows "lseg (m(last as \<mapsto> (the (m (last as)))\<lparr>nxt := Some q\<rparr>)) p (as @ bs) r"
proof -
  obtain cs a where as: "as = cs @ [a]" using assms(2) by (cases as rule: rev_cases) auto
  with assms lseg_distinct [OF assms(1)] show ?thesis
    by (auto intro!: exI [of _ a] exI [of _ q])
qed

lemma chain_snoc:
  assumes "chain h p as" "as \<noteq> []" "nxt n = Some 0" "alloc h n = (h', q)"
  shows "chain (linked_last h' as q) p (as @ [q])"
    and "(\<And>n v. f (n\<lparr>nxt := v\<rparr>) = f n) \<Longrightarrow>
      along f (cells (linked_last h' as q)) (as @ [q]) = along f (cells h) as @ [f n]"
    and "lseg (cells h') p as 0" "0 < q"
proof -
  have ok: "heap_ok h" and l: "lseg (cells h) p as 0" using assms(1) by (auto simp: chain_def)
  have h': "cells h' = (cells h)(q \<mapsto> n)" "q = brk h" "heap_ok h'" "brk h' = Suc (brk h)"
    using assms(4) ok by (auto simp: alloc_def put_def)
  have q: "q \<notin> set as" "0 < q" using ok l h'(2) by auto
  have l': "lseg (cells h') p as 0" using l q by (simp add: h')
  then show "lseg (cells h') p as 0" "0 < q" using q by auto
  obtain a where a: "cells h (last as) = Some a" "0 < last as" using lseg_last [OF l assms(2)] by auto
  have last: "last as \<noteq> q" using q(1) assms(2) last_in_set by metis
  have "lseg (cells h') q [q] 0" using q assms(3) h' by simp
  from lseg_relink [OF l' assms(2) this] q(1)
  have "lseg (cells (linked_last h' as q)) p (as @ [q]) 0" by (simp add: linked_last_def)
  moreover have "heap_ok (linked_last h' as q)"
    using h' a last by (simp add: linked_last_def heap_ok_put_dom)
  ultimately show "chain (linked_last h' as q) p (as @ [q])" by (simp add: chain_def)
  show "along f (cells (linked_last h' as q)) (as @ [q]) = along f (cells h) as @ [f n]"
    if f: "\<And>n v. f (n\<lparr>nxt := v\<rparr>) = f n"
    using q(1) last a(1) h' f by (auto simp: linked_last_def along_def)
qed

text \<open>Appending a new cell to a list that is not empty.\<close>

lemma list_at_link_last:
  assumes "list_at f h p xs" "xs \<noteq> []" "nxt n = Some 0" "alloc h n = (h', q)"
    and f: "\<And>n v. f (n\<lparr>nxt := v\<rparr>) = f n"
  shows "wp (link_last h' p q) (\<lambda>h'. list_at f h' p (xs @ [f n]))"
proof -
  from assms(1,2) obtain as where as: "chain h p as" "along f (cells h) as = xs" "as \<noteq> []"
    by (auto simp: list_at_def)
  note c = chain_snoc [OF as(1,3) assms(3,4)]
  have "list_at f (linked_last h' as q) p (xs @ [f n])"
    unfolding list_at_def using c(1) c(2) [OF f] as(2) by blast
  then show ?thesis by (simp add: link_last_chain [OF c(3) as(3)])
qed

section \<open>Deleting every cell\<close>

text \<open>\<open>while (top) { tmp = top; top = top->next; delete tmp; }\<close>\<close>

definition free_list :: "'n link_scheme heap \<Rightarrow> ptr \<Rightarrow> ('n link_scheme heap \<times> ptr) run" where
  "free_list h p =
     while_run (\<lambda>(h, top). ok (top \<noteq> null))
       (\<lambda>(h, top). bnd (get_next h top) (\<lambda>q. bnd (dispose h top) (\<lambda>h. ok (h, q)))) (h, p)"

lemma free_list_chain:
  assumes "chain h p as"
  shows "wp (free_list h p) (\<lambda>(h', q). q = 0 \<and> heap_ok h' \<and> brk h' = brk h \<and>
     cells h' = (cells h) |` (- set as))"
  unfolding free_list_def
proof (rule wp_while_list [where xs = as and I = "\<lambda>bs (h', q). chain h' q bs \<and> brk h' = brk h \<and>
    set bs \<subseteq> set as \<and> cells h' = (cells h) |` (- (set as - set bs))"])
  show "case (h, p) of (h', q) \<Rightarrow> chain h' q as \<and> brk h' = brk h \<and> set as \<subseteq> set as \<and>
      cells h' = (cells h) |` (- (set as - set as))"
    using assms by (auto simp: restrict_map_def)
next
  fix b bs s assume I: "case s of (h', q) \<Rightarrow> chain h' q (b # bs) \<and> brk h' = brk h \<and>
      set (b # bs) \<subseteq> set as \<and> cells h' = (cells h) |` (- (set as - set (b # bs)))"
  obtain h' q where s: "s = (h', q)" by force
  have c: "chain h' q (b # bs)" using I by (simp add: s)
  have b: "b \<notin> set bs" using chain_distinct [OF c] by simp
  obtain n r where n: "0 < b" "cells h' b = Some n" "nxt n = Some r" "q = b" "lseg (cells h') r bs 0"
    using c by (auto simp: chain_def)
  have "chain (h'\<lparr>cells := (cells h')(b := None)\<rparr>) r bs"
    using c n b by (auto simp: chain_def)
  moreover have "(cells h')(b := None) = (cells h) |` (- (set as - set bs))" and "set bs \<subseteq> set as"
    using I b by (auto simp: s restrict_map_def fun_eq_iff)
  moreover have "brk h' = brk h" using I by (simp add: s)
  ultimately show "wp ((\<lambda>(h, top). ok (top \<noteq> null)) s)
     (\<lambda>t. if t then wp ((\<lambda>(h, top).
          bnd (get_next h top) (\<lambda>q. bnd (dispose h top) (\<lambda>h. ok (h, q)))) s)
        (\<lambda>(h', q). chain h' q bs \<and> brk h' = brk h \<and> set bs \<subseteq> set as \<and>
           cells h' = (cells h) |` (- (set as - set bs)))
      else case s of (h', q) \<Rightarrow> q = 0 \<and> heap_ok h' \<and> brk h' = brk h \<and> cells h' = (cells h) |` (- set as))"
    using n by (simp add: s)
qed (auto simp: chain_def)

section \<open>Changing links only\<close>

text \<open>\<open>relinked as h h'\<close>: \<open>h'\<close> differs from \<open>h\<close> only in the links of the cells \<open>as\<close>.\<close>

definition relinked :: "ptr list \<Rightarrow> 'n link_scheme heap \<Rightarrow> 'n link_scheme heap \<Rightarrow> bool" where
  "relinked as h h' \<longleftrightarrow> brk h' = brk h \<and> (\<forall>a. a \<notin> set as \<longrightarrow> cells h' a = cells h a) \<and>
     (\<forall>a \<in> set as. \<exists>n r. cells h a = Some n \<and> cells h' a = Some (n\<lparr>nxt := r\<rparr>))"

lemma relinked_refl: "set as \<subseteq> dom (cells h) \<Longrightarrow> relinked as h h"
proof -
  have id: "n\<lparr>nxt := nxt n\<rparr> = n" for n :: "'n link_scheme" by (cases n) simp
  assume "set as \<subseteq> dom (cells h)"
  then have "\<forall>a \<in> set as. \<exists>n. cells h a = Some n" by auto
  then show ?thesis unfolding relinked_def by (metis id)
qed

lemma relinked_put:
  assumes "relinked as h h'" "a \<in> set as" "cells h' a = Some n"
  shows "relinked as h (put h' a (n\<lparr>nxt := r\<rparr>))"
proof -
  from assms obtain k s where "cells h a = Some k" "n = k\<lparr>nxt := s\<rparr>" by (force simp: relinked_def)
  then have "cells h a = Some k \<and> (cells h')(a \<mapsto> n\<lparr>nxt := r\<rparr>) = (cells h')(a \<mapsto> k\<lparr>nxt := r\<rparr>)" by simp
  with assms(1,2) show ?thesis by (auto simp: relinked_def)
qed

lemma relinked_heap_ok: "relinked as h h' \<Longrightarrow> heap_ok h \<Longrightarrow> heap_ok h'"
  unfolding relinked_def heap_ok_def
  by (metis domD domI option.distinct(1))

lemma relinked_along:
  assumes "relinked as h h'" "\<And>n v. f (n\<lparr>nxt := v\<rparr>) = f n"
  shows "along f (cells h') bs = along f (cells h) bs"
  unfolding along_def
proof (rule map_cong)
  fix a assume "a \<in> set bs"
  show "f (the (cells h' a)) = f (the (cells h a))"
    using assms by (cases "a \<in> set as") (force simp: relinked_def)+
qed simp

lemma relinked_chain: "relinked as h h' \<Longrightarrow> chain h p bs \<Longrightarrow> set as \<inter> set bs = {} \<Longrightarrow> chain h' p bs"
  by (auto simp: chain_def relinked_heap_ok)
    (subst lseg_cong [of bs _ "cells h"], auto simp: relinked_def)

section \<open>Reversal in place\<close>

text \<open>
  The contract of the in-place reversals: \<open>rv h p\<close> turns round the links of the list from
  \<open>p\<close> and returns its new first cell; \<open>dom\<close> says which lists it accepts.
\<close>

locale reversal =
  fixes rv :: "'n link_scheme heap \<Rightarrow> ptr \<Rightarrow> ('n link_scheme heap \<times> ptr) run"
    and dom :: "ptr list \<Rightarrow> bool"
  assumes rv_chain: "chain h p as \<Longrightarrow> dom as \<Longrightarrow>
      wp (rv h p) (\<lambda>(h', q). chain h' q (rev as) \<and> relinked as h h')"
    and dom_rev: "dom as \<Longrightarrow> dom (rev as)"
begin

lemma rv_list_at:
  assumes "list_at f h p xs" "\<And>as. length as = length xs \<Longrightarrow> dom as"
    and f: "\<And>n v. f (n\<lparr>nxt := v\<rparr>) = f n"
  shows "wp (rv h p) (\<lambda>(h', q). list_at f h' q (rev xs))"
proof -
  from assms(1) obtain as where as: "chain h p as" "along f (cells h) as = xs"
    by (auto simp: list_at_def)
  moreover from as(2) have "dom as" using assms(2) by auto
  ultimately show ?thesis
    using relinked_along [OF _ f]
    by (auto simp: list_at_def intro!: exI [of _ "rev as"] elim!: wp_conseq [OF rv_chain])
qed

text \<open>Reversing twice restores the list.\<close>

lemma rv_rv:
  assumes "list_at f h p xs" "\<And>as. length as = length xs \<Longrightarrow> dom as"
    and f: "\<And>n v. f (n\<lparr>nxt := v\<rparr>) = f n"
  shows "wp (bnd (rv h p) (\<lambda>(h, p). rv h p)) (\<lambda>(h', q). list_at f h' q xs)"
  unfolding wp_bnd
proof (rule wp_conseq [OF rv_list_at [OF assms]])
  fix s assume "case s of (h', q) \<Rightarrow> list_at f h' q (rev xs)"
  then obtain h' q where "s = (h', q)" "list_at f h' q (rev xs)" by auto
  with rv_list_at [of f h' q "rev xs"] assms(2) f
  show "wp (case s of (h, p) \<Rightarrow> rv h p) (\<lambda>(h', q). list_at f h' q xs)" by simp
qed

end

text \<open>The loop the reversals share; \<open>me\<close> is linked to \<open>parent\<close> one round late.\<close>

definition reverse_loop :: "'n link_scheme heap \<Rightarrow> ptr \<Rightarrow> ptr \<Rightarrow> ptr \<Rightarrow>
    ('n link_scheme heap \<times> ptr \<times> ptr \<times> ptr) run" where
  "reverse_loop h parent me child =
     while_run (\<lambda>(h, parent, me, child). ok (child \<noteq> null))
       (\<lambda>(h, parent, me, child).
          bnd (set_next h me parent) (\<lambda>h.
          bnd (get_next h child) (\<lambda>q. ok (h, me, child, q)))) (h, parent, me, child)"

text \<open>
  Its invariant: of the cells \<open>as\<close> the prefix \<open>ds\<close> is reversed, \<open>me\<close> is the next
  one and \<open>rest\<close> is still in order.
\<close>

definition turning :: "'n link_scheme heap \<Rightarrow> ptr list \<Rightarrow> ptr list \<Rightarrow>
    'n link_scheme heap \<times> ptr \<times> ptr \<times> ptr \<Rightarrow> bool" where
  "turning h as rest = (\<lambda>(h', parent, me, child). \<exists>ds. as = ds @ me # rest \<and> distinct as \<and>
     relinked as h h' \<and> lseg (cells h') parent (rev ds) 0 \<and> 0 < me \<and> lseg (cells h') child rest 0)"

lemma turning_step:
  assumes "turning h as (c # rest) (h', parent, me, child)"
  shows "wp (bnd (set_next h' me parent) (\<lambda>h. bnd (get_next h child) (\<lambda>q. ok (h, me, child, q))))
     (turning h as rest)" and "child \<noteq> 0"
proof -
  from assms obtain ds where as: "as = ds @ me # c # rest" "distinct as" "relinked as h h'"
      "lseg (cells h') parent (rev ds) 0" "0 < me" "lseg (cells h') child (c # rest) 0"
    by (auto simp: turning_def)
  from as(6) obtain n q where c: "child = c" "0 < c" "cells h' c = Some n" "nxt n = Some q"
      "lseg (cells h') q rest 0"
    by auto
  obtain m where m: "cells h' me = Some m" using as(1,3) by (auto simp: relinked_def)
  let ?h = "put h' me (m\<lparr>nxt := Some parent\<rparr>)"
  have "relinked as h ?h" by (rule relinked_put) (use as m in auto)
  moreover have "lseg (cells ?h) me (rev (ds @ [me])) 0" using as m by auto
  moreover have "lseg (cells ?h) q rest 0" using c as by auto
  ultimately have "turning h as rest (?h, me, c, q)"
    using as c by (auto simp: turning_def intro!: exI [of _ "ds @ [me]"])
  then show "wp (bnd (set_next h' me parent) (\<lambda>h. bnd (get_next h child) (\<lambda>q. ok (h, me, child, q))))
     (turning h as rest)"
    using m as c by auto
  show "child \<noteq> 0" using c by simp
qed

lemma reverse_loop_turning:
  assumes "turning h as rest (h', parent, me, child)"
  shows "wp (reverse_loop h' parent me child) (turning h as [])"
  unfolding reverse_loop_def
proof (rule wp_while_list [where xs = rest and I = "turning h as"])
  fix c rest s assume t: "turning h as (c # rest) s"
  obtain h' parent me child where s: "s = (h', parent, me, child)" by (cases s) auto
  show "wp (case s of (h, parent, me, child) \<Rightarrow> ok (child \<noteq> null)) (\<lambda>t. if t then
      wp (case s of (h, parent, me, child) \<Rightarrow> bnd (set_next h me parent) (\<lambda>h.
          bnd (get_next h child) (\<lambda>q. ok (h, me, child, q)))) (turning h as rest)
      else turning h as [] s)"
    using turning_step [OF t [unfolded s]] by (simp add: s)
qed (use assms in \<open>auto simp: turning_def\<close>)

lemma turning_start:
  assumes "chain h p (p # me # rest)" "cells h p = Some n"
  shows "\<exists>m child. cells h me = Some m \<and> nxt n = Some me \<and> nxt m = Some child \<and>
     cells h me \<noteq> None \<and> p \<noteq> me \<and> 0 < me \<and>
     turning h (p # me # rest) rest (put h p (n\<lparr>nxt := Some 0\<rparr>), p, me, child)"
proof -
  have d: "distinct (p # me # rest)" by (rule chain_distinct [OF assms(1)])
  from assms obtain m child where m: "nxt n = Some me" "0 < p" "0 < me" "cells h me = Some m"
      "nxt m = Some child" "lseg (cells h) child rest 0"
    by (auto simp: chain_def)
  have "set (p # me # rest) \<subseteq> dom (cells h)"
    using assms(1) unfolding chain_def by (auto dest!: lseg_in_domD)
  from relinked_put [OF relinked_refl [OF this], of p n] assms(2)
  have "relinked (p # me # rest) h (put h p (n\<lparr>nxt := Some 0\<rparr>))" by simp
  with d m show ?thesis by (auto simp: turning_def intro!: exI [of _ "[p]"])
qed

text \<open>The last assignment \<open>me->next = parent\<close>.\<close>

lemma turning_end:
  assumes "turning h as [] (h', parent, me, child)" "heap_ok h"
  shows "wp (set_next h' me parent) (\<lambda>h''. chain h'' me (rev as) \<and> relinked as h h'')"
proof -
  from assms(1) obtain ds where as: "as = ds @ [me]" "distinct as" "relinked as h h'"
      "lseg (cells h') parent (rev ds) 0" "0 < me"
    by (auto simp: turning_def)
  then obtain m where m: "cells h' me = Some m" by (auto simp: relinked_def)
  have r: "relinked as h (put h' me (m\<lparr>nxt := Some parent\<rparr>))"
    by (rule relinked_put) (use as m in auto)
  with relinked_heap_ok [OF r assms(2)] as m show ?thesis by (auto simp: chain_def)
qed

section \<open>Unlinking a cell\<close>

lemma chain_splitE:
  assumes "chain h p (bs @ b # a # cs)"
  obtains n k r where "cells h b = Some n" "0 < b" "nxt n = Some a" "cells h a = Some k" "0 < a"
    "nxt k = Some r" "a \<noteq> b"
  using assms chain_distinct [OF assms] by (auto simp: chain_def)

lemma chain_unlink:
  assumes "chain h p (bs @ b # a # cs)" "cells h b = Some n" "cells h a = Some k" "nxt k = Some r"
  shows "chain (put h b (n\<lparr>nxt := Some r\<rparr>)) p (bs @ b # cs)"
    and "chain (del (put h b (n\<lparr>nxt := Some r\<rparr>)) a) p (bs @ b # cs)"
    and "(\<And>n v. f (n\<lparr>nxt := v\<rparr>) = f n) \<Longrightarrow>
      along f (cells (put h b (n\<lparr>nxt := Some r\<rparr>))) (bs @ b # cs) = along f (cells h) (bs @ b # cs)"
    and "(\<And>n v. f (n\<lparr>nxt := v\<rparr>) = f n) \<Longrightarrow>
      along f (cells (del (put h b (n\<lparr>nxt := Some r\<rparr>)) a)) (bs @ b # cs) = along f (cells h) (bs @ b # cs)"
proof -
  have d: "distinct (bs @ b # a # cs)" by (rule chain_distinct [OF assms(1)])
  show c: "chain (put h b (n\<lparr>nxt := Some r\<rparr>)) p (bs @ b # cs)"
    using assms d by (auto simp: chain_def)
  with d show "chain (del (put h b (n\<lparr>nxt := Some r\<rparr>)) a) p (bs @ b # cs)"
    by (intro del_frame) auto
  assume f: "\<And>n v. f (n\<lparr>nxt := v\<rparr>) = f n"
  show a: "along f (cells (put h b (n\<lparr>nxt := Some r\<rparr>))) (bs @ b # cs) = along f (cells h) (bs @ b # cs)"
    using assms(2) f d by simp
  then show "along f (cells (del (put h b (n\<lparr>nxt := Some r\<rparr>)) a)) (bs @ b # cs) = along f (cells h) (bs @ b # cs)"
    using d by simp
qed

text \<open>Linking a cell in after \<open>b\<close>.\<close>

lemma chain_insert:
  assumes "chain h p (bs @ b # cs)" "cells h b = Some n" "nxt n = Some r"
    and "cells h q = Some k" "nxt k = Some r" "q \<notin> set (bs @ b # cs)"
  shows "chain (put h b (n\<lparr>nxt := Some q\<rparr>)) p (bs @ b # q # cs)"
    and "(\<And>n v. f (n\<lparr>nxt := v\<rparr>) = f n) \<Longrightarrow>
      along f (cells (put h b (n\<lparr>nxt := Some q\<rparr>))) (bs @ b # q # cs) =
      along f (cells h) (bs @ [b]) @ f k # along f (cells h) cs"
proof -
  have d: "distinct (bs @ b # cs)" by (rule chain_distinct [OF assms(1)])
  have q: "0 < q" using assms(1) heap_okD [OF _ assms(4)] by (auto simp: chain_def)
  show "chain (put h b (n\<lparr>nxt := Some q\<rparr>)) p (bs @ b # q # cs)"
    using assms d q by (auto simp: chain_def)
  show "along f (cells (put h b (n\<lparr>nxt := Some q\<rparr>))) (bs @ b # q # cs) =
      along f (cells h) (bs @ [b]) @ f k # along f (cells h) cs"
    if "\<And>n v. f (n\<lparr>nxt := v\<rparr>) = f n"
    using assms d that by (auto simp: along_def)
qed

end
