(* ===== verification/List_Stack.thy ===== *)
theory List_Stack
  imports Cxx_List
begin

text \<open>
  The stacks of \<open>DataStructure/linked_list\<close>: \<open>example6.cxx\<close> (C style, \<open>void *\<close>
  elements), \<open>example7.cxx\<close>, \<open>example7B.cxx\<close> (classes), \<open>example7C.cxx\<close> (every cell
  carries the minimum below it) and \<open>example7D.cxx\<close> (a derived class with a second stack of
  minima).  A stack object is the heap together with the value of its \<open>top\<close> pointer.  The
  locale \<open>stack_adt\<close> is the contract they share.
\<close>

section \<open>The contract of a stack\<close>

locale stack_adt =
  fixes create :: "'s" and push :: "'a \<Rightarrow> 's \<Rightarrow> 's run" and pop :: "'s \<Rightarrow> ('a \<times> 's) run"
    and rep :: "'s \<Rightarrow> 'a list \<Rightarrow> bool"
  assumes create_rep: "rep create []"
    and push_rep: "rep s xs \<Longrightarrow> wp (push x s) (\<lambda>s'. rep s' (x # xs))"
    and pop_rep: "rep s (x # xs) \<Longrightarrow> wp (pop s) (\<lambda>(y, s'). y = x \<and> rep s' xs)"
begin

lemma push_all_rep: "rep s xs \<Longrightarrow> wp (for_each push ys s) (\<lambda>s'. rep s' (rev ys @ xs))"
  by (rule wp_for_each [where I = "\<lambda>zs s'. rep s' (rev zs @ xs)"]) (auto intro: push_rep)

lemma pop_n_rep: "rep s (ys @ xs) \<Longrightarrow> wp (collect pop (length ys) s) (\<lambda>(zs, s'). zs = ys \<and> rep s' xs)"
proof (induction ys arbitrary: s)
  case (Cons y ys)
  then show ?case
    by (auto elim!: wp_conseq [OF pop_rep] wp_conseq [OF Cons.IH])
qed simp

text \<open>Last in, first out.\<close>

lemma lifo:
  "rep s xs \<Longrightarrow> wp (bnd (for_each push ys s) (collect pop (length ys))) (\<lambda>(zs, s'). zs = rev ys \<and> rep s' xs)"
  using pop_n_rep [of _ "rev ys" xs] by (auto elim!: wp_conseq [OF push_all_rep])

end

section \<open>example6.cxx\<close>

record 'a element = link + data :: 'a

type_synonym 'a stack = "'a element heap \<times> ptr"

definition createStack :: "'a element heap \<Rightarrow> ('a stack \<times> bool) run" where
  "createStack h = ok ((h, null), True)"

definition push6 :: "'a stack \<Rightarrow> 'a \<Rightarrow> ('a stack \<times> bool) run" where
  "push6 = (\<lambda>(h, top) d.
     let (h, elem) = alloc h \<lparr>nxt = Some top, data = d\<rparr> in ok ((h, elem), True))"

definition pop6 :: "'a stack \<Rightarrow> 'a option \<Rightarrow> ('a stack \<times> 'a option \<times> bool) run" where
  "pop6 = (\<lambda>(h, top) out. if top = null then ok ((h, top), out, False)
     else bnd (ld h top) (\<lambda>elem. bnd (get_next h top) (\<lambda>q.
       bnd (dispose h top) (\<lambda>h. ok ((h, q), Some (data elem), True)))))"

definition deleteStack :: "'a stack \<Rightarrow> ('a stack \<times> bool) run" where
  "deleteStack = (\<lambda>(h, top). bnd (free_list h top) (\<lambda>s. ok (s, True)))"

text \<open>The elements are \<open>void *\<close> pointers to the \<open>int\<close> variables \<open>mem\<close> maps.\<close>

definition printStack :: "(ptr \<Rightarrow> int) \<Rightarrow> ptr stack \<Rightarrow> string run" where
  "printStack mem = (\<lambda>(h, top).
     bnd (print_cells (\<lambda>n. dec (mem (data n)) @ '' '') h top)
       (\<lambda>t. ok ((if top = null then ''Empty!'' @ nl else []) @ t @ nl @ nl)))"

definition example6_main :: "string run" where
  "example6_main =
     (let mem = (\<lambda>p. int (p * 10)) in
     bnd (createStack empty_heap) (\<lambda>(s, b).
     bnd (push6 s 1) (\<lambda>(s, b). bnd (push6 s 2) (\<lambda>(s, b). bnd (push6 s 3) (\<lambda>(s, b).
     bnd (push6 s 4) (\<lambda>(s, b). bnd (push6 s 5) (\<lambda>(s, b).
     bnd (printStack mem s) (\<lambda>t1.
     bnd (pop6 s None) (\<lambda>(s, n, b). bnd (init_ptr n) (\<lambda>n1.
     bnd (pop6 s n) (\<lambda>(s, n, b). bnd (init_ptr n) (\<lambda>n2.
     bnd (printStack mem s) (\<lambda>t2.
     bnd (deleteStack s) (\<lambda>(s, b).
     bnd (printStack mem s) (\<lambda>t3.
     ok (t1 @ ''popped '' @ dec (mem n1) @ nl @ ''popped '' @ dec (mem n2) @ nl @ nl @ t2 @
         ''deleting stack...'' @ nl @ t3))))))))))))))))"

definition stack_rep :: "'a stack \<Rightarrow> 'a list \<Rightarrow> bool" where
  "stack_rep = (\<lambda>(h, top). list_at data h top)"

lemma data_nxt [simp]: "data (n\<lparr>nxt := v\<rparr>) = data n"
  by simp

lemma alloc_push:
  "alloc h \<lparr>nxt = Some p, data = x\<rparr> = (h', q) \<Longrightarrow> list_at data h p xs \<Longrightarrow> list_at data h' q (x # xs)"
  by (auto intro: list_at_push)

text \<open>A heap that holds a given list and nothing else, for concrete instances.\<close>

primrec heap_of :: "'a list \<Rightarrow> 'a element heap \<times> ptr" where
  "heap_of [] = (empty_heap, null)"
| "heap_of (x # xs) = (let (h, p) = heap_of xs in alloc h \<lparr>nxt = Some p, data = x\<rparr>)"

lemma heap_of_list: "list_at data (fst (heap_of xs)) (snd (heap_of xs)) xs"
proof (induction xs)
  case (Cons x xs)
  obtain h p where "heap_of xs = (h, p)" by force
  with Cons alloc_push [of h p x] show ?case by (cases "alloc h \<lparr>nxt = Some p, data = x\<rparr>") simp
qed simp

declare heap_of.simps [simp del]

lemma push6_rep: "stack_rep s xs \<Longrightarrow> wp (push6 s x) (\<lambda>(s', b). b \<and> stack_rep s' (x # xs))"
  by (cases s) (auto simp: push6_def stack_rep_def split: prod.splits intro: list_at_push)

lemma pop6_rep:
  "stack_rep s (x # xs) \<Longrightarrow> wp (pop6 s d) (\<lambda>(s', d', b). b \<and> d' = Some x \<and> stack_rep s' xs)"
  by (cases s) (auto simp: pop6_def stack_rep_def elim!: list_at_ConsE)

lemma pop6_empty: "stack_rep s [] \<Longrightarrow> pop6 s d = ok (s, d, False)"
  by (cases s) (auto simp: pop6_def stack_rep_def dest: list_at_empty_iff)

lemma deleteStack_rep: "stack_rep s xs \<Longrightarrow> wp (deleteStack s) (\<lambda>(s', b). b \<and> stack_rep s' [])"
  by (cases s) (auto simp: deleteStack_def stack_rep_def list_at_def elim!: wp_conseq [OF free_list_chain])

lemma stack_rep_init [simp]: "stack_rep (empty_heap, null) []"
  by (simp add: stack_rep_def)

interpretation stack6: stack_adt "(empty_heap, null)" "\<lambda>x s. bnd (push6 s x) (\<lambda>(s, b). ok s)"
  "\<lambda>s. bnd (pop6 s None) (\<lambda>(s, d, b). case d of None \<Rightarrow> fail Uninitialised | Some x \<Rightarrow> ok (x, s))"
  stack_rep
  by unfold_locales (auto elim!: wp_conseq [OF push6_rep] wp_conseq [OF pop6_rep])

section \<open>example7.cxx and example7B.cxx\<close>

definition Stack7_create :: "'a element heap \<Rightarrow> 'a stack" where
  "Stack7_create h = (h, null)"

definition Stack7_destroy :: "'a stack \<Rightarrow> 'a stack run" where
  "Stack7_destroy = (\<lambda>(h, top). free_list h top)"

definition push7 :: "int \<Rightarrow> int stack \<Rightarrow> int stack run" where
  "push7 n = (\<lambda>(h, top). ok (alloc h \<lparr>nxt = Some top, data = n\<rparr>))"

definition pop7 :: "int stack \<Rightarrow> (int \<times> int stack) run" where
  "pop7 = (\<lambda>(h, top).
     bnd (ld h top) (\<lambda>n. bnd (get_next h top) (\<lambda>q.
     bnd (dispose h top) (\<lambda>h. ok (data n, (h, q))))))"

definition peek7 :: "int stack \<Rightarrow> int run" where
  "peek7 = (\<lambda>(h, top). bnd (ld h top) (\<lambda>n. ok (data n)))"

definition print7 :: "int stack \<Rightarrow> string run" where
  "print7 = (\<lambda>(h, cur). bnd (print_cells (\<lambda>n. dec (data n) @ '' '') h cur) (\<lambda>t. ok (t @ nl)))"

definition example7_main :: "string run" where
  "example7_main =
     bnd (push7 10 (Stack7_create empty_heap)) (\<lambda>st.
     bnd (push7 20 st) (\<lambda>st. bnd (push7 30 st) (\<lambda>st.
     bnd (push7 40 st) (\<lambda>st. bnd (push7 50 st) (\<lambda>st.
     bnd (print7 st) (\<lambda>t1.
     bnd (pop7 st) (\<lambda>(v, st). bnd (pop7 st) (\<lambda>(v, st).
     bnd (print7 st) (\<lambda>t2.
     bnd (peek7 st) (\<lambda>v.
     ok (t1 @ t2 @ ''current top: '' @ dec v @ nl @ nl)))))))))))"

definition push7B :: "'a \<Rightarrow> 'a stack \<Rightarrow> 'a stack run" where
  "push7B d = (\<lambda>(h, top). ok (alloc h \<lparr>nxt = Some top, data = d\<rparr>))"

text \<open>On an empty stack \<open>pop\<close> returns a variable that was never assigned.\<close>

definition pop7B :: "'a stack \<Rightarrow> ('a \<times> 'a stack) run" where
  "pop7B = (\<lambda>(h, top). if top = null then fail Uninitialised
     else bnd (ld h top) (\<lambda>elm. bnd (get_next h top) (\<lambda>q.
       bnd (dispose h top) (\<lambda>h. ok (data elm, (h, q))))))"

definition print7B :: "(ptr \<Rightarrow> int) \<Rightarrow> ptr stack \<Rightarrow> string run" where
  "print7B mem = (\<lambda>(h, elm).
     bnd (print_cells (\<lambda>n. dec (mem (data n)) @ '' '') h elm) (\<lambda>t. ok (nl @ t @ nl)))"

definition example7B_main :: "string run" where
  "example7B_main =
     (let mem = (\<lambda>p. int (p * 10)) in
     bnd (push7B 1 (Stack7_create empty_heap)) (\<lambda>st.
     bnd (push7B 2 st) (\<lambda>st. bnd (push7B 3 st) (\<lambda>st.
     bnd (push7B 4 st) (\<lambda>st. bnd (push7B 5 st) (\<lambda>st.
     bnd (print7B mem st) (\<lambda>t1.
     bnd (pop7B st) (\<lambda>(p, st). bnd (pop7B st) (\<lambda>(q, st).
     bnd (print7B mem st) (\<lambda>t2.
     ok (t1 @ dec (mem p) @ '' poped'' @ nl @ dec (mem q) @ '' poped'' @ nl @ t2 @ nl)))))))))))"

lemma pop7_rep: "stack_rep s (x # xs) \<Longrightarrow> wp (pop7 s) (\<lambda>(y, s'). y = x \<and> stack_rep s' xs)"
  by (cases s) (auto simp: pop7_def stack_rep_def elim!: list_at_ConsE)

lemma peek7_rep: "stack_rep s (x # xs) \<Longrightarrow> peek7 s = ok x"
  by (cases s) (auto simp: peek7_def stack_rep_def ld_ok elim!: list_at_ConsE)

lemma pop7_empty: "stack_rep s [] \<Longrightarrow> pop7 s = fail Null_Deref"
  by (cases s) (auto simp: pop7_def stack_rep_def dest: list_at_NilE)

lemma print7_rep: "stack_rep s xs \<Longrightarrow> print7 s = ok (blanks xs @ nl)"
  by (cases s) (auto simp: print7_def stack_rep_def blanks_def
      print_cells_list_at [where f = data and t = "\<lambda>x. dec x @ '' ''"])

interpretation stack7: stack_adt "Stack7_create empty_heap" push7 pop7 stack_rep
proof
  show "wp (push7 x s) (\<lambda>s'. stack_rep s' (x # xs))" if "stack_rep s xs" for s xs x
    using that by (cases s) (auto simp: push7_def stack_rep_def split: prod.splits intro: list_at_push)
qed (auto simp: Stack7_create_def intro: pop7_rep)

lemma pop7B_rep: "stack_rep s (x # xs) \<Longrightarrow> wp (pop7B s) (\<lambda>(y, s'). y = x \<and> stack_rep s' xs)"
  by (cases s) (auto simp: pop7B_def stack_rep_def elim!: list_at_ConsE)

lemma pop7B_empty: "stack_rep s [] \<Longrightarrow> pop7B s = fail Uninitialised"
  by (cases s) (auto simp: pop7B_def stack_rep_def dest: list_at_NilE)

interpretation stack7B: stack_adt "Stack7_create empty_heap" push7B pop7B stack_rep
proof
  show "wp (push7B x s) (\<lambda>s'. stack_rep s' (x # xs))" if "stack_rep s xs" for s xs and x :: 'a
    using that by (cases s) (auto simp: push7B_def stack_rep_def split: prod.splits intro: list_at_push)
qed (auto simp: Stack7_create_def intro: pop7B_rep)

section \<open>Properties\<close>

text \<open>
  the stacks of example6, example7 and example7B are last in, first out: what is popped
  after pushing \<open>ys\<close> is \<open>ys\<close> backwards, and the stack below is untouched.
\<close>

theorem stacks_lifo:
  assumes "stack_rep s xs"
  shows "wp (bnd (for_each (\<lambda>x s. bnd (push6 s x) (\<lambda>(s, b). ok s)) ys s)
       (collect (\<lambda>s. bnd (pop6 s None) (\<lambda>(s, d, b). case d of None \<Rightarrow> fail Uninitialised | Some x \<Rightarrow> ok (x, s)))
          (length ys))) (\<lambda>(zs, s'). zs = rev ys \<and> stack_rep s' xs) \<and>
    wp (bnd (for_each push7 ys s) (collect pop7 (length ys))) (\<lambda>(zs, s'). zs = rev ys \<and> stack_rep s' xs) \<and>
    wp (bnd (for_each push7B ys s) (collect pop7B (length ys))) (\<lambda>(zs, s'). zs = rev ys \<and> stack_rep s' xs)"
  by (intro conjI stack6.lifo [OF assms] stack7.lifo [OF assms] stack7B.lifo [OF assms])

lemma stacks_lifo_witness:
  "wp (bnd (for_each push7 [1, 2, 3] (heap_of [7])) (collect pop7 3)) (\<lambda>(zs, s'). zs = [3, 2, 1] \<and> stack_rep s' [7])"
  using stacks_lifo [of "heap_of [7]" "[7]" "[1, 2, 3]"] heap_of_list [of "[7::int]"]
  by (simp add: stack_rep_def case_prod_unfold)

text \<open>
  popping an empty stack is refused by example6 (which returns \<open>false\<close> and changes
  nothing), dereferences a null pointer in example7 and returns an uninitialised value in
  example7B.
\<close>

theorem pop_empty_stacks:
  assumes "stack_rep s []"
  shows "pop6 s d = ok (s, d, False) \<and> pop7 s = fail Null_Deref \<and> pop7B s = fail Uninitialised"
  using assms by (simp add: pop6_empty pop7_empty pop7B_empty)

lemma pop_empty_stacks_witness: "pop7 (empty_heap, null) = fail Null_Deref"
  using pop_empty_stacks [of "(empty_heap, null)" None] by (simp add: stack_rep_def)

end
