(* ===== verification/List_MinStack.thy ===== *)
theory List_MinStack
  imports List_Stack
begin

text \<open>
  The stacks of \<open>DataStructure/linked_list\<close> that answer minimum queries:
  \<open>example7C.cxx\<close> stores in each cell the minimum of the stack from there down,
  \<open>example7D.cxx\<close> keeps a second stack of minima.  The locale \<open>min_stack\<close> adds the
  query to the contract of a stack.
\<close>

locale min_stack = stack_adt create push pop rep
  for create :: "'s" and push :: "'a::linorder \<Rightarrow> 's \<Rightarrow> 's run" and pop :: "'s \<Rightarrow> ('a \<times> 's) run"
    and rep :: "'s \<Rightarrow> 'a list \<Rightarrow> bool" +
  fixes peek_min :: "'s \<Rightarrow> 'a run"
  assumes peek_min_rep: "rep s xs \<Longrightarrow> xs \<noteq> [] \<Longrightarrow> peek_min s = ok (Min (set xs))"
begin

text \<open>The minimum of what is left after pushing \<open>ys\<close> and popping \<open>k\<close> of them.\<close>

lemma min_after:
  assumes "k < length ys"
  shows "wp (bnd (for_each push ys create) (\<lambda>s. bnd (collect pop k s) (\<lambda>(zs, s). peek_min s)))
     (\<lambda>m. m = Min (set (take (length ys - k) ys)))"
proof -
  let ?xs = "rev (take (length ys - k) ys)" and ?zs = "rev (drop (length ys - k) ys)"
  have ys: "rev ys = ?zs @ ?xs" by (metis append_take_drop_id rev_append)
  have k: "length ?zs = k" and ne: "?xs \<noteq> []" using assms by auto
  have "wp (bnd (collect pop k s) (\<lambda>(zs, s). peek_min s)) (\<lambda>m. m = Min (set ?xs))" if "rep s (rev ys)" for s
    using pop_n_rep [of s ?zs ?xs] that ne unfolding ys k by (auto elim!: wp_conseq simp: peek_min_rep)
  then show ?thesis using push_all_rep [OF create_rep, of ys] by (auto elim!: wp_conseq)
qed

end

section \<open>example7C.cxx\<close>

record mnode = link +
  mdata :: int
  mmin :: int

type_synonym mstack = "mnode heap \<times> ptr"

definition MIN_macro :: "int \<Rightarrow> int \<Rightarrow> int" where
  "MIN_macro a b = (if a < b then a else b)"

lemma MIN_macro_min: "MIN_macro a b = min a b"
  by (simp add: MIN_macro_def)

definition push7C :: "int \<Rightarrow> mstack \<Rightarrow> mstack run" where
  "push7C n = (\<lambda>(h, top).
     let (h, p) = alloc h \<lparr>nxt = Some top, mdata = n, mmin = 0\<rparr> in
     bnd (if top = null then ok n else bnd (ld h top) (\<lambda>t. ok (MIN_macro n (mmin t)))) (\<lambda>m.
     bnd (ld h p) (\<lambda>k. bnd (st h p (k\<lparr>mmin := m\<rparr>)) (\<lambda>h. ok (h, p)))))"

definition pop7C :: "mstack \<Rightarrow> (int \<times> string \<times> mstack) run" where
  "pop7C = (\<lambda>(h, top).
     bnd (ld h top) (\<lambda>n. bnd (get_next h top) (\<lambda>q.
     bnd (dispose h top) (\<lambda>h. ok (mdata n, ''pop '' @ dec (mdata n) @ nl, (h, q))))))"

definition Stack7C_destroy :: "mstack \<Rightarrow> mstack run" where
  "Stack7C_destroy = (\<lambda>(h, top). free_list h top)"

definition peek7C :: "mstack \<Rightarrow> int run" where
  "peek7C = (\<lambda>(h, top). bnd (ld h top) (\<lambda>n. ok (mdata n)))"

definition peekMin7C :: "mstack \<Rightarrow> int run" where
  "peekMin7C = (\<lambda>(h, top). bnd (ld h top) (\<lambda>n. ok (mmin n)))"

definition print7C :: "mstack \<Rightarrow> string run" where
  "print7C = (\<lambda>(h, cur). bnd (print_cells (\<lambda>n. dec (mdata n) @ '' '') h cur) (\<lambda>t. ok (t @ nl)))"

definition print_min7C :: "mstack \<Rightarrow> string run" where
  "print_min7C s = bnd (peekMin7C s) (\<lambda>m. ok (''minimum = '' @ dec m @ nl))"

definition example7C_main :: "string run" where
  "example7C_main =
     bnd (push7C 40 (empty_heap, null)) (\<lambda>st. bnd (push7C 50 st) (\<lambda>st.
     bnd (push7C 20 st) (\<lambda>st. bnd (push7C 10 st) (\<lambda>st. bnd (push7C 30 st) (\<lambda>st.
     bnd (print7C st) (\<lambda>t0. bnd (print_min7C st) (\<lambda>m0.
     bnd (pop7C st) (\<lambda>(v, p1, st). bnd (print_min7C st) (\<lambda>m1.
     bnd (pop7C st) (\<lambda>(v, p2, st). bnd (print_min7C st) (\<lambda>m2.
     bnd (pop7C st) (\<lambda>(v, p3, st). bnd (print_min7C st) (\<lambda>m3.
     bnd (pop7C st) (\<lambda>(v, p4, st). bnd (print_min7C st) (\<lambda>m4.
     bnd (print7C st) (\<lambda>t5. bnd (peek7C st) (\<lambda>v.
     ok (t0 @ m0 @ p1 @ m1 @ p2 @ m2 @ p3 @ m3 @ p4 @ m4 @ t5 @ ''current top = '' @ dec v @ nl @ nl))))))))))))))))))"

text \<open>The cells that represent a stack: each element with the minimum from it down.\<close>

fun with_min :: "int list \<Rightarrow> (int \<times> int) list" where
  "with_min [] = []"
| "with_min (x # xs) = (x, case with_min xs of [] \<Rightarrow> x | (y, m) # _ \<Rightarrow> MIN_macro x m) # with_min xs"

lemma with_min_Nil [simp]: "with_min xs = [] \<longleftrightarrow> xs = []"
  by (cases xs) auto

lemma with_min_hd: "with_min xs = (x, m) # ys \<Longrightarrow> m = Min (set xs)"
proof (induction xs arbitrary: x m ys)
  case (Cons a xs)
  show ?case
  proof (cases "with_min xs")
    case (Cons b zs)
    obtain y k where b: "b = (y, k)" by force
    then have "k = Min (set xs)" "xs \<noteq> []" using Cons.IH Cons by auto
    with Cons.prems Cons b show ?thesis by (auto simp: MIN_macro_min)
  qed (use Cons.prems in auto)
qed simp

definition cell7C :: "mnode \<Rightarrow> int \<times> int" where
  "cell7C n = (mdata n, mmin n)"

definition rep7C :: "mstack \<Rightarrow> int list \<Rightarrow> bool" where
  "rep7C = (\<lambda>(h, top) xs. list_at cell7C h top (with_min xs))"

lemma push7C_rep:
  assumes "rep7C s xs"
  shows "wp (push7C x s) (\<lambda>s'. rep7C s' (x # xs))"
proof -
  obtain h top where s: "s = (h, top)" by force
  from assms have l: "list_at cell7C h top (with_min xs)" by (simp add: rep7C_def s)
  then have ok: "heap_ok h" by (rule list_at_heap_ok)
  have push: "list_at cell7C (put ((put h (brk h) k)\<lparr>brk := Suc (brk h)\<rparr>) (brk h)
      \<lparr>nxt = Some top, mdata = x, mmin = m\<rparr>) (brk h) ((x, m) # with_min xs)" for k m
  proof -
    have "list_at cell7C (fst (alloc h \<lparr>nxt = Some top, mdata = x, mmin = m\<rparr>)) (brk h) ((x, m) # with_min xs)"
      by (rule list_at_push [OF l]) (auto simp: alloc_def cell7C_def)
    then show ?thesis by (simp add: alloc_def)
  qed
  show ?thesis
  proof (cases "with_min xs")
    case Nil
    with l have "top = 0" by (auto dest: list_at_NilE)
    with push [of _ x] ok Nil show ?thesis by (simp add: s push7C_def alloc_def rep7C_def)
  next
    case (Cons c cs)
    with l obtain n where n: "0 < top" "cells h top = Some n" "cell7C n = c"
      by (auto elim: list_at_ConsE)
    then have "top \<noteq> brk h" using ok by auto
    with n push [of _ "MIN_macro x (mmin n)"] ok Cons show ?thesis
      by (auto simp: s push7C_def alloc_def rep7C_def cell7C_def)
  qed
qed

lemma pop7C_rep: "rep7C s (x # xs) \<Longrightarrow>
    wp (pop7C s) (\<lambda>(y, t, s'). y = x \<and> t = ''pop '' @ dec x @ nl \<and> rep7C s' xs)"
  by (cases s) (auto simp: pop7C_def rep7C_def cell7C_def elim!: list_at_ConsE)

lemma peek7C_rep: "rep7C s (x # xs) \<Longrightarrow> peek7C s = ok x"
  by (cases s) (auto simp: peek7C_def rep7C_def cell7C_def ld_ok elim!: list_at_ConsE)

lemma peekMin7C_rep: "rep7C s xs \<Longrightarrow> xs \<noteq> [] \<Longrightarrow> peekMin7C s = ok (Min (set xs))"
proof -
  assume r: "rep7C s xs" and "xs \<noteq> []"
  then obtain x m ys where c: "with_min xs = (x, m) # ys" by (cases "with_min xs") auto
  with r show ?thesis
    using with_min_hd [OF c]
    by (cases s) (auto simp: peekMin7C_def rep7C_def cell7C_def ld_ok elim!: list_at_ConsE)
qed

lemma print7C_rep: "rep7C s xs \<Longrightarrow> print7C s = ok (blanks xs @ nl)"
proof -
  have f: "map fst (with_min xs) = xs" by (induction xs) auto
  assume "rep7C s xs"
  then have "print7C s = ok (concat (map (\<lambda>c. dec (fst c) @ '' '') (with_min xs)) @ nl)"
    by (cases s) (auto simp: print7C_def rep7C_def
        print_cells_list_at [where f = cell7C and t = "\<lambda>c. dec (fst c) @ '' ''"] cell7C_def)
  also have "map (\<lambda>c. dec (fst c) @ '' '') (with_min xs) = map (\<lambda>x. dec x @ '' '') (map fst (with_min xs))"
    by simp
  finally show ?thesis by (simp only: f blanks_def)
qed

interpretation stack7C: min_stack "(empty_heap, null)" push7C
  "\<lambda>s. bnd (pop7C s) (\<lambda>(v, t, s). ok (v, s))" rep7C peekMin7C
  by unfold_locales
    (auto simp: peekMin7C_rep push7C_rep elim!: wp_conseq [OF pop7C_rep], simp add: rep7C_def)

section \<open>example7D.cxx\<close>

text \<open>
  A \<open>StackWithMin\<close> holds the base-class stack (\<open>top\<close>) and its own stack of minima
  (\<open>mins\<close>), on the same heap.
\<close>

record minst =
  hp :: "int element heap"
  top7 :: ptr
  mins :: ptr

definition base_push :: "int \<Rightarrow> minst \<Rightarrow> minst run" where
  "base_push n s = (let (h, p) = alloc (hp s) \<lparr>nxt = Some (top7 s), data = n\<rparr> in
     ok (s\<lparr>hp := h, top7 := p\<rparr>))"

definition base_pop :: "minst \<Rightarrow> (int \<times> string \<times> minst) run" where
  "base_pop s = (if top7 s \<noteq> null then
       bnd (ld (hp s) (top7 s)) (\<lambda>n. bnd (get_next (hp s) (top7 s)) (\<lambda>q.
       bnd (dispose (hp s) (top7 s)) (\<lambda>h.
         ok (data n, ''pop '' @ dec (data n) @ nl, s\<lparr>hp := h, top7 := q\<rparr>))))
     else ok (-1, ''empty! '' @ nl, s))"

definition base_destroy :: "minst \<Rightarrow> minst run" where
  "base_destroy s = bnd (free_list (hp s) (top7 s)) (\<lambda>(h, p). ok (s\<lparr>hp := h, top7 := p\<rparr>))"

text \<open>The destructor of the derived class empties its own stack, then the base class its own.\<close>

definition StackWithMin_destroy :: "minst \<Rightarrow> minst run" where
  "StackWithMin_destroy s = bnd (free_list (hp s) (mins s)) (\<lambda>(h, p). base_destroy (s\<lparr>hp := h, mins := p\<rparr>))"

definition base_peek :: "minst \<Rightarrow> int run" where
  "base_peek s = (if top7 s \<noteq> null then bnd (ld (hp s) (top7 s)) (\<lambda>n. ok (data n)) else ok (-1))"

definition base_print :: "minst \<Rightarrow> string run" where
  "base_print s = bnd (print_cells (\<lambda>n. dec (data n) @ '' '') (hp s) (top7 s)) (\<lambda>t. ok (nl @ t @ nl))"

definition push7D :: "int \<Rightarrow> minst \<Rightarrow> minst run" where
  "push7D n s =
     bnd (if mins s \<noteq> null then
            bnd (ld (hp s) (mins s)) (\<lambda>k.
            if n < data k then
              let (h, p) = alloc (hp s) \<lparr>nxt = Some (mins s), data = n\<rparr> in ok (s\<lparr>hp := h, mins := p\<rparr>)
            else ok s)
          else
            let (h, p) = alloc (hp s) \<lparr>nxt = Some (mins s), data = n\<rparr> in ok (s\<lparr>hp := h, mins := p\<rparr>))
       (base_push n)"

definition pop7D :: "minst \<Rightarrow> (int \<times> string \<times> minst) run" where
  "pop7D s =
     bnd (base_pop s) (\<lambda>(popped, t, s).
     if mins s = null then ok (-1, t @ ''empty min stack'' @ nl, s)
     else bnd (ld (hp s) (mins s)) (\<lambda>k.
       if popped = data k then
         bnd (get_next (hp s) (mins s)) (\<lambda>q.
         bnd (dispose (hp s) (mins s)) (\<lambda>h.
           ok (popped, t, s\<lparr>hp := h, mins := (if q \<noteq> null then q else null)\<rparr>)))
       else ok (popped, t, s)))"

definition peekMin7D :: "minst \<Rightarrow> (int \<times> string) run" where
  "peekMin7D s = (if mins s \<noteq> null then bnd (ld (hp s) (mins s)) (\<lambda>k. ok (data k, []))
     else ok (-1, ''empty min stack!'' @ nl))"

definition print_min7D :: "minst \<Rightarrow> string run" where
  "print_min7D s = bnd (peekMin7D s) (\<lambda>(m, t). ok (''minimum = '' @ t @ dec m @ nl))"

definition new7D :: minst where
  "new7D = \<lparr>hp = empty_heap, top7 = null, mins = null\<rparr>"

definition example7D_main :: "string run" where
  "example7D_main =
     bnd (push7D 40 new7D) (\<lambda>s. bnd (push7D 50 s) (\<lambda>s.
     bnd (push7D 20 s) (\<lambda>s. bnd (push7D 10 s) (\<lambda>s. bnd (push7D 30 s) (\<lambda>s.
     bnd (base_print s) (\<lambda>t0. bnd (print_min7D s) (\<lambda>m0.
     bnd (pop7D s) (\<lambda>(v, p1, s). bnd (print_min7D s) (\<lambda>m1.
     bnd (pop7D s) (\<lambda>(v, p2, s). bnd (print_min7D s) (\<lambda>m2.
     bnd (pop7D s) (\<lambda>(v, p3, s). bnd (print_min7D s) (\<lambda>m3.
     bnd (pop7D s) (\<lambda>(v, p4, s). bnd (print_min7D s) (\<lambda>m4.
     bnd (pop7D s) (\<lambda>(v, p5, s). bnd (print_min7D s) (\<lambda>m5.
     bnd (base_print s) (\<lambda>t6. bnd (base_peek s) (\<lambda>v.
     ok (t0 @ m0 @ p1 @ m1 @ p2 @ m2 @ p3 @ m3 @ p4 @ m4 @ p5 @ m5 @ t6 @
         ''current top='' @ dec v))))))))))))))))))))"

text \<open>The minima the second stack holds: an element is added when it is below all others.\<close>

fun minima :: "int list \<Rightarrow> int list" where
  "minima [] = []"
| "minima (x # xs) = (case minima xs of [] \<Rightarrow> [x] | m # ms \<Rightarrow> if x < m then x # m # ms else m # ms)"

definition rep7D :: "minst \<Rightarrow> int list \<Rightarrow> int list \<Rightarrow> bool" where
  "rep7D s xs ms \<longleftrightarrow> (\<exists>as bs. chain (hp s) (top7 s) as \<and> chain (hp s) (mins s) bs \<and>
     set as \<inter> set bs = {} \<and> along data (cells (hp s)) as = xs \<and> along data (cells (hp s)) bs = ms)"

lemma rep7D_new [simp]: "rep7D new7D [] []"
  by (simp add: rep7D_def new7D_def)

lemma rep7D_heap_ok: "rep7D s xs ms \<Longrightarrow> heap_ok (hp s)"
  by (auto simp: rep7D_def chain_def)

lemma base_push_rep:
  assumes "rep7D s xs ms"
  shows "wp (base_push x s) (\<lambda>s'. rep7D s' (x # xs) ms)"
proof -
  from assms obtain as bs where c: "chain (hp s) (top7 s) as" "chain (hp s) (mins s) bs"
      "set as \<inter> set bs = {}" "along data (cells (hp s)) as = xs" "along data (cells (hp s)) bs = ms"
    by (auto simp: rep7D_def)
  obtain h p where a: "alloc (hp s) \<lparr>nxt = Some (top7 s), data = x\<rparr> = (h, p)" by force
  note f = alloc_frame [OF rep7D_heap_ok [OF assms] a]
  have "rep7D (s\<lparr>hp := h, top7 := p\<rparr>) (x # xs) ms"
    unfolding rep7D_def
    by (rule exI [of _ "p # as"], rule exI [of _ bs]) (use c f in auto)
  with a show ?thesis by (simp add: base_push_def)
qed

lemma min_push_rep:
  assumes "rep7D s xs ms" "alloc (hp s) \<lparr>nxt = Some (mins s), data = x\<rparr> = (h, p)"
  shows "rep7D (s\<lparr>hp := h, mins := p\<rparr>) xs (x # ms)"
proof -
  from assms(1) obtain as bs where c: "chain (hp s) (top7 s) as" "chain (hp s) (mins s) bs"
      "set as \<inter> set bs = {}" "along data (cells (hp s)) as = xs" "along data (cells (hp s)) bs = ms"
    by (auto simp: rep7D_def)
  note f = alloc_frame [OF rep7D_heap_ok [OF assms(1)] assms(2)]
  show ?thesis
    unfolding rep7D_def
    by (rule exI [of _ as], rule exI [of _ "p # bs"]) (use c f in auto)
qed

lemma push7D_rep:
  assumes "rep7D s xs ms"
  shows "wp (push7D x s) (\<lambda>s'. rep7D s' (x # xs)
     (case ms of [] \<Rightarrow> [x] | m # _ \<Rightarrow> if x < m then x # ms else ms))"
proof (cases ms)
  case Nil
  with assms have "mins s = 0" by (auto simp: rep7D_def)
  with Nil assms show ?thesis
    by (auto simp: push7D_def split: prod.split intro!: base_push_rep dest: min_push_rep)
next
  case (Cons m ms')
  with assms obtain n where "0 < mins s" "cells (hp s) (mins s) = Some n" "data n = m"
    by (auto simp: rep7D_def along_def elim!: chain_ConsE)
  with Cons assms show ?thesis
    by (auto simp: push7D_def split: prod.split intro!: base_push_rep dest: min_push_rep)
qed

lemma base_pop_rep:
  assumes "rep7D s (x # xs) ms"
  shows "wp (base_pop s) (\<lambda>(v, t, s'). v = x \<and> t = ''pop '' @ dec x @ nl \<and> rep7D s' xs ms)"
proof -
  from assms obtain as bs a where c: "chain (hp s) (top7 s) (a # as)" "chain (hp s) (mins s) bs"
      "set (a # as) \<inter> set bs = {}" "along data (cells (hp s)) (a # as) = x # xs" "along data (cells (hp s)) bs = ms"
    by (auto simp: rep7D_def along_def Cons_eq_map_conv)
  from c(1) obtain n q where n: "top7 s = a" "0 < a" "cells (hp s) a = Some n" "nxt n = Some q"
      "a \<notin> set as" "chain (del (hp s) a) q as"
    by (rule chain_ConsE)
  have "rep7D (s\<lparr>hp := del (hp s) a, top7 := q\<rparr>) xs ms"
    unfolding rep7D_def
    by (rule exI [of _ as], rule exI [of _ bs]) (use c n del_frame in auto)
  with n c(4) show ?thesis by (simp add: base_pop_def)
qed

lemma min_pop_rep:
  assumes "rep7D s xs (m # ms)"
  obtains n q where "0 < mins s" "cells (hp s) (mins s) = Some n" "data n = m" "nxt n = Some q"
    "rep7D (s\<lparr>hp := del (hp s) (mins s), mins := q\<rparr>) xs ms"
proof -
  from assms obtain as bs b where c: "chain (hp s) (top7 s) as" "chain (hp s) (mins s) (b # bs)"
      "set as \<inter> set (b # bs) = {}" "along data (cells (hp s)) as = xs" "along data (cells (hp s)) (b # bs) = m # ms"
    by (auto simp: rep7D_def along_def Cons_eq_map_conv)
  from c(2) obtain n q where n: "mins s = b" "0 < b" "cells (hp s) b = Some n" "nxt n = Some q"
      "b \<notin> set bs" "chain (del (hp s) b) q bs"
    by (rule chain_ConsE)
  have "rep7D (s\<lparr>hp := del (hp s) b, mins := q\<rparr>) xs ms"
    unfolding rep7D_def
    by (rule exI [of _ as], rule exI [of _ bs]) (use c n del_frame in auto)
  with n c(5) show thesis by (intro that) auto
qed

lemma pop7D_rep:
  assumes "rep7D s (x # xs) (m # ms)"
  shows "wp (pop7D s) (\<lambda>(v, t, s'). v = x \<and> t = ''pop '' @ dec x @ nl \<and>
     rep7D s' xs (if x = m then ms else m # ms))"
  unfolding pop7D_def wp_bnd
proof (rule wp_conseq [OF base_pop_rep [OF assms]])
  fix r assume "case r of (v, t, s') \<Rightarrow> v = x \<and> t = ''pop '' @ dec x @ nl \<and> rep7D s' xs (m # ms)"
  then obtain s' where r: "r = (x, ''pop '' @ dec x @ nl, s')" "rep7D s' xs (m # ms)" by auto
  from r(2) obtain n q where "0 < mins s'" "cells (hp s') (mins s') = Some n" "data n = m"
      "nxt n = Some q" "rep7D (s'\<lparr>hp := del (hp s') (mins s'), mins := q\<rparr>) xs ms"
    by (rule min_pop_rep)
  moreover have "(if q = null then null else q) = q" by simp
  ultimately show "wp ((\<lambda>(popped, t, s).
     if mins s = null then ok (-1, t @ ''empty min stack'' @ nl, s)
     else bnd (ld (hp s) (mins s)) (\<lambda>k.
       if popped = data k then
         bnd (get_next (hp s) (mins s)) (\<lambda>q.
         bnd (dispose (hp s) (mins s)) (\<lambda>h.
           ok (popped, t, s\<lparr>hp := h, mins := (if q \<noteq> null then q else null)\<rparr>)))
       else ok (popped, t, s))) r)
     (\<lambda>(v, t, s'). v = x \<and> t = ''pop '' @ dec x @ nl \<and> rep7D s' xs (if x = m then ms else m # ms))"
    using r by auto
qed

lemma peekMin7D_rep:
  "rep7D s xs (m # ms) \<Longrightarrow> peekMin7D s = ok (m, [])"
  by (erule min_pop_rep) (auto simp: peekMin7D_def ld_ok)

lemma minima_hd: "xs \<noteq> [] \<Longrightarrow> \<exists>ms. minima xs = Min (set xs) # ms"
proof (induction xs)
  case (Cons x xs)
  show ?case
  proof (cases "xs = []")
    case False
    then obtain ms where ms: "minima xs = Min (set xs) # ms" using Cons.IH by blast
    show ?thesis
    proof (cases "x < Min (set xs)")
      case True
      with False have "Min (insert x (set xs)) = x" by simp
      with True ms show ?thesis by simp
    next
      case le: False
      have "Min (insert x (set xs)) = min x (Min (set xs))" using False by (intro Min_insert) auto
      also have "\<dots> = Min (set xs)" by (rule min_absorb2) (use le in linarith)
      finally show ?thesis using le ms by simp
    qed
  qed simp
qed simp

text \<open>As long as no two elements are equal, the second stack is the list of minima.\<close>

definition good7D :: "minst \<Rightarrow> int list \<Rightarrow> bool" where
  "good7D s xs \<longleftrightarrow> distinct xs \<and> rep7D s xs (minima xs)"

lemma push7D_good: "good7D s xs \<Longrightarrow> x \<notin> set xs \<Longrightarrow> wp (push7D x s) (\<lambda>s'. good7D s' (x # xs))"
  by (auto simp: good7D_def elim!: wp_conseq [OF push7D_rep] split: list.splits)

lemma pop7D_good:
  assumes "good7D s (x # xs)"
  shows "wp (pop7D s) (\<lambda>(v, t, s'). v = x \<and> good7D s' xs)"
proof -
  obtain m ms where m: "minima (x # xs) = m # ms" "m = Min (set (x # xs))"
    using minima_hd [of "x # xs"] by blast
  have "(if x = m then ms else m # ms) = minima xs"
  proof (cases "xs = []")
    case False
    then obtain ks where ks: "minima xs = Min (set xs) # ks" using minima_hd by blast
    have "x \<noteq> Min (set xs)" using assms False by (auto simp: good7D_def)
    with m ks False show ?thesis by (auto split: if_splits)
  qed (use m in auto)
  with assms m(1) show ?thesis
    by (auto simp: good7D_def elim!: wp_conseq [OF pop7D_rep])
qed

lemma peekMin7D_good: "good7D s xs \<Longrightarrow> xs \<noteq> [] \<Longrightarrow> peekMin7D s = ok (Min (set xs), [])"
  using minima_hd by (fastforce simp: good7D_def peekMin7D_rep)

text \<open>The destructors delete the cells of both stacks.\<close>

lemma StackWithMin_destroy_rep:
  assumes "rep7D s xs ms"
  shows "wp (StackWithMin_destroy s) (\<lambda>s'. top7 s' = 0 \<and> mins s' = 0 \<and> rep7D s' [] [])"
proof -
  from assms obtain as bs where c: "chain (hp s) (top7 s) as" "chain (hp s) (mins s) bs" "set as \<inter> set bs = {}"
    by (auto simp: rep7D_def)
  have "chain h (top7 s) as" if "heap_ok h" "cells h = cells (hp s) |` (- set bs)" for h
  proof -
    have "lseg (cells h) (top7 s) as 0 = lseg (cells (hp s)) (top7 s) as 0"
      by (rule lseg_cong) (use that c(3) in \<open>auto simp: restrict_map_def\<close>)
    with c(1) that show ?thesis by (simp add: chain_def)
  qed
  then show ?thesis
    unfolding StackWithMin_destroy_def base_destroy_def wp_bnd
    by (intro wp_conseq [OF free_list_chain [OF c(2)]])
      (auto simp: rep7D_def intro!: wp_conseq [OF free_list_chain])
qed

section \<open>Properties\<close>

text \<open>
  after pushing \<open>ys\<close> and popping \<open>k\<close> elements, the stack of example7C reports
  the minimum of the elements that are left.
\<close>

theorem minstack7C_min:
  assumes "k < length ys"
  shows "wp (bnd (for_each push7C ys (empty_heap, null)) (\<lambda>s.
       bnd (collect (\<lambda>s. bnd (pop7C s) (\<lambda>(v, t, s). ok (v, s))) k s) (\<lambda>(zs, s). peekMin7C s)))
     (\<lambda>m. m = Min (set (take (length ys - k) ys)))"
  by (rule stack7C.min_after [OF assms])

lemma minstack7C_min_witness:
  "wp (bnd (for_each push7C [20, 10, 30] (empty_heap, null)) (\<lambda>s.
       bnd (collect (\<lambda>s. bnd (pop7C s) (\<lambda>(v, t, s). ok (v, s))) 2 s) (\<lambda>(zs, s). peekMin7C s))) (\<lambda>m. m = 20)"
  using minstack7C_min [of 2 "[20, 10, 30]"] by simp

text \<open>
  the second stack of example7D answers minimum queries as long as the stack holds no
  number twice: pushing a new number, popping and asking for the minimum keep it so.
\<close>

theorem minstack7D_distinct:
  assumes "good7D s xs" "x \<notin> set xs"
  shows "wp (push7D x s) (\<lambda>s'. good7D s' (x # xs) \<and> peekMin7D s' = ok (Min (set (x # xs)), []) \<and>
     wp (pop7D s') (\<lambda>(v, t, s''). v = x \<and> good7D s'' xs))"
proof (rule wp_conseq [OF push7D_good [OF assms]])
  fix s' assume g: "good7D s' (x # xs)"
  with pop7D_good [OF g] peekMin7D_good [OF g]
  show "good7D s' (x # xs) \<and> peekMin7D s' = ok (Min (set (x # xs)), []) \<and>
     wp (pop7D s') (\<lambda>(v, t, s''). v = x \<and> good7D s'' xs)"
    by simp
qed

lemma minstack7D_distinct_witness:
  "wp (push7D 4 new7D) (\<lambda>s'. good7D s' [4] \<and> peekMin7D s' = ok (4, []) \<and>
     wp (pop7D s') (\<lambda>(v, t, s''). v = 4 \<and> good7D s'' []))"
  using minstack7D_distinct [of new7D "[]" 4] by (simp add: good7D_def)

text \<open>
  with a number pushed twice the minimum is lost when one of the two is popped: after
  pushing 10 and 10 and popping, example7D says that the stack of minima is empty.
\<close>

theorem minstack7D_duplicate:
  "bnd (push7D 10 new7D) (\<lambda>s. bnd (push7D 10 s) (\<lambda>s. bnd (pop7D s) (\<lambda>(v, t, s). peekMin7D s)))
     = ok (-1, ''empty min stack!'' @ nl)"
  by (simp add: push7D_def base_push_def pop7D_def base_pop_def peekMin7D_def new7D_def alloc_def
      empty_heap_def ld_def put_def get_next_def init_ptr_def dispose_def)

end
