(* ===== verification/List_Queue.thy ===== *)
theory List_Queue
  imports List_Stack
begin

text \<open>
  The queues of \<open>DataStructure/linked_list\<close>: \<open>example8.cxx\<close> (functions on a global
  \<open>head\<close>) and \<open>example8B.cxx\<close> (a class).  A queue is the heap with the value of
  \<open>head\<close>; the locale \<open>queue_adt\<close> is the contract.
\<close>

locale queue_adt =
  fixes create :: "'s" and enq :: "'a \<Rightarrow> 's \<Rightarrow> 's run" and deq :: "'s \<Rightarrow> ('a \<times> 's) run"
    and rep :: "'s \<Rightarrow> 'a list \<Rightarrow> bool"
  assumes create_rep: "rep create []"
    and enq_rep: "rep s xs \<Longrightarrow> wp (enq x s) (\<lambda>s'. rep s' (xs @ [x]))"
    and deq_rep: "rep s (x # xs) \<Longrightarrow> wp (deq s) (\<lambda>(y, s'). y = x \<and> rep s' xs)"
begin

lemma enq_all_rep: "rep s xs \<Longrightarrow> wp (for_each enq ys s) (\<lambda>s'. rep s' (xs @ ys))"
  by (rule wp_for_each [where I = "\<lambda>zs s'. rep s' (xs @ zs)"]) (auto elim!: wp_conseq [OF enq_rep])

lemma deq_n_rep: "rep s (ys @ xs) \<Longrightarrow> wp (collect deq (length ys) s) (\<lambda>(zs, s'). zs = ys \<and> rep s' xs)"
proof (induction ys arbitrary: s)
  case (Cons y ys)
  then show ?case
    by (auto elim!: wp_conseq [OF deq_rep] wp_conseq [OF Cons.IH])
qed simp

text \<open>First in, first out.\<close>

lemma fifo: "wp (bnd (for_each enq ys create) (collect deq (length ys))) (\<lambda>(zs, s'). zs = ys \<and> rep s' [])"
  using enq_all_rep [OF create_rep, of ys] deq_n_rep [of _ ys "[]"] by (auto elim!: wp_conseq)

end

section \<open>example8.cxx\<close>

type_synonym queue = "int element heap \<times> ptr"

definition push8 :: "int \<Rightarrow> queue \<Rightarrow> queue run" where
  "push8 n = (\<lambda>(h, head).
     let (h, p) = alloc h \<lparr>nxt = Some null, data = n\<rparr> in
     if head = null then ok (h, p)
     else bnd (link_last h head p) (\<lambda>h. ok (h, head)))"

definition pop8 :: "queue \<Rightarrow> queue run" where
  "pop8 = (\<lambda>(h, head). if head = null then ok (h, head)
     else bnd (get_next h head) (\<lambda>q. bnd (dispose h head) (\<lambda>h. ok (h, q))))"

text \<open>\<open>printf("%3d", x)\<close>\<close>

definition dec3 :: "int \<Rightarrow> string" where
  "dec3 x = replicate (3 - length (dec x)) (CHR '' '') @ dec x"

definition display8 :: "queue \<Rightarrow> string run" where
  "display8 = (\<lambda>(h, cur). bnd (print_cells (\<lambda>n. dec3 (data n)) h cur) (\<lambda>t. ok (t @ nl)))"

definition example8_main :: "string run" where
  "example8_main =
     bnd (push8 1 (empty_heap, null)) (\<lambda>q. bnd (push8 2 q) (\<lambda>q. bnd (push8 3 q) (\<lambda>q.
     bnd (push8 4 q) (\<lambda>q. bnd (push8 5 q) (\<lambda>q.
     bnd (display8 q) (\<lambda>t0.
     bnd (pop8 q) (\<lambda>q. bnd (display8 q) (\<lambda>t1.
     bnd (pop8 q) (\<lambda>q. bnd (display8 q) (\<lambda>t2.
     bnd (pop8 q) (\<lambda>q. bnd (display8 q) (\<lambda>t3.
     bnd (pop8 q) (\<lambda>q. bnd (display8 q) (\<lambda>t4.
     bnd (pop8 q) (\<lambda>q. bnd (display8 q) (\<lambda>t5.
     ok (nl @ t0 @ t1 @ t2 @ t3 @ t4 @ t5)))))))))))))))))"

definition queue_rep :: "queue \<Rightarrow> int list \<Rightarrow> bool" where
  "queue_rep = (\<lambda>(h, head). list_at data h head)"

lemma push8_rep:
  assumes "queue_rep q xs"
  shows "wp (push8 x q) (\<lambda>q'. queue_rep q' (xs @ [x]))"
proof -
  obtain h head where q: "q = (h, head)" by force
  obtain h' p where a: "alloc h \<lparr>nxt = Some null, data = x\<rparr> = (h', p)" by force
  show ?thesis
  proof (cases "xs = []")
    case True
    with assms have "head = 0" "list_at data h 0 []"
      by (auto simp: q queue_rep_def dest: list_at_NilE list_at_heap_ok)
    with a True show ?thesis
      by (auto simp: q push8_def queue_rep_def intro: list_at_single)
  next
    case False
    with assms have "head \<noteq> 0" "list_at data h head xs"
      by (auto simp: q queue_rep_def dest: list_at_empty_iff)
    with list_at_link_last [OF this(2) False _ a] show ?thesis
      by (simp add: q push8_def queue_rep_def a)
  qed
qed

lemma pop8_rep: "queue_rep q (x # xs) \<Longrightarrow> wp (pop8 q) (\<lambda>q'. queue_rep q' xs)"
  by (cases q) (auto simp: pop8_def queue_rep_def elim!: list_at_ConsE)

lemma pop8_empty: "queue_rep q [] \<Longrightarrow> pop8 q = ok q"
  by (cases q) (auto simp: pop8_def queue_rep_def dest: list_at_NilE)

lemma display8_rep: "queue_rep q xs \<Longrightarrow> display8 q = ok (concat (map dec3 xs) @ nl)"
  by (cases q) (simp add: display8_def queue_rep_def print_cells_list_at [where f = data and t = dec3])

section \<open>example8B.cxx\<close>

definition Queue8B_destroy :: "queue \<Rightarrow> queue run" where
  "Queue8B_destroy = (\<lambda>(h, head). if head = null then ok (h, head) else free_list h head)"

definition push8B :: "int \<Rightarrow> queue \<Rightarrow> queue run" where
  "push8B n = (\<lambda>(h, head).
     if head = null then ok (alloc h \<lparr>nxt = Some null, data = n\<rparr>)
     else bnd (loop (\<lambda>cur. if cur = null then ok (Inr h)
            else bnd (get_next h cur) (\<lambda>r. if r = null then
                (let (h, p) = alloc h \<lparr>nxt = Some null, data = n\<rparr> in
                 bnd (set_next h cur p) (\<lambda>h. ok (Inr h)))
              else ok (Inl r))) head) (\<lambda>h. ok (h, head)))"

definition print8B :: "queue \<Rightarrow> string run" where
  "print8B = (\<lambda>(h, head). if head = null then ok []
     else bnd (print_cells (\<lambda>n. dec (data n) @ '' '') h head) (\<lambda>t. ok (t @ nl)))"

definition pop8B :: "queue \<Rightarrow> (int \<times> string \<times> queue) run" where
  "pop8B = (\<lambda>(h, head). if head = null then ok (0, ''empty estack!'' @ nl, (h, head))
     else bnd (ld h head) (\<lambda>n. bnd (get_next h head) (\<lambda>q.
       bnd (if q \<noteq> null then ok (h, q) else bnd (dispose h head) (\<lambda>h. ok (h, null))) (\<lambda>s.
         ok (data n, ''pop: '' @ dec (data n) @ nl, s)))))"

definition example8B_main :: "string run" where
  "example8B_main =
     bnd (push8B 10 (empty_heap, null)) (\<lambda>q. bnd (push8B 20 q) (\<lambda>q. bnd (push8B 30 q) (\<lambda>q.
     bnd (push8B 40 q) (\<lambda>q. bnd (push8B 50 q) (\<lambda>q.
     bnd (print8B q) (\<lambda>t0.
     bnd (pop8B q) (\<lambda>(v, p1, q). bnd (print8B q) (\<lambda>t1.
     bnd (pop8B q) (\<lambda>(v, p2, q). bnd (print8B q) (\<lambda>t2.
     bnd (pop8B q) (\<lambda>(v, p3, q). bnd (print8B q) (\<lambda>t3.
     bnd (pop8B q) (\<lambda>(v, p4, q). bnd (print8B q) (\<lambda>t4.
     bnd (pop8B q) (\<lambda>(v, p5, q). bnd (print8B q) (\<lambda>t5.
     bnd (pop8B q) (\<lambda>(v, p6, q). bnd (print8B q) (\<lambda>t6.
     ok (t0 @ p1 @ t1 @ p2 @ t2 @ p3 @ t3 @ p4 @ t4 @ p5 @ t5 @ p6 @ t6)))))))))))))))))))"

lemma push8B_rep:
  assumes "queue_rep q xs"
  shows "wp (push8B x q) (\<lambda>q'. queue_rep q' (xs @ [x]))"
proof -
  obtain h head where q: "q = (h, head)" by force
  obtain h' p where a: "alloc h \<lparr>nxt = Some null, data = x\<rparr> = (h', p)" by force
  show ?thesis
  proof (cases "xs = []")
    case True
    with assms have "head = 0" "list_at data h 0 []"
      by (auto simp: q queue_rep_def dest: list_at_NilE list_at_heap_ok)
    with a True show ?thesis
      by (auto simp: q push8B_def queue_rep_def intro: list_at_single)
  next
    case False
    with assms obtain as where as: "chain h head as" "along data (cells h) as = xs" "as \<noteq> []"
      by (auto simp: q queue_rep_def list_at_def)
    have head: "head \<noteq> 0" using assms False by (auto simp: q queue_rep_def dest: list_at_empty_iff)
    note c = chain_snoc [OF as(1,3) _ a]
    have l: "lseg (cells h) head as 0" using as(1) by (simp add: chain_def)
    have fresh: "p \<notin> set as" "cells h' = (cells h)(p \<mapsto> \<lparr>nxt = Some null, data = x\<rparr>)"
      using a as(1) by (auto simp: alloc_def chain_def)
    have "wp (loop (\<lambda>cur. if cur = null then ok (Inr h)
            else bnd (get_next h cur) (\<lambda>r. if r = null then
                (let (h, p) = alloc h \<lparr>nxt = Some null, data = x\<rparr> in
                 bnd (set_next h cur p) (\<lambda>h. ok (Inr h)))
              else ok (Inl r))) head) (\<lambda>h''. h'' = linked_last h' as p)"
    proof (rule wp_loop_list [where xs = as and
        I = "\<lambda>bs cur. lseg (cells h) cur bs 0 \<and> bs \<noteq> [] \<and> last bs = last as"])
      fix b bs cur assume I: "lseg (cells h) cur (b # bs) 0 \<and> b # bs \<noteq> [] \<and> last (b # bs) = last as"
      show "wp (if cur = null then ok (Inr h)
         else bnd (get_next h cur) (\<lambda>r. if r = null then
                (let (h, p) = alloc h \<lparr>nxt = Some null, data = x\<rparr> in
                 bnd (set_next h cur p) (\<lambda>h. ok (Inr h)))
              else ok (Inl r)))
       (\<lambda>r. case r of Inl cur \<Rightarrow> lseg (cells h) cur bs 0 \<and> bs \<noteq> [] \<and> last bs = last as
          | Inr h'' \<Rightarrow> h'' = linked_last h' as p)"
        using I lseg_start_null fresh as(3) by (cases bs) (auto simp: linked_last_def a)
    qed (use l as in auto)
    moreover have "queue_rep (linked_last h' as p, head) (xs @ [x])"
      using c(1) c(2) [of data] as(2) by (auto simp: queue_rep_def list_at_def)
    ultimately show ?thesis using head
      by (auto simp: q push8B_def wp_eq_ok)
  qed
qed

lemma pop8B_rep: "queue_rep q (x # xs) \<Longrightarrow>
    wp (pop8B q) (\<lambda>(y, t, q'). y = x \<and> t = ''pop: '' @ dec x @ nl \<and> queue_rep q' xs)"
proof -
  assume r: "queue_rep q (x # xs)"
  obtain h head where q: "q = (h, head)" by force
  from r obtain n p where n: "0 < head" "cells h head = Some n" "data n = x" "nxt n = Some p"
      "list_at data h p xs" "list_at data (del h head) p xs"
    by (auto simp: q queue_rep_def elim: list_at_ConsE)
  then show ?thesis
    by (cases "p = 0") (auto simp: q pop8B_def queue_rep_def)
qed

lemma print8B_rep: "queue_rep q xs \<Longrightarrow> print8B q = ok (if xs = [] then [] else blanks xs @ nl)"
  by (cases q) (auto simp: print8B_def queue_rep_def blanks_def list_at_empty_iff
      print_cells_list_at [where f = data and t = "\<lambda>x. dec x @ '' ''"])

interpretation queue8: queue_adt "(empty_heap, null)" push8
  "\<lambda>q. bnd (ld (fst q) (snd q)) (\<lambda>n. bnd (pop8 q) (\<lambda>q. ok (data n, q)))" queue_rep
proof
  fix s xs and x :: int assume r: "queue_rep s (x # xs)"
  obtain h head where "s = (h, head)" by force
  with r pop8_rep [OF r] show "wp (bnd (ld (fst s) (snd s)) (\<lambda>n. bnd (pop8 s) (\<lambda>q. ok (data n, q))))
      (\<lambda>(y, s'). y = x \<and> queue_rep s' xs)"
    by (auto simp: queue_rep_def elim!: list_at_ConsE)
qed (auto simp: push8_rep, simp add: queue_rep_def)

interpretation queue8B: queue_adt "(empty_heap, null)" push8B
  "\<lambda>q. bnd (pop8B q) (\<lambda>(v, t, q). ok (v, q))" queue_rep
  by unfold_locales (auto simp: push8B_rep queue8.create_rep elim!: wp_conseq [OF pop8B_rep])

section \<open>Properties\<close>

text \<open>
  the queues of example8 and example8B are first in, first out: what is removed after
  inserting \<open>ys\<close> into an empty queue is \<open>ys\<close>, and the queue is empty again.
\<close>

theorem queues_fifo:
  "wp (bnd (for_each push8 ys (empty_heap, null))
       (collect (\<lambda>q. bnd (ld (fst q) (snd q)) (\<lambda>n. bnd (pop8 q) (\<lambda>q. ok (data n, q)))) (length ys)))
     (\<lambda>(zs, q). zs = ys \<and> queue_rep q []) \<and>
   wp (bnd (for_each push8B ys (empty_heap, null))
       (collect (\<lambda>q. bnd (pop8B q) (\<lambda>(v, t, q). ok (v, q))) (length ys)))
     (\<lambda>(zs, q). zs = ys \<and> queue_rep q [])"
  by (intro conjI queue8.fifo queue8B.fifo)

end
