(* ===== verification/List_Basic.thy ===== *)
theory List_Basic
  imports List_Stack
begin

text \<open>
  \<open>DataStructure/linked_list/example1.cxx\<close>: the singly linked list of \<open>int\<close> with
  search, deletion, reversal, copy and comparison.  The functions take the heap and the value
  of the pointer they are given; those that take a \<open>Node **\<close> return its new value.
\<close>

type_synonym iheap = "int element heap"

definition initNode1 :: "iheap \<Rightarrow> ptr \<Rightarrow> int \<Rightarrow> iheap run" where
  "initNode1 h head n = bnd (ld h head) (\<lambda>k. st h head (k\<lparr>data := n, nxt := Some null\<rparr>))"

definition addNode1 :: "iheap \<Rightarrow> ptr \<Rightarrow> int \<Rightarrow> iheap run" where
  "addNode1 h head n = (let (h, p) = alloc h \<lparr>nxt = Some null, data = n\<rparr> in link_last h head p)"

definition insertFront1 :: "iheap \<Rightarrow> ptr \<Rightarrow> int \<Rightarrow> (iheap \<times> ptr) run" where
  "insertFront1 h head n = ok (alloc h \<lparr>nxt = Some head, data = n\<rparr>)"

text \<open>When no cell matches, the function prints a message and ends without a \<open>return\<close>.\<close>

definition searchNode1 :: "iheap \<Rightarrow> ptr \<Rightarrow> int \<Rightarrow> ptr run" where
  "searchNode1 h head n =
     bnd (find_cell (\<lambda>k. data k = n) h head) (\<lambda>cur.
     if cur = null then fail Missing_Return else ok cur)"

definition deleteNode1 :: "iheap \<Rightarrow> ptr \<Rightarrow> ptr \<Rightarrow> (iheap \<times> ptr \<times> bool) run" where
  "deleteNode1 h head p =
     (if p = head then
        bnd (get_next h head) (\<lambda>q. bnd (dispose h p) (\<lambda>h. ok (h, q, True)))
      else
        loop (\<lambda>cur. if cur = null then ok (Inr (h, head, False))
          else bnd (get_next h cur) (\<lambda>r.
            if r = p then
              bnd (get_next h p) (\<lambda>q. bnd (set_next h cur q) (\<lambda>h.
              bnd (dispose h p) (\<lambda>h. ok (Inr (h, head, True)))))
            else ok (Inl r))) head)"

definition reverse1 :: "iheap \<Rightarrow> ptr \<Rightarrow> (iheap \<times> ptr) run" where
  "reverse1 h parent =
     bnd (get_next h parent) (\<lambda>me.
     bnd (get_next h me) (\<lambda>child.
     bnd (set_next h parent null) (\<lambda>h.
     bnd (reverse_loop h parent me child) (\<lambda>(h, parent, me, child).
     bnd (set_next h me parent) (\<lambda>h. ok (h, me))))))"

text \<open>
  The recursion of \<open>copyLinkedList\<close> is a tail call, written as a loop: \<open>where\<close> is the
  address \<open>pNew\<close> points to, the caller's variable (\<open>None\<close>) or the \<open>next\<close> field of a
  cell.
\<close>

definition store_at :: "iheap \<Rightarrow> ptr option \<Rightarrow> ptr option \<Rightarrow> ptr \<Rightarrow> (iheap \<times> ptr option) run" where
  "store_at h var w p = (case w of None \<Rightarrow> ok (h, Some p)
     | Some a \<Rightarrow> bnd (set_next h a p) (\<lambda>h. ok (h, var)))"

definition copyLinkedList :: "iheap \<Rightarrow> ptr \<Rightarrow> ptr option \<Rightarrow> (iheap \<times> ptr option) run" where
  "copyLinkedList h head var =
     loop (\<lambda>(h, var, w, a). if a = null then ok (Inr (h, var))
       else
         let (h, p) = alloc h \<lparr>nxt = Some null, data = 0\<rparr> in
         bnd (store_at h var w p) (\<lambda>(h, var).
         bnd (ld h a) (\<lambda>n. bnd (ld h p) (\<lambda>k.
         bnd (st h p (k\<lparr>data := data n, nxt := Some null\<rparr>)) (\<lambda>h.
         bnd (get_next h a) (\<lambda>q. ok (Inl (h, var, Some p, q)))))))) (h, var, None, head)"

text \<open>
  \<open>compareLinkedList\<close> returns the static \<open>flag\<close>, which the innermost call has set; the
  recursive call is the last one that does.
\<close>

definition compareLinkedList :: "iheap \<Rightarrow> ptr \<Rightarrow> ptr \<Rightarrow> int run" where
  "compareLinkedList h n1 n2 =
     loop (\<lambda>(n1, n2).
       if n1 = null \<and> n2 = null then ok (Inr 1)
       else if n1 = null \<or> n2 = null then ok (Inr 0)
       else bnd (ld h n1) (\<lambda>a. bnd (ld h n2) (\<lambda>b.
         if data a \<noteq> data b then ok (Inr 0)
         else bnd (get_next h n1) (\<lambda>q1. bnd (get_next h n2) (\<lambda>q2. ok (Inl (q1, q2))))))) (n1, n2)"

definition deleteLinkedList :: "iheap \<Rightarrow> ptr \<Rightarrow> (iheap \<times> ptr) run" where
  "deleteLinkedList h p = free_list h p"

definition display1 :: "iheap \<Rightarrow> ptr \<Rightarrow> string run" where
  "display1 h head = bnd (print_cells (\<lambda>n. dec (data n) @ '' '') h head) (\<lambda>t. ok (t @ nl @ nl))"

definition same_text :: "int \<Rightarrow> string" where
  "same_text c = (if c \<noteq> 0 then ''Yes, they are same!'' else ''No, they are different!'')"

definition example1_main :: "string run" where
  "example1_main =
     (let (h, head) = alloc empty_heap \<lparr>nxt = Some null, data = 0\<rparr> in
     bnd (initNode1 h head 10) (\<lambda>h. bnd (display1 h head) (\<lambda>t1.
     bnd (addNode1 h head 20) (\<lambda>h. bnd (display1 h head) (\<lambda>t2.
     bnd (addNode1 h head 30) (\<lambda>h. bnd (display1 h head) (\<lambda>t3.
     bnd (addNode1 h head 35) (\<lambda>h. bnd (display1 h head) (\<lambda>t4.
     bnd (addNode1 h head 40) (\<lambda>h. bnd (display1 h head) (\<lambda>t5.
     bnd (insertFront1 h head 5) (\<lambda>(h, head). bnd (display1 h head) (\<lambda>t6.
     bnd (searchNode1 h head 5) (\<lambda>p.
     bnd (deleteNode1 h head p) (\<lambda>(h, head, b). bnd (display1 h head) (\<lambda>t7.
     bnd (reverse1 h head) (\<lambda>(h, head). bnd (display1 h head) (\<lambda>t8.
     bnd (copyLinkedList h head None) (\<lambda>(h, new). bnd (init_ptr new) (\<lambda>newHead.
     bnd (display1 h newHead) (\<lambda>t9.
     bnd (compareLinkedList h head newHead) (\<lambda>c1.
     bnd (searchNode1 h newHead 35) (\<lambda>p.
     bnd (deleteNode1 h newHead p) (\<lambda>(h, newHead, b2). bnd (display1 h newHead) (\<lambda>t10.
     bnd (compareLinkedList h head newHead) (\<lambda>c2.
     bnd (deleteLinkedList h newHead) (\<lambda>(h, newHead). bnd (display1 h newHead) (\<lambda>t11.
     ok (t1 @ t2 @ t3 @ t4 @ t5 @ t6 @ (if b then ''Node 5 deleted!'' @ nl else []) @ t7 @
         ''The list is reversed'' @ nl @ t8 @ ''The list is copied'' @ nl @ t9 @
         ''Comparing the two lists...'' @ nl @ ''Are the two lists same?'' @ nl @
         same_text c1 @ nl @ nl @
         (if b2 then ''Node 35 deleted!'' @ nl @ ''The new list after the delete is'' @ nl @ t10 else []) @
         ''Comparing the two lists again...'' @ nl @ ''Are the two lists same?'' @ nl @
         same_text c2 @ nl @ nl @ ''Deleting the copied list'' @ nl @ t11)))))))))))))))))))))))))))))"

section \<open>What the operations do\<close>

lemma initNode1_rep:
  "heap_ok h \<Longrightarrow> cells h p = Some k \<Longrightarrow> wp (initNode1 h p n) (\<lambda>h'. list_at data h' p [n])"
  by (auto simp: initNode1_def list_at_def chain_def dest: heap_okD intro!: exI [of _ "[p]"])

lemma addNode1_rep:
  assumes "list_at data h p xs" "xs \<noteq> []"
  shows "wp (addNode1 h p n) (\<lambda>h'. list_at data h' p (xs @ [n]))"
  using list_at_link_last [OF assms, of "\<lparr>nxt = Some null, data = n\<rparr>"]
  by (auto simp: addNode1_def split: prod.split)

lemma insertFront1_rep:
  "list_at data h p xs \<Longrightarrow> wp (insertFront1 h p n) (\<lambda>(h', q). list_at data h' q (n # xs))"
  by (auto simp: insertFront1_def split: prod.split intro: list_at_push)

lemma searchNode1_found:
  assumes "chain h p as" "n \<in> set (along data (cells h) as)"
  shows "\<exists>bs a cs. as = bs @ a # cs \<and> searchNode1 h p n = ok a \<and>
     data (the (cells h a)) = n \<and> n \<notin> set (along data (cells h) bs)"
proof -
  obtain a where a: "find (\<lambda>a. data (the (cells h a)) = n) as = Some a"
    using assms(2) find_along_None [of "\<lambda>x. x = n" data "cells h" as] by auto
  then obtain bs cs where s: "as = bs @ a # cs" "data (the (cells h a)) = n"
      "n \<notin> set (along data (cells h) bs)"
    by (rule find_along_Some [of "\<lambda>x. x = n" data "cells h"]) auto
  have "lseg (cells h) p as 0" using assms(1) by (simp add: chain_def)
  moreover from this s(1) have "0 < a" by (auto dest!: lseg_dom)
  ultimately have "searchNode1 h p n = ok a"
    using a by (simp add: searchNode1_def find_cell_chain)
  with s show ?thesis by blast
qed

lemma searchNode1_missing:
  assumes "list_at data h p xs" "n \<notin> set xs"
  shows "searchNode1 h p n = fail Missing_Return"
proof -
  from assms obtain as where as: "lseg (cells h) p as 0" "xs = along data (cells h) as"
    by (auto simp: list_at_def chain_def)
  with assms(2) have "find (\<lambda>a. data (the (cells h a)) = n) as = None"
    by (auto simp: find_along_None [of "\<lambda>x. x = n"])
  with as show ?thesis by (simp add: searchNode1_def find_cell_chain)
qed

lemma deleteNode1_chain:
  assumes "chain h p (bs @ a # cs)"
  shows "wp (deleteNode1 h p a) (\<lambda>(h', q, b). b \<and> chain h' q (bs @ cs) \<and> cells h' a = None \<and>
     along data (cells h') (bs @ cs) = along data (cells h) (bs @ cs))"
proof (cases bs rule: rev_cases)
  case Nil
  with assms show ?thesis
    by (auto simp: deleteNode1_def elim!: chain_ConsE)
next
  case (snoc ds b)
  let ?as = "ds @ b # a # cs"
  have c: "chain h p ?as" using assms snoc by simp
  obtain n k r where n: "cells h b = Some n" "0 < b" "nxt n = Some a" "cells h a = Some k" "0 < a"
      "nxt k = Some r" "a \<noteq> b"
    using c by (rule chain_splitE)
  have d: "distinct ?as" by (rule chain_distinct [OF c])
  have l: "lseg (cells h) p ?as 0" using c by (simp add: chain_def)
  have pa: "p \<noteq> a" using l d by (cases ds) auto
  let ?h = "del (put h b (n\<lparr>nxt := Some r\<rparr>)) a"
  note u = chain_unlink [OF c n(1,4,6)]
  have "wp (loop (\<lambda>cur. if cur = null then ok (Inr (h, p, False))
          else bnd (get_next h cur) (\<lambda>r.
            if r = a then
              bnd (get_next h a) (\<lambda>q. bnd (set_next h cur q) (\<lambda>h.
              bnd (dispose h a) (\<lambda>h. ok (Inr (h, p, True)))))
            else ok (Inl r))) p) (\<lambda>(h', q, t). t \<and> h' = ?h \<and> q = p)"
  proof (rule wp_loop_list [where xs = "ds @ [b]" and
      I = "\<lambda>xs cur. xs \<noteq> [] \<and> last xs = b \<and> a \<notin> set xs \<and> lseg (cells h) cur (xs @ a # cs) 0"])
    fix x xs cur
    assume I: "x # xs \<noteq> [] \<and> last (x # xs) = b \<and> a \<notin> set (x # xs) \<and> lseg (cells h) cur ((x # xs) @ a # cs) 0"
    then obtain k' r' where x: "cur = x" "0 < x" "cells h x = Some k'" "nxt k' = Some r'"
        "lseg (cells h) r' (xs @ a # cs) 0"
      by auto
    show "wp (if cur = null then ok (Inr (h, p, False))
          else bnd (get_next h cur) (\<lambda>r.
            if r = a then
              bnd (get_next h a) (\<lambda>q. bnd (set_next h cur q) (\<lambda>h.
              bnd (dispose h a) (\<lambda>h. ok (Inr (h, p, True)))))
            else ok (Inl r)))
         (\<lambda>r. case r of Inl cur \<Rightarrow> xs \<noteq> [] \<and> last xs = b \<and> a \<notin> set xs \<and> lseg (cells h) cur (xs @ a # cs) 0
            | Inr y \<Rightarrow> (case y of (h', q, t) \<Rightarrow> t \<and> h' = ?h \<and> q = p))"
      using x I n by (cases xs) auto
  qed (use l d in auto)
  then show ?thesis
    unfolding deleteNode1_def using pa snoc u(2) u(4) [of data]
    by (auto elim!: wp_conseq)
qed

lemma deleteNode1_absent:
  assumes "chain h p as" "a \<notin> set as" "a \<noteq> 0"
  shows "deleteNode1 h p a = ok (h, p, False)"
proof -
  have l: "lseg (cells h) p as 0" using assms(1) by (simp add: chain_def)
  have pa: "p \<noteq> a" using l assms(2,3) by (cases as) auto
  have "wp (loop (\<lambda>cur. if cur = null then ok (Inr (h, p, False))
          else bnd (get_next h cur) (\<lambda>r.
            if r = a then
              bnd (get_next h a) (\<lambda>q. bnd (set_next h cur q) (\<lambda>h.
              bnd (dispose h a) (\<lambda>h. ok (Inr (h, p, True)))))
            else ok (Inl r))) p) (\<lambda>x. x = (h, p, False))"
  proof (rule wp_loop_list [where xs = as and I = "\<lambda>xs cur. a \<notin> set xs \<and> lseg (cells h) cur xs 0"])
    fix x xs cur assume I: "a \<notin> set (x # xs) \<and> lseg (cells h) cur (x # xs) 0"
    then obtain k r where "cur = x" "0 < x" "cells h x = Some k" "nxt k = Some r" "lseg (cells h) r xs 0"
      by auto
    moreover from this I assms(3) have "r \<noteq> a" by (cases xs) auto
    ultimately show "wp (if cur = null then ok (Inr (h, p, False))
          else bnd (get_next h cur) (\<lambda>r.
            if r = a then
              bnd (get_next h a) (\<lambda>q. bnd (set_next h cur q) (\<lambda>h.
              bnd (dispose h a) (\<lambda>h. ok (Inr (h, p, True)))))
            else ok (Inl r)))
         (\<lambda>r. case r of Inl cur \<Rightarrow> a \<notin> set xs \<and> lseg (cells h) cur xs 0 | Inr y \<Rightarrow> y = (h, p, False))"
      using I by auto
  qed (use l assms in auto)
  then show ?thesis unfolding deleteNode1_def using pa by (simp add: wp_eq_ok)
qed

interpretation reverse1: reversal reverse1 "\<lambda>as. 2 \<le> length as"
proof
  fix h :: iheap and p as assume c: "chain h p as" and "2 \<le> length as"
  then obtain me rest where as: "as = p # me # rest"
    by (cases as; cases "tl as") (auto simp: chain_def)
  obtain n where n: "cells h p = Some n" "0 < p" using c as by (auto simp: chain_def)
  from turning_start [OF c [unfolded as] n(1)] obtain m child
    where s: "cells h me = Some m" "nxt n = Some me" "nxt m = Some child" "0 < me" "p \<noteq> me"
      "turning h as rest (put h p (n\<lparr>nxt := Some 0\<rparr>), p, me, child)"
    by (auto simp: as)
  have "heap_ok h" using c by (simp add: chain_def)
  with s n turning_end reverse_loop_turning [OF s(6)]
  show "wp (reverse1 h p) (\<lambda>(h', q). chain h' q (rev as) \<and> relinked as h h')"
    by (fastforce simp: reverse1_def elim!: wp_conseq)
qed simp

text \<open>A list of one cell is not reversed: \<open>me->next\<close> goes through \<open>NULL\<close>.\<close>

lemma reverse1_single: "list_at f h p [x] \<Longrightarrow> reverse1 h p = fail Null_Deref"
  by (auto simp: reverse1_def get_next_def ld_ok init_ptr_def elim!: list_at_ConsE dest!: list_at_NilE)

lemma reverse1_null: "reverse1 h 0 = fail Null_Deref"
  by (simp add: reverse1_def get_next_def)

section \<open>Copying and comparing\<close>

text \<open>
  \<open>copied h ds\<close>: the cells \<open>ds\<close> of \<open>h\<close> have been copied into new cells, and the
  old cells are as they were.
\<close>

definition copied :: "iheap \<Rightarrow> ptr list \<Rightarrow> iheap \<Rightarrow> ptr option \<Rightarrow> ptr option \<Rightarrow> bool" where
  "copied h ds h' var w \<longleftrightarrow> heap_ok h' \<and> (\<forall>a \<in> dom (cells h). cells h' a = cells h a) \<and>
     brk h \<le> brk h' \<and>
     (\<exists>q bs. var = (if bs = [] then None else Some q) \<and> w = (if bs = [] then None else Some (last bs)) \<and>
        (bs \<noteq> [] \<longrightarrow> chain h' q bs) \<and> (\<forall>b \<in> set bs. brk h \<le> b) \<and>
        along data (cells h') bs = along data (cells h) ds)"

lemma copied_step:
  assumes "copied h ds h1 var w" "heap_ok h" "cells h a = Some n" "nxt n = Some r" "0 < a"
  shows "wp (let (h, p) = alloc h1 \<lparr>nxt = Some null, data = 0\<rparr> in
         bnd (store_at h var w p) (\<lambda>(h, var).
         bnd (ld h a) (\<lambda>n. bnd (ld h p) (\<lambda>k.
         bnd (st h p (k\<lparr>data := data n, nxt := Some null\<rparr>)) (\<lambda>h.
         bnd (get_next h a) (\<lambda>q. ok (Inl (h, var, Some p, q) :: _ + (iheap \<times> ptr option))))))))
     (\<lambda>s. case s of Inl (h', var', w', q) \<Rightarrow> q = r \<and> copied h (ds @ [a]) h' var' w' | Inr _ \<Rightarrow> False)"
proof -
  from assms(1) obtain q bs where b: "heap_ok h1" "\<forall>a \<in> dom (cells h). cells h1 a = cells h a"
      "brk h \<le> brk h1" "var = (if bs = [] then None else Some q)" "w = (if bs = [] then None else Some (last bs))"
      "bs \<noteq> [] \<longrightarrow> chain h1 q bs" "\<forall>b \<in> set bs. brk h \<le> b"
      "along data (cells h1) bs = along data (cells h) ds"
    by (auto simp: copied_def)
  define k where "k = (\<lparr>nxt = Some null, data = 0\<rparr> :: int element)"
  obtain h2 p where al: "alloc h1 k = (h2, p)" by force
  have p: "p = brk h1" "cells h2 = (cells h1)(p \<mapsto> k)" "heap_ok h2" "brk h2 = Suc (brk h1)" "0 < p"
    using al b(1) by (auto simp: alloc_def put_def)
  have old: "x \<in> dom (cells h) \<Longrightarrow> x < brk h" for x using assms(2) by (auto simp: heap_ok_def)
  have pn: "cells h p = None" using old [of p] p(1) b(3) by (cases "cells h p") auto
  obtain h3 var' where h3: "wp (store_at h2 var w p) (\<lambda>s. s = (h3, var'))" "heap_ok h3"
      "\<forall>x \<in> dom (cells h). cells h3 x = cells h x" "brk h3 = brk h2" "cells h3 p = Some k"
      "var' = Some (if bs = [] then p else q)" "chain h3 (if bs = [] then p else q) (bs @ [p])"
      "along data (cells h3) bs = along data (cells h) ds" "p \<notin> set bs"
  proof (cases "bs = []")
    case True
    show thesis
      by (rule that [of h2 "Some p"]) (use True b p pn in \<open>auto simp: store_at_def k_def chain_def\<close>)
  next
    case False
    then have c: "chain h1 q bs" using b by simp
    have "nxt k = Some null" by (simp add: k_def)
    note s = chain_snoc [OF c False this al]
    have last: "last bs \<in> set bs" "p \<notin> set bs" using False c p by (auto simp: chain_def)
    obtain m where m: "cells h1 (last bs) = Some m" "0 < last bs"
      using c last(1) lseg_dom unfolding chain_def by blast
    have nl: "last bs \<noteq> p" "last bs \<notin> dom (cells h)" using last b(7) old by force+
    have eq: "linked_last h2 bs p = put h2 (last bs) (m\<lparr>nxt := Some p\<rparr>)"
      using m nl p by (simp add: linked_last_def)
    have along: "along data (cells (linked_last h2 bs p)) bs = along data (cells h) ds"
      using s(2) [of data] b(8) by (simp add: k_def)
    show thesis
      by (rule that [of "linked_last h2 bs p" "Some q"])
        (use False b p(2-5) pn m nl s(1) along last in \<open>auto simp: store_at_def eq chain_def\<close>)
  qed
  let ?h = "put h3 p (k\<lparr>data := data n, nxt := Some null\<rparr>)"
  have ap: "a \<noteq> p" "cells h3 a = Some n" using assms(3) h3(3) old [of a] p(1) b(3) by force+
  have "chain ?h (if bs = [] then p else q) (bs @ [p])"
    by (rule chain_put_same [OF h3(5)]) (use h3(7) in \<open>simp_all add: k_def\<close>)
  moreover have "along data (cells ?h) (bs @ [p]) = along data (cells h) (ds @ [a])"
    using h3(8,9) assms(3) by simp
  moreover have "\<forall>x \<in> dom (cells h). cells ?h x = cells h x"
    using h3(3) old p(1) b(3) by force
  moreover have "\<forall>b \<in> set (bs @ [p]). brk h \<le> b" using b(3,7) p(1) by auto
  ultimately have "copied h (ds @ [a]) ?h var' (Some p)"
    unfolding copied_def using h3(2,4,5,6) b(3) p
    by (auto intro!: exI [of _ "if bs = [] then p else q"] exI [of _ "bs @ [p]"])
  with h3(1,5) ap p(5) assms(3,4,5) al show ?thesis
    by (auto simp: k_def [symmetric] elim!: wp_conseq)
qed

lemma copyLinkedList_copied:
  assumes "chain h p as"
  shows "wp (copyLinkedList h p None) (\<lambda>(h', var). \<exists>w. copied h as h' var w)"
  unfolding copyLinkedList_def
proof (rule wp_loop_list [where xs = as and I = "\<lambda>cs (h', var, w, a).
      \<exists>ds. as = ds @ cs \<and> lseg (cells h) a cs 0 \<and> copied h ds h' var w"])
  show "case (h, None, None, p) of (h', var, w, a) \<Rightarrow>
      \<exists>ds. as = ds @ as \<and> lseg (cells h) a as 0 \<and> copied h ds h' var w"
    using assms by (auto simp: copied_def chain_def)
next
  fix c cs s assume "case s of (h', var, w, a) \<Rightarrow>
      \<exists>ds. as = ds @ c # cs \<and> lseg (cells h) a (c # cs) 0 \<and> copied h ds h' var w"
  then obtain h' var w ds n r where s: "s = (h', var, w, c)" "as = ds @ c # cs" "0 < c" "cells h c = Some n"
      "nxt n = Some r" "lseg (cells h) r cs 0" "copied h ds h' var w"
    by auto
  have ok: "heap_ok h" using assms by (simp add: chain_def)
  show "wp (case s of (h, var, w, a) \<Rightarrow> if a = null then ok (Inr (h, var))
       else
         let (h, p) = alloc h \<lparr>nxt = Some null, data = 0\<rparr> in
         bnd (store_at h var w p) (\<lambda>(h, var).
         bnd (ld h a) (\<lambda>n. bnd (ld h p) (\<lambda>k.
         bnd (st h p (k\<lparr>data := data n, nxt := Some null\<rparr>)) (\<lambda>h.
         bnd (get_next h a) (\<lambda>q. ok (Inl (h, var, Some p, q))))))))
     (\<lambda>r. case r of Inl s' \<Rightarrow> (case s' of (h', var, w, a) \<Rightarrow>
          \<exists>ds. as = ds @ cs \<and> lseg (cells h) a cs 0 \<and> copied h ds h' var w)
        | Inr y \<Rightarrow> (case y of (h', var) \<Rightarrow> \<exists>w. copied h as h' var w))"
    using wp_conseq [OF copied_step [OF s(7) ok s(4,5,3)]] s by (fastforce split: sum.splits)
qed auto

lemma compareLinkedList_spec:
  assumes "lseg (cells h) p as 0" "lseg (cells h) q bs 0"
  shows "compareLinkedList h p q =
    ok (if along data (cells h) as = along data (cells h) bs then 1 else 0)"
  using assms
proof (induction as arbitrary: p q bs)
  case Nil
  then show ?case
    by (cases bs) (auto simp: compareLinkedList_def loop_unfold)
next
  case (Cons a as)
  then show ?case
    by (cases bs) (auto simp: compareLinkedList_def loop_unfold [of _ "(_, _)"] ld_ok get_next_def init_ptr_def)
qed

section \<open>Properties\<close>

text \<open>
  searching example1's list for a number and deleting the node found removes the first
  occurrence of the number; a number that is not in the list makes \<open>searchNode\<close> reach its
  end without a return value.
\<close>

theorem search_deleteNode1:
  assumes "list_at data h p xs"
  shows "if n \<in> set xs
     then wp (bnd (searchNode1 h p n) (deleteNode1 h p)) (\<lambda>(h', q, b). b \<and> list_at data h' q (remove1 n xs))
     else searchNode1 h p n = fail Missing_Return"
proof (cases "n \<in> set xs")
  case True
  from assms obtain as where as: "chain h p as" "along data (cells h) as = xs" by (auto simp: list_at_def)
  with True obtain bs a cs where b: "as = bs @ a # cs" "searchNode1 h p n = ok a" "data (the (cells h a)) = n"
      "n \<notin> set (along data (cells h) bs)"
    using searchNode1_found [of h p as n] by auto
  then have "remove1 n xs = along data (cells h) (bs @ cs)" using as(2) by (auto simp: remove1_append)
  with b as(1) True show ?thesis
    by (auto simp: list_at_def elim!: wp_conseq [OF deleteNode1_chain] simp del: along_simps)
qed (use searchNode1_missing [OF assms] in simp)

lemma search_deleteNode1_witness:
  "wp (bnd (searchNode1 (fst (heap_of [5, 20, 5::int])) (snd (heap_of [5, 20, 5::int])) 20)
     (deleteNode1 (fst (heap_of [5, 20, 5::int])) (snd (heap_of [5, 20, 5::int])))) (\<lambda>(h', q, b). b \<and> list_at data h' q [5, 5])"
  using search_deleteNode1 [OF heap_of_list [of "[5, 20, 5]"], of 20] by simp

text \<open>
  C40: \<open>copyLinkedList\<close> leaves every cell there was as it was and builds a list with the same contents
  whose cells are all new, which \<open>compareLinkedList\<close> reports as equal; in general the comparison
  is 1 exactly for lists with the same contents.
\<close>

theorem copy_compareLinkedList:
  assumes "list_at data h p xs" "list_at data h r ys"
  shows "wp (copyLinkedList h p None) (\<lambda>(h', var). (\<forall>x \<in> dom (cells h). cells h' x = cells h x) \<and> list_at data h' p xs \<and>
       (case var of None \<Rightarrow> xs = [] | Some q \<Rightarrow> (\<exists>ks. chain h' q ks \<and> along data (cells h') ks = xs \<and>
          set ks \<inter> dom (cells h) = {}) \<and> compareLinkedList h' p q = ok 1)) \<and>
     compareLinkedList h p r = ok (if xs = ys then 1 else 0)"
proof
  from assms obtain as bs where as: "chain h p as" "along data (cells h) as = xs"
      and bs: "chain h r bs" "along data (cells h) bs = ys" by (auto simp: list_at_def)
  show "compareLinkedList h p r = ok (if xs = ys then 1 else 0)"
    using compareLinkedList_spec [of h p as r bs] as bs by (auto simp: chain_def)
  show "wp (copyLinkedList h p None) (\<lambda>(h', var). (\<forall>x \<in> dom (cells h). cells h' x = cells h x) \<and> list_at data h' p xs \<and>
       (case var of None \<Rightarrow> xs = [] | Some q \<Rightarrow> (\<exists>ks. chain h' q ks \<and> along data (cells h') ks = xs \<and>
          set ks \<inter> dom (cells h) = {}) \<and> compareLinkedList h' p q = ok 1))"
  proof (rule wp_conseq [OF copyLinkedList_copied [OF as(1)]], clarify)
    fix h' var w assume c: "copied h as h' var w"
    have d: "a \<in> dom (cells h)" "a < brk h" if "a \<in> set as" for a
      using that as(1) lseg_dom [of "cells h" p as 0 a] by (auto simp: chain_def dest: lseg_below_brk)
    with c have eq: "cells h' a = cells h a" if "a \<in> set as" for a using that by (simp add: copied_def)
    have old: "chain h' p as" "along data (cells h') as = xs"
      using c as lseg_cong [of as "cells h'" "cells h" p 0] along_cong [of as "cells h'" "cells h" data] eq
      by (auto simp: chain_def copied_def)
    have frame: "\<forall>x \<in> dom (cells h). cells h' x = cells h x" using c by (simp add: copied_def)
    show "(\<forall>x \<in> dom (cells h). cells h' x = cells h x) \<and> list_at data h' p xs \<and> (case var of None \<Rightarrow> xs = [] |
        Some q \<Rightarrow> (\<exists>ks. chain h' q ks \<and> along data (cells h') ks = xs \<and> set ks \<inter> dom (cells h) = {}) \<and>
          compareLinkedList h' p q = ok 1)"
    proof (cases var)
      case None
      with c as(2) old frame show ?thesis by (auto simp: copied_def list_at_def split: if_splits)
    next
      case (Some q)
      with c obtain ks where k: "chain h' q ks" "\<forall>b \<in> set ks. brk h \<le> b" "along data (cells h') ks = xs"
        using as(2) by (auto simp: copied_def split: if_splits)
      have "heap_ok h" using as(1) by (simp add: chain_def)
      then have "b \<notin> dom (cells h)" if "brk h \<le> b" for b using that heap_okD [of h b] by force
      with k(2) have "set ks \<inter> dom (cells h) = {}" by auto
      moreover have "compareLinkedList h' p q = ok 1"
        using compareLinkedList_spec [of h' p as q ks] old k by (auto simp: chain_def)
      ultimately show ?thesis using Some old k frame by (auto simp: list_at_def)
    qed
  qed
qed

lemma copy_compareLinkedList_witness:
  "wp (copyLinkedList (fst (heap_of [40, 30::int])) (snd (heap_of [40, 30::int])) None) (\<lambda>(h', var).
       list_at data h' (snd (heap_of [40, 30::int])) [40, 30] \<and>
       (\<exists>q ks. var = Some q \<and> chain h' q ks \<and> along data (cells h') ks = [40, 30] \<and>
          set ks \<inter> dom (cells (fst (heap_of [40, 30::int]))) = {}))"
  using copy_compareLinkedList [OF heap_of_list heap_of_list, of "[40, 30]"]
  by (elim conjE wp_conseq) (fastforce split: option.splits)

text \<open>
  example1 reverses a list of two nodes or more in place; it dereferences a null pointer for
  an empty list and for a list of one node.
\<close>

theorem reverse1_correct:
  assumes "list_at data h p xs"
  shows "if length xs < 2 then reverse1 h p = fail Null_Deref
     else wp (reverse1 h p) (\<lambda>(h', q). list_at data h' q (rev xs))"
proof (cases "length xs < 2")
  case True
  with assms show ?thesis
    by (cases xs; cases "tl xs") (auto dest: list_at_NilE reverse1_single simp: reverse1_null)
next
  case False
  with reverse1.rv_list_at [OF assms] show ?thesis by simp
qed

lemma reverse1_correct_witness:
  "wp (reverse1 (fst (heap_of [1, 2, 3::int])) (snd (heap_of [1, 2, 3::int]))) (\<lambda>(h', q). list_at data h' q [3, 2, 1])"
  using reverse1_correct [OF heap_of_list [of "[1, 2, 3]"]] by simp

end
