(* ===== verification/List_Sorted.thy ===== *)
theory List_Sorted
  imports List_Stack
begin

text \<open>
  \<open>DataStructure/linked_list/example2.cxx\<close>: functions on a global \<open>head\<close> that search,
  insert into and delete from a list meant to be in ascending order.  They take the heap and
  the value of \<open>head\<close>; those that assign to \<open>head\<close> return it.
\<close>

type_synonym glist = "int element heap \<times> ptr"

text \<open>The loop leaves through a \<open>return\<close>; when it ends otherwise no value is returned.\<close>

definition searchNode :: "int \<Rightarrow> glist \<Rightarrow> ptr run" where
  "searchNode n = (\<lambda>(h, head).
     if head = null then ok head
     else loop (\<lambda>(cur, prev).
       if cur = null then fail Missing_Return
       else bnd (ld h cur) (\<lambda>k.
         if data k = n then ok (Inr cur)
         else if data k > n then ok (Inr prev)
         else bnd (get_next h cur) (\<lambda>q. ok (Inl (q, cur))))) (head, head))"

definition searchNode2 :: "int \<Rightarrow> glist \<Rightarrow> ptr run" where
  "searchNode2 n = (\<lambda>(h, head).
     if head = null then ok head else find_cell (\<lambda>k. data k = n) h head)"

definition addNode2 :: "int \<Rightarrow> glist \<Rightarrow> glist run" where
  "addNode2 n = (\<lambda>(h, head).
     let (h, p) = alloc h \<lparr>nxt = Some null, data = n\<rparr> in
     if head = null then ok (h, p) else bnd (link_last h head p) (\<lambda>h. ok (h, head)))"

text \<open>\<open>new node\<close> leaves the link of the new cell unassigned.\<close>

definition insertNode :: "int \<Rightarrow> glist \<Rightarrow> glist run" where
  "insertNode n = (\<lambda>(h, head).
     bnd (searchNode n (h, head)) (\<lambda>p.
     let (h, q) = alloc h \<lparr>nxt = None, data = n\<rparr> in
     loop (\<lambda>cur. if cur = null then ok (Inr (h, head))
       else if cur = p then
         bnd (get_next h cur) (\<lambda>r. bnd (set_next h q r) (\<lambda>h.
         bnd (set_next h cur q) (\<lambda>h. ok (Inr (h, head)))))
       else bnd (get_next h cur) (\<lambda>r. ok (Inl r))) head))"

definition deleteNode :: "int \<Rightarrow> glist \<Rightarrow> (string \<times> glist) run" where
  "deleteNode n = (\<lambda>(h, head).
     bnd (searchNode n (h, head)) (\<lambda>p.
     let t = (if p = null then ''No node with data = '' @ dec n @ nl else []) in
     if p = head then bnd (get_next h p) (\<lambda>q. ok (t, (h, q)))
     else loop (\<lambda>(cur, prev). if cur = null then ok (Inr (t, (h, head)))
       else if cur = p then
         bnd (get_next h cur) (\<lambda>r. bnd (set_next h prev r) (\<lambda>h. ok (Inr (t, (h, head)))))
       else bnd (get_next h cur) (\<lambda>r. ok (Inl (r, cur)))) (head, head)))"

definition display2 :: "glist \<Rightarrow> string run" where
  "display2 = (\<lambda>(h, head). bnd (print_cells (\<lambda>n. dec (data n) @ '' '') h head) (\<lambda>t. ok (t @ nl)))"

definition example2_main :: "string run" where
  "example2_main =
     bnd (addNode2 10 (empty_heap, null)) (\<lambda>l. bnd (display2 l) (\<lambda>t1.
     bnd (addNode2 20 l) (\<lambda>l. bnd (display2 l) (\<lambda>t2.
     bnd (addNode2 40 l) (\<lambda>l. bnd (display2 l) (\<lambda>t3.
     bnd (addNode2 50 l) (\<lambda>l. bnd (display2 l) (\<lambda>t4.
     bnd (insertNode 30 l) (\<lambda>l. bnd (display2 l) (\<lambda>t5.
     bnd (deleteNode 40 l) (\<lambda>(m, l). bnd (display2 l) (\<lambda>t6.
     ok (t1 @ t2 @ t3 @ t4 @ t5 @ m @ t6)))))))))))))"

section \<open>Searching\<close>

text \<open>
  The cell \<open>searchNode\<close> returns, as a position: the first that holds \<open>n\<close>, else the one
  before the first that exceeds it (the first cell when that is the first one).
\<close>

fun spot :: "int \<Rightarrow> int list \<Rightarrow> nat \<Rightarrow> nat \<Rightarrow> nat option" where
  "spot n [] i prev = None"
| "spot n (x # xs) i prev = (if x = n then Some i else if x > n then Some prev else spot n xs (Suc i) i)"

definition glist_rep :: "glist \<Rightarrow> ptr list \<Rightarrow> int list \<Rightarrow> bool" where
  "glist_rep l as xs \<longleftrightarrow> chain (fst l) (snd l) as \<and> along data (cells (fst l)) as = xs"

lemma searchNode_spot:
  assumes "glist_rep l as xs" "as \<noteq> []"
  shows "searchNode n l = (case spot n xs 0 0 of None \<Rightarrow> fail Missing_Return | Some i \<Rightarrow> ok (as ! i))"
proof -
  obtain h head where l: "l = (h, head)" by force
  let ?m = "cells h" and ?f = "\<lambda>(cur, prev).
       if cur = null then fail Missing_Return
       else bnd (ld h cur) (\<lambda>k.
         if data k = n then ok (Inr cur)
         else if data k > n then ok (Inr prev)
         else bnd (get_next h cur) (\<lambda>q. ok (Inl (q, cur))))"
  have c: "lseg ?m head as 0" "along data ?m as = xs" using assms(1) by (auto simp: glist_rep_def chain_def l)
  have "loop ?f (cur, as ! j) =
      (case spot n (along data ?m bs) (length ds) j of None \<Rightarrow> fail Missing_Return | Some i \<Rightarrow> ok (as ! i))"
    if "as = ds @ bs" "lseg ?m cur bs 0" for cur ds bs j
    using that
  proof (induction bs arbitrary: cur ds j)
    case Nil
    then show ?case by (simp add: loop_unfold)
  next
    case (Cons b bs)
    then obtain k r where k: "cur = b" "0 < b" "?m b = Some k" "nxt k = Some r" "lseg ?m r bs 0" by auto
    have b: "as ! length ds = b" using Cons.prems(1) by simp
    show ?case
      using Cons.IH [of "ds @ [b]" r "length ds"] Cons.prems(1) k b
      by (subst loop_unfold) (auto simp: ld_ok get_next_def init_ptr_def)
  qed
  from this [of "[]" as head 0] c assms(2) show ?thesis
    by (cases as) (auto simp: searchNode_def l)
qed

lemma spot_less: "spot n xs i p = Some k \<Longrightarrow> p \<le> i \<Longrightarrow> k < i + length xs"
  by (induction xs arbitrary: i p) (auto split: if_splits, fastforce+)

lemma spot_member:
  "n \<in> set xs \<Longrightarrow> sorted xs \<Longrightarrow> \<exists>ys zs. xs = ys @ n # zs \<and> n \<notin> set ys \<and> spot n xs i p = Some (i + length ys)"
proof (induction xs arbitrary: i p)
  case (Cons x xs)
  show ?case
  proof (cases "x = n")
    case True
    then show ?thesis by (intro exI [of _ "[]"] exI [of _ xs]) simp
  next
    case False
    with Cons obtain ys zs where "xs = ys @ n # zs" "n \<notin> set ys" "spot n xs (Suc i) i = Some (Suc i + length ys)"
      by (metis set_ConsD sorted_simps(2))
    moreover have "x < n" using Cons.prems False by auto
    ultimately show ?thesis using False by (intro exI [of _ "x # ys"] exI [of _ zs]) simp
  qed
qed simp

text \<open>An absent value between the first and the last element: the last smaller cell.\<close>

lemma spot_between:
  "sorted (x # xs) \<Longrightarrow> n \<notin> set (x # xs) \<Longrightarrow> x < n \<Longrightarrow> n < last (x # xs) \<Longrightarrow>
   \<exists>ys y zs. x # xs = ys @ y # zs \<and> spot n (x # xs) i p = Some (i + length ys) \<and>
     (\<forall>a \<in> set (ys @ [y]). a < n) \<and> (\<forall>a \<in> set zs. n < a) \<and> zs \<noteq> []"
proof (induction xs arbitrary: x i p)
  case (Cons z zs)
  show ?case
  proof (cases "z < n")
    case True
    have "\<exists>ys y us. z # zs = ys @ y # us \<and> spot n (z # zs) (Suc i) i = Some (Suc i + length ys) \<and>
        (\<forall>a \<in> set (ys @ [y]). a < n) \<and> (\<forall>a \<in> set us. n < a) \<and> us \<noteq> []"
      by (rule Cons.IH) (use Cons.prems True in auto)
    then obtain ys y us where u: "z # zs = ys @ y # us" "spot n (z # zs) (Suc i) i = Some (Suc i + length ys)"
        "\<forall>a \<in> set (ys @ [y]). a < n" "\<forall>a \<in> set us. n < a" "us \<noteq> []" by blast
    moreover have "spot n (x # z # zs) i p = spot n (z # zs) (Suc i) i"
      using Cons.prems by (subst spot.simps) auto
    ultimately show ?thesis using Cons.prems(3)
      by (intro exI [of _ "x # ys"] exI [of _ y] exI [of _ us]) simp
  next
    case False
    with Cons.prems show ?thesis by (intro exI [of _ "[]"] exI [of _ x] exI [of _ "z # zs"]) auto
  qed
qed simp

lemma spot_above: "\<forall>a \<in> set xs. a < n \<Longrightarrow> spot n xs i p = None"
  by (induction xs arbitrary: i p) auto

lemma spot_betweenE:
  assumes "sorted xs" "n \<notin> set xs" "xs \<noteq> []" "hd xs < n" "n < last xs"
  obtains ys y zs where "xs = ys @ y # zs" "spot n xs 0 0 = Some (length ys)"
    "\<forall>a \<in> set (ys @ [y]). a < n" "\<forall>a \<in> set zs. n < a" "zs \<noteq> []"
proof -
  obtain x us where xs: "xs = x # us" using assms(3) by (cases xs) auto
  have "\<exists>ys y zs. xs = ys @ y # zs \<and> spot n xs 0 0 = Some (0 + length ys) \<and>
     (\<forall>a \<in> set (ys @ [y]). a < n) \<and> (\<forall>a \<in> set zs. n < a) \<and> zs \<noteq> []"
    unfolding xs by (rule spot_between) (use assms xs in auto)
  then show thesis using that by auto
qed

section \<open>Insertion and deletion at the cell found\<close>

text \<open>Both loops walk to the cell that was found; \<open>walk\<close> is what they have in common.\<close>

lemma insert_at_spot:
  assumes "glist_rep l as xs" "searchNode n l = ok (as ! i)" "i < length as"
  shows "wp (insertNode n l) (\<lambda>l'. \<exists>as'. glist_rep l' as' (take (Suc i) xs @ n # drop (Suc i) xs))"
proof -
  obtain h head where l: "l = (h, head)" by force
  define ds b cs where "ds = take i as" and "b = as ! i" and "cs = drop (Suc i) as"
  have as: "as = ds @ b # cs" "length ds = i" using assms(3) by (auto simp: ds_def b_def cs_def id_take_nth_drop)
  have c: "chain h head (ds @ b # cs)" using assms(1) as by (simp add: glist_rep_def l)
  have xs: "xs = along data (cells h) (ds @ b # cs)" using assms(1) as by (simp add: glist_rep_def l)
  obtain h1 q where al: "alloc h \<lparr>nxt = None, data = n\<rparr> = (h1, q)" by force
  have ok: "heap_ok h" using c by (simp add: chain_def)
  note f = alloc_frame [OF ok al]
  have q: "cells h1 q = Some \<lparr>nxt = None, data = n\<rparr>" "0 < q" "q \<notin> set (ds @ b # cs)"
    "chain h1 head (ds @ b # cs)" "along data (cells h1) (ds @ b # cs) = xs"
    using f(2,3) f(4) [OF c] f(5) [OF c] f(6) [OF c, of data] xs by simp_all
  have d: "distinct (ds @ b # cs)" by (rule chain_distinct [OF c])
  from q(4) obtain k r where k: "cells h1 b = Some k" "0 < b" "nxt k = Some r" by (auto simp: chain_def)
  let ?h2 = "put h1 q (\<lparr>nxt = Some r, data = n\<rparr>)"
  have bq: "b \<noteq> q" using q(3) by auto
  have c2: "chain ?h2 head (ds @ b # cs)" by (rule put_frame) (use q in auto)
  have "cells ?h2 b = Some k" "cells ?h2 q = Some \<lparr>nxt = Some r, data = n\<rparr>" using k bq by auto
  note ins = chain_insert [OF c2 this(1) k(3) this(2) _ q(3)]
  let ?h3 = "put ?h2 b (k\<lparr>nxt := Some q\<rparr>)"
  have "along data (cells ?h3) (ds @ b # q # cs) = take (Suc i) xs @ n # drop (Suc i) xs"
  proof -
    have "along data (cells ?h2) (ds @ [b]) = along data (cells h1) (ds @ [b])"
      "along data (cells ?h2) cs = along data (cells h1) cs" using q(3) by auto
    moreover have "take (Suc i) xs = along data (cells h1) (ds @ [b])" "drop (Suc i) xs = along data (cells h1) cs"
      using as(2) by (auto simp: q(5) [symmetric])
    ultimately show ?thesis using ins(2) [of data] by simp
  qed
  moreover have "chain ?h3 head (ds @ b # q # cs)" using ins(1) by simp
  moreover have "wp (loop (\<lambda>cur. if cur = null then ok (Inr (h1, head))
       else if cur = b then
         bnd (get_next h1 cur) (\<lambda>r. bnd (set_next h1 q r) (\<lambda>h.
         bnd (set_next h cur q) (\<lambda>h. ok (Inr (h, head)))))
       else bnd (get_next h1 cur) (\<lambda>r. ok (Inl r))) head) (\<lambda>l'. l' = (?h3, head))"
  proof (rule wp_loop_list [where xs = "ds @ [b]" and
      I = "\<lambda>xs cur. xs \<noteq> [] \<and> last xs = b \<and> distinct xs \<and> lseg (cells h1) cur (xs @ cs) 0"])
    fix x xs cur
    assume I: "x # xs \<noteq> [] \<and> last (x # xs) = b \<and> distinct (x # xs) \<and> lseg (cells h1) cur ((x # xs) @ cs) 0"
    show "wp (if cur = null then ok (Inr (h1, head))
       else if cur = b then
         bnd (get_next h1 cur) (\<lambda>r. bnd (set_next h1 q r) (\<lambda>h.
         bnd (set_next h cur q) (\<lambda>h. ok (Inr (h, head)))))
       else bnd (get_next h1 cur) (\<lambda>r. ok (Inl r)))
       (\<lambda>r. case r of Inl cur \<Rightarrow> xs \<noteq> [] \<and> last xs = b \<and> distinct xs \<and> lseg (cells h1) cur (xs @ cs) 0
          | Inr l' \<Rightarrow> l' = (?h3, head))"
      using I k q bq by (cases xs) auto
  qed (use q(4) d in \<open>auto simp: chain_def\<close>)
  ultimately show ?thesis
    using assms(2) unfolding b_def [symmetric]
    by (auto simp: insertNode_def l al glist_rep_def elim!: wp_conseq)
qed

lemma delete_at_spot:
  assumes "glist_rep l as xs" "searchNode n l = ok (as ! i)" "i < length as"
  shows "wp (deleteNode n l) (\<lambda>(t, l'). t = [] \<and> (\<exists>as'. glist_rep l' as' (take i xs @ drop (Suc i) xs)))"
proof -
  obtain h head where l: "l = (h, head)" by force
  define ds a cs where "ds = take i as" and "a = as ! i" and "cs = drop (Suc i) as"
  have as: "as = ds @ a # cs" "length ds = i" using assms(3) by (auto simp: ds_def a_def cs_def id_take_nth_drop)
  have c: "chain h head (ds @ a # cs)" using assms(1) as by (simp add: glist_rep_def l)
  have xs: "xs = along data (cells h) (ds @ a # cs)" using assms(1) as by (simp add: glist_rep_def l)
  have rest: "along data (cells h) ds @ along data (cells h) cs = take i xs @ drop (Suc i) xs"
    using as(2) by (auto simp: xs)
  have a0: "0 < a" using c by (auto simp: chain_def)
  show ?thesis
  proof (cases ds rule: rev_cases)
    case Nil
    with c rest assms(2) a0 show ?thesis unfolding a_def [symmetric]
      by (auto simp: deleteNode_def l glist_rep_def elim!: chain_ConsE)
  next
    case (snoc es b)
    have c': "chain h head (es @ b # a # cs)" using c snoc by simp
    obtain k m r where k: "cells h b = Some k" "0 < b" "nxt k = Some a" "cells h a = Some m" "0 < a"
        "nxt m = Some r" "a \<noteq> b"
      using c' by (rule chain_splitE)
    have d: "distinct (es @ b # a # cs)" by (rule chain_distinct [OF c'])
    have ha: "head \<noteq> a" using c' d by (cases es) (auto simp: chain_def)
    let ?h = "put h b (k\<lparr>nxt := Some r\<rparr>)"
    note u = chain_unlink [OF c' k(1,4,6)]
    have "wp (loop (\<lambda>(cur, prev). if cur = null then ok (Inr ([], (h, head)))
       else if cur = a then
         bnd (get_next h cur) (\<lambda>r. bnd (set_next h prev r) (\<lambda>h. ok (Inr ([], (h, head)))))
       else bnd (get_next h cur) (\<lambda>r. ok (Inl (r, cur)))) (head, head)) (\<lambda>x. x = ([], (?h, head)))"
    proof (rule wp_loop_list [where xs = "es @ [b, a]" and
        I = "\<lambda>xs (cur, prev). xs \<noteq> [] \<and> last (prev # butlast xs) = b \<and> last xs = a \<and> distinct xs \<and>
          lseg (cells h) cur (xs @ cs) 0"])
      show "case (head, head) of (cur, prev) \<Rightarrow> es @ [b, a] \<noteq> [] \<and>
          last (prev # butlast (es @ [b, a])) = b \<and> last (es @ [b, a]) = a \<and>
          distinct (es @ [b, a]) \<and> lseg (cells h) cur ((es @ [b, a]) @ cs) 0"
        using c' d by (auto simp: chain_def butlast_append)
    next
      fix x xs s
      assume I: "case s of (cur, prev) \<Rightarrow> x # xs \<noteq> [] \<and> last (prev # butlast (x # xs)) = b \<and>
          last (x # xs) = a \<and> distinct (x # xs) \<and> lseg (cells h) cur ((x # xs) @ cs) 0"
      obtain cur prev where s: "s = (cur, prev)" by force
      show "wp (case s of (cur, prev) \<Rightarrow> if cur = null then ok (Inr ([], (h, head)))
         else if cur = a then
           bnd (get_next h cur) (\<lambda>r. bnd (set_next h prev r) (\<lambda>h. ok (Inr ([], (h, head)))))
         else bnd (get_next h cur) (\<lambda>r. ok (Inl (r, cur))))
         (\<lambda>r. case r of Inl s \<Rightarrow> (case s of (cur, prev) \<Rightarrow> xs \<noteq> [] \<and> last (prev # butlast xs) = b \<and>
             last xs = a \<and> distinct xs \<and> lseg (cells h) cur (xs @ cs) 0)
            | Inr x \<Rightarrow> x = ([], (?h, head)))"
      proof (cases "xs = []")
        case True
        with I k show ?thesis by (auto simp: s)
      next
        case False
        then have "last xs \<in> set xs" by simp
        with I False have "x \<noteq> a" "last xs = a" by (auto simp: s)
        with I False show ?thesis by (auto simp: s)
      qed
    qed simp
    then show ?thesis
      using assms(2) ha a0 u(1) u(3) [of data] rest snoc unfolding a_def [symmetric]
      by (auto simp: deleteNode_def l glist_rep_def elim!: wp_conseq intro!: exI [of _ "es @ b # cs"])
  qed
qed

section \<open>The operations on a sorted list\<close>

lemma glist_lengths: "glist_rep l as xs \<Longrightarrow> length as = length xs"
  by (auto simp: glist_rep_def)

lemma insert_at:
  assumes "glist_rep l as xs" "xs \<noteq> []" "spot n xs 0 0 = Some i"
  shows "wp (insertNode n l) (\<lambda>l'. \<exists>as'. glist_rep l' as' (take (Suc i) xs @ n # drop (Suc i) xs))"
proof (rule insert_at_spot [OF assms(1)])
  have "as \<noteq> []" using assms(1,2) glist_lengths by fastforce
  then show "searchNode n l = ok (as ! i)" using searchNode_spot [OF assms(1)] assms(3) by simp
  show "i < length as" using spot_less [OF assms(3)] glist_lengths [OF assms(1)] by simp
qed

lemma delete_at:
  assumes "glist_rep l as xs" "xs \<noteq> []" "spot n xs 0 0 = Some i"
  shows "wp (deleteNode n l) (\<lambda>(t, l'). t = [] \<and> (\<exists>as'. glist_rep l' as' (take i xs @ drop (Suc i) xs)))"
proof (rule delete_at_spot [OF assms(1)])
  have "as \<noteq> []" using assms(1,2) glist_lengths by fastforce
  then show "searchNode n l = ok (as ! i)" using searchNode_spot [OF assms(1)] assms(3) by simp
  show "i < length as" using spot_less [OF assms(3)] glist_lengths [OF assms(1)] by simp
qed

lemma insort_position:
  "sorted (ys @ zs) \<Longrightarrow> \<forall>a \<in> set ys. a \<le> n \<Longrightarrow> \<forall>a \<in> set zs. n \<le> a \<Longrightarrow> ys @ n # zs = insort n (ys @ zs)"
  for n :: int
proof -
  assume s: "sorted (ys @ zs)" and *: "\<forall>a \<in> set ys. a \<le> n" "\<forall>a \<in> set zs. n \<le> a"
  have "sorted (ys @ n # zs)" using s * by (auto simp: sorted_append)
  then have "ys @ n # zs = sort (n # ys @ zs)" by (rule sort_unique) simp
  then show ?thesis using s by (simp add: sorted_sort_id)
qed

lemma spot_insort:
  assumes "sorted xs" "xs \<noteq> []" "hd xs \<le> n" "n \<le> last xs"
  shows "\<exists>i. spot n xs 0 0 = Some i \<and> take (Suc i) xs @ n # drop (Suc i) xs = insort n xs"
proof (cases "n \<in> set xs")
  case True
  then obtain ys zs where s: "xs = ys @ n # zs" "spot n xs 0 0 = Some (length ys)"
    using spot_member [OF True assms(1), of 0 0] by auto
  have "(ys @ [n]) @ n # zs = insort n ((ys @ [n]) @ zs)"
    by (rule insort_position) (use assms(1) s in \<open>auto simp: sorted_append\<close>)
  with s show ?thesis by (auto intro!: exI [of _ "length ys"])
next
  case False
  then have "hd xs \<noteq> n" "last xs \<noteq> n" using assms(2) hd_in_set last_in_set by metis+
  then obtain ys y zs where s: "xs = ys @ y # zs" "spot n xs 0 0 = Some (length ys)"
      "\<forall>a \<in> set (ys @ [y]). a < n" "\<forall>a \<in> set zs. n < a"
    using spot_betweenE [OF assms(1) False assms(2)] assms(3,4) by (metis order.not_eq_order_implies_strict)
  have "(ys @ [y]) @ n # zs = insort n ((ys @ [y]) @ zs)"
    by (rule insort_position) (use assms(1) s in \<open>auto simp: order.strict_implies_order\<close>)
  with s show ?thesis by (auto intro!: exI [of _ "length ys"])
qed

text \<open>Deleting an absent value that lies between two elements deletes the smaller of them.\<close>

lemma spot_delete_absent:
  assumes "sorted xs" "n \<notin> set xs" "xs \<noteq> []" "hd xs < n" "n < last xs"
  shows "\<exists>i ys y zs. spot n xs 0 0 = Some i \<and> xs = ys @ y # zs \<and> y < n \<and> (\<forall>a \<in> set zs. n < a) \<and>
     take i xs @ drop (Suc i) xs = ys @ zs"
proof -
  obtain ys y zs where "xs = ys @ y # zs" "spot n xs 0 0 = Some (length ys)"
      "\<forall>a \<in> set (ys @ [y]). a < n" "\<forall>a \<in> set zs. n < a"
    by (rule spot_betweenE [OF assms])
  then show ?thesis by (intro exI [of _ "length ys"] exI [of _ ys] exI [of _ y] exI [of _ zs]) auto
qed

lemma spot_delete_member:
  assumes "sorted xs" "n \<in> set xs"
  shows "\<exists>i. spot n xs 0 0 = Some i \<and> take i xs @ drop (Suc i) xs = remove1 n xs"
proof -
  obtain ys zs where s: "xs = ys @ n # zs" "n \<notin> set ys" "spot n xs 0 0 = Some (length ys)"
    using spot_member [OF assms(2,1), of 0 0] by auto
  then show ?thesis by (auto simp: remove1_append intro!: exI [of _ "length ys"])
qed

lemma addNode2_rep:
  assumes "list_at data (fst l) (snd l) xs"
  shows "wp (addNode2 n l) (\<lambda>l'. list_at data (fst l') (snd l') (xs @ [n]))"
proof -
  obtain h head where l: "l = (h, head)" by force
  obtain h' p where a: "alloc h \<lparr>nxt = Some null, data = n\<rparr> = (h', p)" by force
  show ?thesis
  proof (cases "xs = []")
    case True
    with assms a show ?thesis
      by (auto simp: addNode2_def l intro: list_at_single dest: list_at_NilE list_at_heap_ok)
  next
    case False
    with assms have "head \<noteq> 0" by (auto simp: l dest: list_at_empty_iff)
    with assms a list_at_link_last [of data h head xs, OF _ False _ a] show ?thesis
      by (simp add: addNode2_def l)
  qed
qed

section \<open>Properties\<close>

text \<open>
  \<open>insertNode\<close> on a list in ascending order puts a number between the first and the
  last one at its place (the result is \<open>insort\<close>); a number below the first one is put second,
  and one above the last one makes the search reach its end without a return value.
\<close>

theorem insertNode_sorted:
  assumes "glist_rep l as xs" "sorted xs" "xs \<noteq> []"
  shows "(hd xs \<le> n \<and> n \<le> last xs \<longrightarrow> wp (insertNode n l) (\<lambda>l'. \<exists>as'. glist_rep l' as' (insort n xs))) \<and>
     (n < hd xs \<longrightarrow> wp (insertNode n l) (\<lambda>l'. \<exists>as'. glist_rep l' as' (hd xs # n # tl xs))) \<and>
     (last xs < n \<longrightarrow> insertNode n l = fail Missing_Return)"
proof (intro conjI impI)
  assume "hd xs \<le> n \<and> n \<le> last xs"
  then obtain i where "spot n xs 0 0 = Some i" "take (Suc i) xs @ n # drop (Suc i) xs = insort n xs"
    using spot_insort [OF assms(2,3)] by blast
  with insert_at [OF assms(1,3)] show "wp (insertNode n l) (\<lambda>l'. \<exists>as'. glist_rep l' as' (insort n xs))" by metis
next
  assume "n < hd xs"
  then have "spot n xs 0 0 = Some 0" using assms(3) by (cases xs) auto
  from insert_at [OF assms(1,3) this] assms(3)
  show "wp (insertNode n l) (\<lambda>l'. \<exists>as'. glist_rep l' as' (hd xs # n # tl xs))" by (cases xs) auto
next
  assume n: "last xs < n"
  have "a < n" if "a \<in> set xs" for a
  proof -
    from that obtain i where "i < length xs" "a = xs ! i" by (auto simp: in_set_conv_nth)
    then have "a \<le> last xs" using assms(2,3) by (simp add: last_conv_nth sorted_nth_mono)
    with n show ?thesis by simp
  qed
  then have "spot n xs 0 0 = None" by (intro spot_above) blast
  moreover have "as \<noteq> []" using assms(1,3) by (auto simp: glist_rep_def)
  ultimately have "searchNode n l = fail Missing_Return" using searchNode_spot [OF assms(1)] by simp
  then show "insertNode n l = fail Missing_Return" by (simp add: insertNode_def case_prod_unfold)
qed

lemma insertNode_sorted_witness:
  "wp (insertNode 30 (heap_of [10, 20, 40])) (\<lambda>l'. \<exists>as'. glist_rep l' as' [10, 20, 30, 40])"
proof -
  from heap_of_list [of "[10, 20, 40::int]"] obtain as where "glist_rep (heap_of [10, 20, 40]) as [10, 20, 40]"
    by (auto simp: glist_rep_def list_at_def)
  from insertNode_sorted [OF this, of 30] show ?thesis by simp
qed

text \<open>
  \<open>deleteNode\<close> on a list in ascending order removes the first occurrence of a number of
  the list; for a number that is absent but between two others it removes the greatest smaller
  number instead of reporting that there is no such node.
\<close>

theorem deleteNode_sorted:
  assumes "glist_rep l as xs" "sorted xs" "xs \<noteq> []"
  shows "(n \<in> set xs \<longrightarrow> wp (deleteNode n l) (\<lambda>(t, l'). t = [] \<and> (\<exists>as'. glist_rep l' as' (remove1 n xs)))) \<and>
     (n \<notin> set xs \<and> hd xs < n \<and> n < last xs \<longrightarrow> (\<exists>ys y zs. xs = ys @ y # zs \<and> y < n \<and> (\<forall>z \<in> set zs. n < z) \<and>
        wp (deleteNode n l) (\<lambda>(t, l'). t = [] \<and> (\<exists>as'. glist_rep l' as' (ys @ zs)))))"
proof (intro conjI impI)
  assume "n \<in> set xs"
  then obtain i where i: "spot n xs 0 0 = Some i" "take i xs @ drop (Suc i) xs = remove1 n xs"
    using spot_delete_member [OF assms(2)] by blast
  show "wp (deleteNode n l) (\<lambda>(t, l'). t = [] \<and> (\<exists>as'. glist_rep l' as' (remove1 n xs)))"
    using delete_at [OF assms(1,3) i(1)] unfolding i(2) .
next
  assume n: "n \<notin> set xs \<and> hd xs < n \<and> n < last xs"
  with spot_delete_absent [OF assms(2) _ assms(3)] obtain i ys y zs where s: "spot n xs 0 0 = Some i"
      "xs = ys @ y # zs" "y < n" "\<forall>a \<in> set zs. n < a" "take i xs @ drop (Suc i) xs = ys @ zs"
    by blast
  with delete_at [OF assms(1,3) s(1), unfolded s(5)]
  show "\<exists>ys y zs. xs = ys @ y # zs \<and> y < n \<and> (\<forall>z \<in> set zs. n < z) \<and>
        wp (deleteNode n l) (\<lambda>(t, l'). t = [] \<and> (\<exists>as'. glist_rep l' as' (ys @ zs)))"
    by blast
qed

lemma deleteNode_sorted_witness:
  "wp (deleteNode 20 (heap_of [10, 20, 40])) (\<lambda>(t, l'). t = [] \<and> (\<exists>as'. glist_rep l' as' [10, 40]))"
proof -
  from heap_of_list [of "[10, 20, 40::int]"] obtain as where "glist_rep (heap_of [10, 20, 40]) as [10, 20, 40]"
    by (auto simp: glist_rep_def list_at_def)
  from deleteNode_sorted [OF this, of 20] show ?thesis by simp
qed

end
