(* ===== verification/List_Union.thy ===== *)
theory List_Union
  imports List_Stack
begin

text \<open>
  \<open>DataStructure/linked_list/example9.cxx\<close>: the union and the intersection of two linked
  lists, built as a new list.  The functions take the heap and the heads they are given;
  \<open>built\<close> says that a new list has been made and the old cells are as they were.
\<close>

type_synonym iheap = "int element heap"

definition add9 :: "int \<Rightarrow> iheap \<times> ptr \<Rightarrow> (iheap \<times> ptr) run" where
  "add9 n = (\<lambda>(h, head).
     let (h, no) = alloc h \<lparr>nxt = Some null, data = n\<rparr> in
     if head = null then ok (h, no) else bnd (link_last h head no) (\<lambda>h. ok (h, head)))"

definition isDuplicate :: "iheap \<Rightarrow> ptr \<Rightarrow> int \<Rightarrow> bool run" where
  "isDuplicate h head n = bnd (find_cell (\<lambda>k. data k = n) h head) (\<lambda>p. ok (p \<noteq> null))"

text \<open>\<open>curB = curB->next\<close> stands after the inner loop, and \<open>curA = curA->next\<close> after the outer one.\<close>

definition intersect_inner :: "ptr \<Rightarrow> ptr \<Rightarrow> iheap \<times> ptr \<Rightarrow> (iheap \<times> ptr) run" where
  "intersect_inner curA curB =
     while_run (\<lambda>(h, result). ok (curB \<noteq> null))
       (\<lambda>(h, result). bnd (ld h curA) (\<lambda>a. bnd (ld h curB) (\<lambda>b.
          if data a = data b then add9 (data a) (h, result) else ok (h, result))))"

definition getIntersection :: "iheap \<Rightarrow> ptr \<Rightarrow> ptr \<Rightarrow> (iheap \<times> ptr) run" where
  "getIntersection h headA headB =
     (if headA = null \<or> headB = null then ok (h, null)
      else
        bnd (while_run (\<lambda>(s, curB). ok (headA \<noteq> null))
               (\<lambda>(s, curB). bnd (intersect_inner headA curB s) (\<lambda>(h, result).
                  bnd (get_next h curB) (\<lambda>q. ok ((h, result), q)))) ((h, null), headB))
          (\<lambda>((h, result), curB). bnd (get_next h headA) (\<lambda>curA. ok (h, result))))"

definition getUnion :: "iheap \<Rightarrow> ptr \<Rightarrow> ptr \<Rightarrow> (iheap \<times> ptr) run" where
  "getUnion h headA headB =
     (if headA = null \<and> headB = null then ok (h, null)
      else
        bnd (while_run (\<lambda>((h, result), cur). ok (cur \<noteq> null))
               (\<lambda>((h, result), cur). bnd (ld h cur) (\<lambda>k. bnd (add9 (data k) (h, result)) (\<lambda>(h, result).
                  bnd (get_next h cur) (\<lambda>q. ok ((h, result), q))))) ((h, null), headA)) (\<lambda>(s, cur).
        bnd (while_run (\<lambda>((h, result), cur). ok (cur \<noteq> null))
               (\<lambda>((h, result), cur). bnd (ld h cur) (\<lambda>k.
                  bnd (isDuplicate h result (data k)) (\<lambda>dup.
                  bnd (if \<not> dup then add9 (data k) (h, result) else ok (h, result)) (\<lambda>(h, result).
                  bnd (get_next h cur) (\<lambda>q. ok ((h, result), q)))))) (s, headB)) (\<lambda>(s, cur).
        ok s)))"

definition display9 :: "iheap \<Rightarrow> ptr \<Rightarrow> string run" where
  "display9 h head = (if head = null then ok []
     else bnd (print_cells (\<lambda>n. dec (data n) @ '' '') h head) (\<lambda>t. ok (t @ nl)))"

definition add_all9 :: "int list \<Rightarrow> iheap \<times> ptr \<Rightarrow> (iheap \<times> ptr) run" where
  "add_all9 xs = for_each add9 xs"

definition example9_main :: "string run" where
  "example9_main =
     bnd (add_all9 [10, 20, 30, 40, 50, 60, 70] (empty_heap, null)) (\<lambda>(h, listA).
     bnd (display9 h listA) (\<lambda>t1.
     bnd (add_all9 [10, 30, 50, 70, 90, 110, 130] (h, null)) (\<lambda>(h, listB).
     bnd (display9 h listB) (\<lambda>t2.
     bnd (getIntersection h listA listB) (\<lambda>(h, inters).
     bnd (display9 h inters) (\<lambda>t3.
     bnd (getUnion h listA listB) (\<lambda>(h, un).
     bnd (display9 h un) (\<lambda>t4.
     ok (''List A: '' @ t1 @ ''List B: '' @ t2 @ ''Intersection of A and B: '' @ t3 @
         ''Union of A and B: '' @ t4)))))))))"

section \<open>Building a list\<close>

definition built :: "iheap \<Rightarrow> iheap \<times> ptr \<Rightarrow> int list \<Rightarrow> bool" where
  "built h0 = (\<lambda>(h, r) xs. \<exists>rs. chain h r rs \<and> along data (cells h) rs = xs \<and>
     (\<forall>a \<in> dom (cells h0). cells h a = cells h0 a) \<and> (\<forall>b \<in> set rs. brk h0 \<le> b) \<and> brk h0 \<le> brk h)"

lemma built_Nil [simp]: "heap_ok h \<Longrightarrow> built h (h, 0) []"
  by (simp add: built_def)

lemma built_old: "built h0 (h, r) xs \<Longrightarrow> cells h0 a = Some n \<Longrightarrow> cells h a = Some n"
proof -
  assume "built h0 (h, r) xs" and a: "cells h0 a = Some n"
  then have "\<forall>a \<in> dom (cells h0). cells h a = cells h0 a" by (auto simp: built_def)
  from bspec [OF this, of a] a show ?thesis by auto
qed

lemma built_null_iff: "built h0 (h, r) xs \<Longrightarrow> r = 0 \<longleftrightarrow> xs = []"
  by (auto simp: built_def chain_def dest: lseg_start_null)

lemma built_chain: "built h0 (h, r) xs \<Longrightarrow> heap_ok h0 \<Longrightarrow> chain h0 p as \<Longrightarrow>
    chain h p as \<and> along data (cells h) as = along data (cells h0) as"
proof
  assume b: "built h0 (h, r) xs" "heap_ok h0" and c: "chain h0 p as"
  have same: "a \<in> set as \<Longrightarrow> cells h a = cells h0 a" for a
    using b(1) c lseg_dom [of "cells h0" p as 0 a] by (auto simp: built_def chain_def)
  show "chain h p as"
    using c b lseg_cong [of as "cells h" "cells h0", OF same] by (auto simp: chain_def built_def)
  show "along data (cells h) as = along data (cells h0) as"
    by (rule along_cong) (rule same)
qed

lemma add9_built:
  assumes "built h0 s xs" "heap_ok h0"
  shows "wp (add9 n s) (\<lambda>s'. built h0 s' (xs @ [n]))"
proof -
  obtain h r where s: "s = (h, r)" by force
  from assms(1) obtain rs where rs: "chain h r rs" "along data (cells h) rs = xs"
      "\<forall>a \<in> dom (cells h0). cells h a = cells h0 a" "\<forall>b \<in> set rs. brk h0 \<le> b" "brk h0 \<le> brk h"
    by (auto simp: built_def s)
  have ok: "heap_ok h" using rs(1) by (simp add: chain_def)
  obtain h1 p where al: "alloc h \<lparr>nxt = Some null, data = n\<rparr> = (h1, p)" by force
  have p: "p = brk h" "cells h1 = (cells h)(p \<mapsto> \<lparr>nxt = Some null, data = n\<rparr>)" "brk h1 = Suc (brk h)"
      "0 < p"
    using al ok by (auto simp: alloc_def put_def)
  have old: "a < brk h0" if "cells h0 a = Some m" for a m
    using that assms(2) by (auto simp: heap_ok_def)
  note f = alloc_frame [OF ok al]
  show ?thesis
  proof (cases "rs = []")
    case True
    with rs have "r = 0" "xs = []" by auto
    have "chain h1 p [p]" using f(1,3) p(4) by (simp add: chain_def)
    moreover have "\<forall>a \<in> dom (cells h0). cells h1 a = cells h0 a"
    proof
      fix a assume "a \<in> dom (cells h0)"
      moreover from this have "a < brk h0" using old by auto
      ultimately show "cells h1 a = cells h0 a" using rs(3,5) p by auto
    qed
    ultimately have "built h0 (h1, p) [n]"
      unfolding built_def using p rs(5) by (auto intro!: exI [of _ "[p]"])
    with \<open>r = 0\<close> \<open>xs = []\<close> al show ?thesis by (simp add: add9_def s)
  next
    case False
    note c = chain_snoc [OF rs(1) False _ al]
    have last: "last rs \<in> set rs" using False by simp
    have r0: "r \<noteq> 0" using rs(1) False by (auto simp: chain_def dest: lseg_start_null)
    have keep: "\<forall>a \<in> dom (cells h0). cells (linked_last h1 rs p) a = cells h0 a"
    proof
      fix a assume a: "a \<in> dom (cells h0)"
      then have "a < brk h0" using old by auto
      moreover have "brk h0 \<le> last rs" using rs(4) last by blast
      ultimately show "cells (linked_last h1 rs p) a = cells h0 a"
        using rs(3,5) a p by (auto simp: linked_last_def)
    qed
    have "built h0 (linked_last h1 rs p, r) (xs @ [n])"
      unfolding built_def prod.case
      by (rule exI [of _ "rs @ [p]"])
        (use c(1) c(2) [of data] keep rs p in \<open>auto simp: linked_last_def\<close>)
    with r0 link_last_chain [OF c(3) False] al show ?thesis by (simp add: add9_def s)
  qed
qed

lemma add_all9_built:
  assumes "built h0 s xs" "heap_ok h0"
  shows "wp (add_all9 ys s) (\<lambda>s'. built h0 s' (xs @ ys))"
  unfolding add_all9_def
  by (rule wp_for_each [where I = "\<lambda>zs s'. built h0 s' (xs @ zs)"])
    (use assms add9_built in \<open>force+\<close>)

lemma isDuplicate_built:
  assumes "built h0 (h, r) xs"
  shows "isDuplicate h r n = ok (n \<in> set xs)"
proof -
  from assms obtain rs where rs: "lseg (cells h) r rs 0" "xs = along data (cells h) rs"
    by (auto simp: built_def chain_def)
  show ?thesis
  proof (cases "find (\<lambda>a. data (the (cells h a)) = n) rs")
    case None
    with find_along_None [of "\<lambda>x. x = n" data "cells h" rs] rs show ?thesis
      by (auto simp: isDuplicate_def find_cell_chain)
  next
    case (Some a)
    then obtain bs cs where "rs = bs @ a # cs" "data (the (cells h a)) = n"
      by (rule find_along_Some [of "\<lambda>x. x = n" data "cells h"])
    with rs have "n \<in> set xs" "0 < a" by auto
    with Some rs show ?thesis by (auto simp: isDuplicate_def find_cell_chain)
  qed
qed

section \<open>The intersection never ends\<close>

lemma intersect_inner_diverges:
  assumes "built h0 s xs" "heap_ok h0" "cells h0 curA = Some a" "cells h0 curB = Some b" "0 < curA" "0 < curB"
  shows "intersect_inner curA curB s = None"
  unfolding intersect_inner_def while_run_def
proof (rule loop_diverges [where I = "\<lambda>s. \<exists>xs. built h0 s xs"])
  fix s assume "\<exists>xs. built h0 s xs"
  then obtain h r xs where s: "s = (h, r)" "built h0 (h, r) xs" by (cases s) auto
  have "ld h curA = ok a" "ld h curB = ok b"
    using built_old [OF s(2)] assms by (auto intro!: ld_ok)
  with add9_built [OF s(2) assms(2), of "data a"] s assms(6)
  show "\<exists>s'. bnd (case s of (h, result) \<Rightarrow> ok (curB \<noteq> null)) (\<lambda>t. if t then
      bnd (case s of (h, result) \<Rightarrow> bnd (ld h curA) (\<lambda>a. bnd (ld h curB) (\<lambda>b.
        if data a = data b then add9 (data a) (h, result) else ok (h, result)))) (\<lambda>s'. ok (Inl s'))
      else ok (Inr s)) = ok (Inl s') \<and> (\<exists>xs. built h0 s' xs)"
    by (auto simp: wp_iff)
qed (use assms in blast)

lemma getIntersection_diverges:
  assumes "heap_ok h" "cells h a = Some k" "cells h b = Some l" "0 < a" "0 < b"
  shows "getIntersection h a b = None"
proof -
  have "intersect_inner a b (h, 0) = None"
    by (rule intersect_inner_diverges [where xs = "[]"]) (use assms in auto)
  with assms(4,5) show ?thesis by (simp add: getIntersection_def while_run_unfold)
qed

section \<open>The union\<close>

fun union_of :: "int list \<Rightarrow> int list \<Rightarrow> int list" where
  "union_of xs [] = xs"
| "union_of xs (y # ys) = union_of (if y \<in> set xs then xs else xs @ [y]) ys"

lemma set_union_of [simp]: "set (union_of xs ys) = set xs \<union> set ys"
  by (induction xs ys rule: union_of.induct) auto

lemma distinct_union_of [simp]: "distinct (union_of xs ys) \<longleftrightarrow> distinct xs"
  by (induction xs ys rule: union_of.induct) auto

lemma next_built:
  assumes "built h0 s xs" "0 < x" "cells h0 x = Some n" "nxt n = Some q"
  shows "wp ((\<lambda>(h, result). bnd (get_next h x) (\<lambda>q. ok ((h, result), q))) s)
     (\<lambda>(s, cur). cur = q \<and> built h0 s xs)"
proof -
  obtain h r where s: "s = (h, r)" by force
  with assms built_old [of h0 h r xs x n] show ?thesis by simp
qed

lemma getUnion_built:
  assumes "chain h a as" "chain h b bs"
  shows "wp (getUnion h a b)
     (\<lambda>s. built h s (union_of (along data (cells h) as) (along data (cells h) bs)))"
proof (cases "a = 0 \<and> b = 0")
  case True
  with assms show ?thesis by (auto simp: getUnion_def)
next
  case False
  have ok: "heap_ok h" using assms(1) by (simp add: chain_def)
  let ?A = "along data (cells h) as" and ?B = "along data (cells h) bs"
  have loopA: "wp (while_run (\<lambda>((h, result), cur). ok (cur \<noteq> null))
     (\<lambda>((h, result), cur). bnd (ld h cur) (\<lambda>k. bnd (add9 (data k) (h, result)) (\<lambda>(h, result).
        bnd (get_next h cur) (\<lambda>q. ok ((h, result), q))))) ((h, null), a)) (\<lambda>(s, cur). built h s ?A)"
  proof (rule wp_while_list [where xs = as and I = "\<lambda>xs (s, cur).
      \<exists>ys. as = ys @ xs \<and> lseg (cells h) cur xs 0 \<and> built h s (along data (cells h) ys)"])
    fix x xs s assume "case s of (s, cur) \<Rightarrow>
      \<exists>ys. as = ys @ x # xs \<and> lseg (cells h) cur (x # xs) 0 \<and> built h s (along data (cells h) ys)"
    then obtain h1 r ys n q where s: "s = ((h1, r), x)" "as = ys @ x # xs" "0 < x" "cells h x = Some n"
        "nxt n = Some q" "lseg (cells h) q xs 0" "built h (h1, r) (along data (cells h) ys)"
      by (cases s) auto
    have "wp (add9 (data n) (h1, r)) (\<lambda>s. built h s (along data (cells h) (ys @ [x])))"
      using add9_built [OF s(7) ok, of "data n"] s(4) by simp
    then have "wp (bnd (add9 (data n) (h1, r)) (\<lambda>(h, result).
          bnd (get_next h x) (\<lambda>q. ok ((h, result), q))))
        (\<lambda>(s, cur). cur = q \<and> built h s (along data (cells h) (ys @ [x])))"
      unfolding wp_bnd by (rule wp_conseq) (rule next_built [OF _ s(3,4,5)])
    moreover have "cells h1 x = Some n" using built_old [OF s(7,4)] .
    ultimately show "wp ((\<lambda>((h, result), cur). ok (cur \<noteq> null)) s) (\<lambda>t. if t then
        wp ((\<lambda>((h, result), cur). bnd (ld h cur) (\<lambda>k. bnd (add9 (data k) (h, result)) (\<lambda>(h, result).
          bnd (get_next h cur) (\<lambda>q. ok ((h, result), q))))) s)
        (\<lambda>(s, cur). \<exists>ys. as = ys @ xs \<and> lseg (cells h) cur xs 0 \<and> built h s (along data (cells h) ys))
        else case s of (s, cur) \<Rightarrow> built h s ?A)"
      using s by (force elim!: wp_conseq)
  qed (use assms ok in \<open>auto simp: chain_def\<close>)
  have loopB: "wp (while_run (\<lambda>((h, result), cur). ok (cur \<noteq> null))
     (\<lambda>((h, result), cur). bnd (ld h cur) (\<lambda>k.
        bnd (isDuplicate h result (data k)) (\<lambda>dup.
        bnd (if \<not> dup then add9 (data k) (h, result) else ok (h, result)) (\<lambda>(h, result).
        bnd (get_next h cur) (\<lambda>q. ok ((h, result), q)))))) (s0, b)) (\<lambda>(s, cur). built h s (union_of ?A ?B))"
    if "built h s0 ?A" for s0
  proof (rule wp_while_list [where xs = bs and I = "\<lambda>xs (s, cur).
      \<exists>zs. lseg (cells h) cur xs 0 \<and> built h s zs \<and> union_of zs (along data (cells h) xs) = union_of ?A ?B"])
    fix x xs s assume "case s of (s, cur) \<Rightarrow> \<exists>zs. lseg (cells h) cur (x # xs) 0 \<and> built h s zs \<and>
        union_of zs (along data (cells h) (x # xs)) = union_of ?A ?B"
    then obtain h1 r zs n q where s: "s = ((h1, r), x)" "0 < x" "cells h x = Some n"
        "nxt n = Some q" "lseg (cells h) q xs 0" "built h (h1, r) zs"
        "union_of zs (data n # along data (cells h) xs) = union_of ?A ?B"
      by (cases s) (auto simp del: union_of.simps)
    let ?zs = "if data n \<in> set zs then zs else zs @ [data n]"
    have "wp (if data n \<notin> set zs then add9 (data n) (h1, r) else ok (h1, r)) (\<lambda>s. built h s ?zs)"
      using add9_built [OF s(6) ok, of "data n"] s(6) by simp
    then have "wp (bnd (if data n \<notin> set zs then add9 (data n) (h1, r) else ok (h1, r)) (\<lambda>(h, result).
          bnd (get_next h x) (\<lambda>q. ok ((h, result), q)))) (\<lambda>(s, cur). cur = q \<and> built h s ?zs)"
      unfolding wp_bnd by (rule wp_conseq) (rule next_built [OF _ s(2,3,4)])
    moreover have "cells h1 x = Some n" using built_old [OF s(6,3)] .
    ultimately show "wp ((\<lambda>((h, result), cur). ok (cur \<noteq> null)) s) (\<lambda>t. if t then
        wp ((\<lambda>((h, result), cur). bnd (ld h cur) (\<lambda>k.
          bnd (isDuplicate h result (data k)) (\<lambda>dup.
          bnd (if \<not> dup then add9 (data k) (h, result) else ok (h, result)) (\<lambda>(h, result).
          bnd (get_next h cur) (\<lambda>q. ok ((h, result), q)))))) s)
        (\<lambda>(s, cur). \<exists>zs. lseg (cells h) cur xs 0 \<and> built h s zs \<and>
           union_of zs (along data (cells h) xs) = union_of ?A ?B)
        else case s of (s, cur) \<Rightarrow> built h s (union_of ?A ?B))"
      using s by (cases "data n \<in> set zs") (force simp: isDuplicate_built [OF s(6)] elim!: wp_conseq)+
  qed (use assms that in \<open>auto simp: chain_def\<close>)
  have "getUnion h a b =
        bnd (while_run (\<lambda>((h, result), cur). ok (cur \<noteq> null))
               (\<lambda>((h, result), cur). bnd (ld h cur) (\<lambda>k. bnd (add9 (data k) (h, result)) (\<lambda>(h, result).
                  bnd (get_next h cur) (\<lambda>q. ok ((h, result), q))))) ((h, null), a)) (\<lambda>(s, cur).
        bnd (while_run (\<lambda>((h, result), cur). ok (cur \<noteq> null))
               (\<lambda>((h, result), cur). bnd (ld h cur) (\<lambda>k.
                  bnd (isDuplicate h result (data k)) (\<lambda>dup.
                  bnd (if \<not> dup then add9 (data k) (h, result) else ok (h, result)) (\<lambda>(h, result).
                  bnd (get_next h cur) (\<lambda>q. ok ((h, result), q)))))) (s, b)) (\<lambda>(s, cur).
        ok s))"
    using False by (auto simp: getUnion_def)
  then show ?thesis
    by (simp only: wp_bnd)
      (rule wp_conseq [OF loopA], simp only: split_paired_all prod.case wp_bnd wp_ok,
       rule wp_conseq [OF loopB], auto)
qed

section \<open>Properties\<close>

text \<open>
  example9's \<open>getUnion\<close> builds a new list with the elements of the first list followed
  by those of the second that are not there yet (each once), and leaves both arguments as they
  were.
\<close>

theorem getUnion_correct:
  assumes "list_at data h a xs" "list_at data h b ys"
  shows "wp (getUnion h a b) (\<lambda>(h', r). list_at data h' r (union_of xs ys) \<and>
     list_at data h' a xs \<and> list_at data h' b ys) \<and>
     set (union_of xs ys) = set xs \<union> set ys \<and> (distinct xs \<longrightarrow> distinct (union_of xs ys))"
proof (intro conjI impI)
  from assms obtain as bs where as: "chain h a as" "along data (cells h) as = xs"
      and bs: "chain h b bs" "along data (cells h) bs = ys" by (auto simp: list_at_def)
  have ok: "heap_ok h" using as(1) by (simp add: chain_def)
  have "list_at data h' r (union_of xs ys) \<and> list_at data h' a xs \<and> list_at data h' b ys"
    if g: "built h (h', r) (union_of xs ys)" for h' r
  proof (intro conjI)
    show "list_at data h' r (union_of xs ys)" using g by (auto simp: built_def list_at_def)
    show "list_at data h' a xs" "list_at data h' b ys"
      using built_chain [OF g ok as(1)] built_chain [OF g ok bs(1)] as(2) bs(2) by (auto simp: list_at_def)
  qed
  with as bs show "wp (getUnion h a b) (\<lambda>(h', r). list_at data h' r (union_of xs ys) \<and>
     list_at data h' a xs \<and> list_at data h' b ys)"
    by (intro wp_conseq [OF getUnion_built [OF as(1) bs(1)]]) auto
qed simp_all

lemma getUnion_correct_witness:
  "wp (getUnion (fst (heap_of [10, 30 :: int])) (snd (heap_of [10, 30 :: int])) (snd (heap_of [10, 30 :: int])))
     (\<lambda>(h', r). list_at data h' r [10, 30])"
  using getUnion_correct [OF heap_of_list heap_of_list, of "[10, 30]"]
  by (auto elim!: wp_conseq)

text \<open>
  \<open>getIntersection\<close> never returns for two lists that are not empty: its inner loop does
  not advance.  (The comment at the head of example9 quotes an intersection as output.)
\<close>

theorem getIntersection_never_returns:
  assumes "list_at data h a xs" "list_at data h b ys" "xs \<noteq> []" "ys \<noteq> []"
  shows "getIntersection h a b = None"
proof -
  have "\<exists>k. 0 < p \<and> cells h p = Some k" if "list_at data h p zs" "zs \<noteq> []" for p and zs :: "int list"
    using that by (cases zs) (auto elim: list_at_ConsE)
  with assms list_at_heap_ok [OF assms(1)] show ?thesis by (meson getIntersection_diverges)
qed

lemma getIntersection_never_returns_witness:
  "getIntersection (fst (heap_of [10 :: int])) (snd (heap_of [10 :: int])) (snd (heap_of [10 :: int])) = None"
  using getIntersection_never_returns [OF heap_of_list heap_of_list, of "[10]"] by simp

end
