(* ===== verification/List_Circular.thy ===== *)
theory List_Circular
  imports List_Stack
begin

text \<open>
  \<open>DataStructure/linked_list/example5.cxx\<close>: the class template \<open>LinkedList\<close> that can be
  closed into a cycle, with a two-pointer test for it.  An object is the heap with the value
  of \<open>head\<close>.  \<open>null_path\<close> and \<open>lasso\<close> are the two shapes a finite heap allows from a
  pointer; the test tells them apart.
\<close>

type_synonym 'a llist = "'a element heap \<times> ptr"

definition LinkedList5 :: "'a element heap \<Rightarrow> 'a llist" where
  "LinkedList5 h = (h, null)"

definition destroy5 :: "'a llist \<Rightarrow> 'a llist run" where
  "destroy5 = (\<lambda>(h, p). if p = null then ok (h, p) else free_list h p)"

definition add5 :: "'a \<Rightarrow> 'a llist \<Rightarrow> 'a llist run" where
  "add5 d = (\<lambda>(h, head).
     if head = null then ok (alloc h \<lparr>nxt = Some null, data = d\<rparr>)
     else bnd (while_run (\<lambda>p. bnd (get_next h p) (\<lambda>q. ok (q \<noteq> null))) (\<lambda>p. get_next h p) head) (\<lambda>p.
       let (h, q) = alloc h \<lparr>nxt = Some null, data = d\<rparr> in
       bnd (set_next h p q) (\<lambda>h. ok (h, head))))"

text \<open>The pointer \<open>q\<close> to the cell before is not assigned before the first round ends.\<close>

definition remove5 :: "'a \<Rightarrow> 'a llist \<Rightarrow> 'a llist run" where
  "remove5 d = (\<lambda>(h, head).
     if head = null then ok (h, head)
     else loop (\<lambda>(p, q). if p = null then ok (Inr (h, head))
       else bnd (ld h p) (\<lambda>n.
         if data n = d then
           bnd (init_ptr q) (\<lambda>q. bnd (get_next h p) (\<lambda>r. bnd (set_next h q r) (\<lambda>h.
           bnd (dispose h p) (\<lambda>h. ok (Inr (h, head))))))
         else bnd (get_next h p) (\<lambda>r. ok (Inl (r, Some p))))) (head, None))"

definition clear5 :: "'a llist \<Rightarrow> 'a llist run" where
  "clear5 = (\<lambda>(h, head).
     if head = null then ok (h, head)
     else loop (\<lambda>(h, p). if p = null then ok (Inr (h, head))
       else bnd (get_next h p) (\<lambda>q. bnd (dispose h p) (\<lambda>h.
         if q \<noteq> head then ok (Inr (h, null)) else ok (Inl (h, q))))) (h, head))"

definition makeCircular :: "'a llist \<Rightarrow> 'a llist run" where
  "makeCircular = (\<lambda>(h, head).
     if head = null then ok (h, head)
     else bnd (get_next h head) (\<lambda>r. if r = null then ok (h, head)
       else bnd (link_last h head head) (\<lambda>h. ok (h, head))))"

definition isCircular :: "'a llist \<Rightarrow> bool run" where
  "isCircular = (\<lambda>(h, head).
     if head = null then ok False
     else bnd (get_next h head) (\<lambda>r. if r = null then ok False
       else loop (\<lambda>(p, pp). if pp = null then ok (Inr False)
         else bnd (get_next h p) (\<lambda>p.
           bnd (get_next h pp) (\<lambda>q. if q = null then ok (Inr False)
             else bnd (get_next h q) (\<lambda>pp.
               if p = pp then ok (Inr True) else ok (Inl (p, pp)))))) (head, head)))"

text \<open>
  \<open>display(s)\<close> compares the pointer \<open>s\<close> with string literals; \<open>is_string\<close> and
  \<open>is_integer\<close> are the outcomes of the two comparisons, \<open>sh\<close> is \<open>operator<<\<close> of \<open>T\<close>.
\<close>

definition display5 :: "('a \<Rightarrow> string) \<Rightarrow> bool \<Rightarrow> bool \<Rightarrow> 'a llist \<Rightarrow> string run" where
  "display5 sh is_string is_integer = (\<lambda>(h, head).
     if head = null then ok []
     else loop (\<lambda>(p, t). if p = null then ok (Inr (t @ (if is_integer then nl else [])))
       else bnd (ld h p) (\<lambda>n. bnd (get_next h p) (\<lambda>q.
         let t = t @ sh (data n) @ (if is_string then nl else '' '') in
         if q \<noteq> null \<and> q = head then ok (Inr t) else ok (Inl (q, t))))) (head, []))"

definition add_all5 :: "'a list \<Rightarrow> 'a llist \<Rightarrow> 'a llist run" where
  "add_all5 xs = for_each add5 xs"

definition example5_main :: "string run" where
  "example5_main =
     bnd (add_all5 [''Wolfgang Amadeus Mozart'', ''Franz Peter Schubert'', ''Pyotr Ilyich Tchaikovsky'',
            ''Clude-Achille Debussy'', ''Camille Saint-Saens''] (LinkedList5 empty_heap)) (\<lambda>sList.
     bnd (display5 (\<lambda>s. s) True False sList) (\<lambda>t1.
     bnd (clear5 sList) (\<lambda>sList.
     bnd (add_all5 [40, 50, 60, 70, 80, 90, 100, 10, 20, 30] (LinkedList5 empty_heap)) (\<lambda>iList.
     bnd (display5 dec False True iList) (\<lambda>t2.
     bnd (makeCircular iList) (\<lambda>iList.
     bnd (isCircular iList) (\<lambda>c.
     bnd (display5 dec False True iList) (\<lambda>t3.
     bnd (clear5 iList) (\<lambda>iList.
     bnd (display5 dec False True iList) (\<lambda>t4.
     ok (t1 @ t2 @ (if c then ''This is circular list'' @ nl else []) @ t3 @ nl @
         ''display after clear()'' @ nl @ t4)))))))))))"

section \<open>The two shapes\<close>

definition lasso :: "'n link_scheme heap \<Rightarrow> ptr \<Rightarrow> ptr list \<Rightarrow> ptr list \<Rightarrow> bool" where
  "lasso h p as bs \<longleftrightarrow> bs \<noteq> [] \<and> (\<exists>r. lseg (cells h) p as r \<and> lseg (cells h) r bs r)"

text \<open>The pointer after \<open>i\<close> steps.\<close>

definition hop :: "'n link_scheme heap \<Rightarrow> ptr \<Rightarrow> nat \<Rightarrow> ptr" where
  "hop h p i = ((\<lambda>a. the (nxt (the (cells h a)))) ^^ i) p"

lemma hop_0 [simp]: "hop h p 0 = p"
  by (simp add: hop_def)

lemma hop_Suc: "hop h p (Suc i) = the (nxt (the (cells h (hop h p i))))"
  by (simp add: hop_def)

lemma hop_add: "hop h p (i + j) = hop h (hop h p i) j"
  by (simp add: hop_def funpow_add add.commute [of i])

lemma lseg_hop: "lseg (cells h) p as q \<Longrightarrow> i < length as \<Longrightarrow> hop h p i = as ! i \<and>
    0 < hop h p i \<and> get_next h (hop h p i) = ok (hop h p (Suc i))"
proof (induction as arbitrary: p i)
  case (Cons a as)
  then obtain n r where n: "p = a" "0 < a" "cells h a = Some n" "nxt n = Some r" "lseg (cells h) r as q" by auto
  have s: "hop h p (Suc j) = hop h r j" for j
    using hop_add [of h p 1 j] n by (simp add: hop_Suc)
  show ?case
  proof (cases i)
    case 0
    with n s [of 0] show ?thesis by (simp add: get_next_def ld_ok init_ptr_def)
  next
    case (Suc j)
    with Cons.IH [OF n(5), of j] Cons.prems s show ?thesis by auto
  qed
qed simp

lemma lseg_hop_end: "lseg (cells h) p as q \<Longrightarrow> hop h p (length as) = q"
proof (induction as arbitrary: p)
  case (Cons a as)
  then obtain n r where "p = a" "cells h a = Some n" "nxt n = Some r" "lseg (cells h) r as q" by auto
  with Cons.IH [of r] hop_add [of h p 1 "length as"] show ?case by (simp add: hop_Suc)
qed simp

lemma lasso_periodic:
  assumes "lasso h p as bs" "length as \<le> i"
  shows "hop h p (i + k * length bs) = hop h p i"
proof -
  from assms(1) obtain r where r: "lseg (cells h) p as r" "lseg (cells h) r bs r" by (auto simp: lasso_def)
  have once: "hop h p (i + length bs) = hop h p i" if "length as \<le> i" for i
  proof -
    obtain j where i: "i = length as + j" using \<open>length as \<le> i\<close> le_Suc_ex by blast
    have "hop h p (i + length bs) = hop h r (length bs + j)"
      using hop_add [of h p "length as" "length bs + j"] lseg_hop_end [OF r(1)] by (simp add: i ac_simps)
    also have "\<dots> = hop h r j" using hop_add [of h r "length bs" j] lseg_hop_end [OF r(2)] by simp
    also have "\<dots> = hop h p i" using hop_add [of h p "length as" j] lseg_hop_end [OF r(1)] by (simp add: i)
    finally show ?thesis .
  qed
  show ?thesis
  proof (induction k)
    case (Suc k)
    from once [of "i + k * length bs"] Suc assms(2) show ?case by (simp add: ac_simps)
  qed simp
qed

lemma lasso_live:
  assumes "lasso h p as bs"
  shows "0 < hop h p i \<and> get_next h (hop h p i) = ok (hop h p (Suc i))"
proof (cases "i < length as")
  case True
  with assms show ?thesis by (auto simp: lasso_def dest: lseg_hop)
next
  case False
  from assms obtain r where r: "lseg (cells h) p as r" "lseg (cells h) r bs r" "bs \<noteq> []" by (auto simp: lasso_def)
  define j where "j = (i - length as) mod length bs"
  have j: "j < length bs" using r(3) by (simp add: j_def)
  have "i = length as + j + (i - length as) div length bs * length bs"
    using False by (simp add: j_def)
  then have e: "hop h p i = hop h p (length as + j)" "hop h p (Suc i) = hop h p (Suc (length as + j))"
    using lasso_periodic [OF assms, of "length as + j"] lasso_periodic [OF assms, of "Suc (length as + j)"]
    by (metis le_add1, metis add_Suc le_SucI le_add1)
  have "hop h p (length as + k) = hop h r k" for k
    using hop_add [of h p "length as" k] lseg_hop_end [OF r(1)] by simp
  from this [of j] this [of "Suc j"] lseg_hop [OF r(2) j] show ?thesis by (auto simp: e)
qed

section \<open>The two-pointer test\<close>

text \<open>On a lasso the pointers meet: after \<open>k\<close> rounds, for a multiple \<open>k\<close> of the cycle.\<close>

lemma isCircular_lasso:
  assumes "lasso h p as bs"
  shows "isCircular (h, p) = ok True"
proof -
  let ?s = "hop h p"
  define K where "K = length bs * Suc (length as)"
  have "bs \<noteq> []" using assms by (simp add: lasso_def)
  then have K: "0 < K" "length as \<le> K" by (simp_all add: K_def) (cases "length bs"; simp)
  have "Suc (length as) * length bs = K" by (simp only: K_def mult.commute)
  then have meet: "?s K = ?s (2 * K)"
    using lasso_periodic [OF assms K(2), of "Suc (length as)"] by (simp only: mult_2)
  have live: "?s i \<noteq> 0" "get_next h (?s i) = ok (?s (Suc i))" for i
    using lasso_live [OF assms, of i] by auto
  have "wp (loop (\<lambda>(p, pp). if pp = null then ok (Inr False)
         else bnd (get_next h p) (\<lambda>p.
           bnd (get_next h pp) (\<lambda>q. if q = null then ok (Inr False)
             else bnd (get_next h q) (\<lambda>pp.
               if p = pp then ok (Inr True) else ok (Inl (p, pp)))))) (p, p)) (\<lambda>b. b)"
  proof (rule wp_loop_list [where xs = "replicate K ()" and
      I = "\<lambda>xs (p, pp). \<exists>k. k + length xs = K \<and> p = ?s k \<and> pp = ?s (2 * k) \<and> xs \<noteq> []"])
    fix x xs s assume "case s of (p, pp) \<Rightarrow> \<exists>k. k + length (x # xs) = K \<and> p = ?s k \<and> pp = ?s (2 * k) \<and> x # xs \<noteq> []"
    then obtain k where s: "s = (?s k, ?s (2 * k))" "Suc k + length xs = K" by (cases s) auto
    have last: "?s (Suc k) = ?s (2 * Suc k)" if "xs = []" using meet s(2) that by auto
    have two: "2 * Suc k = Suc (Suc (2 * k))" by simp
    have "xs = [] \<or> (\<exists>k'. k' + length xs = K \<and> ?s (Suc k) = ?s k' \<and> ?s (2 * Suc k) = ?s (2 * k') \<and> xs \<noteq> [])"
      using s(2) by blast
    with last show "wp (case s of (p, pp) \<Rightarrow> if pp = null then ok (Inr False)
         else bnd (get_next h p) (\<lambda>p.
           bnd (get_next h pp) (\<lambda>q. if q = null then ok (Inr False)
             else bnd (get_next h q) (\<lambda>pp.
               if p = pp then ok (Inr True) else ok (Inl (p, pp))))))
       (\<lambda>r. case r of Inl s' \<Rightarrow> (case s' of (p, pp) \<Rightarrow> \<exists>k. k + length xs = K \<and> p = ?s k \<and> pp = ?s (2 * k) \<and> xs \<noteq> [])
          | Inr b \<Rightarrow> b)"
      unfolding s(1) two by (auto simp: live simp del: wp_get_next)
  qed (use K in auto)
  then obtain b where "loop (\<lambda>(p, pp). if pp = null then ok (Inr False)
         else bnd (get_next h p) (\<lambda>p.
           bnd (get_next h pp) (\<lambda>q. if q = null then ok (Inr False)
             else bnd (get_next h q) (\<lambda>pp.
               if p = pp then ok (Inr True) else ok (Inl (p, pp)))))) (p, p) = ok b" b
    by (auto simp: wp_iff)
  with live(1) [of 0] live(2) [of 0] live(1) [of 1] show ?thesis
    by (simp add: isCircular_def)
qed

lemma isCircular_chain:
  assumes "chain h p as"
  shows "isCircular (h, p) = ok False"
proof -
  let ?s = "hop h p"
  have l: "lseg (cells h) p as 0" using assms by (simp add: chain_def)
  note hop = lseg_hop [OF l]
  have e: "?s (length as) = 0" by (rule lseg_hop_end [OF l])
  have null: "?s i = 0 \<longleftrightarrow> i = length as" if "i \<le> length as" for i
    using that hop [of i] e by (cases "i = length as") auto
  have apart: "?s i \<noteq> ?s j" if "i < j" "j \<le> length as" for i j
  proof (cases "j = length as")
    case False
    with that hop [of i] hop [of j] chain_distinct [OF assms] show ?thesis
      by (simp add: nth_eq_iff_index_eq)
  qed (use that hop [of i] e in auto)
  have "wp (loop (\<lambda>(p, pp). if pp = null then ok (Inr False)
         else bnd (get_next h p) (\<lambda>p.
           bnd (get_next h pp) (\<lambda>q. if q = null then ok (Inr False)
             else bnd (get_next h q) (\<lambda>pp.
               if p = pp then ok (Inr True) else ok (Inl (p, pp)))))) (p, p)) (\<lambda>b. \<not> b)"
  proof (rule wp_loop [where I = "\<lambda>(p, pp). \<exists>k. 2 * k \<le> length as \<and> p = ?s k \<and> pp = ?s (2 * k)" and
      m = "\<lambda>(p, pp). length as - (LEAST i. pp = ?s i)"])
    show "case (p, p) of (p', pp) \<Rightarrow> \<exists>k. 2 * k \<le> length as \<and> p' = ?s k \<and> pp = ?s (2 * k)"
      by (auto intro!: exI [of _ 0])
  next
    fix s assume "case s of (p, pp) \<Rightarrow> \<exists>k. 2 * k \<le> length as \<and> p = ?s k \<and> pp = ?s (2 * k)"
    then obtain k where s: "s = (?s k, ?s (2 * k))" "2 * k \<le> length as" by (cases s) auto
    have least: "(LEAST i. ?s j = ?s i) = j" if "j \<le> length as" for j
      using that apart by (intro Least_equality) (auto, metis apart leI)
    show "wp (case s of (p, pp) \<Rightarrow> if pp = null then ok (Inr False)
         else bnd (get_next h p) (\<lambda>p.
           bnd (get_next h pp) (\<lambda>q. if q = null then ok (Inr False)
             else bnd (get_next h q) (\<lambda>pp.
               if p = pp then ok (Inr True) else ok (Inl (p, pp))))))
       (\<lambda>r. case r of Inl s' \<Rightarrow> (case s' of (p, pp) \<Rightarrow> \<exists>k. 2 * k \<le> length as \<and> p = ?s k \<and> pp = ?s (2 * k)) \<and>
            (case s' of (p, pp) \<Rightarrow> length as - (LEAST i. pp = ?s i))
              < (case s of (p, pp) \<Rightarrow> length as - (LEAST i. pp = ?s i))
          | Inr b \<Rightarrow> \<not> b)"
    proof (cases "Suc (2 * k) < length as")
      case True
      have "2 * Suc k = Suc (Suc (2 * k))" by simp
      moreover have "?s (Suc k) \<noteq> ?s (2 * Suc k)" by (rule apart) (use True in auto)
      ultimately show ?thesis
        using True hop [of k] hop [of "2 * k"] hop [of "Suc (2 * k)"] null [of "Suc (2 * k)"]
          least [of "2 * k"] least [of "2 * Suc k"]
        by (auto simp: s(1) intro!: exI [of _ "Suc k"] simp del: wp_get_next)
    next
      case False
      with s(2) consider "2 * k = length as" | "Suc (2 * k) = length as" by linarith
      then show ?thesis
      proof cases
        case 1
        with e show ?thesis by (simp add: s(1))
      next
        case 2
        with hop [of k] hop [of "2 * k"] e show ?thesis by (auto simp: s(1) simp del: wp_get_next)
      qed
    qed
  qed
  moreover have "get_next h p = ok (?s 1)" if "p \<noteq> 0" using that hop [of 0] l by (cases as) auto
  ultimately show ?thesis
    by (auto simp: isCircular_def wp_iff)
qed

section \<open>The other members\<close>

abbreviation add5_last :: "'a element heap \<Rightarrow> ptr \<Rightarrow> ptr run" where
  "add5_last h p \<equiv> while_run (\<lambda>p. bnd (get_next h p) (\<lambda>q. ok (q \<noteq> null))) (\<lambda>p. get_next h p) p"

lemma add5_last_chain:
  assumes "lseg (cells h) p as 0" "as \<noteq> []"
  shows "add5_last h p = ok (last as)"
proof -
  have "wp (add5_last h p) (\<lambda>a. a = last as)"
  proof (rule wp_while_list [where xs = as and
      I = "\<lambda>bs cur. lseg (cells h) cur bs 0 \<and> bs \<noteq> [] \<and> last bs = last as"])
    fix x xs cur assume I: "lseg (cells h) cur (x # xs) 0 \<and> x # xs \<noteq> [] \<and> last (x # xs) = last as"
    then show "wp (bnd (get_next h cur) (\<lambda>q. ok (q \<noteq> null))) (\<lambda>t. if t then
        wp (get_next h cur) (\<lambda>cur. lseg (cells h) cur xs 0 \<and> xs \<noteq> [] \<and> last xs = last as) else cur = last as)"
      using lseg_start_null by (cases xs) auto
  qed (use assms in auto)
  then show ?thesis by (simp add: wp_eq_ok)
qed

definition llist_rep :: "'a llist \<Rightarrow> 'a list \<Rightarrow> bool" where
  "llist_rep = (\<lambda>(h, head). list_at data h head)"

lemma add5_rep:
  assumes "llist_rep l xs"
  shows "wp (add5 d l) (\<lambda>l'. llist_rep l' (xs @ [d]))"
proof -
  obtain h head where l: "l = (h, head)" by force
  obtain h' q where a: "alloc h \<lparr>nxt = Some null, data = d\<rparr> = (h', q)" by force
  show ?thesis
  proof (cases "xs = []")
    case True
    with assms a show ?thesis
      by (auto simp: add5_def l llist_rep_def intro: list_at_single dest: list_at_NilE list_at_heap_ok)
  next
    case False
    with assms obtain as where as: "chain h head as" "along data (cells h) as = xs" "as \<noteq> []"
      by (auto simp: l llist_rep_def list_at_def)
    have p0: "head \<noteq> 0" using assms False by (auto simp: l llist_rep_def dest: list_at_empty_iff)
    note c = chain_snoc [OF as(1,3) _ a]
    have "lseg (cells h) head as 0" using as(1) by (simp add: chain_def)
    note last = add5_last_chain [OF this as(3)]
    obtain n where "cells h' (last as) = Some n" "0 < last as"
      using lseg_last [OF c(3) as(3)] by auto
    then have "wp (set_next h' (last as) q) (\<lambda>h''. h'' = linked_last h' as q)"
      by (simp add: linked_last_def)
    moreover have "llist_rep (linked_last h' as q, head) (xs @ [d])"
      using c(1) c(2) [of data] as(2) by (auto simp: llist_rep_def list_at_def)
    ultimately show ?thesis
      using p0 a last by (auto simp: add5_def l wp_eq_ok)
  qed
qed

lemma remove5_first:
  assumes "llist_rep l (x # xs)"
  shows "remove5 x l = fail Uninitialised"
proof -
  obtain h head where l: "l = (h, head)" by force
  from assms obtain n where "0 < head" "cells h head = Some n" "data n = x"
    by (auto simp: l llist_rep_def elim: list_at_ConsE)
  then show ?thesis by (simp add: remove5_def l loop_unfold ld_ok init_ptr_def)
qed

lemma remove5_chain:
  assumes "chain h p (bs @ b # a # cs)" "data (the (cells h a)) = d" "d \<notin> set (along data (cells h) (bs @ [b]))"
    and "cells h b = Some n" "cells h a = Some k" "nxt k = Some r"
  shows "remove5 d (h, p) = ok (del (put h b (n\<lparr>nxt := Some r\<rparr>)) a, p)"
proof -
  let ?h = "del (put h b (n\<lparr>nxt := Some r\<rparr>)) a"
  have l: "lseg (cells h) p (bs @ b # a # cs) 0" using assms(1) by (simp add: chain_def)
  have d: "distinct (bs @ b # a # cs)" by (rule chain_distinct [OF assms(1)])
  have p0: "p \<noteq> 0" using l by (cases bs) auto
  have "wp (loop (\<lambda>(p', q). if p' = null then ok (Inr (h, p))
       else bnd (ld h p') (\<lambda>n.
         if data n = d then
           bnd (init_ptr q) (\<lambda>q. bnd (get_next h p') (\<lambda>r. bnd (set_next h q r) (\<lambda>h.
           bnd (dispose h p') (\<lambda>h. ok (Inr (h, p))))))
         else bnd (get_next h p') (\<lambda>r. ok (Inl (r, Some p'))))) (p, None)) (\<lambda>l'. l' = (?h, p))"
  proof (rule wp_loop_list [where xs = "bs @ [b, a]" and I = "\<lambda>xs (p', q).
      xs \<noteq> [] \<and> last xs = a \<and> (butlast xs = [] \<longrightarrow> q = Some b) \<and> (butlast xs \<noteq> [] \<longrightarrow> last (butlast xs) = b) \<and>
      d \<notin> set (along data (cells h) (butlast xs)) \<and> lseg (cells h) p' (xs @ cs) 0"])
    show "case (p, None) of (p', q) \<Rightarrow> bs @ [b, a] \<noteq> [] \<and> last (bs @ [b, a]) = a \<and>
        (butlast (bs @ [b, a]) = [] \<longrightarrow> q = Some b) \<and> (butlast (bs @ [b, a]) \<noteq> [] \<longrightarrow> last (butlast (bs @ [b, a])) = b) \<and>
        d \<notin> set (along data (cells h) (butlast (bs @ [b, a]))) \<and> lseg (cells h) p' ((bs @ [b, a]) @ cs) 0"
      using assms(3) l by (simp add: butlast_append)
  next
    fix x xs s assume I: "case s of (p', q) \<Rightarrow> x # xs \<noteq> [] \<and> last (x # xs) = a \<and>
        (butlast (x # xs) = [] \<longrightarrow> q = Some b) \<and> (butlast (x # xs) \<noteq> [] \<longrightarrow> last (butlast (x # xs)) = b) \<and>
        d \<notin> set (along data (cells h) (butlast (x # xs))) \<and> lseg (cells h) p' ((x # xs) @ cs) 0"
    obtain p' q where s: "s = (p', q)" by force
    from I obtain m t where m: "p' = x" "0 < x" "cells h x = Some m" "nxt m = Some t" "lseg (cells h) t (xs @ cs) 0"
      by (auto simp: s)
    have ab: "a \<noteq> b" "0 < b" using d l by auto
    show "wp (case s of (p', q) \<Rightarrow> if p' = null then ok (Inr (h, p))
       else bnd (ld h p') (\<lambda>n.
         if data n = d then
           bnd (init_ptr q) (\<lambda>q. bnd (get_next h p') (\<lambda>r. bnd (set_next h q r) (\<lambda>h.
           bnd (dispose h p') (\<lambda>h. ok (Inr (h, p))))))
         else bnd (get_next h p') (\<lambda>r. ok (Inl (r, Some p')))))
       (\<lambda>r. case r of Inl s \<Rightarrow> (case s of (p', q) \<Rightarrow> xs \<noteq> [] \<and> last xs = a \<and>
            (butlast xs = [] \<longrightarrow> q = Some b) \<and> (butlast xs \<noteq> [] \<longrightarrow> last (butlast xs) = b) \<and>
            d \<notin> set (along data (cells h) (butlast xs)) \<and> lseg (cells h) p' (xs @ cs) 0)
          | Inr l' \<Rightarrow> l' = (?h, p))"
    proof (cases "xs = []")
      case True
      with I m assms(2,4,5,6) ab show ?thesis by (auto simp: s)
    next
      case False
      then have "butlast (x # xs) = x # butlast xs" by simp
      with I m False show ?thesis by (auto simp: s)
    qed
  qed simp
  with p0 show ?thesis by (simp add: remove5_def wp_eq_ok)
qed

lemma remove5_absent:
  assumes "llist_rep l xs" "d \<notin> set xs"
  shows "remove5 d l = ok l"
proof -
  obtain h head where l: "l = (h, head)" by force
  from assms obtain as where as: "lseg (cells h) head as 0" "d \<notin> set (along data (cells h) as)"
    by (auto simp: l llist_rep_def list_at_def chain_def)
  have "wp (loop (\<lambda>(p, q). if p = null then ok (Inr (h, head))
       else bnd (ld h p) (\<lambda>n.
         if data n = d then
           bnd (init_ptr q) (\<lambda>q. bnd (get_next h p) (\<lambda>r. bnd (set_next h q r) (\<lambda>h.
           bnd (dispose h p) (\<lambda>h. ok (Inr (h, head))))))
         else bnd (get_next h p) (\<lambda>r. ok (Inl (r, Some p))))) (head, None)) (\<lambda>l'. l' = (h, head))"
    by (rule wp_loop_list [where xs = as and I = "\<lambda>xs (p, q).
        lseg (cells h) p xs 0 \<and> d \<notin> set (along data (cells h) xs)"]) (use as in auto)
  then show ?thesis by (auto simp: remove5_def l wp_eq_ok)
qed

lemma remove5_rep:
  assumes "llist_rep l (x # xs)" "d \<in> set xs" "x \<noteq> d"
  shows "wp (remove5 d l) (\<lambda>l'. llist_rep l' (x # remove1 d xs))"
proof -
  obtain h p where l: "l = (h, p)" by force
  from assms(1) obtain as where as: "chain h p as" "along data (cells h) as = x # xs"
    by (auto simp: l llist_rep_def list_at_def)
  obtain ys zs where s: "xs = ys @ d # zs" "d \<notin> set ys" using split_list_first [OF assms(2)] by auto
  have "length as = Suc (length ys + Suc (length zs))" using arg_cong [OF as(2), of length] s(1) by simp
  then obtain bs b a cs where b: "as = bs @ b # a # cs" "length bs = length ys"
  proof (intro that)
    let ?n = "length ys"
    assume len: "length as = Suc (length ys + Suc (length zs))"
    then show "as = take ?n as @ as ! ?n # as ! Suc ?n # drop (Suc (Suc ?n)) as"
      by (metis Cons_nth_drop_Suc append_take_drop_id less_add_Suc1 add_Suc_right Suc_less_eq less_Suc_eq)
    show "length (take ?n as) = length ys" using len by simp
  qed
  have v: "along data (cells h) (bs @ [b]) = x # ys" "data (the (cells h a)) = d" "along data (cells h) cs = zs"
  proof -
    have "along data (cells h) (bs @ [b]) @ data (the (cells h a)) # along data (cells h) cs = (x # ys) @ d # zs"
      using as(2) b(1) s(1) by simp
    moreover have "length (along data (cells h) (bs @ [b])) = length (x # ys)" using b(2) by simp
    ultimately show "along data (cells h) (bs @ [b]) = x # ys" "data (the (cells h a)) = d"
        "along data (cells h) cs = zs"
      by (simp_all only: append_eq_append_conv list.inject simp_thms)
  qed
  obtain n k r where n: "cells h b = Some n" "0 < b" "nxt n = Some a" "cells h a = Some k" "0 < a"
    "nxt k = Some r" "a \<noteq> b"
    using as(1) unfolding b(1) by (rule chain_splitE)
  note u = chain_unlink [OF as(1) [unfolded b(1)] n(1,4,6)]
  have dn: "d \<notin> set (along data (cells h) (bs @ [b]))" unfolding v(1) using s(2) assms(3) by auto
  have "remove1 d xs = ys @ zs" using s by (simp add: remove1_append)
  moreover have "along data (cells h) (bs @ b # cs) = x # ys @ zs" using v by auto
  ultimately have "llist_rep (del (put h b (n\<lparr>nxt := Some r\<rparr>)) a, p) (x # remove1 d xs)"
    unfolding llist_rep_def prod.case list_at_def using u(2) u(4) [of data] by (intro exI [of _ "bs @ b # cs"]) auto
  with remove5_chain [OF as(1) [unfolded b(1)] v(2) dn n(1,4,6)] show ?thesis by (simp add: l)
qed

lemma makeCircular_lasso:
  assumes "chain h p as" "2 \<le> length as"
  shows "wp (makeCircular (h, p)) (\<lambda>(h', q). q = p \<and> lasso h' p [] as \<and>
     along data (cells h') as = along data (cells h) as)"
proof -
  have l: "lseg (cells h) p as 0" using assms(1) by (simp add: chain_def)
  have ne: "as \<noteq> []" using assms(2) by auto
  obtain a b cs where as: "as = a # b # cs" using assms(2) by (cases as; cases "tl as") auto
  then obtain n where n: "0 < p" "cells h p = Some n" "nxt n = Some b" "0 < b" using l by auto
  have "lseg (cells (linked_last h as p)) p (as @ []) p"
    using lseg_relink [OF l ne, of p "[]" p] by (simp add: linked_last_def)
  moreover obtain m where "cells h (last as) = Some m" using lseg_last [OF l ne] by auto
  then have "along data (cells (linked_last h as p)) as = along data (cells h) as"
    by (auto simp: linked_last_def along_upd_same)
  ultimately show ?thesis
    using n ne by (simp add: makeCircular_def link_last_chain [OF l ne] lasso_def)
qed

text \<open>\<open>clear\<close> deletes the first cell only and forgets the others.\<close>

lemma clear5_chain:
  assumes "chain h p as" "as \<noteq> []"
  shows "clear5 (h, p) = ok (del h p, null)"
proof -
  obtain a bs where as: "as = a # bs" using assms(2) by (cases as) auto
  obtain n q where n: "p = a" "0 < a" "cells h a = Some n" "nxt n = Some q" "chain h q bs" "a \<notin> set bs"
    using assms(1) unfolding as by (rule chain_ConsE)
  have "q \<noteq> p" using n by (cases bs) (auto simp: chain_def)
  with n show ?thesis
    by (simp add: clear5_def loop_unfold get_next_def ld_ok init_ptr_def dispose_def)
qed

lemma display5_chain:
  assumes "llist_rep l xs"
  shows "display5 sh str ends l = ok (if xs = [] then [] else
     concat (map (\<lambda>x. sh x @ (if str then nl else '' '')) xs) @ (if ends then nl else []))"
proof -
  obtain h p where l: "l = (h, p)" by force
  from assms obtain as where as: "chain h p as" "along data (cells h) as = xs"
    by (auto simp: l llist_rep_def list_at_def)
  have lp: "lseg (cells h) p as 0" using as(1) by (simp add: chain_def)
  let ?g = "\<lambda>x. sh x @ (if str then nl else '' '')"
  show ?thesis
  proof (cases "xs = []")
    case True
    with as show ?thesis by (simp add: display5_def l)
  next
    case False
    then have p0: "p \<noteq> 0" "as \<noteq> []" using lp as by (auto dest: lseg_start_null)
    have "wp (loop (\<lambda>(p', t). if p' = null then ok (Inr (t @ (if ends then nl else [])))
       else bnd (ld h p') (\<lambda>n. bnd (get_next h p') (\<lambda>q.
         let t = t @ sh (data n) @ (if str then nl else '' '') in
         if q \<noteq> null \<and> q = p then ok (Inr t) else ok (Inl (q, t))))) (p, []))
       (\<lambda>t. t = concat (map ?g xs) @ (if ends then nl else []))"
    proof (rule wp_loop_list [where xs = as and I = "\<lambda>bs (p', t). \<exists>ds. as = ds @ bs \<and>
        lseg (cells h) p' bs 0 \<and> t = concat (map ?g (along data (cells h) ds))"])
      fix b bs s assume "case s of (p', t) \<Rightarrow> \<exists>ds. as = ds @ b # bs \<and> lseg (cells h) p' (b # bs) 0 \<and>
          t = concat (map ?g (along data (cells h) ds))"
      then obtain ds n q where b: "s = (b, concat (map ?g (along data (cells h) ds)))" "as = ds @ b # bs" "0 < b"
          "cells h b = Some n" "nxt n = Some q" "lseg (cells h) q bs 0"
        by (cases s) auto
      have "\<not> (q \<noteq> null \<and> q = p)"
      proof
        assume "q \<noteq> null \<and> q = p"
        then have "bs \<noteq> []" "hd bs = hd as" using b(6) lp p0 by (cases bs; cases as; auto)+
        then show False using chain_distinct [OF as(1)] b(2) by (cases ds; cases bs) auto
      qed
      with b show "wp (case s of (p', t) \<Rightarrow> if p' = null then ok (Inr (t @ (if ends then nl else [])))
         else bnd (ld h p') (\<lambda>n. bnd (get_next h p') (\<lambda>q.
           let t = t @ sh (data n) @ (if str then nl else '' '') in
           if q \<noteq> null \<and> q = p then ok (Inr t) else ok (Inl (q, t)))))
         (\<lambda>r. case r of Inl s \<Rightarrow> (case s of (p', t) \<Rightarrow> \<exists>ds. as = ds @ bs \<and> lseg (cells h) p' bs 0 \<and>
             t = concat (map ?g (along data (cells h) ds)))
            | Inr t \<Rightarrow> t = concat (map ?g xs) @ (if ends then nl else []))"
        by (auto simp: Let_def intro!: exI [of _ "ds @ [b]"])
    qed (use lp as in auto)
    with False p0 show ?thesis by (simp add: display5_def l wp_eq_ok)
  qed
qed

section \<open>Properties\<close>

text \<open>
  C25: the two-pointer test of example5 always returns, and returns whether following the links
  from the first node ever comes back to a node already visited: \<open>true\<close> for every list that
  runs into a cycle (wherever the cycle starts), \<open>false\<close> for every null-terminated one.
\<close>

theorem isCircular_correct:
  "(lasso h p as bs \<longrightarrow> isCircular (h, p) = ok True) \<and> (chain h p as \<longrightarrow> isCircular (h, p) = ok False)"
  using isCircular_lasso isCircular_chain by blast

lemma isCircular_correct_witness:
  "isCircular (\<lparr>cells = [1 \<mapsto> \<lparr>nxt = Some 2, data = 10::int\<rparr>, 2 \<mapsto> \<lparr>nxt = Some 3, data = 20\<rparr>,
      3 \<mapsto> \<lparr>nxt = Some 2, data = 30\<rparr>], brk = 4\<rparr>, 1) = ok True"
proof -
  let ?h = "\<lparr>cells = [1 \<mapsto> \<lparr>nxt = Some 2, data = 10::int\<rparr>, 2 \<mapsto> \<lparr>nxt = Some 3, data = 20\<rparr>,
      3 \<mapsto> \<lparr>nxt = Some 2, data = 30\<rparr>], brk = 4\<rparr>"
  have "lasso ?h 1 [1] [2, 3]" by (simp add: lasso_def)
  with isCircular_correct [of ?h 1 "[1]" "[2, 3]"] show ?thesis by blast
qed

text \<open>
  \<open>makeCircular\<close> on a list of two nodes or more closes it into a cycle of the same
  nodes with the same contents, which \<open>isCircular\<close> then recognises.
\<close>

theorem makeCircular_correct:
  assumes "chain h p as" "2 \<le> length as"
  shows "wp (makeCircular (h, p)) (\<lambda>l. snd l = p \<and> lasso (fst l) p [] as \<and>
     along data (cells (fst l)) as = along data (cells h) as \<and> isCircular l = ok True)"
  by (rule wp_conseq [OF makeCircular_lasso [OF assms]]) (auto simp: isCircular_lasso)

lemma makeCircular_correct_witness:
  "wp (makeCircular (\<lparr>cells = [1 \<mapsto> \<lparr>nxt = Some 2, data = 10::int\<rparr>, 2 \<mapsto> \<lparr>nxt = Some 0, data = 20\<rparr>], brk = 3\<rparr>, 1))
     (\<lambda>l. isCircular l = ok True)"
proof -
  let ?h = "\<lparr>cells = [1 \<mapsto> \<lparr>nxt = Some 2, data = 10::int\<rparr>, 2 \<mapsto> \<lparr>nxt = Some 0, data = 20\<rparr>], brk = 3\<rparr>"
  have "chain ?h 1 [1, 2]" by (auto simp: chain_def heap_ok_def split: if_splits)
  from makeCircular_correct [OF this] show ?thesis by (auto elim: wp_conseq)
qed

text \<open>
  \<open>remove\<close> of example5 takes the first occurrence of a number out of the list and
  deletes its node, except that removing the number of the first node uses the uninitialised
  pointer to its predecessor; a number that is absent changes nothing.
\<close>

theorem remove5_correct:
  assumes "llist_rep l (x # xs)"
  shows "if d = x then remove5 d l = fail Uninitialised
     else if d \<in> set xs then wp (remove5 d l) (\<lambda>l'. llist_rep l' (x # remove1 d xs))
     else remove5 d l = ok l"
  using remove5_first [of l x xs] remove5_rep [OF assms, of d] remove5_absent [of l "x # xs" d] assms by auto

lemma remove5_correct_witness: "wp (remove5 7 (heap_of [5, 7, 7 :: int])) (\<lambda>l'. llist_rep l' [5, 7])"
proof -
  have "llist_rep (heap_of [5, 7, 7 :: int]) [5, 7, 7]"
    using heap_of_list [of "[5, 7, 7 :: int]"] by (simp add: llist_rep_def case_prod_unfold)
  from remove5_correct [OF this, of 7] show ?thesis by simp
qed

text \<open>
  \<open>clear\<close> of example5 deletes the first node only: the others stay allocated, and are
  lost because the list forgets where they are.
\<close>

theorem clear5_leaks:
  assumes "chain h p (a # as)"
  shows "clear5 (h, p) = ok (del h a, null) \<and> (\<forall>b \<in> set as. cells (del h a) b \<noteq> None)"
proof -
  obtain n q where n: "p = a" "chain h q as" "a \<notin> set as" using assms by (rule chain_ConsE)
  then have "\<forall>b \<in> set as. cells h b \<noteq> None \<and> b \<noteq> a"
    using lseg_dom [of "cells h" q as 0] by (auto simp: chain_def)
  with clear5_chain [OF assms] n show ?thesis by auto
qed

lemma clear5_leaks_witness:
  "\<exists>h p. clear5 (h, p) = ok (del h 1, null) \<and> cells (del h 1) 2 \<noteq> (None :: int element option)"
proof -
  let ?h = "\<lparr>cells = [1 \<mapsto> \<lparr>nxt = Some 2, data = 10::int\<rparr>, 2 \<mapsto> \<lparr>nxt = Some 0, data = 20\<rparr>], brk = 3\<rparr>"
  have "chain ?h 1 [1, 2]" by (auto simp: chain_def heap_ok_def split: if_splits)
  from clear5_leaks [OF this] show ?thesis by (intro exI [of _ ?h] exI [of _ 1]) simp
qed

end
