(* ===== verification/List_Named.thy ===== *)
theory List_Named
  imports Cxx_List "HOL-Library.List_Lexorder" "HOL-Library.Char_ord"
begin

text \<open>
  \<open>DataStructure/linked_list/example3.cxx\<close> (functions on the globals \<open>head\<close> and
  \<open>tail\<close>, names in \<open>char[20]\<close>) and \<open>example4.cxx\<close> (the same list as a class, names in
  \<open>std::string\<close>).  Names are compared as the library compares them, character by
  character (\<open>strcmp\<close>, \<open>std::string::operator<\<close>).
\<close>

record named = link +
  nm :: string
  ident :: int

record nlist =
  nh :: "named heap"
  headp :: ptr
  tailp :: ptr

definition empty_nlist :: nlist where
  "empty_nlist = \<lparr>nh = empty_heap, headp = null, tailp = null\<rparr>"

section \<open>The operations\<close>

text \<open>\<open>strcpy\<close> into \<open>char name[20]\<close> has room for 19 characters and the terminator.\<close>

definition initNode3 :: "string \<Rightarrow> int \<Rightarrow> nlist \<Rightarrow> (nlist \<times> ptr) run" where
  "initNode3 name i s = (let (h, p) = alloc (nh s) \<lparr>nxt = None, nm = [], ident = 0\<rparr> in
     if length name \<ge> 20 then fail Out_Of_Bounds
     else bnd (ld h p) (\<lambda>n. bnd (st h p (n\<lparr>nm := name, ident := i\<rparr>)) (\<lambda>h. ok (s\<lparr>nh := h\<rparr>, p))))"

definition addNode3 :: "ptr \<Rightarrow> nlist \<Rightarrow> nlist run" where
  "addNode3 new s =
     (let s = (if headp s = null then s\<lparr>headp := new, tailp := new\<rparr> else s) in
     bnd (set_next (nh s) (tailp s) new) (\<lambda>h.
     bnd (set_next h new null) (\<lambda>h. ok (s\<lparr>nh := h, tailp := new\<rparr>))))"

text \<open>\<open>prev = head; while (prev->next != temp) prev = prev->next;\<close>\<close>

definition find_prev :: "named heap \<Rightarrow> ptr \<Rightarrow> ptr \<Rightarrow> ptr run" where
  "find_prev h head temp =
     while_run (\<lambda>prev. bnd (get_next h prev) (\<lambda>q. ok (q \<noteq> temp))) (\<lambda>prev. get_next h prev) head"

text \<open>The cell to insert before: the first whose name is not smaller, \<open>NULL\<close> when there is none.\<close>

definition find_place :: "named heap \<Rightarrow> ptr \<Rightarrow> ptr \<Rightarrow> ptr run" where
  "find_place h head new =
     loop (\<lambda>temp. bnd (ld h temp) (\<lambda>t. bnd (ld h new) (\<lambda>k.
       if nm t < nm k then
         bnd (get_next h temp) (\<lambda>q. if q = null then ok (Inr null) else ok (Inl q))
       else ok (Inr temp)))) head"

definition insertNode3 :: "ptr \<Rightarrow> nlist \<Rightarrow> nlist run" where
  "insertNode3 new s =
     (if headp s = null then
        bnd (set_next (nh s) new null) (\<lambda>h. ok (s\<lparr>nh := h, headp := new, tailp := new\<rparr>))
      else
        bnd (find_place (nh s) (headp s) new) (\<lambda>temp.
        if temp = headp s then
          bnd (set_next (nh s) new (headp s)) (\<lambda>h. ok (s\<lparr>nh := h, headp := new\<rparr>))
        else
          bnd (find_prev (nh s) (headp s) temp) (\<lambda>prev.
          bnd (set_next (nh s) prev new) (\<lambda>h.
          bnd (set_next h new temp) (\<lambda>h.
            ok (s\<lparr>nh := h, tailp := (if tailp s = prev then new else tailp s)\<rparr>))))))"

definition search3 :: "(named \<Rightarrow> bool) \<Rightarrow> named heap \<Rightarrow> ptr \<Rightarrow> ptr run" where
  "search3 P h p =
     loop (\<lambda>p. bnd (ld h p) (\<lambda>n. if \<not> P n then
         bnd (get_next h p) (\<lambda>q. if q = null then ok (Inr null) else ok (Inl q))
       else ok (Inr p))) p"

definition searchName :: "named heap \<Rightarrow> ptr \<Rightarrow> string \<Rightarrow> ptr run" where
  "searchName h p name = search3 (\<lambda>n. name = nm n) h p"

definition searchId :: "named heap \<Rightarrow> ptr \<Rightarrow> int \<Rightarrow> ptr run" where
  "searchId h p i = search3 (\<lambda>n. i = ident n) h p"

text \<open>The reversal works on \<open>head\<close>; it does not assign to \<open>tail\<close>.\<close>

definition reverse_head3 :: "named heap \<Rightarrow> ptr \<Rightarrow> (named heap \<times> ptr) run" where
  "reverse_head3 h head =
     (if head = null then ok (h, head)
      else bnd (get_next h head) (\<lambda>me. if me = null then ok (h, head)
        else bnd (get_next h me) (\<lambda>child.
          bnd (set_next h head null) (\<lambda>h.
          bnd (reverse_loop h head me child) (\<lambda>(h, parent, me, child).
          bnd (set_next h me parent) (\<lambda>h. ok (h, me)))))))"

definition reverse3 :: "nlist \<Rightarrow> nlist run" where
  "reverse3 s = bnd (reverse_head3 (nh s) (headp s)) (\<lambda>(h, p). ok (s\<lparr>nh := h, headp := p\<rparr>))"

definition deleteNode3 :: "ptr \<Rightarrow> nlist \<Rightarrow> nlist run" where
  "deleteNode3 temp s =
     (if temp = headp s then
        bnd (get_next (nh s) (headp s)) (\<lambda>q.
        bnd (if tailp s = temp then get_next (nh s) (tailp s) else ok (tailp s)) (\<lambda>t.
        bnd (dispose (nh s) temp) (\<lambda>h. ok (s\<lparr>nh := h, headp := q, tailp := t\<rparr>))))
      else
        bnd (find_prev (nh s) (headp s) temp) (\<lambda>prev.
        bnd (get_next (nh s) temp) (\<lambda>q.
        bnd (set_next (nh s) prev q) (\<lambda>h.
        bnd (dispose h temp) (\<lambda>h.
          ok (s\<lparr>nh := h, tailp := (if tailp s = temp then prev else tailp s)\<rparr>))))))"

definition deleteList3 :: "ptr \<Rightarrow> nlist \<Rightarrow> nlist run" where
  "deleteList3 p s =
     (if headp s = null then ok s
      else
        bnd (if p = headp s then ok (s\<lparr>headp := null, tailp := null\<rparr>)
             else bnd (find_prev (nh s) (headp s) p) (\<lambda>temp. ok (s\<lparr>tailp := temp\<rparr>))) (\<lambda>s.
        bnd (free_list (nh s) p) (\<lambda>(h, q). ok (s\<lparr>nh := h\<rparr>))))"

definition show_node :: "named \<Rightarrow> string" where
  "show_node n = dec (ident n) @ '': '' @ nm n @ nl"

definition displayNode3 :: "nlist \<Rightarrow> ptr \<Rightarrow> string run" where
  "displayNode3 s p = bnd (ld (nh s) p) (\<lambda>n. ok (show_node n))"

definition displayList3 :: "nlist \<Rightarrow> ptr \<Rightarrow> string run" where
  "displayList3 s p = print_cells show_node (nh s) p"

definition enter3 :: "string \<Rightarrow> int \<Rightarrow> nlist \<Rightarrow> nlist run" where
  "enter3 name i s = bnd (initNode3 name i s) (\<lambda>(s, p). addNode3 p s)"

definition example3_main :: "string run" where
  "example3_main =
     bnd (enter3 ''s1'' 1 empty_nlist) (\<lambda>s. bnd (enter3 ''s2'' 2 s) (\<lambda>s.
     bnd (enter3 ''s3'' 3 s) (\<lambda>s. bnd (enter3 ''s4'' 4 s) (\<lambda>s. bnd (enter3 ''s5'' 5 s) (\<lambda>s.
     bnd (displayList3 s (headp s)) (\<lambda>t1.
     bnd (searchName (nh s) (headp s) ''s2'') (\<lambda>p.
     bnd (if p = null then ok (nl @ ''Name: '' @ ''s2'' @ '' not found'' @ nl, s)
          else bnd (displayNode3 s p) (\<lambda>t. bnd (deleteNode3 p s) (\<lambda>s.
            ok (nl @ ''Deleting a node ... '' @ t, s)))) (\<lambda>(t2, s).
     bnd (displayList3 s (headp s)) (\<lambda>t3.
     bnd (initNode3 ''s2'' 2 s) (\<lambda>(s, p). bnd (insertNode3 p s) (\<lambda>s.
     bnd (displayNode3 s p) (\<lambda>t4. bnd (displayList3 s (headp s)) (\<lambda>t5.
     bnd (reverse3 s) (\<lambda>s. bnd (displayList3 s (headp s)) (\<lambda>t6.
     bnd (deleteList3 (headp s) s) (\<lambda>s. bnd (displayList3 s (headp s)) (\<lambda>t7.
     ok (t1 @ t2 @ t3 @ nl @ ''Inserting a node ... '' @ t4 @ t5 @
         nl @ ''Reversing the list ... '' @ nl @ t6 @
         nl @ ''In the end, deleting the list ... '' @ nl @ t7))))))))))))))))))"

subsection \<open>What example4.cxx does differently\<close>

text \<open>Names of any length; the reversal links \<open>me\<close> before the loop; an empty list is reported.\<close>

definition initNode4 :: "string \<Rightarrow> int \<Rightarrow> nlist \<Rightarrow> (nlist \<times> ptr) run" where
  "initNode4 name i s = (let (h, p) = alloc (nh s) \<lparr>nxt = None, nm = [], ident = 0\<rparr> in
     bnd (ld h p) (\<lambda>n. bnd (st h p (n\<lparr>nm := name, ident := i\<rparr>)) (\<lambda>h. ok (s\<lparr>nh := h\<rparr>, p))))"

definition addNode4 :: "ptr \<Rightarrow> nlist \<Rightarrow> nlist run" where
  "addNode4 = addNode3"

definition insertNode4 :: "ptr \<Rightarrow> nlist \<Rightarrow> nlist run" where
  "insertNode4 = insertNode3"

definition searchName4 :: "named heap \<Rightarrow> ptr \<Rightarrow> string \<Rightarrow> ptr run" where
  "searchName4 = searchName"

definition searchId4 :: "named heap \<Rightarrow> ptr \<Rightarrow> int \<Rightarrow> ptr run" where
  "searchId4 = searchId"

definition deleteNode4 :: "ptr \<Rightarrow> nlist \<Rightarrow> nlist run" where
  "deleteNode4 = deleteNode3"

definition deleteList4 :: "ptr \<Rightarrow> nlist \<Rightarrow> nlist run" where
  "deleteList4 = deleteList3"

definition reverse_head4 :: "named heap \<Rightarrow> ptr \<Rightarrow> (named heap \<times> ptr) run" where
  "reverse_head4 h head =
     (if head = null then ok (h, head)
      else bnd (get_next h head) (\<lambda>me. if me = null then ok (h, head)
        else bnd (get_next h me) (\<lambda>child.
          bnd (set_next h head null) (\<lambda>h.
          bnd (set_next h me head) (\<lambda>h.
          bnd (reverse_loop h head me child) (\<lambda>(h, parent, me, child).
          bnd (set_next h me parent) (\<lambda>h. ok (h, me))))))))"

definition reverse4 :: "nlist \<Rightarrow> nlist run" where
  "reverse4 s = bnd (reverse_head4 (nh s) (headp s)) (\<lambda>(h, p). ok (s\<lparr>nh := h, headp := p\<rparr>))"

definition destroy4 :: "nlist \<Rightarrow> nlist run" where
  "destroy4 s = bnd (free_list (nh s) (headp s)) (\<lambda>(h, q). ok (s\<lparr>nh := h\<rparr>))"

definition displayList4 :: "nlist \<Rightarrow> ptr \<Rightarrow> string run" where
  "displayList4 s p =
     bnd (print_cells show_node (nh s) p) (\<lambda>t.
     ok ((if p = null then ''Nothing to display'' @ nl else []) @ t))"

definition enter4 :: "string \<Rightarrow> int \<Rightarrow> nlist \<Rightarrow> nlist run" where
  "enter4 name i s = bnd (initNode4 name i s) (\<lambda>(s, p). addNode4 p s)"

definition example4_main :: "string run" where
  "example4_main =
     bnd (enter4 ''s1'' 1 empty_nlist) (\<lambda>s. bnd (enter4 ''s2'' 2 s) (\<lambda>s.
     bnd (enter4 ''s3'' 3 s) (\<lambda>s. bnd (enter4 ''s4'' 4 s) (\<lambda>s. bnd (enter4 ''s5'' 5 s) (\<lambda>s.
     bnd (displayList4 s (headp s)) (\<lambda>t1.
     bnd (searchName4 (nh s) (headp s) ''s2'') (\<lambda>p.
     bnd (if p = null then ok (nl @ ''Name: '' @ ''s2'' @ '' not found'' @ nl, s)
          else bnd (displayNode3 s p) (\<lambda>t. bnd (deleteNode4 p s) (\<lambda>s.
            ok (nl @ ''Deleting a node ... '' @ t, s)))) (\<lambda>(t2, s).
     bnd (displayList4 s (headp s)) (\<lambda>t3.
     bnd (initNode4 ''s2'' 2 s) (\<lambda>(s, p). bnd (insertNode4 p s) (\<lambda>s.
     bnd (displayNode3 s p) (\<lambda>t4. bnd (displayList4 s (headp s)) (\<lambda>t5.
     bnd (reverse4 s) (\<lambda>s. bnd (displayList4 s (headp s)) (\<lambda>t6.
     bnd (deleteList4 (headp s) s) (\<lambda>s. bnd (displayList4 s (headp s)) (\<lambda>t7.
     bnd (destroy4 s) (\<lambda>s.
     ok (t1 @ t2 @ t3 @ nl @ ''Inserting a node ... '' @ t4 @ t5 @
         nl @ ''Reversing the list ... '' @ nl @ t6 @
         nl @ ''In the end, deleting the list ... '' @ nl @ t7)))))))))))))))))))"

section \<open>What they do\<close>

definition entry :: "named \<Rightarrow> string \<times> int" where
  "entry n = (nm n, ident n)"

lemma entry_nxt [simp]: "entry (n\<lparr>nxt := v\<rparr>) = entry n"
  by (simp add: entry_def)

definition nrep :: "nlist \<Rightarrow> ptr list \<Rightarrow> (string \<times> int) list \<Rightarrow> bool" where
  "nrep s as xs \<longleftrightarrow> chain (nh s) (headp s) as \<and> along entry (cells (nh s)) as = xs \<and>
     (as \<noteq> [] \<longrightarrow> tailp s = last as)"

lemma nrep_empty [simp]: "nrep empty_nlist [] []"
  by (simp add: nrep_def empty_nlist_def)

lemma nrep_null: "nrep s as xs \<Longrightarrow> headp s = 0 \<longleftrightarrow> as = []"
  by (auto simp: nrep_def chain_def dest: lseg_start_null)

text \<open>A new node that is not linked in yet.\<close>

definition loose :: "nlist \<Rightarrow> ptr list \<Rightarrow> ptr \<Rightarrow> string \<Rightarrow> int \<Rightarrow> bool" where
  "loose s as p name i \<longleftrightarrow> p \<notin> set as \<and> 0 < p \<and>
     (\<exists>n. cells (nh s) p = Some n \<and> nm n = name \<and> ident n = i)"

lemma initNode4_rep:
  assumes "nrep s as xs"
  shows "wp (initNode4 name i s) (\<lambda>(s', p). nrep s' as xs \<and> loose s' as p name i)"
proof -
  obtain h p where a: "alloc (nh s) \<lparr>nxt = None, nm = [], ident = 0\<rparr> = (h, p)" by force
  have c: "chain (nh s) (headp s) as" using assms by (simp add: nrep_def)
  then have "heap_ok (nh s)" by (simp add: chain_def)
  note f = alloc_frame [OF this a]
  have p: "p \<notin> set as" "chain h (headp s) as" "along entry (cells h) as = along entry (cells (nh s)) as"
    using f(5,4,6) [OF c] by auto
  have "chain (put h p \<lparr>nxt = None, nm = name, ident = i\<rparr>) (headp s) as"
    by (rule put_frame [OF p(2,1) f(3)])
  with f(2,3) p assms show ?thesis
    by (simp add: initNode4_def a nrep_def loose_def)
qed

lemma initNode3_eq: "length name < 20 \<Longrightarrow> initNode3 name i s = initNode4 name i s"
  by (simp add: initNode3_def initNode4_def)

lemma initNode3_overflow: "20 \<le> length name \<Longrightarrow> initNode3 name i s = fail Out_Of_Bounds"
  by (auto simp: initNode3_def split: prod.split)

lemma addNode3_rep:
  assumes "nrep s as xs" "loose s as p name i"
  shows "wp (addNode3 p s) (\<lambda>s'. nrep s' (as @ [p]) (xs @ [(name, i)]))"
proof -
  have c: "chain (nh s) (headp s) as" using assms(1) by (simp add: nrep_def)
  have ok: "heap_ok (nh s)" using c by (simp add: chain_def)
  from assms(2) obtain n where n: "p \<notin> set as" "0 < p" "cells (nh s) p = Some n" "nm n = name" "ident n = i"
    by (auto simp: loose_def)
  show ?thesis
  proof (cases "as = []")
    case True
    then have "headp s = 0" using nrep_null [OF assms(1)] by simp
    with True n ok assms(1) show ?thesis
      by (auto simp: addNode3_def nrep_def chain_def entry_def)
  next
    case False
    have h0: "headp s \<noteq> 0" "tailp s = last as" using nrep_null [OF assms(1)] False assms(1) by (auto simp: nrep_def)
    have l: "lseg (cells (nh s)) (headp s) as 0" using c by (simp add: chain_def)
    obtain m where m: "cells (nh s) (last as) = Some m" "0 < last as" using lseg_last [OF l False] by auto
    have ne: "last as \<noteq> p" using n(1) False last_in_set by metis
    let ?h1 = "put (nh s) p (n\<lparr>nxt := Some 0\<rparr>)"
    have l1: "lseg (cells ?h1) (headp s) as 0" using l n(1) by simp
    have "lseg (cells ?h1) p [p] 0" using n by simp
    from lseg_relink [OF l1 False this] n(1)
    have "lseg ((cells ?h1)(last as \<mapsto> m\<lparr>nxt := Some p\<rparr>)) (headp s) (as @ [p]) 0" using m ne by simp
    then have "chain (put (put (nh s) (last as) (m\<lparr>nxt := Some p\<rparr>)) p (n\<lparr>nxt := Some 0\<rparr>)) (headp s) (as @ [p])"
      using ok m n ne by (simp add: chain_def fun_upd_twist)
    moreover have "along entry (cells (put (put (nh s) (last as) (m\<lparr>nxt := Some p\<rparr>)) p (n\<lparr>nxt := Some 0\<rparr>))) (as @ [p])
        = xs @ [(name, i)]"
      using assms(1) n m ne by (auto simp: nrep_def entry_def along_upd_same)
    ultimately show ?thesis
      using h0 m n ne by (simp add: addNode3_def nrep_def)
  qed
qed

lemma find_prev_lseg:
  assumes "lseg (cells h) p (bs @ [b]) t" "t \<notin> set (bs @ [b])"
  shows "find_prev h p t = ok b"
proof -
  have "wp (find_prev h p t) (\<lambda>a. a = b)"
    unfolding find_prev_def
  proof (rule wp_while_list [where xs = "bs @ [b]" and
      I = "\<lambda>xs cur. lseg (cells h) cur xs t \<and> xs \<noteq> [] \<and> last xs = b \<and> t \<notin> set xs"])
    fix x xs cur assume "lseg (cells h) cur (x # xs) t \<and> x # xs \<noteq> [] \<and> last (x # xs) = b \<and> t \<notin> set (x # xs)"
    then show "wp (bnd (get_next h cur) (\<lambda>q. ok (q \<noteq> t))) (\<lambda>c. if c then
        wp (get_next h cur) (\<lambda>cur. lseg (cells h) cur xs t \<and> xs \<noteq> [] \<and> last xs = b \<and> t \<notin> set xs) else cur = b)"
      by (cases xs) auto
  qed (use assms in auto)
  then show ?thesis by (simp add: wp_eq_ok)
qed

lemma find_place_lseg:
  assumes "lseg (cells h) p as 0" "as \<noteq> []" "cells h new = Some k" "0 < new"
  shows "find_place h p new = ok (case dropWhile (\<lambda>a. nm (the (cells h a)) < nm k) as of [] \<Rightarrow> 0 | a # _ \<Rightarrow> a)"
proof -
  let ?P = "\<lambda>a. nm (the (cells h a)) < nm k"
  have "wp (find_place h p new) (\<lambda>q. q = (case dropWhile ?P as of [] \<Rightarrow> 0 | a # _ \<Rightarrow> a))"
    unfolding find_place_def
  proof (rule wp_loop_list [where xs = as and
      I = "\<lambda>xs cur. lseg (cells h) cur xs 0 \<and> xs \<noteq> [] \<and> dropWhile ?P as = dropWhile ?P xs"])
    fix x xs cur assume I: "lseg (cells h) cur (x # xs) 0 \<and> x # xs \<noteq> [] \<and> dropWhile ?P as = dropWhile ?P (x # xs)"
    then obtain t r where t: "cur = x" "0 < x" "cells h x = Some t" "nxt t = Some r" "lseg (cells h) r xs 0"
      by auto
    have r: "r = 0 \<longleftrightarrow> xs = []" using t(5) by (rule lseg_start_null)
    have d: "dropWhile ?P as = (if nm t < nm k then dropWhile ?P xs else x # xs)" using I t(3) by simp
    show "wp (bnd (ld h cur) (\<lambda>t. bnd (ld h new) (\<lambda>k.
        if nm t < nm k then
          bnd (get_next h cur) (\<lambda>q. if q = null then ok (Inr null) else ok (Inl q))
        else ok (Inr cur))))
        (\<lambda>r. case r of Inl cur \<Rightarrow> lseg (cells h) cur xs 0 \<and> xs \<noteq> [] \<and> dropWhile ?P as = dropWhile ?P xs
          | Inr q \<Rightarrow> q = (case dropWhile ?P as of [] \<Rightarrow> 0 | a # _ \<Rightarrow> a))"
      unfolding d using t r assms(3,4) by (cases "nm t < nm k"; cases "xs = []") simp_all
  qed (use assms in auto)
  then show ?thesis by (simp add: wp_eq_ok)
qed

lemma insertNode3_rep:
  assumes "nrep s as xs" "loose s as p name i"
  shows "wp (insertNode3 p s) (\<lambda>s'. \<exists>as'. nrep s' as'
     (takeWhile (\<lambda>e. fst e < name) xs @ (name, i) # dropWhile (\<lambda>e. fst e < name) xs))"
proof -
  have c: "chain (nh s) (headp s) as" and xs: "xs = along entry (cells (nh s)) as"
    using assms(1) by (auto simp: nrep_def)
  have ok: "heap_ok (nh s)" using c by (simp add: chain_def)
  have l: "lseg (cells (nh s)) (headp s) as 0" using c by (simp add: chain_def)
  from assms(2) obtain n where n: "p \<notin> set as" "0 < p" "cells (nh s) p = Some n" "nm n = name" "ident n = i"
    by (auto simp: loose_def)
  let ?P = "\<lambda>a. nm (the (cells (nh s) a)) < nm n" and ?h1 = "\<lambda>q. put (nh s) p (n\<lparr>nxt := Some q\<rparr>)"
  have tw: "takeWhile (\<lambda>e. fst e < name) xs = along entry (cells (nh s)) (takeWhile ?P as)"
    "dropWhile (\<lambda>e. fst e < name) xs = along entry (cells (nh s)) (dropWhile ?P as)"
    unfolding xs along_def by (simp_all add: takeWhile_map dropWhile_map comp_def entry_def n(4))
  have e: "(name, i) = entry n" using n(4,5) by (simp add: entry_def)
  have result: "\<exists>as'. nrep s' as' (along entry (cells (nh s)) (takeWhile ?P as) @ entry n #
      along entry (cells (nh s)) (dropWhile ?P as)) \<Longrightarrow>
    \<exists>as'. nrep s' as' (takeWhile (\<lambda>e. fst e < name) xs @ (name, i) # dropWhile (\<lambda>e. fst e < name) xs)" for s'
    by (simp add: tw e)
  show ?thesis
  proof (cases "as = []")
    case True
    then have "headp s = 0" using nrep_null [OF assms(1)] by simp
    with True n(1-3) ok show ?thesis
      by (auto simp: insertNode3_def nrep_def chain_def xs e intro!: exI [of _ "[p]"])
  next
    case ne: False
    then have h0: "headp s \<noteq> 0" "tailp s = last as"
      using nrep_null [OF assms(1)] assms(1) by (auto simp: nrep_def)
    note place = find_place_lseg [OF l ne n(3,2)]
    show ?thesis
    proof (cases "takeWhile ?P as")
      case Nil
      then have d: "dropWhile ?P as = as" by (metis append_Nil takeWhile_dropWhile_id)
      have "find_place (nh s) (headp s) p = ok (headp s)"
        using place ne l by (simp add: d) (cases as; simp)
      moreover have "chain (?h1 (headp s)) (headp s) as" by (rule put_frame [OF c n(1,3)])
      then have "chain (?h1 (headp s)) p (p # as)" using n by (auto simp: chain_def)
      ultimately show ?thesis
        using h0 n(1-3) ne by (auto simp: insertNode3_def nrep_def tw Nil d e intro!: exI [of _ "p # as"])
    next
      case (Cons a0 rest)
      then obtain bs b where bs: "takeWhile ?P as = bs @ [b]" by (metis list.discI rev_exhaust)
      obtain cs where cs: "dropWhile ?P as = cs" by simp
      have as: "as = bs @ b # cs" using takeWhile_dropWhile_id [of ?P as] bs cs by simp
      have dis: "distinct (bs @ b # cs)" using chain_distinct [OF c] as by simp
      define t where "t = (case cs of [] \<Rightarrow> 0 | a # _ \<Rightarrow> a)"
      have seg: "lseg (cells (nh s)) (headp s) (bs @ [b]) t" "lseg (cells (nh s)) t cs 0"
        using l unfolding as t_def by (auto split: list.split)
      have tn: "t \<notin> set (bs @ [b])"
      proof (cases cs)
        case Nil
        then have "t = 0" by (simp add: t_def)
        then show ?thesis using lseg_dom [OF seg(1), of t] by blast
      qed (use dis in \<open>auto simp: t_def\<close>)
      have "b \<in> set (takeWhile ?P as)" using bs by simp
      have t_head: "t \<noteq> headp s"
        using tn seg(1) h0(1) by (cases bs) auto
      have fp: "find_prev (nh s) (headp s) t = ok b" by (rule find_prev_lseg [OF seg(1) tn])
      obtain k where k: "cells (nh s) b = Some k" "0 < b" "nxt k = Some t" using seg(1) by auto
      have bp: "b \<noteq> p" using n(1) as by auto
      have c1: "chain (?h1 t) (headp s) (bs @ b # cs)" using put_frame [OF c n(1,3)] as by simp
      have "cells (?h1 t) b = Some k" "cells (?h1 t) p = Some (n\<lparr>nxt := Some t\<rparr>)" using k bp by auto
      note ins = chain_insert [OF c1 this(1) k(3) this(2)]
      have pn: "p \<notin> set (bs @ b # cs)" using n(1) as by simp
      let ?h = "put (put (nh s) b (k\<lparr>nxt := Some p\<rparr>)) p (n\<lparr>nxt := Some t\<rparr>)"
      have eq: "put (?h1 t) b (k\<lparr>nxt := Some p\<rparr>) = ?h" using bp by (simp add: put_def fun_upd_twist)
      have "nrep (s\<lparr>nh := ?h, tailp := (if tailp s = b then p else tailp s)\<rparr>) (bs @ b # p # cs)
          (along entry (cells (nh s)) (bs @ [b]) @ entry n # along entry (cells (nh s)) cs)"
      proof -
        have ch: "chain ?h (headp s) (bs @ b # p # cs)" using ins(1) [OF _ pn] by (simp add: eq)
        have "along entry (cells (?h1 t)) bs = along entry (cells (nh s)) bs"
          "along entry (cells (?h1 t)) cs = along entry (cells (nh s)) cs" using n(1) as by auto
        then have al: "along entry (cells ?h) (bs @ b # p # cs) =
            along entry (cells (nh s)) (bs @ [b]) @ entry n # along entry (cells (nh s)) cs"
          using ins(2) [OF _ pn, of entry] bp by (simp add: eq)
        have "tailp s = b \<longleftrightarrow> cs = []"
        proof
          assume "tailp s = b"
          then have "last (b # cs) = b" using h0(2) as by simp
          with dis show "cs = []" by (cases cs rule: rev_cases) auto
        qed (use h0 as in simp)
        with ch al h0(2) as show ?thesis by (simp add: nrep_def)
      qed
      then have "\<exists>as'. nrep (s\<lparr>nh := ?h, tailp := (if tailp s = b then p else tailp s)\<rparr>) as'
          (takeWhile (\<lambda>e. fst e < name) xs @ (name, i) # dropWhile (\<lambda>e. fst e < name) xs)"
        by (intro result) (auto simp: bs cs)
      with place h0 k n(2,3) bp fp t_head show ?thesis
        by (simp add: insertNode3_def cs t_def [symmetric])
    qed
  qed
qed

lemma search3_lseg:
  assumes "lseg (cells h) p as 0" "as \<noteq> []"
  shows "search3 P h p = ok (case find (\<lambda>a. P (the (cells h a))) as of None \<Rightarrow> 0 | Some a \<Rightarrow> a)"
proof -
  let ?P = "\<lambda>a. P (the (cells h a))"
  have "wp (search3 P h p) (\<lambda>q. q = (case find ?P as of None \<Rightarrow> 0 | Some a \<Rightarrow> a))"
    unfolding search3_def
  proof (rule wp_loop_list [where xs = as and
      I = "\<lambda>xs cur. lseg (cells h) cur xs 0 \<and> xs \<noteq> [] \<and> find ?P as = find ?P xs"])
    fix x xs cur assume I: "lseg (cells h) cur (x # xs) 0 \<and> x # xs \<noteq> [] \<and> find ?P as = find ?P (x # xs)"
    then obtain t r where t: "cur = x" "0 < x" "cells h x = Some t" "nxt t = Some r" "lseg (cells h) r xs 0"
      by auto
    have r: "r = 0 \<longleftrightarrow> xs = []" using t(5) by (rule lseg_start_null)
    have d: "find ?P as = (if P t then Some x else find ?P xs)" using I t(3) by simp
    show "wp (bnd (ld h cur) (\<lambda>n. if \<not> P n then
         bnd (get_next h cur) (\<lambda>q. if q = null then ok (Inr null) else ok (Inl q))
       else ok (Inr cur)))
       (\<lambda>r. case r of Inl cur \<Rightarrow> lseg (cells h) cur xs 0 \<and> xs \<noteq> [] \<and> find ?P as = find ?P xs
          | Inr q \<Rightarrow> q = (case find ?P as of None \<Rightarrow> 0 | Some a \<Rightarrow> a))"
      unfolding d using t r by (cases "P t"; cases "xs = []") simp_all
  qed (use assms in auto)
  then show ?thesis by (simp add: wp_eq_ok)
qed

text \<open>Both searches dereference the pointer they are given before they test it.\<close>

lemma search3_null: "search3 P h 0 = fail Null_Deref"
  by (simp add: search3_def loop_unfold)

lemma searchName_rep:
  assumes "nrep s as xs" "as \<noteq> []"
  shows "\<exists>p. searchName (nh s) (headp s) name = ok p \<and>
     (if name \<in> fst ` set xs then \<exists>bs cs. as = bs @ p # cs \<and>
        (\<forall>e \<in> set (along entry (cells (nh s)) bs). fst e \<noteq> name) \<and> fst (entry (the (cells (nh s) p))) = name
      else p = 0)"
proof -
  have l: "lseg (cells (nh s)) (headp s) as 0" and xs: "xs = along entry (cells (nh s)) as"
    using assms(1) by (auto simp: nrep_def chain_def)
  let ?P = "\<lambda>e. name = fst e"
  have s: "searchName (nh s) (headp s) name =
      ok (case find (\<lambda>a. ?P (entry (the (cells (nh s) a)))) as of None \<Rightarrow> 0 | Some a \<Rightarrow> a)"
    using search3_lseg [OF l assms(2)] by (simp add: searchName_def entry_def)
  show ?thesis
  proof (cases "find (\<lambda>a. ?P (entry (the (cells (nh s) a)))) as")
    case None
    then have "\<forall>e \<in> set xs. \<not> ?P e" unfolding xs by (simp only: find_along_None [of ?P])
    with None s show ?thesis by auto
  next
    case (Some a)
    then obtain bs cs where a: "as = bs @ a # cs" "?P (entry (the (cells (nh s) a)))"
        "\<forall>e \<in> set (along entry (cells (nh s)) bs). \<not> ?P e"
      by (rule find_along_Some [of ?P])
    then have "name \<in> fst ` set xs" by (auto simp: xs)
    moreover have "searchName (nh s) (headp s) name = ok a" using s Some by simp
    moreover have "\<forall>e \<in> set (along entry (cells (nh s)) bs). fst e \<noteq> name"
      "fst (entry (the (cells (nh s) a))) = name" using a(2,3) by auto
    ultimately show ?thesis using a(1) by (auto simp del: along_simps)
  qed
qed

lemma deleteNode3_rep:
  assumes "nrep s (bs @ a # cs) xs"
  shows "wp (deleteNode3 a s) (\<lambda>s'. nrep s' (bs @ cs) (along entry (cells (nh s)) (bs @ cs)) \<and>
     cells (nh s') a = None)"
proof -
  have c: "chain (nh s) (headp s) (bs @ a # cs)" and t: "tailp s = last (bs @ a # cs)"
    using assms by (auto simp: nrep_def)
  have d: "distinct (bs @ a # cs)" by (rule chain_distinct [OF c])
  have t': "tailp s = a \<longleftrightarrow> cs = []"
    using d by (cases cs rule: rev_cases) (auto simp: t)
  show ?thesis
  proof (cases bs rule: rev_cases)
    case Nil
    obtain n q where n: "headp s = a" "0 < a" "cells (nh s) a = Some n" "nxt n = Some q"
        "chain (nh s) q cs" "a \<notin> set cs" "chain (del (nh s) a) q cs"
      using c unfolding Nil append_Nil by (rule chain_ConsE)
    with Nil t' t show ?thesis by (auto simp: deleteNode3_def nrep_def)
  next
    case (snoc ds b)
    have c': "chain (nh s) (headp s) (ds @ b # a # cs)" using c snoc by simp
    obtain k m r where k: "cells (nh s) b = Some k" "0 < b" "nxt k = Some a" "cells (nh s) a = Some m"
        "0 < a" "nxt m = Some r" "a \<noteq> b"
      using c' by (rule chain_splitE)
    have "lseg (cells (nh s)) (headp s) (ds @ [b]) a" using c' by (auto simp: chain_def)
    moreover have "a \<notin> set (ds @ [b])" using d snoc by auto
    ultimately have fp: "find_prev (nh s) (headp s) a = ok b" by (rule find_prev_lseg)
    have ha: "a \<noteq> headp s" using c' d snoc by (cases ds) (auto simp: chain_def)
    note u = chain_unlink [OF c' k(1,4,6)]
    show ?thesis
      using fp ha k u(2) u(4) [of entry] t' t snoc by (auto simp: deleteNode3_def nrep_def)
  qed
qed

lemma reverse_head_steps:
  assumes "chain h p (p # me # rest)"
  obtains n m child where "cells h p = Some n" "0 < p" "nxt n = Some me" "cells h me = Some m"
    "nxt m = Some child" "0 < me" "p \<noteq> me"
    "turning h (p # me # rest) rest (put h p (n\<lparr>nxt := Some 0\<rparr>), p, me, child)"
proof -
  obtain n where n: "cells h p = Some n" "0 < p" using assms by (auto simp: chain_def)
  from turning_start [OF assms n(1)] n that show thesis by blast
qed

lemma reverse_short:
  assumes "chain h p as" "\<not> 2 \<le> length as"
  shows "p = 0 \<and> as = [] \<or> (\<exists>n. as = [p] \<and> 0 < p \<and> cells h p = Some n \<and> nxt n = Some 0)"
  using assms by (cases as; cases "tl as") (auto simp: chain_def)

interpretation reverse3: reversal reverse_head3 "\<lambda>_. True"
proof
  fix h :: "named heap" and p as assume c: "chain h p as"
  have ok: "heap_ok h" using c by (simp add: chain_def)
  have refl: "relinked as h h"
    using c unfolding chain_def by (auto dest!: lseg_in_domD intro!: relinked_refl)
  show "wp (reverse_head3 h p) (\<lambda>(h', q). chain h' q (rev as) \<and> relinked as h h')"
  proof (cases "2 \<le> length as")
    case False
    with reverse_short [OF c] c refl show ?thesis by (auto simp: reverse_head3_def)
  next
    case True
    then obtain me rest where as: "as = p # me # rest"
      using c by (cases as; cases "tl as") (auto simp: chain_def)
    from reverse_head_steps [OF c [unfolded as]] obtain n m child
      where s: "cells h p = Some n" "0 < p" "nxt n = Some me" "cells h me = Some m" "nxt m = Some child"
        "0 < me" "p \<noteq> me" "turning h as rest (put h p (n\<lparr>nxt := Some 0\<rparr>), p, me, child)"
      unfolding as by metis
    with ok turning_end reverse_loop_turning [OF s(8)] show ?thesis
      by (fastforce simp: reverse_head3_def elim!: wp_conseq)
  qed
qed simp

lemma turning_touch:
  assumes "turning h as rest (h', parent, me, child)" "cells h' me = Some m"
  shows "turning h as rest (put h' me (m\<lparr>nxt := v\<rparr>), parent, me, child)"
proof -
  from assms(1) obtain ds where as: "as = ds @ me # rest" "distinct as" "relinked as h h'"
      "lseg (cells h') parent (rev ds) 0" "0 < me" "lseg (cells h') child rest 0"
    by (auto simp: turning_def)
  have "relinked as h (put h' me (m\<lparr>nxt := v\<rparr>))" by (rule relinked_put) (use as assms(2) in auto)
  with as show ?thesis by (auto simp: turning_def intro!: exI [of _ ds])
qed

interpretation reverse4: reversal reverse_head4 "\<lambda>_. True"
proof
  fix h :: "named heap" and p as assume c: "chain h p as"
  have ok: "heap_ok h" using c by (simp add: chain_def)
  have refl: "relinked as h h"
    using c unfolding chain_def by (auto dest!: lseg_in_domD intro!: relinked_refl)
  show "wp (reverse_head4 h p) (\<lambda>(h', q). chain h' q (rev as) \<and> relinked as h h')"
  proof (cases "2 \<le> length as")
    case False
    with reverse_short [OF c] c refl show ?thesis by (auto simp: reverse_head4_def)
  next
    case True
    then obtain me rest where as: "as = p # me # rest"
      using c by (cases as; cases "tl as") (auto simp: chain_def)
    from reverse_head_steps [OF c [unfolded as]] obtain n m child
      where s: "cells h p = Some n" "0 < p" "nxt n = Some me" "cells h me = Some m" "nxt m = Some child"
        "0 < me" "p \<noteq> me" "turning h as rest (put h p (n\<lparr>nxt := Some 0\<rparr>), p, me, child)"
      unfolding as by metis
    have "turning h as rest (put (put h p (n\<lparr>nxt := Some 0\<rparr>)) me (m\<lparr>nxt := Some p\<rparr>), p, me, child)"
      by (rule turning_touch [OF s(8)]) (use s in simp)
    from reverse_loop_turning [OF this] s ok turning_end show ?thesis
      by (fastforce simp: reverse_head4_def elim!: wp_conseq)
  qed
qed simp

text \<open>The list is reversed, but \<open>tail\<close> keeps pointing to its former last, now first, cell.\<close>

lemma reverse3_rep:
  assumes "nrep s as xs"
  shows "wp (reverse3 s) (\<lambda>s'. chain (nh s') (headp s') (rev as) \<and>
     along entry (cells (nh s')) (rev as) = rev xs \<and> tailp s' = tailp s)"
proof -
  from assms have c: "chain (nh s) (headp s) as" and xs: "xs = along entry (cells (nh s)) as"
    by (auto simp: nrep_def)
  have "along entry (cells h') (rev as) = rev xs" if "relinked as (nh s) h'" for h'
    using relinked_along [of as "nh s" h' entry as] that by (simp add: xs)
  then show ?thesis
    unfolding reverse3_def wp_bnd
    by (intro wp_conseq [OF reverse3.rv_chain [OF c]]) (auto simp del: along_simps)
qed

text \<open>So the next \<open>addNode\<close> cuts the list after its first cell.\<close>

lemma reverse3_addNode3:
  assumes "chain (nh s) (headp s) as" "as \<noteq> []" "tailp s = hd as" "loose s as p name i"
  shows "wp (addNode3 p s) (\<lambda>s'. nrep s' [hd as, p] [entry (the (cells (nh s) (hd as))), (name, i)])"
proof -
  obtain a bs where as: "as = a # bs" using assms(2) by (cases as) auto
  from assms(1) obtain k q where k: "headp s = a" "0 < a" "cells (nh s) a = Some k" "nxt k = Some q" "heap_ok (nh s)"
    unfolding as by (rule chain_ConsE)
  from assms(4) obtain n where n: "p \<notin> set as" "0 < p" "cells (nh s) p = Some n" "nm n = name" "ident n = i"
    by (auto simp: loose_def)
  then have "p \<noteq> a" using as by auto
  with k n assms(3) as show ?thesis
    by (auto simp: addNode3_def nrep_def chain_def entry_def)
qed

lemma deleteList3_all:
  assumes "nrep s as xs"
  shows "wp (deleteList3 (headp s) s) (\<lambda>s'. nrep s' [] [] \<and> (\<forall>a \<in> set as. cells (nh s') a = None))"
proof -
  have c: "chain (nh s) (headp s) as" using assms by (simp add: nrep_def)
  show ?thesis
  proof (cases "as = []")
    case True
    with nrep_null [OF assms] assms show ?thesis by (simp add: deleteList3_def nrep_def)
  next
    case False
    with nrep_null [OF assms] show ?thesis
      by (auto simp: deleteList3_def nrep_def intro!: wp_conseq [OF free_list_chain [OF c]])
  qed
qed

text \<open>
  Deleting from a later cell on leaves the last remaining cell linked to a deleted one, so that
  the list can no longer be displayed.
\<close>

lemma deleteList3_suffix:
  assumes "nrep s (bs @ b # p # cs) xs"
  shows "wp (deleteList3 p s) (\<lambda>s'. headp s' = headp s \<and> tailp s' = b \<and>
     lseg (cells (nh s')) (headp s') (bs @ [b]) p \<and> 0 < p \<and> cells (nh s') p = None)"
proof -
  have c: "chain (nh s) (headp s) (bs @ b # p # cs)" using assms by (simp add: nrep_def)
  have d: "distinct (bs @ b # p # cs)" by (rule chain_distinct [OF c])
  have l: "lseg (cells (nh s)) (headp s) (bs @ [b]) p" and tl: "chain (nh s) p (p # cs)" and p0: "0 < p"
    using c by (auto simp: chain_def)
  have fp: "find_prev (nh s) (headp s) p = ok b"
    by (rule find_prev_lseg [OF l]) (use d in auto)
  have h0: "headp s \<noteq> 0" using nrep_null [OF assms] by simp
  have hp: "p \<noteq> headp s" using l d by (cases bs) auto
  have seg: "lseg (cells (nh s) |` (- set (p # cs))) (headp s) (bs @ [b]) p"
    using l d by (subst lseg_cong [of _ _ "cells (nh s)"]) (auto simp: restrict_map_def)
  show ?thesis
    using h0 hp fp p0 seg
    by (auto simp: deleteList3_def simp del: lseg_append intro!: wp_conseq [OF free_list_chain [OF tl]])
qed

lemma displayList3_rep:
  "nrep s as xs \<Longrightarrow> displayList3 s (headp s) = ok (concat (map (\<lambda>(n, i). dec i @ '': '' @ n @ nl) xs))"
  by (auto simp: displayList3_def nrep_def chain_def print_cells_chain along_def comp_def
      entry_def show_node_def)

lemma print_cells_dangling:
  assumes "lseg (cells h) p as q" "0 < q" "cells h q = None"
  shows "print_cells g h p = fail Dangling"
proof -
  have "while_run (\<lambda>(cur, t). ok (cur \<noteq> null))
      (\<lambda>(cur, t). bnd (ld h cur) (\<lambda>n. bnd (get_next h cur) (\<lambda>q. ok (q, t @ g n)))) (p, t) = fail Dangling" for t
    using assms
  proof (induction as arbitrary: p t)
    case Nil
    then show ?case by (subst while_run_unfold) (simp add: ld_dangling)
  next
    case (Cons a as)
    then obtain n r where "p = a" "0 < a" "cells h a = Some n" "nxt n = Some r" "lseg (cells h) r as q" by auto
    with Cons show ?case
      by (subst while_run_unfold) (simp add: ld_ok get_next_def init_ptr_def)
  qed
  then show ?thesis by (simp add: print_cells_def)
qed

section \<open>Properties\<close>

lemma initNode4_chain:
  assumes "chain (nh s) (headp s) as"
  shows "wp (initNode4 name i s) (\<lambda>(s', p). chain (nh s') (headp s') as \<and> headp s' = headp s \<and>
     tailp s' = tailp s \<and> along entry (cells (nh s')) as = along entry (cells (nh s)) as \<and> loose s' as p name i)"
proof -
  obtain h p where a: "alloc (nh s) \<lparr>nxt = None, nm = [], ident = 0\<rparr> = (h, p)" by force
  have "heap_ok (nh s)" using assms by (simp add: chain_def)
  note f = alloc_frame [OF this a]
  have p: "p \<notin> set as" "chain h (headp s) as" "along entry (cells h) as = along entry (cells (nh s)) as"
    using f(5,4,6) [OF assms] by auto
  have "chain (put h p \<lparr>nxt = None, nm = name, ident = i\<rparr>) (headp s) as"
    by (rule put_frame [OF p(2,1) f(3)])
  with f(2,3) p assms show ?thesis by (simp add: initNode4_def a loose_def)
qed

text \<open>A list of given entries, for concrete instances.\<close>

definition nlist_of :: "(string \<times> int) list \<Rightarrow> nlist run" where
  "nlist_of es = for_each (\<lambda>(n, i) s. enter4 n i s) es empty_nlist"

lemma nlist_of_rep: "wp (nlist_of es) (\<lambda>s. \<exists>as. nrep s as es)"
  unfolding nlist_of_def
proof (rule wp_for_each [where I = "\<lambda>xs s. \<exists>as. nrep s as xs"])
  fix ys and y :: "string \<times> int" and s assume "\<exists>as. nrep s as ys"
  then obtain as where r: "nrep s as ys" by blast
  obtain n i where y: "y = (n, i)" by force
  show "wp ((\<lambda>(n, i) s. enter4 n i s) y s) (\<lambda>s. \<exists>as. nrep s as (ys @ [y]))"
    unfolding y prod.case enter4_def addNode4_def wp_bnd
    by (rule wp_conseq [OF initNode4_rep [OF r]]) (auto elim!: wp_conseq [OF addNode3_rep])
qed (use nrep_empty in blast)+

lemma nlist_ofE:
  obtains s as where "nlist_of es = ok s" "nrep s as es"
  using nlist_of_rep [of es] by (auto simp: wp_iff)

text \<open>
  example3 inserts a new entry before the first one whose name is not smaller, wherever that
  is, and keeps the pointer to the last node right; a name of 20 characters or more does not fit
  the array it is copied to.
\<close>

theorem insertNode3_by_name:
  assumes "nrep s as xs"
  shows "if length name < 20
     then wp (bnd (initNode3 name i s) (\<lambda>(s, p). insertNode3 p s)) (\<lambda>s'. \<exists>as'. nrep s' as'
       (takeWhile (\<lambda>e. fst e < name) xs @ (name, i) # dropWhile (\<lambda>e. fst e < name) xs))
     else initNode3 name i s = fail Out_Of_Bounds"
proof (cases "length name < 20")
  case True
  then show ?thesis
    using initNode4_rep [OF assms, of name i]
    by (auto simp: initNode3_eq elim!: wp_conseq insertNode3_rep)
qed (simp add: initNode3_overflow)

lemma insertNode3_by_name_witness:
  "\<exists>s. nlist_of [(''ann'', 1), (''bob'', 3)] = ok s \<and>
     wp (bnd (initNode3 ''ben'' 2 s) (\<lambda>(s, p). insertNode3 p s))
       (\<lambda>s'. \<exists>as'. nrep s' as' [(''ann'', 1), (''ben'', 2), (''bob'', 3)])"
proof -
  obtain s as where s: "nlist_of [(''ann'', 1), (''bob'', 3)] = ok s" "nrep s as [(''ann'', 1), (''bob'', 3)]"
    by (rule nlist_ofE)
  from insertNode3_by_name [OF s(2), of "''ben''" 2] s(1) show ?thesis by simp
qed

text \<open>
  looking a name up in example3's list and deleting the node found removes the first entry
  with that name and keeps the pointers to the first and the last node right.
\<close>

theorem search_deleteNode3:
  assumes "nrep s as xs" "name \<in> fst ` set xs"
  shows "wp (bnd (searchName (nh s) (headp s) name) (\<lambda>p. deleteNode3 p s)) (\<lambda>s'. \<exists>as'. nrep s' as'
     (takeWhile (\<lambda>e. fst e \<noteq> name) xs @ tl (dropWhile (\<lambda>e. fst e \<noteq> name) xs)))"
proof -
  have xs: "xs = along entry (cells (nh s)) as" and "as \<noteq> []" using assms by (auto simp: nrep_def)
  with searchName_rep [OF assms(1), of name] assms(2) obtain p bs cs where p: "searchName (nh s) (headp s) name = ok p"
      "as = bs @ p # cs" "\<forall>e \<in> set (along entry (cells (nh s)) bs). fst e \<noteq> name"
      "fst (entry (the (cells (nh s) p))) = name" by auto
  let ?P = "\<lambda>e. fst e \<noteq> name" and ?bs = "along entry (cells (nh s)) bs"
  have "takeWhile ?P xs = ?bs" "dropWhile ?P xs = entry (the (cells (nh s) p)) # along entry (cells (nh s)) cs"
    using p by (auto simp: xs takeWhile_append2 dropWhile_append2 takeWhile_tail)
  then have "takeWhile ?P xs @ tl (dropWhile ?P xs) = along entry (cells (nh s)) (bs @ cs)" by simp
  with p deleteNode3_rep [of s bs p cs xs] assms(1) show ?thesis
    by (auto elim!: wp_conseq simp del: along_simps)
qed

lemma search_deleteNode3_witness:
  "\<exists>s. nlist_of [(''s1'', 1), (''s2'', 2), (''s2'', 3)] = ok s \<and>
     wp (bnd (searchName (nh s) (headp s) ''s2'') (\<lambda>p. deleteNode3 p s))
       (\<lambda>s'. \<exists>as'. nrep s' as' [(''s1'', 1), (''s2'', 3)])"
proof -
  obtain s as where s: "nlist_of [(''s1'', 1), (''s2'', 2), (''s2'', 3)] = ok s"
      "nrep s as [(''s1'', 1), (''s2'', 2), (''s2'', 3)]"
    by (rule nlist_ofE)
  from search_deleteNode3 [OF s(2), of "''s2''"] s(1) show ?thesis by simp
qed

text \<open>
  the reversal of example3 does not move the pointer to the last node, so that the next
  entry is linked behind the first node and all the others are lost.
\<close>

theorem reverse3_then_enter3:
  assumes "nrep s as xs" "xs \<noteq> []" "length name < 20"
  shows "wp (bnd (reverse3 s) (enter3 name i)) (\<lambda>s'. \<exists>as'. nrep s' as' [last xs, (name, i)])"
  unfolding wp_bnd
proof (rule wp_conseq [OF reverse3_rep [OF assms(1)]], elim conjE)
  fix s' :: nlist assume c: "chain (nh s') (headp s') (rev as)" "along entry (cells (nh s')) (rev as) = rev xs"
      and t: "tailp s' = tailp s"
  have ne: "as \<noteq> []" "tailp s = last as" using assms(1,2) by (auto simp: nrep_def)
  show "wp (enter3 name i s') (\<lambda>s'. \<exists>as'. nrep s' as' [last xs, (name, i)])"
    unfolding enter3_def initNode3_eq [OF assms(3)] wp_bnd
  proof (rule wp_conseq [OF initNode4_chain [OF c(1)]], clarify)
    fix s2 :: nlist and p assume s2: "chain (nh s2) (headp s2) (rev as)" "tailp s2 = tailp s'" "loose s2 (rev as) p name i"
      "along entry (cells (nh s2)) (rev as) = along entry (cells (nh s')) (rev as)"
    obtain a bs where as: "rev as = a # bs" using ne by (cases "rev as") auto
    have "entry (the (cells (nh s2) a)) = last xs"
    proof -
      have "rev xs = entry (the (cells (nh s2) a)) # along entry (cells (nh s2)) bs" using s2(4) c(2) as by simp
      then show ?thesis by (metis hd_rev list.sel(1))
    qed
    moreover have "last as = a" using as by (metis hd_rev list.sel(1))
    ultimately show "wp (addNode3 p s2) (\<lambda>s'. \<exists>as'. nrep s' as' [last xs, (name, i)])"
      using reverse3_addNode3 [OF s2(1) _ _ s2(3)] t ne s2(2) as
      by (auto elim!: wp_conseq simp del: along_simps)
  qed
qed

lemma reverse3_then_enter3_witness:
  "\<exists>s. nlist_of [(''s1'', 1), (''s2'', 2), (''s3'', 3)] = ok s \<and>
     wp (bnd (reverse3 s) (enter3 ''s4'' 4)) (\<lambda>s'. \<exists>as'. nrep s' as' [(''s3'', 3), (''s4'', 4)])"
proof -
  obtain s as where s: "nlist_of [(''s1'', 1), (''s2'', 2), (''s3'', 3)] = ok s"
      "nrep s as [(''s1'', 1), (''s2'', 2), (''s3'', 3)]"
    by (rule nlist_ofE)
  from reverse3_then_enter3 [OF s(2), of "''s4''" 4] s(1) show ?thesis by simp
qed

end
