(* ===== verification/Menu_Stack.thy ===== *)
theory Menu_Stack
  imports List_Stack
begin

text \<open>
  \<open>DataStructure/stack/source6.cxx\<close>: the interactive stack.  \<open>pilha_main\<close> is the
  program on its heap; \<open>pilha_spec\<close> is the same dialogue on a list of numbers.  The
  simulation lemma says that for every input the two read and print the same, and that the
  program fails only where its input ends.
\<close>

section \<open>The program\<close>

record pilha = console +
  ph :: "int element heap"
  topo :: ptr

definition pilha_menu :: string where
  "pilha_menu = nl @ nl @ tab @ ''PILHA DESEMPLILHA COMO ESTRUTURA DINAMICA'' @
     nl @ tab @ ''MENU DE ESCOLHA'' @
     nl @ tab @ ''[1]-INSERIR NA PILHA'' @
     nl @ tab @ ''[2]-CONSULTAR TODA PILHA'' @
     nl @ tab @ ''[3]-REMOVER DO TOPO'' @
     nl @ tab @ ''[4]-DESEMPILHAR E REMOVER'' @
     nl @ tab @ ''[5]-ESVAZIAR A PILHA'' @
     nl @ tab @ ''[6]-SAIR'' @
     nl @ tab @ ''ESCOLHA: ''"

definition pilha_vazia :: string where
  "pilha_vazia = nl @ tab @ ''PILHA VAZIA!!!''"

definition ask_many :: string where
  "ask_many = nl @ tab @ ''QUANTOS NUMEROS DESEJA INSERIR?'' @ nl @ tab @ ''DIGITE: ''"

definition ask_pilha :: "int \<Rightarrow> string" where
  "ask_pilha i = nl @ tab @ ''INSIRA NA PILHA O NUMERO '' @ dec (i + 1) @ ordinal @ '': ''"

definition inserted_pilha :: "int \<Rightarrow> string" where
  "inserted_pilha x = nl @ tab @ ''NUMERO '' @ dec x @ '' INSERIDO COM SUCESSO!!!'' @ nl"

definition removed_pilha :: "int \<Rightarrow> string" where
  "removed_pilha x = nl @ tab @ ''NUMERO: '' @ dec x @ '' REMOVIDO COM SUCESSO!!!''"

definition pilha_inserir :: "pilha \<Rightarrow> pilha run" where
  "pilha_inserir s =
     bnd (read_int (print ask_many s)) (\<lambda>(s, qtd).
     for_up 0 qtd (\<lambda>i s.
       bnd (read_int (print (ask_pilha i) s)) (\<lambda>(s, x).
       let (h, novo) = alloc (ph s) \<lparr>nxt = Some (topo s), data = x\<rparr> in
       ok (print (inserted_pilha x) (s\<lparr>ph := h, topo := novo\<rparr>)))) s)"

definition pilha_consultar :: "pilha \<Rightarrow> pilha run" where
  "pilha_consultar s =
     (if topo s = null then ok (print pilha_vazia s)
      else bnd (print_cells (\<lambda>n. dec (data n) @ '' '') (ph s) (topo s)) (\<lambda>t.
        ok (print (nl @ tab @ ''PILHA COMPLETA: '' @ t) s)))"

definition pilha_remover :: "pilha \<Rightarrow> pilha run" where
  "pilha_remover s =
     (if topo s = null then ok (print pilha_vazia s)
      else bnd (ld (ph s) (topo s)) (\<lambda>n. bnd (get_next (ph s) (topo s)) (\<lambda>q.
        bnd (dispose (ph s) (topo s)) (\<lambda>h.
          ok ((print (removed_pilha (data n)) s)\<lparr>ph := h, topo := q\<rparr>)))))"

definition pilha_desempilhar :: "pilha \<Rightarrow> pilha run" where
  "pilha_desempilhar s =
     (if topo s = null then ok (print pilha_vazia s)
      else bnd (get_next (ph s) (topo s)) (\<lambda>q.
        if q \<noteq> null then
          bnd (get_next (ph s) q) (\<lambda>r.
          let aux = (if r \<noteq> null then r else null) in
          bnd (ld (ph s) q) (\<lambda>n.
          bnd (dispose (ph s) q) (\<lambda>h.
          bnd (set_next h (topo s) aux) (\<lambda>h.
            ok ((print (removed_pilha (data n)) s)\<lparr>ph := h\<rparr>)))))
        else ok s))"

definition pilha_esvaziar :: "pilha \<Rightarrow> pilha run" where
  "pilha_esvaziar s =
     (if topo s = null then ok (print pilha_vazia s)
      else bnd (free_list (ph s) (topo s)) (\<lambda>(h, q).
        ok (print (nl @ tab @ ''PILHA ESVAZIADA COM SUCESSO!!!!'') (s\<lparr>ph := h, topo := q\<rparr>))))"

definition pilha_escolha :: "int \<Rightarrow> pilha \<Rightarrow> pilha run" where
  "pilha_escolha esc s =
     (if esc = 1 then pilha_inserir s
      else if esc = 2 then pilha_consultar s
      else if esc = 3 then pilha_remover s
      else if esc = 4 then pilha_desempilhar s
      else if esc = 5 then pilha_esvaziar s
      else ok s)"

definition pilha_main :: "int list \<Rightarrow> pilha run" where
  "pilha_main input = menu_program pilha_menu 6 pilha_escolha
     \<lparr>inp = input, out = [], ph = empty_heap, topo = null\<rparr>"

section \<open>The dialogue on a list\<close>

record pilha_abs = console +
  pil :: "int list"

definition pilha_step :: "int \<Rightarrow> pilha_abs \<Rightarrow> pilha_abs run" where
  "pilha_step esc s =
     (if esc = 1 then
        bnd (read_int (print ask_many s)) (\<lambda>(s, qtd).
        for_up 0 qtd (\<lambda>i s.
          bnd (read_int (print (ask_pilha i) s)) (\<lambda>(s, x).
          ok (print (inserted_pilha x) (s\<lparr>pil := x # pil s\<rparr>)))) s)
      else if esc \<in> {2, 3, 4, 5} \<and> pil s = [] then ok (print pilha_vazia s)
      else if esc = 2 then ok (print (nl @ tab @ ''PILHA COMPLETA: '' @ blanks (pil s)) s)
      else if esc = 3 then ok (print (removed_pilha (hd (pil s))) s\<lparr>pil := tl (pil s)\<rparr>)
      else if esc = 4 then (case pil s of
          x # y # ys \<Rightarrow> ok (print (removed_pilha y) s\<lparr>pil := x # ys\<rparr>)
        | _ \<Rightarrow> ok s)
      else if esc = 5 then ok (print (nl @ tab @ ''PILHA ESVAZIADA COM SUCESSO!!!!'') s\<lparr>pil := []\<rparr>)
      else ok s)"

definition pilha_spec :: "int list \<Rightarrow> pilha_abs run" where
  "pilha_spec input = menu_program pilha_menu 6 pilha_step \<lparr>inp = input, out = [], pil = []\<rparr>"

section \<open>Simulation\<close>

definition pilha_rel :: "pilha \<Rightarrow> pilha_abs \<Rightarrow> bool" where
  "pilha_rel s a \<longleftrightarrow> inp s = inp a \<and> out s = out a \<and> list_at data (ph s) (topo s) (pil a)"

lemma print_fields [simp]:
  "ph (print t s) = ph s" "topo (print t s) = topo s" "pil (print t a) = pil a"
  by (simp_all add: print_def)

lemma pilha_rel_print [simp]: "pilha_rel s a \<Longrightarrow> pilha_rel (print t s) (print t a)"
  by (simp add: pilha_rel_def)

lemma pilha_inserir_sim:
  assumes "pilha_rel s a"
  shows "sim pilha_rel (pilha_inserir s) (pilha_step 1 a)"
  unfolding pilha_inserir_def pilha_step_def
  using assms
  by (auto simp: pilha_rel_def split: prod.split
      intro!: sim_bnd [where R = "rel_prod pilha_rel (=)"] sim_read_int sim_for_up [where R = pilha_rel]
      elim!: alloc_push)

lemma pilha_rel_null: "pilha_rel s a \<Longrightarrow> topo s = 0 \<longleftrightarrow> pil a = []"
  by (auto simp: pilha_rel_def dest: list_at_empty_iff)

lemma pilha_consultar_sim:
  assumes "pilha_rel s a"
  shows "sim pilha_rel (pilha_consultar s) (pilha_step 2 a)"
  using assms pilha_rel_null [OF assms]
  by (auto simp: pilha_consultar_def pilha_step_def pilha_rel_def blanks_def
      print_cells_list_at [where f = data and t = "\<lambda>x. dec x @ '' ''"])

lemma pilha_remover_sim:
  assumes "pilha_rel s a"
  shows "sim pilha_rel (pilha_remover s) (pilha_step 3 a)"
proof (cases "pil a")
  case Nil
  with pilha_rel_null [OF assms] assms show ?thesis by (simp add: pilha_remover_def pilha_step_def)
next
  case (Cons x xs)
  with assms have "list_at data (ph s) (topo s) (x # xs)" by (simp add: pilha_rel_def)
  with Cons assms show ?thesis
    by (auto simp: pilha_remover_def pilha_step_def ld_ok get_next_def init_ptr_def dispose_def
        pilha_rel_def elim!: list_at_ConsE)
qed

lemma pilha_desempilhar_sim:
  assumes "pilha_rel s a"
  shows "sim pilha_rel (pilha_desempilhar s) (pilha_step 4 a)"
proof (cases "pil a")
  case Nil
  with pilha_rel_null [OF assms] assms show ?thesis by (simp add: pilha_desempilhar_def pilha_step_def)
next
  case (Cons x xs)
  with assms have l: "list_at data (ph s) (topo s) (x # xs)" by (simp add: pilha_rel_def)
  show ?thesis
  proof (cases xs)
    case Nil
    with l Cons assms show ?thesis
      by (auto simp: pilha_desempilhar_def pilha_step_def ld_ok get_next_def init_ptr_def
          elim!: list_at_ConsE dest!: list_at_NilE)
  next
    case (Cons y ys)
    from l obtain as where "chain (ph s) (topo s) as" "along data (cells (ph s)) as = x # y # ys"
      by (auto simp: list_at_def Cons)
    moreover from this(2) obtain b c cs where as: "as = b # c # cs"
      by (cases as; cases "tl as") auto
    ultimately have c: "chain (ph s) (topo s) ([] @ b # c # cs)"
      and v: "along data (cells (ph s)) (b # c # cs) = x # y # ys" by auto
    obtain n k r where n: "cells (ph s) b = Some n" "0 < b" "nxt n = Some c" "cells (ph s) c = Some k"
        "0 < c" "nxt k = Some r" "c \<noteq> b"
      using c by (rule chain_splitE)
    note u = chain_unlink [OF c n(1,4,6)]
    have b: "topo s = b" using c by (simp add: chain_def)
    have eq: "put (del (ph s) c) b (n\<lparr>nxt := Some r\<rparr>) = del (put (ph s) b (n\<lparr>nxt := Some r\<rparr>)) c"
      using n(7) by (simp add: put_def fun_upd_twist)
    have "list_at data (del (put (ph s) b (n\<lparr>nxt := Some r\<rparr>)) c) b (x # ys)"
      unfolding list_at_def using u(2) u(4) [of data] v n
      by (intro exI [of _ "b # cs"]) (auto simp: b)
    then show ?thesis
      using n v eq \<open>pil a = x # xs\<close> Cons assms
      by (cases r) (simp_all add: pilha_desempilhar_def pilha_step_def get_next_def init_ptr_def ld_ok
          dispose_def set_next_def b pilha_rel_def st_def)
  qed
qed

lemma pilha_esvaziar_sim:
  assumes "pilha_rel s a"
  shows "sim pilha_rel (pilha_esvaziar s) (pilha_step 5 a)"
proof (cases "pil a = []")
  case True
  with pilha_rel_null [OF assms] assms show ?thesis by (simp add: pilha_esvaziar_def pilha_step_def)
next
  case False
  from assms obtain as where as: "chain (ph s) (topo s) as" by (auto simp: pilha_rel_def list_at_def)
  have "wp (pilha_esvaziar s) (\<lambda>s'. pilha_rel s'
      (print (nl @ tab @ ''PILHA ESVAZIADA COM SUCESSO!!!!'') a\<lparr>pil := []\<rparr>))"
    using False pilha_rel_null [OF assms] assms
    by (auto simp: pilha_esvaziar_def pilha_rel_def intro!: wp_conseq [OF free_list_chain [OF as]])
  with False show ?thesis by (auto simp: pilha_step_def intro: sim_wp_ok)
qed

interpretation pilha: safe_dialogue pilha_rel pilha_escolha pilha_step "{End_Of_Input}"
proof
  show "awaits {End_Of_Input} (length (inp a)) inp (pilha_step esc a)" for esc a
    unfolding pilha_step_def by (auto intro!: awaits_read awaits_for_up split: list.split)
next
  fix s a esc assume r: "pilha_rel s a"
  show "sim pilha_rel (pilha_escolha esc s) (pilha_step esc a)"
    using pilha_inserir_sim [OF r] pilha_consultar_sim [OF r] pilha_remover_sim [OF r]
      pilha_desempilhar_sim [OF r] pilha_esvaziar_sim [OF r] r
    by (auto simp: pilha_escolha_def pilha_step_def)
qed (auto simp: pilha_rel_def)

section \<open>Properties\<close>

text \<open>
  C27: on every input the interactive stack program (\<open>stack/source6.cxx\<close>) reads and prints the
  same as the dialogue on a list of numbers: whatever the sequence of choices, it never
  dereferences a null or dangling pointer and never loops: it returns or waits for more input.
\<close>

theorem pilha_main_refines:
  "sim (\<lambda>s a. out s = out a \<and> inp s = inp a) (pilha_main input) (pilha_spec input) \<and>
   ((\<exists>s. pilha_main input = ok s) \<or> pilha_main input = fail End_Of_Input)"
proof -
  have "pilha_rel \<lparr>inp = input, out = [], ph = empty_heap, topo = null\<rparr> \<lparr>inp = input, out = [], pil = []\<rparr>"
    by (auto simp: pilha_rel_def)
  from pilha.same_output [OF this] pilha.program_returns_or_waits [OF this] show ?thesis
    unfolding pilha_main_def pilha_spec_def by auto
qed

end
