(* ===== verification/Menu_Queue.thy ===== *)
theory Menu_Queue
  imports List_Stack
begin

text \<open>
  \<open>DataStructure/stack/source5.cxx\<close>: the interactive queue with a pointer to its last
  cell.  \<open>fila_main\<close> is the program, \<open>fila_step\<close> the same dialogue on a list; the
  interpretation of \<open>dialogue\<close> says they agree.  After the queue is emptied \<open>fim\<close>
  dangles; the relation asks nothing of it then, because the next insertion assigns it.
\<close>

record fila = console +
  fh :: "int element heap"
  inicio :: ptr
  fim :: ptr

definition fila_menu :: string where
  "fila_menu = nl @ tab @ ''LISTA DO TIPO FILA DINAMICA'' @
     nl @ tab @ ''MENU DE ESCOLHA'' @
     nl @ tab @ ''[1]-INSERIR NA FILA'' @
     nl @ tab @ ''[2]-CONSULTAR TODA A FILA'' @
     nl @ tab @ ''[3]-REMOVER DA FILA'' @
     nl @ tab @ ''[4]-ESVAZIAR A FILA'' @
     nl @ tab @ ''[5]-SAIR'' @
     nl @ tab @ ''ESCOLHA: ''"

definition fila_vazia :: string where
  "fila_vazia = nl @ tab @ ''FILA VAZIA ..!!!'' @ nl"

definition ask_many_fila :: string where
  "ask_many_fila = nl @ tab @ ''QUANTOS NUMEROS DESEJA INSERIR?'' @ nl @ tab @ ''DIGITE: ''"

definition ask_fila :: "int \<Rightarrow> string" where
  "ask_fila i = nl @ tab @ ''INSIRA NA FILA O NUMERO '' @ dec (i + 1) @ ordinal @ '': ''"

definition inserted_fila :: "int \<Rightarrow> string" where
  "inserted_fila x = nl @ tab @ ''NUMERO '' @ dec x @ '' INSERIDO COM SUCESSO ..!!!'' @ nl"

definition removed_fila :: "int \<Rightarrow> string" where
  "removed_fila x = nl @ tab @ ''NUMERO '' @ dec x @ '' REMOVIDO COM SUCESSO ..!!!'' @ nl"

definition emptied_fila :: string where
  "emptied_fila = nl @ tab @ ''FILA ESVAZIADA COM SUCESSO ...!!!!'' @ nl"

definition fila_link :: "int \<Rightarrow> fila \<Rightarrow> fila run" where
  "fila_link x s =
     (let (h, novo) = alloc (fh s) \<lparr>nxt = Some null, data = x\<rparr> in
      if inicio s = null then ok (s\<lparr>fh := h, inicio := novo, fim := novo\<rparr>)
      else bnd (set_next h (fim s) novo) (\<lambda>h. ok (s\<lparr>fh := h, fim := novo\<rparr>)))"

definition fila_inserir :: "fila \<Rightarrow> fila run" where
  "fila_inserir s =
     bnd (read_int (print ask_many_fila s)) (\<lambda>(s, qtd).
     for_up 0 qtd (\<lambda>i s.
       bnd (read_int (print (ask_fila i) s)) (\<lambda>(s, x).
       bnd (fila_link x s) (\<lambda>s. ok (print (inserted_fila x) s)))) s)"

definition fila_consultar :: "fila \<Rightarrow> fila run" where
  "fila_consultar s =
     (if inicio s = null then ok (print fila_vazia s)
      else bnd (print_cells (\<lambda>n. dec (data n) @ '' '') (fh s) (inicio s)) (\<lambda>t.
        ok (print (nl @ tab @ ''FILA COMPLETA: '' @ t @ nl) s)))"

definition fila_remover :: "fila \<Rightarrow> fila run" where
  "fila_remover s =
     (if inicio s = null then ok (print fila_vazia s)
      else bnd (ld (fh s) (inicio s)) (\<lambda>n. bnd (get_next (fh s) (inicio s)) (\<lambda>q.
        bnd (dispose (fh s) (inicio s)) (\<lambda>h.
          ok ((print (removed_fila (data n)) s)\<lparr>fh := h, inicio := q\<rparr>)))))"

definition fila_esvaziar :: "fila \<Rightarrow> fila run" where
  "fila_esvaziar s =
     (if inicio s = null then ok (print fila_vazia s)
      else bnd (free_list (fh s) (inicio s)) (\<lambda>(h, q).
        ok (print emptied_fila (s\<lparr>fh := h, inicio := q\<rparr>))))"

definition fila_escolha :: "int \<Rightarrow> fila \<Rightarrow> fila run" where
  "fila_escolha esc s =
     (if esc = 1 then fila_inserir s
      else if esc = 2 then fila_consultar s
      else if esc = 3 then fila_remover s
      else if esc = 4 then fila_esvaziar s
      else ok s)"

definition fila_main :: "int list \<Rightarrow> fila run" where
  "fila_main input = menu_program fila_menu 5 fila_escolha
     \<lparr>inp = input, out = [], fh = empty_heap, inicio = null, fim = null\<rparr>"

section \<open>The dialogue on a list\<close>

record fila_abs = console +
  fil :: "int list"

definition fila_step :: "int \<Rightarrow> fila_abs \<Rightarrow> fila_abs run" where
  "fila_step esc s =
     (if esc = 1 then
        bnd (read_int (print ask_many_fila s)) (\<lambda>(s, qtd).
        for_up 0 qtd (\<lambda>i s.
          bnd (read_int (print (ask_fila i) s)) (\<lambda>(s, x).
          ok (print (inserted_fila x) (s\<lparr>fil := fil s @ [x]\<rparr>)))) s)
      else if esc \<in> {2, 3, 4} \<and> fil s = [] then ok (print fila_vazia s)
      else if esc = 2 then ok (print (nl @ tab @ ''FILA COMPLETA: '' @ blanks (fil s) @ nl) s)
      else if esc = 3 then ok (print (removed_fila (hd (fil s))) s\<lparr>fil := tl (fil s)\<rparr>)
      else if esc = 4 then ok (print emptied_fila s\<lparr>fil := []\<rparr>)
      else ok s)"

definition fila_spec :: "int list \<Rightarrow> fila_abs run" where
  "fila_spec input = menu_program fila_menu 5 fila_step \<lparr>inp = input, out = [], fil = []\<rparr>"

section \<open>Simulation\<close>

definition fila_heap :: "int element heap \<Rightarrow> ptr \<Rightarrow> ptr \<Rightarrow> int list \<Rightarrow> bool" where
  "fila_heap h p f xs \<longleftrightarrow> (\<exists>as. chain h p as \<and> along data (cells h) as = xs \<and> (as \<noteq> [] \<longrightarrow> f = last as))"

definition fila_rel :: "fila \<Rightarrow> fila_abs \<Rightarrow> bool" where
  "fila_rel s a \<longleftrightarrow> inp s = inp a \<and> out s = out a \<and> fila_heap (fh s) (inicio s) (fim s) (fil a)"

lemma print_fila [simp]:
  "fh (print t s) = fh s" "inicio (print t s) = inicio s" "fim (print t s) = fim s"
  "fil (print t a) = fil a"
  by (simp_all add: print_def)

lemma fila_heap_list: "fila_heap h p f xs \<Longrightarrow> list_at data h p xs"
  by (auto simp: fila_heap_def list_at_def)

lemma fila_rel_null: "fila_rel s a \<Longrightarrow> inicio s = 0 \<longleftrightarrow> fil a = []"
  by (auto simp: fila_rel_def dest!: fila_heap_list dest: list_at_empty_iff)

lemma fila_link_rel:
  assumes "fila_rel s a"
  shows "sim fila_rel (fila_link x s) (ok (a\<lparr>fil := fil a @ [x]\<rparr>))"
proof (rule sim_wp_ok)
  from assms obtain as where as: "chain (fh s) (inicio s) as" "along data (cells (fh s)) as = fil a"
      "as \<noteq> [] \<longrightarrow> fim s = last as" and io: "inp s = inp a" "out s = out a"
    by (auto simp: fila_rel_def fila_heap_def)
  obtain h p where al: "alloc (fh s) \<lparr>nxt = Some null, data = x\<rparr> = (h, p)" by force
  have ok: "heap_ok (fh s)" using as(1) by (simp add: chain_def)
  note f = alloc_frame [OF ok al]
  show "wp (fila_link x s) (\<lambda>s'. fila_rel s' (a\<lparr>fil := fil a @ [x]\<rparr>))"
  proof (cases "as = []")
    case True
    have "chain h p [p]" using f(1,2,3) by (simp add: chain_def)
    with True as io f al show ?thesis
      by (auto simp: fila_link_def fila_rel_def fila_heap_def intro!: exI [of _ "[p]"])
  next
    case False
    note c = chain_snoc [OF as(1) False _ al]
    obtain n where n: "cells h (last as) = Some n" "0 < last as" using lseg_last [OF c(3) False] by auto
    have i0: "inicio s \<noteq> 0" using as(1) False by (auto simp: chain_def dest: lseg_start_null)
    have "put h (last as) (n\<lparr>nxt := Some p\<rparr>) = linked_last h as p" using n by (simp add: linked_last_def)
    moreover have "fila_heap (linked_last h as p) (inicio s) p (fil a @ [x])"
      unfolding fila_heap_def using c(1) c(2) [of data] as(2) by (intro exI [of _ "as @ [p]"]) auto
    ultimately show ?thesis
      using n i0 al as(3) False io by (simp add: fila_link_def fila_rel_def)
  qed
qed

lemma fila_inserir_sim:
  assumes "fila_rel s a"
  shows "sim fila_rel (fila_inserir s) (fila_step 1 a)"
proof -
  have body: "sim fila_rel (bnd (fila_link x s) (\<lambda>s. ok (print t s))) (ok (print t (a\<lparr>fil := fil a @ [x]\<rparr>)))"
    if "fila_rel s a" for x t s a
  proof -
    have "sim fila_rel (bnd (fila_link x s) (\<lambda>s. ok (print t s)))
        (bnd (ok (a\<lparr>fil := fil a @ [x]\<rparr>)) (\<lambda>a. ok (print t a)))"
      by (rule sim_bnd [OF fila_link_rel [OF that]]) (auto simp: fila_rel_def)
    then show ?thesis by simp
  qed
  have rd: "sim (rel_prod fila_rel (=)) (read_int (print t s)) (read_int (print t a))" if "fila_rel s a" for t s a
    by (rule sim_read_int) (use that in \<open>auto simp: fila_rel_def\<close>)
  show ?thesis
    unfolding fila_inserir_def fila_step_def
    using assms by (auto intro!: sim_bnd [OF rd] sim_for_up [where R = fila_rel] body)
qed

lemma fila_consultar_sim:
  assumes "fila_rel s a"
  shows "sim fila_rel (fila_consultar s) (fila_step 2 a)"
proof -
  have "list_at data (fh s) (inicio s) (fil a)" using assms by (auto simp: fila_rel_def dest: fila_heap_list)
  with assms fila_rel_null [OF assms] show ?thesis
    by (auto simp: fila_consultar_def fila_step_def fila_rel_def blanks_def
        print_cells_list_at [where f = data and t = "\<lambda>x. dec x @ '' ''"])
qed

lemma fila_heap_pop:
  assumes "fila_heap h p f (x # xs)"
  obtains n q where "0 < p" "cells h p = Some n" "data n = x" "nxt n = Some q" "fila_heap (del h p) q f xs"
proof -
  from assms obtain as where as: "chain h p as" "along data (cells h) as = x # xs" "as \<noteq> [] \<longrightarrow> f = last as"
    by (auto simp: fila_heap_def)
  then obtain b bs where bs: "as = b # bs" by (cases as) auto
  from as(1) obtain n q where n: "p = b" "0 < b" "cells h b = Some n" "nxt n = Some q" "b \<notin> set bs"
      "chain (del h b) q bs"
    unfolding bs by (rule chain_ConsE)
  then have "fila_heap (del h p) q f xs"
    unfolding fila_heap_def using as bs by (intro exI [of _ bs]) auto
  with n as bs show thesis by (intro that) auto
qed

lemma fila_remover_sim:
  assumes "fila_rel s a"
  shows "sim fila_rel (fila_remover s) (fila_step 3 a)"
proof (cases "fil a")
  case Nil
  with fila_rel_null [OF assms] assms show ?thesis by (auto simp: fila_remover_def fila_step_def fila_rel_def)
next
  case (Cons x xs)
  with assms have "fila_heap (fh s) (inicio s) (fim s) (x # xs)" by (simp add: fila_rel_def)
  with Cons assms show ?thesis
    by (auto simp: fila_remover_def fila_step_def ld_ok get_next_def init_ptr_def dispose_def
        fila_rel_def elim!: fila_heap_pop)
qed

lemma fila_esvaziar_sim:
  assumes "fila_rel s a"
  shows "sim fila_rel (fila_esvaziar s) (fila_step 4 a)"
proof (cases "fil a = []")
  case True
  with fila_rel_null [OF assms] assms show ?thesis by (auto simp: fila_esvaziar_def fila_step_def fila_rel_def)
next
  case False
  from assms obtain as where as: "chain (fh s) (inicio s) as" by (auto simp: fila_rel_def fila_heap_def)
  have "wp (fila_esvaziar s) (\<lambda>s'. fila_rel s' (print emptied_fila a\<lparr>fil := []\<rparr>))"
    using False fila_rel_null [OF assms] assms
    by (auto simp: fila_esvaziar_def fila_rel_def fila_heap_def intro!: wp_conseq [OF free_list_chain [OF as]])
  with False show ?thesis by (auto simp: fila_step_def intro: sim_wp_ok)
qed

interpretation fila: safe_dialogue fila_rel fila_escolha fila_step "{End_Of_Input}"
proof
  show "awaits {End_Of_Input} (length (inp a)) inp (fila_step esc a)" for esc a
    unfolding fila_step_def by (auto intro!: awaits_read awaits_for_up)
next
  fix s a esc assume r: "fila_rel s a"
  show "sim fila_rel (fila_escolha esc s) (fila_step esc a)"
    using fila_inserir_sim [OF r] fila_consultar_sim [OF r] fila_remover_sim [OF r]
      fila_esvaziar_sim [OF r] r
    by (auto simp: fila_escolha_def fila_step_def)
qed (auto simp: fila_rel_def)

section \<open>Properties\<close>

text \<open>
  C26: on every input the interactive queue program (\<open>stack/source5.cxx\<close>) reads and prints the
  same as the dialogue on a list of numbers: whatever the sequence of choices, it never
  dereferences a null or dangling pointer and never loops: it returns or waits for more input.
\<close>

theorem fila_main_refines:
  "sim (\<lambda>s a. out s = out a \<and> inp s = inp a) (fila_main input) (fila_spec input) \<and>
   ((\<exists>s. fila_main input = ok s) \<or> fila_main input = fail End_Of_Input)"
proof -
  have "fila_rel \<lparr>inp = input, out = [], fh = empty_heap, inicio = null, fim = null\<rparr> \<lparr>inp = input, out = [], fil = []\<rparr>"
    by (auto simp: fila_rel_def fila_heap_def)
  from fila.same_output [OF this] fila.program_returns_or_waits [OF this] show ?thesis
    unfolding fila_main_def fila_spec_def by auto
qed

end
