(* ===== verification/Cxx_DList.thy ===== *)
theory Cxx_DList
  imports Cxx_List
begin

text \<open>
  Doubly linked cells, for the programs of \<open>DataStructure/stack\<close> whose \<open>struct lista\<close>
  has the links \<open>prox\<close> (\<open>nxt\<close>) and \<open>ant\<close> (\<open>prv\<close>).  \<open>dl m b as e\<close> says that the
  cells \<open>as\<close> are linked both ways, with \<open>b\<close> before the first and \<open>e\<close> after the last;
  a null-terminated list has \<open>b = e = 0\<close>, a circular one closes on itself.
\<close>

record dnode = link +
  prv :: ptr
  num :: int

definition start :: "ptr list \<Rightarrow> ptr \<Rightarrow> ptr" where
  "start as e = (case as of [] \<Rightarrow> e | a # _ \<Rightarrow> a)"

lemma start_simps [simp]: "start [] e = e" "start (a # as) e = a"
  "start (as @ b # bs) e = start as b"
  by (simp_all add: start_def split: list.split)

primrec dl :: "(ptr \<Rightarrow> dnode option) \<Rightarrow> ptr \<Rightarrow> ptr list \<Rightarrow> ptr \<Rightarrow> bool" where
  "dl m b [] e \<longleftrightarrow> True"
| "dl m b (a # as) e \<longleftrightarrow> 0 < a \<and>
     (\<exists>n. m a = Some n \<and> prv n = b \<and> nxt n = Some (start as e) \<and> dl m a as e)"

lemma dl_append [simp]:
  "dl m b (as @ bs) e \<longleftrightarrow> dl m b as (start bs e) \<and> dl m (last (b # as)) bs e"
proof (induction as arbitrary: b)
  case (Cons a as)
  have "start (as @ bs) e = start as (start bs e)" by (cases as) auto
  with Cons show ?case by auto
qed simp

lemma dl_upd_other [simp]: "a \<notin> set as \<Longrightarrow> dl (m(a := v)) b as e \<longleftrightarrow> dl m b as e"
  by (induction as arbitrary: b) auto

lemma dl_cong: "(\<And>a. a \<in> set as \<Longrightarrow> m a = m' a) \<Longrightarrow> dl m b as e \<longleftrightarrow> dl m' b as e"
  by (induction as arbitrary: b) auto

lemma dl_lseg: "dl m b as e \<Longrightarrow> lseg m (start as e) as e"
  by (induction as arbitrary: b) auto

lemma dl_dom: "dl m b as e \<Longrightarrow> a \<in> set as \<Longrightarrow> 0 < a \<and> (\<exists>n. m a = Some n)"
  by (induction as arbitrary: b) auto

lemma dl_below_brk: "heap_ok h \<Longrightarrow> dl (cells h) b as e \<Longrightarrow> a \<in> set as \<Longrightarrow> a < brk h"
  by (drule (1) dl_dom) (auto dest: heap_okD)

lemma dl_start_null: "dl m b as 0 \<Longrightarrow> start as 0 = 0 \<longleftrightarrow> as = []"
  by (cases as) auto

section \<open>Field access\<close>

definition get_prev :: "dnode heap \<Rightarrow> ptr \<Rightarrow> ptr run" where
  "get_prev h p = bnd (ld h p) (\<lambda>n. ok (prv n))"

definition set_prev :: "dnode heap \<Rightarrow> ptr \<Rightarrow> ptr \<Rightarrow> dnode heap run" where
  "set_prev h p q = bnd (ld h p) (\<lambda>n. st h p (n\<lparr>prv := q\<rparr>))"

lemma wp_get_prev [simp]:
  "wp (get_prev h p) Q \<longleftrightarrow> 0 < p \<and> (\<exists>n. cells h p = Some n \<and> Q (prv n))"
  by (auto simp: get_prev_def)

lemma wp_set_prev [simp]:
  "wp (set_prev h p q) Q \<longleftrightarrow> 0 < p \<and> (\<exists>n. cells h p = Some n \<and> Q (put h p (n\<lparr>prv := q\<rparr>)))"
  by (auto simp: set_prev_def)

lemma field_simps_dnode [simp]:
  "num (n\<lparr>nxt := v\<rparr>) = num n" "num (n\<lparr>prv := w\<rparr>) = num n"
  "prv (n\<lparr>nxt := v\<rparr>) = prv n" "nxt (n\<lparr>prv := w\<rparr>) = nxt n"
  by simp_all

section \<open>Printing backwards\<close>

definition print_back :: "dnode heap \<Rightarrow> ptr \<Rightarrow> string run" where
  "print_back h p =
     bnd (while_run (\<lambda>(aux, t). ok (aux \<noteq> null))
            (\<lambda>(aux, t). bnd (ld h aux) (\<lambda>n. ok (prv n, t @ dec (num n) @ '' ''))) (p, []))
       (\<lambda>(aux, t). ok t)"

lemma print_back_dl:
  assumes "dl (cells h) 0 as e"
  shows "print_back h (last (0 # as)) = ok (blanks (rev (along num (cells h) as)))"
proof -
  have "wp (print_back h (last (0 # as))) (\<lambda>t. t = blanks (rev (along num (cells h) as)))"
    unfolding print_back_def wp_bnd
  proof (rule wp_while_list [where xs = "rev as" and I = "\<lambda>rs (cur, t). \<exists>e. dl (cells h) 0 (rev rs) e \<and>
      cur = last (0 # rev rs) \<and> t @ blanks (rev (along num (cells h) (rev rs))) = blanks (rev (along num (cells h) as))"])
    fix x rs s assume "case s of (cur, t) \<Rightarrow> \<exists>e. dl (cells h) 0 (rev (x # rs)) e \<and> cur = last (0 # rev (x # rs)) \<and>
        t @ blanks (rev (along num (cells h) (rev (x # rs)))) = blanks (rev (along num (cells h) as))"
    then obtain t e n where s: "s = (x, t)" "dl (cells h) 0 (rev rs) x" "0 < x" "cells h x = Some n"
        "prv n = last (0 # rev rs)"
        "t @ dec (num n) @ '' '' @ blanks (rev (along num (cells h) (rev rs))) = blanks (rev (along num (cells h) as))"
      by (cases s) auto
    then show "wp (case s of (aux, t) \<Rightarrow> ok (aux \<noteq> null)) (\<lambda>c. if c then
        wp (case s of (aux, t) \<Rightarrow> bnd (ld h aux) (\<lambda>n. ok (prv n, t @ dec (num n) @ '' '')))
        (\<lambda>(cur, t). \<exists>e. dl (cells h) 0 (rev rs) e \<and> cur = last (0 # rev rs) \<and>
           t @ blanks (rev (along num (cells h) (rev rs))) = blanks (rev (along num (cells h) as)))
        else wp (case s of (aux, t) \<Rightarrow> ok t) (\<lambda>t. t = blanks (rev (along num (cells h) as))))"
      by auto
  qed (use assms in auto)
  then show ?thesis by (simp add: wp_eq_ok)
qed

section \<open>Unlinking and linking in\<close>

text \<open>A cell between two others is taken out.\<close>

lemma dl_unlink:
  assumes "dl m b0 (bs @ b # a # c # cs) e" "distinct (bs @ b # a # c # cs)"
    and "m b = Some nb" "m c = Some nc"
  shows "dl (m(b \<mapsto> nb\<lparr>nxt := Some c\<rparr>, c \<mapsto> nc\<lparr>prv := b\<rparr>)) b0 (bs @ b # c # cs) e"
  using assms by auto

text \<open>A new cell between two others.\<close>

lemma dl_insert:
  assumes "dl m b0 (bs @ b # c # cs) e" "distinct (bs @ b # c # cs)" "q \<notin> set (bs @ b # c # cs)"
    and "m b = Some nb" "m c = Some nc" "0 < q" "m q = Some nq" "nxt nq = Some c" "prv nq = b"
  shows "dl (m(b \<mapsto> nb\<lparr>nxt := Some q\<rparr>, c \<mapsto> nc\<lparr>prv := q\<rparr>)) b0 (bs @ b # q # c # cs) e"
  using assms by auto

end
