(* ===== verification/Menu_Sorted.thy ===== *)
theory Menu_Sorted
  imports Cxx_DList
begin

text \<open>
  \<open>DataStructure/stack/source2.cxx\<close>: the interactive doubly linked list kept in ascending
  order.  \<open>lista_main\<close> is the program, \<open>lista_step\<close> the dialogue on a list of numbers
  (insertion is \<open>insort\<close>, removal \<open>filter\<close>), and the interpretation of
  \<open>dialogue\<close> says they agree.  The counter of removed cells is an unbounded integer, as
  the number of cells a heap can hold is.
\<close>

section \<open>The program\<close>

record lista = console +
  lh :: "dnode heap"
  ini :: ptr
  fin :: ptr

definition lista_menu :: string where
  "lista_menu = nl @ nl @ tab @ ''LISTA DUPLAMENTE ENCADEADA E ORDENADA'' @ nl @
     nl @ tab @ ''MENU DE ESCOLHA'' @
     nl @ tab @ ''[1]-INSERIR NA LISTA'' @
     nl @ tab @ ''[2]-CONSULTAR LISTA DO INICIO AO FIM'' @
     nl @ tab @ ''[3]-CONSULTAR LISTA DO FIM AO INICIO'' @
     nl @ tab @ ''[4]-REMOVER DA LISTA'' @
     nl @ tab @ ''[5]-ESVAZIAR A LISTA'' @
     nl @ tab @ ''[6]-SAIR'' @
     nl @ tab @ ''ESCOLHA: ''"

definition lista_vazia :: string where
  "lista_vazia = nl @ tab @ ''LISTA VAZIA ..!!!'' @ nl"

definition lista_ask :: string where
  "lista_ask = nl @ tab @ ''QUANTOS NUMEROS DESEJA INSERIR?'' @ nl @ tab @ ''DIGITE: ''"

definition lista_ask_num :: "int \<Rightarrow> string" where
  "lista_ask_num i = nl @ tab @ ''INSIRA NA LISTA O NUMERO '' @ dec (i + 1) @ ordinal @ '': ''"

definition lista_inserted :: "int \<Rightarrow> string" where
  "lista_inserted x = nl @ tab @ ''NUMERO '' @ dec x @ '' INSERIDO NA LISTA COM SUCESSO..!!!'' @ nl"

definition lista_removed :: "int \<Rightarrow> int \<Rightarrow> string" where
  "lista_removed x achou =
     (if achou = 0 then nl @ tab @ ''NUMERO '' @ dec x @ '' N'' @ A_tilde @ ''O ENCONTRADO ..!!!'' @ nl
      else nl @ tab @ ''NUMERO: '' @ dec x @ '' REMOVIDO '' @ dec achou @ '' VEZ..!!'' @ nl)"

definition lista_link :: "ptr \<Rightarrow> lista \<Rightarrow> lista run" where
  "lista_link novo s =
     (if ini s = null then
        bnd (set_next (lh s) novo null) (\<lambda>h. bnd (set_prev h novo null) (\<lambda>h.
          ok (s\<lparr>lh := h, ini := novo, fin := novo\<rparr>)))
      else
        bnd (ld (lh s) novo) (\<lambda>k.
        bnd (loop (\<lambda>aux. if aux = null then ok (Inr aux)
               else bnd (ld (lh s) aux) (\<lambda>n. if num k > num n then
                   bnd (get_next (lh s) aux) (\<lambda>q. ok (Inl q))
                 else ok (Inr aux))) (ini s)) (\<lambda>aux.
        if aux = ini s then
          bnd (set_next (lh s) novo (ini s)) (\<lambda>h.
          bnd (set_prev h novo null) (\<lambda>h.
          bnd (set_prev h (ini s) novo) (\<lambda>h. ok (s\<lparr>lh := h, ini := novo\<rparr>))))
        else if aux = null then
          bnd (set_next (lh s) (fin s) novo) (\<lambda>h.
          bnd (set_prev h novo (fin s)) (\<lambda>h.
          bnd (set_next h novo null) (\<lambda>h. ok (s\<lparr>lh := h, fin := novo\<rparr>))))
        else
          bnd (set_next (lh s) novo aux) (\<lambda>h.
          bnd (get_prev h aux) (\<lambda>b. bnd (set_next h b novo) (\<lambda>h.
          bnd (get_prev h aux) (\<lambda>b. bnd (set_prev h novo b) (\<lambda>h.
          bnd (set_prev h aux novo) (\<lambda>h. ok (s\<lparr>lh := h\<rparr>))))))))))"

definition lista_inserir :: "lista \<Rightarrow> lista run" where
  "lista_inserir s =
     bnd (read_int (print lista_ask s)) (\<lambda>(s, qtd).
     for_up 0 qtd (\<lambda>i s.
       bnd (read_int (print (lista_ask_num i) s)) (\<lambda>(s, x).
       let (h, novo) = alloc (lh s) \<lparr>nxt = Some null, prv = null, num = x\<rparr> in
       bnd (lista_link novo (s\<lparr>lh := h\<rparr>)) (\<lambda>s. ok (print (lista_inserted x) s)))) s)"

definition lista_do_inicio :: "lista \<Rightarrow> lista run" where
  "lista_do_inicio s =
     (if ini s = null then ok (print lista_vazia s)
      else bnd (print_cells (\<lambda>n. dec (num n) @ '' '') (lh s) (ini s)) (\<lambda>t.
        ok (print (nl @ tab @ ''CONSULTANDO A LISTA DO INICIO PARA O FIM: '' @ t) s)))"

definition lista_do_fim :: "lista \<Rightarrow> lista run" where
  "lista_do_fim s =
     (if ini s = null then ok (print lista_vazia s)
      else bnd (print_back (lh s) (fin s)) (\<lambda>t.
        ok (print (nl @ tab @ ''CONSULTANDO A LISTA DO FIM PARA O INICIO: '' @ t) s)))"

text \<open>One round of the removal loop; the state is the heap, the two ends, \<open>aux\<close> and \<open>achou\<close>.\<close>

definition lista_remove_step :: "int \<Rightarrow> dnode heap \<times> ptr \<times> ptr \<times> ptr \<times> int \<Rightarrow>
    (dnode heap \<times> ptr \<times> ptr \<times> ptr \<times> int) run" where
  "lista_remove_step numero = (\<lambda>(h, ini, fin, aux, achou).
     bnd (ld h aux) (\<lambda>n.
     if num n = numero then
       if aux = ini then
         bnd (get_next h aux) (\<lambda>ini.
         bnd (if ini \<noteq> null then set_prev h ini null else ok h) (\<lambda>h.
         bnd (dispose h aux) (\<lambda>h. ok (h, ini, fin, ini, achou + 1))))
       else if aux = fin then
         bnd (get_prev h fin) (\<lambda>fin.
         bnd (set_next h fin null) (\<lambda>h.
         bnd (dispose h aux) (\<lambda>h. ok (h, ini, fin, null, achou + 1))))
       else
         bnd (get_prev h aux) (\<lambda>b. bnd (get_next h aux) (\<lambda>c. bnd (set_next h b c) (\<lambda>h.
         bnd (get_next h aux) (\<lambda>c. bnd (get_prev h aux) (\<lambda>b. bnd (set_prev h c b) (\<lambda>h.
         bnd (get_next h aux) (\<lambda>aux2.
         bnd (dispose h aux) (\<lambda>h. ok (h, ini, fin, aux2, achou + 1)))))))))
     else bnd (get_next h aux) (\<lambda>q. ok (h, ini, fin, q, achou))))"

definition lista_remover :: "lista \<Rightarrow> lista run" where
  "lista_remover s =
     (if ini s = null then ok (print lista_vazia s)
      else
        bnd (read_int (print (nl @ tab @ ''REMOVA UM ELEMENTO DA LISTA: '') s)) (\<lambda>(s, numero).
        bnd (while_run (\<lambda>(h, i, f, aux, achou). ok (aux \<noteq> null)) (lista_remove_step numero)
               (lh s, ini s, fin s, ini s, 0)) (\<lambda>(h, i, f, aux, achou).
        ok (print (lista_removed numero achou) (s\<lparr>lh := h, ini := i, fin := f\<rparr>)))))"

definition lista_esvaziar :: "lista \<Rightarrow> lista run" where
  "lista_esvaziar s =
     (if ini s = null then ok (print (nl @ tab @ ''LISTA VAZIA ...!!!!'' @ nl) s)
      else bnd (free_list (lh s) (ini s)) (\<lambda>(h, q).
        ok (print (nl @ tab @ ''LISTA ESVAZIADA ..!!!'' @ nl) (s\<lparr>lh := h, ini := q\<rparr>))))"

definition lista_escolha :: "int \<Rightarrow> lista \<Rightarrow> lista run" where
  "lista_escolha esc s =
     (if esc = 1 then lista_inserir s
      else if esc = 2 then lista_do_inicio s
      else if esc = 3 then lista_do_fim s
      else if esc = 4 then lista_remover s
      else if esc = 5 then lista_esvaziar s
      else ok s)"

definition lista_main :: "int list \<Rightarrow> lista run" where
  "lista_main input = menu_program lista_menu 6 lista_escolha
     \<lparr>inp = input, out = [], lh = empty_heap, ini = null, fin = null\<rparr>"

section \<open>The dialogue on a list\<close>

record lista_abs = console +
  lis :: "int list"

definition lista_step :: "int \<Rightarrow> lista_abs \<Rightarrow> lista_abs run" where
  "lista_step esc s =
     (if esc = 1 then
        bnd (read_int (print lista_ask s)) (\<lambda>(s, qtd).
        for_up 0 qtd (\<lambda>i s.
          bnd (read_int (print (lista_ask_num i) s)) (\<lambda>(s, x).
          ok (print (lista_inserted x) (s\<lparr>lis := insort x (lis s)\<rparr>)))) s)
      else if esc \<in> {2, 3, 4} \<and> lis s = [] then ok (print lista_vazia s)
      else if esc = 2 then
        ok (print (nl @ tab @ ''CONSULTANDO A LISTA DO INICIO PARA O FIM: '' @ blanks (lis s)) s)
      else if esc = 3 then
        ok (print (nl @ tab @ ''CONSULTANDO A LISTA DO FIM PARA O INICIO: '' @ blanks (rev (lis s))) s)
      else if esc = 4 then
        bnd (read_int (print (nl @ tab @ ''REMOVA UM ELEMENTO DA LISTA: '') s)) (\<lambda>(s, x).
        ok (print (lista_removed x (int (count_list (lis s) x))) (s\<lparr>lis := filter (\<lambda>y. y \<noteq> x) (lis s)\<rparr>)))
      else if esc = 5 then
        ok (print (nl @ tab @ (if lis s = [] then ''LISTA VAZIA ...!!!!'' else ''LISTA ESVAZIADA ..!!!'') @ nl)
              (s\<lparr>lis := []\<rparr>))
      else ok s)"

definition lista_spec :: "int list \<Rightarrow> lista_abs run" where
  "lista_spec input = menu_program lista_menu 6 lista_step \<lparr>inp = input, out = [], lis = []\<rparr>"

section \<open>The representation\<close>

definition lista_cells :: "dnode heap \<Rightarrow> ptr \<Rightarrow> ptr \<Rightarrow> ptr list \<Rightarrow> int list \<Rightarrow> bool" where
  "lista_cells h p f as xs \<longleftrightarrow> heap_ok h \<and> distinct as \<and> dl (cells h) 0 as 0 \<and> p = start as 0 \<and>
     (as \<noteq> [] \<longrightarrow> f = last as) \<and> along num (cells h) as = xs"

lemma lista_cells_chain: "lista_cells h p f as xs \<Longrightarrow> chain h p as"
  by (auto simp: lista_cells_def chain_def dest: dl_lseg)

lemma lista_cells_null: "lista_cells h p f as xs \<Longrightarrow> p = 0 \<longleftrightarrow> as = []"
  by (auto simp: lista_cells_def dest: dl_start_null)

lemma insort_split: "insort x xs = takeWhile (\<lambda>y. y < x) xs @ x # dropWhile (\<lambda>y. y < x) xs" for x :: int
  by (induction xs) auto

text \<open>Linking a new cell in.\<close>

lemma lista_place:
  assumes "lseg (cells h) p as 0" "\<And>a. a \<in> set as \<Longrightarrow> cells h a \<noteq> None"
  shows "loop (\<lambda>aux. if aux = null then ok (Inr aux)
       else bnd (ld h aux) (\<lambda>n. if x > num n then
           bnd (get_next h aux) (\<lambda>q. ok (Inl q)) else ok (Inr aux))) p
     = ok (start (dropWhile (\<lambda>a. num (the (cells h a)) < x) as) 0)"
proof -
  let ?P = "\<lambda>a. num (the (cells h a)) < x"
  have "wp (loop (\<lambda>aux. if aux = null then ok (Inr aux)
       else bnd (ld h aux) (\<lambda>n. if x > num n then
           bnd (get_next h aux) (\<lambda>q. ok (Inl q)) else ok (Inr aux))) p)
     (\<lambda>q. q = start (dropWhile ?P as) 0)"
    by (rule wp_loop_list [where xs = as and
          I = "\<lambda>xs cur. lseg (cells h) cur xs 0 \<and> dropWhile ?P as = dropWhile ?P xs"])
      (use assms in \<open>auto simp del: dropWhile_eq_Nil_conv\<close>)
  then show ?thesis by (simp add: wp_eq_ok)
qed

lemma lista_link_cells:
  assumes "lista_cells (lh s) (ini s) (fin s) as xs" "q \<notin> set as" "0 < q"
    and "cells (lh s) q = Some \<lparr>nxt = Some 0, prv = 0, num = x\<rparr>"
  shows "wp (lista_link q s) (\<lambda>s'. inp s' = inp s \<and> out s' = out s \<and>
     (\<exists>as'. lista_cells (lh s') (ini s') (fin s') as' (insort x xs)))"
proof -
  let ?m = "cells (lh s)" and ?h = "lh s"
  let ?P = "\<lambda>a. num (the (?m a)) < x" and ?k = "\<lparr>nxt = Some 0, prv = 0, num = x\<rparr> :: dnode"
  from assms(1) have c: "heap_ok ?h" "distinct as" "dl ?m 0 as 0" "ini s = start as 0"
      "as \<noteq> [] \<longrightarrow> fin s = last as" and xs: "xs = along num ?m as"
    by (auto simp: lista_cells_def)
  have ins: "insort x xs = along num ?m (takeWhile ?P as) @ x # along num ?m (dropWhile ?P as)"
    unfolding insort_split xs along_def by (simp add: takeWhile_map dropWhile_map comp_def)
  show ?thesis
  proof (cases "as = []")
    case True
    with c assms(2-4) ins show ?thesis
      by (auto simp: lista_link_def lista_cells_def xs intro!: exI [of _ "[q]"])
  next
    case ne: False
    have i0: "ini s \<noteq> 0" using lista_cells_null [OF assms(1)] ne by simp
    have "lseg ?m (ini s) as 0" using dl_lseg [OF c(3)] c(4) by simp
    then have place: "loop (\<lambda>aux. if aux = null then ok (Inr aux)
       else bnd (ld ?h aux) (\<lambda>n. if num ?k > num n then
           bnd (get_next ?h aux) (\<lambda>q. ok (Inl q)) else ok (Inr aux))) (ini s)
        = ok (start (dropWhile ?P as) 0)"
      using lista_place [of ?h "ini s" as "num ?k"] dl_dom [OF c(3)] by fastforce
    obtain bs cs where bc: "bs = takeWhile ?P as" "cs = dropWhile ?P as" "as = bs @ cs"
      using takeWhile_dropWhile_id [of ?P as] by metis
    note place = place [folded bc(2)] and ins = ins [folded bc(1,2)]
    show ?thesis
    proof (cases bs rule: rev_cases)
      case Nil
      then obtain a cs' where cs: "cs = a # cs'" "as = a # cs'" using bc(3) ne by (cases cs) auto
      from c(3) obtain n where n: "0 < a" "?m a = Some n" "prv n = 0" "nxt n = Some (start cs' 0)" "dl ?m a cs' 0"
        by (auto simp: cs)
      have qa: "q \<noteq> a" using assms(2) cs by auto
      let ?h' = "put (put ?h q \<lparr>nxt = Some a, prv = 0, num = x\<rparr>) a (n\<lparr>prv := q\<rparr>)"
      have "insort x xs = x # xs" using ins Nil cs xs by simp
      moreover have "lista_cells ?h' q (fin s) (q # as) (x # xs)"
        using c n qa assms(2-4) by (auto simp: lista_cells_def cs xs)
      moreover have "ini s = a" using c(4) cs by simp
      ultimately show ?thesis
        using i0 place n qa assms(3,4) cs(1) by (simp add: lista_link_def) blast
    next
      case (snoc ds b)
      have as: "as = ds @ b # cs" using bc(3) snoc by simp
      have dist: "distinct (ds @ b # cs)" using c(2) as by simp
      show ?thesis
      proof (cases cs)
        case Nil
        from c(3) obtain n where n: "0 < b" "?m b = Some n" "prv n = last (0 # ds)" "nxt n = Some 0" "dl ?m 0 ds b"
          by (auto simp: as Nil)
        have qb: "q \<noteq> b" using assms(2) as by auto
        let ?h' = "put (put ?h b (n\<lparr>nxt := Some q\<rparr>)) q \<lparr>nxt = Some 0, prv = b, num = x\<rparr>"
        have "lista_cells ?h' (ini s) q (ds @ [b, q]) (xs @ [x])"
          using c n qb assms(2-4) dist by (auto simp: lista_cells_def as Nil xs)
        moreover have "insort x xs = xs @ [x]" using ins Nil as snoc xs by simp
        moreover have "fin s = b" using c(5) as Nil by simp
        ultimately show ?thesis
          using i0 place n qb assms(3,4) Nil by (simp add: lista_link_def) blast
      next
        case (Cons a cs')
        from c(3) obtain n k where n: "0 < b" "?m b = Some n" "0 < a" "?m a = Some k" "prv k = b"
          by (auto simp: as Cons)
        have ne': "q \<noteq> a" "q \<noteq> b" "a \<noteq> b" "a \<notin> set ds" using assms(2) as Cons dist by auto
        have ai: "a \<noteq> ini s" using c(4) as Cons dist by (cases ds) auto
        let ?m1 = "?m(q \<mapsto> \<lparr>nxt = Some a, prv = b, num = x\<rparr>)"
        have "dl ?m1 0 (ds @ b # a # cs') 0" using c(3) assms(2) as Cons by simp
        then have D: "dl (?m1(b \<mapsto> n\<lparr>nxt := Some q\<rparr>, a \<mapsto> k\<lparr>prv := q\<rparr>)) 0 (ds @ b # q # a # cs') 0"
          by (rule dl_insert [where nb = n and nc = k and nq = "\<lparr>nxt = Some a, prv = b, num = x\<rparr>"]) (use dist assms(2,3) as Cons n ne' in auto)
        let ?h' = "put (put (put ?h q \<lparr>nxt = Some a, prv = b, num = x\<rparr>) b (n\<lparr>nxt := Some q\<rparr>)) a (k\<lparr>prv := q\<rparr>)"
        have eq: "put (put (put ?h b (n\<lparr>nxt := Some q\<rparr>)) q \<lparr>nxt = Some a, prv = b, num = x\<rparr>) a (k\<lparr>prv := q\<rparr>) = ?h'"
          "put (put (put (put ?h q \<lparr>nxt = Some a, prv = 0, num = x\<rparr>) b (n\<lparr>nxt := Some q\<rparr>)) q
            \<lparr>nxt = Some a, prv = b, num = x\<rparr>) a (k\<lparr>prv := q\<rparr>) = ?h'"
          using ne' by (simp_all add: put_def fun_upd_twist)
        have "lista_cells ?h' (ini s) (fin s) (ds @ b # q # a # cs') (insort x xs)"
          using D c(1,4,5) assms(2-4) n ne' dist as Cons ins snoc
          by (auto simp: lista_cells_def)
        with i0 place n ne' ai assms(3,4) Cons show ?thesis
          by (simp add: lista_link_def eq) blast
      qed
    qed
  qed
qed

lemma heap_ok_cells: "heap_ok h \<Longrightarrow> brk h' = brk h \<Longrightarrow> dom (cells h') \<subseteq> dom (cells h) \<Longrightarrow> heap_ok h'"
  by (auto simp: heap_ok_def)

text \<open>One round of the removal loop at a cell that holds the number: the cell is unlinked and deleted.\<close>

lemma lista_cells_del_first:
  assumes "lista_cells h i f (a # cs) (x # zs)"
  shows "wp (lista_remove_step x (h, i, f, a, k)) (\<lambda>(h', i', f', aux, k').
     aux = start cs 0 \<and> k' = k + 1 \<and> lista_cells h' i' f' cs zs)"
proof -
  from assms obtain n where n: "heap_ok h" "distinct (a # cs)" "0 < a" "cells h a = Some n" "nxt n = Some (start cs 0)"
      "dl (cells h) a cs 0" "i = a" "num n = x" "along num (cells h) cs = zs" "f = last (a # cs)"
    by (auto simp: lista_cells_def)
  show ?thesis
  proof (cases cs)
    case Nil
    with n show ?thesis by (simp add: lista_remove_step_def lista_cells_def)
  next
    case (Cons c cs')
    with n(6) obtain m where m: "0 < c" "cells h c = Some m" "nxt m = Some (start cs' 0)" "dl (cells h) c cs' 0" by auto
    with n Cons show ?thesis
      by (auto simp: lista_remove_step_def lista_cells_def intro!: heap_ok_cells [of h] split: if_splits)
  qed
qed

lemma lista_cells_del_last:
  assumes "lista_cells h i f (ds @ [b, a]) (ys @ [x])"
  shows "wp (lista_remove_step x (h, i, f, a, k)) (\<lambda>(h', i', f', aux, k').
     aux = 0 \<and> k' = k + 1 \<and> lista_cells h' i' f' (ds @ [b]) ys)"
proof -
  from assms obtain n m where n: "heap_ok h" "distinct (ds @ [b, a])" "0 < a" "cells h a = Some n" "prv n = b"
      "0 < b" "cells h b = Some m" "prv m = last (0 # ds)" "dl (cells h) 0 ds b" "i = start ds b" "num n = x" "f = a"
      "along num (cells h) (ds @ [b]) = ys"
    by (auto simp: lista_cells_def)
  moreover have "i \<noteq> a" using n(2,10) by (cases ds) auto
  ultimately show ?thesis
    by (auto simp: lista_remove_step_def lista_cells_def intro!: heap_ok_cells [of h] split: if_splits)
qed

lemma lista_cells_del_mid:
  assumes "lista_cells h i f (ds @ b # a # c # cs) (ys @ x # zs)" "length ys = Suc (length ds)"
  shows "wp (lista_remove_step x (h, i, f, a, k)) (\<lambda>(h', i', f', aux, k').
     aux = c \<and> k' = k + 1 \<and> lista_cells h' i' f' (ds @ b # c # cs) (ys @ zs))"
proof -
  from assms obtain na nb nc where n: "heap_ok h" "distinct (ds @ b # a # c # cs)" "0 < a" "cells h a = Some na"
      "prv na = b" "nxt na = Some c" "0 < b" "cells h b = Some nb" "0 < c" "cells h c = Some nc"
      "i = start ds b" "f = last (c # cs)" and D: "dl (cells h) 0 (ds @ b # a # c # cs) 0"
      and "along num (cells h) (ds @ [b]) @ num na # along num (cells h) (c # cs) = ys @ x # zs"
    by (auto simp: lista_cells_def)
  then have al: "along num (cells h) (ds @ [b]) = ys" "num na = x" "along num (cells h) (c # cs) = zs"
    using assms(2) by (simp_all add: append_eq_append_conv del: along_simps(2,3))
  have i: "i \<noteq> a" using n(2,11) by (cases ds) auto
  have f: "f \<noteq> a" using n(2,12) by (auto split: if_splits)
  let ?h = "del (put (put h b (nb\<lparr>nxt := Some c\<rparr>)) c (nc\<lparr>prv := b\<rparr>)) a"
  have "dl (cells ?h) 0 (ds @ b # c # cs) 0"
    using dl_unlink [OF D n(2,8,10)] n(2) by simp
  moreover have "along num (cells ?h) (ds @ b # c # cs) = ys @ zs"
    using al n by (auto simp del: along_simps simp: along_def)
  ultimately have "lista_cells ?h i f (ds @ b # c # cs) (ys @ zs)"
    using n by (auto simp: lista_cells_def intro!: heap_ok_cells [of h] split: if_splits)
  then show ?thesis using n(2-10) al(2) i f by (auto simp: lista_remove_step_def)
qed

lemma lista_cells_del:
  assumes "lista_cells h i f (bs @ a # cs) (ys @ x # zs)" "length bs = length ys"
  shows "wp (lista_remove_step x (h, i, f, a, k)) (\<lambda>(h', i', f', aux, k').
     aux = start cs 0 \<and> k' = k + 1 \<and> lista_cells h' i' f' (bs @ cs) (ys @ zs))"
proof (cases bs rule: rev_cases)
  case Nil
  with assms show ?thesis using lista_cells_del_first [of h i f a cs x zs k] by simp
next
  case (snoc ds b)
  note bs = this
  show ?thesis
  proof (cases cs)
    case Nil
    with assms bs have "zs = []" by (auto simp: lista_cells_def dest: arg_cong [of _ _ length])
    with assms bs Nil show ?thesis using lista_cells_del_last [of h i f ds b a ys x k] by simp
  next
    case (Cons c cs')
    with assms bs show ?thesis using lista_cells_del_mid [of h i f ds b a c cs' ys x zs k] by simp
  qed
qed

lemma lista_cells_skip:
  assumes "lista_cells h i f (bs @ a # cs) (ys @ z # zs)" "length bs = length ys" "z \<noteq> x"
  shows "lista_remove_step x (h, i, f, a, k) = ok (h, i, f, start cs 0, k)"
proof -
  from assms obtain n where n: "0 < a" "cells h a = Some n" "nxt n = Some (start cs 0)"
      and "along num (cells h) bs @ num n # along num (cells h) cs = ys @ z # zs"
    by (auto simp: lista_cells_def)
  then have "num n = z" using assms(2) by (simp add: append_eq_append_conv)
  with n assms(3) show ?thesis by (simp add: lista_remove_step_def ld_ok get_next_def init_ptr_def)
qed

definition lista_swept :: "int \<Rightarrow> int list \<Rightarrow> ptr list \<Rightarrow> dnode heap \<times> ptr \<times> ptr \<times> ptr \<times> int \<Rightarrow> bool" where
  "lista_swept x xs cs = (\<lambda>(h, i, f, aux, k). \<exists>bs us zs. xs = us @ zs \<and>
     lista_cells h i f (bs @ cs) (filter (\<lambda>y. y \<noteq> x) us @ zs) \<and>
     length bs = length (filter (\<lambda>y. y \<noteq> x) us) \<and> aux = start cs 0 \<and> k = int (count_list us x))"

lemma lista_sweptI:
  "xs = us @ zs \<Longrightarrow> lista_cells h i f (bs @ cs) (filter (\<lambda>y. y \<noteq> x) us @ zs) \<Longrightarrow>
   length bs = length (filter (\<lambda>y. y \<noteq> x) us) \<Longrightarrow> aux = start cs 0 \<Longrightarrow> k = int (count_list us x) \<Longrightarrow>
   lista_swept x xs cs (h, i, f, aux, k)"
  unfolding lista_swept_def by blast

lemma lista_swept_step:
  assumes "lista_swept x xs (c # cs) s"
  shows "wp (lista_remove_step x s) (lista_swept x xs cs)"
proof -
  let ?F = "filter (\<lambda>y. y \<noteq> x)"
  obtain h i f a k where s: "s = (h, i, f, a, k)" by (cases s)
  with assms obtain bs us zs0 where "xs = us @ zs0" "lista_cells h i f (bs @ c # cs) (?F us @ zs0)"
      "length bs = length (?F us)" "a = c" "k = int (count_list us x)"
    by (auto simp: lista_swept_def)
  moreover from this(2,3) obtain z zs where "zs0 = z # zs"
    by (cases zs0) (auto simp: lista_cells_def dest!: arg_cong [of _ _ length])
  ultimately have *: "xs = us @ z # zs" "lista_cells h i f (bs @ a # cs) (?F us @ z # zs)"
      "length bs = length (?F us)" "a = c" "k = int (count_list us x)"
    by auto
  show ?thesis
  proof (cases "z = x")
    case True
    show ?thesis
      unfolding s
      by (rule wp_conseq [OF lista_cells_del [of h i f bs a cs "?F us" x zs k]])
        (use * True in \<open>auto intro!: lista_sweptI [where bs = bs and us = "us @ [x]" and zs = zs]\<close>)
  next
    case False
    with * show ?thesis
      unfolding s lista_cells_skip [OF *(2,3) False]
      by (auto intro!: lista_sweptI [where bs = "bs @ [a]" and us = "us @ [z]" and zs = zs])
  qed
qed

lemma lista_swept_aux: "lista_swept x xs cs (h, i, f, aux, k) \<Longrightarrow> aux = 0 \<longleftrightarrow> cs = []"
  by (auto simp: lista_swept_def lista_cells_def dest: dl_start_null)

lemma lista_remove_loop:
  assumes "lista_cells h i f as xs"
  shows "wp (while_run (\<lambda>(h, i, f, aux, achou). ok (aux \<noteq> null)) (lista_remove_step x) (h, i, f, i, 0))
     (\<lambda>(h', i', f', aux, k). k = int (count_list xs x) \<and> (\<exists>as'. lista_cells h' i' f' as' (filter (\<lambda>y. y \<noteq> x) xs)))"
proof (rule wp_while_list [where xs = as and I = "lista_swept x xs"])
  show "lista_swept x xs as (h, i, f, i, 0)"
    using assms unfolding lista_swept_def prod.case
    by (intro exI [of _ "[]"] exI [of _ xs]) (auto simp: lista_cells_def)
next
  fix c cs and s :: "dnode heap \<times> ptr \<times> ptr \<times> ptr \<times> int" assume I: "lista_swept x xs (c # cs) s"
  then have "case s of (h, i, f, aux, k) \<Rightarrow> aux \<noteq> 0" by (cases s) (use I in \<open>auto dest: lista_swept_aux\<close>)
  with lista_swept_step [OF I] show "wp (case s of (h, i, f, aux, achou) \<Rightarrow> ok (aux \<noteq> null)) (\<lambda>t. if t
      then wp (lista_remove_step x s) (lista_swept x xs cs)
      else case s of (h', i', f', aux, k) \<Rightarrow> k = int (count_list xs x) \<and>
        (\<exists>as'. lista_cells h' i' f' as' (filter (\<lambda>y. y \<noteq> x) xs)))"
    by (cases s) simp
next
  fix s :: "dnode heap \<times> ptr \<times> ptr \<times> ptr \<times> int" assume "lista_swept x xs [] s"
  moreover have "zs = []" if "lista_cells h i f bs (us @ zs)" "length bs = length us" for h i f bs us zs
    using that by (auto simp: lista_cells_def dest!: arg_cong [of _ _ length])
  ultimately show "wp (case s of (h, i, f, aux, achou) \<Rightarrow> ok (aux \<noteq> null)) (\<lambda>t. \<not> t \<and>
      (case s of (h', i', f', aux, k) \<Rightarrow> k = int (count_list xs x) \<and>
        (\<exists>as'. lista_cells h' i' f' as' (filter (\<lambda>y. y \<noteq> x) xs))))"
    by (cases s) (fastforce simp: lista_swept_def)
qed

section \<open>Simulation\<close>

definition lista_rel :: "lista \<Rightarrow> lista_abs \<Rightarrow> bool" where
  "lista_rel s a \<longleftrightarrow> inp s = inp a \<and> out s = out a \<and> (\<exists>as. lista_cells (lh s) (ini s) (fin s) as (lis a))"

lemma print_lista [simp]:
  "lh (print t s) = lh s" "ini (print t s) = ini s" "fin (print t s) = fin s" "lis (print t a) = lis a"
  by (simp_all add: print_def)

lemma lista_rel_null: "lista_rel s a \<Longrightarrow> ini s = 0 \<longleftrightarrow> lis a = []"
  unfolding lista_rel_def by (metis lista_cells_def lista_cells_null along_Nil_iff(1))

lemma lista_cells_alloc:
  assumes "lista_cells h p f as xs" "alloc h \<lparr>nxt = Some 0, prv = 0, num = x\<rparr> = (h', q)"
  shows "lista_cells h' p f as xs" "q \<notin> set as" "0 < q" "cells h' q = Some \<lparr>nxt = Some 0, prv = 0, num = x\<rparr>"
proof -
  have ok: "heap_ok h" and dl: "dl (cells h) 0 as 0" using assms(1) by (auto simp: lista_cells_def)
  note fr = alloc_frame [OF ok assms(2)]
  have h': "cells h' = (cells h)(q \<mapsto> \<lparr>nxt = Some 0, prv = 0, num = x\<rparr>)"
    using assms(2) by (auto simp: alloc_def put_def)
  show q: "q \<notin> set as" using fr(5) [OF lista_cells_chain [OF assms(1)]] .
  show "lista_cells h' p f as xs" using assms(1) q fr(1) h' by (auto simp: lista_cells_def)
  show "0 < q" "cells h' q = Some \<lparr>nxt = Some 0, prv = 0, num = x\<rparr>" using fr by simp_all
qed

lemma lista_link_sim:
  assumes "lista_rel s a" "alloc (lh s) \<lparr>nxt = Some 0, prv = 0, num = x\<rparr> = (h, q)"
  shows "sim lista_rel (lista_link q (s\<lparr>lh := h\<rparr>)) (ok (a\<lparr>lis := insort x (lis a)\<rparr>))"
proof (rule sim_wp_ok)
  from assms(1) obtain as where as: "lista_cells (lh s) (ini s) (fin s) as (lis a)" "inp s = inp a" "out s = out a"
    by (auto simp: lista_rel_def)
  note al = lista_cells_alloc [OF as(1) assms(2)]
  show "wp (lista_link q (s\<lparr>lh := h\<rparr>)) (\<lambda>s'. lista_rel s' (a\<lparr>lis := insort x (lis a)\<rparr>))"
    by (rule wp_conseq [OF lista_link_cells [of "s\<lparr>lh := h\<rparr>" as "lis a" q x]])
      (use al as in \<open>auto simp: lista_rel_def\<close>)
qed

lemma lista_inserir_sim:
  assumes "lista_rel s a"
  shows "sim lista_rel (lista_inserir s) (lista_step 1 a)"
proof -
  have body: "sim lista_rel (let (h, novo) = alloc (lh s) \<lparr>nxt = Some null, prv = null, num = x\<rparr> in
       bnd (lista_link novo (s\<lparr>lh := h\<rparr>)) (\<lambda>s. ok (print t s))) (ok (print t (a\<lparr>lis := insort x (lis a)\<rparr>)))"
    if "lista_rel s a" for x t s a
  proof -
    obtain h q where al: "alloc (lh s) \<lparr>nxt = Some null, prv = null, num = x\<rparr> = (h, q)" by force
    have "sim lista_rel (bnd (lista_link q (s\<lparr>lh := h\<rparr>)) (\<lambda>s. ok (print t s)))
        (bnd (ok (a\<lparr>lis := insort x (lis a)\<rparr>)) (\<lambda>a. ok (print t a)))"
      by (rule sim_bnd [OF lista_link_sim [OF that al]]) (auto simp: lista_rel_def)
    with al show ?thesis by simp
  qed
  have rd: "sim (rel_prod lista_rel (=)) (read_int (print t s)) (read_int (print t a))" if "lista_rel s a" for t s a
    by (rule sim_read_int) (use that in \<open>auto simp: lista_rel_def\<close>)
  show ?thesis
    unfolding lista_inserir_def lista_step_def
    using assms by (auto intro!: sim_bnd [OF rd] sim_for_up [where R = lista_rel] body [unfolded Let_def])
qed

lemma lista_do_inicio_sim:
  assumes "lista_rel s a"
  shows "sim lista_rel (lista_do_inicio s) (lista_step 2 a)"
proof -
  from assms obtain as where as: "lista_cells (lh s) (ini s) (fin s) as (lis a)" by (auto simp: lista_rel_def)
  have "list_at num (lh s) (ini s) (lis a)"
    using lista_cells_chain [OF as] as by (auto simp: list_at_def lista_cells_def)
  with assms lista_rel_null [OF assms] show ?thesis
    by (auto simp: lista_do_inicio_def lista_step_def lista_rel_def blanks_def
        print_cells_list_at [where f = num and t = "\<lambda>x. dec x @ '' ''"])
qed

lemma lista_do_fim_sim:
  assumes "lista_rel s a"
  shows "sim lista_rel (lista_do_fim s) (lista_step 3 a)"
proof (cases "lis a = []")
  case True
  with assms lista_rel_null [OF assms] show ?thesis by (auto simp: lista_do_fim_def lista_step_def lista_rel_def)
next
  case False
  from assms obtain as where as: "lista_cells (lh s) (ini s) (fin s) as (lis a)" by (auto simp: lista_rel_def)
  with False have "print_back (lh s) (fin s) = ok (blanks (rev (lis a)))"
    using print_back_dl [of "lh s" as 0] by (auto simp: lista_cells_def split: if_splits)
  with False assms lista_rel_null [OF assms] show ?thesis
    by (auto simp: lista_do_fim_def lista_step_def lista_rel_def)
qed

lemma lista_remover_sim:
  assumes "lista_rel s a"
  shows "sim lista_rel (lista_remover s) (lista_step 4 a)"
proof (cases "lis a = []")
  case True
  with assms lista_rel_null [OF assms] show ?thesis by (auto simp: lista_remover_def lista_step_def lista_rel_def)
next
  case False
  have rd: "sim (rel_prod lista_rel (=)) (read_int (print t s)) (read_int (print t a))" for t
    by (rule sim_read_int) (use assms in \<open>auto simp: lista_rel_def\<close>)
  have loop: "sim lista_rel
       (bnd (while_run (\<lambda>(h, i, f, aux, achou). ok (aux \<noteq> null)) (lista_remove_step x) (lh s, ini s, fin s, ini s, 0))
         (\<lambda>(h, i, f, aux, achou). ok (print (lista_removed x achou) (s\<lparr>lh := h, ini := i, fin := f\<rparr>))))
       (ok (print (lista_removed x (int (count_list (lis a) x))) (a\<lparr>lis := filter (\<lambda>y. y \<noteq> x) (lis a)\<rparr>)))"
    if "lista_rel s a" for s a x
  proof -
    from that obtain as where as: "lista_cells (lh s) (ini s) (fin s) as (lis a)" "inp s = inp a" "out s = out a"
      by (auto simp: lista_rel_def)
    show ?thesis
      by (rule sim_wp_bnd, rule wp_conseq [OF lista_remove_loop [OF as(1)]])
        (use as in \<open>auto simp: lista_rel_def\<close>)
  qed
  from False lista_rel_null [OF assms] show ?thesis
    unfolding lista_remover_def lista_step_def by (auto simp del: neq0_conv intro!: sim_bnd [OF rd] loop)
qed

lemma lista_esvaziar_sim:
  assumes "lista_rel s a"
  shows "sim lista_rel (lista_esvaziar s) (lista_step 5 a)"
proof (cases "lis a = []")
  case True
  with assms lista_rel_null [OF assms] show ?thesis by (auto simp: lista_esvaziar_def lista_step_def lista_rel_def)
next
  case False
  from assms obtain as where as: "lista_cells (lh s) (ini s) (fin s) as (lis a)" by (auto simp: lista_rel_def)
  have "wp (lista_esvaziar s) (\<lambda>s'. lista_rel s'
      (print (nl @ tab @ ''LISTA ESVAZIADA ..!!!'' @ nl) (a\<lparr>lis := []\<rparr>)))"
    using False lista_rel_null [OF assms] assms
    by (auto simp: lista_esvaziar_def lista_rel_def lista_cells_def
        intro!: wp_conseq [OF free_list_chain [OF lista_cells_chain [OF as]]])
  with False show ?thesis by (auto simp: lista_step_def intro: sim_wp_ok)
qed

interpretation lista: safe_dialogue lista_rel lista_escolha lista_step "{End_Of_Input}"
proof
  show "awaits {End_Of_Input} (length (inp a)) inp (lista_step esc a)" for esc a
    unfolding lista_step_def by (auto intro!: awaits_read awaits_for_up)
next
  fix s a esc assume r: "lista_rel s a"
  show "sim lista_rel (lista_escolha esc s) (lista_step esc a)"
    using lista_inserir_sim [OF r] lista_do_inicio_sim [OF r] lista_do_fim_sim [OF r]
      lista_remover_sim [OF r] lista_esvaziar_sim [OF r] r
    by (auto simp: lista_escolha_def lista_step_def)
qed (auto simp: lista_rel_def)

section \<open>Properties\<close>

text \<open>
  C23: on every input the interactive sorted list program (\<open>stack/source2.cxx\<close>) reads and prints the
  same as the dialogue on a list of numbers: whatever the sequence of choices, it never
  dereferences a null or dangling pointer and never loops: it returns or waits for more input.
\<close>

theorem lista_main_refines:
  "sim (\<lambda>s a. out s = out a \<and> inp s = inp a) (lista_main input) (lista_spec input) \<and>
   ((\<exists>s. lista_main input = ok s) \<or> lista_main input = fail End_Of_Input)"
proof -
  have "lista_rel \<lparr>inp = input, out = [], lh = empty_heap, ini = null, fin = null\<rparr> \<lparr>inp = input, out = [], lis = []\<rparr>"
    by (auto simp: lista_rel_def lista_cells_def intro!: exI [of _ \<open>[]\<close>])
  from lista.same_output [OF this] lista.program_returns_or_waits [OF this] show ?thesis
    unfolding lista_main_def lista_spec_def by auto
qed

end
