(* ===== verification/Cxx_Ring.thy ===== *)
theory Cxx_Ring
  imports Cxx_DList
begin

text \<open>
  Circular lists, for \<open>DataStructure/stack/source3.cxx\<close> and \<open>source4.cxx\<close>.
  \<open>ring h p f as\<close> says that the links \<open>prox\<close> go from the first cell \<open>p\<close> through
  \<open>as\<close> to the last cell \<open>f\<close> and back to \<open>p\<close>; an empty ring is \<open>p = 0\<close>, with
  nothing said of \<open>f\<close>.  The do-while walks the programs share are here, too.
\<close>

section \<open>Rings\<close>

primrec sl :: "(ptr \<Rightarrow> 'n link_scheme option) \<Rightarrow> ptr list \<Rightarrow> ptr \<Rightarrow> bool" where
  "sl m [] e \<longleftrightarrow> True"
| "sl m (a # as) e \<longleftrightarrow> 0 < a \<and> (\<exists>n. m a = Some n \<and> nxt n = Some (start as e) \<and> sl m as e)"

lemma start_append: "start (as @ bs) e = start as (start bs e)"
  by (cases as) auto

lemma sl_append [simp]: "sl m (as @ bs) e \<longleftrightarrow> sl m as (start bs e) \<and> sl m bs e"
  by (induction as) (auto simp: start_append)

lemma sl_upd_other [simp]: "a \<notin> set as \<Longrightarrow> sl (m(a := v)) as e \<longleftrightarrow> sl m as e"
  by (induction as) auto

lemma sl_dom: "sl m as e \<Longrightarrow> a \<in> set as \<Longrightarrow> 0 < a \<and> (\<exists>n. m a = Some n)"
  by (induction as) auto

lemma sl_lseg: "sl m as e \<Longrightarrow> lseg m (start as e) as e"
  by (induction as) auto

definition ring :: "'n link_scheme heap \<Rightarrow> ptr \<Rightarrow> ptr \<Rightarrow> ptr list \<Rightarrow> bool" where
  "ring h p f as \<longleftrightarrow> heap_ok h \<and> distinct as \<and> sl (cells h) as p \<and> p = start as 0 \<and>
     (as \<noteq> [] \<longrightarrow> f = last as)"

lemma ring_null: "ring h p f as \<Longrightarrow> p = 0 \<longleftrightarrow> as = []"
  by (cases as) (auto simp: ring_def)

lemma ring_empty [simp]: "ring h 0 f [] \<longleftrightarrow> heap_ok h"
  by (simp add: ring_def)

lemma ring_ends: "ring h p f as \<Longrightarrow> as \<noteq> [] \<Longrightarrow> p = f \<longleftrightarrow> length as = 1"
  by (cases as; cases "tl as") (auto simp: ring_def)

lemma heap_ok_mono: "heap_ok h \<Longrightarrow> brk h' = brk h \<Longrightarrow> dom (cells h') \<subseteq> dom (cells h) \<Longrightarrow> heap_ok h'"
  by (auto simp: heap_ok_def)

section \<open>Walking round\<close>

text \<open>\<open>aux = inicio; do { ... aux = aux->prox; } while (aux != inicio);\<close>\<close>

definition print_ring :: "('n link_scheme \<Rightarrow> string) \<Rightarrow> 'n link_scheme heap \<Rightarrow> ptr \<Rightarrow> string run" where
  "print_ring g h p =
     loop (\<lambda>(aux, t). bnd (ld h aux) (\<lambda>n. bnd (get_next h aux) (\<lambda>q.
       ok (if q \<noteq> p then Inl (q, t @ g n) else Inr (t @ g n))))) (p, [])"

definition count_ring :: "'n link_scheme heap \<Rightarrow> ptr \<Rightarrow> int run" where
  "count_ring h p =
     loop (\<lambda>(aux, k). bnd (get_next h aux) (\<lambda>q. ok (if q \<noteq> p then Inl (q, k + 1) else Inr (k + 1)))) (p, 0)"

text \<open>\<open>do { inicio = inicio->prox; delete(aux); aux = inicio; } while (aux != fim); delete(fim);\<close>\<close>

definition free_ring :: "'n link_scheme heap \<Rightarrow> ptr \<Rightarrow> ptr \<Rightarrow> 'n link_scheme heap run" where
  "free_ring h p f =
     bnd (loop (\<lambda>(h, aux). bnd (get_next h aux) (\<lambda>q. bnd (dispose h aux) (\<lambda>h.
       ok (if q \<noteq> f then Inl (h, q) else Inr h)))) (h, p)) (\<lambda>h. dispose h f)"

lemma start_neq: "distinct (cs @ as) \<Longrightarrow> cs \<noteq> [] \<Longrightarrow> as \<noteq> [] \<Longrightarrow> start as e \<noteq> start (cs @ as) e"
  by (cases cs; cases as) auto

lemma print_ring_ring:
  assumes "ring h p f as" "as \<noteq> []"
  shows "print_ring g h p = ok (concat (map (\<lambda>a. g (the (cells h a))) as))"
proof -
  have r: "distinct as" "sl (cells h) as p" "p = start as 0" using assms(1) by (auto simp: ring_def)
  have "wp (print_ring g h p) (\<lambda>t. t = concat (map (\<lambda>a. g (the (cells h a))) as))"
    unfolding print_ring_def
  proof (rule wp_loop_list [where xs = as and I = "\<lambda>bs (aux, t). bs \<noteq> [] \<and> (\<exists>cs. as = cs @ bs \<and>
      aux = hd bs \<and> t = concat (map (\<lambda>a. g (the (cells h a))) cs))"])
    show "case (p, []) of (aux, t) \<Rightarrow> as \<noteq> [] \<and> (\<exists>cs. as = cs @ as \<and> aux = hd as \<and>
        t = concat (map (\<lambda>a. g (the (cells h a))) cs))"
      using assms(2) r(3) by (cases as) auto
  next
    fix b bs s assume "case s of (aux, t) \<Rightarrow> b # bs \<noteq> [] \<and> (\<exists>cs. as = cs @ b # bs \<and>
      aux = hd (b # bs) \<and> t = concat (map (\<lambda>a. g (the (cells h a))) cs))"
    then obtain cs t where s: "s = (b, t)" "as = cs @ b # bs" "t = concat (map (\<lambda>a. g (the (cells h a))) cs)"
      by (cases s) auto
    from r(2) obtain n where n: "0 < b" "cells h b = Some n" "nxt n = Some (start bs p)" by (auto simp: s)
    have "start bs p = p \<longleftrightarrow> bs = []"
      using r(1,3) unfolding s(2) by (cases bs; cases cs) auto
    then show "wp (case s of (aux, t) \<Rightarrow> bnd (ld h aux) (\<lambda>n. bnd (get_next h aux) (\<lambda>q.
        ok (if q \<noteq> p then Inl (q, t @ g n) else Inr (t @ g n)))))
        (\<lambda>r. case r of Inl s \<Rightarrow> (case s of (aux, t) \<Rightarrow> bs \<noteq> [] \<and> (\<exists>cs. as = cs @ bs \<and> aux = hd bs \<and>
            t = concat (map (\<lambda>a. g (the (cells h a))) cs)))
          | Inr t \<Rightarrow> t = concat (map (\<lambda>a. g (the (cells h a))) as))"
      using n s by (cases bs) (auto intro!: exI [of _ "cs @ [b]"])
  qed auto
  then show ?thesis by (simp add: wp_eq_ok)
qed

lemma count_ring_ring:
  assumes "ring h p f as" "as \<noteq> []"
  shows "count_ring h p = ok (int (length as))"
proof -
  have r: "distinct as" "sl (cells h) as p" "p = start as 0" using assms(1) by (auto simp: ring_def)
  have "wp (count_ring h p) (\<lambda>k. k = int (length as))"
    unfolding count_ring_def
  proof (rule wp_loop_list [where xs = as and I = "\<lambda>bs (aux, k). bs \<noteq> [] \<and> (\<exists>cs. as = cs @ bs \<and>
      aux = hd bs \<and> k = int (length cs))"])
    show "case (p, 0) of (aux, k) \<Rightarrow> as \<noteq> [] \<and> (\<exists>cs. as = cs @ as \<and> aux = hd as \<and> k = int (length cs))"
      using assms(2) r(3) by (cases as) auto
  next
    fix b bs s assume "case s of (aux, k) \<Rightarrow> b # bs \<noteq> [] \<and> (\<exists>cs. as = cs @ b # bs \<and>
      aux = hd (b # bs) \<and> k = int (length cs))"
    then obtain cs k where s: "s = (b, k)" "as = cs @ b # bs" "k = int (length cs)" by (cases s) auto
    from r(2) obtain n where n: "0 < b" "cells h b = Some n" "nxt n = Some (start bs p)" by (auto simp: s)
    have "start bs p = p \<longleftrightarrow> bs = []"
      using r(1,3) unfolding s(2) by (cases bs; cases cs) auto
    then show "wp (case s of (aux, k) \<Rightarrow> bnd (get_next h aux) (\<lambda>q.
        ok (if q \<noteq> p then Inl (q, k + 1) else Inr (k + 1))))
        (\<lambda>r. case r of Inl s \<Rightarrow> (case s of (aux, k) \<Rightarrow> bs \<noteq> [] \<and> (\<exists>cs. as = cs @ bs \<and> aux = hd bs \<and>
            k = int (length cs)))
          | Inr k \<Rightarrow> k = int (length as))"
      using n s by (cases bs) (auto intro!: exI [of _ "cs @ [b]"])
  qed auto
  then show ?thesis by (simp add: wp_eq_ok)
qed

text \<open>Two cells or more are all deleted; a single one is deleted twice.\<close>

lemma free_ring_ring:
  assumes "ring h p f as" "2 \<le> length as"
  shows "wp (free_ring h p f) (\<lambda>h'. heap_ok h')"
proof -
  have r: "heap_ok h" "distinct as" "sl (cells h) as p" "p = start as 0" "f = last as" and ne: "as \<noteq> []"
    using assms by (auto simp: ring_def)
  have "wp (loop (\<lambda>(h, aux). bnd (get_next h aux) (\<lambda>q. bnd (dispose h aux) (\<lambda>h.
       ok (if q \<noteq> f then Inl (h, q) else Inr h)))) (h, p))
     (\<lambda>h'. heap_ok h' \<and> cells h' f \<noteq> None)"
  proof (rule wp_loop_list [where xs = "butlast as" and I = "\<lambda>bs (h', aux). bs \<noteq> [] \<and> heap_ok h' \<and>
      aux = hd bs \<and> distinct (bs @ [f]) \<and> sl (cells h') (bs @ [f]) p"])
    show "case (h, p) of (h', aux) \<Rightarrow> butlast as \<noteq> [] \<and> heap_ok h' \<and> aux = hd (butlast as) \<and>
        distinct (butlast as @ [f]) \<and> sl (cells h') (butlast as @ [f]) p"
    proof -
      have bl: "butlast as @ [f] = as" using r(5) ne by simp
      have "butlast as \<noteq> [] \<and> p = hd (butlast as)" using r(4) assms(2) by (cases as; cases "tl as") auto
      then show ?thesis unfolding prod.case bl using r by blast
    qed
  next
    fix b bs s assume "case s of (h', aux) \<Rightarrow> b # bs \<noteq> [] \<and> heap_ok h' \<and> aux = hd (b # bs) \<and>
        distinct ((b # bs) @ [f]) \<and> sl (cells h') ((b # bs) @ [f]) p"
    then obtain h' n where s: "s = (h', b)" "heap_ok h'" "distinct (b # bs @ [f])" "0 < b"
        "cells h' b = Some n" "nxt n = Some (start bs f)" "sl (cells h') (bs @ [f]) p"
      by (cases s) (auto simp: start_append)
    from s(7) have live: "\<exists>m. cells h' f = Some m" by auto
    have "start bs f = f \<longleftrightarrow> bs = []" using s(3) by (cases bs) auto
    then show "wp (case s of (h, aux) \<Rightarrow> bnd (get_next h aux) (\<lambda>q. bnd (dispose h aux) (\<lambda>h.
        ok (if q \<noteq> f then Inl (h, q) else Inr h))))
        (\<lambda>r. case r of Inl s \<Rightarrow> (case s of (h', aux) \<Rightarrow> bs \<noteq> [] \<and> heap_ok h' \<and> aux = hd bs \<and>
            distinct (bs @ [f]) \<and> sl (cells h') (bs @ [f]) p)
          | Inr h' \<Rightarrow> heap_ok h' \<and> cells h' f \<noteq> None)"
      using s live by (cases bs) auto
  qed auto
  then show ?thesis unfolding free_ring_def wp_bnd by (rule wp_conseq) auto
qed

lemma free_ring_single:
  assumes "ring h p f [a]"
  shows "free_ring h p f = fail Dangling"
proof -
  from assms obtain n where n: "p = a" "f = a" "0 < a" "cells h a = Some n" "nxt n = Some a"
    by (auto simp: ring_def)
  then show ?thesis
    by (simp add: free_ring_def loop_unfold get_next_def ld_ok init_ptr_def dispose_def ld_dangling)
qed

end
