(* ===== verification/Search.thy ===== *)
theory Search
  imports Cxx_Array Cxx_Console
begin

text \<open>
  \<open>DataStructure/stack/source1.cxx\<close> (sequential search in an array of ten numbers, not
  ordered or ordered) and \<open>DataStructure/stack/source7.cxx\<close> (binary search).  The array of
  source1 lives across the choices and starts uninitialised, as \<open>int X[10]\<close> does; so does
  its \<open>esc\<close>, which the loop tests before the first choice is read.
\<close>

section \<open>source1.cxx\<close>

subsection \<open>The two searches\<close>

text \<open>The state of the loops is \<open>(i, achou)\<close>.\<close>

definition busca_nao_ordenada :: "int option list \<Rightarrow> int \<Rightarrow> (int \<times> bool) run" where
  "busca_nao_ordenada X n =
     while_run (\<lambda>(i, achou). ok (i \<le> 9 \<and> \<not> achou))
       (\<lambda>(i, achou). bnd (rdi X i) (\<lambda>x. ok (if x = n then (i, True) else (i + 1, achou)))) (0, False)"

definition busca_ordenada :: "int option list \<Rightarrow> int \<Rightarrow> (int \<times> bool) run" where
  "busca_ordenada X n =
     while_run (\<lambda>(i, achou). if i \<le> 9 \<and> \<not> achou then bnd (rdi X i) (\<lambda>x. ok (n \<ge> x)) else ok False)
       (\<lambda>(i, achou). bnd (rdi X i) (\<lambda>x. ok (if x = n then (i, True) else (i + 1, achou)))) (0, False)"

subsection \<open>The program\<close>

record busca = console +
  vetor :: "int option list"

definition busca_menu :: string where
  "busca_menu = nl @ tab @ ''ALGORITMOS DE BUSCA SEQUENCIAL'' @
     nl @ tab @ ''ORDENADA E N'' @ A_tilde @ ''O ORDENADA'' @ nl @
     nl @ tab @ ''MENU DE ESCOLHA'' @
     nl @ tab @ ''[1]-NUMEROS N'' @ A_tilde @ ''O ORDENADOS '' @
     nl @ tab @ ''[2]-NUMEROS ORDENADOS '' @
     nl @ tab @ ''[3]-SAIR'' @
     nl @ tab @ ''ESCOLHA: ''"

definition busca_titulo1 :: string where
  "busca_titulo1 = nl @ tab @ ''VETOR COM NUMEROS N'' @ A_tilde @ ''O ORDENADOS!!!!'' @
     nl @ tab @ ''QUANTOS NUMEROS DESEJA INSERIR?'' @ nl @ tab @ ''DIGITE: ''"

definition busca_titulo2 :: string where
  "busca_titulo2 = nl @ tab @ ''VETOR COM N'' @ U_acute @ ''MEROS ORDENADOS!!!!'' @
     nl @ tab @ ''QUANTOS N'' @ U_acute @ ''MEROS DESEJA INSERIR?'' @ nl @ tab @ ''DIGITE: ''"

definition busca_resultado :: "int \<Rightarrow> int \<Rightarrow> bool \<Rightarrow> string" where
  "busca_resultado n i achou =
     (if \<not> achou then nl @ tab @ ''NUMERO '' @ dec n @ '' N'' @ A_tilde @ ''O ENCONTRADO!!!!'' @ nl
      else nl @ tab @ ''NUMERO '' @ dec n @ '' ENCONTRADO NA POSI'' @ C_cedilla @ A_tilde @ ''O: '' @ dec (i + 1) @ nl)"

definition busca_preencher :: "busca \<Rightarrow> busca run" where
  "busca_preencher s =
     bnd (read_int s) (\<lambda>(s, qtd).
     for_up 0 qtd (\<lambda>i s.
       bnd (read_int (print (nl @ tab @ ''DIGITE O NUMERO '' @ dec (i + 1) @ ordinal @ '': '') s)) (\<lambda>(s, x).
       bnd (wr (vetor s) i (Some x)) (\<lambda>X. ok (s\<lparr>vetor := X\<rparr>)))) s)"

definition busca_repetir :: "(int option list \<Rightarrow> int \<Rightarrow> (int \<times> bool) run) \<Rightarrow> busca \<Rightarrow> busca run" where
  "busca_repetir search s =
     loop (\<lambda>s.
       bnd (read_int (print (nl @ tab @ ''BUSQUE UM NUMERO NO VETOR: '') s)) (\<lambda>(s, n).
       bnd (search (vetor s) n) (\<lambda>(i, achou).
       let s = print (busca_resultado n i achou) s in ok (if \<not> achou then Inl s else Inr s)))) s"

definition busca_escolha :: "int \<Rightarrow> busca \<Rightarrow> busca run" where
  "busca_escolha esc s =
     (if esc = 1 then bnd (busca_preencher (print busca_titulo1 s)) (busca_repetir busca_nao_ordenada)
      else if esc = 2 then bnd (busca_preencher (print busca_titulo2 s)) (busca_repetir busca_ordenada)
      else ok s)"

text \<open>The loop is tested first: \<open>esc0\<close> is what \<open>esc\<close> holds then, \<open>None\<close> in the program.\<close>

definition busca_run :: "int option \<Rightarrow> int list \<Rightarrow> busca run" where
  "busca_run esc0 input =
     bnd (while_run (\<lambda>(esc, s). case esc of None \<Rightarrow> fail Uninitialised | Some e \<Rightarrow> ok (e \<noteq> 3))
       (\<lambda>(esc, s).
          bnd (read_int (print busca_menu s)) (\<lambda>(s, e).
          bnd (busca_escolha e s) (\<lambda>s. ok (Some e, sair good_bye 3 e s))))
       (esc0, \<lparr>inp = input, out = [], vetor = uninit 10\<rparr>)) (\<lambda>(esc, s). ok s)"

definition busca_main :: "int list \<Rightarrow> busca run" where
  "busca_main input = busca_run None input"

subsection \<open>What the searches find\<close>

text \<open>The array after \<open>xs\<close> has been typed in: its first places are filled.\<close>

definition typed :: "int list \<Rightarrow> int option list" where
  "typed xs = map Some xs @ replicate (10 - length xs) None"

lemma rdi_typed:
  assumes "length xs \<le> 10" "0 \<le> i" "i < 10"
  shows "rdi (typed xs) i = (if i < len xs then ok (at xs i) else fail Uninitialised)"
  using assms by (auto simp: rdi_def rd_def typed_def at_def nth_append nat_less_iff)

lemma at_middle [simp]: "at (ys @ z # zs) (len ys) = z"
  by (simp add: at_def)

lemma nao_ordenada_from:
  assumes "length (ys @ zs) \<le> 10"
  shows "while_run (\<lambda>(i, achou). ok (i \<le> 9 \<and> \<not> achou))
       (\<lambda>(i, achou). bnd (rdi (typed (ys @ zs)) i) (\<lambda>x. ok (if x = n then (i, True) else (i + 1, achou)))) (len ys, False) =
     (if n \<in> set zs then ok (len ys + len (takeWhile (\<lambda>x. x \<noteq> n) zs), True)
      else if length (ys @ zs) = 10 then ok (10, False) else fail Uninitialised)"
  using assms
proof (induction zs arbitrary: ys)
  case Nil
  show ?case
  proof (cases "length ys = 10")
    case True
    then show ?thesis by (subst while_run_unfold) simp
  next
    case False
    with Nil have "rdi (typed ys) (len ys) = fail Uninitialised" by (subst rdi_typed) auto
    with Nil False show ?thesis by (subst while_run_unfold) simp
  qed
next
  case (Cons z zs)
  then have rd: "rdi (typed (ys @ z # zs)) (len ys) = ok z" by (subst rdi_typed) auto
  note IH = Cons.IH [of "ys @ [z]", unfolded append_assoc append_Cons append_Nil, OF Cons.prems]
  show ?case
  proof (cases "z = n")
    case True
    with rd Cons.prems show ?thesis by (subst while_run_unfold, simp) (subst while_run_unfold, simp)
  next
    case False
    with rd Cons.prems IH show ?thesis by (subst while_run_unfold) (simp add: add.commute add.left_commute)
  qed
qed

lemma ordenada_from:
  assumes "length (ys @ zs) \<le> 10" "sorted (ys @ zs)"
  shows "while_run (\<lambda>(i, achou). if i \<le> 9 \<and> \<not> achou then bnd (rdi (typed (ys @ zs)) i) (\<lambda>x. ok (n \<ge> x)) else ok False)
       (\<lambda>(i, achou). bnd (rdi (typed (ys @ zs)) i) (\<lambda>x. ok (if x = n then (i, True) else (i + 1, achou)))) (len ys, False) =
     (if n \<in> set zs then ok (len ys + len (takeWhile (\<lambda>x. x \<noteq> n) zs), True)
      else if (\<exists>z \<in> set zs. n < z) then ok (len ys + len (takeWhile (\<lambda>x. x < n) zs), False)
      else if length (ys @ zs) = 10 then ok (10, False) else fail Uninitialised)"
  using assms
proof (induction zs arbitrary: ys)
  case Nil
  show ?case
  proof (cases "length ys = 10")
    case True
    then show ?thesis by (subst while_run_unfold) simp
  next
    case False
    with Nil have "rdi (typed ys) (len ys) = fail Uninitialised" by (subst rdi_typed) auto
    with Nil False show ?thesis by (subst while_run_unfold) simp
  qed
next
  case (Cons z zs)
  then have rd: "rdi (typed (ys @ z # zs)) (len ys) = ok z" by (subst rdi_typed) auto
  note IH = Cons.IH [of "ys @ [z]", unfolded append_assoc append_Cons append_Nil, OF Cons.prems]
  have above: "\<forall>y \<in> set zs. z \<le> y" using Cons.prems(2) by (simp add: sorted_append)
  consider "z = n" | "n < z" | "z < n" by linarith
  then show ?case
  proof cases
    case 1
    with rd Cons.prems show ?thesis by (subst while_run_unfold, simp) (subst while_run_unfold, simp)
  next
    case 2
    with rd Cons.prems(1) above show ?thesis by (subst while_run_unfold) auto
  next
    case 3
    with rd Cons.prems IH show ?thesis by (subst while_run_unfold) (simp add: add.commute add.left_commute)
  qed
qed

section \<open>source7.cxx\<close>

text \<open>The state of the loop is \<open>(inicio, fim, meio, achou)\<close>.\<close>

definition busca_binaria :: "int option list \<Rightarrow> int \<Rightarrow> (int \<times> bool) run" where
  "busca_binaria x n =
     bnd (while_run (\<lambda>(inicio, fim, meio, achou). ok (inicio \<le> fim \<and> \<not> achou))
       (\<lambda>(inicio, fim, meio, achou).
          bnd (rdi x meio) (\<lambda>v.
          if v = n then ok (inicio, fim, meio, True)
          else
            let (inicio, fim) = (if n < v then (inicio, meio - 1) else (meio + 1, fim)) in
            ok (inicio, fim, (inicio + fim) sdiv 2, achou))) (0, 9, (0 + 9) sdiv 2, False))
       (\<lambda>(inicio, fim, meio, achou). ok (meio, achou))"

definition binaria_pergunta :: "int \<Rightarrow> string" where
  "binaria_pergunta i = nl @ tab @ ''Digite um numero para a posicao '' @ dec (i + 1) @ ordinal @ '': ''"

definition binaria_busque :: string where
  "binaria_busque = nl @ tab @ ''Digite o numero a ser buscado no vetor: ''"

definition binaria_resultado :: "int \<Rightarrow> bool \<Rightarrow> string" where
  "binaria_resultado meio achou =
     (if \<not> achou then nl @ tab @ ''Numero nao encontrado no vetor!'' @ nl @ nl
      else nl @ tab @ ''Numero encontrado na posicao '' @ dec (meio + 1) @ nl @ nl)"

definition binaria_main :: "int list \<Rightarrow> console run" where
  "binaria_main input =
     bnd (for_up 0 10 (\<lambda>i (s, x).
       bnd (read_int (print (binaria_pergunta i) s)) (\<lambda>(s, v).
       bnd (wr x i (Some v)) (\<lambda>x. ok (s, x)))) (\<lparr>inp = input, out = []\<rparr>, uninit 10)) (\<lambda>(s, x).
     bnd (read_int (print binaria_busque s)) (\<lambda>(s, n).
     bnd (busca_binaria x n) (\<lambda>(meio, achou).
     ok (print (binaria_resultado meio achou) s))))"

text \<open>The numbers outside \<open>inicio..fim\<close> are not the one searched for.\<close>

lemma busca_binaria_spec:
  assumes "sorted xs" "length xs = 10"
  shows "wp (busca_binaria (map Some xs) n) (\<lambda>(meio, achou). (achou \<longleftrightarrow> n \<in> set xs) \<and>
     (achou \<longrightarrow> 0 \<le> meio \<and> meio < 10 \<and> at xs meio = n))"
proof -
  have rd: "rdi (map Some xs) i = ok (at xs i)" if "0 \<le> i" "i < 10" for i
    using that assms(2) by (simp add: rdi_def rd_def at_def nat_less_iff)
  have mono: "at xs i \<le> at xs j" if "0 \<le> i" "i \<le> j" "j < 10" for i j
    using that assms by (simp add: at_def sorted_nth_mono)
  have mem: "n \<in> set xs \<longleftrightarrow> (\<exists>i. 0 \<le> i \<and> i < 10 \<and> at xs i = n)"
  proof
    assume "n \<in> set xs"
    then obtain i where "i < 10" "xs ! i = n" using assms(2) by (auto simp: in_set_conv_nth)
    then show "\<exists>i. 0 \<le> i \<and> i < 10 \<and> at xs i = n" by (intro exI [of _ "int i"]) (simp add: at_def)
  next
    assume "\<exists>i. 0 \<le> i \<and> i < 10 \<and> at xs i = n"
    then obtain i where "0 \<le> i" "i < len xs" "n = at xs i" using assms(2) by auto
    then show "n \<in> set xs" by simp
  qed
  define I where "I = (\<lambda>(inicio, fim, meio, achou). 0 \<le> inicio \<and> fim \<le> 9 \<and> inicio \<le> fim + 1 \<and>
     meio = (inicio + fim) sdiv 2 \<and> (\<forall>i. 0 \<le> i \<and> i < 10 \<and> at xs i = n \<longrightarrow> inicio \<le> i \<and> i \<le> fim) \<and>
     (achou \<longrightarrow> inicio \<le> fim \<and> at xs meio = n))"
  define m where "m = (\<lambda>(inicio, fim, meio :: int, achou). nat (2 * (fim - inicio + 1) + (if achou then 0 else 1)))"
  have half: "i \<le> (i + f) sdiv 2 \<and> (i + f) sdiv 2 \<le> f" if "0 \<le> i" "i \<le> f" for i f :: int
  proof -
    have "(i + f) sdiv 2 = (i + f) div 2" using that by (simp add: sdiv_nonneg)
    with that show ?thesis by presburger
  qed
  show ?thesis
    unfolding busca_binaria_def wp_bnd
  proof (rule wp_while [where I = I and m = m])
    show "I (0, 9, (0 + 9) sdiv 2, False)" by (auto simp: I_def)
  next
    fix s assume I: "I s"
    obtain inicio fim meio achou where s: "s = (inicio, fim, meio, achou)" by (cases s) auto
    show "wp (case s of (inicio, fim, meio, achou) \<Rightarrow> ok (inicio \<le> fim \<and> \<not> achou)) (\<lambda>t. if t
      then wp (case s of (inicio, fim, meio, achou) \<Rightarrow>
          bnd (rdi (map Some xs) meio) (\<lambda>v.
          if v = n then ok (inicio, fim, meio, True)
          else
            let (inicio, fim) = (if n < v then (inicio, meio - 1) else (meio + 1, fim)) in
            ok (inicio, fim, (inicio + fim) sdiv 2, achou))) (\<lambda>s'. I s' \<and> m s' < m s)
      else wp (case s of (inicio, fim, meio, achou) \<Rightarrow> ok (meio, achou))
        (\<lambda>(meio, achou). (achou \<longleftrightarrow> n \<in> set xs) \<and> (achou \<longrightarrow> 0 \<le> meio \<and> meio < 10 \<and> at xs meio = n)))"
    proof (cases "inicio \<le> fim \<and> \<not> achou")
      case True
      with I have b: "0 \<le> inicio" "inicio \<le> meio" "meio \<le> fim" "fim \<le> 9" using half by (auto simp: I_def s)
      have mid: "meio = (inicio + fim) sdiv 2"
        and J: "\<forall>i. 0 \<le> i \<and> i < 10 \<and> at xs i = n \<longrightarrow> inicio \<le> i \<and> i \<le> fim"
        using I by (auto simp: I_def s)
      have lo: "\<forall>i. 0 \<le> i \<and> i < 10 \<and> at xs i = n \<longrightarrow> inicio \<le> i \<and> i \<le> meio - 1" if "n < at xs meio"
      proof (intro allI impI)
        fix i assume i: "0 \<le> i \<and> i < 10 \<and> at xs i = n"
        with mono [of meio i] that b have "\<not> meio \<le> i" by auto
        with i J show "inicio \<le> i \<and> i \<le> meio - 1" by auto
      qed
      have hi: "\<forall>i. 0 \<le> i \<and> i < 10 \<and> at xs i = n \<longrightarrow> meio + 1 \<le> i \<and> i \<le> fim" if "at xs meio < n"
      proof (intro allI impI)
        fix i assume i: "0 \<le> i \<and> i < 10 \<and> at xs i = n"
        with mono [of i meio] that b have "\<not> i \<le> meio" by auto
        with i J show "meio + 1 \<le> i \<and> i \<le> fim" by auto
      qed
      have go: "rdi (map Some xs) meio = ok (at xs meio)" using b by (intro rd) auto
      consider "at xs meio = n" | "n < at xs meio" | "at xs meio < n" by linarith
      then show ?thesis
      proof cases
        case 1
        with True b go J mid show ?thesis by (simp add: s I_def m_def)
      next
        case 2
        with True b go lo show ?thesis by (simp add: s I_def m_def)
      next
        case 3
        with True b go hi show ?thesis by (simp add: s I_def m_def)
      qed
    next
      case False
      have "(achou \<longleftrightarrow> n \<in> set xs) \<and> (achou \<longrightarrow> 0 \<le> meio \<and> meio < 10 \<and> at xs meio = n)"
      proof (cases achou)
        case True
        with I half [of inicio fim] have "0 \<le> meio" "meio < 10" "at xs meio = n" by (auto simp: s I_def)
        then show ?thesis unfolding mem using True by blast
      next
        case False
        with \<open>\<not> (inicio \<le> fim \<and> \<not> achou)\<close> I have "\<not> (\<exists>i. 0 \<le> i \<and> i < 10 \<and> at xs i = n)"
          by (auto simp: s I_def)
        with False show ?thesis unfolding mem by simp
      qed
      then show ?thesis unfolding s prod.case wp_ok if_not_P [OF False] .
    qed
  qed
qed

text \<open>Reading the ten numbers, and what the program then does.\<close>

lemma binaria_read:
  assumes "length xs = 10" "\<forall>x \<in> set xs. int_min \<le> x \<and> x \<le> int_max"
  shows "\<exists>t. for_up 0 10 (\<lambda>i (s, x).
       bnd (read_int (print (binaria_pergunta i) s)) (\<lambda>(s, v).
       bnd (wr x i (Some v)) (\<lambda>x. ok (s, x)))) (\<lparr>inp = xs @ ys, out = []\<rparr>, uninit 10)
     = ok (\<lparr>inp = ys, out = t\<rparr> :: console, map Some xs)"
proof -
  define I where "I = (\<lambda>i (s :: console, x). inp s = drop (nat i) xs @ ys \<and>
     x = map Some (take (nat i) xs) @ replicate (10 - nat i) None)"
  have "wp (for_up 0 10 (\<lambda>i (s, x).
       bnd (read_int (print (binaria_pergunta i) s)) (\<lambda>(s, v).
       bnd (wr x i (Some v)) (\<lambda>x. ok (s, x)))) (\<lparr>inp = xs @ ys, out = []\<rparr>, uninit 10))
     (\<lambda>(s, x). inp s = ys \<and> x = map Some xs)"
  proof (rule wp_for_up [where I = I])
    show "I 0 (\<lparr>inp = xs @ ys, out = []\<rparr>, uninit 10)" by (simp add: I_def uninit_def)
  next
    fix i :: int and s assume i: "0 \<le> i" "i < 10" "I i s"
    obtain c x where s: "s = (c, x)" by force
    let ?j = "nat i"
    have j: "?j < length xs" "nat (i + 1) = Suc ?j" "10 - ?j = Suc (10 - Suc ?j)" using i assms(1) by auto
    have "drop ?j xs = xs ! ?j # drop (Suc ?j) xs" "take (Suc ?j) xs = take ?j xs @ [xs ! ?j]"
      using j by (simp_all add: Cons_nth_drop_Suc take_Suc_conv_app_nth)
    moreover have "xs ! ?j \<in> set xs" using j by simp
    moreover have "upd x i (Some (xs ! ?j)) =
        map Some (take ?j xs) @ Some (xs ! ?j) # replicate (10 - Suc ?j) None" "i < len x"
      using i j unfolding s by (auto simp: I_def upd_def list_update_append min_def)
    ultimately show "wp ((\<lambda>(s, x).
       bnd (read_int (print (binaria_pergunta i) s)) (\<lambda>(s, v).
       bnd (wr x i (Some v)) (\<lambda>x. ok (s, x)))) s) (I (i + 1))"
      using i j(2) assms(2) by (auto simp: s I_def wr_def)
  qed (use assms in \<open>auto simp: I_def\<close>)
  then obtain s where "for_up 0 10 (\<lambda>i (s, x).
       bnd (read_int (print (binaria_pergunta i) s)) (\<lambda>(s, v).
       bnd (wr x i (Some v)) (\<lambda>x. ok (s, x)))) (\<lparr>inp = xs @ ys, out = []\<rparr>, uninit 10) = ok (s, map Some xs)"
      "inp s = ys"
    by (auto simp: wp_iff)
  then show ?thesis by (cases s) auto
qed

section \<open>Properties\<close>

text \<open>
  on an array that holds the numbers \<open>xs\<close> typed in so far, the first search of source1
  finds the first position of a number that is there; one that is not there is reported absent
  only if all ten places are filled, otherwise the search reads an uninitialised place.
\<close>

theorem busca_nao_ordenada_correct:
  assumes "length xs \<le> 10"
  shows "busca_nao_ordenada (typed xs) n =
     (if n \<in> set xs then ok (len (takeWhile (\<lambda>x. x \<noteq> n) xs), True)
      else if length xs = 10 then ok (10, False) else fail Uninitialised)"
  using nao_ordenada_from [of "[]" xs n] assms by (simp add: busca_nao_ordenada_def)

lemma busca_nao_ordenada_correct_witness:
  "busca_nao_ordenada (typed [5, 3, 8]) 8 = ok (2, True) \<and> busca_nao_ordenada (typed [5, 3, 8]) 4 = fail Uninitialised"
  using busca_nao_ordenada_correct [of "[5, 3, 8]" 8] busca_nao_ordenada_correct [of "[5, 3, 8]" 4] by simp

text \<open>
  on numbers typed in ascending order the second search of source1 finds the same positions,
  and stops at the first greater number when the one it looks for is absent; it reads an
  uninitialised place only when all numbers are smaller.
\<close>

theorem busca_ordenada_correct:
  assumes "length xs \<le> 10" "sorted xs"
  shows "busca_ordenada (typed xs) n =
     (if n \<in> set xs then ok (len (takeWhile (\<lambda>x. x \<noteq> n) xs), True)
      else if \<exists>x \<in> set xs. n < x then ok (len (takeWhile (\<lambda>x. x < n) xs), False)
      else if length xs = 10 then ok (10, False) else fail Uninitialised)"
  using ordenada_from [of "[]" xs n, unfolded append_Nil, OF assms]
  unfolding busca_ordenada_def list.size of_nat_0 add_0 .

lemma busca_ordenada_correct_witness:
  "busca_ordenada (typed [3, 5, 8]) 8 = ok (2, True) \<and> busca_ordenada (typed [3, 5, 8]) 4 = ok (1, False)"
  using busca_ordenada_correct [of "[3, 5, 8]" 8] busca_ordenada_correct [of "[3, 5, 8]" 4] by simp

text \<open>
  the program of source1 tests its choice before it has a value: its run is undefined from
  the start, whatever is typed.
\<close>

theorem busca_main_uninitialised: "busca_main input = fail Uninitialised"
  by (simp add: busca_main_def busca_run_def while_run_unfold)

text \<open>
  source7 asks for ten numbers and one more; when the ten are in ascending order it returns,
  and says in which position the last one is if it is among them and that it is not otherwise.
\<close>

theorem binaria_main_correct:
  assumes "length xs = 10" "sorted xs" "\<forall>x \<in> set (n # xs). int_min \<le> x \<and> x \<le> int_max"
  shows "\<exists>t. wp (binaria_main (xs @ n # ys)) (\<lambda>s. inp s = ys \<and>
     (\<exists>k. out s = t @ binaria_resultado k (n \<in> set xs) \<and> (n \<in> set xs \<longrightarrow> 0 \<le> k \<and> k < 10 \<and> at xs k = n)))"
proof -
  from binaria_read [OF assms(1), of "n # ys"] assms(3) obtain t where t: "for_up 0 10 (\<lambda>i (s, x).
       bnd (read_int (print (binaria_pergunta i) s)) (\<lambda>(s, v).
       bnd (wr x i (Some v)) (\<lambda>x. ok (s, x)))) (\<lparr>inp = xs @ n # ys, out = []\<rparr>, uninit 10)
     = ok (\<lparr>inp = n # ys, out = t\<rparr>, map Some xs)" by auto
  show ?thesis
    by (rule exI [of _ "t @ binaria_busque"])
      (use assms(3) in \<open>auto simp: binaria_main_def t simp del: for_up_step
        intro!: wp_conseq [OF busca_binaria_spec [OF assms(2,1)]]\<close>)
qed

lemma binaria_main_correct_witness:
  "\<exists>t. wp (binaria_main [1, 3, 5, 7, 9, 11, 13, 15, 17, 19, 4]) (\<lambda>s.
     \<exists>k. out s = t @ binaria_resultado k False)"
  using binaria_main_correct [of "[1, 3, 5, 7, 9, 11, 13, 15, 17, 19]" 4 "[]"]
  by (auto elim!: wp_conseq)

end
