(* ===== verification/Flow_Network.thy ===== *)
theory Flow_Network
  imports Main
begin

text \<open>
  Networks on the vertices \<open>0 .. n - 1\<close> with integer capacities: flows, cuts, the bound of
  every flow by every cut, and what a residual network certifies.  This is the specification the
  Ford-Fulkerson programs are measured against; nothing here is taken from their code.
\<close>

definition flow :: "int \<Rightarrow> (int \<Rightarrow> int \<Rightarrow> int) \<Rightarrow> int \<Rightarrow> int \<Rightarrow> (int \<Rightarrow> int \<Rightarrow> int) \<Rightarrow> bool" where
  "flow n c s t f \<longleftrightarrow> (\<forall>u \<in> {0..<n}. \<forall>v \<in> {0..<n}. 0 \<le> f u v \<and> f u v \<le> c u v) \<and>
     (\<forall>w \<in> {0..<n} - {s, t}. (\<Sum>v = 0..<n. f v w) = (\<Sum>v = 0..<n. f w v))"

definition flow_value :: "int \<Rightarrow> int \<Rightarrow> (int \<Rightarrow> int \<Rightarrow> int) \<Rightarrow> int" where
  "flow_value n s f = (\<Sum>v = 0..<n. f s v) - (\<Sum>v = 0..<n. f v s)"

definition max_flow_value :: "int \<Rightarrow> (int \<Rightarrow> int \<Rightarrow> int) \<Rightarrow> int \<Rightarrow> int \<Rightarrow> int \<Rightarrow> bool" where
  "max_flow_value n c s t k \<longleftrightarrow>
     (\<exists>f. flow n c s t f \<and> flow_value n s f = k) \<and> (\<forall>f. flow n c s t f \<longrightarrow> flow_value n s f \<le> k)"

definition cut :: "int \<Rightarrow> int \<Rightarrow> int \<Rightarrow> int set \<Rightarrow> bool" where
  "cut n s t S \<longleftrightarrow> S \<subseteq> {0..<n} \<and> s \<in> S \<and> t \<notin> S"

definition cut_capacity :: "int \<Rightarrow> (int \<Rightarrow> int \<Rightarrow> int) \<Rightarrow> int set \<Rightarrow> int" where
  "cut_capacity n c S = (\<Sum>u \<in> S. \<Sum>v \<in> {0..<n} - S. c u v)"

definition min_cut :: "int \<Rightarrow> (int \<Rightarrow> int \<Rightarrow> int) \<Rightarrow> int \<Rightarrow> int \<Rightarrow> int set \<Rightarrow> bool" where
  "min_cut n c s t S \<longleftrightarrow> cut n s t S \<and> (\<forall>S'. cut n s t S' \<longrightarrow> cut_capacity n c S \<le> cut_capacity n c S')"

section \<open>The net outflow across a set\<close>

lemma antisym_inside:
  assumes "finite S" "\<And>u v. u \<in> S \<Longrightarrow> v \<in> S \<Longrightarrow> d u v = - d v u"
  shows "(\<Sum>u \<in> S. \<Sum>v \<in> S. d u v) = (0 :: int)"
proof -
  have "(\<Sum>u \<in> S. \<Sum>v \<in> S. d u v) = (\<Sum>u \<in> S. \<Sum>v \<in> S. - d v u)"
    by (intro sum.cong refl) (use assms(2) in blast)
  also have "\<dots> = - (\<Sum>u \<in> S. \<Sum>v \<in> S. d v u)"
    by (simp add: sum_negf)
  also have "(\<Sum>u \<in> S. \<Sum>v \<in> S. d v u) = (\<Sum>u \<in> S. \<Sum>v \<in> S. d u v)"
    by (rule sum.swap)
  finally show ?thesis by simp
qed

text \<open>Only the source contributes to what leaves a cut.\<close>

lemma net_across:
  assumes "cut n s t S" and d: "\<And>u v. u \<in> {0..<n} \<Longrightarrow> v \<in> {0..<n} \<Longrightarrow> d u v = - d v u"
    and bal: "\<And>w. w \<in> {0..<n} - {s, t} \<Longrightarrow> (\<Sum>v = 0..<n. d w v) = 0"
  shows "(\<Sum>u \<in> S. \<Sum>v \<in> {0..<n} - S. d u v) = (\<Sum>v = 0..<n. (d s v :: int))"
proof -
  have S: "S \<subseteq> {0..<n}" "s \<in> S" "t \<notin> S" "finite S"
    using assms(1) finite_subset [of S "{0..<n}"] by (auto simp: cut_def)
  have split: "(\<Sum>v = 0..<n. d u v) = (\<Sum>v \<in> {0..<n} - S. d u v) + (\<Sum>v \<in> S. d u v)" for u
    by (rule sum.subset_diff) (use S in auto)
  have "(\<Sum>u \<in> S. \<Sum>v = 0..<n. d u v) = (\<Sum>u \<in> S. \<Sum>v \<in> {0..<n} - S. d u v) + (\<Sum>u \<in> S. \<Sum>v \<in> S. d u v)"
    by (simp add: split sum.distrib)
  also have "(\<Sum>u \<in> S. \<Sum>v \<in> S. d u v) = 0"
    by (rule antisym_inside [OF S(4)], rule d) (use S in auto)
  also have "(\<Sum>u \<in> S. \<Sum>v = 0..<n. d u v) = (\<Sum>u \<in> S. if u = s then \<Sum>v = 0..<n. d s v else 0)"
  proof (intro sum.cong refl)
    fix u assume u: "u \<in> S"
    then have "u \<noteq> s \<Longrightarrow> u \<in> {0..<n} - {s, t}" using S by blast
    then show "(\<Sum>v = 0..<n. d u v) = (if u = s then \<Sum>v = 0..<n. d s v else 0)"
      using bal by simp
  qed
  also have "\<dots> = (\<Sum>v = 0..<n. d s v)"
    using S by (simp add: sum.delta)
  finally show ?thesis by simp
qed

lemma flow_le_cut:
  assumes "flow n c s t f" "cut n s t S"
  shows "flow_value n s f \<le> cut_capacity n c S"
proof -
  have "flow_value n s f = (\<Sum>v = 0..<n. f s v - f v s)"
    by (simp add: flow_value_def sum_subtractf)
  also have "\<dots> = (\<Sum>u \<in> S. \<Sum>v \<in> {0..<n} - S. f u v - f v u)"
  proof (rule net_across [OF assms(2), symmetric])
    fix w assume "w \<in> {0..<n} - {s, t}"
    with assms(1) show "(\<Sum>v = 0..<n. f w v - f v w) = 0" by (simp add: flow_def sum_subtractf)
  qed simp
  also have "\<dots> \<le> cut_capacity n c S"
    unfolding cut_capacity_def
  proof (intro sum_mono)
    fix u v assume "u \<in> S" "v \<in> {0..<n} - S"
    then have "u \<in> {0..<n}" "v \<in> {0..<n}" using assms(2) by (auto simp: cut_def)
    then have "0 \<le> f v u" "f u v \<le> c u v" using assms(1) by (simp_all add: flow_def)
    then show "f u v - f v u \<le> c u v" by simp
  qed
  finally show ?thesis .
qed

section \<open>Residual networks\<close>

text \<open>
  \<open>residual n c s t R k\<close>: the residual capacities \<open>R\<close> stand for a flow of value \<open>k\<close>.
\<close>

definition net :: "int \<Rightarrow> (int \<Rightarrow> int \<Rightarrow> int) \<Rightarrow> (int \<Rightarrow> int \<Rightarrow> int) \<Rightarrow> int \<Rightarrow> int" where
  "net n c R w = (\<Sum>v = 0..<n. c w v - R w v)"

definition conserves :: "int \<Rightarrow> (int \<Rightarrow> int \<Rightarrow> int) \<Rightarrow> (int \<Rightarrow> int \<Rightarrow> int) \<Rightarrow> bool" where
  "conserves n c R \<longleftrightarrow> (\<forall>u v. 0 \<le> u \<and> u < n \<and> 0 \<le> v \<and> v < n \<longrightarrow> 0 \<le> R u v \<and> R u v + R v u = c u v + c v u)"

definition residual :: "int \<Rightarrow> (int \<Rightarrow> int \<Rightarrow> int) \<Rightarrow> int \<Rightarrow> int \<Rightarrow> (int \<Rightarrow> int \<Rightarrow> int) \<Rightarrow> int \<Rightarrow> bool" where
  "residual n c s t R k \<longleftrightarrow> conserves n c R \<and> (\<forall>w. 0 \<le> w \<and> w < n \<and> w \<noteq> s \<and> w \<noteq> t \<longrightarrow> net n c R w = 0) \<and>
     net n c R s = k"

definition nonneg_on :: "int \<Rightarrow> (int \<Rightarrow> int \<Rightarrow> int) \<Rightarrow> bool" where
  "nonneg_on n c \<longleftrightarrow> (\<forall>u v. 0 \<le> u \<and> u < n \<and> 0 \<le> v \<and> v < n \<longrightarrow> 0 \<le> c u v)"

lemma residual_start: "nonneg_on n c \<Longrightarrow> residual n c s t c 0"
  by (simp add: residual_def net_def conserves_def nonneg_on_def)

lemma residual_antisym:
  "residual n c s t R k \<Longrightarrow> u \<in> {0..<n} \<Longrightarrow> v \<in> {0..<n} \<Longrightarrow> c u v - R u v = - (c v u - R v u)"
  unfolding residual_def conserves_def by (smt (verit) atLeastLessThan_iff)

lemma residual_flow:
  assumes r: "residual n c s t R k" and c: "nonneg_on n c" and s: "0 \<le> s" "s < n"
  shows "\<exists>f. flow n c s t f \<and> flow_value n s f = k"
proof -
  let ?d = "\<lambda>u v. c u v - R u v" and ?f = "\<lambda>u v. max 0 (c u v - R u v)"
  have net: "(\<Sum>v = 0..<n. ?f w v) - (\<Sum>v = 0..<n. ?f v w) = net n c R w" if "w \<in> {0..<n}" for w
  proof -
    have "?f w v - ?f v w = ?d w v" if "v \<in> {0..<n}" for v
      using residual_antisym [OF r \<open>w \<in> {0..<n}\<close> that] by auto
    then show ?thesis by (simp add: net_def flip: sum_subtractf)
  qed
  have "flow n c s t ?f"
    unfolding flow_def
  proof (intro conjI ballI)
    fix w assume w: "w \<in> {0..<n} - {s, t}"
    then have "net n c R w = 0" using r by (simp add: residual_def)
    with net [of w] w show "(\<Sum>v = 0..<n. ?f v w) = (\<Sum>v = 0..<n. ?f w v)" by simp
  next
    fix u v assume "u \<in> {0..<n}" "v \<in> {0..<n}"
    with r c show "?f u v \<le> c u v" by (simp add: residual_def conserves_def nonneg_on_def)
  qed simp
  moreover have "flow_value n s ?f = k"
    using net [of s] r s by (simp add: flow_value_def residual_def)
  ultimately show ?thesis by blast
qed

text \<open>A cut without residual edges has the capacity of the flow.\<close>

lemma residual_cut:
  assumes r: "residual n c s t R k" and "cut n s t S"
    and no: "\<And>u v. u \<in> S \<Longrightarrow> v \<in> {0..<n} - S \<Longrightarrow> R u v = 0"
  shows "cut_capacity n c S = k"
proof -
  have "cut_capacity n c S = (\<Sum>u \<in> S. \<Sum>v \<in> {0..<n} - S. c u v - R u v)"
    unfolding cut_capacity_def by (intro sum.cong refl) (simp add: no)
  also have "\<dots> = (\<Sum>v = 0..<n. c s v - R s v)"
    by (rule net_across [OF assms(2)]) (use residual_antisym [OF r] r in \<open>auto simp: residual_def net_def\<close>)
  also have "\<dots> = k" using r by (simp add: residual_def net_def)
  finally show ?thesis .
qed

text \<open>So a residual network that is cut certifies both optima.\<close>

lemma residual_optimal:
  assumes "residual n c s t R k" "nonneg_on n c" "cut n s t S"
    and "\<And>u v. u \<in> S \<Longrightarrow> v \<in> {0..<n} - S \<Longrightarrow> R u v = 0"
  shows "max_flow_value n c s t k" "min_cut n c s t S" "cut_capacity n c S = k"
proof -
  have s: "0 \<le> s" "s < n" using assms(3) by (auto simp: cut_def)
  obtain f where f: "flow n c s t f" "flow_value n s f = k"
    using residual_flow [OF assms(1,2) s] by blast
  show k: "cut_capacity n c S = k" by (rule residual_cut [OF assms(1,3,4)])
  have "flow_value n s g \<le> k" if "flow n c s t g" for g
    using flow_le_cut [OF that assms(3)] k by simp
  with f show "max_flow_value n c s t k" by (auto simp: max_flow_value_def)
  show "min_cut n c s t S"
    unfolding min_cut_def k using flow_le_cut [OF f(1)] assms(3) f(2) by simp
qed

lemma residual_value_le:
  assumes "residual n c s t R k" "0 \<le> s" "s < n"
  shows "k \<le> (\<Sum>v = 0..<n. c s v)"
proof -
  have "k = (\<Sum>v = 0..<n. c s v) - (\<Sum>v = 0..<n. R s v)"
    using assms by (simp add: residual_def net_def sum_subtractf)
  moreover have "0 \<le> (\<Sum>v = 0..<n. R s v)"
    by (rule sum_nonneg) (use assms in \<open>auto simp: residual_def conserves_def\<close>)
  ultimately show ?thesis by simp
qed

subsection \<open>Pushing flow along an edge\<close>

definition push :: "(int \<Rightarrow> int \<Rightarrow> int) \<Rightarrow> int \<Rightarrow> int \<Rightarrow> int \<Rightarrow> int \<Rightarrow> int \<Rightarrow> int" where
  "push R u v x a b = (if a = u \<and> b = v then R u v - x else if a = v \<and> b = u then R v u + x else R a b)"

lemma conserves_push:
  "conserves n c R \<Longrightarrow> u \<noteq> v \<Longrightarrow> 0 \<le> u \<Longrightarrow> u < n \<Longrightarrow> 0 \<le> v \<Longrightarrow> v < n \<Longrightarrow> 0 \<le> x \<Longrightarrow> x \<le> R u v \<Longrightarrow>
   conserves n c (push R u v x)"
  by (auto simp: conserves_def push_def)

lemma net_push:
  assumes "u \<noteq> v" "0 \<le> u" "u < n" "0 \<le> v" "v < n"
  shows "net n c (push R u v x) w = net n c R w + (if w = u then x else 0) - (if w = v then x else 0)"
proof -
  let ?at = "\<lambda>b z. if b = z then x else 0"
  have "net n c (push R u v x) w =
      (\<Sum>b = 0..<n. c w b - R w b + (if w = u then ?at b v else 0) - (if w = v then ?at b u else 0))"
    unfolding net_def by (intro sum.cong refl) (use assms in \<open>auto simp: push_def\<close>)
  also have "\<dots> = net n c R w + (if w = u then \<Sum>b = 0..<n. ?at b v else 0) - (if w = v then \<Sum>b = 0..<n. ?at b u else 0)"
    by (simp add: net_def sum.distrib sum_subtractf)
  also have "\<dots> = net n c R w + (if w = u then x else 0) - (if w = v then x else 0)"
    using assms by (simp add: sum.delta)
  finally show ?thesis by simp
qed

end
