(* ===== verification/Cxx_Matrix.thy ===== *)
theory Cxx_Matrix
  imports Cxx_Array
begin

text \<open>
  Two-dimensional arrays as lists of rows.  \<open>rd2\<close>, \<open>rdi2\<close> and \<open>wr2\<close> are the checked
  accesses to \<open>a[i][j]\<close>; \<open>mat n a A\<close> says that \<open>a\<close> is an n by n array without
  uninitialised places whose element in row \<open>i\<close>, column \<open>j\<close> is \<open>A i j\<close>.
\<close>

definition rd2 :: "'a list list \<Rightarrow> int \<Rightarrow> int \<Rightarrow> 'a run" where
  "rd2 a i j = bnd (rd a i) (\<lambda>row. rd row j)"

definition rdi2 :: "'a option list list \<Rightarrow> int \<Rightarrow> int \<Rightarrow> 'a run" where
  "rdi2 a i j = bnd (rd a i) (\<lambda>row. rdi row j)"

definition wr2 :: "'a list list \<Rightarrow> int \<Rightarrow> int \<Rightarrow> 'a \<Rightarrow> 'a list list run" where
  "wr2 a i j v = bnd (rd a i) (\<lambda>row. bnd (wr row j v) (\<lambda>row. wr a i row))"

definition uninit2 :: "int \<Rightarrow> int \<Rightarrow> 'a option list list" where
  "uninit2 n m = replicate (nat n) (uninit m)"

definition at2 :: "'a list list \<Rightarrow> int \<Rightarrow> int \<Rightarrow> 'a" where
  "at2 a i j = at (at a i) j"

definition shape :: "int \<Rightarrow> 'a list list \<Rightarrow> bool" where
  "shape n a \<longleftrightarrow> len a = n \<and> (\<forall>row \<in> set a. len row = n)"

definition mat :: "int \<Rightarrow> 'a option list list \<Rightarrow> (int \<Rightarrow> int \<Rightarrow> 'a) \<Rightarrow> bool" where
  "mat n a A \<longleftrightarrow> shape n a \<and> (\<forall>i j. 0 \<le> i \<and> i < n \<and> 0 \<le> j \<and> j < n \<longrightarrow> at2 a i j = Some (A i j))"

abbreviation (input) inside :: "int \<Rightarrow> int \<Rightarrow> bool" where
  "inside n i \<equiv> 0 \<le> i \<and> i < n"

lemma shape_row: "shape n a \<Longrightarrow> inside n i \<Longrightarrow> len (at a i) = n"
  by (auto simp: shape_def)

lemma shape_len: "shape n a \<Longrightarrow> len a = n"
  by (simp add: shape_def)

lemma shape_upd: "shape n a \<Longrightarrow> inside n i \<Longrightarrow> len row = n \<Longrightarrow> shape n (upd a i row)"
  using set_upd_subset [of a i row] by (auto simp: shape_def)

lemma shape_uninit2 [simp]: "0 \<le> n \<Longrightarrow> shape n (uninit2 n n)"
  by (auto simp: shape_def uninit2_def)

definition upd2 :: "'a list list \<Rightarrow> int \<Rightarrow> int \<Rightarrow> 'a \<Rightarrow> 'a list list" where
  "upd2 a i j v = upd a i (upd (at a i) j v)"

lemma shape_upd2 [simp]: "shape n a \<Longrightarrow> inside n i \<Longrightarrow> inside n j \<Longrightarrow> shape n (upd2 a i j v)"
  by (auto simp: upd2_def shape_row intro!: shape_upd)

lemma at2_upd2: "shape n a \<Longrightarrow> inside n i \<Longrightarrow> inside n j \<Longrightarrow> inside n k \<Longrightarrow> inside n l \<Longrightarrow>
    at2 (upd2 a i j v) k l = (if k = i \<and> l = j then v else at2 a k l)"
  by (simp add: at2_def upd2_def at_upd shape_len shape_row)

lemma wp_rd2: "shape n a \<Longrightarrow> inside n i \<Longrightarrow> inside n j \<Longrightarrow> wp (rd2 a i j) Q \<longleftrightarrow> Q (at2 a i j)"
  by (simp add: rd2_def at2_def shape_len shape_row)

lemma wp_rdi2: "mat n a A \<Longrightarrow> inside n i \<Longrightarrow> inside n j \<Longrightarrow> wp (rdi2 a i j) Q \<longleftrightarrow> Q (A i j)"
  by (auto simp: rdi2_def mat_def at2_def shape_len shape_row)

lemma wp_wr2: "shape n a \<Longrightarrow> inside n i \<Longrightarrow> inside n j \<Longrightarrow> wp (wr2 a i j v) Q \<longleftrightarrow> Q (upd2 a i j v)"
  by (simp add: wr2_def upd2_def shape_len shape_row)

lemma mat_upd2:
  "mat n a A \<Longrightarrow> inside n i \<Longrightarrow> inside n j \<Longrightarrow> mat n (upd2 a i j (Some x)) (A (i := (A i)(j := x)))"
  by (auto simp: mat_def at2_upd2)

lemma mat_shape: "mat n a A \<Longrightarrow> shape n a"
  by (simp add: mat_def)

text \<open>Copying an array element by element, as the programs do with two nested loops.\<close>

definition copy2 :: "int \<Rightarrow> 'a list list \<Rightarrow> 'a option list list run" where
  "copy2 n a =
     for_up 0 n (\<lambda>u. for_up 0 n (\<lambda>v b. bnd (rd2 a u v) (\<lambda>x. wr2 b u v (Some x)))) (uninit2 n n)"

lemma wp_copy2:
  assumes a: "shape n a" and n: "0 \<le> n" and Q: "\<And>b. mat n b (at2 a) \<Longrightarrow> Q b"
  shows "wp (copy2 n a) Q"
proof -
  let ?done = "\<lambda>u v b. shape n b \<and> (\<forall>i j. inside n i \<longrightarrow> inside n j \<longrightarrow> i < u \<or> i = u \<and> j < v \<longrightarrow>
      at2 b i j = Some (at2 a i j))"
  show ?thesis
    unfolding copy2_def
  proof (rule wp_for_up [where I = "\<lambda>u. ?done u 0"])
    fix u b assume u: "0 \<le> u" "u < n" and I: "?done u 0 b"
    show "wp (for_up 0 n (\<lambda>v b. bnd (rd2 a u v) (\<lambda>x. wr2 b u v (Some x))) b) (?done (u + 1) 0)"
    proof (rule wp_for_up [where I = "?done u"])
      show "?done (u + 1) 0 b" if "?done u (max 0 n) b" for b
        using that u by (metis (no_types, lifting) max.absorb2 order_le_less_trans linorder_cases less_le zless_add1_eq add.commute n not_less)
    qed (use u a I in \<open>auto simp: wp_rd2 wp_wr2 at2_upd2\<close>)
  qed (use n Q in \<open>auto simp: mat_def\<close>)
qed

end
