(* ===== verification/Flow_Ford.thy ===== *)
theory Flow_Ford
  imports Flow_Network Cxx_Matrix Cxx_Console
begin

text \<open>
  \<open>DataStructure/ford_fulkerson\<close>: the two Ford-Fulkerson programs.  The residual network is a
  local array without initialiser that is filled by a copy loop, so it is a matrix of options; so
  is the array of parents.  The breadth-first search and the two loops along the path found are
  written twice in the repository with the same text; both programs share their translation here.
\<close>

section \<open>The programs\<close>

definition TAM :: int where
  "TAM = 6"

definition bfs_visit :: "int option list list \<Rightarrow> int \<Rightarrow> int list \<times> bool list \<times> int option list \<Rightarrow>
    (int list \<times> bool list \<times> int option list) run" where
  "bfs_visit rGraph u =
     for_up 0 TAM (\<lambda>v (q, visited, parent).
       bnd (rd visited v) (\<lambda>seen.
       bnd (if seen then ok False else bnd (rdi2 rGraph u v) (\<lambda>r. ok (r > 0))) (\<lambda>new.
       if new then
         bnd (wr parent v (Some u)) (\<lambda>parent.
         bnd (wr visited v True) (\<lambda>visited. ok (q @ [v], visited, parent)))
       else ok (q, visited, parent))))"

definition bfs_search :: "int option list list \<Rightarrow> int \<Rightarrow> int option list \<Rightarrow> (bool list \<times> int option list) run" where
  "bfs_search rGraph s parent =
     bnd (wr (replicate (nat TAM) False) s True) (\<lambda>visited.
     bnd (wr parent s (Some (- 1))) (\<lambda>parent.
     bnd (while_run (\<lambda>(q, visited, parent). ok (q \<noteq> []))
            (\<lambda>(q, visited, parent). bfs_visit rGraph (hd q) (tl q, visited, parent))
            ([s], visited, parent)) (\<lambda>(q, visited, parent).
     ok (visited, parent))))"

definition bfs :: "int option list list \<Rightarrow> int \<Rightarrow> int \<Rightarrow> int option list \<Rightarrow> (bool \<times> int option list) run" where
  "bfs rGraph s t parent =
     bnd (bfs_search rGraph s parent) (\<lambda>(visited, parent).
     bnd (rd visited t) (\<lambda>found. ok (found, parent)))"

definition path_capacity :: "int option list list \<Rightarrow> int \<Rightarrow> int \<Rightarrow> int option list \<Rightarrow> int run" where
  "path_capacity rGraph s t parent =
     bnd (while_run (\<lambda>(v, path_flow). ok (v \<noteq> s))
            (\<lambda>(v, path_flow). bnd (rdi parent v) (\<lambda>u. bnd (rdi2 rGraph u v) (\<lambda>r.
               ok (u, min path_flow r)))) (t, int_max)) (\<lambda>(v, path_flow). ok path_flow)"

definition augment :: "int option list list \<Rightarrow> int \<Rightarrow> int \<Rightarrow> int option list \<Rightarrow> int \<Rightarrow> int option list list run" where
  "augment rGraph s t parent path_flow =
     bnd (while_run (\<lambda>(v, rGraph). ok (v \<noteq> s))
            (\<lambda>(v, rGraph). bnd (rdi parent v) (\<lambda>u.
               bnd (rdi2 rGraph u v) (\<lambda>r. bnd (i32 (r - path_flow)) (\<lambda>r. bnd (wr2 rGraph u v (Some r)) (\<lambda>rGraph.
               bnd (rdi2 rGraph v u) (\<lambda>r. bnd (i32 (r + path_flow)) (\<lambda>r. bnd (wr2 rGraph v u (Some r)) (\<lambda>rGraph.
               ok (u, rGraph))))))))) (t, rGraph)) (\<lambda>(v, rGraph). ok rGraph)"

definition fordFulkerson :: "int list list \<Rightarrow> int \<Rightarrow> int \<Rightarrow> int run" where
  "fordFulkerson graph s t =
     bnd (copy2 TAM graph) (\<lambda>rGraph.
     loop (\<lambda>(rGraph, parent, max_flow).
       bnd (bfs rGraph s t parent) (\<lambda>(found, parent).
       if found then
         bnd (path_capacity rGraph s t parent) (\<lambda>path_flow.
         bnd (augment rGraph s t parent path_flow) (\<lambda>rGraph.
         bnd (i32 (max_flow + path_flow)) (\<lambda>max_flow. ok (Inl (rGraph, parent, max_flow)))))
       else ok (Inr max_flow))) (rGraph, uninit TAM, 0))"

definition ford_graph :: "int list list" where
  "ford_graph =
     [[0, 16, 13, 0, 0, 0],
      [0, 0, 10, 12, 0, 0],
      [0, 4, 0, 0, 14, 0],
      [0, 0, 9, 0, 0, 20],
      [0, 0, 0, 7, 0, 4],
      [0, 0, 0, 0, 0, 0]]"

definition ford_main :: "string run" where
  "ford_main = bnd (fordFulkerson ford_graph 0 5) (\<lambda>k.
     ok (nl @ tab @ ''The maximum possible flow is '' @ dec k @ nl @ nl))"

text \<open>\<open>fordminfulk.cxx\<close>: its \<open>bfs\<close> returns an \<open>int\<close>.\<close>

definition bfs_int :: "int option list list \<Rightarrow> int \<Rightarrow> int \<Rightarrow> int option list \<Rightarrow> (int \<times> int option list) run" where
  "bfs_int rGraph s t parent =
     bnd (bfs_search rGraph s parent) (\<lambda>(visited, parent).
     bnd (rd visited t) (\<lambda>found. ok (if found then 1 else 0, parent)))"

partial_function (option) dfs :: "int option list list \<Rightarrow> int \<Rightarrow> bool list \<Rightarrow> bool list run" where
  "dfs rGraph s visited =
     bnd (wr visited s True) (\<lambda>visited.
     for_up 0 TAM (\<lambda>i visited.
       bnd (rdi2 rGraph s i) (\<lambda>r.
       bnd (if r \<noteq> 0 then bnd (rd visited i) (\<lambda>seen. ok (\<not> seen)) else ok False) (\<lambda>go.
       if go then dfs rGraph i visited else ok visited))) visited)"

definition min_cut_residual :: "int list list \<Rightarrow> int \<Rightarrow> int \<Rightarrow> int option list list run" where
  "min_cut_residual graph s t =
     bnd (copy2 TAM graph) (\<lambda>rGraph.
     loop (\<lambda>(rGraph, parent).
       bnd (bfs_int rGraph s t parent) (\<lambda>(found, parent).
       if found \<noteq> 0 then
         bnd (path_capacity rGraph s t parent) (\<lambda>path_flow.
         bnd (augment rGraph s t parent path_flow) (\<lambda>rGraph. ok (Inl (rGraph, parent))))
       else ok (Inr rGraph))) (rGraph, uninit TAM))"

definition cut_edges :: "int list list \<Rightarrow> bool list \<Rightarrow> string run" where
  "cut_edges graph visited =
     for_up 0 TAM (\<lambda>i. for_up 0 TAM (\<lambda>j out.
       bnd (rd visited i) (\<lambda>a. bnd (if a then bnd (rd visited j) (\<lambda>b. ok (\<not> b)) else ok False) (\<lambda>across.
       bnd (if across then bnd (rd2 graph i j) (\<lambda>c. ok (c \<noteq> 0)) else ok False) (\<lambda>p.
       if p then ok (out @ dec i @ '' - '' @ dec j @ nl) else ok out))))) []"

definition minCut :: "int list list \<Rightarrow> int \<Rightarrow> int \<Rightarrow> string run" where
  "minCut graph s t =
     bnd (min_cut_residual graph s t) (\<lambda>rGraph.
     bnd (dfs rGraph s (replicate (nat TAM) False)) (\<lambda>visited.
     cut_edges graph visited))"

definition min_cut_main :: "string run" where
  "min_cut_main = minCut ford_graph 0 5"

section \<open>Breadth-first search\<close>

lemma TAM_pos [simp]: "0 < TAM" "0 \<le> TAM"
  by (simp_all add: TAM_def)

text \<open>
  The vertices in the order they are discovered: each but the source was reached from an earlier
  one, its parent, along a residual edge.
\<close>

inductive discovered :: "(int \<Rightarrow> int \<Rightarrow> int) \<Rightarrow> int \<Rightarrow> (int \<Rightarrow> int option) \<Rightarrow> int list \<Rightarrow> bool"
  for R s par where
  source: "discovered R s par [s]"
| reached: "discovered R s par vs \<Longrightarrow> u \<in> set vs \<Longrightarrow> v \<notin> set vs \<Longrightarrow> par v = Some u \<Longrightarrow> 0 < R u v \<Longrightarrow>
    discovered R s par (vs @ [v])"

lemma discovered_source: "discovered R s par vs \<Longrightarrow> s \<in> set vs"
  by (induction rule: discovered.induct) auto

lemma discovered_distinct: "discovered R s par vs \<Longrightarrow> distinct vs"
  by (induction rule: discovered.induct) auto

lemma discovered_cong:
  "discovered R s par vs \<Longrightarrow> (\<And>v. v \<in> set vs \<Longrightarrow> par' v = par v) \<Longrightarrow> discovered R s par' vs"
  by (induction rule: discovered.induct) (auto intro: discovered.intros)

text \<open>The way back along the parents: \<open>climb R s par p v\<close> when it visits \<open>p\<close> after \<open>v\<close>.\<close>

primrec climb :: "(int \<Rightarrow> int \<Rightarrow> int) \<Rightarrow> int \<Rightarrow> (int \<Rightarrow> int option) \<Rightarrow> int list \<Rightarrow> int \<Rightarrow> bool" where
  "climb R s par [] v \<longleftrightarrow> v = s"
| "climb R s par (u # p) v \<longleftrightarrow> v \<noteq> s \<and> par v = Some u \<and> 0 < R u v \<and> v \<notin> set (u # p) \<and> climb R s par p u"

lemma discovered_climb:
  "discovered R s par vs \<Longrightarrow> v \<in> set vs \<Longrightarrow> \<exists>p. climb R s par p v \<and> set p \<subseteq> set vs"
proof (induction arbitrary: v rule: discovered.induct)
  case source
  then show ?case by (intro exI [of _ "[]"]) simp
next
  case (reached vs u v w)
  show ?case
  proof (cases "w = v")
    case True
    obtain p where "climb R s par p u" "set p \<subseteq> set vs" using reached.IH reached.hyps(2) by blast
    with True reached.hyps discovered_source [OF reached.hyps(1)] show ?thesis
      by (intro exI [of _ "u # p"]) auto
  next
    case False
    with reached.IH [of w] reached.prems show ?thesis by auto
  qed
qed

definition bfs_inv :: "(int \<Rightarrow> int \<Rightarrow> int) \<Rightarrow> int \<Rightarrow> int list \<Rightarrow> int list \<Rightarrow> bool list \<Rightarrow> int option list \<Rightarrow> bool" where
  "bfs_inv R s done q visited parent \<longleftrightarrow>
     len visited = TAM \<and> len parent = TAM \<and> discovered R s (at parent) (done @ q) \<and>
     set (done @ q) \<subseteq> {0..<TAM} \<and> (\<forall>v. 0 \<le> v \<and> v < TAM \<longrightarrow> at visited v = (v \<in> set (done @ q)))"

definition closed_for :: "(int \<Rightarrow> int \<Rightarrow> int) \<Rightarrow> int \<Rightarrow> int \<Rightarrow> bool list \<Rightarrow> bool" where
  "closed_for R u n visited \<longleftrightarrow> (\<forall>w. 0 \<le> w \<and> w < n \<longrightarrow> 0 < R u w \<longrightarrow> at visited w)"

lemma closed_for_step:
  "0 \<le> v \<Longrightarrow> closed_for R u (v + 1) visited \<longleftrightarrow> closed_for R u v visited \<and> (0 < R u v \<longrightarrow> at visited v)"
  by (simp add: closed_for_def all_less_step)

lemma bfs_inv_new:
  assumes I: "bfs_inv R s done (u # q) visited parent" and v: "0 \<le> v" "v < TAM"
    and new: "\<not> at visited v" and e: "0 < R u v"
  shows "bfs_inv R s done (u # q @ [v]) (upd visited v True) (upd parent v (Some u))"
proof -
  have d: "discovered R s (at parent) (done @ u # q)" and nv: "v \<notin> set (done @ u # q)"
    using I v new by (auto simp: bfs_inv_def)
  have "discovered R s (at (upd parent v (Some u))) (done @ u # q)"
    by (rule discovered_cong [OF d]) (use I v nv in \<open>auto simp: bfs_inv_def at_upd\<close>)
  then have "discovered R s (at (upd parent v (Some u))) ((done @ u # q) @ [v])"
    by (rule discovered.reached [where u = u]) (use I v nv e in \<open>auto simp: bfs_inv_def at_upd\<close>)
  with I v show ?thesis by (auto simp: bfs_inv_def at_upd)
qed

lemma wp_bfs_visit:
  assumes m: "mat TAM r R" and I: "bfs_inv R s done (u # q) visited parent"
  shows "wp (bfs_visit r u (q, visited, parent)) (\<lambda>(q', visited', parent').
     (\<exists>new. q' = q @ new) \<and> bfs_inv R s done (u # q') visited' parent' \<and> closed_for R u TAM visited' \<and>
     (\<forall>w. 0 \<le> w \<and> w < TAM \<and> at visited w \<longrightarrow> at visited' w))"
  unfolding bfs_visit_def
proof (rule wp_for_up [where I = "\<lambda>v (q', visited', parent'). (\<exists>new. q' = q @ new) \<and>
     bfs_inv R s done (u # q') visited' parent' \<and> closed_for R u v visited' \<and>
     (\<forall>w. 0 \<le> w \<and> w < TAM \<and> at visited w \<longrightarrow> at visited' w)"], goal_cases)
  case 1
  then show ?case using I by (auto simp: closed_for_def)
next
  case (2 v x)
  obtain q' vis par where x: "x = (q', vis, par)" by (cases x)
  with 2 have J: "bfs_inv R s done (u # q') vis par" and c: "closed_for R u v vis" by auto
  have l: "len vis = TAM" "len par = TAM" "0 \<le> u" "u < TAM" using J by (auto simp: bfs_inv_def)
  have c1: "closed_for R u (v + 1) vis" if "at vis v \<or> \<not> 0 < R u v"
    using c that 2(1) by (auto simp: closed_for_step)
  have c2: "closed_for R u (v + 1) (upd vis v True)"
    using c l 2(1,2) by (auto simp: closed_for_step) (auto simp: closed_for_def at_upd)
  show ?case
    using 2 x J l c1 c2 bfs_inv_new [OF J 2(1,2)]
    by (auto simp: wp_rdi2 [OF m] at_upd)
next
  case (3 x)
  then show ?case by auto
qed

definition bfs_loop_inv where
  "bfs_loop_inv R s q visited parent \<longleftrightarrow> (\<exists>done. bfs_inv R s done q visited parent \<and>
     (\<forall>u \<in> set done. closed_for R u TAM visited))"

definition bfs_measure :: "int list \<times> bool list \<times> int option list \<Rightarrow> nat" where
  "bfs_measure = (\<lambda>(q, visited, parent). card {v \<in> {0..<TAM}. \<not> at visited v} + length q)"

lemma bfs_measure_inv:
  assumes "bfs_inv R s done q visited parent"
  shows "bfs_measure (q, visited, parent) + length done = nat TAM"
proof -
  have "{v \<in> {0..<TAM}. \<not> at visited v} = {0..<TAM} - set (done @ q)"
    using assms by (auto simp: bfs_inv_def)
  moreover have "card ({0..<TAM} - set (done @ q)) = nat TAM - length (done @ q)"
    using assms distinct_card [of "done @ q"]
    by (subst card_Diff_subset) (auto simp: bfs_inv_def simp del: set_append dest: discovered_distinct)
  moreover have "length (done @ q) \<le> nat TAM"
    using card_mono [of "{0..<TAM}" "set (done @ q)"] assms distinct_card [of "done @ q"]
    by (auto simp: bfs_inv_def simp del: set_append dest: discovered_distinct)
  ultimately show ?thesis by (simp add: bfs_measure_def)
qed

lemma wp_bfs_search:
  assumes m: "mat TAM r R" and s: "0 \<le> s" "s < TAM" and p: "len parent = TAM"
  shows "wp (bfs_search r s parent) (\<lambda>(visited, parent'). bfs_loop_inv R s [] visited parent')"
proof -
  let ?vis = "upd (replicate (nat TAM) False) s True" and ?par = "upd parent s (Some (- 1))"
  have "at (replicate (nat TAM) False) v = False" if "0 \<le> v" "v < TAM" for v
    using that by (simp add: at_def nat_less_iff)
  then have start: "bfs_inv R s [] [s] ?vis ?par"
    using s p by (auto simp: bfs_inv_def at_upd intro: discovered.source)
  have "wp (while_run (\<lambda>(q, visited, parent). ok (q \<noteq> []))
      (\<lambda>(q, visited, parent). bfs_visit r (hd q) (tl q, visited, parent)) ([s], ?vis, ?par))
      (\<lambda>(q, visited, parent). bfs_loop_inv R s [] visited parent)"
  proof (rule wp_while [where m = bfs_measure and I = "\<lambda>(q, visited, parent). bfs_loop_inv R s q visited parent"])
    show "case ([s], ?vis, ?par) of (q, visited, parent) \<Rightarrow> bfs_loop_inv R s q visited parent"
      using start by (auto simp: bfs_loop_inv_def)
  next
    fix x :: "int list \<times> bool list \<times> int option list"
    assume I: "case x of (q, visited, parent) \<Rightarrow> bfs_loop_inv R s q visited parent"
    obtain q vis par where x: "x = (q, vis, par)" by (cases x)
    show "wp (case x of (q, visited, parent) \<Rightarrow> ok (q \<noteq> [])) (\<lambda>t. if t then
        wp (case x of (q, visited, parent) \<Rightarrow> bfs_visit r (hd q) (tl q, visited, parent))
          (\<lambda>x'. (case x' of (q, visited, parent) \<Rightarrow> bfs_loop_inv R s q visited parent) \<and>
             bfs_measure x' < bfs_measure x)
        else (case x of (q, visited, parent) \<Rightarrow> bfs_loop_inv R s [] visited parent))"
    proof (cases q)
      case Nil
      with I x show ?thesis by simp
    next
      case (Cons u q0)
      with I x obtain ds where J: "bfs_inv R s ds (u # q0) vis par"
          and c: "\<forall>a \<in> set ds. closed_for R a TAM vis" by (auto simp: bfs_loop_inv_def)
      have post: "bfs_loop_inv R s q' vis' par' \<and> bfs_measure (q', vis', par') < bfs_measure (q, vis, par)"
        if K: "bfs_inv R s ds (u # q') vis' par'" and cu: "closed_for R u TAM vis'"
          and mono: "\<forall>w. 0 \<le> w \<and> w < TAM \<and> at vis w \<longrightarrow> at vis' w" for q' vis' par'
      proof -
        have K': "bfs_inv R s (ds @ [u]) q' vis' par'" using K by (simp add: bfs_inv_def)
        have "\<forall>a \<in> set (ds @ [u]). closed_for R a TAM vis'"
          using c cu mono by (auto simp: closed_for_def)
        with K' have "bfs_loop_inv R s q' vis' par'" unfolding bfs_loop_inv_def by blast
        with bfs_measure_inv [OF K'] bfs_measure_inv [OF J] Cons show ?thesis by simp
      qed
      show ?thesis
        using Cons x post by (auto intro!: wp_conseq [OF wp_bfs_visit [OF m J]])
    qed
  qed
  with s p show ?thesis by (simp add: bfs_search_def) (auto elim!: wp_conseq)
qed

text \<open>What the search has reached is a cut without residual edges, or leads to the sink.\<close>

lemma bfs_result:
  assumes I: "bfs_loop_inv R s [] visited parent" and t: "0 \<le> t" "t < TAM"
  shows "len visited = TAM" "len parent = TAM"
    and "at visited t \<Longrightarrow> \<exists>p. climb R s (at parent) p t \<and> set p \<subseteq> {0..<TAM}"
    and "\<not> at visited t \<Longrightarrow> \<exists>S. cut TAM s t S \<and> (\<forall>u \<in> S. \<forall>v \<in> {0..<TAM} - S. R u v \<le> 0)"
proof -
  from I obtain vs where vs: "bfs_inv R s vs [] visited parent"
      "\<forall>u \<in> set vs. closed_for R u TAM visited"
    by (auto simp: bfs_loop_inv_def)
  then have V: "set vs \<subseteq> {0..<TAM}" "\<And>v. 0 \<le> v \<Longrightarrow> v < TAM \<Longrightarrow> at visited v \<longleftrightarrow> v \<in> set vs"
      "discovered R s (at parent) vs"
    by (auto simp: bfs_inv_def)
  show "len visited = TAM" "len parent = TAM" using vs by (auto simp: bfs_inv_def)
  show "\<exists>p. climb R s (at parent) p t \<and> set p \<subseteq> {0..<TAM}" if "at visited t"
    using discovered_climb [OF V(3), of t] V(1,2) t that by auto
  show "\<exists>S. cut TAM s t S \<and> (\<forall>u \<in> S. \<forall>v \<in> {0..<TAM} - S. R u v \<le> 0)" if "\<not> at visited t"
  proof (intro exI conjI ballI)
    show "cut TAM s t (set vs)"
      using V t that discovered_source [OF V(3)] by (auto simp: cut_def)
    fix u v assume "u \<in> set vs" "v \<in> {0..<TAM} - set vs"
    with vs(2) V(2) [of v] show "R u v \<le> 0" by (force simp: closed_for_def)
  qed
qed

section \<open>Along the path\<close>

abbreviation (input) edges :: "int \<Rightarrow> int list \<Rightarrow> (int \<times> int) list" where
  "edges v p \<equiv> zip p (v # p)"

lemma wp_path_capacity:
  assumes m: "mat TAM r R" and p: "climb R s (at parent) p t" and t: "0 \<le> t" "t < TAM"
    and P: "set p \<subseteq> {0..<TAM}" and l: "len parent = TAM"
  shows "wp (path_capacity r s t parent) (\<lambda>k. 0 < k \<and> k \<le> int_max \<and> (\<forall>(u, v) \<in> set (edges t p). k \<le> R u v))"
proof -
  have "wp (while_run (\<lambda>(v, path_flow). ok (v \<noteq> s))
            (\<lambda>(v, path_flow). bnd (rdi parent v) (\<lambda>u. bnd (rdi2 r u v) (\<lambda>x.
               ok (u, min path_flow x)))) (t, int_max))
     (\<lambda>(v, k). 0 < k \<and> k \<le> int_max \<and> (\<forall>(u, v) \<in> set (edges t p). k \<le> R u v))"
  proof (rule wp_while_list [where xs = p and I = "\<lambda>q (v, k). climb R s (at parent) q v \<and> v \<in> {0..<TAM} \<and>
      set q \<subseteq> {0..<TAM} \<and> 0 < k \<and> k \<le> int_max \<and>
      (\<forall>(u, w) \<in> set (edges t p) - set (edges v q). k \<le> R u w)"], goal_cases)
    case 1
    then show ?case using p t P by auto
  next
    case (2 u q x)
    obtain v k where x: "x = (v, k)" by (cases x)
    with 2 have c: "v \<noteq> s" "at parent v = Some u" "0 < R u v" "climb R s (at parent) q u" "u \<in> {0..<TAM}" "v \<in> {0..<TAM}"
        "set q \<subseteq> {0..<TAM}" "0 < k" "k \<le> int_max"
        "\<forall>(a, w) \<in> set (edges t p) - insert (u, v) (set (edges u q)). k \<le> R a w"
      by auto
    have "min k (R u v) \<le> R a w" if "(a, w) \<in> set (edges t p) - set (edges u q)" for a w
    proof (cases "(a, w) = (u, v)")
      case False
      with that c(10) have "k \<le> R a w" by blast
      then show ?thesis by simp
    qed simp
    then have "\<forall>(a, w) \<in> set (edges t p) - set (edges u q). min k (R u v) \<le> R a w" by blast
    with c x l show ?case by (simp add: wp_rdi2 [OF m])
  next
    case (3 x)
    then show ?case by auto
  qed
  then show ?thesis by (simp add: path_capacity_def) (auto elim!: wp_conseq)
qed

lemma wp_augment:
  assumes m: "mat TAM r R" and C: "conserves TAM c R" and p: "climb R s (at parent) p t"
    and t: "0 \<le> t" "t < TAM" and P: "set p \<subseteq> {0..<TAM}" and l: "len parent = TAM"
    and k: "0 < k" "\<forall>(u, v) \<in> set (edges t p). k \<le> R u v"
    and cap: "\<And>u v. 0 \<le> u \<Longrightarrow> u < TAM \<Longrightarrow> 0 \<le> v \<Longrightarrow> v < TAM \<Longrightarrow> c u v + c v u \<le> int_max"
  shows "wp (augment r s t parent k) (\<lambda>r'. \<exists>R'. mat TAM r' R' \<and> conserves TAM c R' \<and>
     (\<forall>w. net TAM c R' w = net TAM c R w + (if w = s then k else 0) - (if w = t then k else 0)))"
proof -
  define J where "J q v r' \<longleftrightarrow> (\<exists>R'. mat TAM r' R' \<and> conserves TAM c R' \<and>
      (\<forall>a \<in> set (v # q). \<forall>b \<in> set (v # q). R' a b = R a b) \<and>
      (\<forall>w. net TAM c R' w = net TAM c R w + (if w = v then k else 0) - (if w = t then k else 0)))" for q v r'
  let ?I = "\<lambda>q (v, r'). climb R s (at parent) q v \<and> v \<in> {0..<TAM} \<and> set q \<subseteq> {0..<TAM} \<and>
      (\<forall>(u, v) \<in> set (edges v q). k \<le> R u v) \<and> J q v r'"
  have "wp (while_run (\<lambda>(v, rGraph). ok (v \<noteq> s))
            (\<lambda>(v, rGraph). bnd (rdi parent v) (\<lambda>u.
               bnd (rdi2 rGraph u v) (\<lambda>r. bnd (i32 (r - k)) (\<lambda>r. bnd (wr2 rGraph u v (Some r)) (\<lambda>rGraph.
               bnd (rdi2 rGraph v u) (\<lambda>r. bnd (i32 (r + k)) (\<lambda>r. bnd (wr2 rGraph v u (Some r)) (\<lambda>rGraph.
               ok (u, rGraph))))))))) (t, r))
     (\<lambda>(v, r'). \<exists>R'. mat TAM r' R' \<and> conserves TAM c R' \<and>
     (\<forall>w. net TAM c R' w = net TAM c R w + (if w = s then k else 0) - (if w = t then k else 0)))"
  proof (rule wp_while_list [where xs = p and I = ?I], goal_cases)
    case 1
    have "J p t r" unfolding J_def using m C by (intro exI [of _ R]) simp
    then show ?case using p t P k by auto
  next
    case (2 u q x)
    obtain v r' where x: "x = (v, r')" by (cases x)
    with 2 have c: "v \<noteq> s" "at parent v = Some u" "climb R s (at parent) q u"
        "u \<in> {0..<TAM}" "v \<in> {0..<TAM}" "v \<notin> set (u # q)" "set q \<subseteq> {0..<TAM}" "k \<le> R u v"
        "\<forall>(u, v) \<in> set (edges u q). k \<le> R u v" "J (u # q) v r'"
      by auto
    then obtain R' where m': "mat TAM r' R'" and C': "conserves TAM c R'"
        and same: "\<forall>a \<in> set (v # u # q). \<forall>b \<in> set (v # u # q). R' a b = R a b"
        and bal: "\<forall>w. net TAM c R' w = net TAM c R w + (if w = v then k else 0) - (if w = t then k else 0)"
      unfolding J_def by auto
    let ?R1 = "R' (u := (R' u) (v := R' u v - k))"
    let ?R2 = "?R1 (v := (?R1 v) (u := ?R1 v u + k))"
    have uv: "u \<noteq> v" "0 \<le> u" "u < TAM" "0 \<le> v" "v < TAM" using c by auto
    have push: "?R2 = push R' u v k" using uv(1) by (intro ext) (auto simp: push_def)
    have "k \<le> R' u v" using same c(8) by simp
    then have C2: "conserves TAM c ?R2"
      unfolding push using uv k(1) by (intro conserves_push [OF C']) auto
    have bal2: "\<forall>w. net TAM c ?R2 w = net TAM c R w + (if w = u then k else 0) - (if w = t then k else 0)"
      unfolding push using bal uv by (simp add: net_push)
    have same2: "\<forall>a \<in> set (u # q). \<forall>b \<in> set (u # q). ?R2 a b = R a b"
      unfolding push using same c(6) by (auto simp: push_def)
    have range: "0 \<le> R' u v - k" "R' u v - k \<le> int_max" "0 \<le> R' v u + k" "R' v u + k \<le> int_max"
      using \<open>k \<le> R' u v\<close> C' cap [of u v] uv k(1) unfolding conserves_def by (smt (verit))+
    have m1: "mat TAM (upd2 r' u v (Some (R' u v - k))) ?R1"
      by (rule mat_upd2 [OF m']) (use uv in auto)
    have m2: "mat TAM (upd2 (upd2 r' u v (Some (R' u v - k))) v u (Some (?R1 v u + k))) ?R2"
      by (rule mat_upd2 [OF m1]) (use uv in auto)
    have r: "?R1 v u + k = R' v u + k" using uv(1) by simp
    have "J q u (upd2 (upd2 r' u v (Some (R' u v - k))) v u (Some (R' v u + k)))"
      unfolding J_def using m2 C2 same2 bal2 unfolding r by blast
    with x c uv range l show ?case
      by (simp add: wp_rdi2 [OF m'] wp_rdi2 [OF m1] wp_wr2 [OF mat_shape [OF m']] wp_wr2 [OF mat_shape [OF m1]])
  next
    case (3 x)
    then obtain r' where "x = (s, r')" "J [] s r'" by auto
    then show ?case unfolding J_def by auto
  qed
  then show ?thesis unfolding augment_def wp_bnd by (rule wp_conseq) (simp only: split_paired_all prod.case wp_ok)
qed

section \<open>The loops over augmenting paths\<close>

text \<open>
  Source and sink are different vertices, no capacity is negative, and the capacities of opposite
  edges and of the edges out of the source have sums an \<open>int\<close> holds.
\<close>

definition valid_network :: "int list list \<Rightarrow> int \<Rightarrow> int \<Rightarrow> bool" where
  "valid_network g s t \<longleftrightarrow> shape TAM g \<and> 0 \<le> s \<and> s < TAM \<and> 0 \<le> t \<and> t < TAM \<and> s \<noteq> t \<and>
     (\<forall>u \<in> {0..<TAM}. \<forall>v \<in> {0..<TAM}. 0 \<le> at2 g u v \<and> at2 g u v + at2 g v u \<le> int_max) \<and>
     (\<Sum>v = 0..<TAM. at2 g s v) \<le> int_max"

definition residual_graph :: "int list list \<Rightarrow> int \<Rightarrow> int \<Rightarrow> int option list list \<Rightarrow> int \<Rightarrow> bool" where
  "residual_graph g s t r k \<longleftrightarrow> (\<exists>R. mat TAM r R \<and> residual TAM (at2 g) s t R k)"

definition flow_left :: "int list list \<Rightarrow> int \<Rightarrow> int option list list \<Rightarrow> nat" where
  "flow_left g s r = nat (\<Sum>v = 0..<TAM. the (at2 r s v))"

lemma valid_nonneg: "valid_network g s t \<Longrightarrow> nonneg_on TAM (at2 g)"
  by (simp add: valid_network_def nonneg_on_def)

lemma residual_graph_start:
  "valid_network g s t \<Longrightarrow> mat TAM r (at2 g) \<Longrightarrow> residual_graph g s t r 0"
  using residual_start valid_nonneg by (auto simp: residual_graph_def)

lemma residual_graph_bounds:
  assumes "valid_network g s t" "residual_graph g s t r k"
  shows "k \<le> int_max" "int (flow_left g s r) = (\<Sum>v = 0..<TAM. at2 g s v) - k"
proof -
  obtain R where R: "mat TAM r R" "residual TAM (at2 g) s t R k"
    using assms(2) by (auto simp: residual_graph_def)
  have s: "0 \<le> s" "s < TAM" using assms(1) by (auto simp: valid_network_def)
  have le: "k \<le> (\<Sum>v = 0..<TAM. at2 g s v)" by (rule residual_value_le [OF R(2) s])
  with assms(1) show "k \<le> int_max" by (simp add: valid_network_def)
  have "(\<Sum>v = 0..<TAM. the (at2 r s v)) = (\<Sum>v = 0..<TAM. R s v)"
    by (intro sum.cong refl) (use R(1) s in \<open>simp add: mat_def\<close>)
  also have "\<dots> = (\<Sum>v = 0..<TAM. at2 g s v) - k"
    using R(2) by (simp add: residual_def net_def sum_subtractf)
  finally show "int (flow_left g s r) = (\<Sum>v = 0..<TAM. at2 g s v) - k"
    using le by (simp add: flow_left_def)
qed

text \<open>
  One turn: either the search finds a path and pushing along it leaves a residual network of a
  greater flow, or the flow is the greatest and a smallest cut separates the sink.
\<close>

lemma push_path:
  assumes g: "valid_network g s t" and R: "mat TAM r R" "residual TAM (at2 g) s t R f"
    and p: "climb R s (at parent) p t" "set p \<subseteq> {0..<TAM}" and l: "len parent = TAM"
  shows "wp (path_capacity r s t parent) (\<lambda>k. 0 < k \<and> wp (augment r s t parent k) (\<lambda>r'. residual_graph g s t r' (f + k)))"
proof -
  have st: "0 \<le> s" "s < TAM" "0 \<le> t" "t < TAM" "s \<noteq> t" using g by (auto simp: valid_network_def)
  show ?thesis
  proof (rule wp_conseq [OF wp_path_capacity [OF R(1) p(1) st(3,4) p(2) l]])
    fix k assume k: "0 < k \<and> k \<le> int_max \<and> (\<forall>(u, v) \<in> set (edges t p). k \<le> R u v)"
    have "wp (augment r s t parent k) (\<lambda>r'. \<exists>R'. mat TAM r' R' \<and> conserves TAM (at2 g) R' \<and>
       (\<forall>w. net TAM (at2 g) R' w = net TAM (at2 g) R w + (if w = s then k else 0) - (if w = t then k else 0)))"
      by (rule wp_augment [OF R(1) _ p(1) st(3,4) p(2) l])
        (use R(2) k g in \<open>auto simp: residual_def valid_network_def\<close>)
    then have "wp (augment r s t parent k) (\<lambda>r'. residual_graph g s t r' (f + k))"
      by (rule wp_conseq) (use R(2) st in \<open>auto simp: residual_graph_def residual_def\<close>)
    with k show "0 < k \<and> wp (augment r s t parent k) (\<lambda>r'. residual_graph g s t r' (f + k))" by simp
  qed
qed

lemma no_path:
  assumes g: "valid_network g s t" and R: "mat TAM r R" "residual TAM (at2 g) s t R f"
    and S: "cut TAM s t S" "\<forall>u \<in> S. \<forall>v \<in> {0..<TAM} - S. R u v \<le> 0"
  shows "max_flow_value TAM (at2 g) s t f"
proof (rule residual_optimal(1) [OF R(2) valid_nonneg [OF g] S(1)])
  fix u v assume "u \<in> S" "v \<in> {0..<TAM} - S"
  moreover from this have "0 \<le> R u v"
    using R(2) S(1) by (auto simp: residual_def conserves_def cut_def)
  ultimately show "R u v = 0" using S(2) by force
qed

lemma wp_bfs_graph:
  assumes g: "valid_network g s t" and r: "residual_graph g s t r f" and l: "len parent = TAM"
    and found: "\<And>parent'. len parent' = TAM \<Longrightarrow> wp (path_capacity r s t parent') (\<lambda>k. 0 < k \<and>
        wp (augment r s t parent' k) (\<lambda>r'. residual_graph g s t r' (f + k))) \<Longrightarrow> Q (True, parent')"
    and ends: "\<And>parent'. max_flow_value TAM (at2 g) s t f \<Longrightarrow> 
        \<exists>R S. mat TAM r R \<and> residual TAM (at2 g) s t R f \<and> cut TAM s t S \<and> (\<forall>u \<in> S. \<forall>v \<in> {0..<TAM} - S. R u v \<le> 0) \<Longrightarrow> Q (False, parent')"
  shows "wp (bfs r s t parent) Q"
proof -
  obtain R where R: "mat TAM r R" "residual TAM (at2 g) s t R f"
    using r by (auto simp: residual_graph_def)
  have st: "0 \<le> s" "s < TAM" "0 \<le> t" "t < TAM" using g by (auto simp: valid_network_def)
  have "wp (bfs_search r s parent) (\<lambda>(visited, parent). wp (rd visited t) (\<lambda>found. Q (found, parent)))"
  proof (rule wp_conseq [OF wp_bfs_search [OF R(1) st(1,2) l]])
    fix x :: "bool list \<times> int option list"
    assume "case x of (visited, parent') \<Rightarrow> bfs_loop_inv R s [] visited parent'"
    then obtain vis par where x: "x = (vis, par)" and I: "bfs_loop_inv R s [] vis par" by (cases x) auto
    note res = bfs_result [OF I st(3,4)]
    have "Q (at vis t, par)"
    proof (cases "at vis t")
      case True
      with res(3) obtain p where "climb R s (at par) p t" "set p \<subseteq> {0..<TAM}" by blast
      from push_path [OF g R this res(2)] found [OF res(2)] True show ?thesis by simp
    next
      case False
      with res(4) obtain S where S: "cut TAM s t S" "\<forall>u \<in> S. \<forall>v \<in> {0..<TAM} - S. R u v \<le> 0" by blast
      have "Q (False, par)"
        by (rule ends [OF no_path [OF g R S]]) (use R S in blast)
      with False show ?thesis by simp
    qed
    then show "case x of (visited, parent) \<Rightarrow> wp (rd visited t) (\<lambda>found. Q (found, parent))"
      using x res(1) st by simp
  qed
  then show ?thesis unfolding bfs_def wp_bnd by (rule wp_conseq) auto
qed

lemma wp_fordFulkerson:
  assumes g: "valid_network g s t"
  shows "wp (fordFulkerson g s t) (max_flow_value TAM (at2 g) s t)"
proof -
  have sh: "shape TAM g" using g by (simp add: valid_network_def)
  let ?I = "\<lambda>(r, parent, f). residual_graph g s t r f \<and> len parent = TAM \<and> 0 \<le> f"
  let ?m = "\<lambda>(r, parent, f). flow_left g s r"
  show ?thesis
    unfolding fordFulkerson_def wp_bnd
  proof (rule wp_copy2 [OF sh])
    fix r assume r: "mat TAM r (at2 g)"
    show "wp (loop (\<lambda>(rGraph, parent, max_flow).
       bnd (bfs rGraph s t parent) (\<lambda>(found, parent).
       if found then
         bnd (path_capacity rGraph s t parent) (\<lambda>path_flow.
         bnd (augment rGraph s t parent path_flow) (\<lambda>rGraph.
         bnd (i32 (max_flow + path_flow)) (\<lambda>max_flow. ok (Inl (rGraph, parent, max_flow)))))
       else ok (Inr max_flow))) (r, uninit TAM, 0)) (max_flow_value TAM (at2 g) s t)"
    proof (rule wp_loop [where I = ?I and m = ?m])
      show "?I (r, uninit TAM, 0)" using residual_graph_start [OF g r] by simp
    next
      fix x :: "int option list list \<times> int option list \<times> int" assume x: "?I x"
      obtain r parent f where xe: "x = (r, parent, f)" by (cases x)
      have I: "residual_graph g s t r f" "len parent = TAM" and nonneg: "0 \<le> f" using x xe by auto
      show "wp (case x of (rGraph, parent, max_flow) \<Rightarrow>
       bnd (bfs rGraph s t parent) (\<lambda>(found, parent).
       if found then
         bnd (path_capacity rGraph s t parent) (\<lambda>path_flow.
         bnd (augment rGraph s t parent path_flow) (\<lambda>rGraph.
         bnd (i32 (max_flow + path_flow)) (\<lambda>max_flow. ok (Inl (rGraph, parent, max_flow)))))
       else ok (Inr max_flow))) (\<lambda>y. case y of Inl x' \<Rightarrow> ?I x' \<and> ?m x' < ?m x | Inr k \<Rightarrow> max_flow_value TAM (at2 g) s t k)"
        unfolding xe prod.case wp_bnd
      proof (rule wp_bfs_graph [OF g I])
        fix par :: "int option list"
        assume l: "len par = TAM" and w: "wp (path_capacity r s t par) (\<lambda>k. 0 < k \<and>
            wp (augment r s t par k) (\<lambda>r'. residual_graph g s t r' (f + k)))"
        have step: "f + k \<le> int_max \<and> flow_left g s r' < flow_left g s r"
          if "0 < k" "residual_graph g s t r' (f + k)" for k r'
          using that residual_graph_bounds [OF g I(1)] residual_graph_bounds [OF g that(2)] by linarith
        show "wp (case (True, par) of (found, parent) \<Rightarrow> if found then
           bnd (path_capacity r s t parent) (\<lambda>path_flow.
           bnd (augment r s t parent path_flow) (\<lambda>rGraph.
           bnd (i32 (f + path_flow)) (\<lambda>max_flow. ok (Inl (rGraph, parent, max_flow)))))
           else ok (Inr f)) (\<lambda>y. case y of Inl x' \<Rightarrow> ?I x' \<and> ?m x' < flow_left g s r | Inr k \<Rightarrow> max_flow_value TAM (at2 g) s t k)"
          using w nonneg step l by (auto elim!: wp_conseq)
      qed simp
    qed
  qed simp
qed

lemma max_flow_value_unique:
  "max_flow_value n c s t k \<Longrightarrow> max_flow_value n c s t k' \<Longrightarrow> k = k'"
  by (fastforce simp: max_flow_value_def)

section \<open>The minimum cut\<close>

declare dfs.simps [code]

lemma dfs_unfold: "dfs rGraph s visited =
     bnd (wr visited s True) (\<lambda>visited.
     for_up 0 TAM (\<lambda>i visited.
       bnd (rdi2 rGraph s i) (\<lambda>r.
       bnd (if r \<noteq> 0 then bnd (rd visited i) (\<lambda>seen. ok (\<not> seen)) else ok False) (\<lambda>go.
       if go then dfs rGraph i visited else ok visited))) visited)"
  by (rule dfs.simps)

definition vertices :: "bool list \<Rightarrow> int set" where
  "vertices visited = {v \<in> {0..<TAM}. at visited v}"

definition closed_in :: "(int \<Rightarrow> int \<Rightarrow> int) \<Rightarrow> int set \<Rightarrow> int set \<Rightarrow> bool" where
  "closed_in R A B \<longleftrightarrow> (\<forall>u \<in> A. \<forall>v \<in> {0..<TAM}. R u v \<noteq> 0 \<longrightarrow> v \<in> B)"

lemma vertices_upd: "len visited = TAM \<Longrightarrow> 0 \<le> s \<Longrightarrow> s < TAM \<Longrightarrow>
    vertices (upd visited s True) = insert s (vertices visited)"
  by (auto simp: vertices_def at_upd)

lemma vertices_subset: "vertices visited \<subseteq> {0..<TAM}"
  by (auto simp: vertices_def)

text \<open>
  A call marks its start, everything it marks has all its successors marked, and it does not leave
  a set \<open>C\<close> that is closed under residual edges.
\<close>

definition dfs_post where
  "dfs_post R C s visited visited' \<longleftrightarrow> len visited' = TAM \<and> insert s (vertices visited) \<subseteq> vertices visited' \<and>
     closed_in R (vertices visited' - vertices visited) (vertices visited') \<and>
     (s \<in> C \<and> vertices visited \<subseteq> C \<longrightarrow> vertices visited' \<subseteq> C)"

lemma wp_dfs:
  assumes m: "mat TAM r R" and C: "closed_in R C C"
  shows "len visited = TAM \<Longrightarrow> 0 \<le> s \<Longrightarrow> s < TAM \<Longrightarrow> \<not> at visited s \<Longrightarrow>
    wp (dfs r s visited) (dfs_post R C s visited)"
proof (induction "card ({0..<TAM} - vertices visited)" arbitrary: s visited rule: less_induct)
  case less
  let ?vis = "upd visited s True"
  let ?V = vertices
  let ?I = "\<lambda>i vis. len vis = TAM \<and> ?V ?vis \<subseteq> ?V vis \<and> closed_in R (?V vis - ?V ?vis) (?V vis) \<and>
      (s \<in> C \<and> ?V visited \<subseteq> C \<longrightarrow> ?V vis \<subseteq> C) \<and> (\<forall>j. 0 \<le> j \<and> j < i \<longrightarrow> R s j \<noteq> 0 \<longrightarrow> j \<in> ?V vis)"
  have V: "?V ?vis = insert s (?V visited)" using less.prems by (simp add: vertices_upd)
  have new: "s \<notin> ?V visited" using less.prems by (simp add: vertices_def)
  show ?case
    unfolding dfs_unfold [of r s] wp_bnd wp_wr
  proof (intro conjI)
    show "wp (for_up 0 TAM (\<lambda>i visited.
       bnd (rdi2 r s i) (\<lambda>x.
       bnd (if x \<noteq> 0 then bnd (rd visited i) (\<lambda>seen. ok (\<not> seen)) else ok False) (\<lambda>go.
       if go then dfs r i visited else ok visited))) ?vis) (dfs_post R C s visited)"
    proof (rule wp_for_up [where I = ?I])
      fix i vis assume i: "0 \<le> i" "i < TAM" and I: "?I i vis"
      have skip: "?I (i + 1) vis" if "R s i = 0 \<or> at vis i"
        using I i that by (auto simp: all_less_step vertices_def)
      have rec: "wp (dfs r i vis) (?I (i + 1))" if e: "R s i \<noteq> 0" and n: "\<not> at vis i"
      proof -
        have "{0..<TAM} - ?V vis \<subset> {0..<TAM} - ?V visited"
          using I V new less.prems(2,3) by auto
        then have "card ({0..<TAM} - ?V vis) < card ({0..<TAM} - ?V visited)"
          by (intro psubset_card_mono) auto
        from less.hyps [OF this] I i n have "wp (dfs r i vis) (dfs_post R C i vis)" by simp
        then show ?thesis
        proof (rule wp_conseq)
          fix vis' assume p: "dfs_post R C i vis vis'"
          then have sub: "?V vis \<subseteq> ?V vis'" "i \<in> ?V vis'" by (auto simp: dfs_post_def)
          have "closed_in R (?V vis' - ?V ?vis) (?V vis')"
            using p I sub unfolding dfs_post_def closed_in_def by blast
          moreover have "s \<in> C \<and> ?V visited \<subseteq> C \<longrightarrow> ?V vis' \<subseteq> C"
          proof
            assume s: "s \<in> C \<and> ?V visited \<subseteq> C"
            with C e i have "i \<in> C" by (auto simp: closed_in_def)
            with s I p show "?V vis' \<subseteq> C" by (auto simp: dfs_post_def)
          qed
          moreover have "\<forall>j. 0 \<le> j \<and> j < i + 1 \<longrightarrow> R s j \<noteq> 0 \<longrightarrow> j \<in> ?V vis'"
            using I sub i by (auto simp: all_less_step)
          ultimately show "?I (i + 1) vis'" using I p sub by (auto simp: dfs_post_def)
        qed
      qed
      show "wp (bnd (rdi2 r s i) (\<lambda>x.
         bnd (if x \<noteq> 0 then bnd (rd vis i) (\<lambda>seen. ok (\<not> seen)) else ok False) (\<lambda>go.
         if go then dfs r i vis else ok vis))) (?I (i + 1))"
      proof -
        have l: "len vis = TAM" using I by blast
        have "wp (bnd (if R s i \<noteq> 0 then bnd (rd vis i) (\<lambda>seen. ok (\<not> seen)) else ok False) (\<lambda>go.
            if go then dfs r i vis else ok vis)) P" if "R s i = 0 \<or> at vis i \<Longrightarrow> P vis"
            "R s i \<noteq> 0 \<Longrightarrow> \<not> at vis i \<Longrightarrow> wp (dfs r i vis) P" for P
          using that l i by auto
        from this [OF skip rec] show ?thesis
          unfolding wp_bnd [of "rdi2 r s i"] wp_rdi2 [OF m conjI [OF less.prems(2,3)] conjI [OF i]] .
      qed
    next
      show "?I 0 ?vis" using V by (simp add: closed_in_def less.prems)
    next
      fix vis assume I: "?I (max 0 TAM) vis"
      then have "closed_in R {s} (?V vis)" by (simp add: closed_in_def)
      moreover have "?V vis - ?V visited \<subseteq> {s} \<union> (?V vis - ?V ?vis)" using V by auto
      ultimately have "closed_in R (?V vis - ?V visited) (?V vis)"
        using I unfolding closed_in_def by blast
      with I V show "dfs_post R C s visited vis" unfolding dfs_post_def by simp
    qed
  qed (use less.prems in auto)
qed

text \<open>The edges of the network that leave a set, as the program prints them.\<close>

definition cut_text :: "int list list \<Rightarrow> int set \<Rightarrow> string" where
  "cut_text g S = concat (map (\<lambda>i. concat (map (\<lambda>j.
     if i \<in> S \<and> j \<notin> S \<and> at2 g i j \<noteq> 0 then dec i @ '' - '' @ dec j @ nl else []) [0..TAM - 1])) [0..TAM - 1])"

lemma cut_edges_text:
  assumes g: "shape TAM g" and v: "len visited = TAM"
  shows "cut_edges g visited = ok (cut_text g (vertices visited))"
proof -
  let ?e = "\<lambda>i j. if i \<in> vertices visited \<and> j \<notin> vertices visited \<and> at2 g i j \<noteq> 0 then dec i @ '' - '' @ dec j @ nl else []"
  have cell: "bnd (rd visited i) (\<lambda>a. bnd (if a then bnd (rd visited j) (\<lambda>b. ok (\<not> b)) else ok False) (\<lambda>across.
       bnd (if across then bnd (rd2 g i j) (\<lambda>c. ok (c \<noteq> 0)) else ok False) (\<lambda>p.
       if p then ok (out @ dec i @ '' - '' @ dec j @ nl) else ok out))) = ok (out @ ?e i j)"
    if "0 \<le> i" "i < TAM" "0 \<le> j" "j < TAM" for i j out
    unfolding wp_eq_ok [symmetric] using that v by (auto simp: wp_rd2 [OF g] vertices_def)
  have row: "for_up 0 TAM (\<lambda>j out. bnd (rd visited i) (\<lambda>a. bnd (if a then bnd (rd visited j) (\<lambda>b. ok (\<not> b)) else ok False) (\<lambda>across.
       bnd (if across then bnd (rd2 g i j) (\<lambda>c. ok (c \<noteq> 0)) else ok False) (\<lambda>p.
       if p then ok (out @ dec i @ '' - '' @ dec j @ nl) else ok out)))) out = ok (out @ concat (map (?e i) [0..TAM - 1]))"
    if "0 \<le> i" "i < TAM" for i out
    by (rule for_up_append) (use that in \<open>rule cell\<close>)
  have "cut_edges g visited = ok ([] @ concat (map (\<lambda>i. concat (map (?e i) [0..TAM - 1])) [0..TAM - 1]))"
    unfolding cut_edges_def by (rule for_up_append) (rule row)
  then show ?thesis by (simp add: cut_text_def)
qed

lemma bfs_int_bfs: "bfs_int r s t parent = bnd (bfs r s t parent) (\<lambda>(found, parent). ok (if found then 1 else 0, parent))"
  unfolding bfs_int_def bfs_def by (simp add: bnd_assoc case_prod_unfold cong del: bnd_weak_cong)

lemma wp_min_cut_residual:
  assumes g: "valid_network g s t"
  shows "wp (min_cut_residual g s t) (\<lambda>r. \<exists>k R S. mat TAM r R \<and> residual TAM (at2 g) s t R k \<and>
     cut TAM s t S \<and> (\<forall>u \<in> S. \<forall>v \<in> {0..<TAM} - S. R u v \<le> 0))"
proof -
  have sh: "shape TAM g" using g by (simp add: valid_network_def)
  let ?Q = "\<lambda>r. \<exists>k R S. mat TAM r R \<and> residual TAM (at2 g) s t R k \<and> cut TAM s t S \<and> (\<forall>u \<in> S. \<forall>v \<in> {0..<TAM} - S. R u v \<le> 0)"
  let ?I = "\<lambda>(r, parent). (\<exists>f. residual_graph g s t r f) \<and> len parent = TAM"
  let ?m = "\<lambda>(r, parent). flow_left g s r"
  let ?body = "\<lambda>(rGraph, parent). bnd (bfs_int rGraph s t parent) (\<lambda>(found, parent).
       if found \<noteq> 0 then
         bnd (path_capacity rGraph s t parent) (\<lambda>path_flow.
         bnd (augment rGraph s t parent path_flow) (\<lambda>rGraph. ok (Inl (rGraph, parent))))
       else ok (Inr rGraph))"
  show ?thesis
    unfolding min_cut_residual_def wp_bnd
  proof (rule wp_copy2 [OF sh])
    fix r assume r: "mat TAM r (at2 g)"
    show "wp (loop ?body (r, uninit TAM)) ?Q"
    proof (rule wp_loop [where I = ?I and m = ?m])
      show "?I (r, uninit TAM)" using residual_graph_start [OF g r] by auto
    next
      fix x :: "int option list list \<times> int option list" assume x: "?I x"
      obtain r parent where xe: "x = (r, parent)" by (cases x)
      from x xe obtain f where I: "residual_graph g s t r f" "len parent = TAM" by auto
      show "wp (?body x) (\<lambda>y. case y of Inl x' \<Rightarrow> ?I x' \<and> ?m x' < ?m x | Inr r \<Rightarrow> ?Q r)"
        unfolding xe prod.case wp_bnd bfs_int_bfs
      proof (rule wp_bfs_graph [OF g I])
        fix par :: "int option list"
        assume l: "len par = TAM" and w: "wp (path_capacity r s t par) (\<lambda>k. 0 < k \<and>
            wp (augment r s t par k) (\<lambda>r'. residual_graph g s t r' (f + k)))"
        have step: "flow_left g s r' < flow_left g s r"
          if "0 < k" "residual_graph g s t r' (f + k)" for k r'
          using that residual_graph_bounds [OF g I(1)] residual_graph_bounds [OF g that(2)] by linarith
        show "wp (case (True, par) of (found, parent) \<Rightarrow> ok (if found then 1 else 0, parent)) (\<lambda>x. wp (case x of (found, parent) \<Rightarrow>
           if found \<noteq> (0 :: int) then
           bnd (path_capacity r s t parent) (\<lambda>path_flow.
           bnd (augment r s t parent path_flow) (\<lambda>rGraph. ok (Inl (rGraph, parent))))
           else ok (Inr r)) (\<lambda>y. case y of Inl x' \<Rightarrow> ?I x' \<and> ?m x' < flow_left g s r | Inr r \<Rightarrow> ?Q r))"
          using w step l by (auto elim!: wp_conseq)
      next
        fix par :: "int option list"
        assume "\<exists>R S. mat TAM r R \<and> residual TAM (at2 g) s t R f \<and> cut TAM s t S \<and> (\<forall>u \<in> S. \<forall>v \<in> {0..<TAM} - S. R u v \<le> 0)"
        then have "?Q r" by blast
        then show "wp (case (False, par) of (found, parent) \<Rightarrow> ok (if found then 1 else 0, parent)) (\<lambda>x. wp (case x of (found, parent) \<Rightarrow>
           if found \<noteq> (0 :: int) then
           bnd (path_capacity r s t parent) (\<lambda>path_flow.
           bnd (augment r s t parent path_flow) (\<lambda>rGraph. ok (Inl (rGraph, parent))))
           else ok (Inr r)) (\<lambda>y. case y of Inl x' \<Rightarrow> ?I x' \<and> ?m x' < flow_left g s r | Inr r \<Rightarrow> ?Q r))"
          by simp
      qed
    qed
  qed simp
qed

section \<open>Properties\<close>

text \<open>
  C1: \<open>fordFulkerson\<close> returns, without overflow or access outside an array, the value of a
  maximum flow from \<open>s\<close> to \<open>t\<close>: some flow has that value and none has a greater one.
\<close>

theorem fordFulkerson_correct:
  assumes "valid_network graph s t"
  shows "\<exists>k. fordFulkerson graph s t = ok k \<and> max_flow_value TAM (at2 graph) s t k"
  using wp_fordFulkerson [OF assms] by (auto simp: wp_iff)

text \<open>
  C2: \<open>minCut\<close> prints, row by row, the edges that leave a set of vertices whose cut is a minimum
  cut, and the capacity of that cut is the value of a maximum flow.
\<close>

theorem minCut_correct:
  assumes g: "valid_network graph s t"
  shows "\<exists>S. minCut graph s t = ok (cut_text graph S) \<and> min_cut TAM (at2 graph) s t S \<and>
     max_flow_value TAM (at2 graph) s t (cut_capacity TAM (at2 graph) S)"
proof -
  have st: "0 \<le> s" "s < TAM" "0 \<le> t" "t < TAM" and sh: "shape TAM graph"
    using g by (auto simp: valid_network_def)
  obtain r k R S where r: "min_cut_residual graph s t = ok r" and m: "mat TAM r R"
      and R: "residual TAM (at2 graph) s t R k" and S: "cut TAM s t S" "\<forall>u \<in> S. \<forall>v \<in> {0..<TAM} - S. R u v \<le> 0"
    using wp_min_cut_residual [OF g] by (auto simp: wp_iff)
  have "0 \<le> R u v" if "u \<in> S" "v \<in> {0..<TAM}" for u v
    using that R S(1) by (auto simp: residual_def conserves_def cut_def)
  with S have C: "closed_in R S S" unfolding closed_in_def by force
  have none: "vertices (replicate (nat TAM) False) = {}"
    by (auto simp: vertices_def at_def nat_less_iff)
  have "wp (dfs r s (replicate (nat TAM) False)) (dfs_post R S s (replicate (nat TAM) False))"
    by (rule wp_dfs [OF m C]) (use st in \<open>auto simp: at_def nat_less_iff\<close>)
  then obtain vis where vis: "dfs r s (replicate (nat TAM) False) = ok vis"
      and p: "dfs_post R S s (replicate (nat TAM) False) vis" by (auto simp: wp_iff)
  let ?T = "vertices vis"
  have T: "s \<in> ?T" "closed_in R ?T ?T" "?T \<subseteq> S" "len vis = TAM"
    using p none S(1) by (auto simp: dfs_post_def cut_def)
  have cutT: "cut TAM s t ?T"
    using T S(1) vertices_subset by (auto simp: cut_def)
  have "R u v = 0" if "u \<in> ?T" "v \<in> {0..<TAM} - ?T" for u v
    using that T(2) unfolding closed_in_def by blast
  note opt = residual_optimal [OF R valid_nonneg [OF g] cutT this]
  have "minCut graph s t = ok (cut_text graph ?T)"
    by (simp add: minCut_def r vis cut_edges_text [OF sh T(4)])
  with opt show ?thesis by auto
qed

lemma ford_graph_valid: "valid_network ford_graph 0 5"
  by code_simp

theorem fordFulkerson_correct_witness:
  "\<exists>k. fordFulkerson ford_graph 0 5 = ok k \<and> max_flow_value TAM (at2 ford_graph) 0 5 k"
  by (rule fordFulkerson_correct [OF ford_graph_valid])

theorem minCut_correct_witness:
  "\<exists>S. minCut ford_graph 0 5 = ok (cut_text ford_graph S) \<and> min_cut TAM (at2 ford_graph) 0 5 S \<and>
     max_flow_value TAM (at2 ford_graph) 0 5 (cut_capacity TAM (at2 ford_graph) S)"
  by (rule minCut_correct [OF ford_graph_valid])

lemma ford_graph_flow: "fordFulkerson ford_graph 0 5 = ok 23"
  by code_simp

lemma min_cut_main_text: "min_cut_main = ok (''1 - 3'' @ nl @ ''4 - 3'' @ nl @ ''4 - 5'' @ nl)"
  by code_simp

text \<open>The two programs print what the comments at the end of their files say.\<close>

theorem ford_mains_print:
  "ford_main = ok (nl @ tab @ ''The maximum possible flow is 23'' @ nl @ nl) \<and>
   min_cut_main = ok (''1 - 3'' @ nl @ ''4 - 3'' @ nl @ ''4 - 5'' @ nl)"
  by (simp add: ford_main_def ford_graph_flow min_cut_main_text dec_def)

end
