(* ===== verification/Graph_Forest.thy ===== *)
theory Graph_Forest
  imports Main
begin

text \<open>
  Undirected weighted graphs as sets of edges with a function \<open>ends\<close>: connection, forests,
  minimum spanning forests, and why taking the edges in ascending order of weight and keeping
  those that connect something new gives one.  This is the specification of the Kruskal programs;
  nothing here is taken from their code.
\<close>

inductive conn :: "('e \<Rightarrow> 'v \<times> 'v) \<Rightarrow> 'e set \<Rightarrow> 'v \<Rightarrow> 'v \<Rightarrow> bool" for ends F where
  here: "conn ends F a a"
| along: "conn ends F a b \<Longrightarrow> e \<in> F \<Longrightarrow> ends e = (b, c) \<or> ends e = (c, b) \<Longrightarrow> conn ends F a c"

definition linked :: "('e \<Rightarrow> 'v \<times> 'v) \<Rightarrow> 'e set \<Rightarrow> 'e \<Rightarrow> bool" where
  "linked ends F e \<longleftrightarrow> conn ends F (fst (ends e)) (snd (ends e))"

definition forest :: "('e \<Rightarrow> 'v \<times> 'v) \<Rightarrow> 'e set \<Rightarrow> bool" where
  "forest ends F \<longleftrightarrow> (\<forall>e \<in> F. \<not> linked ends (F - {e}) e)"

definition spanning_forest :: "('e \<Rightarrow> 'v \<times> 'v) \<Rightarrow> 'e set \<Rightarrow> 'e set \<Rightarrow> bool" where
  "spanning_forest ends E F \<longleftrightarrow> F \<subseteq> E \<and> forest ends F \<and> (\<forall>a b. conn ends E a b \<longrightarrow> conn ends F a b)"

definition min_spanning_forest :: "('e \<Rightarrow> 'v \<times> 'v) \<Rightarrow> ('e \<Rightarrow> int) \<Rightarrow> 'e set \<Rightarrow> 'e set \<Rightarrow> bool" where
  "min_spanning_forest ends wt E F \<longleftrightarrow> spanning_forest ends E F \<and>
     (\<forall>F'. spanning_forest ends E F' \<longrightarrow> sum wt F \<le> sum wt F')"

section \<open>Connection\<close>

lemma conn_trans: "conn ends F b c \<Longrightarrow> conn ends F a b \<Longrightarrow> conn ends F a c"
  by (induction rule: conn.induct) (auto intro: conn.along)

lemma conn_edge: "e \<in> F \<Longrightarrow> ends e = (a, b) \<Longrightarrow> conn ends F a b \<and> conn ends F b a"
  by (auto intro: conn.intros)

lemma conn_sym: "conn ends F a b \<Longrightarrow> conn ends F b a"
proof (induction rule: conn.induct)
  case (along a b e c)
  then have "conn ends F c b" by (auto dest: conn_edge)
  with along.IH show ?case by (rule conn_trans)
qed (rule conn.here)

lemma conn_via: "conn ends F a u \<Longrightarrow> conn ends F u v \<Longrightarrow> conn ends F b v \<Longrightarrow> conn ends F a b"
  by (rule conn_trans [OF conn_sym conn_trans])

lemma conn_mono: "conn ends F a b \<Longrightarrow> F \<subseteq> G \<Longrightarrow> conn ends G a b"
  by (induction rule: conn.induct) (auto intro: conn.intros)

lemma conn_empty [simp]: "conn ends {} a b \<longleftrightarrow> a = b"
  by (auto elim: conn.cases intro: conn.here)

lemma linked_mono: "linked ends F e \<Longrightarrow> F \<subseteq> G \<Longrightarrow> linked ends G e"
  by (simp add: linked_def conn_mono)

lemma linked_edge: "e \<in> F \<Longrightarrow> linked ends F e"
  using conn_edge [of e F ends] by (cases "ends e") (simp add: linked_def)

lemma conn_insert:
  "conn ends (insert e F) a b \<Longrightarrow> ends e = (u, v) \<Longrightarrow>
   conn ends F a b \<or> conn ends F a u \<and> conn ends F v b \<or> conn ends F a v \<and> conn ends F u b"
proof (induction rule: conn.induct)
  case (along a b f c)
  show ?case
  proof (cases "f = e")
    case True
    with along show ?thesis by (auto intro: conn.here)
  next
    case False
    with along.hyps have "f \<in> F" by simp
    with along.IH along.hyps(3) along.prems show ?thesis by (meson conn.along)
  qed
qed (simp add: conn.here)

text \<open>An edge whose ends are connected anyway connects nothing new.\<close>

lemma conn_insert_linked:
  assumes "linked ends F e" "conn ends (insert e F) a b"
  shows "conn ends F a b"
proof -
  obtain u v where e: "ends e = (u, v)" by (rule prod.exhaust)
  with assms(1) have "conn ends F u v" "conn ends F v u" by (auto simp: linked_def intro: conn_sym)
  with conn_insert [OF assms(2) e] show ?thesis by (meson conn_trans)
qed

lemma conn_covered:
  assumes "conn ends E a b" "\<And>e. e \<in> E \<Longrightarrow> linked ends F e"
  shows "conn ends F a b"
  using assms
proof (induction rule: conn.induct)
  case (along a b e c)
  have "linked ends F e" by (rule along.prems) fact
  with along.hyps(3) have "conn ends F b c" by (auto simp: linked_def dest: conn_sym)
  with along show ?case by (meson conn_trans)
qed (rule conn.here)

section \<open>Exchanging edges\<close>

lemma forest_empty [simp]: "forest ends {}"
  by (simp add: forest_def)

lemma forest_subset:
  assumes "forest ends G" "F \<subseteq> G"
  shows "forest ends F"
  unfolding forest_def
proof
  fix e assume "e \<in> F"
  then have "\<not> linked ends (G - {e}) e" using assms by (auto simp: forest_def)
  moreover have "F - {e} \<subseteq> G - {e}" using assms(2) by auto
  ultimately show "\<not> linked ends (F - {e}) e" by (metis linked_mono)
qed

lemma forest_insert:
  assumes F: "forest ends F" and new: "\<not> linked ends F e"
  shows "forest ends (insert e F)"
  unfolding forest_def
proof
  fix f assume f: "f \<in> insert e F"
  have eF: "e \<notin> F" using new linked_edge [of e F ends] by auto
  obtain u v where e: "ends e = (u, v)" by (rule prod.exhaust)
  show "\<not> linked ends (insert e F - {f}) f"
  proof (cases "f = e")
    case True
    with new eF show ?thesis by simp
  next
    case False
    with f have fF: "f \<in> F" by simp
    obtain x y where xy: "ends f = (x, y)" by (rule prod.exhaust)
    show ?thesis
    proof
      assume "linked ends (insert e F - {f}) f"
      with False xy have "conn ends (insert e (F - {f})) x y" by (simp add: linked_def insert_Diff_if)
      moreover have "\<not> conn ends (F - {f}) x y" using F fF xy by (auto simp: forest_def linked_def)
      ultimately have "conn ends (F - {f}) x u \<and> conn ends (F - {f}) v y \<or>
          conn ends (F - {f}) x v \<and> conn ends (F - {f}) u y"
        using conn_insert e by fastforce
      then have "conn ends F x u \<and> conn ends F v y \<or> conn ends F x v \<and> conn ends F u y"
        by (meson conn_mono Diff_subset)
      with conn_edge [of f F ends x y, OF fF xy] have "conn ends F u v" by (meson conn_sym conn_trans)
      with new e show False by (simp add: linked_def)
    qed
  qed
qed

text \<open>
  In a forest \<open>T\<close> that connects the ends of \<open>e\<close>, although the part \<open>F\<close> of it does not,
  some edge outside \<open>F\<close> can be exchanged for \<open>e\<close>.
\<close>

lemma separating_edge:
  assumes "finite D" "linked ends (F \<union> D) e" "\<not> linked ends F e"
  shows "\<exists>f D'. f \<in> D \<and> D' \<subseteq> D - {f} \<and> linked ends (insert f (F \<union> D')) e \<and> \<not> linked ends (F \<union> D') e"
  using assms
proof (induction D)
  case (insert f D)
  show ?case
  proof (cases "linked ends (F \<union> D) e")
    case True
    with insert obtain g D' where "g \<in> D" "D' \<subseteq> D - {g}" "linked ends (insert g (F \<union> D')) e" "\<not> linked ends (F \<union> D') e"
      by blast
    then show ?thesis by (intro exI [of _ g] exI [of _ D']) auto
  next
    case False
    with insert show ?thesis by (intro exI [of _ f] exI [of _ D]) auto
  qed
qed simp

lemma exchange:
  assumes T: "forest ends T" "finite T" "F \<subseteq> T" and e: "linked ends T e" "\<not> linked ends F e"
  shows "\<exists>f \<in> T - F. forest ends (insert e (T - {f})) \<and> linked ends (insert e (T - {f})) f"
proof -
  have "F \<union> (T - F) = T" using T(3) by auto
  with separating_edge [of "T - F" ends F e] T(2) e obtain f D where f: "f \<in> T - F" "D \<subseteq> T - F - {f}"
      and sep: "linked ends (insert f (F \<union> D)) e" "\<not> linked ends (F \<union> D) e"
    by auto
  obtain u v where uv: "ends e = (u, v)" by force
  obtain x y where xy: "ends f = (x, y)" by force
  let ?T = "T - {f}"
  have sub: "F \<union> D \<subseteq> ?T" using f T(3) by auto
  have "conn ends (F \<union> D) u x \<and> conn ends (F \<union> D) y v \<or> conn ends (F \<union> D) u y \<and> conn ends (F \<union> D) x v"
    using sep conn_insert [of ends f "F \<union> D" u v x y] xy uv by (auto simp: linked_def)
  then have ends: "conn ends ?T u x \<and> conn ends ?T y v \<or> conn ends ?T u y \<and> conn ends ?T x v"
    using conn_mono [OF _ sub, of ends] by blast
  have "\<not> conn ends ?T x y" using T(1) f xy by (auto simp: forest_def linked_def)
  then have "\<not> linked ends ?T e"
    using ends uv by (simp add: linked_def) (meson conn_sym conn_trans)
  then have "forest ends (insert e ?T)"
    using forest_subset [OF T(1), of ?T] by (intro forest_insert) auto
  moreover have "conn ends (insert e ?T) x y"
  proof -
    have "conn ends (insert e ?T) u v" using conn_edge [of e "insert e ?T" ends u v] uv by simp
    moreover have "conn ends (insert e ?T) u x \<and> conn ends (insert e ?T) y v \<or> conn ends (insert e ?T) u y \<and> conn ends (insert e ?T) x v"
      using ends conn_mono [of ends ?T _ _ "insert e ?T"] by blast
    ultimately show ?thesis by (meson conn_sym conn_trans)
  qed
  ultimately show ?thesis using f xy by (auto simp: linked_def)
qed

section \<open>The greedy choice\<close>

definition grow :: "('e \<Rightarrow> 'v \<times> 'v) \<Rightarrow> 'e set \<Rightarrow> 'e \<Rightarrow> 'e set" where
  "grow ends F e = (if linked ends F e then F else insert e F)"

lemma exchange_into:
  assumes T: "spanning_forest ends E T" "F \<subseteq> T" "T \<subseteq> F \<union> set (e # es)" and fin: "finite E" and e: "e \<in> E"
    and low: "\<And>f. f \<in> set es \<Longrightarrow> wt e \<le> wt f"
  shows "\<exists>T'. spanning_forest ends E T' \<and> grow ends F e \<subseteq> T' \<and> T' \<subseteq> grow ends F e \<union> set es \<and> sum wt T' \<le> (sum wt T :: int)"
proof (cases "linked ends F e \<or> e \<in> T")
  case True
  have "e \<notin> T" if l: "linked ends F e" and "e \<notin> F"
  proof
    assume "e \<in> T"
    moreover have "F \<subseteq> T - {e}" using T(2) that by auto
    with l have "linked ends (T - {e}) e" by (rule linked_mono)
    ultimately show False using T(1) by (auto simp: spanning_forest_def forest_def)
  qed
  with T True show ?thesis by (intro exI [of _ T]) (auto simp: grow_def)
next
  case False
  have t: "T \<subseteq> E" "forest ends T" "finite T" using T(1) fin by (auto simp: spanning_forest_def finite_subset)
  have "linked ends T e" using T(1) linked_edge [OF e, of ends] by (simp add: spanning_forest_def linked_def)
  with False obtain f where f: "f \<in> T - F" "forest ends (insert e (T - {f}))" "linked ends (insert e (T - {f})) f"
    using exchange [OF t(2,3) T(2)] by blast
  let ?T = "insert e (T - {f})"
  have conn: "conn ends ?T a b" if "conn ends E a b" for a b
  proof (rule conn_insert_linked [OF f(3)])
    have "conn ends T a b" using T(1) that by (simp add: spanning_forest_def)
    then show "conn ends (insert f ?T) a b" by (rule conn_mono) auto
  qed
  have "f \<in> set es" using f(1) T(3) False by auto
  then have "sum wt ?T \<le> sum wt T"
    using f(1) t(3) False low by (simp add: sum.remove [of T f])
  moreover have "spanning_forest ends E ?T"
    using conn f(2) t(1) e by (auto simp: spanning_forest_def)
  ultimately show ?thesis
    using False T f(1) by (intro exI [of _ ?T]) (auto simp: grow_def)
qed

lemma greedy_extends:
  assumes "sorted_wrt (\<lambda>a b. wt a \<le> (wt b :: int)) es" "set es \<subseteq> E" "finite E"
    "spanning_forest ends E T" "F \<subseteq> T" "T \<subseteq> F \<union> set es"
  shows "\<exists>T'. spanning_forest ends E T' \<and> T' = foldl (grow ends) F es \<and> sum wt T' \<le> sum wt T"
  using assms
proof (induction es arbitrary: F T)
  case (Cons e es)
  obtain T' where T': "spanning_forest ends E T'" "grow ends F e \<subseteq> T'" "T' \<subseteq> grow ends F e \<union> set es" "sum wt T' \<le> sum wt T"
    using exchange_into [OF Cons.prems(4,5,6,3), of wt] Cons.prems(1,2) by auto
  from Cons.IH [OF _ _ Cons.prems(3) T'(1,2,3)] Cons.prems(1,2) T'(4) show ?case by force
qed auto

lemma foldl_grow_subset: "foldl (grow ends) F es \<subseteq> F \<union> set es"
  by (induction es arbitrary: F) (force simp: grow_def split: if_splits)+

lemma foldl_grow_mono: "F \<subseteq> foldl (grow ends) F es"
  by (induction es arbitrary: F) (force simp: grow_def split: if_splits)+

lemma foldl_grow_forest: "forest ends F \<Longrightarrow> forest ends (foldl (grow ends) F es)"
  by (induction es arbitrary: F) (auto simp: grow_def forest_insert)

lemma foldl_grow_links: "e \<in> set es \<Longrightarrow> linked ends (foldl (grow ends) F es) e"
proof (induction es arbitrary: F)
  case (Cons f es)
  have "linked ends (grow ends F f) f" by (auto simp: grow_def linked_edge)
  then have "linked ends (foldl (grow ends) (grow ends F f) es) f"
    by (rule linked_mono [OF _ foldl_grow_mono])
  with Cons show ?case by auto
qed simp

lemma foldl_grow_spanning: "spanning_forest ends (set es) (foldl (grow ends) {} es)"
  using foldl_grow_subset [of ends "{}" es] foldl_grow_forest [of ends "{}" es]
  by (auto simp: spanning_forest_def intro: conn_covered foldl_grow_links)

theorem greedy_minimal:
  assumes "sorted_wrt (\<lambda>a b. wt a \<le> wt b) es"
  shows "min_spanning_forest ends wt (set es) (foldl (grow ends) {} es)"
  unfolding min_spanning_forest_def
proof (intro conjI allI impI foldl_grow_spanning)
  fix T assume T: "spanning_forest ends (set es) T"
  then show "sum wt (foldl (grow ends) {} es) \<le> sum wt T"
    using greedy_extends [OF assms subset_refl _ T, of "{}"] by (auto simp: spanning_forest_def)
qed

text \<open>The edges kept, in the order they are met.\<close>

primrec picked :: "('e \<Rightarrow> 'v \<times> 'v) \<Rightarrow> 'e set \<Rightarrow> 'e list \<Rightarrow> 'e list" where
  "picked ends F [] = []"
| "picked ends F (e # es) = (if linked ends F e then picked ends F es else e # picked ends (insert e F) es)"

lemma picked_snoc:
  "picked ends F (es @ [e]) = picked ends F es @ (if linked ends (foldl (grow ends) F es) e then [] else [e])"
  by (induction es arbitrary: F) (auto simp: grow_def)

lemma foldl_grow_picked: "foldl (grow ends) F es = F \<union> set (picked ends F es)"
  by (induction es arbitrary: F) (auto simp: grow_def)

lemma picked_new: "distinct (picked ends F es) \<and> set (picked ends F es) \<inter> F = {}"
proof (induction es arbitrary: F)
  case (Cons e es)
  show ?case
  proof (cases "linked ends F e")
    case True
    with Cons show ?thesis by simp
  next
    case False
    then have "e \<notin> F" using linked_edge [of e F ends] by auto
    with False Cons [of "insert e F"] show ?thesis by auto
  qed
qed simp

lemma sum_picked_le:
  "(\<And>e. 0 \<le> f e) \<Longrightarrow> sum_list (map f (picked ends F es)) \<le> sum_list (map f es :: int list)"
  by (induction es arbitrary: F) (auto intro: add_increasing)

lemma sorted_picked: "sorted_wrt P es \<Longrightarrow> sorted_wrt P (picked ends F es)"
proof (induction es arbitrary: F)
  case (Cons e es)
  have "set (picked ends G es) \<subseteq> set es" for G by (induction es arbitrary: G) auto
  with Cons show ?case by auto
qed simp

text \<open>Once everything is connected, nothing more is picked.\<close>

lemma picked_none: "(\<And>e. e \<in> set es \<Longrightarrow> linked ends F e) \<Longrightarrow> picked ends F es = []"
  by (induction es) auto

lemma picked_append: "picked ends F (es @ fs) = picked ends F es @ picked ends (foldl (grow ends) F es) fs"
  by (induction es arbitrary: F) (auto simp: grow_def)

end
