(* ===== verification/Graph_UnionFind.thy ===== *)
theory Graph_UnionFind
  imports Graph_Forest Cxx_Array
begin

text \<open>
  Disjoint sets as the Kruskal programs keep them: an array of parents and one of ranks.  The
  first part is the representation invariant \<open>uf\<close> on the two arrays read as functions, with
  the effect of path compression and of linking two roots.  The locale \<open>disjoint_sets\<close> is the
  contract of find and union; its lemma \<open>edge_step\<close> is what Kruskal's algorithm needs of them,
  proved once for the implementations of \<open>kruskals1.cxx\<close> and \<open>kruskals2.cxx\<close>.
\<close>

section \<open>The representation\<close>

text \<open>
  \<open>rep u\<close> is the root of \<open>u\<close>.  Parents have smaller depth \<open>d\<close>, and the rank of a root is
  smaller than the number of elements below it, so that ranks do not overflow.
\<close>

definition elements_of :: "int \<Rightarrow> (int \<Rightarrow> int) \<Rightarrow> int \<Rightarrow> int set" where
  "elements_of n rep x = {z \<in> {0..<n}. rep z = x}"

definition uf :: "int \<Rightarrow> (int \<Rightarrow> int) \<Rightarrow> (int \<Rightarrow> int) \<Rightarrow> (int \<Rightarrow> int) \<Rightarrow> bool" where
  "uf n p r rep \<longleftrightarrow> (\<forall>u. 0 \<le> u \<and> u < n \<longrightarrow> 0 \<le> p u \<and> p u < n \<and> rep (p u) = rep u \<and> (p u = u \<longrightarrow> rep u = u) \<and>
       (rep u = u \<longrightarrow> 0 \<le> r u \<and> r u < int (card (elements_of n rep u)))) \<and>
     (\<exists>d :: int \<Rightarrow> nat. \<forall>u. 0 \<le> u \<and> u < n \<longrightarrow> p u \<noteq> u \<longrightarrow> d (p u) < d u)"

lemma uf_parent: "uf n p r rep \<Longrightarrow> 0 \<le> u \<Longrightarrow> u < n \<Longrightarrow> 0 \<le> p u \<and> p u < n \<and> rep (p u) = rep u"
  by (simp add: uf_def)

lemma uf_self: "uf n p r rep \<Longrightarrow> 0 \<le> u \<Longrightarrow> u < n \<Longrightarrow> p u = u \<Longrightarrow> rep u = u"
  by (simp add: uf_def)

lemma uf_rank: "uf n p r rep \<Longrightarrow> 0 \<le> u \<Longrightarrow> u < n \<Longrightarrow> rep u = u \<Longrightarrow> 0 \<le> r u \<and> r u < int (card (elements_of n rep u))"
  by (simp add: uf_def)

lemma finite_elements_of [simp]: "finite (elements_of n rep x)"
  by (rule finite_subset [of _ "{0..<n}"]) (auto simp: elements_of_def)

lemma elements_of_pos: "0 \<le> x \<Longrightarrow> x < n \<Longrightarrow> rep x = x \<Longrightarrow> 0 < card (elements_of n rep x)"
  unfolding card_gt_0_iff using finite_elements_of by (auto simp: elements_of_def)

lemma card_elements_of: "int (card (elements_of n rep x)) \<le> max 0 n"
proof -
  have "card (elements_of n rep x) \<le> card {0..<n}" by (rule card_mono) (auto simp: elements_of_def)
  then show ?thesis by simp
qed

lemma uf_cong:
  assumes "uf n p r rep" "\<And>u. 0 \<le> u \<Longrightarrow> u < n \<Longrightarrow> p' u = p u" "\<And>u. 0 \<le> u \<Longrightarrow> u < n \<Longrightarrow> r' u = r u"
  shows "uf n p' r' rep"
  using assms(1) unfolding uf_def by (auto simp: assms(2,3))

text \<open>Every element reaches its root, and only roots are their own parents.\<close>

lemma uf_root:
  assumes "uf n p r rep" and d: "\<And>u. 0 \<le> u \<Longrightarrow> u < n \<Longrightarrow> p u \<noteq> u \<Longrightarrow> d (p u) < (d u :: nat)"
  shows "0 \<le> u \<Longrightarrow> u < n \<Longrightarrow> 0 \<le> rep u \<and> rep u < n \<and> p (rep u) = rep u \<and> (p u \<noteq> u \<longrightarrow> d (rep u) < d u)"
proof (induction "d u" arbitrary: u rule: less_induct)
  case less
  show ?case
  proof (cases "p u = u")
    case True
    with uf_self [OF assms(1)] less.prems show ?thesis by simp
  next
    case False
    note par = uf_parent [OF assms(1) less.prems] and lt = d [OF less.prems False]
    from less.hyps [OF lt] par have "0 \<le> rep u" "rep u < n" "p (rep u) = rep u" "p (p u) \<noteq> p u \<longrightarrow> d (rep u) < d (p u)"
      by auto
    moreover have "p (p u) = p u \<longrightarrow> rep u = p u" using par uf_self [OF assms(1)] by metis
    ultimately show ?thesis using lt by auto
  qed
qed

lemma uf_rep:
  assumes "uf n p r rep" "0 \<le> u" "u < n"
  shows "0 \<le> rep u \<and> rep u < n \<and> p (rep u) = rep u \<and> rep (rep u) = rep u"
proof -
  obtain d :: "int \<Rightarrow> nat" where "\<And>u. 0 \<le> u \<Longrightarrow> u < n \<Longrightarrow> p u \<noteq> u \<Longrightarrow> d (p u) < d u"
    using assms(1) by (auto simp: uf_def)
  from uf_root [of n p r rep d, OF assms(1) this assms(2,3)] uf_self [OF assms(1)] show ?thesis by auto
qed

lemma uf_compress:
  assumes "uf n p r rep" "0 \<le> u" "u < n"
  shows "uf n (p(u := rep u)) r rep"
proof -
  obtain d :: "int \<Rightarrow> nat" where d: "\<And>u. 0 \<le> u \<Longrightarrow> u < n \<Longrightarrow> p u \<noteq> u \<Longrightarrow> d (p u) < d u"
    using assms(1) by (auto simp: uf_def)
  have "\<forall>v. 0 \<le> v \<and> v < n \<longrightarrow> (p(u := rep u)) v \<noteq> v \<longrightarrow> d ((p(u := rep u)) v) < d v"
    using d uf_root [of n p r rep d, OF assms(1) d assms(2,3)] uf_self [OF assms] by auto
  moreover have "\<forall>v. 0 \<le> v \<and> v < n \<longrightarrow> 0 \<le> (p(u := rep u)) v \<and> (p(u := rep u)) v < n \<and> rep ((p(u := rep u)) v) = rep v \<and>
      ((p(u := rep u)) v = v \<longrightarrow> rep v = v) \<and> (rep v = v \<longrightarrow> 0 \<le> r v \<and> r v < int (card (elements_of n rep v)))"
    using assms(1) uf_rep [OF assms] by (auto simp: uf_def)
  ultimately show ?thesis unfolding uf_def by blast
qed

text \<open>Linking a root \<open>x\<close> below a root \<open>y\<close>.\<close>

definition relink :: "(int \<Rightarrow> int) \<Rightarrow> int \<Rightarrow> int \<Rightarrow> int \<Rightarrow> int" where
  "relink rep x y z = (if rep z = x then y else rep z)"

lemma relink_same:
  "rep x = x \<Longrightarrow> rep y = y \<Longrightarrow> relink rep x y a = relink rep x y b \<longleftrightarrow>
     rep a = rep b \<or> rep a = x \<and> rep b = y \<or> rep a = y \<and> rep b = x"
  by (auto simp: relink_def)

lemma uf_link:
  assumes "uf n p r rep" and x: "0 \<le> x" "x < n" "rep x = x" and y: "0 \<le> y" "y < n" "rep y = y" and "x \<noteq> y"
    and r': "\<And>u. u \<noteq> y \<Longrightarrow> r' u = r u" "0 \<le> r' y" "r' y \<le> r y + 1"
  shows "uf n (p(x := y)) r' (relink rep x y)"
proof -
  obtain d :: "int \<Rightarrow> nat" where d: "\<And>u. 0 \<le> u \<Longrightarrow> u < n \<Longrightarrow> p u \<noteq> u \<Longrightarrow> d (p u) < d u"
    using assms(1) by (auto simp: uf_def)
  let ?rep = "relink rep x y" and ?d = "\<lambda>z. if rep z = x then d z + d y + 1 else d z"
  have py: "p y = y" and px: "p x = x" using uf_rep [OF assms(1) y(1,2)] uf_rep [OF assms(1) x(1,2)] x(3) y(3) by auto
  have bx: "elements_of n ?rep y = elements_of n rep y \<union> elements_of n rep x"
    using \<open>x \<noteq> y\<close> by (auto simp: elements_of_def relink_def split: if_splits)
  have bo: "elements_of n ?rep z = elements_of n rep z" if "z \<noteq> x" "z \<noteq> y" for z
    using that by (auto simp: elements_of_def relink_def)
  have "card (elements_of n ?rep y) = card (elements_of n rep y) + card (elements_of n rep x)"
    unfolding bx using \<open>x \<noteq> y\<close> by (intro card_Un_disjoint finite_elements_of) (auto simp: elements_of_def)
  moreover have "0 < card (elements_of n rep x)" using elements_of_pos x by blast
  ultimately have rank: "r' y < int (card (elements_of n ?rep y))"
    using uf_rank [OF assms(1) y] r'(3) by linarith
  have depth: "\<forall>u. 0 \<le> u \<and> u < n \<longrightarrow> (p(x := y)) u \<noteq> u \<longrightarrow> ?d ((p(x := y)) u) < ?d u"
  proof (intro allI impI)
    fix u assume u: "0 \<le> u \<and> u < n" and ne: "(p(x := y)) u \<noteq> u"
    show "?d ((p(x := y)) u) < ?d u"
    proof (cases "u = x")
      case True
      then show ?thesis using \<open>x \<noteq> y\<close> x(3) y(3) by simp
    next
      case False
      with ne have "p u \<noteq> u" by simp
      with d [of u] u uf_parent [OF assms(1), of u] False show ?thesis by auto
    qed
  qed
  have step: "0 \<le> (p(x := y)) u \<and> (p(x := y)) u < n \<and> ?rep ((p(x := y)) u) = ?rep u \<and>
      ((p(x := y)) u = u \<longrightarrow> ?rep u = u) \<and> (?rep u = u \<longrightarrow> 0 \<le> r' u \<and> r' u < int (card (elements_of n ?rep u)))"
    if u: "0 \<le> u" "u < n" for u
  proof (cases "u = x \<or> u = y")
    case True
    have "?rep x = y" "?rep y = y" using x(3) y(3) \<open>x \<noteq> y\<close> by (simp_all add: relink_def)
    with True rank r'(2) y(1,2) py \<open>x \<noteq> y\<close> show ?thesis by (elim disjE) simp_all
  next
    case False
    then have rk: "rep u = u \<Longrightarrow> 0 \<le> r' u \<and> r' u < int (card (elements_of n ?rep u))"
      using uf_rank [OF assms(1) u] r'(1) [of u] bo [of u] by simp
    have pu: "(p(x := y)) u = p u" using False by simp
    note par = uf_parent [OF assms(1) u]
    show ?thesis
      unfolding pu
    proof (intro conjI [rotated] impI)
      assume "?rep u = u"
      then have "rep u = u" using False by (simp add: relink_def split: if_splits)
      then show "0 \<le> r' u" "r' u < int (card (elements_of n ?rep u))" using rk by simp_all
    next
      assume "p u = u"
      then show "?rep u = u" using uf_self [OF assms(1) u] False by (simp add: relink_def)
    next
      show "?rep (p u) = ?rep u" using par by (simp add: relink_def)
    qed (simp_all add: par)
  qed
  show ?thesis
    unfolding uf_def by (intro conjI allI impI exI [of _ ?d] depth [rule_format]) (use step in \<open>blast+\<close>)
qed

lemma uf_start: "uf n (\<lambda>u. u) (\<lambda>u. 0) (\<lambda>u. u)"
  using elements_of_pos [of _ n "\<lambda>u. u"] by (simp add: uf_def)

section \<open>The contract of find and union\<close>

text \<open>
  \<open>holds s rep\<close>: the state \<open>s\<close> keeps the partition in which \<open>rep\<close> chooses the
  representatives of the elements \<open>0 .. n - 1\<close>.
\<close>

definition merged :: "int \<Rightarrow> (int \<Rightarrow> int) \<Rightarrow> int \<Rightarrow> int \<Rightarrow> (int \<Rightarrow> int) \<Rightarrow> bool" where
  "merged n rep x y rep' \<longleftrightarrow> (\<forall>a b. 0 \<le> a \<and> a < n \<and> 0 \<le> b \<and> b < n \<longrightarrow>
     (rep' a = rep' b \<longleftrightarrow> rep a = rep b \<or> rep a = x \<and> rep b = y \<or> rep a = y \<and> rep b = x)) \<and>
     (\<exists>z \<in> {x, y}. \<forall>a. 0 \<le> a \<and> a < n \<longrightarrow> rep' a = a \<longleftrightarrow> rep a = a \<and> a \<noteq> z)"

lemma merged_relink:
  assumes "rep x = x" "rep y = y" "x \<noteq> y"
  shows "merged n rep x y (relink rep x y)" "merged n rep x y (relink rep y x)"
  unfolding merged_def relink_same [OF assms(1,2)] relink_same [OF assms(2,1)]
  using assms by (auto simp: relink_def)

locale disjoint_sets =
  fixes n :: int and holds :: "'s \<Rightarrow> (int \<Rightarrow> int) \<Rightarrow> bool"
    and find :: "'s \<Rightarrow> int \<Rightarrow> ('s \<times> int) run" and unite :: "'s \<Rightarrow> int \<Rightarrow> int \<Rightarrow> 's run"
  assumes find_rep: "holds s rep \<Longrightarrow> 0 \<le> u \<Longrightarrow> u < n \<Longrightarrow> wp (find s u) (\<lambda>(s', x). holds s' rep \<and> x = rep u)"
    and rep_root: "holds s rep \<Longrightarrow> 0 \<le> u \<Longrightarrow> u < n \<Longrightarrow> 0 \<le> rep u \<and> rep u < n \<and> rep (rep u) = rep u"
    and unite_merges: "holds s rep \<Longrightarrow> 0 \<le> x \<Longrightarrow> x < n \<Longrightarrow> 0 \<le> y \<Longrightarrow> y < n \<Longrightarrow> rep x = x \<Longrightarrow> rep y = y \<Longrightarrow>
      x \<noteq> y \<Longrightarrow> wp (unite s x y) (\<lambda>s'. \<exists>rep'. holds s' rep' \<and> merged n rep x y rep')"
begin

text \<open>The partition into the parts the edges \<open>F\<close> connect, with \<open>k\<close> parts.\<close>

definition parts :: "('e \<Rightarrow> int \<times> int) \<Rightarrow> 'e set \<Rightarrow> nat \<Rightarrow> 's \<Rightarrow> bool" where
  "parts ends F k s \<longleftrightarrow> (\<exists>rep. holds s rep \<and>
     (\<forall>a b. 0 \<le> a \<and> a < n \<and> 0 \<le> b \<and> b < n \<longrightarrow> (rep a = rep b \<longleftrightarrow> conn ends F a b)) \<and>
     card {a \<in> {0..<n}. rep a = a} = k)"

lemma edge_step:
  assumes P: "parts ends F k s" and e: "ends e = (u, v)" "0 \<le> u" "u < n" "0 \<le> v" "v < n"
  shows "wp (find s u) (\<lambda>(s, x). wp (find s v) (\<lambda>(s, y). (x = y \<longleftrightarrow> linked ends F e) \<and>
     (if x = y then parts ends F k s else 0 < k \<and> wp (unite s x y) (parts ends (insert e F) (k - 1)))))"
proof -
  obtain rep where h: "holds s rep" and c: "\<And>a b. 0 \<le> a \<Longrightarrow> a < n \<Longrightarrow> 0 \<le> b \<Longrightarrow> b < n \<Longrightarrow> rep a = rep b \<longleftrightarrow> conn ends F a b"
      and k: "card {a \<in> {0..<n}. rep a = a} = k"
    using P by (auto simp: parts_def)
  have l: "rep u = rep v \<longleftrightarrow> linked ends F e" using c e by (simp add: linked_def)
  have step: "0 < k \<and> wp (unite s' (rep u) (rep v)) (parts ends (insert e F) (k - 1))"
    if h': "holds s' rep" and ne: "rep u \<noteq> rep v" for s'
  proof
    note ru = rep_root [OF h' e(2,3)] and rv = rep_root [OF h' e(4,5)]
    have fin: "finite {a \<in> {0..<n}. rep a = a}" by (rule finite_subset [of _ "{0..<n}"]) auto
    have "rep u \<in> {a \<in> {0..<n}. rep a = a}" using ru by simp
    with fin have "card {a \<in> {0..<n}. rep a = a} \<noteq> 0" by (metis card_0_eq empty_iff)
    then show "0 < k" using k by simp
    have "wp (unite s' (rep u) (rep v)) (\<lambda>s'. \<exists>rep'. holds s' rep' \<and> merged n rep (rep u) (rep v) rep')"
      by (rule unite_merges [OF h']) (use ru rv ne in auto)
    then show "wp (unite s' (rep u) (rep v)) (parts ends (insert e F) (k - 1))"
    proof (rule wp_conseq)
      fix s2 assume "\<exists>rep'. holds s2 rep' \<and> merged n rep (rep u) (rep v) rep'"
      then obtain rep' z where h2: "holds s2 rep'" and
          m: "\<And>a b. 0 \<le> a \<Longrightarrow> a < n \<Longrightarrow> 0 \<le> b \<Longrightarrow> b < n \<Longrightarrow> rep' a = rep' b \<longleftrightarrow>
            rep a = rep b \<or> rep a = rep u \<and> rep b = rep v \<or> rep a = rep v \<and> rep b = rep u"
          and z: "z \<in> {rep u, rep v}" "\<And>a. 0 \<le> a \<Longrightarrow> a < n \<Longrightarrow> rep' a = a \<longleftrightarrow> rep a = a \<and> a \<noteq> z"
        unfolding merged_def by blast
      have "rep' a = rep' b \<longleftrightarrow> conn ends (insert e F) a b" if ab: "0 \<le> a" "a < n" "0 \<le> b" "b < n" for a b
      proof
        assume "rep' a = rep' b"
        then have "conn ends F a b \<or> conn ends F a u \<and> conn ends F b v \<or> conn ends F a v \<and> conn ends F b u"
          using m [OF ab] c [OF ab] c [OF ab(1,2) e(2,3)] c [OF ab(1,2) e(4,5)] c [OF ab(3,4) e(2,3)] c [OF ab(3,4) e(4,5)]
          by simp
        then have "conn ends (insert e F) a b \<or> conn ends (insert e F) a u \<and> conn ends (insert e F) b v \<or>
            conn ends (insert e F) a v \<and> conn ends (insert e F) b u"
          using conn_mono [of ends F _ _ "insert e F"] by blast
        moreover have "conn ends (insert e F) u v" using conn_edge [of e "insert e F" ends u v] e(1) by simp
        ultimately show "conn ends (insert e F) a b" by (blast intro: conn_via conn_sym)
      next
        assume "conn ends (insert e F) a b"
        from conn_insert [OF this e(1)]
        show "rep' a = rep' b"
          using m [OF ab] c [OF ab] c [OF ab(1,2) e(2,3)] c [OF ab(1,2) e(4,5)] c [OF e(2,3) ab(3,4)] c [OF e(4,5) ab(3,4)]
          by auto
      qed
      moreover have eq: "{a \<in> {0..<n}. rep' a = a} = {a \<in> {0..<n}. rep a = a} - {z}"
        using z(2) by auto
      have "z \<in> {a \<in> {0..<n}. rep a = a}" using z(1) ru rv by auto
      then have "card {a \<in> {0..<n}. rep' a = a} = k - 1"
        unfolding eq k [symmetric] by (rule card_Diff_singleton)
      ultimately show "parts ends (insert e F) (k - 1) s2" using h2 by (auto simp: parts_def)
    qed
  qed
  show ?thesis
  proof (rule wp_conseq [OF find_rep [OF h e(2,3)]], clarify)
    fix s1 assume h1: "holds s1 rep"
    show "wp (find s1 v) (\<lambda>(s, y). (rep u = y \<longleftrightarrow> linked ends F e) \<and>
     (if rep u = y then parts ends F k s else 0 < k \<and> wp (unite s (rep u) y) (parts ends (insert e F) (k - 1))))"
    proof (rule wp_conseq [OF find_rep [OF h1 e(4,5)]], clarify)
      fix s2 assume h2: "holds s2 rep"
      then have "parts ends F k s2" using c k by (auto simp: parts_def)
      with l step [OF h2] show "(rep u = rep v \<longleftrightarrow> linked ends F e) \<and>
        (if rep u = rep v then parts ends F k s2 else 0 < k \<and> wp (unite s2 (rep u) (rep v)) (parts ends (insert e F) (k - 1)))"
        by simp
    qed
  qed
qed

lemma edge_rule:
  assumes "parts ends F k s" "ends e = (u, v)" "0 \<le> u" "u < n" "0 \<le> v" "v < n"
    and "\<And>s x. linked ends F e \<Longrightarrow> parts ends F k s \<Longrightarrow> wp (G s x x) Q"
    and "\<And>s x y. \<not> linked ends F e \<Longrightarrow> x \<noteq> y \<Longrightarrow> 0 < k \<Longrightarrow> wp (unite s x y) (parts ends (insert e F) (k - 1)) \<Longrightarrow> wp (G s x y) Q"
  shows "wp (bnd (find s u) (\<lambda>(s, x). bnd (find s v) (\<lambda>(s, y). G s x y))) Q"
  unfolding wp_bnd
proof (rule wp_conseq [OF edge_step [OF assms(1-6)]], unfold split_paired_all prod.case wp_bnd, erule wp_conseq,
    unfold split_paired_all prod.case)
  fix x s2 y
  assume "(x = y \<longleftrightarrow> linked ends F e) \<and>
    (if x = y then parts ends F k s2 else 0 < k \<and> wp (unite s2 x y) (parts ends (insert e F) (k - 1)))"
  with assms(7) [of s2 x] assms(8) [of x y s2] show "wp (G s2 x y) Q" by (cases "x = y") auto
qed

lemma parts_start:
  assumes "holds s (\<lambda>u. u)"
  shows "parts ends {} (nat n) s"
proof -
  have "{a. a \<in> {0..<n}} = {0..<n}" by (rule Collect_mem_eq)
  then show ?thesis unfolding parts_def by (intro exI [of _ "\<lambda>u. u"]) (simp add: assms)
qed

text \<open>One part is left exactly when everything is connected.\<close>

lemma parts_one:
  assumes "parts ends F 1 s" "0 \<le> a" "a < n" "0 \<le> b" "b < n"
  shows "conn ends F a b"
proof -
  obtain rep where h: "holds s rep" and c: "\<And>a b. 0 \<le> a \<Longrightarrow> a < n \<Longrightarrow> 0 \<le> b \<Longrightarrow> b < n \<Longrightarrow> rep a = rep b \<longleftrightarrow> conn ends F a b"
      and k: "card {a \<in> {0..<n}. rep a = a} = 1"
    using assms(1) by (auto simp: parts_def)
  obtain z where "{a \<in> {0..<n}. rep a = a} = {z}" using k by (auto simp: card_1_singleton_iff)
  then have "rep a = z" "rep b = z"
    using rep_root [OF h assms(2,3)] rep_root [OF h assms(4,5)] by auto
  with c [OF assms(2-5)] show ?thesis by simp
qed

lemma parts_more:
  assumes "parts ends F k s" "1 < k"
  obtains a b where "0 \<le> a" "a < n" "0 \<le> b" "b < n" "\<not> conn ends F a b"
proof -
  obtain rep where h: "holds s rep" and c: "\<And>a b. 0 \<le> a \<Longrightarrow> a < n \<Longrightarrow> 0 \<le> b \<Longrightarrow> b < n \<Longrightarrow> rep a = rep b \<longleftrightarrow> conn ends F a b"
      and k: "card {a \<in> {0..<n}. rep a = a} = k"
    using assms(1) by (auto simp: parts_def)
  let ?roots = "{a \<in> {0..<n}. rep a = a}"
  have "finite ?roots" by (rule finite_subset [of _ "{0..<n}"]) auto
  moreover have "\<not> card ?roots \<le> Suc 0" using assms(2) k by simp
  ultimately obtain a b where "a \<noteq> b" "a \<in> ?roots" "b \<in> ?roots"
    using card_le_Suc0_iff_eq [of ?roots] by blast
  with c [of a b] that [of a b] show thesis by auto
qed

end

section \<open>Find with path compression\<close>

text \<open>
  Any state with a parent for every element, read by \<open>get\<close> and assigned by \<open>put\<close>, and the
  recursive find on it: it returns the representative and keeps the partition.
\<close>

locale parent_arrays =
  fixes n :: int and arrays :: "'s \<Rightarrow> (int \<Rightarrow> int) \<Rightarrow> (int \<Rightarrow> int) \<Rightarrow> bool"
    and get :: "'s \<Rightarrow> int \<Rightarrow> int run" and put :: "'s \<Rightarrow> int \<Rightarrow> int \<Rightarrow> 's run"
    and find :: "'s \<Rightarrow> int \<Rightarrow> ('s \<times> int) run"
  assumes get_parent: "arrays s p r \<Longrightarrow> 0 \<le> u \<Longrightarrow> u < n \<Longrightarrow> get s u = ok (p u)"
    and put_parent: "arrays s p r \<Longrightarrow> 0 \<le> u \<Longrightarrow> u < n \<Longrightarrow> \<exists>s'. put s u v = ok s' \<and> arrays s' (p(u := v)) r"
    and find_unfold: "find s u = bnd (get s u) (\<lambda>x.
      bnd (if u \<noteq> x then bnd (find s x) (\<lambda>(s, y). put s u y) else ok s) (\<lambda>s.
      bnd (get s u) (\<lambda>y. ok (s, y))))"
begin

definition keeps :: "'s \<Rightarrow> (int \<Rightarrow> int) \<Rightarrow> bool" where
  "keeps s rep \<longleftrightarrow> (\<exists>p r. arrays s p r \<and> uf n p r rep)"

lemma find_keeps:
  assumes "arrays s p r" "uf n p r rep" and u: "0 \<le> u" "u < n"
  shows "\<exists>s' p'. find s u = ok (s', rep u) \<and> arrays s' p' r \<and> uf n p' r rep"
proof -
  obtain d :: "int \<Rightarrow> nat" where d: "\<And>u. 0 \<le> u \<Longrightarrow> u < n \<Longrightarrow> p u \<noteq> u \<Longrightarrow> d (p u) < d u"
    using assms(2) by (auto simp: uf_def)
  from u show ?thesis
  proof (induction "d u" arbitrary: u rule: less_induct)
    case less
    note g = get_parent [OF assms(1) less.prems]
    show ?case
    proof (cases "p u = u")
      case True
      with g uf_self [OF assms(2) less.prems] assms(1,2) show ?thesis
        by (subst find_unfold) auto
    next
      case False
      note par = uf_parent [OF assms(2) less.prems]
      from less.hyps [OF d [OF less.prems False]] par obtain s1 p1 where f: "find s (p u) = ok (s1, rep u)"
          "arrays s1 p1 r" "uf n p1 r rep"
        by metis
      from put_parent [OF f(2) less.prems] obtain s2 where s2: "put s1 u (rep u) = ok s2" "arrays s2 (p1(u := rep u)) r"
        by blast
      have "find s u = ok (s2, rep u)"
        using g False f(1) s2(1) get_parent [OF s2(2) less.prems] by (subst find_unfold) auto
      with s2(2) uf_compress [OF f(3) less.prems] show ?thesis by blast
    qed
  qed
qed

lemma find_ok:
  assumes "keeps s rep" and u: "0 \<le> u" "u < n"
  shows "wp (find s u) (\<lambda>(s', x). keeps s' rep \<and> x = rep u)"
proof -
  obtain p r where "arrays s p r" "uf n p r rep" using assms(1) by (auto simp: keeps_def)
  from find_keeps [OF this u] obtain s' p' where "find s u = ok (s', rep u)" "arrays s' p' r" "uf n p' r rep" by blast
  moreover from this(2,3) have "keeps s' rep" unfolding keeps_def by blast
  ultimately show ?thesis by simp
qed

lemma keeps_root: "keeps s rep \<Longrightarrow> 0 \<le> u \<Longrightarrow> u < n \<Longrightarrow> 0 \<le> rep u \<and> rep u < n \<and> rep (rep u) = rep u"
  by (auto simp: keeps_def dest: uf_rep)

end

end
