(* ===== verification/Graph_Kruskal.thy ===== *)
theory Graph_Kruskal
  imports Graph_UnionFind Cxx_Console "HOL-Library.Product_Lexorder"
begin

text \<open>
  \<open>DataStructure/grafos/kruskals/kruskals1.cxx\<close> and \<open>kruskals2.cxx\<close>: Kruskal's algorithm on
  a vector of edges with \<open>std::sort\<close> and on an array of edges with \<open>qsort\<close>.  Both print the
  edges of a minimum spanning forest; the second one stops at V - 1 edges and therefore reads past
  the array when the graph is not connected.
\<close>

section \<open>kruskals1\<close>

type_synonym iedge = "int \<times> int \<times> int"   \<comment> \<open>weight, and the two ends\<close>

record wgraph =
  verts :: int
  nedges :: int
  wedges :: "iedge list"

record dsets =
  parent :: "int option list"
  rnk :: "int option list"
  elems :: int

definition addEdge :: "wgraph \<Rightarrow> int \<Rightarrow> int \<Rightarrow> int \<Rightarrow> wgraph" where
  "addEdge g u v w = g\<lparr>wedges := wedges g @ [(w, u, v)]\<rparr>"

definition DisjointSets :: "int \<Rightarrow> dsets run" where
  "DisjointSets n =
     bnd (i32 (n + 1)) (\<lambda>m. if m < 0 then fail Bad_Access else
       for_up 0 (n + 1) (\<lambda>i ds.
         bnd (wr (rnk ds) i (Some 0)) (\<lambda>r. bnd (wr (parent ds) i (Some i)) (\<lambda>p.
         ok (ds\<lparr>rnk := r, parent := p\<rparr>)))) \<lparr>parent = uninit m, rnk = uninit m, elems = n\<rparr>)"

definition set_parent :: "dsets \<Rightarrow> int \<Rightarrow> int \<Rightarrow> dsets run" where
  "set_parent ds u x = bnd (wr (parent ds) u (Some x)) (\<lambda>p. ok (ds\<lparr>parent := p\<rparr>))"

partial_function (option) ds_find :: "dsets \<Rightarrow> int \<Rightarrow> (dsets \<times> int) run" where
  "ds_find ds u =
     bnd (rdi (parent ds) u) (\<lambda>p.
     bnd (if u \<noteq> p then bnd (ds_find ds p) (\<lambda>(ds, r). set_parent ds u r) else ok ds) (\<lambda>ds.
     bnd (rdi (parent ds) u) (\<lambda>p. ok (ds, p))))"

definition ds_merge :: "dsets \<Rightarrow> int \<Rightarrow> int \<Rightarrow> dsets run" where
  "ds_merge ds x y =
     bnd (ds_find ds x) (\<lambda>(ds, x). bnd (ds_find ds y) (\<lambda>(ds, y).
     bnd (rdi (rnk ds) x) (\<lambda>rx. bnd (rdi (rnk ds) y) (\<lambda>ry.
     bnd (if rx > ry then set_parent ds y x else set_parent ds x y) (\<lambda>ds.
     if rx = ry then bnd (i32 (ry + 1)) (\<lambda>k. bnd (wr (rnk ds) y (Some k)) (\<lambda>r. ok (ds\<lparr>rnk := r\<rparr>)))
     else ok ds)))))"

definition kruskalMST :: "wgraph \<Rightarrow> (wgraph \<times> string \<times> int) run" where
  "kruskalMST g =
     (let es = sort (wedges g) in
      bnd (DisjointSets (verts g)) (\<lambda>ds.
      bnd (for_each (\<lambda>(w, u, v) (ds, out, mst_wt).
         bnd (ds_find ds u) (\<lambda>(ds, set_u). bnd (ds_find ds v) (\<lambda>(ds, set_v).
         if set_u \<noteq> set_v then
           bnd (i32 (mst_wt + w)) (\<lambda>mst_wt.
           bnd (ds_merge ds set_u set_v) (\<lambda>ds. ok (ds, out @ dec u @ '' - '' @ dec v @ nl, mst_wt)))
         else ok (ds, out, mst_wt)))) es (ds, [], 0)) (\<lambda>(ds, out, mst_wt).
      ok (g\<lparr>wedges := es\<rparr>, out, mst_wt))))"

definition kruskal1_graph :: wgraph where
  "kruskal1_graph = foldl (\<lambda>g (u, v, w). addEdge g u v w) \<lparr>verts = 9, nedges = 14, wedges = []\<rparr>
     [(0, 1, 4), (0, 7, 8), (1, 2, 8), (1, 7, 11), (2, 3, 7), (2, 8, 2), (2, 5, 4), (3, 4, 9),
      (3, 5, 14), (4, 5, 10), (5, 6, 2), (6, 7, 1), (6, 8, 6), (7, 8, 7)]"

definition kruskal1_main :: "string run" where
  "kruskal1_main = bnd (kruskalMST kruskal1_graph) (\<lambda>(g, out, mst_wt).
     ok (''Edges of MST are '' @ nl @ out @ nl @ ''Weight of MST is '' @ dec mst_wt @ nl @ nl))"

section \<open>kruskals2\<close>

record edge =
  src :: int
  dest :: int
  weight :: int

record egraph =
  gV :: int
  gE :: int
  gedge :: "edge option list"

record subset =
  srank :: "int option"
  sparent :: "int option"

definition createGraph :: "int \<Rightarrow> int \<Rightarrow> egraph run" where
  "createGraph V E = (if E < 0 then fail Bad_Access else ok \<lparr>gV = V, gE = E, gedge = uninit E\<rparr>)"

definition get_sparent :: "subset list \<Rightarrow> int \<Rightarrow> int run" where
  "get_sparent subsets i = bnd (rd subsets i) (\<lambda>s. case sparent s of None \<Rightarrow> fail Uninitialised | Some x \<Rightarrow> ok x)"

definition get_srank :: "subset list \<Rightarrow> int \<Rightarrow> int run" where
  "get_srank subsets i = bnd (rd subsets i) (\<lambda>s. case srank s of None \<Rightarrow> fail Uninitialised | Some x \<Rightarrow> ok x)"

definition set_sparent :: "subset list \<Rightarrow> int \<Rightarrow> int \<Rightarrow> subset list run" where
  "set_sparent subsets i x = bnd (rd subsets i) (\<lambda>s. wr subsets i (s\<lparr>sparent := Some x\<rparr>))"

definition set_srank :: "subset list \<Rightarrow> int \<Rightarrow> int \<Rightarrow> subset list run" where
  "set_srank subsets i x = bnd (rd subsets i) (\<lambda>s. wr subsets i (s\<lparr>srank := Some x\<rparr>))"

partial_function (option) find2 :: "subset list \<Rightarrow> int \<Rightarrow> (subset list \<times> int) run" where
  "find2 subsets i =
     bnd (get_sparent subsets i) (\<lambda>p.
     bnd (if i \<noteq> p then bnd (find2 subsets p) (\<lambda>(subsets, r). set_sparent subsets i r) else ok subsets) (\<lambda>subsets.
     bnd (get_sparent subsets i) (\<lambda>p. ok (subsets, p))))"

definition Union2 :: "subset list \<Rightarrow> int \<Rightarrow> int \<Rightarrow> subset list run" where
  "Union2 subsets x y =
     bnd (find2 subsets x) (\<lambda>(subsets, xroot). bnd (find2 subsets y) (\<lambda>(subsets, yroot).
     bnd (get_srank subsets xroot) (\<lambda>rx. bnd (get_srank subsets yroot) (\<lambda>ry.
     if rx < ry then set_sparent subsets xroot yroot
     else if rx > ry then set_sparent subsets yroot xroot
     else bnd (set_sparent subsets yroot xroot) (\<lambda>subsets.
       bnd (get_srank subsets xroot) (\<lambda>r. bnd (i32 (r + 1)) (\<lambda>r. set_srank subsets xroot r)))))))"

definition myComp :: "edge \<Rightarrow> edge \<Rightarrow> int" where
  "myComp a b = (if weight a > weight b then 1 else 0)"

text \<open>
  \<open>qsort\<close> is a parameter, a function of the comparator and the array.  \<open>myComp\<close> returns 1 or 0 and
  never a negative number, as the standard asks for when the first edge is the lighter one: in which order
  the edges come back is left to the implementation.
\<close>

type_synonym qsort_fun = "(edge \<Rightarrow> edge \<Rightarrow> int) \<Rightarrow> edge list \<Rightarrow> edge list"

definition qsort_edges :: "qsort_fun \<Rightarrow> edge option list \<Rightarrow> edge option list run" where
  "qsort_edges qsort es =
     (if None \<in> set es then fail Uninitialised else ok (map Some (qsort myComp (map the es))))"

definition mst_line :: "edge \<Rightarrow> string" where
  "mst_line r = tab @ dec (src r) @ '' -- '' @ dec (dest r) @ '' == '' @ dec (weight r) @ nl"

definition mst_header :: string where
  "mst_header = nl @ tab @ ''Following are the edges in the constructed MST'' @ nl"

definition KruskalMST2 :: "qsort_fun \<Rightarrow> egraph \<Rightarrow> (egraph \<times> string) run" where
  "KruskalMST2 qsort graph =
     bnd (qsort_edges qsort (gedge graph)) (\<lambda>es.
     bnd (if gV graph < 0 then fail Bad_Access
          else for_up 0 (gV graph) (\<lambda>v subsets. bnd (set_sparent subsets v v) (\<lambda>subsets. set_srank subsets v 0))
                 (replicate (nat (gV graph)) \<lparr>srank = None, sparent = None\<rparr>)) (\<lambda>subsets.
     bnd (while_run (\<lambda>(i, e, result, subsets). ok (e < gV graph - 1))
            (\<lambda>(i, e, result, subsets).
               bnd (rdi es i) (\<lambda>next_edge.
               bnd (find2 subsets (src next_edge)) (\<lambda>(subsets, x).
               bnd (find2 subsets (dest next_edge)) (\<lambda>(subsets, y).
               if x \<noteq> y then
                 bnd (wr result e (Some next_edge)) (\<lambda>result.
                 bnd (Union2 subsets x y) (\<lambda>subsets. ok (i + 1, e + 1, result, subsets)))
               else ok (i + 1, e, result, subsets)))))
            (0, 0, uninit (gV graph), subsets)) (\<lambda>(i, e, result, subsets).
     bnd (for_up 0 e (\<lambda>i out. bnd (rdi result i) (\<lambda>r. ok (out @ mst_line r))) mst_header) (\<lambda>out.
     ok (graph\<lparr>gedge := es\<rparr>, out @ nl)))))"

definition kruskal2_main :: "qsort_fun \<Rightarrow> string run" where
  "kruskal2_main qsort =
     bnd (createGraph 4 5) (\<lambda>graph.
     bnd (for_each (\<lambda>(i, e) es. wr es i (Some e))
       [(0, \<lparr>src = 0, dest = 1, weight = 10\<rparr>), (1, \<lparr>src = 0, dest = 2, weight = 6\<rparr>),
        (2, \<lparr>src = 0, dest = 3, weight = 5\<rparr>), (3, \<lparr>src = 1, dest = 3, weight = 15\<rparr>),
        (4, \<lparr>src = 2, dest = 3, weight = 4\<rparr>)] (gedge graph)) (\<lambda>es.
     bnd (KruskalMST2 qsort (graph\<lparr>gedge := es\<rparr>)) (\<lambda>(graph, out). ok out)))"

section \<open>Find and union on the two representations\<close>

definition ds_arrays :: "int \<Rightarrow> dsets \<Rightarrow> (int \<Rightarrow> int) \<Rightarrow> (int \<Rightarrow> int) \<Rightarrow> bool" where
  "ds_arrays n ds p r \<longleftrightarrow> filled n (parent ds) p \<and> filled n (rnk ds) r"

definition subset_arrays :: "int \<Rightarrow> subset list \<Rightarrow> (int \<Rightarrow> int) \<Rightarrow> (int \<Rightarrow> int) \<Rightarrow> bool" where
  "subset_arrays n subsets p r \<longleftrightarrow> len subsets = n \<and>
     (\<forall>u. 0 \<le> u \<and> u < n \<longrightarrow> at subsets u = \<lparr>srank = Some (r u), sparent = Some (p u)\<rparr>)"

lemma set_parent_arrays:
  "ds_arrays n ds p r \<Longrightarrow> 0 \<le> u \<Longrightarrow> u < n \<Longrightarrow> \<exists>ds'. set_parent ds u x = ok ds' \<and> ds_arrays n ds' (p(u := x)) r"
  by (auto simp: ds_arrays_def set_parent_def filled_wr [of n] filled_upd)

lemma set_rank_arrays:
  "ds_arrays n ds p r \<Longrightarrow> 0 \<le> u \<Longrightarrow> u < n \<Longrightarrow> \<exists>a. wr (rnk ds) u (Some k) = ok a \<and> ds_arrays n (ds\<lparr>rnk := a\<rparr>) p (r(u := k))"
  by (auto simp: ds_arrays_def filled_wr [of n] filled_upd)

lemma subset_get:
  "subset_arrays n subsets p r \<Longrightarrow> 0 \<le> u \<Longrightarrow> u < n \<Longrightarrow> get_sparent subsets u = ok (p u)"
  "subset_arrays n subsets p r \<Longrightarrow> 0 \<le> u \<Longrightarrow> u < n \<Longrightarrow> get_srank subsets u = ok (r u)"
  by (simp_all add: subset_arrays_def get_sparent_def get_srank_def rd_in)

lemma subset_set:
  "subset_arrays n subsets p r \<Longrightarrow> 0 \<le> u \<Longrightarrow> u < n \<Longrightarrow>
     \<exists>s'. set_sparent subsets u x = ok s' \<and> subset_arrays n s' (p(u := x)) r"
  "subset_arrays n subsets p r \<Longrightarrow> 0 \<le> u \<Longrightarrow> u < n \<Longrightarrow>
     \<exists>s'. set_srank subsets u x = ok s' \<and> subset_arrays n s' p (r(u := x))"
  by (auto simp: subset_arrays_def set_sparent_def set_srank_def rd_in wr_in at_upd)

interpretation k1: parent_arrays n "ds_arrays n" "\<lambda>ds. rdi (parent ds)" set_parent ds_find for n
proof
  show "ds_arrays n ds p r \<Longrightarrow> 0 \<le> u \<Longrightarrow> u < n \<Longrightarrow> rdi (parent ds) u = ok (p u)" for ds p r u
    by (simp add: ds_arrays_def filled_rdi [of n])
qed (rule set_parent_arrays ds_find.simps; assumption)+

interpretation k2: parent_arrays n "subset_arrays n" get_sparent set_sparent find2 for n
  by unfold_locales (rule subset_get subset_set find2.simps; assumption)+

definition ds_holds :: "int \<Rightarrow> dsets \<Rightarrow> (int \<Rightarrow> int) \<Rightarrow> bool" where
  "ds_holds n ds rep \<longleftrightarrow> n \<le> int_max \<and> (\<exists>p r. ds_arrays n ds p r \<and> uf n p r rep)"

definition subset_holds :: "int \<Rightarrow> subset list \<Rightarrow> (int \<Rightarrow> int) \<Rightarrow> bool" where
  "subset_holds n subsets rep \<longleftrightarrow> n \<le> int_max \<and> (\<exists>p r. subset_arrays n subsets p r \<and> uf n p r rep)"

lemma uf_rank_fits: "uf n p r rep \<Longrightarrow> n \<le> int_max \<Longrightarrow> 0 \<le> u \<Longrightarrow> u < n \<Longrightarrow> rep u = u \<Longrightarrow> 0 \<le> r u \<and> r u + 1 \<le> int_max"
  using uf_rank [of n p r rep u] card_elements_of [of n rep u] by linarith

lemma ds_merge_merges:
  assumes h: "ds_holds n ds rep" and x: "0 \<le> x" "x < n" "rep x = x" and y: "0 \<le> y" "y < n" "rep y = y" and ne: "x \<noteq> y"
  shows "wp (ds_merge ds x y) (\<lambda>ds'. \<exists>rep'. ds_holds n ds' rep' \<and> merged n rep x y rep')"
proof -
  obtain p r where 0: "ds_arrays n ds p r" "uf n p r rep" and n: "n \<le> int_max" using h by (auto simp: ds_holds_def)
  from k1.find_keeps [OF 0 x(1,2)] x(3) obtain d1 p1 where 1: "ds_find ds x = ok (d1, x)" "ds_arrays n d1 p1 r" "uf n p1 r rep"
    by auto
  from k1.find_keeps [OF 1(2,3) y(1,2)] y(3) obtain d2 p2 where 2: "ds_find d1 y = ok (d2, y)" "ds_arrays n d2 p2 r" "uf n p2 r rep"
    by auto
  have r: "rdi (rnk d2) x = ok (r x)" "rdi (rnk d2) y = ok (r y)"
    using 2(2) x y by (simp_all add: ds_arrays_def filled_rdi [of n])
  note ranks = uf_rank [OF 2(3)]
  note m = merged_relink [OF x(3) y(3) ne]
  show ?thesis
  proof (cases "r x > r y")
    case True
    from set_parent_arrays [OF 2(2) y(1,2)] obtain d3 where 3: "set_parent d2 y x = ok d3" "ds_arrays n d3 (p2(y := x)) r" by blast
    have "uf n (p2(y := x)) r (relink rep y x)"
      by (rule uf_link [OF 2(3) y x]) (use ne ranks x in auto)
    with 3 n have "ds_holds n d3 (relink rep y x)" by (auto simp: ds_holds_def)
    with m(2) 1(1) 2(1) r 3(1) True show ?thesis by (auto simp: ds_merge_def)
  next
    case False
    from set_parent_arrays [OF 2(2) x(1,2)] obtain d3 where 3: "set_parent d2 x y = ok d3" "ds_arrays n d3 (p2(x := y)) r" by blast
    from set_rank_arrays [OF 3(2) y(1,2)] obtain a where 4: "wr (rnk d3) y (Some (r y + 1)) = ok a"
        "ds_arrays n (d3\<lparr>rnk := a\<rparr>) (p2(x := y)) (r(y := r y + 1))" by blast
    have "uf n (p2(x := y)) r (relink rep x y)" "uf n (p2(x := y)) (r(y := r y + 1)) (relink rep x y)"
      by (rule uf_link [OF 2(3) x y]; use ne ranks y in force)+
    with 3 4 n have "ds_holds n d3 (relink rep x y)" "ds_holds n (d3\<lparr>rnk := a\<rparr>) (relink rep x y)"
      unfolding ds_holds_def by blast+
    with m(1) 1(1) 2(1) r 3(1) 4(1) False uf_rank_fits [OF 2(3) n y] show ?thesis
      by (auto simp: ds_merge_def i32_def)
  qed
qed

lemma Union2_merges:
  assumes h: "subset_holds n ss rep" and x: "0 \<le> x" "x < n" "rep x = x" and y: "0 \<le> y" "y < n" "rep y = y" and ne: "x \<noteq> y"
  shows "wp (Union2 ss x y) (\<lambda>ss'. \<exists>rep'. subset_holds n ss' rep' \<and> merged n rep x y rep')"
proof -
  obtain p r where 0: "subset_arrays n ss p r" "uf n p r rep" and n: "n \<le> int_max" using h by (auto simp: subset_holds_def)
  from k2.find_keeps [OF 0 x(1,2)] x(3) obtain d1 p1 where 1: "find2 ss x = ok (d1, x)" "subset_arrays n d1 p1 r" "uf n p1 r rep"
    by auto
  from k2.find_keeps [OF 1(2,3) y(1,2)] y(3) obtain d2 p2 where 2: "find2 d1 y = ok (d2, y)" "subset_arrays n d2 p2 r" "uf n p2 r rep"
    by auto
  note r = subset_get(2) [OF 2(2) x(1,2)] subset_get(2) [OF 2(2) y(1,2)]
  note ranks = uf_rank [OF 2(3)]
  note m = merged_relink [OF x(3) y(3) ne]
  from subset_set(1) [OF 2(2) x(1,2)] obtain d3 where 3: "set_sparent d2 x y = ok d3" "subset_arrays n d3 (p2(x := y)) r" by blast
  from subset_set(1) [OF 2(2) y(1,2)] obtain d4 where 4: "set_sparent d2 y x = ok d4" "subset_arrays n d4 (p2(y := x)) r" by blast
  from subset_set(2) [OF 4(2) x(1,2)] obtain d5 where 5: "set_srank d4 x (r x + 1) = ok d5"
      "subset_arrays n d5 (p2(y := x)) (r(x := r x + 1))" by blast
  have "uf n (p2(x := y)) r (relink rep x y)"
    by (rule uf_link [OF 2(3) x y]; use ne ranks y in force)
  moreover have "uf n (p2(y := x)) r (relink rep y x)" "uf n (p2(y := x)) (r(x := r x + 1)) (relink rep y x)"
    by (rule uf_link [OF 2(3) y x]; use ne ranks x in force)+
  ultimately have "subset_holds n d3 (relink rep x y)" "subset_holds n d4 (relink rep y x)" "subset_holds n d5 (relink rep y x)"
    unfolding subset_holds_def using 3 4 5 n by blast+
  with m 1(1) 2(1) r 3(1) 4(1) 5(1) subset_get(2) [OF 4(2) x(1,2)] uf_rank_fits [OF 2(3) n x] show ?thesis
    by (auto simp: Union2_def i32_def) blast
qed

interpretation d1: disjoint_sets n "ds_holds n" ds_find ds_merge for n
proof
  fix ds rep u assume h: "ds_holds n ds rep" and u: "0 \<le> u" "u < n"
  then have k: "k1.keeps n ds rep" and n: "n \<le> int_max" by (auto simp: ds_holds_def k1.keeps_def)
  show "wp (ds_find ds u) (\<lambda>(ds', x). ds_holds n ds' rep \<and> x = rep u)"
    by (rule wp_conseq [OF k1.find_ok [OF k u]]) (auto simp: ds_holds_def k1.keeps_def n)
  show "0 \<le> rep u \<and> rep u < n \<and> rep (rep u) = rep u"
    by (rule k1.keeps_root [OF k u])
qed (rule ds_merge_merges)

interpretation d2: disjoint_sets n "subset_holds n" find2 Union2 for n
proof
  fix ss rep u assume h: "subset_holds n ss rep" and u: "0 \<le> u" "u < n"
  then have k: "k2.keeps n ss rep" and n: "n \<le> int_max" by (auto simp: subset_holds_def k2.keeps_def)
  show "wp (find2 ss u) (\<lambda>(ss', x). subset_holds n ss' rep \<and> x = rep u)"
    by (rule wp_conseq [OF k2.find_ok [OF k u]]) (auto simp: subset_holds_def k2.keeps_def n)
  show "0 \<le> rep u \<and> rep u < n \<and> rep (rep u) = rep u"
    by (rule k2.keeps_root [OF k u])
qed (rule Union2_merges)

section \<open>The programs\<close>

text \<open>
  Graphs the first program handles: the ends of the edges are elements of its disjoint sets (which
  are one more than the vertices), and the weights have an absolute sum an \<open>int\<close> holds.
\<close>

definition valid_wgraph :: "wgraph \<Rightarrow> bool" where
  "valid_wgraph g \<longleftrightarrow> 0 \<le> verts g \<and> verts g < int_max \<and>
     list_all (\<lambda>(w, u, v). 0 \<le> u \<and> u \<le> verts g \<and> 0 \<le> v \<and> v \<le> verts g) (wedges g) \<and>
     sum_list (map (\<lambda>(w, u, v). \<bar>w\<bar>) (wedges g)) \<le> int_max"

definition edge_lines :: "iedge list \<Rightarrow> string" where
  "edge_lines es = concat (map (\<lambda>(w, u, v). dec u @ '' - '' @ dec v @ nl) es)"

lemma DisjointSets_start:
  assumes "0 \<le> n" "n < int_max"
  shows "\<exists>ds. DisjointSets n = ok ds \<and> ds_holds (n + 1) ds (\<lambda>u. u)"
proof -
  let ?I = "\<lambda>i ds. len (parent ds) = n + 1 \<and> len (rnk ds) = n + 1 \<and>
    (\<forall>u. 0 \<le> u \<and> u < i \<longrightarrow> at (parent ds) u = Some u \<and> at (rnk ds) u = Some 0)"
  have "wp (DisjointSets n) (?I (n + 1))"
    unfolding DisjointSets_def i32_def
    using assms by (auto intro!: wp_for_up [where I = ?I] simp: at_upd zless_add1_eq)
  then obtain ds where ds: "DisjointSets n = ok ds" "?I (n + 1) ds" by (auto simp: wp_iff)
  then have "ds_arrays (n + 1) ds (\<lambda>u. u) (\<lambda>u. 0)" by (simp add: ds_arrays_def filled_def)
  with uf_start [of "n + 1"] assms have "ds_holds (n + 1) ds (\<lambda>u. u)" by (auto simp: ds_holds_def)
  with ds(1) show ?thesis by blast
qed

lemma abs_sum_picked:
  fixes es :: "iedge list"
  shows "\<bar>sum_list (map fst (picked ends F es))\<bar> \<le> sum_list (map (\<lambda>(w, u, v). \<bar>w :: int\<bar>) es)"
proof -
  have "\<bar>sum_list (map fst xs)\<bar> \<le> sum_list (map (\<lambda>(w, u, v). \<bar>w\<bar>) xs)" for xs :: "iedge list"
    by (induction xs) auto
  then have "\<bar>sum_list (map fst (picked ends F es))\<bar> \<le> sum_list (map (\<lambda>(w, u, v). \<bar>w\<bar>) (picked ends F es))" .
  also have "\<dots> \<le> sum_list (map (\<lambda>(w, u, v). \<bar>w\<bar>) es)" by (rule sum_picked_le) auto
  finally show ?thesis .
qed

lemma kruskalMST_loop:
  fixes es :: "iedge list"
  assumes ds: "ds_holds n ds (\<lambda>u. u)"
    and E: "\<forall>(w, u, v) \<in> set es. 0 \<le> u \<and> u < n \<and> 0 \<le> v \<and> v < n"
    and W: "sum_list (map (\<lambda>(w, u, v). \<bar>w\<bar>) es) \<le> int_max"
  shows "wp (for_each (\<lambda>(w, u, v) (ds, out, mst_wt).
         bnd (ds_find ds u) (\<lambda>(ds, set_u). bnd (ds_find ds v) (\<lambda>(ds, set_v).
         if set_u \<noteq> set_v then
           bnd (i32 (mst_wt + w)) (\<lambda>mst_wt.
           bnd (ds_merge ds set_u set_v) (\<lambda>ds. ok (ds, out @ dec u @ '' - '' @ dec v @ nl, mst_wt)))
         else ok (ds, out, mst_wt)))) es (ds, [], 0))
    (\<lambda>(ds, out, wt). out = edge_lines (picked snd {} es) \<and> wt = sum_list (map fst (picked snd {} es)))"
proof (rule wp_for_each [where I = "\<lambda>ys (ds, out, wt). (\<exists>k. d1.parts n snd (foldl (grow snd) {} ys) k ds) \<and>
    out = edge_lines (picked snd {} ys) \<and> wt = sum_list (map fst (picked snd {} ys))"], goal_cases)
  case 1
  then show ?case using d1.parts_start [OF ds] by (auto simp: edge_lines_def)
next
  case (2 ys y zs s)
  obtain w u v where y: "y = (w, u, v)" by (cases y)
  obtain ds out wt where s: "s = (ds, out, wt)" by (cases s)
  let ?F = "foldl (grow snd) {} ys"
  from 2 y s obtain k where P: "d1.parts n snd ?F k ds" and out: "out = edge_lines (picked snd {} ys)"
      and wt: "wt = sum_list (map fst (picked snd {} ys))"
    by auto
  have uv: "0 \<le> u" "u < n" "0 \<le> v" "v < n" using E 2(1) y by auto
  have W': "sum_list (map (\<lambda>(w, u, v). \<bar>w\<bar>) ys) + \<bar>w\<bar> \<le> int_max"
  proof -
    have "0 \<le> sum_list (map (\<lambda>(w, u, v). \<bar>w\<bar>) zs)" by (rule sum_list_nonneg) auto
    with W show ?thesis unfolding 2(1) y by simp
  qed
  have sum: "i32 (wt + w) = ok (wt + w)"
    using abs_sum_picked [of snd "{}" ys] W' wt by (intro i32_in) linarith+
  show ?case
    unfolding s y prod.case
  proof (rule d1.edge_rule [OF P _ uv, of y], goal_cases)
    case 1
    then show ?case by (simp add: y)
  next
    case (2 ds x)
    then show ?case using out wt y by (auto simp: picked_snoc grow_def)
  next
    case (3 ds a b)
    then show ?case
      using out wt y sum by (auto simp: picked_snoc grow_def edge_lines_def elim!: wp_conseq)
  qed
next
  case (3 s)
  then show ?case by auto
qed

lemma kruskalMST_picks:
  assumes "valid_wgraph g"
  shows "kruskalMST g = ok (g\<lparr>wedges := sort (wedges g)\<rparr>, edge_lines (picked snd {} (sort (wedges g))),
     sum_list (map fst (picked snd {} (sort (wedges g)))))"
proof -
  let ?es = "sort (wedges g)"
  obtain ds where ds: "DisjointSets (verts g) = ok ds" "ds_holds (verts g + 1) ds (\<lambda>u. u)"
    using DisjointSets_start [of "verts g"] assms by (auto simp: valid_wgraph_def)
  have "sum_list (map (\<lambda>(w, u, v). \<bar>w\<bar>) ?es) = sum_list (map (\<lambda>(w, u, v). \<bar>w\<bar>) (wedges g))"
    by (simp flip: sum_mset_sum_list)
  then have "sum_list (map (\<lambda>(w, u, v). \<bar>w\<bar>) ?es) \<le> int_max" using assms by (simp add: valid_wgraph_def)
  moreover have "\<forall>(w, u, v) \<in> set ?es. 0 \<le> u \<and> u < verts g + 1 \<and> 0 \<le> v \<and> v < verts g + 1"
    using assms by (auto simp: valid_wgraph_def list_all_iff)
  ultimately show ?thesis
    unfolding wp_eq_ok [symmetric] kruskalMST_def Let_def ds(1) bnd_ok wp_bnd
    by (intro wp_conseq [OF kruskalMST_loop [OF ds(2)]]) auto
qed

lemma picked_minimal:
  assumes "sorted_wrt (\<lambda>a b. wt a \<le> (wt b :: int)) es"
  shows "min_spanning_forest ends wt (set es) (set (picked ends {} es))" "distinct (picked ends {} es)"
    "sorted_wrt (\<lambda>a b. wt a \<le> wt b) (picked ends {} es)"
  using greedy_minimal [OF assms, of ends] foldl_grow_picked [of ends "{}" es] picked_new [of ends "{}" es]
    sorted_picked [OF assms] by simp_all

text \<open>A graph is connected when its edges lead from vertex 0 to every vertex.\<close>

definition connected :: "int \<Rightarrow> ('e \<Rightarrow> int \<times> int) \<Rightarrow> 'e set \<Rightarrow> bool" where
  "connected n ends E \<longleftrightarrow> (\<forall>a \<in> {0..<n}. conn ends E 0 a)"

lemma connected_conn: "connected n ends E \<Longrightarrow> 0 \<le> a \<Longrightarrow> a < n \<Longrightarrow> 0 \<le> b \<Longrightarrow> b < n \<Longrightarrow> conn ends E a b"
  unfolding connected_def by (meson atLeastLessThan_iff conn_sym conn_trans)

abbreviation eends :: "edge \<Rightarrow> int \<times> int" where
  "eends e \<equiv> (src e, dest e)"

text \<open>
  An order of the edges that the comparator of the second program allows: none of them is followed by one
  that \<open>myComp\<close> puts before it.
\<close>

definition allowed_order :: "edge list \<Rightarrow> bool" where
  "allowed_order es \<longleftrightarrow> sorted_wrt (\<lambda>a b. myComp a b \<le> 0) es"

lemma allowed_order_weights: "allowed_order es \<longleftrightarrow> sorted_wrt (\<lambda>a b. weight a \<le> weight b) es"
proof -
  have "(\<lambda>a b. myComp a b \<le> 0) = (\<lambda>a b. weight a \<le> weight b)" by (auto simp: fun_eq_iff myComp_def)
  then show ?thesis by (simp add: allowed_order_def)
qed

definition edge_graph :: "int \<Rightarrow> edge list \<Rightarrow> egraph" where
  "edge_graph n es = \<lparr>gV = n, gE = len es, gedge = map Some es\<rparr>"

definition valid_edges :: "int \<Rightarrow> edge list \<Rightarrow> bool" where
  "valid_edges n es \<longleftrightarrow> 0 < n \<and> n \<le> int_max \<and> list_all (\<lambda>e. 0 \<le> src e \<and> src e < n \<and> 0 \<le> dest e \<and> dest e < n) es"

lemma subsets_start:
  assumes "0 < n" "n \<le> int_max"
  shows "\<exists>ss. for_up 0 n (\<lambda>v subsets. bnd (set_sparent subsets v v) (\<lambda>subsets. set_srank subsets v 0))
      (replicate (nat n) \<lparr>srank = None, sparent = None\<rparr>) = ok ss \<and> subset_holds n ss (\<lambda>u. u)"
proof -
  let ?I = "\<lambda>i ss. len ss = n \<and> (\<forall>u. 0 \<le> u \<and> u < i \<longrightarrow> at ss u = \<lparr>srank = Some 0, sparent = Some u\<rparr>)"
  have "wp (for_up 0 n (\<lambda>v subsets. bnd (set_sparent subsets v v) (\<lambda>subsets. set_srank subsets v 0))
      (replicate (nat n) \<lparr>srank = None, sparent = None\<rparr>)) (?I n)"
    by (rule wp_for_up [where I = ?I])
      (use assms in \<open>auto simp: set_sparent_def set_srank_def at_upd zless_add1_eq\<close>)
  then obtain ss where ss: "for_up 0 n (\<lambda>v subsets. bnd (set_sparent subsets v v) (\<lambda>subsets. set_srank subsets v 0))
      (replicate (nat n) \<lparr>srank = None, sparent = None\<rparr>) = ok ss" "?I n ss" by (auto simp: wp_iff)
  then have "subset_arrays n ss (\<lambda>u. u) (\<lambda>u. 0)" by (simp add: subset_arrays_def)
  with uf_start [of n] assms have "subset_holds n ss (\<lambda>u. u)" by (auto simp: subset_holds_def)
  with ss(1) show ?thesis by blast
qed

text \<open>One turn of the loop of \<open>KruskalMST2\<close>, and the loop.\<close>

definition kruskal2_turn :: "edge option list \<Rightarrow> int \<times> int \<times> edge option list \<times> subset list \<Rightarrow>
    (int \<times> int \<times> edge option list \<times> subset list) run" where
  "kruskal2_turn es = (\<lambda>(i, e, result, subsets).
     bnd (rdi es i) (\<lambda>next_edge.
     bnd (find2 subsets (src next_edge)) (\<lambda>(subsets, x).
     bnd (find2 subsets (dest next_edge)) (\<lambda>(subsets, y).
     if x \<noteq> y then
       bnd (wr result e (Some next_edge)) (\<lambda>result.
       bnd (Union2 subsets x y) (\<lambda>subsets. ok (i + 1, e + 1, result, subsets)))
     else ok (i + 1, e, result, subsets)))))"

definition turn_inv :: "int \<Rightarrow> edge list \<Rightarrow> nat \<Rightarrow> int \<times> int \<times> edge option list \<times> subset list \<Rightarrow> bool" where
  "turn_inv n es k = (\<lambda>(i, e, result, subsets). i = int k \<and> k \<le> length es \<and>
     (let ps = picked eends {} (take k es) in e = len ps \<and> e < n \<and> len result = n \<and>
       (\<forall>j. 0 \<le> j \<and> j < e \<longrightarrow> at result j = Some (at ps j)) \<and>
       d2.parts n eends (foldl (grow eends) {} (take k es)) (nat (n - e)) subsets))"

lemma turn_step:
  assumes V: "valid_edges n es" and I: "turn_inv n es k (i, e, result, subsets)" and k: "k < length es" and e: "e < n - 1"
  shows "wp (kruskal2_turn (map Some es) (i, e, result, subsets)) (turn_inv n es (Suc k))"
proof -
  let ?F = "foldl (grow eends) {} (take k es)" and ?ps = "picked eends {} (take k es)" and ?x = "es ! k"
  have i: "i = int k" "e = len ?ps" "len result = n" and res: "\<And>j. 0 \<le> j \<Longrightarrow> j < e \<Longrightarrow> at result j = Some (at ?ps j)"
      and P: "d2.parts n eends ?F (nat (n - e)) subsets"
    using I by (auto simp: turn_inv_def Let_def)
  have x: "0 \<le> src ?x" "src ?x < n" "0 \<le> dest ?x" "dest ?x < n"
    using V k by (auto simp: valid_edges_def list_all_length)
  have t: "take (Suc k) es = take k es @ [?x]" using k by (rule take_Suc_conv_app_nth)
  have rd: "rdi (map Some es) i = ok ?x" using i(1) k by (simp add: rdi_def rd_def at_def)
  show ?thesis
    unfolding kruskal2_turn_def prod.case rd bnd_ok
  proof (rule d2.edge_rule [where e = ?x, OF P refl x], goal_cases)
    case (1 s x)
    with i res e k show ?case
      by (auto simp: turn_inv_def t picked_snoc grow_def Let_def)
  next
    case (2 s a b)
    have s: "nat (n - (len ?ps + 1)) = nat (n - len ?ps) - 1" by simp
    have "d2.parts n eends (insert ?x ?F) (nat (n - e) - 1) s' \<Longrightarrow>
        turn_inv n es (Suc k) (i + 1, e + 1, upd result e (Some ?x), s')" for s'
      using i res e k 2(1) s
      by (auto simp: turn_inv_def t picked_snoc grow_def Let_def at_upd) (auto simp: at_def nth_append nat_less_iff zless_add1_eq)
    with 2 i e show ?case by (auto elim!: wp_conseq)
  qed
qed

lemma kruskal2_loop:
  assumes V: "valid_edges n es" and ss: "subset_holds n ss (\<lambda>u. u)" and C: "connected n eends (set es)"
  shows "wp (while_run (\<lambda>(i, e, result, subsets). ok (e < n - 1)) (kruskal2_turn (map Some es)) (0, 0, uninit n, ss))
     (\<lambda>(i, e, result, subsets). let ps = picked eends {} es in e = len ps \<and> len ps = n - 1 \<and> len result = n \<and>
       (\<forall>j. 0 \<le> j \<and> j < e \<longrightarrow> at result j = Some (at ps j)))"
proof (rule wp_while [where I = "\<lambda>s. \<exists>k. turn_inv n es k s" and m = "\<lambda>s. nat (len es - fst s)"])
  have n: "0 < n" using V by (simp add: valid_edges_def)
  then show "\<exists>k. turn_inv n es k (0, 0, uninit n, ss)"
    using d2.parts_start [OF ss, of eends] by (intro exI [of _ 0]) (auto simp: turn_inv_def)
  fix s assume "\<exists>k. turn_inv n es k s"
  then obtain k i e result subsets where s: "s = (i, e, result, subsets)" and I: "turn_inv n es k (i, e, result, subsets)"
    by (cases s) auto
  let ?F = "foldl (grow eends) {} (take k es)"
  have i: "i = int k" "e = len (picked eends {} (take k es))" "e < n" and P: "d2.parts n eends ?F (nat (n - e)) subsets"
    using I by (auto simp: turn_inv_def Let_def)
  have more: "k < length es" if e: "e < n - 1"
  proof (rule ccontr)
    assume "\<not> k < length es"
    then have F: "?F = foldl (grow eends) {} es" by simp
    have "1 < nat (n - e)" using e by simp
    from d2.parts_more [OF P this] obtain a b where ab: "0 \<le> a" "a < n" "0 \<le> b" "b < n" "\<not> conn eends ?F a b" .
    have "conn eends (set es) a b" by (rule connected_conn [OF C ab(1-4)])
    then have "conn eends ?F a b" unfolding F by (rule conn_covered) (rule foldl_grow_links)
    with ab(5) show False by simp
  qed
  have stop: "picked eends {} es = picked eends {} (take k es)" if e: "\<not> e < n - 1"
  proof -
    have "nat (n - e) = 1" using e i(3) by simp
    with P have P1: "d2.parts n eends ?F 1 subsets" by simp
    have "linked eends ?F x" if "x \<in> set (drop k es)" for x
      using d2.parts_one [OF P1, of "src x" "dest x"] V in_set_dropD [OF that]
      by (auto simp: linked_def valid_edges_def list_all_iff)
    then have "picked eends ?F (drop k es) = []" by (rule picked_none)
    then show ?thesis using picked_append [of eends "{}" "take k es" "drop k es"] by simp
  qed
  show "wp (case s of (i, e, result, subsets) \<Rightarrow> ok (e < n - 1)) (\<lambda>t. if t then
      wp (kruskal2_turn (map Some es) s) (\<lambda>s'. (\<exists>k. turn_inv n es k s') \<and>
        nat (len es - fst s') < nat (len es - fst s))
      else (case s of (i, e, result, subsets) \<Rightarrow> let ps = picked eends {} es in e = len ps \<and> len ps = n - 1 \<and>
        len result = n \<and> (\<forall>j. 0 \<le> j \<and> j < e \<longrightarrow> at result j = Some (at ps j))))"
  proof (cases "e < n - 1")
    case True
    have "wp (kruskal2_turn (map Some es) (i, e, result, subsets)) (turn_inv n es (Suc k))"
      by (rule turn_step [OF V I more [OF True] True])
    then have "wp (kruskal2_turn (map Some es) (i, e, result, subsets)) (\<lambda>s'. (\<exists>k. turn_inv n es k s') \<and>
        nat (len es - fst s') < nat (len es - i))"
    proof (rule wp_conseq)
      fix s' assume I': "turn_inv n es (Suc k) s'"
      moreover have "fst s' = int (Suc k)" using I' by (auto simp: turn_inv_def)
      ultimately show "(\<exists>k. turn_inv n es k s') \<and> nat (len es - fst s') < nat (len es - i)"
        using more [OF True] i(1) by auto
    qed
    with True s show ?thesis by simp
  next
    case False
    with stop [OF False] I i s show ?thesis by (auto simp: turn_inv_def Let_def)
  qed
qed

lemma turn_start:
  "valid_edges n es \<Longrightarrow> subset_holds n ss (\<lambda>u. u) \<Longrightarrow> turn_inv n es 0 (0, 0, uninit n, ss)"
  using d2.parts_start [of n ss eends] by (auto simp: turn_inv_def valid_edges_def)

text \<open>On a graph that is not connected the loop runs past the last edge.\<close>

lemma kruskal2_overrun:
  assumes V: "valid_edges n es" and D: "\<not> connected n eends (set es)" and I: "turn_inv n es k s"
  shows "while_run (\<lambda>(i, e, result, subsets). ok (e < n - 1)) (kruskal2_turn (map Some es)) s = fail Out_Of_Bounds"
  using I
proof (induction "length es - k" arbitrary: k s rule: less_induct)
  case less
  obtain i e result subsets where s: "s = (i, e, result, subsets)" by (cases s)
  let ?F = "foldl (grow eends) {} (take k es)"
  have i: "i = int k" "k \<le> length es" "e < n" and P: "d2.parts n eends ?F (nat (n - e)) subsets"
    using less.prems s by (auto simp: turn_inv_def Let_def)
  have e: "e < n - 1"
  proof (rule ccontr)
    assume "\<not> e < n - 1"
    then have one: "nat (n - e) = 1" using i(3) by simp
    have "conn eends (set es) 0 a" if "0 \<le> a" "a < n" for a
    proof (rule conn_mono)
      show "conn eends ?F 0 a" using d2.parts_one [of n eends ?F subsets 0 a] P one that by simp
      show "?F \<subseteq> set es" using foldl_grow_subset [of eends "{}" "take k es"] set_take_subset [of k es] by auto
    qed
    with D show False by (simp add: connected_def)
  qed
  show ?case
  proof (cases "k < length es")
    case True
    from turn_step [OF V less.prems [unfolded s] True e] obtain s' where
        s': "kruskal2_turn (map Some es) (i, e, result, subsets) = ok s'" "turn_inv n es (Suc k) s'" by (auto simp: wp_iff)
    have "while_run (\<lambda>(i, e, result, subsets). ok (e < n - 1)) (kruskal2_turn (map Some es)) s' = fail Out_Of_Bounds"
      by (rule less.hyps [OF _ s'(2)]) (use True in simp)
    with s s'(1) e show ?thesis by (subst while_run_unfold) simp
  next
    case False
    then have "rdi (map Some es) i = fail Out_Of_Bounds" using i by (simp add: rdi_def rd_def)
    with s e show ?thesis by (subst while_run_unfold) (simp add: kruskal2_turn_def)
  qed
qed

section \<open>Properties\<close>

text \<open>
  C4: \<open>kruskalMST\<close> of the first program prints the edges of a minimum spanning forest of its graph
  in ascending order of weight and returns their total weight, without overflow.
\<close>

theorem kruskalMST_correct:
  assumes "valid_wgraph g"
  shows "\<exists>es. kruskalMST g = ok (g\<lparr>wedges := sort (wedges g)\<rparr>, edge_lines es, sum_list (map fst es)) \<and>
     distinct es \<and> sorted (map fst es) \<and> min_spanning_forest snd fst (set (wedges g)) (set es)"
proof -
  have "sorted_wrt (\<lambda>a b. fst a \<le> fst b) (sort (wedges g))"
    by (rule sorted_wrt_mono_rel [OF _ sorted_sort]) (auto simp: less_eq_prod_def)
  from picked_minimal [OF this, of snd] kruskalMST_picks [OF assms] show ?thesis
    by (intro exI [of _ "picked snd {} (sort (wedges g))"]) (simp add: sorted_map)
qed

lemma for_up_lines:
  "len ps \<le> n \<Longrightarrow> len result = n \<Longrightarrow> (\<And>j. 0 \<le> j \<Longrightarrow> j < len ps \<Longrightarrow> at result j = Some (at ps j)) \<Longrightarrow>
   for_up 0 (len ps) (\<lambda>i out. bnd (rdi result i) (\<lambda>r. ok (out @ f r))) t = ok (t @ concat (map f ps))"
proof -
  assume n: "len ps \<le> n" "len result = n" and res: "\<And>j. 0 \<le> j \<Longrightarrow> j < len ps \<Longrightarrow> at result j = Some (at ps j)"
  have "map (\<lambda>i. f (at ps i)) [0..len ps - 1] = map f ps"
    by (rule nth_equalityI) (auto simp: at_def)
  moreover have "for_up 0 (len ps) (\<lambda>i out. bnd (rdi result i) (\<lambda>r. ok (out @ f r))) t =
      ok (t @ concat (map (\<lambda>i. f (at ps i)) [0..len ps - 1]))"
    by (rule for_up_append) (use n res in \<open>simp add: rdi_def rd_in\<close>)
  ultimately show ?thesis by simp
qed

text \<open>
  C5: For a connected graph on \<open>n\<close> vertices \<open>KruskalMST\<close> of the second program prints n - 1
  edges that form a spanning tree, in whatever order \<open>qsort\<close>, called with \<open>myComp\<close>, leaves the edges of its
  array; the tree is a minimum one and its weights ascend when that order is one \<open>myComp\<close> allows.
\<close>

theorem KruskalMST2_correct:
  assumes "valid_edges n es" "connected n eends (set es)" "mset (qsort myComp es) = mset es"
  shows "\<exists>ps. KruskalMST2 qsort (edge_graph n es) =
       ok (edge_graph n (qsort myComp es), mst_header @ concat (map mst_line ps) @ nl) \<and>
     len ps = n - 1 \<and> distinct ps \<and> spanning_forest eends (set es) (set ps) \<and>
     (allowed_order (qsort myComp es) \<longrightarrow>
       sorted (map weight ps) \<and> min_spanning_forest eends weight (set es) (set ps))"
proof -
  let ?es = "qsort myComp es" and ?ps = "picked eends {} (qsort myComp es)"
  have se: "set ?es = set es" and le: "length ?es = length es"
    using assms(3) by (auto dest: mset_eq_setD mset_eq_length)
  have V: "valid_edges n ?es" using assms(1) se by (simp add: valid_edges_def list_all_iff)
  obtain ss where ss: "for_up 0 n (\<lambda>v subsets. bnd (set_sparent subsets v v) (\<lambda>subsets. set_srank subsets v 0))
      (replicate (nat n) \<lparr>srank = None, sparent = None\<rparr>) = ok ss" "subset_holds n ss (\<lambda>u. u)"
    using subsets_start [of n] assms(1) by (auto simp: valid_edges_def)
  have q: "qsort_edges qsort (map Some es) = ok (map Some ?es)"
    by (auto simp: qsort_edges_def comp_def)
  have n: "\<not> n < 0" using assms(1) by (simp add: valid_edges_def)
  obtain i result subsets where w: "while_run (\<lambda>(i, e, result, subsets). ok (e < n - 1)) (kruskal2_turn (map Some ?es)) (0, 0, uninit n, ss) =
      ok (i, len ?ps, result, subsets)" and ps: "len ?ps = n - 1" "len result = n"
      "\<And>j. 0 \<le> j \<Longrightarrow> j < len ?ps \<Longrightarrow> at result j = Some (at ?ps j)"
  proof -
    have C: "connected n eends (set ?es)" using assms(2) se by simp
    obtain s where s: "while_run (\<lambda>(i, e, result, subsets). ok (e < n - 1)) (kruskal2_turn (map Some ?es)) (0, 0, uninit n, ss) = ok s"
        "case s of (i, e, result, subsets) \<Rightarrow> let ps = ?ps in e = len ps \<and> len ps = n - 1 \<and> len result = n \<and>
          (\<forall>j. 0 \<le> j \<and> j < e \<longrightarrow> at result j = Some (at ps j))"
      using kruskal2_loop [OF V ss(2) C] unfolding wp_iff by blast
    obtain i e result subsets where "s = (i, e, result, subsets)" by (cases s)
    with s that [of i result subsets] show thesis by (simp add: Let_def)
  qed
  have "KruskalMST2 qsort (edge_graph n es) = ok (edge_graph n ?es, mst_header @ concat (map mst_line ?ps) @ nl)"
    unfolding KruskalMST2_def edge_graph_def egraph.simps q bnd_ok if_not_P [OF n] ss(1)
    using w [unfolded kruskal2_turn_def] for_up_lines [of ?ps n result mst_line mst_header, OF _ ps(2,3)] ps(1) le
    by simp
  moreover have "spanning_forest eends (set ?es) (set ?ps)" "distinct ?ps"
    using foldl_grow_spanning [of eends ?es] foldl_grow_picked [of eends "{}" ?es] picked_new [of eends "{}" ?es] by simp_all
  moreover have "sorted (map weight ?ps) \<and> min_spanning_forest eends weight (set ?es) (set ?ps)" if "allowed_order ?es"
    using picked_minimal [OF that [unfolded allowed_order_weights], of eends] by (simp add: sorted_map)
  ultimately show ?thesis using ps(1) se by (intro exI [of _ ?ps]) simp
qed

text \<open>On a graph that is not connected the same function reads behind the last edge.\<close>

theorem KruskalMST2_disconnected:
  assumes "valid_edges n es" "\<not> connected n eends (set es)" "mset (qsort myComp es) = mset es"
  shows "KruskalMST2 qsort (edge_graph n es) = fail Out_Of_Bounds"
proof -
  let ?es = "qsort myComp es"
  have se: "set ?es = set es" and le: "length ?es = length es"
    using assms(3) by (auto dest: mset_eq_setD mset_eq_length)
  have V: "valid_edges n ?es" using assms(1) se by (simp add: valid_edges_def list_all_iff)
  have D: "\<not> connected n eends (set ?es)" using assms(2) se by simp
  obtain ss where ss: "for_up 0 n (\<lambda>v subsets. bnd (set_sparent subsets v v) (\<lambda>subsets. set_srank subsets v 0))
      (replicate (nat n) \<lparr>srank = None, sparent = None\<rparr>) = ok ss" "subset_holds n ss (\<lambda>u. u)"
    using subsets_start [of n] assms(1) by (auto simp: valid_edges_def)
  have q: "qsort_edges qsort (map Some es) = ok (map Some ?es)"
    by (auto simp: qsort_edges_def comp_def)
  have n: "\<not> n < 0" using assms(1) by (simp add: valid_edges_def)
  have "while_run (\<lambda>(i, e, result, subsets). ok (e < n - 1)) (kruskal2_turn (map Some ?es)) (0, 0, uninit n, ss) = fail Out_Of_Bounds"
    by (rule kruskal2_overrun [OF V D turn_start [OF V ss(2)]])
  then show ?thesis
    unfolding KruskalMST2_def edge_graph_def egraph.simps q bnd_ok if_not_P [OF n] ss(1)
    by (simp add: kruskal2_turn_def)
qed

declare ds_find.simps [code] find2.simps [code]

lemma kruskal1_valid: "valid_wgraph kruskal1_graph"
  by code_simp

theorem kruskalMST_correct_witness:
  "\<exists>es. kruskalMST kruskal1_graph = ok (kruskal1_graph\<lparr>wedges := sort (wedges kruskal1_graph)\<rparr>, edge_lines es, sum_list (map fst es)) \<and>
     distinct es \<and> sorted (map fst es) \<and> min_spanning_forest snd fst (set (wedges kruskal1_graph)) (set es)"
  by (rule kruskalMST_correct [OF kruskal1_valid])

text \<open>A function for the parameter: insertion sort with any comparator.\<close>

primrec insert_by :: "('a \<Rightarrow> 'a \<Rightarrow> int) \<Rightarrow> 'a \<Rightarrow> 'a list \<Rightarrow> 'a list" where
  "insert_by cmp x [] = [x]"
| "insert_by cmp x (y # ys) = (if cmp x y > 0 then y # insert_by cmp x ys else x # y # ys)"

definition sort_by :: "('a \<Rightarrow> 'a \<Rightarrow> int) \<Rightarrow> 'a list \<Rightarrow> 'a list" where
  "sort_by cmp xs = foldr (insert_by cmp) xs []"

lemma mset_sort_by: "mset (sort_by cmp xs) = mset xs"
proof -
  have "mset (insert_by cmp x ys) = add_mset x (mset ys)" for x ys by (induction ys) auto
  then show ?thesis by (induction xs) (simp_all add: sort_by_def)
qed

definition path_edges :: "edge list" where
  "path_edges = [\<lparr>src = 1, dest = 2, weight = 7\<rparr>, \<lparr>src = 0, dest = 1, weight = 3\<rparr>]"

lemma path_edges_connected: "connected 3 eends (set path_edges)"
proof -
  have 1: "conn eends (set path_edges) 0 1"
    by (rule conn.along [OF conn.here, of "\<lparr>src = 0, dest = 1, weight = 3\<rparr>"]) (simp_all add: path_edges_def)
  have "conn eends (set path_edges) 0 2"
    by (rule conn.along [OF 1, of "\<lparr>src = 1, dest = 2, weight = 7\<rparr>"]) (simp_all add: path_edges_def)
  with 1 have "conn eends (set path_edges) 0 a" if "a = 0 \<or> a = 1 \<or> a = 2" for a
    using that by (auto intro: conn.here)
  moreover have "a = 0 \<or> a = 1 \<or> a = 2" if "a \<in> {0..<3}" for a :: int
    using that by auto
  ultimately show ?thesis unfolding connected_def by blast
qed

theorem KruskalMST2_correct_witness:
  "\<exists>ps. KruskalMST2 sort_by (edge_graph 3 path_edges) =
       ok (edge_graph 3 (sort_by myComp path_edges), mst_header @ concat (map mst_line ps) @ nl) \<and>
     len ps = 2 \<and> distinct ps \<and> sorted (map weight ps) \<and> min_spanning_forest eends weight (set path_edges) (set ps)"
proof -
  have v: "valid_edges 3 path_edges" by (simp add: valid_edges_def path_edges_def)
  have a: "allowed_order (sort_by myComp path_edges)" by code_simp
  have two: "(3 :: int) - 1 = 2" by simp
  from KruskalMST2_correct [where qsort = sort_by, OF v path_edges_connected mset_sort_by] a show ?thesis unfolding two by blast
qed

theorem KruskalMST2_disconnected_witness:
  "KruskalMST2 sort_by (edge_graph 2 []) = fail Out_Of_Bounds"
proof (rule KruskalMST2_disconnected [where qsort = sort_by, OF _ _ mset_sort_by])
  show "valid_edges 2 []" by (simp add: valid_edges_def)
  show "\<not> connected 2 eends (set [])" by (auto simp: connected_def intro!: bexI [of _ 1])
qed

lemma kruskal1_output: "kruskal1_main = ok (''Edges of MST are '' @ nl @ ''6 - 7'' @ nl @ ''2 - 8'' @ nl @ ''5 - 6'' @ nl @
     ''0 - 1'' @ nl @ ''2 - 5'' @ nl @ ''2 - 3'' @ nl @ ''0 - 7'' @ nl @ ''3 - 4'' @ nl @ nl @ ''Weight of MST is 37'' @ nl @ nl)"
  by code_simp

lemma kruskal2_output: "kruskal2_main sort_by = ok (mst_header @ tab @ ''2 -- 3 == 4'' @ nl @
     tab @ ''0 -- 3 == 5'' @ nl @ tab @ ''0 -- 1 == 10'' @ nl @ nl)"
  by code_simp

text \<open>The two programs print what the comments at the end of their files say.\<close>

theorem kruskal_mains_print:
  "kruskal1_main = ok (''Edges of MST are '' @ nl @ ''6 - 7'' @ nl @ ''2 - 8'' @ nl @ ''5 - 6'' @ nl @
     ''0 - 1'' @ nl @ ''2 - 5'' @ nl @ ''2 - 3'' @ nl @ ''0 - 7'' @ nl @ ''3 - 4'' @ nl @ nl @ ''Weight of MST is 37'' @ nl @ nl) \<and>
   kruskal2_main sort_by = ok (mst_header @ tab @ ''2 -- 3 == 4'' @ nl @
     tab @ ''0 -- 3 == 5'' @ nl @ tab @ ''0 -- 1 == 10'' @ nl @ nl)"
  by (rule conjI [OF kruskal1_output kruskal2_output])

end
