(* ===== verification/Tree_Search.thy ===== *)
theory Tree_Search
  imports Cxx_Console "HOL-Library.Tree" "HOL-Library.Tree_Multiset"
begin

text \<open>
  \<open>DataStructure/tree/aleatorio.cxx\<close> and \<open>binaria.cxx\<close>: two binary search trees of
  \<open>int\<close>s, one without and one with repetitions.  Their nodes are reached through one pointer
  each, so a pointer to a node is the tree below it and the null pointer is \<open>Leaf\<close>.
\<close>

section \<open>aleatorio\<close>

fun insereElementos :: "int tree \<Rightarrow> int \<Rightarrow> int tree" where
  "insereElementos Leaf elemento = Node Leaf elemento Leaf"
| "insereElementos (Node esquerda x direita) elemento =
     (if elemento < x then Node (insereElementos esquerda elemento) x direita
      else if elemento > x then Node esquerda x (insereElementos direita elemento)
      else Node esquerda x direita)"

fun exibirOrd :: "int tree \<Rightarrow> string" where
  "exibirOrd Leaf = []"
| "exibirOrd (Node esquerda x direita) = exibirOrd esquerda @ dec x @ '' '' @ exibirOrd direita"

text \<open>\<open>rnd k\<close> is what the (k + 1)st call of \<open>rand()\<close> returns.\<close>

definition aleatorio_main :: "(nat \<Rightarrow> int) \<Rightarrow> string run" where
  "aleatorio_main rnd =
     bnd (for_up 0 21 (\<lambda>i t. bnd (mod32 (rnd (nat i)) 250) (\<lambda>aleatorio. ok (insereElementos t aleatorio))) Leaf) (\<lambda>t.
     ok (exibirOrd t @ nl))"

section \<open>binaria\<close>

text \<open>\<open>new Node(v)\<close>; \<open>setEsquerda\<close> and \<open>setDireita\<close> hang such a node below another.\<close>

definition new_node :: "int \<Rightarrow> int tree" where
  "new_node v = Node Leaf v Leaf"

definition inserindo :: "string \<Rightarrow> int \<Rightarrow> int \<Rightarrow> string" where
  "inserindo lado v x = ''Inserindo '' @ dec v @ '' a '' @ lado @ '' de '' @ dec x @ ''.'' @ nl"

fun inserir_no :: "int tree \<Rightarrow> int \<Rightarrow> (int tree \<times> string) run" where
  "inserir_no Leaf v = fail Null_Deref"
| "inserir_no (Node esquerda x direita) v =
     (if v > x then
        if direita \<noteq> Leaf then bnd (inserir_no direita v) (\<lambda>(t, out). ok (Node esquerda x t, out))
        else ok (Node esquerda x (new_node v), inserindo ''direita'' v x)
      else
        if esquerda \<noteq> Leaf then bnd (inserir_no esquerda v) (\<lambda>(t, out). ok (Node t x direita, out))
        else ok (Node (new_node v) x direita, inserindo ''esquerda'' v x))"

definition atual :: "int \<Rightarrow> string" where
  "atual x = ''Atual = '' @ dec x @ nl"

fun contar :: "int tree \<Rightarrow> (int \<times> string) run" where
  "contar Leaf = ok (0, [])"
| "contar (Node esquerda x direita) =
     bnd (contar esquerda) (\<lambda>(a, out1). bnd (i32 (1 + a)) (\<lambda>contador.
     bnd (contar direita) (\<lambda>(b, out2). bnd (i32 (contador + b)) (\<lambda>contador.
     ok (contador, atual x @ out1 @ out2)))))"

definition arvore_main :: "string run" where
  "arvore_main =
     bnd (for_each (\<lambda>v (t, out). bnd (inserir_no t v) (\<lambda>(t, o1). ok (t, out @ o1)))
            [8, 12, 0, 17, 2, 31, 11] (new_node 5, [])) (\<lambda>(t, out).
     bnd (case t of Leaf \<Rightarrow> fail Null_Deref | Node l x r \<Rightarrow> ok x) (\<lambda>x.
     bnd (contar t) (\<lambda>(n, o2).
     ok (out @ ''Valor da raiz = '' @ dec x @ nl @ o2 @ ''Quantidade de nodes: '' @ dec n @ nl))))"

section \<open>Search tree order\<close>

lemma bst_insereElementos:
  "bst t \<Longrightarrow> bst (insereElementos t x) \<and> set_tree (insereElementos t x) = insert x (set_tree t)"
  by (induction t) auto

lemma exibirOrd_inorder: "exibirOrd t = blanks (inorder t)"
  by (induction t) auto

text \<open>With repetitions: at most the root to its left, more than the root to its right.\<close>

fun ordered_tree :: "int tree \<Rightarrow> bool" where
  "ordered_tree Leaf \<longleftrightarrow> True"
| "ordered_tree (Node l x r) \<longleftrightarrow> ordered_tree l \<and> ordered_tree r \<and> (\<forall>y \<in> set_tree l. y \<le> x) \<and> (\<forall>y \<in> set_tree r. x < y)"

lemma ordered_tree_sorted: "ordered_tree t \<Longrightarrow> sorted (inorder t)"
proof (induction t)
  case (Node l x r)
  then have "\<forall>y \<in> set_tree l. \<forall>z \<in> set_tree r. y < z" by fastforce
  with Node show ?case by (force simp: sorted_append)
qed simp

lemma inserir_no_step:
  "t \<noteq> Leaf \<Longrightarrow> ordered_tree t \<Longrightarrow> wp (inserir_no t v) (\<lambda>(t', out). ordered_tree t' \<and> t' \<noteq> Leaf \<and>
     mset_tree t' = add_mset v (mset_tree t) \<and> set_tree t' = insert v (set_tree t))"
proof (induction t)
  case (Node l x r)
  show ?case
  proof (cases "v > x")
    case True
    with Node show ?thesis by (cases "r = Leaf") (auto simp: new_node_def elim!: wp_conseq)
  next
    case False
    with Node show ?thesis by (cases "l = Leaf") (auto simp: new_node_def elim!: wp_conseq)
  qed
qed simp

lemma contar_size:
  "int (size t) \<le> int_max \<Longrightarrow> contar t = ok (int (size t), concat (map atual (preorder t)))"
  by (induction t) (auto simp: i32_def)

section \<open>Properties\<close>

text \<open>
  C37: aleatorio inserts each number once: the tree stays a search tree with the new number in it, and
  \<open>exibirOrd\<close> prints its numbers in ascending order.
\<close>

theorem insereElementos_correct:
  assumes "bst t"
  shows "bst (insereElementos t x) \<and> set_tree (insereElementos t x) = insert x (set_tree t) \<and>
     exibirOrd t = blanks (sorted_list_of_set (set_tree t))"
proof -
  have "sorted_wrt (<) (inorder t)" using assms by (simp add: bst_iff_sorted_wrt_less)
  then have "sorted_list_of_set (set_tree t) = inorder t"
    by (metis set_inorder sorted_list_of_set.idem_if_sorted_distinct strict_sorted_iff)
  with bst_insereElementos [OF assms] show ?thesis by (simp add: exibirOrd_inorder)
qed

theorem insereElementos_correct_witness:
  "bst (insereElementos (Node Leaf (4 :: int) Leaf) 2) \<and>
   set_tree (insereElementos (Node Leaf 4 Leaf) 2) = insert 2 (set_tree (Node Leaf (4 :: int) Leaf)) \<and>
   exibirOrd (Node Leaf 4 Leaf) = blanks (sorted_list_of_set (set_tree (Node Leaf (4 :: int) Leaf)))"
  by (rule insereElementos_correct) simp

text \<open>
  binaria: insertion at a node keeps the tree ordered, adds one occurrence of the number, and
  fails only for the null pointer; \<open>contar\<close> returns the number of nodes and prints them in
  preorder as long as an \<open>int\<close> can count them.
\<close>

theorem inserir_contar_correct:
  assumes "ordered_tree t" "t \<noteq> Leaf" "int (size t) \<le> int_max"
  shows "(\<exists>t' out. inserir_no t v = ok (t', out) \<and> ordered_tree t' \<and> sorted (inorder t') \<and>
       mset_tree t' = add_mset v (mset_tree t)) \<and>
     contar t = ok (int (size t), concat (map atual (preorder t))) \<and> inserir_no Leaf v = fail Null_Deref"
  using inserir_no_step [OF assms(2,1), of v] contar_size [OF assms(3)] by (auto simp: wp_iff ordered_tree_sorted)

theorem inserir_contar_correct_witness:
  "(\<exists>t' out. inserir_no (Node Leaf 4 Leaf) 4 = ok (t', out) \<and> ordered_tree t' \<and> sorted (inorder t') \<and>
       mset_tree t' = add_mset 4 (mset_tree (Node Leaf 4 Leaf))) \<and>
     contar (Node Leaf 4 Leaf) = ok (int (size (Node Leaf (4 :: int) Leaf)), concat (map atual (preorder (Node Leaf 4 Leaf)))) \<and>
     inserir_no Leaf 4 = fail Null_Deref"
  by (rule inserir_contar_correct) simp_all

lemma aleatorio_loop:
  assumes "\<forall>k. 0 \<le> rnd k \<and> rnd k \<le> int_max"
  shows "wp (for_up 0 21 (\<lambda>i t. bnd (mod32 (rnd (nat i)) 250) (\<lambda>aleatorio. ok (insereElementos t aleatorio))) Leaf)
     (\<lambda>t. bst t \<and> set_tree t = (\<lambda>k. rnd k mod 250) ` {..<21})"
proof (rule wp_for_up [where I = "\<lambda>i t. bst t \<and> set_tree t = (\<lambda>k. rnd k mod 250) ` {..<nat i}"])
  fix i t assume i: "0 \<le> i" "i < 21" and I: "bst t \<and> set_tree t = (\<lambda>k. rnd k mod 250) ` {..<nat i}"
  have "rnd k smod 250 = rnd k mod 250" for k using assms by (intro smod_nonneg) auto
  moreover have "rnd k mod 250 \<le> int_max" "int_min \<le> rnd k mod 250" for k
    using pos_mod_bound [of 250 "rnd k"] pos_mod_sign [of 250 "rnd k"] by linarith+
  moreover have "{..<nat (i + 1)} = insert (nat i) {..<nat i}" using i by auto
  ultimately show "wp (bnd (mod32 (rnd (nat i)) 250) (\<lambda>aleatorio. ok (insereElementos t aleatorio)))
      (\<lambda>t. bst t \<and> set_tree t = (\<lambda>k. rnd k mod 250) ` {..<nat (i + 1)})"
    using I bst_insereElementos [of t] by (simp add: mod32_def)
qed auto

text \<open>
  The program aleatorio prints the different remainders of the 21 numbers \<open>rand()\<close> returns, in
  ascending order.
\<close>

theorem aleatorio_main_prints:
  assumes "\<forall>k. 0 \<le> rnd k \<and> rnd k \<le> int_max"
  shows "aleatorio_main rnd = ok (blanks (sorted_list_of_set ((\<lambda>k. rnd k mod 250) ` {..<21})) @ nl)"
proof -
  have "exibirOrd t = blanks (sorted_list_of_set (set_tree t))" if "bst t" for t
  proof -
    have "sorted_wrt (<) (inorder t)" using that by (simp add: bst_iff_sorted_wrt_less)
    then show ?thesis
      by (metis exibirOrd_inorder set_inorder sorted_list_of_set.idem_if_sorted_distinct strict_sorted_iff)
  qed
  with aleatorio_loop [OF assms] show ?thesis
    by (auto simp: aleatorio_main_def wp_iff)
qed

theorem aleatorio_main_prints_witness:
  "aleatorio_main (\<lambda>k. 251) = ok (blanks (sorted_list_of_set ((\<lambda>k. (251 :: int) mod 250) ` {..<(21 :: nat)})) @ nl)"
  by (rule aleatorio_main_prints) simp

text \<open>The program binaria prints what the comment at the end of its file says.\<close>

theorem arvore_main_prints:
  "arvore_main = ok (concat [inserindo ''direita'' 8 5, inserindo ''direita'' 12 8, inserindo ''esquerda'' 0 5,
     inserindo ''direita'' 17 12, inserindo ''direita'' 2 0, inserindo ''direita'' 31 17, inserindo ''esquerda'' 11 12,
     ''Valor da raiz = 5'' @ nl, atual 5, atual 0, atual 2, atual 8, atual 12, atual 11, atual 17, atual 31,
     ''Quantidade de nodes: 8'' @ nl])"
  by (simp add: arvore_main_def new_node_def i32_def dec_def)

end
