(* ===== verification/Cxx_Terminal.thy ===== *)
theory Cxx_Terminal
  imports Cxx_Console
begin

text \<open>
  The character terminal of the programs that read with \<open>scanf\<close> and \<open>getchar\<close> and write
  with \<open>printf\<close>: the characters still to be read and the text written.  A conversion that meets
  the end of the input ends the run with \<open>End_Of_Input\<close>; one that meets a character it cannot
  use returns \<open>None\<close> and leaves its variable alone.
\<close>

record terminal =
  tin :: string
  tout :: string

definition say :: "string \<Rightarrow> 'a terminal_scheme \<Rightarrow> 'a terminal_scheme" where
  "say t s = s\<lparr>tout := tout s @ t\<rparr>"

definition code :: "char \<Rightarrow> int" where
  "code c = of_char c"

definition is_space :: "char \<Rightarrow> bool" where
  "is_space c \<longleftrightarrow> code c = 32 \<or> 9 \<le> code c \<and> code c \<le> 13"

definition is_digit :: "char \<Rightarrow> bool" where
  "is_digit c \<longleftrightarrow> 48 \<le> code c \<and> code c \<le> 57"

definition number :: "string \<Rightarrow> int" where
  "number ds = foldl (\<lambda>n c. 10 * n + (code c - 48)) 0 ds"

text \<open>\<open>scanf(" %d", &x)\<close>.\<close>

definition scan_int :: "'a terminal_scheme \<Rightarrow> ('a terminal_scheme \<times> int option) run" where
  "scan_int s =
     (let t = dropWhile is_space (tin s);
          neg = (t \<noteq> [] \<and> hd t = CHR ''-'');
          u = (if t \<noteq> [] \<and> hd t \<in> {CHR ''-'', CHR ''+''} then tl t else t);
          ds = takeWhile is_digit u;
          rest = dropWhile is_digit u in
      if t = [] then fail End_Of_Input
      else if ds = [] then ok (s\<lparr>tin := rest\<rparr>, None)
      else bnd (i32 (if neg then - number ds else number ds)) (\<lambda>x. ok (s\<lparr>tin := rest\<rparr>, Some x)))"

text \<open>\<open>scanf(" %s", w)\<close> and \<open>scanf(" %[^\n]s", w)\<close>; a string ends at its first NUL.\<close>

definition until_nul :: "string \<Rightarrow> string" where
  "until_nul w = takeWhile (\<lambda>c. code c \<noteq> 0) w"

definition scan_word :: "'a terminal_scheme \<Rightarrow> ('a terminal_scheme \<times> string) run" where
  "scan_word s =
     (let t = dropWhile is_space (tin s) in
      if t = [] then fail End_Of_Input
      else ok (s\<lparr>tin := dropWhile (\<lambda>c. \<not> is_space c) t\<rparr>, takeWhile (\<lambda>c. \<not> is_space c) t))"

definition scan_line :: "'a terminal_scheme \<Rightarrow> ('a terminal_scheme \<times> string) run" where
  "scan_line s =
     (let t = dropWhile is_space (tin s) in
      if t = [] then fail End_Of_Input
      else ok (s\<lparr>tin := dropWhile (\<lambda>c. c \<noteq> CHR 0x0A) t\<rparr>, takeWhile (\<lambda>c. c \<noteq> CHR 0x0A) t))"

definition getchar :: "'a terminal_scheme \<Rightarrow> 'a terminal_scheme" where
  "getchar s = s\<lparr>tin := tl (tin s)\<rparr>"

text \<open>
  A number that cannot be read leaves its variable as it was; where that is uninitialised and is
  used next, \<open>need\<close> fails.  \<open>fits n w\<close>: the string \<open>w\<close> and its terminating NUL fit \<open>char[n]\<close>.
\<close>

definition need :: "'a option \<Rightarrow> 'a run" where
  "need x = (case x of None \<Rightarrow> fail Uninitialised | Some a \<Rightarrow> ok a)"

definition fits :: "nat \<Rightarrow> string \<Rightarrow> unit run" where
  "fits n w = (if length w < n then ok () else fail Out_Of_Bounds)"

lemma say_simps [simp]:
  "tin (say t s) = tin s" "tout (say t s) = tout s @ t" "say u (say t s) = say (t @ u) s" "say [] s = s"
  by (simp_all add: say_def)

section \<open>How reading may fail\<close>

text \<open>A read changes only the terminal, and fails at the end of the input or on a number beyond the type.\<close>

definition reads :: "'a terminal_scheme \<Rightarrow> 'a terminal_scheme \<Rightarrow> bool" where
  "reads s s' \<longleftrightarrow> (\<exists>t u. s' = s\<lparr>tin := t, tout := u\<rparr>)"

lemma reads_say: "reads (say t s) s' \<Longrightarrow> reads s s'"
  by (auto simp: reads_def say_def)

lemma reads_tin [simp]: "reads s (s\<lparr>tin := t\<rparr>)"
  unfolding reads_def by (intro exI [of _ t] exI [of _ "tout s"]) simp

lemma reads_refl [simp]: "reads s s" "reads s (say t s)" "reads s (getchar s)"
  unfolding reads_def say_def getchar_def
  by (rule exI [of _ "tin s"], rule exI [of _ "tout s"], simp)
    (rule exI [of _ "tin s"], rule exI [of _ "tout s @ t"], simp,
     rule exI [of _ "tl (tin s)"], rule exI [of _ "tout s"], simp)

lemma within_scan_int: "within {End_Of_Input, Signed_Overflow} (\<lambda>(s', n). reads s s') (scan_int s)"
  by (simp add: scan_int_def Let_def i32_def)

lemma within_scan_word: "within {End_Of_Input} (\<lambda>(s', w). reads s s') (scan_word s)"
  by (simp add: scan_word_def Let_def)

lemma within_scan_line: "within {End_Of_Input} (\<lambda>(s', w). reads s s') (scan_line s)"
  by (simp add: scan_line_def Let_def)

section \<open>Reading back what was printed\<close>

lemma code_digit: "n < 10 \<Longrightarrow> code (''0123456789'' ! n) = 48 + int n"
proof -
  assume "n < 10"
  then have "n \<in> {0, 1, 2, 3, 4, 5, 6, 7, 8, 9}" by auto
  then show ?thesis by (auto simp: code_def)
qed

lemma number_snoc: "number (ds @ [c]) = 10 * number ds + (code c - 48)"
  by (simp add: number_def)

lemma number_dec_nat: "number (dec_nat n) = int n"
proof (induction n rule: dec_nat.induct)
  case (1 n)
  show ?case
  proof (cases "n < 10")
    case True
    then show ?thesis using code_digit [OF True] by (simp add: number_def)
  next
    case False
    then have "int (n div 10) * 10 + int (n mod 10) = int n" by presburger
    with False "1.IH" [OF False] code_digit [of "n mod 10"] show ?thesis by (simp add: number_snoc)
  qed
qed

lemma digits_dec_nat: "c \<in> set (dec_nat n) \<Longrightarrow> is_digit c"
proof (induction n rule: dec_nat.induct)
  case (1 n)
  show ?case
  proof (cases "n < 10")
    case True
    with "1.prems" code_digit [OF True] show ?thesis by (simp add: is_digit_def)
  next
    case False
    with 1 code_digit [of "n mod 10"] show ?thesis by (auto simp: is_digit_def)
  qed
qed

lemma dec_nat_neq_Nil: "dec_nat n \<noteq> []"
  by (cases "n < 10") auto

lemma is_digit_plain: "is_digit c \<Longrightarrow> \<not> is_space c \<and> c \<noteq> CHR ''-'' \<and> c \<noteq> CHR ''+''"
  by (auto simp: is_digit_def is_space_def code_def)

lemma scan_digits:
  assumes "\<forall>c \<in> set ds. is_digit c" "ds \<noteq> []" "rest = [] \<or> \<not> is_digit (hd rest)"
  shows "takeWhile is_digit (ds @ rest) = ds" "dropWhile is_digit (ds @ rest) = rest"
    "dropWhile is_space (ds @ rest) = ds @ rest"
  using assms is_digit_plain [of "hd ds"] by (cases ds; cases rest; auto simp: takeWhile_tail)+

theorem scan_int_dec:
  assumes "int_min \<le> x" "x \<le> int_max" "rest = [] \<or> \<not> is_digit (hd rest)" "tin s = dec x @ rest"
  shows "scan_int s = ok (s\<lparr>tin := rest\<rparr>, Some x)"
proof -
  define ds where "ds = dec_nat (nat \<bar>x\<bar>)"
  have d: "\<forall>c \<in> set ds. is_digit c" "ds \<noteq> []" and n: "number ds = \<bar>x\<bar>"
    using digits_dec_nat dec_nat_neq_Nil by (auto simp: ds_def number_dec_nat)
  note scan = scan_digits [OF d assms(3)]
  have "is_digit (hd ds)" using d by simp
  then have h: "hd (ds @ rest) \<noteq> CHR ''-''" "hd (ds @ rest) \<noteq> CHR ''+''" "ds @ rest \<noteq> []"
    using is_digit_plain d(2) by auto
  show ?thesis
  proof (cases "x < 0")
    case True
    have "\<not> is_space (CHR ''-'')" by (simp add: is_space_def code_def)
    moreover have "tin s = CHR ''-'' # ds @ rest" using True assms(4) by (simp add: dec_def ds_def)
    ultimately show ?thesis
      using scan(1,2) d(2) n True assms(1,2) by (simp add: scan_int_def Let_def i32_def)
  next
    case False
    then have "tin s = ds @ rest" using assms(4) by (simp add: dec_def ds_def)
    then show ?thesis
      unfolding scan_int_def Let_def scan(3) \<open>tin s = ds @ rest\<close>
      using scan(1,2) h d(2) n False assms(1,2) by (simp add: i32_def)
  qed
qed

end
