(* ===== verification/Tree_Agenda.thy ===== *)
theory Tree_Agenda
  imports Cxx_Terminal "HOL-Library.Tree"
begin

text \<open>
  \<open>DataStructure/tree/agenda\<close>: the telephone book on a binary search tree of names.  A node
  is reached through one pointer, so a pointer is the tree below it; a pointer to a pointer, as
  \<open>inserir\<close> and \<open>excluir\<close> take it, is a tree that the operation returns changed.
\<close>

section \<open>Comparing names\<close>

definition to_lower :: "char \<Rightarrow> int" where
  "to_lower c = (if 65 \<le> code c \<and> code c \<le> 90 then code c + 32 else code c)"

fun strcasecmp :: "string \<Rightarrow> string \<Rightarrow> int" where
  "strcasecmp [] [] = 0"
| "strcasecmp [] (y # ys) = 0 - to_lower y"
| "strcasecmp (x # xs) [] = to_lower x"
| "strcasecmp (x # xs) (y # ys) = (if to_lower x = to_lower y then strcasecmp xs ys else to_lower x - to_lower y)"

fun strcmp :: "string \<Rightarrow> string \<Rightarrow> int" where
  "strcmp [] [] = 0"
| "strcmp [] (y # ys) = 0 - code y"
| "strcmp (x # xs) [] = code x"
| "strcmp (x # xs) (y # ys) = (if x = y then strcmp xs ys else code x - code y)"

definition maiuscula :: "string \<Rightarrow> string" where
  "maiuscula s = map (\<lambda>c. if 97 \<le> code c \<and> code c \<le> 122 then char_of (code c - 32) else c) s"

section \<open>The tree\<close>

record contato =
  Nome :: string
  telefone :: int

type_synonym arvore = "contato tree"

definition name_not_found :: string where
  "name_not_found = nl @ tab @ ''*------------------*'' @ nl @ tab @ ''| NAME NOT FOUND!! |'' @ nl @ tab @ ''*------------------*'' @ nl"

definition name_not_found_alterar :: string where
  "name_not_found_alterar = nl @ tab @ ''*------------------*'' @ nl @ tab @ ''| NAME NOT FOUND!! |'' @ nl @ tab @ ''*------------------*''"

definition already_registered :: string where
  "already_registered = nl @ tab @ ''*---------------------------*'' @ nl @ tab @ ''| NAME ALREADY REGISTERED!! |'' @
     nl @ tab @ ''*---------------------------*'' @ nl"

definition record_found :: string where
  "record_found = nl @ tab @ ''*----------------*'' @ nl @ tab @ ''| RECORD FOUND!! |'' @ nl @ tab @ ''*----------------*'' @
     nl @ nl @ tab @ ''Name: ''"

definition changed_data :: string where
  "changed_data = nl @ tab @ ''*----------------*'' @ nl @ tab @ ''| CHANGED DATA!! |'' @ nl @ tab @ ''*----------------*''"

definition phone_label :: string where
  "phone_label = tab @ ''Phone: ''"

definition getPhones :: "'a terminal_scheme \<Rightarrow> ('a terminal_scheme \<times> int option) run" where
  "getPhones s = scan_int (say (nl @ tab @ ''Enter phone number: '') s)"

fun inserir :: "arvore \<Rightarrow> string \<Rightarrow> 'a terminal_scheme \<Rightarrow> (arvore \<times> 'a terminal_scheme) run" where
  "inserir Leaf w s =
     bnd (fits 100 w) (\<lambda>_. bnd (getPhones s) (\<lambda>(s, n). bnd (need n) (\<lambda>n.
     ok (Node Leaf \<lparr>Nome = w, telefone = n\<rparr> Leaf, s))))"
| "inserir (Node esq c dir) w s =
     (if strcasecmp (Nome c) w > 0 then bnd (inserir esq w s) (\<lambda>(t, s). ok (Node t c dir, s))
      else if strcasecmp (Nome c) w < 0 then bnd (inserir dir w s) (\<lambda>(t, s). ok (Node esq c t, s))
      else if strcmp (Nome c) w = 0 then ok (Node esq c dir, say already_registered s)
      else ok (Node esq c dir, s))"

fun ordem :: "arvore \<Rightarrow> string" where
  "ordem Leaf = []"
| "ordem (Node esq c dir) =
     ordem esq @ nl @ tab @ ''Name: '' @ Nome c @ phone_label @ dec (telefone c) @ ordem dir"

fun busca_contato :: "arvore \<Rightarrow> string \<Rightarrow> string" where
  "busca_contato Leaf w = name_not_found"
| "busca_contato (Node esq c dir) w =
     (if strcasecmp (Nome c) w > 0 then busca_contato esq w
      else if strcasecmp (Nome c) w < 0 then busca_contato dir w
      else if strcmp (Nome c) w = 0 then record_found @ Nome c @ phone_label @ dec (telefone c)
      else [])"

fun alterar :: "arvore \<Rightarrow> string \<Rightarrow> 'a terminal_scheme \<Rightarrow> (arvore \<times> 'a terminal_scheme) run" where
  "alterar Leaf w s = ok (Leaf, say name_not_found_alterar s)"
| "alterar (Node esq c dir) w s =
     (if strcasecmp (Nome c) w > 0 then bnd (alterar esq w s) (\<lambda>(t, s). ok (Node t c dir, s))
      else if strcasecmp (Nome c) w < 0 then bnd (alterar dir w s) (\<lambda>(t, s). ok (Node esq c t, s))
      else if strcmp (Nome c) w = 0 then
        bnd (scan_int (say (record_found @ Nome c @ phone_label) s)) (\<lambda>(s, n). bnd (need n) (\<lambda>n.
        ok (Node esq (c\<lparr>telefone := n\<rparr>) dir, say changed_data s)))
      else ok (Node esq c dir, s))"

text \<open>
  \<open>maior_esq\<close> and \<open>menor_dir\<close> return the place of the rightmost node of the left subtree and
  of the leftmost node of the right one; here they are called on that subtree and return the node
  there together with the subtree without it, which is what \<open>excluir\<close> assigns to the place.
\<close>

fun maior_esq :: "arvore \<Rightarrow> (contato \<times> arvore) run" where
  "maior_esq Leaf = fail Null_Deref"
| "maior_esq (Node esq c dir) =
     (if dir \<noteq> Leaf then bnd (maior_esq dir) (\<lambda>(m, t). ok (m, Node esq c t)) else ok (c, esq))"

fun menor_dir :: "arvore \<Rightarrow> (contato \<times> arvore) run" where
  "menor_dir Leaf = fail Null_Deref"
| "menor_dir (Node esq c dir) =
     (if esq \<noteq> Leaf then bnd (menor_dir esq) (\<lambda>(m, t). ok (m, Node t c dir)) else ok (c, dir))"

fun excluir :: "arvore \<Rightarrow> string \<Rightarrow> 'a terminal_scheme \<Rightarrow> (arvore \<times> 'a terminal_scheme) run" where
  "excluir Leaf w s = ok (Leaf, say name_not_found s)"
| "excluir (Node esq c dir) w s =
     (if strcasecmp (Nome c) w = 0 then
        if esq = Leaf \<and> dir = Leaf then ok (Leaf, s)
        else if esq \<noteq> Leaf then bnd (maior_esq esq) (\<lambda>(m, t). ok (Node t (c\<lparr>Nome := Nome m\<rparr>) dir, s))
        else bnd (menor_dir dir) (\<lambda>(m, t). ok (Node esq (c\<lparr>Nome := Nome m\<rparr>) t, s))
      else if strcasecmp w (Nome c) < 0 then bnd (excluir esq w s) (\<lambda>(t, s). ok (Node t c dir, s))
      else bnd (excluir dir w s) (\<lambda>(t, s). ok (Node esq c t, s)))"

section \<open>The program\<close>

record agenda = terminal +
  raiz :: arvore
  num :: "int option"
  opcao :: string

definition agenda_menu :: string where
  "agenda_menu = nl @ nl @ tab @ ''     *-----------*'' @ nl @ tab @ ''     | PHONEBOOK |'' @
     nl @ tab @ ''|---------------------|'' @ nl @ tab @ ''| 1 - Insert Contacts |'' @
     nl @ tab @ ''|---------------------|'' @ nl @ tab @ ''| 2 - Print Contacts  |'' @
     nl @ tab @ ''|---------------------|'' @ nl @ tab @ ''| 3 - Search Contacts |'' @
     nl @ tab @ ''|---------------------|'' @ nl @ tab @ ''| 4 - Remove Contact  |'' @
     nl @ tab @ ''|---------------------|'' @ nl @ tab @ ''| 5 - Change Contact  |'' @
     nl @ tab @ ''|---------------------|'' @ nl @ tab @ ''| 6 - Exit            |'' @
     nl @ tab @ ''*---------------------*'' @ nl @ tab @ ''Enter: ''"

definition menu :: "agenda \<Rightarrow> agenda run" where
  "menu s = bnd (scan_int (say agenda_menu s)) (\<lambda>(s, n).
     ok (getchar (case n of None \<Rightarrow> s | Some x \<Rightarrow> s\<lparr>num := Some x\<rparr>)))"

definition getNames :: "agenda \<Rightarrow> (agenda \<times> string) run" where
  "getNames s = bnd (scan_line (say (nl @ tab @ ''Enter the name: '') s)) (\<lambda>(s, w).
     bnd (fits 100 w) (\<lambda>_. ok (s, maiuscula (until_nul w))))"

text \<open>\<open>scanf(" %s", &op)\<close> into \<open>char op[2]\<close>, and the tests of its first character.\<close>

definition ask_continue :: "string \<Rightarrow> agenda \<Rightarrow> agenda run" where
  "ask_continue text s = bnd (scan_word (say (text @ ''Do you want to continue (y)es or (n)o: '') s)) (\<lambda>(s, w).
     bnd (fits 2 w) (\<lambda>_. ok (s\<lparr>opcao := w\<rparr>)))"

definition yes :: "agenda \<Rightarrow> bool" where
  "yes s \<longleftrightarrow> opcao s = ''y'' \<or> opcao s = ''Y''"

definition no :: "agenda \<Rightarrow> bool" where
  "no s \<longleftrightarrow> opcao s = ''n'' \<or> opcao s = ''N''"

definition again :: "agenda \<Rightarrow> (agenda + agenda) run" where
  "again s = ok (if yes s then Inl s else Inr s)"

definition banner :: "string \<Rightarrow> string \<Rightarrow> string" where
  "banner line text = nl @ nl @ tab @ line @ nl @ tab @ text @ nl @ tab @ line"

definition insert_contacts :: "agenda \<Rightarrow> agenda run" where
  "insert_contacts = loop (\<lambda>s.
     bnd (getNames (say (banner ''*-------------------*'' ''|  INSERT CONTACTS  |'' @ nl) s)) (\<lambda>(s, Nome).
     bnd (inserir (raiz s) Nome s) (\<lambda>(t, s).
     bnd (ask_continue (nl @ tab) (s\<lparr>raiz := t\<rparr>)) (\<lambda>s.
     bnd (if no s then menu s else ok s) again))))"

text \<open>The choice 2 ends the program (\<open>Inr\<close>) when the answer is not yes.\<close>

definition print_contacts :: "agenda \<Rightarrow> (agenda + agenda) run" where
  "print_contacts s =
     bnd (ask_continue (nl @ nl @ tab)
       (if raiz s = Leaf then say (banner ''*------------------------*'' ''|  CONTACTS NOT FOUND!!  |'') s
        else say (ordem (raiz s)) (say (banner ''*-----------------*'' ''|  VIEW CONTACTS  |'' @ nl) s))) (\<lambda>s.
     if yes s then bnd (menu s) (\<lambda>s. ok (Inl s)) else ok (Inr s))"

definition search_contact :: "agenda \<Rightarrow> agenda run" where
  "search_contact = loop (\<lambda>s.
     bnd (getNames (say (banner ''*------------------*'' ''|  SEARCH CONTACT  |'' @ nl) s)) (\<lambda>(s, Nome).
     bnd (ask_continue (nl @ nl @ tab) (say (busca_contato (raiz s) Nome) s)) (\<lambda>s.
     bnd (if no s then menu s else ok s) again)))"

definition remove_contact :: "agenda \<Rightarrow> agenda run" where
  "remove_contact = loop (\<lambda>s.
     bnd (getNames (say (banner ''*------------------*'' ''|  REMOVE CONTACT  |'' @ nl) s)) (\<lambda>(s, Nome).
     bnd (ask_continue (nl @ nl @ tab) (say (busca_contato (raiz s) Nome) s)) (\<lambda>s.
     bnd (if no s then menu s
          else
            bnd (excluir (raiz s) Nome s) (\<lambda>(t, s).
            bnd (ask_continue (nl @ nl @ tab)
              (say (banner ''*-------------------*'' ''|  CONTACT REMOVED  |'' @ nl) (s\<lparr>raiz := t\<rparr>))) (\<lambda>s.
            if no s then menu s else ok s))) again)))"

definition alter_contact :: "agenda \<Rightarrow> agenda run" where
  "alter_contact = loop (\<lambda>s.
     bnd (getNames (say (banner ''*-----------------*'' ''|  ALTER CONTACT  |'' @ nl) s)) (\<lambda>(s, Nome).
     bnd (ask_continue (nl @ nl @ tab) (say (busca_contato (raiz s) Nome) s)) (\<lambda>s.
     if yes s then
       bnd (alterar (raiz s) Nome s) (\<lambda>(t, s).
       bnd (ask_continue (nl @ nl @ tab) (s\<lparr>raiz := t\<rparr>)) (\<lambda>s.
       bnd (if no s then menu s else ok s) (\<lambda>s. ok (Inr s))))
     else bnd (menu s) again)))"

definition agenda_turn :: "agenda \<Rightarrow> (agenda + agenda) run" where
  "agenda_turn s =
     bnd (need (num s)) (\<lambda>n.
     if n = 6 then ok (Inr s)
     else if n = 1 then bnd (insert_contacts s) (\<lambda>s. ok (Inl s))
     else if n = 2 then print_contacts s
     else if n = 3 then bnd (search_contact s) (\<lambda>s. ok (Inl s))
     else if n = 4 then bnd (remove_contact s) (\<lambda>s. ok (Inl s))
     else if n = 5 then bnd (alter_contact s) (\<lambda>s. ok (Inl s))
     else ok (Inl s))"

definition agenda_main :: "string \<Rightarrow> agenda run" where
  "agenda_main input =
     bnd (menu \<lparr>tin = input, tout = [], raiz = Leaf, num = None, opcao = []\<rparr>) (loop agenda_turn)"

section \<open>The order of names\<close>

definition plain :: "string \<Rightarrow> bool" where
  "plain w \<longleftrightarrow> list_all (\<lambda>c. code c \<noteq> 0 \<and> \<not> (97 \<le> code c \<and> code c \<le> 122)) w"

lemma code_nonneg [simp]: "0 \<le> code c"
  unfolding code_def by (metis of_nat_of_char of_nat_0_le_iff)

lemma code_inj: "code c = code d \<Longrightarrow> c = d"
  by (simp add: code_def)

lemma to_lower_nonneg [simp]: "0 \<le> to_lower c"
  by (simp add: to_lower_def)

lemma strcasecmp_swap: "strcasecmp a b = - strcasecmp b a"
  by (induction a b rule: strcasecmp.induct) auto

lemma strcasecmp_trans: "strcasecmp a b < 0 \<Longrightarrow> strcasecmp b c < 0 \<Longrightarrow> strcasecmp a c < 0"
proof (induction a b arbitrary: c rule: strcasecmp.induct)
  case (2 y ys)
  then show ?case by (cases c) (auto split: if_splits intro: le_neq_trans)
next
  case (3 x xs)
  then show ?case using to_lower_nonneg [of x] by simp
next
  case (4 x xs y ys)
  from 4(3) obtain z zs where c: "c = z # zs"
    using to_lower_nonneg [of y] by (cases c) auto
  show ?case
  proof (cases "to_lower x = to_lower y \<and> to_lower y = to_lower z")
    case True
    with 4 c show ?thesis by auto
  next
    case False
    with 4(2,3) c show ?thesis by (auto split: if_splits)
  qed
qed simp

lemma strcasecmp_self [simp]: "strcasecmp a a = 0"
  by (induction a) auto

lemma strcmp_self [simp]: "strcmp a a = 0"
  by (induction a) auto

lemma strcasecmp_eq: "plain a \<Longrightarrow> plain b \<Longrightarrow> strcasecmp a b = 0 \<longleftrightarrow> a = b"
proof (induction a b rule: strcasecmp.induct)
  case (4 x xs y ys)
  have "to_lower x = to_lower y \<longleftrightarrow> x = y"
    using 4(2,3) code_inj [of x y] by (auto simp: plain_def to_lower_def)
  with 4 show ?case by (auto simp: plain_def)
qed (auto simp: plain_def to_lower_def)



section \<open>The telephone book a tree stands for\<close>

abbreviation name_less :: "contato \<Rightarrow> contato \<Rightarrow> bool" where
  "name_less a b \<equiv> strcasecmp (Nome a) (Nome b) < 0"

fun agenda_ok :: "arvore \<Rightarrow> bool" where
  "agenda_ok Leaf \<longleftrightarrow> True"
| "agenda_ok (Node l c r) \<longleftrightarrow> agenda_ok l \<and> agenda_ok r \<and> plain (Nome c) \<and>
     (\<forall>x \<in> set_tree l. name_less x c) \<and> (\<forall>x \<in> set_tree r. name_less c x)"

fun book :: "arvore \<Rightarrow> string \<Rightarrow> int option" where
  "book Leaf w = None"
| "book (Node l c r) w = (if w = Nome c then Some (telefone c) else case book l w of None \<Rightarrow> book r w | Some n \<Rightarrow> Some n)"

lemma book_None: "book t w = None \<longleftrightarrow> w \<notin> Nome ` set_tree t"
  by (induction t) (auto split: option.split)

lemma dom_book: "dom (book t) = Nome ` set_tree t"
  by (rule set_eqI) (simp add: domIff book_None)

lemma book_left:
  "agenda_ok (Node l c r) \<Longrightarrow> strcasecmp (Nome c) w > 0 \<Longrightarrow> book (Node l c r) w = book l w"
proof -
  assume ok: "agenda_ok (Node l c r)" and w: "strcasecmp (Nome c) w > 0"
  have "w \<noteq> Nome x" if "x \<in> set_tree r" for x
    using ok that w strcasecmp_swap [of "Nome c" w] by auto
  then have "book r w = None" by (auto simp: book_None)
  moreover have "w \<noteq> Nome c" using w by auto
  ultimately show ?thesis by (simp split: option.split)
qed

lemma book_right:
  "agenda_ok (Node l c r) \<Longrightarrow> strcasecmp (Nome c) w < 0 \<Longrightarrow> book (Node l c r) w = book r w"
proof -
  assume ok: "agenda_ok (Node l c r)" and w: "strcasecmp (Nome c) w < 0"
  have "w \<noteq> Nome x" if "x \<in> set_tree l" for x
    using ok that w strcasecmp_swap [of "Nome c" w] by auto
  then have "book l w = None" by (auto simp: book_None)
  moreover have "w \<noteq> Nome c" using w by auto
  ultimately show ?thesis by simp
qed

lemma book_here: "agenda_ok (Node l c r) \<Longrightarrow> plain w \<Longrightarrow> strcasecmp (Nome c) w = 0 \<Longrightarrow> Nome c = w"
  using strcasecmp_eq by simp

lemma book_side:
  assumes "agenda_ok (Node l c r)"
  shows "book l w \<noteq> None \<Longrightarrow> strcasecmp w (Nome c) < 0" "book r w \<noteq> None \<Longrightarrow> strcasecmp (Nome c) w < 0"
  using assms by (auto simp: book_None)

lemma book_upd_left:
  assumes "agenda_ok (Node l c r)" "strcasecmp (Nome c) w > 0" "book l' = (book l)(w := x)"
  shows "book (Node l' c r) = (book (Node l c r))(w := x)"
  using assms(2,3) book_side(2) [OF assms(1), of w] strcasecmp_swap [of w "Nome c"]
  by (intro ext) (cases "book r w", auto split: option.splits)

lemma book_upd_right:
  assumes "agenda_ok (Node l c r)" "strcasecmp (Nome c) w < 0" "book r' = (book r)(w := x)"
  shows "book (Node l c r') = (book (Node l c r))(w := x)"
  using assms(2,3) book_side(1) [OF assms(1), of w] strcasecmp_swap [of w "Nome c"]
  by (intro ext) (cases "book l w", auto split: option.splits)

lemma agenda_set_names: "agenda_ok t \<Longrightarrow> c \<in> set_tree t \<Longrightarrow> plain (Nome c)"
  by (induction t) auto

lemma busca_contato_book:
  assumes "plain w"
  shows "agenda_ok t \<Longrightarrow> busca_contato t w = (case book t w of None \<Rightarrow> name_not_found
    | Some n \<Rightarrow> record_found @ w @ phone_label @ dec n)"
proof (induction t)
  case (Node l c r)
  consider "strcasecmp (Nome c) w > 0" | "strcasecmp (Nome c) w < 0" | "Nome c = w"
    using book_here [OF Node.prems assms] by fastforce
  then show ?case
    using Node book_left [OF Node.prems] book_right [OF Node.prems]
    by cases (simp_all del: book.simps(2), simp)
qed simp

lemma inserir_new:
  assumes "plain w" "length w < 100" "getPhones s = ok (s', Some n)"
  shows "agenda_ok t \<Longrightarrow> book t w = None \<Longrightarrow> \<exists>t'. inserir t w s = ok (t', s') \<and> agenda_ok t' \<and>
    book t' = (book t)(w \<mapsto> n) \<and> Nome ` set_tree t' = insert w (Nome ` set_tree t)"
proof (induction t)
  case Leaf
  with assms show ?case by (auto simp: need_def fits_def)
next
  case (Node l c r)
  note ok = Node.prems(1)
  consider (left) "strcasecmp (Nome c) w > 0" | (right) "strcasecmp (Nome c) w < 0" | (here) "Nome c = w"
    using book_here [OF ok assms(1)] by fastforce
  then show ?case
  proof cases
    case left
    obtain l' where l': "inserir l w s = ok (l', s')" "agenda_ok l'"
        "book l' = (book l)(w \<mapsto> n)" "Nome ` set_tree l' = insert w (Nome ` set_tree l)"
      using Node.IH(1) ok Node.prems(2) [unfolded book_left [OF ok left]] by (auto simp: fun_upd_def)
    have "strcasecmp (Nome x) (Nome c) < 0" if "x \<in> set_tree l'" for x
    proof -
      have "Nome x \<in> insert w (Nome ` set_tree l)" using that l'(4) by auto
      then show ?thesis using ok left strcasecmp_swap [of w "Nome c"] by auto
    qed
    with l' ok have ok': "agenda_ok (Node l' c r)" by simp
    have "book (Node l' c r) = (book (Node l c r))(w \<mapsto> n)"
      by (rule book_upd_left [OF ok left l'(3)])
    with l' left ok' show ?thesis by auto
  next
    case right
    obtain r' where r': "inserir r w s = ok (r', s')" "agenda_ok r'"
        "book r' = (book r)(w \<mapsto> n)" "Nome ` set_tree r' = insert w (Nome ` set_tree r)"
      using Node.IH(2) ok Node.prems(2) [unfolded book_right [OF ok right]] by (auto simp: fun_upd_def)
    have "strcasecmp (Nome c) (Nome x) < 0" if "x \<in> set_tree r'" for x
    proof -
      have "Nome x \<in> insert w (Nome ` set_tree r)" using that r'(4) by auto
      then show ?thesis using ok right by auto
    qed
    with r' ok have ok': "agenda_ok (Node l c r')" by simp
    have "book (Node l c r') = (book (Node l c r))(w \<mapsto> n)"
      by (rule book_upd_right [OF ok right r'(3)])
    with r' right ok' show ?thesis by auto
  next
    case here
    with Node.prems(2) show ?thesis by simp
  qed
qed

lemma inserir_known:
  assumes "plain w"
  shows "agenda_ok t \<Longrightarrow> book t w \<noteq> None \<Longrightarrow> inserir t w s = ok (t, say already_registered s)"
proof (induction t)
  case (Node l c r)
  note ok = Node.prems(1)
  consider (left) "strcasecmp (Nome c) w > 0" | (right) "strcasecmp (Nome c) w < 0" | (here) "Nome c = w"
    using book_here [OF ok assms] by fastforce
  then show ?case
  proof cases
    case left
    with Node.IH(1) ok Node.prems(2) [unfolded book_left [OF ok left]] show ?thesis by simp
  next
    case right
    with Node.IH(2) ok Node.prems(2) [unfolded book_right [OF ok right]] show ?thesis by simp
  qed simp
qed simp

text \<open>Changing and removing entries keep the names that are there.\<close>

lemma agenda_ok_names:
  "agenda_ok (Node l c r) \<Longrightarrow> agenda_ok l' \<Longrightarrow> agenda_ok r' \<Longrightarrow> Nome ` set_tree l' \<subseteq> Nome ` set_tree l \<Longrightarrow>
   Nome ` set_tree r' \<subseteq> Nome ` set_tree r \<Longrightarrow> Nome c' = Nome c \<Longrightarrow> agenda_ok (Node l' c' r')"
  by (simp add: subset_iff) (metis image_eqI imageE)

lemma alterar_book:
  assumes "plain w"
  shows "agenda_ok t \<Longrightarrow> book t w = Some k \<Longrightarrow>
    scan_int (say (record_found @ w @ phone_label) s) = ok (s', Some n) \<Longrightarrow>
    \<exists>t'. alterar t w s = ok (t', say changed_data s') \<and> agenda_ok t' \<and> book t' = (book t)(w \<mapsto> n) \<and>
      Nome ` set_tree t' = Nome ` set_tree t"
proof (induction t)
  case (Node l c r)
  note ok = Node.prems(1)
  consider (left) "strcasecmp (Nome c) w > 0" | (right) "strcasecmp (Nome c) w < 0" | (here) "Nome c = w"
    using book_here [OF ok assms] by fastforce
  then show ?case
  proof cases
    case left
    obtain l' where l': "alterar l w s = ok (l', say changed_data s')" "agenda_ok l'"
        "book l' = (book l)(w \<mapsto> n)" "Nome ` set_tree l' = Nome ` set_tree l"
      using Node.IH(1) ok Node.prems(2) [unfolded book_left [OF ok left]] Node.prems(3) by (auto simp: fun_upd_def)
    have "book (Node l' c r) = (book (Node l c r))(w \<mapsto> n)"
      by (rule book_upd_left [OF ok left l'(3)])
    moreover have "agenda_ok (Node l' c r)"
      by (rule agenda_ok_names [OF ok l'(2)]) (use ok l'(4) in auto)
    ultimately show ?thesis using l' left by (auto simp: image_Un)
  next
    case right
    obtain r' where r': "alterar r w s = ok (r', say changed_data s')" "agenda_ok r'"
        "book r' = (book r)(w \<mapsto> n)" "Nome ` set_tree r' = Nome ` set_tree r"
      using Node.IH(2) ok Node.prems(2) [unfolded book_right [OF ok right]] Node.prems(3) by (auto simp: fun_upd_def)
    have "book (Node l c r') = (book (Node l c r))(w \<mapsto> n)"
      by (rule book_upd_right [OF ok right r'(3)])
    moreover have "agenda_ok (Node l c r')"
      by (rule agenda_ok_names [OF ok]) (use ok r' in auto)
    ultimately show ?thesis using r' right by (auto simp: image_Un)
  next
    case here
    have "agenda_ok (Node l (c\<lparr>telefone := n\<rparr>) r)"
      by (rule agenda_ok_names [OF ok]) (use ok in auto)
    moreover have "book (Node l (c\<lparr>telefone := n\<rparr>) r) = (book (Node l c r))(w \<mapsto> n)"
      using here by (intro ext) auto
    ultimately show ?thesis using here Node.prems(3) by (auto simp: need_def)
  qed
qed simp

lemma alterar_unknown:
  assumes "plain w"
  shows "agenda_ok t \<Longrightarrow> book t w = None \<Longrightarrow> alterar t w s = ok (t, say name_not_found_alterar s)"
proof (induction t)
  case (Node l c r)
  note ok = Node.prems(1)
  consider (left) "strcasecmp (Nome c) w > 0" | (right) "strcasecmp (Nome c) w < 0" | (here) "Nome c = w"
    using book_here [OF ok assms] by fastforce
  then show ?case
  proof cases
    case left
    with Node.IH(1) ok Node.prems(2) [unfolded book_left [OF ok left]] show ?thesis by simp
  next
    case right
    with Node.IH(2) ok Node.prems(2) [unfolded book_right [OF ok right]] show ?thesis by simp
  next
    case here
    with Node.prems(2) show ?thesis by simp
  qed
qed simp

text \<open>
  Removing: the greatest entry of a subtree and the least one come off it, and are the
  neighbours of the entry above.
\<close>

lemma maior_esq_book:
  "agenda_ok t \<Longrightarrow> t \<noteq> Leaf \<Longrightarrow> \<exists>m t'. maior_esq t = ok (m, t') \<and> m = last (inorder t) \<and> m \<in> set_tree t \<and>
     agenda_ok t' \<and> set_tree t' \<subseteq> set_tree t \<and> (\<forall>x \<in> set_tree t'. name_less x m) \<and> book t' = (book t)(Nome m := None)"
proof (induction t)
  case (Node l c r)
  note ok = Node.prems(1)
  show ?case
  proof (cases "r = Leaf")
    case True
    have "book l (Nome c) = None" using ok by (auto simp: book_None)
    with True ok show ?thesis by (auto simp: fun_eq_iff split: option.split)
  next
    case False
    have "\<exists>m t'. maior_esq r = ok (m, t') \<and> m = last (inorder r) \<and> m \<in> set_tree r \<and>
      agenda_ok t' \<and> set_tree t' \<subseteq> set_tree r \<and> (\<forall>x \<in> set_tree t'. name_less x m) \<and> book t' = (book r)(Nome m := None)"
      by (rule Node.IH(2)) (use ok False in auto)
    then obtain m t' where m: "maior_esq r = ok (m, t')" "m = last (inorder r)" "m \<in> set_tree r"
      "agenda_ok t'" "set_tree t' \<subseteq> set_tree r" "\<forall>x \<in> set_tree t'. name_less x m" "book t' = (book r)(Nome m := None)"
      by blast
    have cm: "name_less c m" using ok m(3) by simp
    have "name_less x m" if "x \<in> set_tree l" for x
      using ok cm that strcasecmp_trans [of "Nome x" "Nome c" "Nome m"] by auto
    then have "\<forall>x \<in> set_tree (Node l c t'). name_less x m" using m(6) cm by auto
    moreover have "book (Node l c t') = (book (Node l c r))(Nome m := None)"
      by (rule book_upd_right [OF ok cm m(7)])
    moreover have "agenda_ok (Node l c t')" using ok m(4,5) by auto
    moreover have "maior_esq (Node l c r) = ok (m, Node l c t')" using m(1) False by simp
    moreover have "m = last (inorder (Node l c r))" using m(2) False by simp
    moreover have "set_tree (Node l c t') \<subseteq> set_tree (Node l c r)" "m \<in> set_tree (Node l c r)" using m(3,5) by auto
    ultimately show ?thesis by blast
  qed
qed simp

lemma menor_dir_book:
  "agenda_ok t \<Longrightarrow> t \<noteq> Leaf \<Longrightarrow> \<exists>m t'. menor_dir t = ok (m, t') \<and> m = hd (inorder t) \<and> m \<in> set_tree t \<and>
     agenda_ok t' \<and> set_tree t' \<subseteq> set_tree t \<and> (\<forall>x \<in> set_tree t'. name_less m x) \<and> book t' = (book t)(Nome m := None)"
proof (induction t)
  case (Node l c r)
  note ok = Node.prems(1)
  show ?case
  proof (cases "l = Leaf")
    case True
    have "book r (Nome c) = None" using ok by (auto simp: book_None)
    with True ok show ?thesis by (auto simp: fun_eq_iff split: option.split)
  next
    case False
    have "\<exists>m t'. menor_dir l = ok (m, t') \<and> m = hd (inorder l) \<and> m \<in> set_tree l \<and>
      agenda_ok t' \<and> set_tree t' \<subseteq> set_tree l \<and> (\<forall>x \<in> set_tree t'. name_less m x) \<and> book t' = (book l)(Nome m := None)"
      by (rule Node.IH(1)) (use ok False in auto)
    then obtain m t' where m: "menor_dir l = ok (m, t')" "m = hd (inorder l)" "m \<in> set_tree l"
      "agenda_ok t'" "set_tree t' \<subseteq> set_tree l" "\<forall>x \<in> set_tree t'. name_less m x" "book t' = (book l)(Nome m := None)"
      by blast
    have mc: "name_less m c" using ok m(3) by simp
    have "name_less m x" if "x \<in> set_tree r" for x
      using ok mc that strcasecmp_trans [of "Nome m" "Nome c" "Nome x"] by auto
    then have "\<forall>x \<in> set_tree (Node t' c r). name_less m x" using m(6) mc by auto
    moreover have "book (Node t' c r) = (book (Node l c r))(Nome m := None)"
      using strcasecmp_swap [of "Nome c" "Nome m"] mc by (intro book_upd_left [OF ok _ m(7)]) simp
    moreover have "agenda_ok (Node t' c r)" using ok m(4,5) by auto
    moreover have "menor_dir (Node l c r) = ok (m, Node t' c r)" using m(1) False by simp
    moreover have "m = hd (inorder (Node l c r))" using m(2) False by simp
    moreover have "set_tree (Node t' c r) \<subseteq> set_tree (Node l c r)" "m \<in> set_tree (Node l c r)" using m(3,5) by auto
    ultimately show ?thesis by blast
  qed
qed simp

text \<open>The name of the entry that takes the place of \<open>w\<close>, if the node of \<open>w\<close> has a child.\<close>

fun heir :: "arvore \<Rightarrow> string \<Rightarrow> string option" where
  "heir Leaf w = None"
| "heir (Node l c r) w =
     (if strcasecmp (Nome c) w > 0 then heir l w
      else if strcasecmp (Nome c) w < 0 then heir r w
      else if l \<noteq> Leaf then Some (Nome (last (inorder l)))
      else if r \<noteq> Leaf then Some (Nome (hd (inorder r)))
      else None)"

definition inherit :: "string option \<Rightarrow> int \<Rightarrow> (string \<Rightarrow> int option) \<Rightarrow> string \<Rightarrow> int option" where
  "inherit h n b = (case h of None \<Rightarrow> b | Some m \<Rightarrow> b(m \<mapsto> n))"

lemma book_cases:
  assumes "agenda_ok (Node l c r)"
  shows "book (Node l c r) u = (if strcasecmp (Nome c) u > 0 then book l u
    else if strcasecmp (Nome c) u < 0 then book r u else if u = Nome c then Some (telefone c) else None)"
  using book_left [OF assms, of u] book_right [OF assms, of u] book_side [OF assms, of u] strcasecmp_swap [of u "Nome c"]
  by (cases "book l u"; cases "book r u") (auto simp del: book.simps(2), auto)

lemma heir_name:
  "agenda_ok t \<Longrightarrow> heir t w = Some m \<Longrightarrow> m \<in> Nome ` set_tree t"
proof (induction t)
  case (Node l c r)
  have "l \<noteq> Leaf \<Longrightarrow> last (inorder l) \<in> set_tree l" "r \<noteq> Leaf \<Longrightarrow> hd (inorder r) \<in> set_tree r"
    by (metis last_in_set set_inorder eq_inorder_Nil) (metis eq_inorder_Nil hd_in_set set_inorder)
  with Node show ?case by (auto split: if_splits)
qed simp

lemma excluir_here:
  assumes ok: "agenda_ok (Node l c r)"
  shows "\<exists>t'. excluir (Node l c r) (Nome c) s = ok (t', s) \<and> agenda_ok t' \<and> Nome ` set_tree t' \<subseteq> Nome ` set_tree (Node l c r) \<and>
    book t' = inherit (heir (Node l c r) (Nome c)) (telefone c) ((book (Node l c r))(Nome c := None))"
proof -
  have none: "book l (Nome c) = None" "book r (Nome c) = None"
    using ok by (auto simp: book_None)
  consider (leaf) "l = Leaf" "r = Leaf" | (left) "l \<noteq> Leaf" | (right) "l = Leaf" "r \<noteq> Leaf" by blast
  then show ?thesis
  proof cases
    case leaf
    then show ?thesis by (auto simp: inherit_def)
  next
    case left
    from maior_esq_book [OF _ left] ok obtain m t where m: "maior_esq l = ok (m, t)" "m = last (inorder l)" "m \<in> set_tree l"
      "agenda_ok t" "set_tree t \<subseteq> set_tree l" "\<forall>x \<in> set_tree t. name_less x m" "book t = (book l)(Nome m := None)"
      by (metis agenda_ok.simps(2))
    let ?t = "Node t (c\<lparr>Nome := Nome m\<rparr>) r"
    have mc: "name_less m c" "plain (Nome m)" using ok m(3) agenda_set_names by auto
    have "name_less m x" if "x \<in> set_tree r" for x
      using ok that strcasecmp_trans [OF mc(1)] by auto
    then have "agenda_ok ?t" using m(4,6) mc(2) ok by simp
    moreover have "book ?t = (book (Node l c r))(Nome c := None, Nome m \<mapsto> telefone c)"
      by (rule ext) (use m(7) none mc(1) in \<open>auto split: option.split\<close>)
    moreover have "Nome ` set_tree ?t \<subseteq> Nome ` set_tree (Node l c r)" using m(3,5) by auto
    moreover have "excluir (Node l c r) (Nome c) s = ok (?t, s)" using m(1) left by simp
    moreover have "heir (Node l c r) (Nome c) = Some (Nome m)" using m(2) left by simp
    ultimately show ?thesis by (intro exI [of _ ?t] conjI) (simp_all only: inherit_def option.case)
  next
    case right
    from menor_dir_book [OF _ right(2)] ok obtain m t where m: "menor_dir r = ok (m, t)" "m = hd (inorder r)" "m \<in> set_tree r"
      "agenda_ok t" "set_tree t \<subseteq> set_tree r" "\<forall>x \<in> set_tree t. name_less m x" "book t = (book r)(Nome m := None)"
      by (metis agenda_ok.simps(2))
    let ?t = "Node Leaf (c\<lparr>Nome := Nome m\<rparr>) t"
    have mc: "name_less c m" "plain (Nome m)" using ok m(3) agenda_set_names by auto
    have "agenda_ok ?t" using m(4,6) mc(2) by simp
    moreover have "book ?t = (book (Node l c r))(Nome c := None, Nome m \<mapsto> telefone c)"
      by (rule ext) (use m(7) none mc(1) right(1) in \<open>auto split: option.split\<close>)
    moreover have "Nome ` set_tree ?t \<subseteq> Nome ` set_tree (Node l c r)" using m(3,5) by auto
    moreover have "excluir (Node l c r) (Nome c) s = ok (?t, s)" using m(1) right by simp
    moreover have "heir (Node l c r) (Nome c) = Some (Nome m)" using m(2) right by simp
    ultimately show ?thesis by (intro exI [of _ ?t] conjI) (simp_all only: inherit_def option.case)
  qed
qed

lemma excluir_book:
  assumes "plain w"
  shows "agenda_ok t \<Longrightarrow> book t w = Some n \<Longrightarrow> \<exists>t'. excluir t w s = ok (t', s) \<and> agenda_ok t' \<and>
    Nome ` set_tree t' \<subseteq> Nome ` set_tree t \<and> book t' = inherit (heir t w) n ((book t)(w := None))"
proof (induction t)
  case (Node l c r)
  note ok = Node.prems(1)
  consider (left) "strcasecmp (Nome c) w > 0" | (right) "strcasecmp (Nome c) w < 0" | (here) "Nome c = w"
    using book_here [OF ok assms] by fastforce
  then show ?case
  proof cases
    case left
    have "book l w = Some n" using Node.prems(2) book_left [OF ok left] by simp
    moreover have "agenda_ok l" using ok by simp
    ultimately obtain l' where l': "excluir l w s = ok (l', s)" "agenda_ok l'"
      "Nome ` set_tree l' \<subseteq> Nome ` set_tree l" "book l' = inherit (heir l w) n ((book l)(w := None))"
      using Node.IH(1) by blast
    have ok': "agenda_ok (Node l' c r)" by (rule agenda_ok_names [OF ok l'(2)]) (use ok l'(3) in auto)
    have h: "strcasecmp (Nome c) m > 0" if "heir l w = Some m" for m
      using heir_name [OF _ that] ok strcasecmp_swap [of m "Nome c"] by auto
    have "book (Node l' c r) u = inherit (heir l w) n ((book (Node l c r))(w := None)) u" for u
      using l'(4) h left
      by (cases "heir l w") (auto simp: inherit_def book_cases [OF ok] book_cases [OF ok'] simp del: book.simps(2))
    moreover have heir_left: "heir (Node l c r) w = heir l w" using left by simp
    ultimately have "book (Node l' c r) = inherit (heir (Node l c r) w) n ((book (Node l c r))(w := None))"
      using heir_left by (intro ext) (simp only:)
    moreover have "excluir (Node l c r) w s = ok (Node l' c r, s)"
      using l'(1) left strcasecmp_swap [of w "Nome c"] by simp
    moreover have "Nome ` set_tree (Node l' c r) \<subseteq> Nome ` set_tree (Node l c r)" using l'(3) by auto
    ultimately show ?thesis using ok' by blast
  next
    case right
    have "book r w = Some n" using Node.prems(2) book_right [OF ok right] by simp
    moreover have "agenda_ok r" using ok by simp
    ultimately obtain r' where r': "excluir r w s = ok (r', s)" "agenda_ok r'"
      "Nome ` set_tree r' \<subseteq> Nome ` set_tree r" "book r' = inherit (heir r w) n ((book r)(w := None))"
      using Node.IH(2) by blast
    have ok': "agenda_ok (Node l c r')" by (rule agenda_ok_names [OF ok _ r'(2)]) (use ok r'(3) in auto)
    have h: "strcasecmp (Nome c) m < 0" if "heir r w = Some m" for m
      using heir_name [OF _ that] ok by auto
    have "book (Node l c r') u = inherit (heir r w) n ((book (Node l c r))(w := None)) u" for u
      using r'(4) h right
      by (cases "heir r w") (auto simp: inherit_def book_cases [OF ok] book_cases [OF ok'] simp del: book.simps(2))
    moreover have heir_right: "heir (Node l c r) w = heir r w" using right by simp
    ultimately have "book (Node l c r') = inherit (heir (Node l c r) w) n ((book (Node l c r))(w := None))"
      using heir_right by (intro ext) (simp only:)
    moreover have "excluir (Node l c r) w s = ok (Node l c r', s)"
      using r'(1) right strcasecmp_swap [of w "Nome c"] by simp
    moreover have "Nome ` set_tree (Node l c r') \<subseteq> Nome ` set_tree (Node l c r)" using r'(3) by auto
    ultimately show ?thesis using ok' by blast
  next
    case here
    with Node.prems(2) have "n = telefone c" by simp
    then show ?thesis using excluir_here [OF ok] by (simp only: here \<open>n = telefone c\<close>)
  qed
qed simp

lemma excluir_unknown:
  assumes "plain w"
  shows "agenda_ok t \<Longrightarrow> book t w = None \<Longrightarrow> excluir t w s = ok (t, say name_not_found s)"
proof (induction t)
  case (Node l c r)
  note ok = Node.prems(1)
  consider (left) "strcasecmp (Nome c) w > 0" | (right) "strcasecmp (Nome c) w < 0" | (here) "Nome c = w"
    using book_here [OF ok assms] by fastforce
  then show ?case
  proof cases
    case left
    with Node.IH(1) ok Node.prems(2) [unfolded book_left [OF ok left]] strcasecmp_swap [of w "Nome c"]
    show ?thesis by simp
  next
    case right
    with Node.IH(2) ok Node.prems(2) [unfolded book_right [OF ok right]] strcasecmp_swap [of w "Nome c"]
    show ?thesis by simp
  next
    case here
    with Node.prems(2) show ?thesis by simp
  qed
qed simp

section \<open>Runs of the whole program\<close>

lemma agenda_say [simp]: "raiz (say t s) = raiz s" "num (say t s) = num s" "opcao (say t s) = opcao s"
  by (simp_all add: say_def)


text \<open>Every failure is one of reading: no operation touches a null or a deleted node.\<close>

definition input_errors :: "ub set" where
  "input_errors = {End_Of_Input, Signed_Overflow, Uninitialised, Out_Of_Bounds}"


lemma within_need [simp]: "within input_errors P (need x) \<longleftrightarrow> (\<forall>a. x = Some a \<longrightarrow> P a)"
  by (cases x) (simp_all add: need_def input_errors_def)

lemma within_fits [simp]: "within input_errors P (fits n w) \<longleftrightarrow> (length w < n \<longrightarrow> P ())"
  by (simp add: fits_def input_errors_def)




















lemma menu_reads:
  assumes "int_min \<le> n" "n \<le> int_max" "tin s = dec n @ nl @ rest"
  shows "menu s = ok ((say agenda_menu s)\<lparr>tin := rest, num := Some n\<rparr>)"
proof -
  have "\<not> is_digit (CHR 0x0A)" by (simp add: is_digit_def code_def)
  with assms scan_int_dec [of n "nl @ rest" "say agenda_menu s"] show ?thesis
    by (simp add: menu_def getchar_def say_def)
qed

section \<open>Properties\<close>

text \<open>
  C33: Inserting a name adds it with the number typed to the telephone book, or leaves the book alone
  and says so when the name is there already; the tree stays a search tree.
\<close>

theorem inserir_updates:
  assumes "agenda_ok t" "plain w" "length w < 100" "getPhones s = ok (s', Some n)"
  shows "\<exists>t' s''. inserir t w s = ok (t', s'') \<and> agenda_ok t' \<and>
    (if book t w = None then book t' = (book t)(w \<mapsto> n) \<and> s'' = s'
     else t' = t \<and> s'' = say already_registered s)"
proof (cases "book t w = None")
  case True
  with inserir_new [OF assms(2-4,1)] show ?thesis by fastforce
next
  case False
  with inserir_known [OF assms(2,1)] assms(1) show ?thesis by auto
qed

theorem inserir_updates_witness:
  "\<exists>t' s''. inserir (Node Leaf \<lparr>Nome = ''BIA'', telefone = 5\<rparr> Leaf) ''ANA'' \<lparr>tin = ''7'' @ nl, tout = []\<rparr> = ok (t', s'') \<and>
    agenda_ok t' \<and> (if book (Node Leaf \<lparr>Nome = ''BIA'', telefone = 5\<rparr> Leaf) ''ANA'' = None
      then book t' = (book (Node Leaf \<lparr>Nome = ''BIA'', telefone = 5\<rparr> Leaf))(''ANA'' \<mapsto> 7) \<and>
        s'' = \<lparr>tin = nl, tout = nl @ tab @ ''Enter phone number: ''\<rparr>
      else t' = Node Leaf \<lparr>Nome = ''BIA'', telefone = 5\<rparr> Leaf \<and>
        s'' = say already_registered \<lparr>tin = ''7'' @ nl, tout = []\<rparr>)"
  by (rule inserir_updates)
    (simp_all add: plain_def code_def getPhones_def scan_int_def is_space_def is_digit_def number_def i32_def say_def)

text \<open>
  Changing a name replaces its number by the one typed; for an absent name nothing changes and
  the program says that it was not found.
\<close>

theorem alterar_updates:
  assumes "agenda_ok t" "plain w" "scan_int (say (record_found @ w @ phone_label) s) = ok (s', Some n)"
  shows "\<exists>t' s''. alterar t w s = ok (t', s'') \<and> agenda_ok t' \<and>
    (if book t w = None then t' = t \<and> s'' = say name_not_found_alterar s
     else book t' = (book t)(w \<mapsto> n) \<and> s'' = say changed_data s')"
proof (cases "book t w")
  case None
  with alterar_unknown [OF assms(2,1), of s] assms(1) show ?thesis by auto
next
  case (Some k)
  with alterar_book [OF assms(2,1) Some assms(3)] show ?thesis by fastforce
qed

theorem alterar_updates_witness:
  "\<exists>t' s''. alterar (Node Leaf \<lparr>Nome = ''BIA'', telefone = 5\<rparr> Leaf) ''BIA'' \<lparr>tin = ''7'', tout = []\<rparr> = ok (t', s'') \<and>
    agenda_ok t' \<and> (if book (Node Leaf \<lparr>Nome = ''BIA'', telefone = 5\<rparr> Leaf) ''BIA'' = None
      then t' = Node Leaf \<lparr>Nome = ''BIA'', telefone = 5\<rparr> Leaf \<and> s'' = say name_not_found_alterar \<lparr>tin = ''7'', tout = []\<rparr>
      else book t' = (book (Node Leaf \<lparr>Nome = ''BIA'', telefone = 5\<rparr> Leaf))(''BIA'' \<mapsto> 7) \<and>
        s'' = say changed_data \<lparr>tin = [], tout = record_found @ ''BIA'' @ phone_label\<rparr>)"
  by (rule alterar_updates)
    (simp_all add: plain_def code_def scan_int_def is_space_def is_digit_def number_def i32_def say_def)

text \<open>
  Searching prints the number the book holds for the name, or that it was not found.
\<close>

theorem busca_contato_prints:
  assumes "agenda_ok t" "plain w"
  shows "busca_contato t w = (case book t w of None \<Rightarrow> name_not_found | Some n \<Rightarrow> record_found @ w @ phone_label @ dec n)"
  by (rule busca_contato_book [OF assms(2,1)])

theorem busca_contato_prints_witness:
  "busca_contato (Node Leaf \<lparr>Nome = ''BIA'', telefone = 5\<rparr> Leaf) ''BIA'' =
     (case book (Node Leaf \<lparr>Nome = ''BIA'', telefone = 5\<rparr> Leaf) ''BIA'' of None \<Rightarrow> name_not_found
      | Some n \<Rightarrow> record_found @ ''BIA'' @ phone_label @ dec n)"
  by (rule busca_contato_prints) (simp_all add: plain_def code_def)

text \<open>
  C32: Removing a name takes it out of the book and keeps a search tree, but when its node has a child
  the neighbour that takes its place (the greatest smaller name, or else the least greater one)
  is left with the telephone number of the removed name.
\<close>

theorem excluir_updates:
  assumes "agenda_ok t" "plain w"
  shows "\<exists>t' s'. excluir t w s = ok (t', s') \<and> agenda_ok t' \<and>
    (case book t w of None \<Rightarrow> t' = t \<and> s' = say name_not_found s
     | Some n \<Rightarrow> s' = s \<and> book t' = (case heir t w of None \<Rightarrow> (book t)(w := None) | Some m \<Rightarrow> (book t)(w := None, m \<mapsto> n)))"
proof (cases "book t w")
  case None
  with excluir_unknown [OF assms(2,1), of s] assms(1) show ?thesis by auto
next
  case (Some n)
  with excluir_book [OF assms(2,1) Some, of s] show ?thesis by (auto simp: inherit_def)
qed

theorem excluir_updates_witness:
  "\<exists>t' s'. excluir (Node (Node Leaf \<lparr>Nome = ''ANA'', telefone = 1\<rparr> Leaf) \<lparr>Nome = ''BIA'', telefone = 2\<rparr> Leaf) ''BIA''
      \<lparr>tin = [], tout = []\<rparr> = ok (t', s') \<and> agenda_ok t' \<and>
    (case book (Node (Node Leaf \<lparr>Nome = ''ANA'', telefone = 1\<rparr> Leaf) \<lparr>Nome = ''BIA'', telefone = 2\<rparr> Leaf) ''BIA'' of
       None \<Rightarrow> t' = Node (Node Leaf \<lparr>Nome = ''ANA'', telefone = 1\<rparr> Leaf) \<lparr>Nome = ''BIA'', telefone = 2\<rparr> Leaf \<and>
         s' = say name_not_found \<lparr>tin = [], tout = []\<rparr>
     | Some n \<Rightarrow> s' = \<lparr>tin = [], tout = []\<rparr> \<and> book t' =
         (case heir (Node (Node Leaf \<lparr>Nome = ''ANA'', telefone = 1\<rparr> Leaf) \<lparr>Nome = ''BIA'', telefone = 2\<rparr> Leaf) ''BIA'' of
            None \<Rightarrow> (book (Node (Node Leaf \<lparr>Nome = ''ANA'', telefone = 1\<rparr> Leaf) \<lparr>Nome = ''BIA'', telefone = 2\<rparr> Leaf))(''BIA'' := None)
          | Some m \<Rightarrow> (book (Node (Node Leaf \<lparr>Nome = ''ANA'', telefone = 1\<rparr> Leaf) \<lparr>Nome = ''BIA'', telefone = 2\<rparr> Leaf))
              (''BIA'' := None, m \<mapsto> n)))"
  by (rule excluir_updates) (simp_all add: plain_def code_def to_lower_def)


text \<open>C34: A choice outside the menu, typed at the first menu, makes the program run forever.\<close>

theorem agenda_bad_choice_diverges:
  assumes "int_min \<le> n" "n \<le> int_max" "n < 1 \<or> 6 < n"
  shows "agenda_main (dec n @ nl @ rest) = None"
proof -
  have "loop agenda_turn s = None" if "num s = Some n" for s
    by (rule loop_diverges [where I = "\<lambda>s. num s = Some n", OF that])
      (use assms(3) in \<open>auto simp: agenda_turn_def need_def\<close>)
  then show ?thesis
    using menu_reads [OF assms(1,2)] by (simp add: agenda_main_def)
qed

theorem agenda_bad_choice_diverges_witness: "agenda_main (dec 9 @ nl @ ''6'') = None"
  by (rule agenda_bad_choice_diverges) simp_all

end
