(* ===== verification/Graph_Euler.thy ===== *)
theory Graph_Euler
  imports Cxx_Array
begin

text \<open>
  Directed multigraphs as multisets of pairs: the arcs of a walk, degrees, circuits, and the
  invariant of Hierholzer's construction.  A walk is the list of its vertices.  This is the
  specification of \<open>DataStructure/grafos/euler/hierholzer.cxx\<close>; nothing here is taken from its code.
\<close>

section \<open>Walks and degrees\<close>

fun arcs :: "'a list \<Rightarrow> ('a \<times> 'a) multiset" where
  "arcs (x # y # zs) = add_mset (x, y) (arcs (y # zs))"
| "arcs _ = {#}"

definition outdeg :: "('a \<times> 'a) multiset \<Rightarrow> 'a \<Rightarrow> nat" where
  "outdeg E v = size (filter_mset (\<lambda>e. fst e = v) E)"

definition indeg :: "('a \<times> 'a) multiset \<Rightarrow> 'a \<Rightarrow> nat" where
  "indeg E v = size (filter_mset (\<lambda>e. snd e = v) E)"

definition balanced :: "('a \<times> 'a) multiset \<Rightarrow> bool" where
  "balanced E \<longleftrightarrow> (\<forall>v. outdeg E v = indeg E v)"

definition circuit :: "('a \<times> 'a) multiset \<Rightarrow> 'a \<Rightarrow> 'a list \<Rightarrow> bool" where
  "circuit E v w \<longleftrightarrow> w \<noteq> [] \<and> hd w = v \<and> last w = v \<and> arcs w = E"

text \<open>The arcs that can be reached from \<open>v\<close>.\<close>

definition component :: "('a \<times> 'a) multiset \<Rightarrow> 'a \<Rightarrow> ('a \<times> 'a) multiset" where
  "component E v = filter_mset (\<lambda>e. (v, fst e) \<in> (set_mset E)\<^sup>*) E"

lemma arcs_snoc: "xs \<noteq> [] \<Longrightarrow> arcs (xs @ [y]) = add_mset (last xs, y) (arcs xs)"
  by (induction xs rule: arcs.induct) auto

lemma arcs_Cons: "arcs (x # ys) = (if ys = [] then {#} else add_mset (x, hd ys) (arcs ys))"
  by (cases ys) auto

lemma size_arcs: "size (arcs xs) = length xs - 1"
  by (induction xs rule: arcs.induct) auto

lemma deg_plus [simp]: "outdeg (E + F) v = outdeg E v + outdeg F v" "indeg (E + F) v = indeg E v + indeg F v"
  by (simp_all add: outdeg_def indeg_def)

lemma deg_add [simp]:
  "outdeg (add_mset e E) v = outdeg E v + (if fst e = v then 1 else 0)"
  "indeg (add_mset e E) v = indeg E v + (if snd e = v then 1 else 0)"
  "outdeg {#} v = 0" "indeg {#} v = 0"
  by (simp_all add: outdeg_def indeg_def)

lemma deg_walk:
  "w \<noteq> [] \<Longrightarrow> outdeg (arcs w) v + (if v = last w then 1 else 0) = indeg (arcs w) v + (if v = hd w then 1 else 0)"
  by (induction w rule: arcs.induct) auto

lemma outdeg_0: "outdeg E v = 0 \<longleftrightarrow> (\<forall>u. (v, u) \<notin># E)"
  unfolding outdeg_def by auto

lemma arcs_in_set: "(u, v) \<in># arcs w \<Longrightarrow> u \<in> set w \<and> v \<in> set w"
  by (induction w rule: arcs.induct) auto

lemma arcs_reach: "set_mset (arcs w) \<subseteq> E \<Longrightarrow> u \<in> set w \<Longrightarrow> (hd w, u) \<in> E\<^sup>*"
proof (induction w rule: arcs.induct)
  case (1 x y zs)
  then have "u = x \<or> (y, u) \<in> E\<^sup>*" by auto
  moreover have "(x, y) \<in> E" using 1(2) by simp
  ultimately show ?case by (auto intro: converse_rtrancl_into_rtrancl)
qed auto

section \<open>Hierholzer's construction\<close>

text \<open>
  The state of the construction: the arcs \<open>R\<close> not used yet, the walk \<open>hs\<close> from the start
  \<open>v\<close> to where the search is now, and the finished part \<open>ts\<close> that ends in \<open>v\<close>, reached from
  some vertex \<open>a\<close>.
\<close>

definition touring :: "('a \<times> 'a) multiset \<Rightarrow> 'a \<Rightarrow> ('a \<times> 'a) multiset \<Rightarrow> 'a list \<Rightarrow> 'a list \<Rightarrow> bool" where
  "touring E v R hs ts \<longleftrightarrow>
     (if hs = [] then E = R + arcs ts \<and> ts \<noteq> [] \<and> hd ts = v \<and> last ts = v
      else hd hs = v \<and> (\<exists>a. E = R + arcs hs + arcs (a # ts) \<and> last (a # ts) = v)) \<and>
     (\<forall>u \<in> set ts. outdeg R u = 0)"

lemma touring_start: "touring E v E [v] []"
  by (auto simp: touring_def)

lemma touring_push:
  assumes "touring E v (add_mset (last hs, x) R) hs ts" "hs \<noteq> []"
  shows "touring E v R (hs @ [x]) ts"
  using assms by (auto simp: touring_def arcs_snoc)

lemma touring_stuck:
  assumes E: "balanced E" and t: "touring E v R hs ts" and "hs \<noteq> []" "outdeg R (last hs) = 0"
  shows "E = R + arcs hs + arcs (last hs # ts) \<and> last (last hs # ts) = v"
proof -
  from t assms(3) obtain a where a: "E = R + arcs hs + arcs (a # ts)" "last (a # ts) = v" and v: "hd hs = v"
    by (auto simp: touring_def)
  have "outdeg E (last hs) = indeg E (last hs)" using E by (simp add: balanced_def)
  with a(1) assms(4) have "outdeg (arcs hs) (last hs) + outdeg (arcs (a # ts)) (last hs) =
      indeg R (last hs) + indeg (arcs hs) (last hs) + indeg (arcs (a # ts)) (last hs)"
    by simp
  with deg_walk [of hs "last hs"] deg_walk [of "a # ts" "last hs"] assms(3) a(2) v
  have "last hs = a" by (simp split: if_splits)
  with a show ?thesis by auto
qed

lemma touring_pop:
  assumes E: "balanced E" and t: "touring E v R (hs @ [c]) ts" and c: "outdeg R c = 0"
  shows "touring E v R hs (c # ts)"
proof -
  have e: "E = R + arcs (hs @ [c]) + arcs (c # ts)" "last (c # ts) = v"
    using touring_stuck [OF E t] c by auto
  have "\<forall>u \<in> set (c # ts). outdeg R u = 0" using t c by (auto simp: touring_def)
  moreover have "hd (hs @ [c]) = v" using t by (auto simp: touring_def)
  ultimately show ?thesis
    using e by (cases "hs = []") (auto simp: touring_def arcs_snoc intro!: exI [of _ "last hs"])
qed

lemma touring_size: "touring E v R hs ts \<Longrightarrow> length hs + length ts + size R = size E + 1"
proof (cases "hs = []")
  case True
  assume "touring E v R hs ts"
  with True show ?thesis by (cases ts) (auto simp: touring_def size_arcs)
next
  case False
  assume "touring E v R hs ts"
  with False obtain a where "E = R + arcs hs + arcs (a # ts)" by (auto simp: touring_def)
  with False show ?thesis by (cases hs) (simp_all add: size_arcs)
qed

lemma touring_end:
  assumes "touring E v R [] ts"
  shows "circuit (component E v) v ts" "R = E - component E v"
proof -
  have E: "E = R + arcs ts" and ts: "ts \<noteq> []" "hd ts = v" "last ts = v" and R: "\<forall>u \<in> set ts. outdeg R u = 0"
    using assms by (auto simp: touring_def)
  have reach: "u \<in> set ts" if "(v, u) \<in> (set_mset E)\<^sup>*" for u
    using that
  proof induction
    case base
    show ?case using ts by (metis list.set_sel(1))
  next
    case (step y z)
    then have "(y, z) \<notin># R" using R by (auto simp: outdeg_0)
    with step(2) E show ?case using arcs_in_set [of y z ts] by simp
  qed
  have "filter_mset (\<lambda>e. (v, fst e) \<in> (set_mset E)\<^sup>*) (arcs ts) = arcs ts"
  proof (rule filter_mset_eq_conv [THEN iffD2], intro conjI ballI)
    fix e assume "e \<in># arcs ts"
    then have "fst e \<in> set ts" using arcs_in_set [of "fst e" "snd e" ts] by simp
    then show "(v, fst e) \<in> (set_mset E)\<^sup>*" using arcs_reach [of ts "set_mset E"] E ts by auto
  qed auto
  moreover have "filter_mset (\<lambda>e. (v, fst e) \<in> (set_mset E)\<^sup>*) R = {#}"
    using reach R by (fastforce simp: outdeg_0)
  ultimately have c: "component E v = arcs ts" using E by (simp add: component_def)
  then show "circuit (component E v) v ts" using ts by (simp add: circuit_def)
  show "R = E - component E v" using c E by simp
qed

lemma component_all: "size (component E v) = size E \<longleftrightarrow> component E v = E"
  unfolding component_def by (metis multiset_filter_subset subset_mset.le_imp_less_or_eq mset_subset_size nat_neq_iff)

section \<open>Renaming the vertices\<close>

lemma arcs_map: "arcs (map g w) = image_mset (map_prod g g) (arcs w)"
  by (induction w rule: arcs.induct) auto

definition on_verts :: "'a set \<Rightarrow> ('a \<times> 'a) multiset \<Rightarrow> bool" where
  "on_verts S E \<longleftrightarrow> set_mset E \<subseteq> S \<times> S"

lemma deg_map:
  assumes "inj_on g S" "on_verts S E" "u \<in> S"
  shows "outdeg (image_mset (map_prod g g) E) (g u) = outdeg E u" "indeg (image_mset (map_prod g g) E) (g u) = indeg E u"
proof -
  have "filter_mset (\<lambda>e. g (fst e) = g u) E = filter_mset (\<lambda>e. fst e = u) E"
    "filter_mset (\<lambda>e. g (snd e) = g u) E = filter_mset (\<lambda>e. snd e = u) E"
    using assms by (auto intro!: filter_mset_cong simp: on_verts_def inj_on_eq_iff)
  then show "outdeg (image_mset (map_prod g g) E) (g u) = outdeg E u" "indeg (image_mset (map_prod g g) E) (g u) = indeg E u"
    by (simp_all add: outdeg_def indeg_def filter_mset_image_mset)
qed

lemma balanced_map:
  assumes "inj_on g S" "on_verts S E" "balanced (image_mset (map_prod g g) E)"
  shows "balanced E"
  unfolding balanced_def
proof
  fix u
  show "outdeg E u = indeg E u"
  proof (cases "u \<in> S")
    case True
    with deg_map [OF assms(1,2)] assms(3) show ?thesis by (metis balanced_def)
  next
    case False
    with assms(2) have "filter_mset (\<lambda>e. fst e = u) E = {#}" "filter_mset (\<lambda>e. snd e = u) E = {#}"
      by (auto simp: on_verts_def)
    then show ?thesis unfolding outdeg_def indeg_def by (simp only: size_empty)
  qed
qed

lemma reach_map:
  assumes "inj_on g S" "on_verts S E" "v \<in> S" "(g v, y) \<in> (map_prod g g ` set_mset E)\<^sup>*"
  shows "\<exists>u \<in> S. y = g u \<and> (v, u) \<in> (set_mset E)\<^sup>*"
  using assms(4)
proof induction
  case (step y z)
  then obtain u a b where u: "u \<in> S" "y = g u" "(v, u) \<in> (set_mset E)\<^sup>*"
    and ab: "(a, b) \<in># E" "y = g a" "z = g b" by auto
  with assms(1,2) have "a = u" "b \<in> S" by (auto simp: on_verts_def inj_on_eq_iff)
  with u ab show ?case by (auto intro: rtrancl_into_rtrancl)
qed (use assms(3) in auto)

lemma component_map:
  assumes "inj_on g S" "on_verts S E" "v \<in> S"
  shows "component (image_mset (map_prod g g) E) (g v) = image_mset (map_prod g g) (component E v)"
proof -
  have "(g v, g a) \<in> (map_prod g g ` set_mset E)\<^sup>* \<longleftrightarrow> (v, a) \<in> (set_mset E)\<^sup>*" if "a \<in> S" for a
  proof
    assume "(g v, g a) \<in> (map_prod g g ` set_mset E)\<^sup>*"
    from reach_map [OF assms this] that assms(1) show "(v, a) \<in> (set_mset E)\<^sup>*" by (auto simp: inj_on_eq_iff)
  next
    assume "(v, a) \<in> (set_mset E)\<^sup>*"
    then show "(g v, g a) \<in> (map_prod g g ` set_mset E)\<^sup>*"
      by induction (auto intro: rtrancl_into_rtrancl)
  qed
  then have "filter_mset (\<lambda>e. (g v, g (fst e)) \<in> (map_prod g g ` set_mset E)\<^sup>*) E =
      filter_mset (\<lambda>e. (v, fst e) \<in> (set_mset E)\<^sup>*) E"
    using assms(2) by (intro filter_mset_cong) (auto simp: on_verts_def)
  then show ?thesis by (simp add: component_def filter_mset_image_mset)
qed

lemma circuit_map:
  assumes "inj_on g S" "on_verts S E" "v \<in> S" "circuit (component E v) v w"
  shows "circuit (component (image_mset (map_prod g g) E) (g v)) (g v) (map g w)"
  using assms by (simp add: circuit_def component_map arcs_map hd_map last_map)

end
