(* ===== verification/Euler_Hierholzer.thy ===== *)
theory Euler_Hierholzer
  imports Graph_Euler Cxx_Terminal
begin

text \<open>
  \<open>DataStructure/grafos/euler/hierholzer.cxx\<close>: Hierholzer's algorithm on a digraph read from a
  file.  The program is a function of the text of the file (\<open>None\<close> when it cannot be opened), of its
  option and of what is typed; it returns its exit code and the terminal.  A \<open>char\<close> is signed, so
  that the end of the file, stored in a \<open>char\<close>, is the character 0xFF.  An object is copied with its
  uninitialised places.
\<close>

section \<open>Stacks of vertices\<close>

definition N_MAX :: int where
  "N_MAX = 300"

record pilhaE =
  pilha :: "int option list"
  topo :: int

definition PilhaE :: pilhaE where
  "PilhaE = \<lparr>pilha = uninit N_MAX, topo = - 1\<rparr>"

definition vazia :: "pilhaE \<Rightarrow> int" where
  "vazia p = (if topo p < 0 then 1 else 0)"

definition Insere :: "pilhaE \<Rightarrow> int \<Rightarrow> (pilhaE \<times> int) run" where
  "Insere p v =
     (if topo p = N_MAX then ok (p, 0)
      else bnd (wr (pilha p) (topo p + 1) (Some v)) (\<lambda>a. ok (\<lparr>pilha = a, topo = topo p + 1\<rparr>, 1)))"

definition Tamanho :: "pilhaE \<Rightarrow> int" where
  "Tamanho p = topo p + 1"

definition Tiratopo :: "pilhaE \<Rightarrow> (pilhaE \<times> int) run" where
  "Tiratopo p = bnd (rdi (pilha p) (topo p)) (\<lambda>v. ok (p\<lparr>topo := topo p - 1\<rparr>, v))"

definition Topo :: "pilhaE \<Rightarrow> int run" where
  "Topo p = rdi (pilha p) (topo p)"

section \<open>The list of vertices\<close>

record vertice =
  nome :: string
  adjacentes :: pilhaE
  grau_entrada :: int
  grau_saida :: int

record lstVertice =
  ult :: int
  lista :: "vertice list"

text \<open>A global object: its places are zero before the constructors run.\<close>

definition vertice_zero :: vertice where
  "vertice_zero = \<lparr>nome = [], adjacentes = \<lparr>pilha = replicate (nat N_MAX) (Some 0), topo = - 1\<rparr>,
     grau_entrada = 0, grau_saida = 0\<rparr>"

definition listav :: lstVertice where
  "listav = \<lparr>ult = - 1, lista = replicate (nat N_MAX) vertice_zero\<rparr>"

definition acrescenta :: "lstVertice \<Rightarrow> vertice \<Rightarrow> (lstVertice \<times> int) run" where
  "acrescenta l v =
     bnd (wr (lista l) (ult l + 1) v) (\<lambda>a. ok (\<lparr>ult = ult l + 1, lista = a\<rparr>, ult l + 1))"

text \<open>\<open>strcmp\<close> returns 0 for equal strings only.  \<open>Inl i\<close>: the name is found at \<open>i\<close>.\<close>

definition procura :: "lstVertice \<Rightarrow> string \<Rightarrow> (int + int) run" where
  "procura l w = loop (\<lambda>i.
     if i \<le> ult l then
       bnd (rd (lista l) i) (\<lambda>x. if nome x = w then ok (Inr (Inl i)) else ok (Inl (i + 1)))
     else ok (Inr (Inr i))) 0"

definition Inserevertice :: "lstVertice \<Rightarrow> vertice \<Rightarrow> (lstVertice \<times> int) run" where
  "Inserevertice l v =
     (if ult l < 0 then acrescenta l v
      else bnd (procura l (nome v)) (\<lambda>r. case r of Inl i \<Rightarrow> ok (l, i)
        | Inr i \<Rightarrow> if i > N_MAX then ok (l, - 1) else acrescenta l v))"

section \<open>Reading the file\<close>

definition getc :: "string \<Rightarrow> char \<times> string" where
  "getc s = (case s of [] \<Rightarrow> (CHR 0xFF, []) | c # r \<Rightarrow> (c, r))"

definition separador :: "char \<Rightarrow> bool" where
  "separador ch \<longleftrightarrow> ch = CHR '' '' \<or> ch = CHR 0xFF \<or> ch = CHR 0x0A"

text \<open>The loop that stores characters from place \<open>i\<close> on, up to a separator, which is returned.\<close>

fun palavra :: "int \<Rightarrow> string \<Rightarrow> (string \<times> char \<times> string) run" where
  "palavra i [] = ok ([], CHR 0xFF, [])"
| "palavra i (ch # s) =
     (if separador ch then ok ([], ch, s)
      else if i < 10 then bnd (palavra (i + 1) s) (\<lambda>(w, r). ok (ch # w, r))
      else fail Out_Of_Bounds)"

definition fim_da_linha :: "char \<Rightarrow> string \<Rightarrow> char \<times> string" where
  "fim_da_linha ch s =
     (if ch = CHR '' '' then getc (dropWhile (\<lambda>c. c \<noteq> CHR 0xFF \<and> c \<noteq> CHR 0x0A) s) else (ch, s))"

text \<open>The code 2 for the end of the file comes without words.\<close>

definition leialinha :: "string \<Rightarrow> (int \<times> string \<times> string \<times> string) run" where
  "leialinha s =
     bnd (palavra 0 s) (\<lambda>(v1, ch, s).
     if ch = CHR 0xFF then ok (2, [], [], s)
     else bnd (fits 10 v1) (\<lambda>_.
       bnd (palavra 0 (dropWhile (\<lambda>c. c = CHR '' '') s)) (\<lambda>(v2, ch, s).
       bnd (fits 10 v2) (\<lambda>_.
       case fim_da_linha ch s of (ch, s) \<Rightarrow>
       ok (if ch = CHR 0xFF then 2 else if ch = CHR 0x0A then 1 else 0, v1, v2, s)))))"

definition primeira_linha :: "string \<Rightarrow> string run" where
  "primeira_linha s = loop (\<lambda>(ch, s). ok (if ch \<noteq> CHR 0x0A then Inl (getc s) else Inr s)) (getc s)"

definition no_vertice :: "(vertice \<Rightarrow> vertice run) \<Rightarrow> int \<Rightarrow> lstVertice \<Rightarrow> lstVertice run" where
  "no_vertice f i l =
     bnd (rd (lista l) i) (\<lambda>x. bnd (f x) (\<lambda>x. bnd (wr (lista l) i x) (\<lambda>a. ok (l\<lparr>lista := a\<rparr>))))"

definition novo_vertice :: "string \<Rightarrow> vertice" where
  "novo_vertice w = \<lparr>nome = until_nul w, adjacentes = PilhaE, grau_entrada = 0, grau_saida = 0\<rparr>"

definition aresta :: "string \<Rightarrow> string \<Rightarrow> lstVertice \<Rightarrow> lstVertice run" where
  "aresta v1 v2 l =
     bnd (Inserevertice l (novo_vertice v1)) (\<lambda>(l, i).
     bnd (Inserevertice l (novo_vertice v2)) (\<lambda>(l, j).
     bnd (no_vertice (\<lambda>x. bnd (i32 (grau_saida x + 1)) (\<lambda>g. ok (x\<lparr>grau_saida := g\<rparr>))) i l) (\<lambda>l.
     bnd (no_vertice (\<lambda>x. bnd (i32 (grau_entrada x + 1)) (\<lambda>g. ok (x\<lparr>grau_entrada := g\<rparr>))) j l) (\<lambda>l.
     no_vertice (\<lambda>x. bnd (Insere (adjacentes x) j) (\<lambda>(p, b). ok (x\<lparr>adjacentes := p\<rparr>))) i l))))"

definition lerarq :: "string \<Rightarrow> lstVertice \<Rightarrow> lstVertice run" where
  "lerarq s l =
     bnd (primeira_linha s) (\<lambda>s.
     loop (\<lambda>(s, l). bnd (leialinha s) (\<lambda>(fim, v1, v2, s).
       if fim \<noteq> 2 then bnd (aresta v1 v2 l) (\<lambda>l. ok (Inl (s, l))) else ok (Inr l))) (s, l))"

section \<open>Hierholzer's algorithm\<close>

text \<open>\<open>head.Insere(lista[head.Topo()].adjacentes.Tiratopo())\<close> and \<open>tail.Insere(head.Tiratopo())\<close>.\<close>

definition grau_restante :: "vertice list \<Rightarrow> pilhaE \<Rightarrow> int run" where
  "grau_restante L head = bnd (Topo head) (\<lambda>u. bnd (rd L u) (\<lambda>x. ok (Tamanho (adjacentes x))))"

definition avanca :: "vertice list \<times> pilhaE \<times> pilhaE \<Rightarrow> (vertice list \<times> pilhaE \<times> pilhaE) run" where
  "avanca = (\<lambda>(L, head, tail).
     bnd (Topo head) (\<lambda>u. bnd (rd L u) (\<lambda>x.
     bnd (Tiratopo (adjacentes x)) (\<lambda>(p, v). bnd (wr L u (x\<lparr>adjacentes := p\<rparr>)) (\<lambda>L.
     bnd (Insere head v) (\<lambda>(head, b). ok (L, head, tail)))))))"

definition recua :: "vertice list \<times> pilhaE \<times> pilhaE \<Rightarrow> (vertice list \<times> pilhaE \<times> pilhaE) run" where
  "recua = (\<lambda>(L, head, tail).
     bnd (Tiratopo head) (\<lambda>(head, v). bnd (Insere tail v) (\<lambda>(tail, b). ok (L, head, tail))))"

definition trajeto :: "vertice list \<Rightarrow> int \<Rightarrow> (vertice list \<times> pilhaE \<times> pilhaE) run" where
  "trajeto L vert_inic =
     bnd (Insere PilhaE vert_inic) (\<lambda>(head, b).
     while_run (\<lambda>(L, head, tail). ok (vazia head \<noteq> 1))
       (\<lambda>s. bnd (while_run (\<lambda>(L, head, tail). bnd (grau_restante L head) (\<lambda>g. ok (g \<noteq> 0))) avanca s)
         (while_run (\<lambda>(L, head, tail).
            if vazia head \<noteq> 1 then bnd (grau_restante L head) (\<lambda>g. ok (g = 0)) else ok False) recua))
       (L, head, PilhaE))"

section \<open>The program\<close>

definition help_text :: string where
  "help_text = nl @ nl @ tab @ ''**********************************  HELP  **************************************'' @
     nl @ tab @ ''USO: ./grafos <arquivo> <opcao>'' @ nl @ nl @ tab @ ''Onde <arquivo> e' o nome do arqui_vo'' @
     nl @ tab @ ''de entrada, contendo os vertices e arestas do Digrafo. Especifique na primeira'' @
     nl @ tab @ ''linha o numero de vertices e o numero de arestas do Digrafo.'' @
     nl @ tab @ ''Exemplo:'' @ nl @ tab @ ''2 2'' @ nl @ tab @ ''v1 v2'' @ nl @ tab @ ''v2 v1'' @ nl @ tab @ ''A notacao 'v1 v2'significa que a aresta entre os vertices de nome v1 e v2'' @
     nl @ tab @ ''tem orientacao sentido v1 -> v2.'' @ nl @
     nl @ tab @ ''A <opcao> indica ao programa que o Digrafo ou as componentes do Digrafo'' @
     nl @ tab @ ''sao Eulerianos e portanto o programa nao verificara' esse fato,'' @
     nl @ tab @ ''economizando tempo de processamento. Caso vc deseje fazer o preprocessamento,'' @
     nl @ tab @ ''nao preencha esta opcao, pois ela e' habilitada por default. Se voce tiver'' @
     nl @ tab @ ''certeza que o Digrafo ou as compo nentes do Digrafo sao Eulerianos,'' @
     nl @ tab @ ''marque esta opcao como 'n' ou 'N', exemplo:'' @ nl @ nl @ tab @ ''grafos dados.txt n.'' @
     nl @ tab @ ''UTILIDADE: Este programa determina um trajeto euleriano em um Digrafo,'' @
     nl @ tab @ ''verificando se o mesmo e' Euleriano, informa tambem se o Digrafo e'' @ [CHR 0x27] @
     nl @ tab @ ''ou nao conexo.'' @ nl @ nl @ tab @ ''Elaborado por: Ives Rene Venturini Pola e Tiago de Oliveira'' @
     nl @ tab @ ''********************************** FIM HELP  **************************************'' @ nl @ nl"

definition euleriano :: "vertice list \<Rightarrow> bool run" where
  "euleriano L = loop (\<lambda>vert_inic.
     if vert_inic \<le> N_MAX then
       bnd (rd L vert_inic) (\<lambda>x. if grau_entrada x \<noteq> grau_saida x then ok (Inr False) else ok (Inl (vert_inic + 1)))
     else ok (Inr True)) 0"

definition acha_inicial :: "vertice list \<Rightarrow> string \<Rightarrow> int run" where
  "acha_inicial L inicial = loop (\<lambda>vert_inic.
     bnd (rd L vert_inic) (\<lambda>x.
       if nome x \<noteq> until_nul inicial \<and> vert_inic \<le> N_MAX then ok (Inl (vert_inic + 1)) else ok (Inr vert_inic))) 0"

text \<open>Whether some vertex still has an arc.\<close>

definition desconexo :: "lstVertice \<Rightarrow> bool run" where
  "desconexo l = loop (\<lambda>vert_inic.
     if vert_inic \<le> ult l then
       bnd (rd (lista l) vert_inic) (\<lambda>x. if Tamanho (adjacentes x) \<noteq> 0 then ok (Inr True) else ok (Inl (vert_inic + 1)))
     else ok (Inr False)) 0"

definition imprime :: "vertice list \<Rightarrow> pilhaE \<Rightarrow> string run" where
  "imprime L tail = bnd (while_run (\<lambda>(tail, out). ok (vazia tail \<noteq> 1))
     (\<lambda>(tail, out). bnd (Tiratopo tail) (\<lambda>(tail, v). bnd (rd L v) (\<lambda>x. ok (tail, out @ nome x @ '' ''))))
     (tail, [])) (\<lambda>(tail, out). ok (out @ nl @ nl))"

definition erro_abrir :: string where
  "erro_abrir = nl @ tab @ ''Erro ao abrir arquivo..'' @ nl"

definition iniciando :: string where
  "iniciando = nl @ tab @ ''Iniciando Pre-processamento...'' @ nl"

definition nao_euleriano :: string where
  "nao_euleriano = nl @ tab @ ''O Digrafo nao e' Euleriano..'' @ nl @ nl"

definition concluido :: string where
  "concluido = nl @ tab @ ''Pre-processamento concluido,'' @ nl @ tab @ ''o Digrafo ou as componentes'' @
     nl @ tab @ ''do Digrafo sao Eulerianas.''"

definition entre_inicial :: string where
  "entre_inicial = nl @ tab @ ''Entre com o nome do vertice inicial: ''"

definition nao_identificado :: string where
  "nao_identificado = nl @ tab @ ''O vertice escolhido nao foi identificado.'' @
     nl @ tab @ ''O programa e' case sensitive. '' @ nl"

definition txt_desconexo :: string where
  "txt_desconexo =
     nl @ tab @ ''O Digrafo e' desconexo, logo nao '' @ [CHR 0xE9] @ '' Euleriano.'' @
     nl @ tab @ ''Por'' @ [CHR 0xE9] @ ''m suas componentes sao Eulerianas.'' @
     nl @ tab @ ''O trajeto euleriano na componente cujo'' @ nl @ tab @ ''vertice inicial esta contido e': ''"

definition txt_conexo :: string where
  "txt_conexo = nl @ tab @ ''O Digrafo e' Conexo e Euleriano'' @ nl @ tab @ ''O trajeto euleriano a partir do'' @
     nl @ tab @ ''vertice inicial escolhido e':''"

text \<open>The part of \<open>main\<close> after the preprocessing.\<close>

definition percorre :: "lstVertice \<Rightarrow> terminal \<Rightarrow> (int \<times> terminal) run" where
  "percorre l s =
     bnd (scan_word (say entre_inicial s)) (\<lambda>(s, inicial). bnd (fits 10 inicial) (\<lambda>_.
     bnd (acha_inicial (lista l) inicial) (\<lambda>vert_inic.
     if vert_inic > N_MAX then ok (0, say nao_identificado s)
     else
       bnd (trajeto (lista l) vert_inic) (\<lambda>(L, head, tail).
       bnd (desconexo (l\<lparr>lista := L\<rparr>)) (\<lambda>d.
       bnd (imprime L tail) (\<lambda>t. ok (1, say ((if d then txt_desconexo else txt_conexo) @ t) s)))))))"

definition hierholzer_main :: "string option \<Rightarrow> string option \<Rightarrow> string \<Rightarrow> (int \<times> terminal) run" where
  "hierholzer_main arquivo opcao input =
     (let s = \<lparr>tin = input, tout = []\<rparr> in
      case arquivo of None \<Rightarrow> ok (0, say (help_text @ erro_abrir) s)
      | Some texto \<Rightarrow>
          bnd (lerarq texto listav) (\<lambda>l.
          if opcao \<noteq> None \<and> the opcao \<noteq> [] \<and> hd (the opcao) \<in> {CHR ''n'', CHR ''N''} then percorre l s
          else
            bnd (euleriano (lista l)) (\<lambda>e.
            if e then percorre l (say (iniciando @ concluido) s)
            else ok (0, say (iniciando @ nao_euleriano) s))))"

section \<open>What the objects hold\<close>

text \<open>A stack object holds a list of vertices, its bottom first.\<close>

definition pilha_de :: "pilhaE \<Rightarrow> int list \<Rightarrow> bool" where
  "pilha_de p xs \<longleftrightarrow> len (pilha p) = N_MAX \<and> topo p = len xs - 1 \<and> len xs \<le> N_MAX \<and>
     (\<forall>i. 0 \<le> i \<and> i < len xs \<longrightarrow> at (pilha p) i = Some (at xs i))"

lemma N_MAX_val [simp]: "N_MAX = 300" "nat N_MAX = 300"
  by (simp_all add: N_MAX_def)

lemma at_append: "0 \<le> i \<Longrightarrow> at (xs @ ys) i = (if i < len xs then at xs i else at ys (i - len xs))"
  by (auto simp: at_def nth_append nat_diff_distrib nat_less_iff)

lemma pilha_de_new [simp]: "pilha_de PilhaE []"
  by (auto simp: pilha_de_def PilhaE_def)

lemma vazia_de: "pilha_de p xs \<Longrightarrow> vazia p = (if xs = [] then 1 else 0)"
  by (cases xs) (simp_all add: pilha_de_def vazia_def)

lemma Tamanho_de: "pilha_de p xs \<Longrightarrow> Tamanho p = len xs"
  by (simp add: pilha_de_def Tamanho_def)

lemma Insere_de:
  assumes "pilha_de p xs" "len xs < N_MAX"
  shows "wp (Insere p v) (\<lambda>(p', b). b = 1 \<and> pilha_de p' (xs @ [v]))"
  using assms by (auto simp: pilha_de_def Insere_def at_upd at_append at_def [of "[v]"])

lemma Topo_de: "pilha_de p (xs @ [v]) \<Longrightarrow> Topo p = ok v"
  by (simp add: pilha_de_def Topo_def rdi_def rd_in at_append at_def [of "[v]"])

lemma Tiratopo_de:
  assumes "pilha_de p (xs @ [v])"
  shows "wp (Tiratopo p) (\<lambda>(p', x). x = v \<and> pilha_de p' xs)"
  using assms by (auto simp: pilha_de_def Tiratopo_def at_append at_def [of "[v]"])

text \<open>The first \<open>n\<close> vertices of a list hold the stacks \<open>A\<close> of the ends of their arcs.\<close>

definition adj_lists :: "int \<Rightarrow> vertice list \<Rightarrow> (int \<Rightarrow> int list) \<Rightarrow> bool" where
  "adj_lists n L A \<longleftrightarrow> len L = N_MAX \<and> 0 \<le> n \<and> n \<le> N_MAX \<and>
     (\<forall>i. 0 \<le> i \<and> i < n \<longrightarrow> pilha_de (adjacentes (at L i)) (A i) \<and> set (A i) \<subseteq> {0..<n})"

definition arcs_of :: "int \<Rightarrow> (int \<Rightarrow> int list) \<Rightarrow> (int \<times> int) multiset" where
  "arcs_of n A = (\<Sum>i \<in> {0..<n}. image_mset (Pair i) (mset (A i)))"

lemma outdeg_sum: "finite S \<Longrightarrow> outdeg (\<Sum>i \<in> S. f i) u = (\<Sum>i \<in> S. outdeg (f i) u)"
  by (induction S rule: finite_induct) auto

lemma outdeg_arcs_of:
  assumes "0 \<le> u" "u < n"
  shows "outdeg (arcs_of n A) u = length (A u)"
proof -
  have *: "outdeg (image_mset (Pair i) (mset (A i))) u = (if i = u then length (A u) else 0)" for i
    by (auto simp: outdeg_def filter_mset_image_mset)
  show ?thesis using assms by (simp add: arcs_of_def outdeg_sum *)
qed

lemma arcs_of_pop:
  assumes "0 \<le> u" "u < n" "A u = ys @ [v]"
  shows "arcs_of n A = add_mset (u, v) (arcs_of n (A(u := ys)))"
proof -
  have u: "u \<in> {0..<n}" using assms by simp
  have "(\<Sum>i \<in> {0..<n} - {u}. image_mset (Pair i) (mset ((A(u := ys)) i))) = (\<Sum>i \<in> {0..<n} - {u}. image_mset (Pair i) (mset (A i)))"
    by (rule sum.cong) auto
  then show ?thesis
    unfolding arcs_of_def using assms(3) sum.remove [OF _ u, of "\<lambda>i. image_mset (Pair i) (mset (A i))"]
      sum.remove [OF _ u, of "\<lambda>i. image_mset (Pair i) (mset ((A(u := ys)) i))"] by simp
qed

lemma arcs_of_ends: "(\<forall>i. 0 \<le> i \<and> i < n \<longrightarrow> set (A i) \<subseteq> {0..<n}) \<Longrightarrow> (u, v) \<in># arcs_of n A \<Longrightarrow> u \<in> {0..<n} \<and> v \<in> {0..<n}"
  by (fastforce simp: arcs_of_def set_mset_sum)

lemma size_arcs_of: "size (arcs_of n A) = (\<Sum>i \<in> {0..<n}. length (A i))"
proof -
  have "finite S \<Longrightarrow> size (\<Sum>i \<in> S. image_mset (Pair i) (mset (A i))) = (\<Sum>i \<in> S. length (A i))" for S
    by (induction S rule: finite_induct) auto
  then show ?thesis by (simp add: arcs_of_def)
qed

section \<open>The algorithm\<close>

text \<open>What is left of a list of vertices when only its arcs change.\<close>

abbreviation names_of :: "vertice list \<Rightarrow> string list" where
  "names_of L \<equiv> map nome L"

definition holds_tour :: "int \<Rightarrow> string list \<Rightarrow> (int \<Rightarrow> int list) \<Rightarrow> int list \<Rightarrow> int list \<Rightarrow> vertice list \<times> pilhaE \<times> pilhaE \<Rightarrow> bool" where
  "holds_tour n ns A hs ts = (\<lambda>(L, head, tail).
     adj_lists n L A \<and> names_of L = ns \<and> set hs \<subseteq> {0..<n} \<and> set ts \<subseteq> {0..<n} \<and>
     pilha_de head hs \<and> pilha_de tail (rev ts))"

lemma adj_lists_upd:
  assumes "adj_lists n L A" "0 \<le> u" "u < n" "pilha_de p ys" "set ys \<subseteq> {0..<n}"
  shows "adj_lists n (upd L u ((at L u)\<lparr>adjacentes := p\<rparr>)) (A(u := ys))"
  using assms by (auto simp: adj_lists_def at_upd)

lemma names_upd: "0 \<le> u \<Longrightarrow> u < len L \<Longrightarrow> nome x = nome (at L u) \<Longrightarrow> names_of (upd L u x) = names_of L"
  by (simp add: upd_def map_update at_def list_update_same_conv nat_less_iff)

lemma grau_restante_tour:
  assumes "holds_tour n ns A (hs @ [u]) ts (L, head, tail)"
  shows "grau_restante L head = ok (len (A u))"
proof -
  have u: "0 \<le> u" "u < n" and "pilha_de (adjacentes (at L u)) (A u)" "u < len L"
    using assms by (auto simp: holds_tour_def adj_lists_def)
  moreover have "Topo head = ok u" using assms by (auto simp: holds_tour_def intro: Topo_de)
  ultimately show ?thesis by (simp add: grau_restante_def rd_in Tamanho_de)
qed

lemma avanca_tour:
  assumes h: "holds_tour n ns A (hs @ [u]) ts s" and A: "A u = ys @ [v]" and "len hs + 1 < N_MAX"
  shows "wp (avanca s) (holds_tour n ns (A(u := ys)) (hs @ [u, v]) ts)"
proof -
  obtain L head tail where s: "s = (L, head, tail)" by (cases s)
  have u: "0 \<le> u" "u < n" and L: "adj_lists n L A" "pilha_de head (hs @ [u])"
    using h by (auto simp: s holds_tour_def)
  then have "pilha_de (adjacentes (at L u)) (A u) \<and> set (A u) \<subseteq> {0..<n} \<and> u < len L" by (auto simp: adj_lists_def)
  with A have p: "pilha_de (adjacentes (at L u)) (ys @ [v])" "set (ys @ [v]) \<subseteq> {0..<n}" and "u < len L" by simp_all
  obtain p' where p': "Tiratopo (adjacentes (at L u)) = ok (p', v)" "pilha_de p' ys"
    using Tiratopo_de [OF p(1)] by (auto simp: wp_iff)
  obtain head' b where head': "Insere head v = ok (head', b)" "pilha_de head' (hs @ [u, v])"
    using Insere_de [OF L(2), of v] assms(3) by (auto simp: wp_iff)
  have "Topo head = ok u" using L(2) by (rule Topo_de)
  moreover have "adj_lists n (upd L u ((at L u)\<lparr>adjacentes := p'\<rparr>)) (A(u := ys))"
    using adj_lists_upd [OF L(1) u(1,2) p'(2)] p(2) by simp
  moreover have "names_of (upd L u ((at L u)\<lparr>adjacentes := p'\<rparr>)) = names_of L"
    by (rule names_upd) (use u \<open>u < len L\<close> in simp_all)
  ultimately show ?thesis
    using h p(2) p'(1) head' u \<open>u < len L\<close> by (simp add: s avanca_def rd_in wr_in holds_tour_def)
qed

lemma recua_tour:
  assumes h: "holds_tour n ns A (hs @ [u]) ts s" and "len ts < N_MAX"
  shows "wp (recua s) (holds_tour n ns A hs (u # ts))"
proof -
  obtain L head tail where s: "s = (L, head, tail)" by (cases s)
  obtain head' where head': "Tiratopo head = ok (head', u)" "pilha_de head' hs"
    using h Tiratopo_de [of head hs u] by (auto simp: s holds_tour_def wp_iff)
  obtain tail' b where tail': "Insere tail u = ok (tail', b)" "pilha_de tail' (rev ts @ [u])"
    using h assms(2) Insere_de [of tail "rev ts" u] by (auto simp: s holds_tour_def wp_iff)
  show ?thesis using h head' tail' by (simp add: s recua_def holds_tour_def)
qed

definition restante :: "int \<Rightarrow> vertice list \<times> pilhaE \<times> pilhaE \<Rightarrow> nat" where
  "restante n = (\<lambda>(L, head, tail). 2 * (\<Sum>i \<in> {0..<n}. nat (Tamanho (adjacentes (at L i)))) + nat (Tamanho head))"

lemma rest_tour: "holds_tour n ns A hs ts s \<Longrightarrow> restante n s = 2 * size (arcs_of n A) + length hs"
proof -
  assume h: "holds_tour n ns A hs ts s"
  obtain L head tail where s: "s = (L, head, tail)" by (cases s)
  have "(\<Sum>i \<in> {0..<n}. nat (Tamanho (adjacentes (at L i)))) = (\<Sum>i \<in> {0..<n}. length (A i))"
    using h by (intro sum.cong) (auto simp: s holds_tour_def adj_lists_def Tamanho_de)
  moreover have "Tamanho head = len hs" using h by (auto simp: s holds_tour_def intro: Tamanho_de)
  ultimately show ?thesis by (simp add: s restante_def size_arcs_of)
qed

text \<open>The invariant of all three loops.\<close>

definition tour_inv :: "int \<Rightarrow> string list \<Rightarrow> (int \<times> int) multiset \<Rightarrow> int \<Rightarrow> vertice list \<times> pilhaE \<times> pilhaE \<Rightarrow> bool" where
  "tour_inv n ns E v s \<longleftrightarrow> (\<exists>A hs ts. holds_tour n ns A hs ts s \<and> touring E v (arcs_of n A) hs ts)"

definition at_end :: "vertice list \<times> pilhaE \<times> pilhaE \<Rightarrow> bool" where
  "at_end = (\<lambda>(L, head, tail). vazia head = 1)"

lemma avancar:
  assumes E: "balanced E" "size E < 300" and "tour_inv n ns E v s" "\<not> at_end s"
  shows "wp (while_run (\<lambda>(L, head, tail). bnd (grau_restante L head) (\<lambda>g. ok (g \<noteq> 0))) avanca s)
    (\<lambda>s'. tour_inv n ns E v s' \<and> \<not> at_end s' \<and> restante n s' \<le> restante n s \<and>
      (case s' of (L, head, tail) \<Rightarrow> grau_restante L head = ok 0))"
proof (rule wp_while [where I = "\<lambda>s'. tour_inv n ns E v s' \<and> \<not> at_end s' \<and> restante n s' \<le> restante n s" and m = "restante n"])
  fix t assume t: "tour_inv n ns E v t \<and> \<not> at_end t \<and> restante n t \<le> restante n s"
  obtain L head tail where s: "t = (L, head, tail)" by (cases t)
  obtain A hs ts where h: "holds_tour n ns A hs ts t" and T: "touring E v (arcs_of n A) hs ts"
    using t by (auto simp: tour_inv_def)
  have "hs \<noteq> []" using t h by (auto simp: s at_end_def holds_tour_def vazia_de)
  then obtain hs' u where hs: "hs = hs' @ [u]" by (metis rev_exhaust)
  have u: "0 \<le> u" "u < n" using h by (auto simp: s hs holds_tour_def)
  have g: "grau_restante L head = ok (len (A u))" using grau_restante_tour h by (simp add: s hs)
  show "wp (case t of (L, head, tail) \<Rightarrow> bnd (grau_restante L head) (\<lambda>g. ok (g \<noteq> 0)))
    (\<lambda>b. if b then wp (avanca t) (\<lambda>s'. (tour_inv n ns E v s' \<and> \<not> at_end s' \<and> restante n s' \<le> restante n s) \<and> restante n s' < restante n t)
      else tour_inv n ns E v t \<and> \<not> at_end t \<and> restante n t \<le> restante n s \<and>
        (case t of (L, head, tail) \<Rightarrow> grau_restante L head = ok 0))"
  proof (cases "A u = []")
    case True
    then show ?thesis using t g by (simp add: s)
  next
    case False
    then obtain ys w where A: "A u = ys @ [w]" by (metis rev_exhaust)
    have R: "arcs_of n A = add_mset (u, w) (arcs_of n (A(u := ys)))" by (rule arcs_of_pop [where A = A, OF u A])
    then have T': "touring E v (arcs_of n (A(u := ys))) (hs' @ [u, w]) ts"
      using touring_push [of E v hs w "arcs_of n (A(u := ys))" ts] T hs by simp
    have "len hs' + 1 < N_MAX" using touring_size [OF T'] E(2) by simp
    from avanca_tour [OF h [unfolded hs] A this] have "wp (avanca t) (holds_tour n ns (A(u := ys)) (hs' @ [u, w]) ts)" .
    then have "wp (avanca t) (\<lambda>s'. (tour_inv n ns E v s' \<and> \<not> at_end s' \<and> restante n s' \<le> restante n s) \<and> restante n s' < restante n t)"
    proof (rule wp_conseq)
      fix s' assume h': "holds_tour n ns (A(u := ys)) (hs' @ [u, w]) ts s'"
      have "restante n s' < restante n t" using rest_tour [OF h] rest_tour [OF h'] R hs by simp
      moreover have "\<not> at_end s'" using h' by (auto simp: at_end_def holds_tour_def vazia_de)
      ultimately show "(tour_inv n ns E v s' \<and> \<not> at_end s' \<and> restante n s' \<le> restante n s) \<and> restante n s' < restante n t"
        using h' T' t by (auto simp: tour_inv_def)
    qed
    then show ?thesis using g A by (simp add: s)
  qed
qed (use assms in auto)

lemma tour_top:
  assumes "tour_inv n ns E v (L, head, tail)" "\<not> at_end (L, head, tail)"
  obtains A hs u ts where "holds_tour n ns A (hs @ [u]) ts (L, head, tail)" "touring E v (arcs_of n A) (hs @ [u]) ts"
    "0 \<le> u" "u < n" "grau_restante L head = ok (len (A u))"
proof -
  obtain A hs ts where h: "holds_tour n ns A hs ts (L, head, tail)" and T: "touring E v (arcs_of n A) hs ts"
    using assms(1) by (auto simp: tour_inv_def)
  have "hs \<noteq> []" using assms(2) h by (auto simp: at_end_def holds_tour_def vazia_de)
  then obtain hs' u where hs: "hs = hs' @ [u]" by (metis rev_exhaust)
  show thesis
    by (rule that [of A hs' u ts]) (use h T grau_restante_tour in \<open>auto simp: hs holds_tour_def\<close>)
qed

lemma recuar:
  assumes E: "balanced E" "size E < 300" and "tour_inv n ns E v s" "\<not> at_end s"
    and s: "s = (L0, head0, tail0)" "grau_restante L0 head0 = ok 0"
  shows "wp (while_run (\<lambda>(L, head, tail).
      if vazia head \<noteq> 1 then bnd (grau_restante L head) (\<lambda>g. ok (g = 0)) else ok False) recua s)
    (\<lambda>s'. tour_inv n ns E v s' \<and> restante n s' < restante n s)"
proof (rule wp_while [where I = "\<lambda>s'. tour_inv n ns E v s' \<and> (s' = s \<or> restante n s' < restante n s)" and m = "restante n"])
  fix t assume t: "tour_inv n ns E v t \<and> (t = s \<or> restante n t < restante n s)"
  obtain L head tail where tt: "t = (L, head, tail)" by (cases t)
  let ?c = "case t of (L, head, tail) \<Rightarrow> if vazia head \<noteq> 1 then bnd (grau_restante L head) (\<lambda>g. ok (g = 0)) else ok False"
  let ?Q = "\<lambda>b. if b then wp (recua t) (\<lambda>s'. (tour_inv n ns E v s' \<and> (s' = s \<or> restante n s' < restante n s)) \<and> restante n s' < restante n t)
      else tour_inv n ns E v t \<and> restante n t < restante n s"
  show "wp ?c ?Q"
  proof (cases "at_end t")
    case True
    then show ?thesis using t assms(4) by (auto simp: tt at_end_def)
  next
    case False
    obtain A hs u ts where h: "holds_tour n ns A (hs @ [u]) ts t" and T: "touring E v (arcs_of n A) (hs @ [u]) ts"
      and u: "0 \<le> u" "u < n" and g: "grau_restante L head = ok (len (A u))"
      using t False unfolding tt by (elim conjE tour_top)
    show ?thesis
    proof (cases "A u = []")
      case A: False
      then have "t \<noteq> s" using g s by (auto simp: tt)
      then show ?thesis using t g A False by (simp add: tt at_end_def)
    next
      case True
      have "outdeg (arcs_of n A) u = 0" using outdeg_arcs_of [OF u] True by simp
      from touring_pop [OF E(1) T this] have T': "touring E v (arcs_of n A) hs (u # ts)" .
      have "len ts < N_MAX" using touring_size [OF T'] E(2) by simp
      from recua_tour [OF h this] have "wp (recua t) (\<lambda>s'. (tour_inv n ns E v s' \<and> (s' = s \<or> restante n s' < restante n s)) \<and> restante n s' < restante n t)"
      proof (rule wp_conseq)
        fix s' assume h': "holds_tour n ns A hs (u # ts) s'"
        have "restante n s' < restante n t" using rest_tour [OF h] rest_tour [OF h'] by simp
        with h' T' t show "(tour_inv n ns E v s' \<and> (s' = s \<or> restante n s' < restante n s)) \<and> restante n s' < restante n t"
          by (auto simp: tour_inv_def)
      qed
      then show ?thesis using g True False by (simp add: tt at_end_def)
    qed
  qed
qed (use assms in auto)

text \<open>\<open>trajeto\<close> leaves on \<open>tail\<close> a circuit of the arcs that can be reached from \<open>v\<close>.\<close>

lemma trajeto_circuit:
  assumes L: "adj_lists n L A" and E: "balanced (arcs_of n A)" "size (arcs_of n A) < 300" and v: "0 \<le> v" "v < n"
  shows "wp (trajeto L v) (\<lambda>(L', head, tail). \<exists>A' w. adj_lists n L' A' \<and> names_of L' = names_of L \<and>
    pilha_de tail (rev w) \<and> set w \<subseteq> {0..<n} \<and> circuit (component (arcs_of n A) v) v w \<and>
    arcs_of n A' = arcs_of n A - component (arcs_of n A) v)"
proof -
  let ?E = "arcs_of n A" and ?ns = "names_of L"
  obtain head b where head: "Insere PilhaE v = ok (head, b)" "pilha_de head [v]"
    using Insere_de [OF pilha_de_new, of v] by (auto simp: wp_iff)
  have start: "tour_inv n ?ns ?E v (L, head, PilhaE)"
    unfolding tour_inv_def
    by (rule exI [of _ A], rule exI [of _ "[v]"], rule exI [of _ "[]"])
      (use L v head(2) in \<open>simp add: holds_tour_def touring_start\<close>)
  have loop: "wp (while_run (\<lambda>(L, head, tail). ok (vazia head \<noteq> 1))
       (\<lambda>s. bnd (while_run (\<lambda>(L, head, tail). bnd (grau_restante L head) (\<lambda>g. ok (g \<noteq> 0))) avanca s)
         (while_run (\<lambda>(L, head, tail).
            if vazia head \<noteq> 1 then bnd (grau_restante L head) (\<lambda>g. ok (g = 0)) else ok False) recua))
       (L, head, PilhaE)) (\<lambda>s. tour_inv n ?ns ?E v s \<and> at_end s)"
  proof (rule wp_while [where I = "tour_inv n ?ns ?E v" and m = "restante n", OF start])
    fix s assume I: "tour_inv n ?ns ?E v s"
    show "wp (case s of (L, head, tail) \<Rightarrow> ok (vazia head \<noteq> 1)) (\<lambda>t. if t then
        wp (bnd (while_run (\<lambda>(L, head, tail). bnd (grau_restante L head) (\<lambda>g. ok (g \<noteq> 0))) avanca s)
         (while_run (\<lambda>(L, head, tail).
            if vazia head \<noteq> 1 then bnd (grau_restante L head) (\<lambda>g. ok (g = 0)) else ok False) recua))
          (\<lambda>s'. tour_inv n ?ns ?E v s' \<and> restante n s' < restante n s)
      else tour_inv n ?ns ?E v s \<and> at_end s)"
    proof (cases "at_end s")
      case True
      then show ?thesis using I by (auto simp: at_end_def)
    next
      case False
      have "wp (bnd (while_run (\<lambda>(L, head, tail). bnd (grau_restante L head) (\<lambda>g. ok (g \<noteq> 0))) avanca s)
         (while_run (\<lambda>(L, head, tail).
            if vazia head \<noteq> 1 then bnd (grau_restante L head) (\<lambda>g. ok (g = 0)) else ok False) recua))
          (\<lambda>s'. tour_inv n ?ns ?E v s' \<and> restante n s' < restante n s)"
        unfolding wp_bnd
      proof (rule wp_conseq [OF avancar [OF E I False]])
        fix s' assume s': "tour_inv n ?ns ?E v s' \<and> \<not> at_end s' \<and> restante n s' \<le> restante n s \<and>
          (case s' of (L, head, tail) \<Rightarrow> grau_restante L head = ok 0)"
        obtain L' head' tail' where eq: "s' = (L', head', tail')" by (cases s')
        have "wp (while_run (\<lambda>(L, head, tail).
            if vazia head \<noteq> 1 then bnd (grau_restante L head) (\<lambda>g. ok (g = 0)) else ok False) recua s')
          (\<lambda>t. tour_inv n ?ns ?E v t \<and> restante n t < restante n s')"
          by (rule recuar [OF E _ _ eq]) (use s' eq in auto)
        then show "wp (while_run (\<lambda>(L, head, tail).
            if vazia head \<noteq> 1 then bnd (grau_restante L head) (\<lambda>g. ok (g = 0)) else ok False) recua s')
          (\<lambda>t. tour_inv n ?ns ?E v t \<and> restante n t < restante n s)"
          by (rule wp_conseq) (use s' in auto)
      qed
      then show ?thesis using False by (auto simp: at_end_def)
    qed
  qed
  show ?thesis
    unfolding trajeto_def wp_bnd head(1) wp_ok prod.case
  proof (rule wp_conseq [OF loop])
    fix s assume s: "tour_inv n ?ns ?E v s \<and> at_end s"
    obtain L' head' tail' where eq: "s = (L', head', tail')" by (cases s)
    obtain A' hs w where h: "holds_tour n ?ns A' hs w s" and T: "touring ?E v (arcs_of n A') hs w"
      using s by (auto simp: tour_inv_def)
    have "hs = []" using s h by (auto simp: eq at_end_def holds_tour_def vazia_de split: if_splits)
    with touring_end [of ?E v "arcs_of n A'" w] T h
    show "case s of (L', head, tail) \<Rightarrow> \<exists>A' w. adj_lists n L' A' \<and> names_of L' = names_of L \<and>
        pilha_de tail (rev w) \<and> set w \<subseteq> {0..<n} \<and> circuit (component ?E v) v w \<and>
        arcs_of n A' = ?E - component ?E v"
      by (auto simp: eq holds_tour_def)
  qed
qed

section \<open>The graph a file describes\<close>

definition add_name :: "string \<Rightarrow> string list \<Rightarrow> string list" where
  "add_name w ns = (if w \<in> set ns then ns else ns @ [w])"

definition nomes :: "(string \<times> string) list \<Rightarrow> string list" where
  "nomes es = foldl (\<lambda>ns (a, b). add_name b (add_name a ns)) [] es"

definition pos :: "string list \<Rightarrow> string \<Rightarrow> int" where
  "pos ns w = len (takeWhile (\<lambda>x. x \<noteq> w) ns)"

lemma pos_in: "w \<in> set ns \<Longrightarrow> 0 \<le> pos ns w \<and> pos ns w < len ns \<and> at ns (pos ns w) = w"
  by (induction ns) (auto simp: pos_def at_def nat_add_distrib)

lemma pos_add: "x \<in> set ns \<Longrightarrow> pos (add_name w ns) x = pos ns x"
  by (induction ns) (auto simp: pos_def add_name_def)

lemma pos_new: "w \<notin> set ns \<Longrightarrow> pos (add_name w ns) w = len ns"
  by (induction ns) (auto simp: pos_def add_name_def)

lemma pos_first:
  assumes "0 \<le> i" "i < len ns" "at ns i = w" "\<forall>j. 0 \<le> j \<and> j < i \<longrightarrow> at ns j \<noteq> w"
  shows "pos ns w = i"
proof -
  have "w \<in> set ns" using assms by auto
  with pos_in [of w ns] assms(4) have "\<not> pos ns w < i" by blast
  moreover have "\<not> i < pos ns w"
  proof
    assume "i < pos ns w"
    then have l: "nat i < length (takeWhile (\<lambda>x. x \<noteq> w) ns)" using assms(1) by (simp add: pos_def nat_less_iff)
    then have "takeWhile (\<lambda>x. x \<noteq> w) ns ! nat i \<noteq> w" using nth_mem set_takeWhileD by fast
    with takeWhile_nth [OF l] assms(3) show False by (simp add: at_def)
  qed
  ultimately show ?thesis by linarith
qed

lemma pos_at: "distinct ns \<Longrightarrow> 0 \<le> i \<Longrightarrow> i < len ns \<Longrightarrow> pos ns (at ns i) = i"
  using pos_in [of "at ns i" ns] by (auto simp: at_def nth_eq_iff_index_eq)

lemma add_name_set [simp]: "set (add_name w ns) = insert w (set ns)" "distinct ns \<Longrightarrow> distinct (add_name w ns)"
  by (auto simp: add_name_def)

lemma nomes_snoc: "nomes (es @ [(a, b)]) = add_name b (add_name a (nomes es))"
  by (simp add: nomes_def)

lemma nomes_set: "set (nomes es) = fst ` set es \<union> snd ` set es" "distinct (nomes es)"
proof (induction es rule: rev_induct)
  case (snoc e es)
  obtain a b where e: "e = (a, b)" by (cases e)
  { case 1 from snoc(1) show ?case by (simp add: e nomes_snoc) }
  { case 2 from snoc(2) show ?case by (simp add: e nomes_snoc) }
qed (simp_all add: nomes_def)

text \<open>What is stored of the vertex \<open>u\<close> after the arcs \<open>es\<close> have been read.\<close>

definition vert_ok :: "string list \<Rightarrow> (string \<times> string) list \<Rightarrow> string \<Rightarrow> vertice \<Rightarrow> bool" where
  "vert_ok ns es u x \<longleftrightarrow> nome x = u \<and>
     pilha_de (adjacentes x) (map (\<lambda>e. pos ns (snd e)) (filter (\<lambda>e. fst e = u) es)) \<and>
     grau_saida x = int (outdeg (mset es) u) \<and> grau_entrada x = int (indeg (mset es) u)"

definition graph_list :: "string list \<Rightarrow> (string \<times> string) list \<Rightarrow> lstVertice \<Rightarrow> bool" where
  "graph_list ns es l \<longleftrightarrow> ult l = len ns - 1 \<and> len ns \<le> N_MAX \<and> len (lista l) = N_MAX \<and>
     (\<forall>i. 0 \<le> i \<and> i < len ns \<longrightarrow> vert_ok ns es (at ns i) (at (lista l) i)) \<and>
     (\<forall>i. len ns \<le> i \<and> i < N_MAX \<longrightarrow> at (lista l) i = vertice_zero)"

lemma graph_list_start: "graph_list [] [] listav"
  by (auto simp: graph_list_def listav_def at_def)

lemma procura_ok:
  assumes g: "graph_list ns es l"
  shows "procura l w = ok (if w \<in> set ns then Inl (pos ns w) else Inr (len ns))"
  unfolding procura_def wp_eq_ok [symmetric]
proof (rule wp_loop [where I = "\<lambda>i. 0 \<le> i \<and> i \<le> len ns \<and> (\<forall>j. 0 \<le> j \<and> j < i \<longrightarrow> at ns j \<noteq> w)" and m = "\<lambda>i. nat (len ns - i)"])
  fix i assume i: "0 \<le> i \<and> i \<le> len ns \<and> (\<forall>j. 0 \<le> j \<and> j < i \<longrightarrow> at ns j \<noteq> w)"
  show "wp (if i \<le> ult l then bnd (rd (lista l) i) (\<lambda>x. if nome x = w then ok (Inr (Inl i)) else ok (Inl (i + 1)))
      else ok (Inr (Inr i)))
    (\<lambda>x. case x of Inl s' \<Rightarrow> (0 \<le> s' \<and> s' \<le> len ns \<and> (\<forall>j. 0 \<le> j \<and> j < s' \<longrightarrow> at ns j \<noteq> w)) \<and> nat (len ns - s') < nat (len ns - i)
      | Inr r \<Rightarrow> r = (if w \<in> set ns then Inl (pos ns w) else Inr (len ns)))"
  proof (cases "i \<le> ult l")
    case True
    then have il: "i < len ns" "i < len (lista l)" and n: "nome (at (lista l) i) = at ns i"
      using g i by (auto simp: graph_list_def vert_ok_def)
    have "pos ns w = i \<and> w \<in> set ns" if "at ns i = w"
      using that pos_first i il by auto
    moreover have "j < i + 1 \<longleftrightarrow> j < i \<or> j = i" for j by auto
    ultimately show ?thesis using True i il n by (cases "at ns i = w") (simp_all add: rd_in, blast)
  next
    case False
    then have "i = len ns" using g i by (auto simp: graph_list_def)
    then have "w \<notin> set ns" using i by (auto simp: in_set_at)
    with False \<open>i = len ns\<close> show ?thesis by simp
  qed
qed auto

lemma vert_ok_add: "vert_ok ns es u x \<Longrightarrow> (\<forall>e \<in> set es. snd e \<in> set ns) \<Longrightarrow> vert_ok (add_name w ns) es u x"
proof -
  assume x: "vert_ok ns es u x" and es: "\<forall>e \<in> set es. snd e \<in> set ns"
  have "map (\<lambda>e. pos (add_name w ns) (snd e)) (filter (\<lambda>e. fst e = u) es) = map (\<lambda>e. pos ns (snd e)) (filter (\<lambda>e. fst e = u) es)"
    using es by (intro map_cong) (auto simp: pos_add)
  with x show ?thesis unfolding vert_ok_def by (simp only:)
qed

lemma vert_ok_new:
  "until_nul w = w \<Longrightarrow> (\<forall>e \<in> set es. fst e \<noteq> w \<and> snd e \<noteq> w) \<Longrightarrow> vert_ok ns es w (novo_vertice w)"
  by (auto simp: vert_ok_def novo_vertice_def outdeg_def indeg_def filter_mset_eq_mempty_iff filter_empty_conv)

lemma Inserevertice_ok:
  assumes g: "graph_list ns es l" and es: "\<forall>e \<in> set es. fst e \<in> set ns \<and> snd e \<in> set ns"
    and w: "until_nul w = w" and n: "length (add_name w ns) \<le> 300"
  shows "wp (Inserevertice l (novo_vertice w)) (\<lambda>(l', i). i = pos (add_name w ns) w \<and> graph_list (add_name w ns) es l')"
proof (cases "w \<in> set ns")
  case True
  then have "0 \<le> ult l" using g by (cases ns) (auto simp: graph_list_def)
  moreover have "nome (novo_vertice w) = w" using w by (simp add: novo_vertice_def)
  ultimately show ?thesis
    using g True pos_add [OF True, of w] by (simp add: Inserevertice_def procura_ok [OF g] add_name_def)
next
  case False
  have u: "ult l = len ns - 1" and L: "len (lista l) = N_MAX" using g by (auto simp: graph_list_def)
  have n': "len ns < N_MAX" using n False by (simp add: add_name_def)
  have ns: "add_name w ns = ns @ [w]" using False by (simp add: add_name_def)
  have nome: "nome (novo_vertice w) = w" using w by (simp add: novo_vertice_def)
  let ?l = "\<lparr>ult = len ns, lista = upd (lista l) (len ns) (novo_vertice w)\<rparr>"
  have "acrescenta l (novo_vertice w) = ok (?l, len ns)"
    using n' L by (simp add: acrescenta_def u wr_in)
  then have run: "Inserevertice l (novo_vertice w) = ok (?l, len ns)"
    using False n' u by (cases ns) (simp_all add: Inserevertice_def procura_ok [OF g] nome)
  have "vert_ok (add_name w ns) es (at (add_name w ns) i) (at (lista ?l) i)" if i: "0 \<le> i" "i < len (add_name w ns)" for i
  proof (cases "i < len ns")
    case True
    then have "vert_ok ns es (at ns i) (at (lista l) i)" using g i by (simp add: graph_list_def)
    with True i es L n' show ?thesis
      using vert_ok_add [of ns es "at ns i" "at (lista l) i" w] by (simp add: ns at_append at_upd)
  next
    case False
    then have "i = len ns" using i by (simp add: ns)
    moreover have "vert_ok (add_name w ns) es w (novo_vertice w)"
      using es \<open>w \<notin> set ns\<close> w by (intro vert_ok_new) auto
    ultimately show ?thesis using L n' by (simp add: ns at_append at_upd at_def [of "[w]"])
  qed
  then have "graph_list (add_name w ns) es ?l"
    using g L n' by (auto simp: graph_list_def at_upd ns)
  then show ?thesis using run pos_new [OF False] by simp
qed

lemma wp_no_vertice:
  "0 \<le> i \<Longrightarrow> i < len (lista l) \<Longrightarrow> wp (f (at (lista l) i)) (\<lambda>x. Q (l\<lparr>lista := upd (lista l) i x\<rparr>)) \<Longrightarrow> wp (no_vertice f i l) Q"
  by (simp add: no_vertice_def)

lemma aresta_ok:
  assumes g: "graph_list ns es l" and es: "\<forall>e \<in> set es. fst e \<in> set ns \<and> snd e \<in> set ns" and d: "distinct ns"
    and w: "until_nul a = a" "until_nul b = b" and n: "length (add_name b (add_name a ns)) \<le> 300" and m: "length es < 300"
  shows "wp (aresta a b l) (graph_list (add_name b (add_name a ns)) (es @ [(a, b)]))"
proof -
  let ?n1 = "add_name a ns" and ?n2 = "add_name b (add_name a ns)"
  have n1: "length ?n1 \<le> 300" using n by (auto simp: add_name_def split: if_splits)
  obtain l1 where l1: "Inserevertice l (novo_vertice a) = ok (l1, pos ?n1 a)" "graph_list ?n1 es l1"
    using Inserevertice_ok [OF g es w(1) n1] by (auto simp: wp_iff)
  have es1: "\<forall>e \<in> set es. fst e \<in> set ?n1 \<and> snd e \<in> set ?n1" using es by auto
  obtain l2 where l2: "Inserevertice l1 (novo_vertice b) = ok (l2, pos ?n2 b)" "graph_list ?n2 es l2"
    using Inserevertice_ok [OF l1(2) es1 w(2) n] by (auto simp: wp_iff)
  define i where "i = pos ?n2 a"
  define j where "j = pos ?n2 b"
  have "pos ?n1 a = i" unfolding i_def by (rule pos_add [symmetric]) simp
  note run = l1(1) [unfolded this] l2(1) [folded j_def]
  have ij: "0 \<le> i" "i < len ?n2" "at ?n2 i = a" "0 \<le> j" "j < len ?n2" "at ?n2 j = b"
    unfolding i_def j_def using pos_in [of a ?n2] pos_in [of b ?n2] by auto
  have L: "len (lista l2) = N_MAX" "len ?n2 \<le> N_MAX" "ult l2 = len ?n2 - 1" using l2(2) by (auto simp: graph_list_def)
  have V: "vert_ok ?n2 es (at ?n2 k) (at (lista l2) k)" if "0 \<le> k" "k < len ?n2" for k
    using l2(2) that by (simp add: graph_list_def)
  have size: "outdeg (mset es) u \<le> length es" "indeg (mset es) u \<le> length es" for u
    by (simp_all add: outdeg_def indeg_def mset_filter [symmetric] del: mset_filter)
  have key: "k = i \<longleftrightarrow> at ?n2 k = a" "k = j \<longleftrightarrow> at ?n2 k = b" if "0 \<le> k" "k < len ?n2" for k
    using that ij d pos_at [of ?n2 k] unfolding i_def j_def by auto
  let ?L = "lista l2" and ?x = "at (lista l2) i"
  define L1 where "L1 = upd ?L i (?x\<lparr>grau_saida := grau_saida ?x + 1\<rparr>)"
  define L2 where "L2 = upd L1 j ((at L1 j)\<lparr>grau_entrada := grau_entrada (at ?L j) + 1\<rparr>)"
  have len: "len L1 = N_MAX" "len L2 = N_MAX" using L by (simp_all add: L1_def L2_def)
  let ?out = "\<lambda>u. map (\<lambda>e. pos ?n2 (snd e)) (filter (\<lambda>e. fst e = u) es)"
  have adj: "adjacentes (at L2 i) = adjacentes ?x" "grau_entrada (at L1 j) = grau_entrada (at ?L j)"
    using ij L len by (auto simp: L1_def L2_def at_upd)
  have fits: "grau_saida ?x + 1 \<le> int_max" "0 \<le> grau_saida ?x" "grau_entrada (at ?L j) + 1 \<le> int_max" "0 \<le> grau_entrada (at ?L j)"
    using V [of i] V [of j] ij size [of a] size [of b] m by (simp_all add: vert_ok_def)
  have p0: "pilha_de (adjacentes ?x) (?out a)" using V [of i] ij by (simp add: vert_ok_def)
  have "len (?out a) < N_MAX" using m by (auto intro: le_less_trans [OF length_filter_le])
  from Insere_de [OF p0 this, of j] obtain p where p: "Insere (adjacentes ?x) j = ok (p, 1)" "pilha_de p (?out a @ [j])"
    by (auto simp: wp_iff)
  define L3 where "L3 = upd L2 i ((at L2 i)\<lparr>adjacentes := p\<rparr>)"
  have at3: "at L3 k = (at ?L k)\<lparr>grau_saida := grau_saida (at ?L k) + (if k = i then 1 else 0),
      grau_entrada := grau_entrada (at ?L k) + (if k = j then 1 else 0),
      adjacentes := if k = i then p else adjacentes (at ?L k)\<rparr>" if "0 \<le> k" for k
    using that ij L len by (auto simp: L1_def L2_def L3_def at_upd)
  have "vert_ok ?n2 (es @ [(a, b)]) (at ?n2 k) (at L3 k)" if k: "0 \<le> k" "k < len ?n2" for k
    using V [OF k] key [OF k] p(2) by (auto simp: at3 [OF k(1)] vert_ok_def j_def)
  moreover have "at L3 k = vertice_zero" if "len ?n2 \<le> k" "k < N_MAX" for k
    using l2(2) that ij at3 [of k] by (auto simp: graph_list_def)
  ultimately have "graph_list ?n2 (es @ [(a, b)]) (l2\<lparr>lista := L3\<rparr>)"
    using L len by (simp add: graph_list_def L3_def)
  then show ?thesis
    unfolding aresta_def run wp_bnd
    using ij L len fits p(1) adj
    by (auto intro!: wp_no_vertice simp: run L1_def [symmetric] L2_def [symmetric] L3_def [symmetric])
qed

section \<open>The text of the file\<close>

definition linha :: "string \<times> string \<Rightarrow> string" where
  "linha = (\<lambda>(a, b). a @ '' '' @ b @ nl)"

definition word_ok :: "string \<Rightarrow> bool" where
  "word_ok w \<longleftrightarrow> length w < 10 \<and> list_all (\<lambda>c. \<not> separador c \<and> code c \<noteq> 0) w"

lemma separador_simps [simp]: "separador (CHR '' '')" "separador (CHR 0xFF)" "separador (CHR 0x0A)"
  by (simp_all add: separador_def)

lemma palavra_ok:
  "list_all (\<lambda>c. \<not> separador c) w \<Longrightarrow> i + len w \<le> 10 \<Longrightarrow> separador ch \<Longrightarrow> palavra i (w @ ch # r) = ok (w, ch, r)"
  by (induction w arbitrary: i) auto

lemma palavra_end:
  "list_all (\<lambda>c. \<not> separador c) w \<Longrightarrow> i + len w \<le> 10 \<Longrightarrow> palavra i w = ok (w, CHR 0xFF, [])"
  by (induction w arbitrary: i) auto

lemma word_ok_simps:
  assumes "word_ok w"
  shows "list_all (\<lambda>c. \<not> separador c) w" "len w \<le> 10" "fits 10 w = ok ()" "until_nul w = w" "length w \<le> 9"
  using assms by (auto simp: word_ok_def list_all_iff fits_def until_nul_def takeWhile_eq_all_conv)

lemma leialinha_ok:
  assumes "word_ok a" "word_ok b"
  shows "leialinha (linha (a, b) @ r) = ok (1, a, b, r)"
proof -
  have "dropWhile (\<lambda>c. c = CHR '' '') (b @ nl @ r) = b @ nl @ r"
    using word_ok_simps(1) [OF assms(2)] by (cases b) (auto simp: separador_def)
  then show ?thesis
    using palavra_ok [of a 0 "CHR '' ''" "b @ nl @ r"] palavra_ok [of b 0 "CHR 0x0A" r]
      word_ok_simps [OF assms(1)] word_ok_simps [OF assms(2)]
    by (simp add: leialinha_def linha_def fim_da_linha_def)
qed

text \<open>A last line without its newline is reported as the end of the file.\<close>

lemma leialinha_last:
  assumes "word_ok a" "word_ok b"
  shows "\<exists>v1 v2 r. leialinha (a @ '' '' @ b) = ok (2, v1, v2, r)"
proof -
  have "dropWhile (\<lambda>c. c = CHR '' '') b = b"
    using word_ok_simps(1) [OF assms(2)] by (cases b) (auto simp: separador_def)
  then show ?thesis
    using palavra_ok [of a 0 "CHR '' ''" b] palavra_end [of b 0] word_ok_simps [OF assms(1)] word_ok_simps [OF assms(2)]
    by (simp add: leialinha_def fim_da_linha_def)
qed

lemma primeira_linha_ok:
  "list_all (\<lambda>c. c \<noteq> CHR 0x0A) h \<Longrightarrow> primeira_linha (h @ nl @ r) = ok r"
proof -
  have "list_all (\<lambda>c. c \<noteq> CHR 0x0A) t \<Longrightarrow>
      loop (\<lambda>(ch, s). ok (if ch \<noteq> CHR 0x0A then Inl (getc s) else Inr s)) (getc (t @ nl @ r)) = ok r" for t
    by (induction t) (subst loop_unfold, simp add: getc_def)+
  then show "list_all (\<lambda>c. c \<noteq> CHR 0x0A) h \<Longrightarrow> primeira_linha (h @ nl @ r) = ok r"
    by (simp add: primeira_linha_def)
qed

lemma primeira_linha_diverges:
  assumes "list_all (\<lambda>c. c \<noteq> CHR 0x0A) h"
  shows "primeira_linha h = None"
  unfolding primeira_linha_def
proof (rule loop_diverges [where I = "\<lambda>(ch, s). ch \<noteq> CHR 0x0A \<and> list_all (\<lambda>c. c \<noteq> CHR 0x0A) s"])
  show "case getc h of (ch, s) \<Rightarrow> ch \<noteq> CHR 0x0A \<and> list_all (\<lambda>c. c \<noteq> CHR 0x0A) s"
    using assms by (cases h) (auto simp: getc_def)
next
  fix x :: "char \<times> string" assume "case x of (ch, s) \<Rightarrow> ch \<noteq> CHR 0x0A \<and> list_all (\<lambda>c. c \<noteq> CHR 0x0A) s"
  then show "\<exists>s'. (case x of (ch, s) \<Rightarrow> ok (if ch \<noteq> CHR 0x0A then Inl (getc s) else Inr s)) = ok (Inl s') \<and>
      (case s' of (ch, s) \<Rightarrow> ch \<noteq> CHR 0x0A \<and> list_all (\<lambda>c. c \<noteq> CHR 0x0A) s)"
    by (cases x; cases "snd x") (auto simp: getc_def)
qed

lemma nomes_prefix: "length (nomes xs) \<le> length (nomes (xs @ ys))"
proof (induction ys rule: rev_induct)
  case (snoc y ys)
  have "length ns \<le> length (add_name w ns)" for w ns by (simp add: add_name_def)
  then have "length (nomes (xs @ ys)) \<le> length (nomes ((xs @ ys) @ [y]))"
    by (cases y) (metis le_trans nomes_snoc)
  with snoc show ?case by simp
qed simp

definition file_ok :: "(string \<times> string) list \<Rightarrow> bool" where
  "file_ok es \<longleftrightarrow> list_all (\<lambda>(a, b). word_ok a \<and> word_ok b) es \<and> length es < 300 \<and> length (nomes es) \<le> 300"

lemma lerarq_ok:
  assumes h: "list_all (\<lambda>c. c \<noteq> CHR 0x0A) h" and es: "file_ok es"
    and rest: "\<exists>v1 v2 r. leialinha rest = ok (2, v1, v2, r)"
  shows "wp (lerarq (h @ nl @ concat (map linha es) @ rest) listav) (graph_list (nomes es) es)"
  unfolding lerarq_def primeira_linha_ok [OF h] wp_bnd wp_ok
proof (rule wp_loop_list [where I = "\<lambda>xs (s, l). s = concat (map linha xs) @ rest \<and>
      (\<exists>pre. es = pre @ xs \<and> graph_list (nomes pre) pre l)" and xs = es])
  show "case (concat (map linha es) @ rest, listav) of (s, l) \<Rightarrow> s = concat (map linha es) @ rest \<and>
      (\<exists>pre. es = pre @ es \<and> graph_list (nomes pre) pre l)"
    using graph_list_start by (simp add: nomes_def)
next
  fix e xs and x :: "string \<times> lstVertice"
  assume I: "case x of (s, l) \<Rightarrow> s = concat (map linha (e # xs)) @ rest \<and>
      (\<exists>pre. es = pre @ e # xs \<and> graph_list (nomes pre) pre l)"
  obtain s l where x: "x = (s, l)" by (cases x)
  obtain a b where e: "e = (a, b)" by (cases e)
  from I obtain pre where s: "s = linha (a, b) @ concat (map linha xs) @ rest" and pre: "es = pre @ (a, b) # xs"
    and g: "graph_list (nomes pre) pre l" by (auto simp: x e)
  have ab: "word_ok a" "word_ok b" using es by (simp_all add: pre file_ok_def)
  have l: "length pre < 300" using es by (simp add: pre file_ok_def)
  have n: "length (nomes (pre @ [(a, b)])) \<le> 300"
    using nomes_prefix [of "pre @ [(a, b)]" xs] es by (simp add: pre file_ok_def)
  have ends: "\<forall>e \<in> set pre. fst e \<in> set (nomes pre) \<and> snd e \<in> set (nomes pre)" by (auto simp: nomes_set(1))
  from aresta_ok [OF g ends nomes_set(2) word_ok_simps(4) [OF ab(1)] word_ok_simps(4) [OF ab(2)] n [unfolded nomes_snoc] l]
  have "wp (aresta a b l) (graph_list (nomes (pre @ [(a, b)])) (pre @ [(a, b)]))" by (simp add: nomes_snoc)
  then show "wp (case x of (s, l) \<Rightarrow> bnd (leialinha s) (\<lambda>(fim, v1, v2, s).
       if fim \<noteq> 2 then bnd (aresta v1 v2 l) (\<lambda>l. ok (Inl (s, l))) else ok (Inr l)))
     (\<lambda>r. case r of Inl s' \<Rightarrow> (case s' of (s, l) \<Rightarrow> s = concat (map linha xs) @ rest \<and>
        (\<exists>pre. es = pre @ xs \<and> graph_list (nomes pre) pre l)) | Inr y \<Rightarrow> graph_list (nomes es) es y)"
    using leialinha_ok [OF ab, of "concat (map linha xs) @ rest"]
    by (simp add: x s pre)
next
  fix x :: "string \<times> lstVertice"
  assume "case x of (s, l) \<Rightarrow> s = concat (map linha []) @ rest \<and> (\<exists>pre. es = pre @ [] \<and> graph_list (nomes pre) pre l)"
  with rest show "wp (case x of (s, l) \<Rightarrow> bnd (leialinha s) (\<lambda>(fim, v1, v2, s).
       if fim \<noteq> 2 then bnd (aresta v1 v2 l) (\<lambda>l. ok (Inl (s, l))) else ok (Inr l)))
     (\<lambda>r. case r of Inl s' \<Rightarrow> False | Inr y \<Rightarrow> graph_list (nomes es) es y)"
    by auto
qed

section \<open>From the stored graph to the file and back\<close>

definition adj_of :: "string list \<Rightarrow> (string \<times> string) list \<Rightarrow> int \<Rightarrow> int list" where
  "adj_of ns es i = map (\<lambda>e. pos ns (snd e)) (filter (\<lambda>e. fst e = at ns i) es)"

lemma graph_list_adj:
  assumes "graph_list ns es l" "\<forall>e \<in> set es. snd e \<in> set ns"
  shows "adj_lists (len ns) (lista l) (adj_of ns es)"
proof -
  have "0 \<le> pos ns (snd e) \<and> pos ns (snd e) < len ns" if "e \<in> set es" for e
    using pos_in [of "snd e" ns] assms(2) that by blast
  then show ?thesis
    using assms(1) by (auto simp: adj_lists_def graph_list_def vert_ok_def adj_of_def)
qed

lemma arcs_of_adj:
  assumes "distinct ns"
  shows "\<forall>e \<in> set es. fst e \<in> set ns \<Longrightarrow>
    arcs_of (len ns) (adj_of ns es) = mset (map (\<lambda>e. (pos ns (fst e), pos ns (snd e))) es)"
proof (induction es)
  case Nil
  show ?case by (simp add: arcs_of_def adj_of_def)
next
  case (Cons e es)
  have e: "0 \<le> pos ns (fst e)" "pos ns (fst e) < len ns" "at ns (pos ns (fst e)) = fst e"
    using Cons.prems pos_in by auto
  have key: "fst e = at ns i \<longleftrightarrow> i = pos ns (fst e)" if "i \<in> {0..<len ns}" for i
    using e that pos_at [OF assms, of i] by auto
  have "arcs_of (len ns) (adj_of ns (e # es)) =
      (\<Sum>i \<in> {0..<len ns}. (if i = pos ns (fst e) then {#(i, pos ns (snd e))#} else {#}) + image_mset (Pair i) (mset (adj_of ns es i)))"
    unfolding arcs_of_def by (rule sum.cong) (auto simp: adj_of_def key)
  also have "\<dots> = {#(pos ns (fst e), pos ns (snd e))#} + arcs_of (len ns) (adj_of ns es)"
    using e by (simp add: sum.distrib arcs_of_def)
  finally show ?case using Cons by simp
qed

lemma arcs_of_file:
  assumes "distinct ns" "\<forall>e \<in> set es. fst e \<in> set ns \<and> snd e \<in> set ns"
  shows "image_mset (map_prod (at ns) (at ns)) (arcs_of (len ns) (adj_of ns es)) = mset es"
    "on_verts {0..<len ns} (arcs_of (len ns) (adj_of ns es))" "inj_on (at ns) {0..<len ns}"
proof -
  have e: "at ns (pos ns (fst e)) = fst e \<and> at ns (pos ns (snd e)) = snd e \<and> pos ns (fst e) \<in> {0..<len ns} \<and>
      pos ns (snd e) \<in> {0..<len ns}" if "e \<in> set es" for e
    using assms(2) that pos_in [of "fst e" ns] pos_in [of "snd e" ns] by auto
  have a: "arcs_of (len ns) (adj_of ns es) = mset (map (\<lambda>e. (pos ns (fst e), pos ns (snd e))) es)"
    by (rule arcs_of_adj) (use assms in auto)
  have "map (map_prod (at ns) (at ns)) (map (\<lambda>e. (pos ns (fst e), pos ns (snd e))) es) = es"
    unfolding map_map by (rule map_idI) (use e in \<open>simp add: prod_eq_iff\<close>)
  then show "image_mset (map_prod (at ns) (at ns)) (arcs_of (len ns) (adj_of ns es)) = mset es"
    by (metis a mset_map)
  show "on_verts {0..<len ns} (arcs_of (len ns) (adj_of ns es))"
    using e by (force simp: on_verts_def a)
  show "inj_on (at ns) {0..<len ns}"
    by (rule inj_on_inverseI [where g = "pos ns"]) (use pos_at [OF assms(1)] in auto)
qed

lemma acha_inicial_ok:
  assumes g: "graph_list ns es l" and w: "w \<in> set ns" "until_nul w = w"
  shows "acha_inicial (lista l) w = ok (pos ns w)"
  unfolding acha_inicial_def wp_eq_ok [symmetric]
proof (rule wp_loop [where I = "\<lambda>i. 0 \<le> i \<and> i < len ns \<and> (\<forall>j. 0 \<le> j \<and> j < i \<longrightarrow> at ns j \<noteq> w)" and m = "\<lambda>i. nat (len ns - i)"])
  show "0 \<le> (0 :: int) \<and> 0 < len ns \<and> (\<forall>j. 0 \<le> j \<and> j < (0 :: int) \<longrightarrow> at ns j \<noteq> w)" using w by (cases ns) auto
next
  fix i assume i: "0 \<le> i \<and> i < len ns \<and> (\<forall>j. 0 \<le> j \<and> j < i \<longrightarrow> at ns j \<noteq> w)"
  then have n: "nome (at (lista l) i) = at ns i" "i < len (lista l)" "i \<le> N_MAX"
    using g by (auto simp: graph_list_def vert_ok_def)
  have "i + 1 < len ns" if "at ns i \<noteq> w"
  proof (rule ccontr)
    assume "\<not> i + 1 < len ns"
    then have "at ns j \<noteq> w" if "0 \<le> j" "j < len ns" for j
      using i that \<open>at ns i \<noteq> w\<close> by (cases "j = i") auto
    then show False using w(1) by (auto simp: in_set_at)
  qed
  moreover have "j < i + 1 \<longleftrightarrow> j < i \<or> j = i" for j by auto
  ultimately show "wp (bnd (rd (lista l) i) (\<lambda>x. if nome x \<noteq> until_nul w \<and> i \<le> N_MAX then ok (Inl (i + 1)) else ok (Inr i)))
     (\<lambda>x. case x of Inl s' \<Rightarrow> (0 \<le> s' \<and> s' < len ns \<and> (\<forall>j. 0 \<le> j \<and> j < s' \<longrightarrow> at ns j \<noteq> w)) \<and> nat (len ns - s') < nat (len ns - i)
      | Inr r \<Rightarrow> r = pos ns w)"
    using i n w(2) pos_first [of i ns w] by (cases "at ns i = w") (simp_all add: rd_in, blast)
qed

lemma desconexo_ok:
  assumes "adj_lists n (lista l) A" "ult l = n - 1"
  shows "desconexo l = ok (arcs_of n A \<noteq> {#})"
proof -
  have e: "arcs_of n A \<noteq> {#} \<longleftrightarrow> (\<exists>i. 0 \<le> i \<and> i < n \<and> A i \<noteq> [])"
    unfolding size_eq_0_iff_empty [symmetric] size_arcs_of by auto
  show ?thesis
    unfolding desconexo_def wp_eq_ok [symmetric]
  proof (rule wp_loop [where I = "\<lambda>i. 0 \<le> i \<and> i \<le> n \<and> (\<forall>j. 0 \<le> j \<and> j < i \<longrightarrow> A j = [])" and m = "\<lambda>i. nat (n - i)"])
    fix i assume i: "0 \<le> i \<and> i \<le> n \<and> (\<forall>j. 0 \<le> j \<and> j < i \<longrightarrow> A j = [])"
    show "wp (if i \<le> ult l then bnd (rd (lista l) i) (\<lambda>x. if Tamanho (adjacentes x) \<noteq> 0 then ok (Inr True) else ok (Inl (i + 1)))
        else ok (Inr False))
      (\<lambda>x. case x of Inl s' \<Rightarrow> (0 \<le> s' \<and> s' \<le> n \<and> (\<forall>j. 0 \<le> j \<and> j < s' \<longrightarrow> A j = [])) \<and> nat (n - s') < nat (n - i)
        | Inr r \<Rightarrow> r = (arcs_of n A \<noteq> {#}))"
    proof (cases "i < n")
      case True
      then have "Tamanho (adjacentes (at (lista l) i)) = len (A i)" "i < len (lista l)"
        using i assms(1) by (auto simp: adj_lists_def intro: Tamanho_de)
      moreover have "j < i + 1 \<longleftrightarrow> j < i \<or> j = i" for j by auto
      ultimately show ?thesis using True i assms(2) by (cases "A i = []") (auto simp: e)
    next
      case False
      then show ?thesis using i assms(2) by (auto simp: e)
    qed
  qed (use assms in \<open>auto simp: adj_lists_def\<close>)
qed

lemma imprime_ok:
  assumes "pilha_de tail (rev w)" "\<forall>v \<in> set w. 0 \<le> v \<and> v < len L"
  shows "imprime L tail = ok (concat (map (\<lambda>v. nome (at L v) @ '' '') w) @ nl @ nl)"
proof -
  let ?p = "\<lambda>v. nome (at L v) @ '' ''"
  have "wp (while_run (\<lambda>(tail, out). ok (vazia tail \<noteq> 1))
     (\<lambda>(tail, out). bnd (Tiratopo tail) (\<lambda>(tail, v). bnd (rd L v) (\<lambda>x. ok (tail, out @ nome x @ '' ''))))
     (tail, [])) (\<lambda>(tail, out). out = concat (map ?p w))"
  proof (rule wp_while_list [where I = "\<lambda>xs (tail, out). pilha_de tail (rev xs) \<and> (\<forall>v \<in> set xs. 0 \<le> v \<and> v < len L) \<and>
      out @ concat (map ?p xs) = concat (map ?p w)" and xs = w])
    fix v xs and s :: "pilhaE \<times> string"
    assume I: "case s of (tail, txt) \<Rightarrow> pilha_de tail (rev (v # xs)) \<and> (\<forall>v \<in> set (v # xs). 0 \<le> v \<and> v < len L) \<and>
      txt @ concat (map ?p (v # xs)) = concat (map ?p w)"
    obtain tl tx where s: "s = (tl, tx)" by (cases s)
    have p: "pilha_de tl (rev xs @ [v])" and v: "0 \<le> v" "v < len L" using I by (simp_all add: s)
    obtain tl' where tl': "Tiratopo tl = ok (tl', v)" "pilha_de tl' (rev xs)"
      using Tiratopo_de [OF p] by (auto simp: wp_iff)
    have "vazia tl \<noteq> 1" using vazia_de [OF p] by simp
    with I tl' v show "wp (case s of (tail, txt) \<Rightarrow> ok (vazia tail \<noteq> 1)) (\<lambda>t. if t then
        wp (case s of (tail, txt) \<Rightarrow> bnd (Tiratopo tail) (\<lambda>(tail, v). bnd (rd L v) (\<lambda>x. ok (tail, txt @ nome x @ '' ''))))
          (\<lambda>(tail, out). pilha_de tail (rev xs) \<and> (\<forall>v \<in> set xs. 0 \<le> v \<and> v < len L) \<and> out @ concat (map ?p xs) = concat (map ?p w))
        else (case s of (tail, txt) \<Rightarrow> txt = concat (map ?p w)))"
      by (simp add: s rd_in)
  qed (use assms in \<open>auto simp: vazia_de\<close>)
  then show ?thesis by (auto simp: imprime_def wp_iff)
qed

section \<open>The program on a file\<close>

lemma file_ok_ends: "\<forall>e \<in> set es. fst e \<in> set (nomes es) \<and> snd e \<in> set (nomes es)"
  by (simp add: nomes_set(1))

lemma file_ok_names: "file_ok es \<Longrightarrow> w \<in> set (nomes es) \<Longrightarrow> word_ok w"
  by (auto simp: file_ok_def nomes_set(1) list_all_iff)

lemma percorre_ok:
  assumes g: "graph_list (nomes es) es l" and es: "file_ok es" "balanced (mset es)" and v: "v \<in> set (nomes es)"
    and scan: "scan_word (say entre_inicial s) = ok (s', v)"
  shows "\<exists>w. circuit (component (mset es) v) v w \<and>
    percorre l s = ok (1, say ((if component (mset es) v = mset es then txt_conexo else txt_desconexo) @
      concat (map (\<lambda>x. x @ '' '') w) @ nl @ nl) s')"
proof -
  let ?ns = "nomes es" and ?A = "adj_of (nomes es) es" and ?n = "len (nomes es)"
  let ?E = "arcs_of ?n ?A" and ?i = "pos (nomes es) v" and ?g = "at (nomes es)"
  note named = arcs_of_file [OF nomes_set(2) [of es] file_ok_ends [of es]]
  have L: "adj_lists ?n (lista l) ?A" by (rule graph_list_adj [OF g]) (use file_ok_ends in blast)
  have i: "0 \<le> ?i" "?i < ?n" "?g ?i = v" using pos_in [OF v] by auto
  have "balanced ?E" by (rule balanced_map [OF named(3,2)]) (simp add: named(1) es(2))
  moreover have "size ?E = length es" by (metis named(1) size_image_mset size_mset)
  ultimately obtain L' head tail A' w where t: "trajeto (lista l) ?i = ok (L', head, tail)"
    and A': "adj_lists ?n L' A'" "names_of L' = names_of (lista l)" and w: "pilha_de tail (rev w)" "set w \<subseteq> {0..<?n}"
      "circuit (component ?E ?i) ?i w" "arcs_of ?n A' = ?E - component ?E ?i"
    using trajeto_circuit [OF L _ _ i(1,2)] es(1) by (fastforce simp: wp_iff file_ok_def)
  have c: "circuit (component (mset es) v) v (map ?g w)"
    using circuit_map [OF named(3,2) _ w(3)] i by (simp add: named(1))
  have "component (mset es) v = image_mset (map_prod ?g ?g) (component ?E ?i)"
    using component_map [OF named(3,2), of ?i] i by (simp add: named(1))
  then have "size (component (mset es) v) = size (component ?E ?i)" by simp
  then have "component (mset es) v = mset es \<longleftrightarrow> component ?E ?i = ?E"
    using component_all [of "mset es" v] component_all [of ?E ?i] \<open>size ?E = length es\<close> by simp
  moreover have "component ?E ?i \<subseteq># ?E" by (simp add: component_def)
  ultimately have d: "desconexo (l\<lparr>lista := L'\<rparr>) = ok (component (mset es) v \<noteq> mset es)"
    using desconexo_ok [of ?n "l\<lparr>lista := L'\<rparr>" A'] A'(1) g
    by (auto simp: graph_list_def w(4) subset_mset.diff_diff_right Diff_eq_empty_iff_mset subset_mset.antisym)
  have len: "len L' = N_MAX" "len (lista l) = N_MAX" "?n \<le> N_MAX" using A'(1) g by (auto simp: adj_lists_def graph_list_def)
  have "nome (at L' u) = ?g u" if "u \<in> set w" for u
  proof -
    have u: "0 \<le> u" "u < ?n" using that w(2) by auto
    then have "nome (at L' u) = nome (at (lista l) u)"
      using A'(2) len by (metis at_def nth_map nat_less_iff less_le_trans)
    then show ?thesis using g u by (simp add: graph_list_def vert_ok_def)
  qed
  then have names: "map (\<lambda>v. nome (at L' v) @ '' '') w = map (\<lambda>x. x @ '' '') (map ?g w)" by simp
  have "\<forall>v \<in> set w. 0 \<le> v \<and> v < len L'" using w(2) len by auto
  then have p: "imprime L' tail = ok (concat (map (\<lambda>x. x @ '' '') (map ?g w)) @ nl @ nl)"
    using imprime_ok [OF w(1), of L'] unfolding names by blast
  have v': "fits 10 v = ok ()" "until_nul v = v" using word_ok_simps file_ok_names [OF es(1) v] by auto
  have "acha_inicial (lista l) v = ok ?i" by (rule acha_inicial_ok [OF g v v'(2)])
  then have "percorre l s = ok (1, say ((if component (mset es) v = mset es then txt_conexo else txt_desconexo) @
      concat (map (\<lambda>x. x @ '' '') (map ?g w)) @ nl @ nl) s')"
    using i(2) len v' t d p by (simp add: percorre_def scan)
  with c show ?thesis by blast
qed

text \<open>The loop over the lines, without and with an unfinished last line.\<close>

lemma leialinha_Nil: "\<exists>v1 v2 r. leialinha [] = ok (2, v1, v2, r)"
  by (simp add: leialinha_def)

lemma lerarq_rest:
  assumes h: "list_all (\<lambda>c. c \<noteq> CHR 0x0A) h" and es: "list_all (\<lambda>(a, b). word_ok a \<and> word_ok b) es"
    and rest: "\<exists>v1 v2 r. leialinha rest = ok (2, v1, v2, r)"
  shows "lerarq (h @ nl @ concat (map linha es) @ rest) l = lerarq (h @ nl @ concat (map linha es)) l"
proof -
  let ?f = "\<lambda>(s, l). bnd (leialinha s) (\<lambda>(fim, v1, v2, s).
       if fim \<noteq> 2 then bnd (aresta v1 v2 l) (\<lambda>l. ok (Inl (s, l))) else ok (Inr l))"
  have "list_all (\<lambda>(a, b). word_ok a \<and> word_ok b) es \<Longrightarrow>
      loop ?f (concat (map linha es) @ rest, l) = loop ?f (concat (map linha es), l)" for l
  proof (induction es arbitrary: l)
    case Nil
    show ?case using rest leialinha_Nil by (subst (1 2) loop_unfold) auto
  next
    case (Cons e es)
    obtain a b where e: "e = (a, b)" by (cases e)
    have ab: "word_ok a" "word_ok b" using Cons.prems by (simp_all add: e)
    have IH: "loop ?f (concat (map linha es) @ rest, l) = loop ?f (concat (map linha es), l)" for l
      using Cons by simp
    show ?case
      by (subst (1 2) loop_unfold, cases "aresta a b l" rule: run_cases)
        (simp_all add: e leialinha_ok [OF ab] IH)
  qed
  from this [OF es] have main: "loop ?f (concat (map linha es) @ rest, l) = loop ?f (concat (map linha es), l)" for l .
  show ?thesis
    using primeira_linha_ok [OF h, of "concat (map linha es) @ rest"] primeira_linha_ok [OF h, of "concat (map linha es)"] main
    by (simp add: lerarq_def)
qed

definition bad_degree :: "vertice \<Rightarrow> bool" where
  "bad_degree x \<longleftrightarrow> grau_entrada x \<noteq> grau_saida x"

lemma euleriano_ok:
  assumes "len L = N_MAX"
  shows "euleriano L = (if \<exists>i. 0 \<le> i \<and> i < N_MAX \<and> bad_degree (at L i) then ok False else fail Out_Of_Bounds)"
proof -
  let ?f = "\<lambda>vert_inic. if vert_inic \<le> N_MAX then
       bnd (rd L vert_inic) (\<lambda>x. if grau_entrada x \<noteq> grau_saida x then ok (Inr False) else ok (Inl (vert_inic + 1)))
     else ok (Inr True)"
  have "loop ?f i = (if \<exists>j. i \<le> j \<and> j < N_MAX \<and> bad_degree (at L j) then ok False else fail Out_Of_Bounds)"
    if "0 \<le> i" "i \<le> N_MAX" for i
    using that
  proof (induction "nat (N_MAX - i)" arbitrary: i)
    case 0
    then have "i = N_MAX" by simp
    then show ?case using assms by (subst loop_unfold) (auto simp: rd_def)
  next
    case (Suc k)
    have split: "(\<exists>j. i \<le> j \<and> j < N_MAX \<and> bad_degree (at L j)) \<longleftrightarrow>
        bad_degree (at L i) \<or> (\<exists>j. i + 1 \<le> j \<and> j < N_MAX \<and> bad_degree (at L j))"
      (is "?a \<longleftrightarrow> ?b \<or> ?c")
    proof
      assume ?a
      then obtain j where "i \<le> j" "j < N_MAX" "bad_degree (at L j)" by blast
      then show "?b \<or> ?c" by (cases "i = j") auto
    next
      assume "?b \<or> ?c"
      moreover have "i < N_MAX" using Suc.hyps(2) by simp
      moreover have "i \<le> j" if "i + 1 \<le> j" for j using that by simp
      ultimately show ?a by blast
    qed
    have IH: "loop ?f (i + 1) = (if \<exists>j. i + 1 \<le> j \<and> j < N_MAX \<and> bad_degree (at L j) then ok False else fail Out_Of_Bounds)"
      by (rule Suc.hyps) (use Suc in auto)
    have "i < len L" "i \<le> N_MAX" using Suc assms by auto
    then have "?f i = (if bad_degree (at L i) then ok (Inr False) else ok (Inl (i + 1)))"
      by (simp add: bad_degree_def rd_in Suc.prems(1))
    then show ?case by (subst loop_unfold) (simp add: split IH del: N_MAX_val, blast)
  qed
  from this [of 0] show ?thesis by (simp add: euleriano_def)
qed

lemma bad_degree_file:
  assumes g: "graph_list (nomes es) es l"
  shows "(\<exists>i. 0 \<le> i \<and> i < N_MAX \<and> bad_degree (at (lista l) i)) \<longleftrightarrow> \<not> balanced (mset es)"
proof
  assume "\<exists>i. 0 \<le> i \<and> i < N_MAX \<and> bad_degree (at (lista l) i)"
  then obtain i where i: "0 \<le> i" "i < N_MAX" "bad_degree (at (lista l) i)" by blast
  have "i < len (nomes es)"
  proof (rule ccontr)
    assume "\<not> i < len (nomes es)"
    then have "at (lista l) i = vertice_zero" using g i by (simp add: graph_list_def)
    with i(3) show False by (simp add: bad_degree_def vertice_zero_def)
  qed
  then have "vert_ok (nomes es) es (at (nomes es) i) (at (lista l) i)" using g i by (simp add: graph_list_def)
  then have "outdeg (mset es) (at (nomes es) i) \<noteq> indeg (mset es) (at (nomes es) i)"
    using i(3) by (simp add: vert_ok_def bad_degree_def)
  then show "\<not> balanced (mset es)" unfolding balanced_def by blast
next
  assume "\<not> balanced (mset es)"
  then obtain u where u: "outdeg (mset es) u \<noteq> indeg (mset es) u" by (auto simp: balanced_def)
  have "u \<in> set (nomes es)"
  proof (rule ccontr)
    assume "u \<notin> set (nomes es)"
    then have "\<forall>e \<in> set es. fst e \<noteq> u \<and> snd e \<noteq> u" by (auto simp: nomes_set(1))
    then have "filter_mset (\<lambda>e. fst e = u) (mset es) = {#}" "filter_mset (\<lambda>e. snd e = u) (mset es) = {#}"
      by (simp_all add: filter_mset_eq_mempty_iff)
    with u show False unfolding outdeg_def indeg_def by (simp only: size_empty)
  qed
  note p = pos_in [OF this]
  then have "vert_ok (nomes es) es u (at (lista l) (pos (nomes es) u))" "pos (nomes es) u < N_MAX"
    using g by (auto simp: graph_list_def)
  with p u show "\<exists>i. 0 \<le> i \<and> i < N_MAX \<and> bad_degree (at (lista l) i)"
    by (auto simp: vert_ok_def bad_degree_def intro!: exI [of _ "pos (nomes es) u"])
qed

section \<open>Properties\<close>

text \<open>
  C3: Started with the option \<open>n\<close> on a file of at most 299 arcs in which every vertex has as many
  arcs in as out, and given the name of one of its vertices, the program prints an Eulerian circuit
  of the arcs that can be reached from it, and says whether these are all arcs.
\<close>

theorem hierholzer_main_circuit:
  assumes "list_all (\<lambda>c. c \<noteq> CHR 0x0A) h" "file_ok es" "balanced (mset es)" "v \<in> set (nomes es)"
    and "scan_word \<lparr>tin = input, tout = entre_inicial\<rparr> = ok (\<lparr>tin = rest, tout = entre_inicial\<rparr>, v)"
  shows "\<exists>w. circuit (component (mset es) v) v w \<and>
    hierholzer_main (Some (h @ nl @ concat (map linha es))) (Some ''n'') input =
      ok (1, \<lparr>tin = rest, tout = entre_inicial @ (if component (mset es) v = mset es then txt_conexo else txt_desconexo) @
        concat (map (\<lambda>x. x @ '' '') w) @ nl @ nl\<rparr>)"
proof -
  obtain l where l: "lerarq (h @ nl @ concat (map linha es)) listav = ok l" "graph_list (nomes es) es l"
    using lerarq_ok [OF assms(1,2) leialinha_Nil] by (auto simp: wp_iff)
  have scan: "scan_word (say entre_inicial \<lparr>tin = input, tout = []\<rparr>) = ok (\<lparr>tin = rest, tout = entre_inicial\<rparr>, v)"
    using assms(5) by (simp add: say_def)
  from percorre_ok [OF l(2) assms(2-4) scan] show ?thesis
    unfolding hierholzer_main_def Let_def option.case l(1) bnd_ok by (auto simp: say_def)
qed

lemma figure_file: "file_ok [(''a'', ''b''), (''b'', ''c''), (''c'', ''a''), (''b'', ''b'')]"
  "balanced (mset [(''a'', ''b''), (''b'', ''c''), (''c'', ''a''), (''b'', ''b'')])"
  by (simp add: file_ok_def word_ok_def separador_def code_def nomes_def add_name_def) (simp add: balanced_def)

theorem hierholzer_main_circuit_witness:
  "\<exists>w. circuit (component (mset [(''a'', ''b''), (''b'', ''c''), (''c'', ''a''), (''b'', ''b'')]) ''b'') ''b'' w \<and>
    hierholzer_main (Some (''3 4'' @ nl @ concat (map linha [(''a'', ''b''), (''b'', ''c''), (''c'', ''a''), (''b'', ''b'')])))
      (Some ''n'') ''b'' =
      ok (1, \<lparr>tin = [], tout = entre_inicial @ (if component (mset [(''a'', ''b''), (''b'', ''c''), (''c'', ''a''), (''b'', ''b'')]) ''b'' =
          mset [(''a'', ''b''), (''b'', ''c''), (''c'', ''a''), (''b'', ''b'')] then txt_conexo else txt_desconexo) @
        concat (map (\<lambda>x. x @ '' '') w) @ nl @ nl\<rparr>)"
  by (rule hierholzer_main_circuit [OF _ figure_file])
    (simp_all add: nomes_def add_name_def scan_word_def is_space_def code_def)

text \<open>
  C39: Without the option the program reads one vertex behind its list whenever every vertex has as many
  arcs in as out; otherwise it says that the graph is not Eulerian.
\<close>

theorem hierholzer_preprocessing:
  assumes "list_all (\<lambda>c. c \<noteq> CHR 0x0A) h" "file_ok es"
  shows "hierholzer_main (Some (h @ nl @ concat (map linha es))) None input =
    (if balanced (mset es) then fail Out_Of_Bounds else ok (0, \<lparr>tin = input, tout = iniciando @ nao_euleriano\<rparr>))"
proof -
  obtain l where l: "lerarq (h @ nl @ concat (map linha es)) listav = ok l" "graph_list (nomes es) es l"
    using lerarq_ok [OF assms(1,2) leialinha_Nil] by (auto simp: wp_iff)
  have "len (lista l) = N_MAX" using l(2) by (simp add: graph_list_def)
  from euleriano_ok [OF this] bad_degree_file [OF l(2)]
  have "euleriano (lista l) = (if balanced (mset es) then fail Out_Of_Bounds else ok False)" by simp
  then show ?thesis unfolding hierholzer_main_def Let_def option.case l(1) bnd_ok by (simp add: say_def)
qed

theorem hierholzer_preprocessing_witness:
  "hierholzer_main (Some (''1 1'' @ nl @ concat (map linha [(''a'', ''b'')]))) None ''a'' =
    (if balanced (mset [(''a'', ''b'')]) then fail Out_Of_Bounds else ok (0, \<lparr>tin = ''a'', tout = iniciando @ nao_euleriano\<rparr>))"
  by (rule hierholzer_preprocessing) (simp_all add: file_ok_def word_ok_def separador_def code_def nomes_def add_name_def)

text \<open>
  A last line that does not end with a newline is ignored: the program does the same without it.
\<close>

theorem hierholzer_last_line:
  assumes "list_all (\<lambda>c. c \<noteq> CHR 0x0A) h" "list_all (\<lambda>(a, b). word_ok a \<and> word_ok b) es" "word_ok a" "word_ok b"
  shows "hierholzer_main (Some (h @ nl @ concat (map linha es) @ a @ '' '' @ b)) opcao input =
    hierholzer_main (Some (h @ nl @ concat (map linha es))) opcao input"
  using lerarq_rest [OF assms(1,2) leialinha_last [OF assms(3,4)]]
  unfolding hierholzer_main_def Let_def option.case by (simp only: append_assoc)

theorem hierholzer_last_line_witness:
  "hierholzer_main (Some (''2 2'' @ nl @ concat (map linha [(''a'', ''b'')]) @ ''b'' @ '' '' @ ''a'')) (Some ''n'') ''a'' =
    hierholzer_main (Some (''2 2'' @ nl @ concat (map linha [(''a'', ''b'')]))) (Some ''n'') ''a''"
  by (rule hierholzer_last_line) (simp_all add: word_ok_def separador_def code_def)

text \<open>On a file without a newline the program does not return.\<close>

theorem hierholzer_no_newline:
  assumes "list_all (\<lambda>c. c \<noteq> CHR 0x0A) h"
  shows "hierholzer_main (Some h) opcao input = None"
  by (simp add: hierholzer_main_def lerarq_def primeira_linha_diverges [OF assms])

theorem hierholzer_no_newline_witness: "hierholzer_main (Some ''a b'') None ''a'' = None"
  by (rule hierholzer_no_newline) simp

end
