(* ===== verification/Cal_Gregorian.thy ===== *)
theory Cal_Gregorian
  imports Cxx_Core
begin

text \<open>
  The Gregorian calendar the programs of \<open>src/Date\<close> compute with: the specification they are
  compared to.  Years are astronomical (year 0 exists) and the calendar is extended to all years.
  A date is \<open>(year, month, day)\<close>; \<open>day_number\<close> counts the days from 1 January of year 1:
  \<open>day_number_tomorrow\<close> says that it does count them, \<open>earlier_day_number\<close> that it is the order
  of dates.
\<close>

section \<open>Dates\<close>

definition leap :: "int \<Rightarrow> bool" where
  "leap y \<longleftrightarrow> 4 dvd y \<and> (\<not> 100 dvd y \<or> 400 dvd y)"

definition month_len :: "int \<Rightarrow> int \<Rightarrow> int" where
  "month_len y m = (if m = 2 then (if leap y then 29 else 28) else if m \<in> {4, 6, 9, 11} then 30 else 31)"

type_synonym date = "int \<times> int \<times> int"

fun valid_date :: "date \<Rightarrow> bool" where
  "valid_date (y, m, d) \<longleftrightarrow> 1 \<le> m \<and> m \<le> 12 \<and> 1 \<le> d \<and> d \<le> month_len y m"

fun tomorrow :: "date \<Rightarrow> date" where
  "tomorrow (y, m, d) =
     (if d < month_len y m then (y, m, d + 1) else if m < 12 then (y, m + 1, 1) else (y + 1, 1, 1))"

text \<open>The days of the year before the first of the month, and before 1 January of the year.\<close>

definition days_before :: "int \<Rightarrow> int \<Rightarrow> int" where
  "days_before y m = sum_list (map (month_len y) [1..m - 1])"

definition years_before :: "int \<Rightarrow> int" where
  "years_before y = 365 * (y - 1) + (y - 1) div 4 - (y - 1) div 100 + (y - 1) div 400"

fun day_number :: "date \<Rightarrow> int" where
  "day_number (y, m, d) = years_before y + days_before y m + d"

text \<open>Sunday is 0.\<close>

definition weekday :: "date \<Rightarrow> int" where
  "weekday x = day_number x mod 7"

lemma month_cases:
  assumes "1 \<le> m" "m \<le> (12::int)"
  obtains "m = 1" | "m = 2" | "m = 3" | "m = 4" | "m = 5" | "m = 6" | "m = 7" | "m = 8" | "m = 9"
    | "m = 10" | "m = 11" | "m = 12"
  using assms by (smt (verit))

definition leap_day :: "int \<Rightarrow> int" where
  "leap_day y = (if leap y then 1 else 0)"

lemma days_before_simps [simp]:
  "days_before y 1 = 0" "days_before y 2 = 31" "days_before y 3 = 59 + leap_day y"
  "days_before y 4 = 90 + leap_day y" "days_before y 5 = 120 + leap_day y"
  "days_before y 6 = 151 + leap_day y" "days_before y 7 = 181 + leap_day y"
  "days_before y 8 = 212 + leap_day y" "days_before y 9 = 243 + leap_day y"
  "days_before y 10 = 273 + leap_day y" "days_before y 11 = 304 + leap_day y"
  "days_before y 12 = 334 + leap_day y" "days_before y 13 = 365 + leap_day y"
  by (simp_all add: days_before_def month_len_def leap_day_def upto_rec_numeral upto_rec2)

lemma month_len_simps [simp]:
  "month_len y 1 = 31" "month_len y 2 = 28 + leap_day y" "month_len y 3 = 31" "month_len y 4 = 30"
  "month_len y 5 = 31" "month_len y 6 = 30" "month_len y 7 = 31" "month_len y 8 = 31"
  "month_len y 9 = 30" "month_len y 10 = 31" "month_len y 11 = 30" "month_len y 12 = 31"
  by (simp_all add: month_len_def leap_day_def)

lemma days_before_step: "1 \<le> m \<Longrightarrow> days_before y (m + 1) = days_before y m + month_len y m"
  by (simp add: days_before_def upto_rec2)

lemma leap_day_bounds: "0 \<le> leap_day y" "leap_day y \<le> 1"
  by (auto simp: leap_day_def)

lemma leap_mod: "leap y \<longleftrightarrow> y mod 4 = 0 \<and> (y mod 100 \<noteq> 0 \<or> y mod 400 = 0)"
  by (simp add: leap_def dvd_eq_mod_eq_0)

lemma div_step: "0 < (k::int) \<Longrightarrow> y div k = (y - 1) div k + (if k dvd y then 1 else 0)"
proof -
  assume k: "0 < k"
  have "(y - 1 + 1) div k = (y - 1) div k + (if k dvd y - 1 + 1 then 1 else 0)"
  proof (cases "k dvd y")
    case True
    then obtain q where "y = k * q" ..
    moreover have "(k * q - 1) div k = q - 1"
      using k by (intro int_div_pos_eq [where r = "k - 1"]) (auto simp: int_distrib)
    ultimately show ?thesis using k by simp
  next
    case False
    let ?r = "y mod k"
    have "0 < ?r" "?r < k"
      using k False pos_mod_sign [of k y] pos_mod_bound [of k y] by (auto simp: dvd_eq_mod_eq_0 order_less_le)
    moreover have "y - 1 = k * (y div k) + (?r - 1)" by (simp add: algebra_simps)
    ultimately have "(y - 1) div k = y div k" by (intro int_div_pos_eq [where r = "?r - 1"]) auto
    with False show ?thesis by simp
  qed
  then show ?thesis by simp
qed

lemma years_before_step: "years_before (y + 1) = years_before y + 365 + leap_day y"
  using div_step [of 4 y] div_step [of 100 y] div_step [of 400 y]
  by (auto simp: years_before_def leap_day_def leap_def intro: dvd_trans)

theorem day_number_tomorrow: "valid_date x \<Longrightarrow> day_number (tomorrow x) = day_number x + 1"
proof (cases x)
  case (fields y m d)
  assume "valid_date x"
  then have v: "1 \<le> m" "m \<le> 12" "d \<le> month_len y m" "1 \<le> d" using fields by auto
  consider "d < month_len y m" | "d = month_len y m" "m < 12" | "d = 31" "m = 12"
    using v by fastforce
  then show ?thesis
    using v by cases (simp_all add: fields days_before_step years_before_step)
qed

lemma valid_tomorrow: "valid_date x \<Longrightarrow> valid_date (tomorrow x)"
  by (cases x) (auto simp: month_len_def)

lemma weekday_tomorrow: "valid_date x \<Longrightarrow> weekday (tomorrow x) = (weekday x + 1) mod 7"
  by (simp only: weekday_def day_number_tomorrow mod_add_left_eq)

text \<open>What the day of the week depends on.\<close>

lemma years_before_mod7:
  "(years_before y + leap_day y) mod 7 = (y - 1 + y div 4 - y div 100 + y div 400) mod 7"
proof -
  have "years_before y + leap_day y = y - 1 + y div 4 - y div 100 + y div 400 + 7 * (52 * (y - 1))"
    using years_before_step [of y] by (simp add: years_before_def)
  then show ?thesis by (simp only: mod_mult_self2)
qed

section \<open>The order of dates\<close>

lemma years_before_mono: "y < y' \<Longrightarrow> years_before y + 365 + leap_day y \<le> years_before y'"
proof (induction "nat (y' - y)" arbitrary: y')
  case (Suc k)
  show ?case
  proof (cases "y' = y + 1")
    case False
    with Suc.prems Suc.hyps(2) have "years_before y + 365 + leap_day y \<le> years_before (y' - 1)"
      by (intro Suc.hyps(1)) auto
    also have "\<dots> \<le> years_before y'"
      using years_before_step [of "y' - 1"] leap_day_bounds(1) [of "y' - 1"] by simp
    finally show ?thesis .
  qed (simp add: years_before_step)
qed simp

lemma days_before_mono: "1 \<le> m \<Longrightarrow> m < m' \<Longrightarrow> days_before y m + month_len y m \<le> days_before y m'"
proof (induction "nat (m' - m)" arbitrary: m')
  case (Suc k)
  show ?case
  proof (cases "m' = m + 1")
    case False
    with Suc.prems Suc.hyps(2) have "days_before y m + month_len y m \<le> days_before y (m' - 1)"
      by (intro Suc.hyps(1)) auto
    also have "\<dots> \<le> days_before y m'"
      using days_before_step [of "m' - 1" y] Suc.prems by (simp add: month_len_def split: if_splits)
    finally show ?thesis .
  qed (use Suc.prems in \<open>simp add: days_before_step\<close>)
qed simp

lemma day_of_year_bounds:
  assumes "valid_date (y, m, d)"
  shows "1 \<le> days_before y m + d" "days_before y m + d \<le> 365 + leap_day y"
proof -
  have "0 \<le> days_before y m"
    by (auto simp: days_before_def month_len_def intro!: sum_list_nonneg)
  then show "1 \<le> days_before y m + d" using assms by simp
  show "days_before y m + d \<le> 365 + leap_day y"
    using assms days_before_mono [of m 13 y] by simp
qed

fun earlier :: "date \<Rightarrow> date \<Rightarrow> bool" where
  "earlier (y, m, d) (y', m', d') \<longleftrightarrow> y < y' \<or> y = y' \<and> (m < m' \<or> m = m' \<and> d < d')"

lemma earlier_day_number:
  assumes "valid_date a" "valid_date b"
  shows "earlier a b \<longleftrightarrow> day_number a < day_number b"
proof -
  have less: "day_number p < day_number q" if "earlier p q" "valid_date p" "valid_date q" for p q
  proof (cases p; cases q)
    fix y m d y' m' d' assume p: "p = (y, m, d)" and q: "q = (y', m', d')"
    note e = that(1)
    consider "y < y'" | "y = y'" "m < m'" | "y = y'" "m = m'" "d < d'"
      using e unfolding p q by auto
    then show ?thesis
    proof cases
      case 1
      with years_before_mono [OF 1] day_of_year_bounds [of y m d] day_of_year_bounds [of y' m' d'] that(2,3)
      show ?thesis by (simp add: p q)
    next
      case 2
      with days_before_mono [of m m' y] that(2,3) show ?thesis by (simp add: p q)
    qed (simp add: p q)
  qed
  moreover have "earlier a b \<or> a = b \<or> earlier b a"
    by (cases a; cases b) auto
  ultimately show ?thesis using assms by (metis less_asym less_irrefl)
qed

end
