(* ===== verification/Cal_Easter.thy ===== *)
theory Cal_Easter
  imports Cal_Gregorian
begin

text \<open>
  The date of Easter, the specification of the programs of \<open>src/Date\<close>: \<open>easter_march\<close> is the
  ecclesiastical rule, the Sunday after the full moon that the epact of the year gives.  The
  lemmas put it into the terms the formulas of the programs use: the age of the moon and the
  day of the week of March by the number of the year (\<open>march_number_mod7\<close>,
  \<open>paschal_moon_meeus\<close>, \<open>easter_march_meeus\<close>).
\<close>

section \<open>The feast of Easter\<close>

text \<open>Golden number, the two corrections of the epact and the epact of the Gregorian reform.\<close>

definition golden :: "int \<Rightarrow> int" where
  "golden y = y mod 19 + 1"

definition solar :: "int \<Rightarrow> int" where
  "solar y = 3 * (y div 100 + 1) div 4 - 12"

definition lunar :: "int \<Rightarrow> int" where
  "lunar y = (8 * (y div 100 + 1) + 5) div 25 - 5"

definition epact :: "int \<Rightarrow> int" where
  "epact y = (let e = (11 * golden y + 20 + lunar y - solar y) mod 30
              in if e = 24 \<or> e = 25 \<and> golden y > 11 then e + 1 else e)"

text \<open>Days are counted from 0 March: 32 is 1 April.\<close>

definition paschal_moon :: "int \<Rightarrow> int" where
  "paschal_moon y = (if 44 - epact y < 21 then 74 - epact y else 44 - epact y)"

definition march_number :: "int \<Rightarrow> int \<Rightarrow> int" where
  "march_number y n = day_number (y, 3, 1) + n - 1"

definition sunday_after :: "int \<Rightarrow> int \<Rightarrow> int" where
  "sunday_after y n = n + 7 - march_number y n mod 7"

definition easter_march :: "int \<Rightarrow> int" where
  "easter_march y = sunday_after y (paschal_moon y)"

definition march_date :: "int \<Rightarrow> int \<times> int" where
  "march_date n = (if n \<le> 31 then (3, n) else (4, n - 31))"

definition easter :: "int \<Rightarrow> int \<times> int" where
  "easter y = march_date (easter_march y)"

lemma sunday_after_Sunday: "march_number y (sunday_after y n) mod 7 = 0"
proof -
  have "march_number y (sunday_after y n) = march_number y n - march_number y n mod 7 + 7"
    by (simp add: march_number_def sunday_after_def)
  then show ?thesis by (simp add: minus_mod_eq_mult_div)
qed

lemma sunday_after_bounds: "n < sunday_after y n" "sunday_after y n \<le> n + 7"
  using pos_mod_bound [of 7 "march_number y n"] by (simp_all add: sunday_after_def)

lemma paschal_moon_bounds: "21 \<le> paschal_moon y" "paschal_moon y \<le> 49"
proof -
  have "0 \<le> epact y" "epact y \<le> 29" "epact y \<noteq> 24"
    unfolding epact_def Let_def
    using pos_mod_bound [of 30 "11 * golden y + 20 + lunar y - solar y"]
      pos_mod_sign [of 30 "11 * golden y + 20 + lunar y - solar y"] by auto
  then show "21 \<le> paschal_moon y" "paschal_moon y \<le> 49"
    by (auto simp: paschal_moon_def)
qed

lemma day_number_march_date: "1 \<le> n \<Longrightarrow>
    day_number (y, fst (march_date n), snd (march_date n)) = march_number y n"
  by (simp add: march_date_def march_number_def)

text \<open>Easter is a Sunday between 22 March and 25 April, at most a week after the full moon.\<close>

lemma easter_march_bounds: "22 \<le> easter_march y" "easter_march y \<le> 56"
  using sunday_after_bounds [where n = "paschal_moon y" and y = y] paschal_moon_bounds [of y]
  by (simp_all add: easter_march_def)

text \<open>The day of the week in March.\<close>

lemma three_quarters: "3 * (c + 1) div 4 = c - c div (4::int)"
  by presburger

lemma lunar_steps: "(8 * (c + 1) + 5) div 25 = (c - (c + 8) div 25 + 1) div (3::int)"
proof -
  define q r where "q = c div 25" and "r = c mod 25"
  have "r \<in> set [0..24]" using pos_mod_bound [of 25 c] by (simp add: r_def)
  moreover have "\<forall>r \<in> set [0..24]. (8 * r + 13) div 25 = (r - (r + 8) div 25 + 1) div (3::int)"
    by code_simp
  ultimately have r: "(8 * r + 13) div 25 = (r - (r + 8) div 25 + 1) div 3" by blast
  have c: "c = r + 25 * q" by (simp add: q_def r_def)
  have "(8 * (c + 1) + 5) div 25 = (8 * r + 13 + 25 * (8 * q)) div 25" by (simp add: c)
  also have "\<dots> = 8 * q + (8 * r + 13) div 25" by (subst div_mult_self2) simp_all
  finally have lhs: "(8 * (c + 1) + 5) div 25 = 8 * q + (8 * r + 13) div 25" .
  have "(c + 8) div 25 = (r + 8 + 25 * q) div 25" by (simp add: c)
  also have "\<dots> = q + (r + 8) div 25" by (subst div_mult_self2) simp_all
  finally have "c - (c + 8) div 25 + 1 = r - (r + 8) div 25 + 1 + 3 * (8 * q)" by (simp add: c)
  then have "(c - (c + 8) div 25 + 1) div 3 = 8 * q + (r - (r + 8) div 25 + 1) div 3"
    by (simp only: div_mult_self2)
  with lhs r show ?thesis by simp
qed

lemma march_number_mod7: "march_number y n mod 7 = (5 * y div 4 - solar y - 10 + n) mod 7"
proof -
  have "march_number y n = years_before y + leap_day y + (n + 59)"
    by (simp add: march_number_def)
  then have "march_number y n mod 7 = ((years_before y + leap_day y) mod 7 + (n + 59)) mod 7"
    by (simp add: mod_add_left_eq)
  also have "\<dots> = (y - 1 + y div 4 - y div 100 + y div 400 + (n + 59)) mod 7"
    by (simp only: years_before_mod7 mod_add_left_eq)
  also have "\<dots> = (5 * y div 4 - solar y - 10 + n) mod 7"
  proof -
    have "5 * y div 4 = y + y div 4" by simp
    moreover note three_quarters [of "y div 100"]
    moreover have "(y div 100) div 4 = y div 400" by (simp add: zdiv_zmult2_eq [symmetric])
    ultimately have "y - 1 + y div 4 - y div 100 + y div 400 + (n + 59)
        = 5 * y div 4 - solar y - 10 + n + 7 * 8" by (simp add: solar_def)
    then show ?thesis by (simp only: mod_mult_self2)
  qed
  finally show ?thesis .
qed

lemma golden_bounds: "1 \<le> golden y" "golden y \<le> 19"
  using pos_mod_bound [of 19 y] by (simp_all add: golden_def)

text \<open>
  The full moon by the formula of Meeus: 21 March plus \<open>h\<close>, a day earlier in two cases.
\<close>

definition meeus_h :: "int \<Rightarrow> int" where
  "meeus_h y = (19 * (y mod 19) + y div 100 - y div 100 div 4
     - (y div 100 - (y div 100 + 8) div 25 + 1) div 3 + 15) mod 30"

definition moon_early :: "int \<Rightarrow> bool" where
  "moon_early y \<longleftrightarrow> meeus_h y = 29 \<or> meeus_h y = 28 \<and> 11 \<le> y mod 19"

lemma paschal_moon_meeus: "paschal_moon y = 21 + meeus_h y - (if moon_early y then 1 else 0)"
proof -
  define t where "t = y div 100 - y div 100 div 4 - (y div 100 - (y div 100 + 8) div 25 + 1) div 3"
  define e where "e = (11 * golden y + 20 + lunar y - solar y) mod 30"
  have t: "lunar y - solar y = 7 - t"
    using three_quarters [of "y div 100"] lunar_steps [of "y div 100"]
    by (simp add: lunar_def solar_def t_def)
  have h: "meeus_h y = (19 * (y mod 19) + t + 15) mod 30"
    by (simp add: meeus_h_def t_def algebra_simps)
  have "e = (11 * (y mod 19) + 38 - t) mod 30"
  proof -
    have "11 * golden y + 20 + lunar y - solar y = 11 * (y mod 19) + 38 - t"
      using t by (simp add: golden_def)
    then show ?thesis by (simp only: e_def)
  qed
  also have "11 * (y mod 19) + 38 - t = 53 - (19 * (y mod 19) + t + 15) + 30 * (y mod 19)"
    by simp
  finally have "e = (53 - meeus_h y) mod 30"
    unfolding h by (simp only: mod_mult_self2 mod_diff_right_eq)
  moreover have b: "0 \<le> meeus_h y" "meeus_h y < 30"
    by (simp_all add: h)
  ultimately have e: "e = (if meeus_h y \<le> 23 then 23 - meeus_h y else 53 - meeus_h y)"
    using mod_add_self2 [of "23 - meeus_h y" 30] by auto
  have "epact y = (if e = 24 \<or> e = 25 \<and> 11 \<le> y mod 19 then e + 1 else e)"
    by (auto simp: epact_def e_def golden_def Let_def)
  with e b show ?thesis
    by (auto simp: paschal_moon_def moon_early_def)
qed

lemma meeus_h_bounds: "0 \<le> meeus_h y" "meeus_h y < 30"
  by (simp_all add: meeus_h_def)

text \<open>A Sunday by the distance to it.\<close>

lemma sunday_after_eq:
  assumes "(march_number y (n + 1) + k) mod 7 = 0" "0 \<le> k" "k < 7"
  shows "sunday_after y n = n + 1 + k"
proof -
  define w where "w = march_number y n mod 7"
  have w: "0 \<le> w" "w < 7" by (simp_all add: w_def)
  have "(w + (1 + k)) mod 7 = (march_number y (n + 1) + k) mod 7"
    unfolding w_def mod_add_left_eq by (simp add: march_number_def algebra_simps)
  with assms have "(w + (1 + k)) mod 7 = 0" by simp
  then have "7 dvd w + (1 + k)" by (simp only: dvd_eq_mod_eq_0)
  then obtain q where "w + (1 + k) = 7 * q" ..
  with w assms(2,3) have "w + 1 + k = 7" by presburger
  then show ?thesis by (simp add: sunday_after_def w_def [symmetric])
qed

definition meeus_k :: "int \<Rightarrow> int" where
  "meeus_k y = (32 + 2 * (y div 100 mod 4) + 2 * (y mod 100 div 4) - meeus_h y - y mod 100 mod 4) mod 7"

lemma meeus_k_bounds: "0 \<le> meeus_k y" "meeus_k y < 7"
  by (simp_all add: meeus_k_def)

lemma meeus_k_Sunday: "(march_number y (22 + meeus_h y) + meeus_k y) mod 7 = 0"
proof -
  define b c h where "b = y div 100" and "c = y mod 100" and "h = meeus_h y"
  define d e i j where "d = b div 4" and "e = b mod 4" and "i = c div 4" and "j = c mod 4"
  have y: "y = 100 * b + c" "b = 4 * d + e" "c = 4 * i + j"
    by (simp_all add: b_def c_def d_def e_def i_def j_def)
  have j: "0 \<le> j" "j < 4" by (simp_all add: j_def)
  have "5 * y div 4 = y + (j + 4 * (25 * b + i)) div 4" by (simp add: y(1,3))
  also have "\<dots> = y + 25 * b + i" using j by (subst div_mult_self2) simp_all
  finally have q: "5 * y div 4 = y + 25 * b + i" .
  have s: "solar y = b - d - 12"
    using three_quarters [of b] by (simp add: solar_def b_def d_def)
  have "(march_number y (22 + h) + meeus_k y) mod 7
      = (5 * y div 4 - solar y - 10 + (22 + h) + (32 + 2 * e + 2 * i - h - j)) mod 7"
  proof -
    have "meeus_k y = (32 + 2 * e + 2 * i - h - j) mod 7"
      by (simp add: meeus_k_def b_def c_def e_def i_def j_def h_def)
    then show ?thesis
      using mod_add_eq [of "march_number y (22 + h)" 7 "32 + 2 * e + 2 * i - h - j"]
        mod_add_eq [of "5 * y div 4 - solar y - 10 + (22 + h)" 7 "32 + 2 * e + 2 * i - h - j"]
      by (simp only: march_number_mod7 mod_mod_trivial mod_add_right_eq)
  qed
  also have "5 * y div 4 - solar y - 10 + (22 + h) + (32 + 2 * e + 2 * i - h - j)
      = 7 * (71 * d + 18 * e + i + 8)"
    unfolding q s by (simp add: y algebra_simps)
  finally show ?thesis by (simp add: h_def)
qed

lemma easter_march_meeus:
  "easter_march y = 22 + meeus_h y + meeus_k y - (if moon_early y \<and> meeus_k y = 6 then 7 else 0)"
proof -
  note k = meeus_k_Sunday [of y] meeus_k_bounds [of y]
  have moon: "sunday_after y (21 + meeus_h y) = 22 + meeus_h y + meeus_k y"
    using sunday_after_eq [of y "21 + meeus_h y" "meeus_k y"] k by (simp add: algebra_simps)
  have "sunday_after y (20 + meeus_h y) = 21 + meeus_h y + (if meeus_k y = 6 then 0 else meeus_k y + 1)"
  proof -
    have step: "march_number y (21 + meeus_h y) = march_number y (22 + meeus_h y) - 1"
      by (simp add: march_number_def)
    have "(march_number y (20 + meeus_h y + 1) + (if meeus_k y = 6 then 0 else meeus_k y + 1)) mod 7 = 0"
    proof (cases "meeus_k y = 6")
      case True
      have "march_number y (21 + meeus_h y) = march_number y (22 + meeus_h y) + meeus_k y - 7"
        using step True by simp
      also have "\<dots> mod 7 = 0"
        using k(1) minus_mod_self2 [of "march_number y (22 + meeus_h y) + meeus_k y" 7] by simp
      finally show ?thesis using True by simp
    next
      case False
      with k(1) show ?thesis by (simp add: step)
    qed
    from sunday_after_eq [OF this] k(2,3)
    have "sunday_after y (20 + meeus_h y) = 20 + meeus_h y + 1 + (if meeus_k y = 6 then 0 else meeus_k y + 1)"
      by (simp split: if_splits)
    then show ?thesis by simp
  qed
  with moon show ?thesis by (auto simp: easter_march_def paschal_moon_meeus algebra_simps)
qed

end
