(* ===== verification/Cxx_Format.thy ===== *)
theory Cxx_Format
  imports Cxx_Terminal
begin

text \<open>
  Numbers in texts: the padded formats of \<open>printf\<close> (\<open>field\<close> for \<open>%wd\<close>, \<open>field0\<close> for
  \<open>%0wd\<close>), the time of day \<open>localtime\<close> fills in, and the fact that \<open>scanf("%d")\<close> reads the
  number a user types in decimal (\<open>scan_int_dec\<close>).
\<close>

definition field :: "nat \<Rightarrow> int \<Rightarrow> string" where
  "field w x = replicate (w - length (dec x)) (CHR '' '') @ dec x"

definition field0 :: "nat \<Rightarrow> int \<Rightarrow> string" where
  "field0 w x =
     (let t = dec_nat (nat \<bar>x\<bar>); sign = (if x < 0 then ''-'' else '''')
      in sign @ replicate (w - length sign - length t) (CHR ''0'') @ t)"

text \<open>The broken-down time \<open>localtime\<close> returns: months from 0, years from 1900.\<close>

record tm =
  tm_sec :: int
  tm_min :: int
  tm_hour :: int
  tm_mday :: int
  tm_mon :: int
  tm_year :: int

section \<open>Reading back a decimal number\<close>

lemma is_space_newline: "is_space (CHR 0x0A)"
  by (simp add: is_space_def code_def)

lemma scan_int_line [simp]:
  "int_min \<le> x \<Longrightarrow> x \<le> int_max \<Longrightarrow> tin s = dec x @ nl @ r \<Longrightarrow>
   scan_int s = ok (s\<lparr>tin := nl @ r\<rparr>, Some x)"
  by (rule scan_int_dec) (simp_all add: is_digit_def code_def)

text \<open>The next number is read past the end of the line.\<close>

lemma scan_int_skip: "is_space c \<Longrightarrow> scan_int (s\<lparr>tin := c # t\<rparr>) = scan_int (s\<lparr>tin := t\<rparr>)"
  by (simp add: scan_int_def Let_def cong del: bnd_weak_cong)

lemma scan_int_next_line [simp]:
  assumes "int_min \<le> x" "x \<le> int_max" "tin s = nl @ dec x @ nl @ r"
  shows "scan_int s = ok (s\<lparr>tin := nl @ r\<rparr>, Some x)"
proof -
  have "s = s\<lparr>tin := CHR 0x0A # dec x @ nl @ r\<rparr>" using assms(3) by simp
  then have "scan_int s = scan_int (s\<lparr>tin := dec x @ nl @ r\<rparr>)"
    by (metis scan_int_skip [where c = "CHR 0x0A" and s = s and t = "dec x @ nl @ r"] is_space_newline)
  with assms show ?thesis by (simp add: scan_int_line [of x _ r])
qed

lemma need_Some [simp]: "need (Some x) = ok x"
  by (simp add: need_def)

lemma need_None [simp]: "need None = fail Uninitialised"
  by (simp add: need_def)

end
