(* ===== verification/Date_Easter.thy ===== *)
theory Date_Easter
  imports Cal_Easter Cxx_Format Cxx_Console Cxx_Array
begin

text \<open>
  The Easter programs of \<open>src/Date/pascoa\<close> that follow the rule for all years: pascoa1 and pascoa2
  with the formula of Meeus, pascoa with that of Clavius.  Their formulas are compared to
  \<open>easter\<close>; the main programs read a year and print the feast.  The time of day is a parameter,
  the broken-down time \<open>tm\<close> that \<open>localtime\<close> returns.
\<close>

abbreviation e_acute :: string where "e_acute \<equiv> [CHR 0xC3, CHR 0xA9]"
abbreviation a_acute :: string where "a_acute \<equiv> [CHR 0xC3, CHR 0xA1]"

section \<open>pascoa1, pascoa2: the formula of Meeus\<close>

definition meeus :: "int \<Rightarrow> int \<times> int" where
  "meeus year =
     (let a = year smod 19;
          b = year sdiv 100;
          c = year smod 100;
          d = b sdiv 4;
          e = b smod 4;
          f = (b + 8) sdiv 25;
          g = (b - f + 1) sdiv 3;
          h = (19 * a + b - d - g + 15) smod 30;
          i = c sdiv 4;
          j = c smod 4;
          k = (32 + 2 * e + 2 * i - h - j) smod 7;
          l = (a + 11 * h + 22 * k) sdiv 451;
          easter_month = (h + k - 7 * l + 114) sdiv 31;
          easter_day = (h + k - 7 * l + 114) smod 31 + 1
      in (easter_month, easter_day))"

definition months :: "string list" where
  "months = [''January'', ''February'', ''March'', ''April'', ''May'', ''June'', ''July'',
     ''August'', ''September'', ''October'', ''November'', ''December'']"

definition th_before :: "int \<Rightarrow> string \<Rightarrow> int \<Rightarrow> string" where
  "th_before day month year = nl @ tab @ ''Easter fell on '' @ dec day @ ''th '' @ month @ '' '' @
     field 4 year @ ''.'' @ nl @ nl"

definition th_after :: "int \<Rightarrow> string \<Rightarrow> int \<Rightarrow> string" where
  "th_after day month year = nl @ tab @ ''Easter will fall on '' @ month @ '' '' @ dec day @ ''th '' @
     field 4 year @ ''.'' @ nl @ nl"

text \<open>
  In the last case of pascoa1 \<open>printf\<close> is given the name of the month for \<open>%d\<close> and the day for
  \<open>%s\<close>, which the standard leaves undefined.
\<close>

definition pascoa1_main :: "tm \<Rightarrow> terminal \<Rightarrow> terminal run" where
  "pascoa1_main ltm s =
     bnd (i32 (tm_year ltm + 1900)) (\<lambda>current_year.
     bnd (i32 (tm_mon ltm + 1)) (\<lambda>current_month.
     let current_day = tm_mday ltm;
         s = say (nl @ tab @ ''The current year is '' @ field 4 current_year @ nl) s;
         s = say (nl @ tab @ ''Enter the desired year to'' @ nl @ tab @
               ''calculate the day of Easter: '') s in
     bnd (scan_int s) (\<lambda>(s, y).
     bnd (need y) (\<lambda>year.
     let (easter_month, easter_day) = meeus year in
     bnd (rd months (easter_month - 1)) (\<lambda>month.
     if year > current_year then ok (say (th_after easter_day month year) s)
     else if year < current_year then ok (say (th_before easter_day month year) s)
     else if year = current_year \<and> current_month = easter_month \<and> current_day = easter_day then
       ok (say (nl @ tab @ ''Today '' @ dec easter_day @ ''th '' @ month @ '' '' @ field0 4 year @ '' is Easter Day'') s)
     else if year = current_year \<and> current_month > easter_month then
       ok (say (th_before easter_day month year) s)
     else if year = current_year \<and> current_month < easter_month then
       ok (say (th_after easter_day month year) s)
     else if year = current_year \<and> current_month = easter_month \<and> current_day < easter_day then
       ok (say (th_after easter_day month year) s)
     else if year = current_year \<and> current_month = easter_month \<and> current_day > easter_day then
       fail Bad_Access
     else ok s)))))"

text \<open>pascoa2 finds the name with a \<open>switch\<close> and has one case less.\<close>

definition meeus2 :: "int \<Rightarrow> int \<times> int" where
  "meeus2 year =
     (let a = year smod 19;
          b = year sdiv 100;
          c = year smod 100;
          d = b sdiv 4;
          e = b smod 4;
          f = (b + 8) sdiv 25;
          g = (b - f + 1) sdiv 3;
          h = (19 * a + b - d - g + 15) smod 30;
          i = c sdiv 4;
          j = c smod 4;
          k = (32 + 2 * e + 2 * i - h - j) smod 7;
          l = (a + 11 * h + 22 * k) sdiv 451;
          easter_month = (h + k - 7 * l + 114) sdiv 31;
          easter_day = (h + k - 7 * l + 114) smod 31 + 1
      in (easter_month, easter_day))"

definition month_name2 :: "int \<Rightarrow> string" where
  "month_name2 easter_month =
     (if easter_month = 1 then ''January''
      else if easter_month = 2 then ''February''
      else if easter_month = 3 then ''March''
      else if easter_month = 4 then ''April''
      else if easter_month = 5 then ''May''
      else if easter_month = 6 then ''June''
      else if easter_month = 7 then ''July''
      else if easter_month = 8 then ''August''
      else if easter_month = 9 then ''September''
      else if easter_month = 10 then ''October''
      else if easter_month = 11 then ''November''
      else if easter_month = 12 then ''December''
      else ''Month Invalid'')"

definition pascoa2_main :: "tm \<Rightarrow> terminal \<Rightarrow> terminal run" where
  "pascoa2_main ltm s =
     bnd (i32 (tm_year ltm + 1900)) (\<lambda>current_year.
     bnd (i32 (tm_mon ltm + 1)) (\<lambda>current_month.
     let current_day = tm_mday ltm;
         s = say (nl @ tab @ ''The current year is '' @ field 4 current_year @ nl) s;
         s = say (nl @ tab @ ''Enter the desired year to'' @ nl @ tab @
               ''calculate the day of Easter: '') s in
     bnd (scan_int s) (\<lambda>(s, y).
     bnd (need y) (\<lambda>year.
     let (easter_month, easter_day) = meeus2 year;
         month = month_name2 easter_month in
     ok (if year > current_year then say (th_after easter_day month year) s
         else if year < current_year then say (th_before easter_day month year) s
         else if year = current_year \<and> current_month = easter_month \<and> current_day = easter_day then
           say (nl @ tab @ ''Today '' @ dec easter_day @ ''th '' @ month @ '' '' @ field0 4 year @
             '' is Easter Day'' @ nl @ nl) s
         else if year = current_year \<and> current_month > easter_month then
           say (th_before easter_day month year) s
         else if year = current_year \<and> current_month < easter_month then
           say (th_after easter_day month year) s
         else if year = current_year \<and> current_month = easter_month \<and> current_day < easter_day then
           say (th_after easter_day month year) s
         else s)))))"

text \<open>With no negative operand the divisions of C++ are \<open>div\<close> and \<open>mod\<close>.\<close>

lemma meeus_correction:
  "(y mod 19 + 11 * meeus_h y + 22 * meeus_k y) div 451 = (if moon_early y \<and> meeus_k y = 6 then 1 else 0)"
proof -
  have a: "0 \<le> y mod 19" "y mod 19 < 19" by simp_all
  note b = meeus_h_bounds [of y] meeus_k_bounds [of y]
  show ?thesis
  proof (cases "moon_early y \<and> meeus_k y = 6")
    case True
    with a b show ?thesis
      by (auto simp: moon_early_def intro!: int_div_pos_eq [where r = "y mod 19 + 11 * meeus_h y + 22 * meeus_k y - 451"])
  next
    case False
    then have "meeus_k y \<le> 5 \<or> meeus_h y \<le> 27 \<or> meeus_h y = 28 \<and> y mod 19 \<le> 10"
      using a b unfolding moon_early_def by linarith
    with a b have "y mod 19 + 11 * meeus_h y + 22 * meeus_k y < 451" by linarith
    with a b False show ?thesis by (auto simp: div_pos_pos_trivial)
  qed
qed

lemma march_date_div:
  "22 \<le> n \<Longrightarrow> n \<le> 56 \<Longrightarrow> march_date n = ((n + 92) div 31, (n + 92) mod 31 + 1)"
proof -
  assume n: "22 \<le> n" "n \<le> 56"
  show ?thesis
  proof (cases "n \<le> 31")
    case True
    with n have "(n + 92) div 31 = 3" by (intro int_div_pos_eq [where r = "n - 1"]) auto
    with True show ?thesis by (simp add: march_date_def minus_div_mult_eq_mod [symmetric])
  next
    case False
    with n have "(n + 92) div 31 = 4" by (intro int_div_pos_eq [where r = "n - 32"]) auto
    with False show ?thesis by (simp add: march_date_def minus_div_mult_eq_mod [symmetric])
  qed
qed

lemma meeus_easter: "0 \<le> y \<Longrightarrow> meeus y = easter y"
proof -
  assume y: "0 \<le> y"
  define b where "b = y div 100"
  define c where "c = y mod 100"
  define g where "g = (b - (b + 8) div 25 + 1) div 3"
  have c: "0 \<le> c" "c < 100" and b: "0 \<le> b" using y by (simp_all add: c_def b_def pos_imp_zdiv_nonneg_iff)
  have f: "(b + 8) div 25 \<le> b + 1" "0 \<le> (b + 8) div 25" using b by linarith+
  have g: "0 \<le> g" "3 * g \<le> b + 1" using f by (simp_all add: g_def pos_imp_zdiv_nonneg_iff)
  have "4 * (b div 4) \<le> b" "0 \<le> b div 4" using b by (simp_all add: pos_imp_zdiv_nonneg_iff)
  with g b have pos: "0 \<le> 19 * (y mod 19) + b - b div 4 - g + 15" by linarith
  have "(19 * (y mod 19) + b - b div 4 - g + 15) smod 30 = (19 * (y mod 19) + b - b div 4 - g + 15) mod 30"
    using pos by (simp only: smod_nonneg zero_less_numeral)
  also have "\<dots> = meeus_h y" by (simp only: meeus_h_def g_def b_def)
  finally have h: "(19 * (y mod 19) + b - b div 4 - g + 15) smod 30 = meeus_h y" .
  have "0 \<le> b - (b + 8) div 25 + 1" using f(1) by simp
  then have sg: "(b - (b + 8) div 25 + 1) sdiv 3 = g"
    by (simp only: g_def sdiv_nonneg zero_less_numeral)
  note nonneg = sdiv_nonneg [OF y zero_less_numeral] smod_nonneg [OF y zero_less_numeral]
    sdiv_nonneg [OF b zero_less_numeral] smod_nonneg [OF b zero_less_numeral]
    sdiv_nonneg [OF c(1) zero_less_numeral] smod_nonneg [OF c(1) zero_less_numeral]
  have b8: "(b + 8) sdiv 25 = (b + 8) div 25" using b by (simp add: sdiv_nonneg)
  have k: "(32 + 2 * (b mod 4) + 2 * (c div 4) - meeus_h y - c mod 4) smod 7 = meeus_k y"
  proof -
    have "0 \<le> b mod 4" "0 \<le> c div 4" "c mod 4 < 4" using c by (simp_all add: pos_imp_zdiv_nonneg_iff)
    then have "0 \<le> 32 + 2 * (b mod 4) + 2 * (c div 4) - meeus_h y - c mod 4"
      using meeus_h_bounds [of y] by linarith
    from smod_nonneg [OF this, of 7] show ?thesis
      unfolding meeus_k_def b_def [symmetric] c_def [symmetric] by simp
  qed
  have l: "(y mod 19 + 11 * meeus_h y + 22 * meeus_k y) sdiv 451 = (if moon_early y \<and> meeus_k y = 6 then 1 else 0)"
    using meeus_correction [of y] meeus_h_bounds [of y] meeus_k_bounds [of y] by (simp add: sdiv_nonneg)
  define n where "n = easter_march y"
  have n: "meeus_h y + meeus_k y - 7 * (if moon_early y \<and> meeus_k y = 6 then 1 else 0) + 114 = n + 92"
    by (simp add: n_def easter_march_meeus)
  have "22 \<le> n" "n \<le> 56" using easter_march_bounds [of y] by (simp_all add: n_def)
  then have "(n + 92) sdiv 31 = (n + 92) div 31" "(n + 92) smod 31 = (n + 92) mod 31"
    "march_date n = ((n + 92) div 31, (n + 92) mod 31 + 1)"
    by (simp_all add: sdiv_nonneg smod_nonneg march_date_div)
  then show ?thesis
    unfolding meeus_def nonneg b_def [symmetric] c_def [symmetric]
    by (simp add: nonneg b8 sg h k l n Let_def easter_def n_def cong: let_weak_cong)
qed

lemma meeus2_easter: "0 \<le> y \<Longrightarrow> meeus2 y = easter y"
  using meeus_easter by (simp add: meeus2_def meeus_def)

text \<open>What pascoa1 has to say, for the day \<open>t\<close> it runs on and the Easter of year \<open>y\<close>.\<close>

definition today :: "tm \<Rightarrow> date" where
  "today ltm = (tm_year ltm + 1900, tm_mon ltm + 1, tm_mday ltm)"

definition greeting :: "date \<Rightarrow> string" where
  "greeting t = nl @ tab @ ''The current year is '' @ field 4 (fst t) @ nl @ nl @ tab @
     ''Enter the desired year to'' @ nl @ tab @ ''calculate the day of Easter: ''"

definition easter_news :: "date \<Rightarrow> int \<Rightarrow> string" where
  "easter_news t y =
     (let (m, d) = easter y; month = (if m = 3 then ''March'' else ''April'') in
      if earlier t (y, m, d) then th_after d month y
      else if t = (y, m, d) then
        nl @ tab @ ''Today '' @ dec d @ ''th '' @ month @ '' '' @ field0 4 y @ '' is Easter Day''
      else th_before d month y)"

lemma easter_month: "fst (easter y) = 3 \<or> fst (easter y) = 4"
  by (simp add: easter_def march_date_def)

lemma months_easter: "fst (easter y) = m \<Longrightarrow> rd months (m - 1) = ok (if m = 3 then ''March'' else ''April'')"
  using easter_month [of y] by (auto simp: rd_def months_def at_def)

text \<open>
  C11: pascoa1 finds Easter by the rule of the Gregorian reform for every year from 0 to the
  largest int, and says whether it is still to come, is today or is past, compared to the
  current date; only when Easter was earlier in the current month its last \<open>printf\<close>, whose arguments do not
  fit its format, is undefined.
\<close>

theorem pascoa1_announces:
  assumes "valid_date (today ltm)" "int_min \<le> fst (today ltm)" "fst (today ltm) \<le> int_max"
    and "0 \<le> y" "y \<le> int_max" "tin s = dec y @ nl @ r"
  shows "pascoa1_main ltm s =
    (case (today ltm, easter y) of ((cy, cm, cd), (m, d)) \<Rightarrow>
       if cy = y \<and> cm = m \<and> cd > d then fail Bad_Access
       else ok (say (greeting (today ltm) @ easter_news (today ltm) y) (s\<lparr>tin := nl @ r\<rparr>)))"
proof -
  obtain m d where e: "easter y = (m, d)" by (cases "easter y")
  define cy cm cd where "cy = tm_year ltm + 1900" and "cm = tm_mon ltm + 1" and "cd = tm_mday ltm"
  have t: "today ltm = (cy, cm, cd)" by (simp add: today_def cy_def cm_def cd_def)
  have i: "i32 (tm_year ltm + 1900) = ok cy" "i32 (tm_mon ltm + 1) = ok cm"
    using assms(1-3) by (simp_all add: i32_in cy_def cm_def today_def)
  have rd: "rd months (m - 1) = ok (if m = 3 then ''March'' else ''April'')"
    using months_easter [of y m] e by simp
  have sc: "scan_int (say u s) = ok (say u (s\<lparr>tin := nl @ r\<rparr>), Some y)" for u
    using scan_int_line [of y "say u s" r] assms(4-6) by (simp add: say_def)
  show ?thesis
    unfolding pascoa1_main_def i bnd_ok Let_def say_simps sc prod.case need_Some meeus_easter [OF assms(4)] e rd
      t greeting_def easter_news_def fst_conv cd_def [symmetric] append_assoc earlier.simps prod.inject
    by (rule linorder_cases [of y cy]; rule linorder_cases [of m cm]; rule linorder_cases [of d cd]) simp_all
qed

theorem pascoa1_announces_witness:
  "pascoa1_main \<lparr>tm_sec = 0, tm_min = 0, tm_hour = 0, tm_mday = 20, tm_mon = 3, tm_year = 125\<rparr>
     \<lparr>tin = ''2025'' @ nl, tout = []\<rparr> =
   ok (say (greeting (2025, 4, 20) @ nl @ tab @ ''Today 20th April 2025 is Easter Day'') \<lparr>tin = nl, tout = []\<rparr>) \<and>
   pascoa1_main \<lparr>tm_sec = 0, tm_min = 0, tm_hour = 0, tm_mday = 21, tm_mon = 3, tm_year = 125\<rparr>
     \<lparr>tin = ''2025'' @ nl, tout = []\<rparr> = fail Bad_Access"
proof -
  have e: "easter 2025 = (4, 20)" by code_simp
  have d: "dec 2025 = ''2025''" "dec 20 = ''20''" "field0 4 2025 = ''2025''" by (simp_all add: dec_def field0_def Let_def)
  show ?thesis
    using pascoa1_announces [of "\<lparr>tm_sec = 0, tm_min = 0, tm_hour = 0, tm_mday = 20, tm_mon = 3, tm_year = 125\<rparr>"
        2025 "\<lparr>tin = ''2025'' @ nl, tout = []\<rparr>" "[]"]
      pascoa1_announces [of "\<lparr>tm_sec = 0, tm_min = 0, tm_hour = 0, tm_mday = 21, tm_mon = 3, tm_year = 125\<rparr>"
        2025 "\<lparr>tin = ''2025'' @ nl, tout = []\<rparr>" "[]"]
    by (simp add: today_def easter_news_def e d)
qed

text \<open>pascoa2 prints nothing when Easter was earlier in the current month.\<close>

definition easter_news2 :: "date \<Rightarrow> int \<Rightarrow> string" where
  "easter_news2 t y =
     (let (m, d) = easter y; month = (if m = 3 then ''March'' else ''April'') in
      if earlier t (y, m, d) then th_after d month y
      else if t = (y, m, d) then
        nl @ tab @ ''Today '' @ dec d @ ''th '' @ month @ '' '' @ field0 4 y @ '' is Easter Day'' @ nl @ nl
      else if fst t = y \<and> fst (snd t) = m then []
      else th_before d month y)"

lemma month_name2_easter:
  "fst (easter y) = m \<Longrightarrow> month_name2 m = (if m = 3 then ''March'' else ''April'')"
  using easter_month [of y] by (auto simp: month_name2_def)

text \<open>
  pascoa2 announces Easter like pascoa1, except that it says nothing when Easter was earlier
  in the current month: the last case of pascoa1 is missing.
\<close>

theorem pascoa2_announces:
  assumes "valid_date (today ltm)" "int_min \<le> fst (today ltm)" "fst (today ltm) \<le> int_max"
    and "0 \<le> y" "y \<le> int_max" "tin s = dec y @ nl @ r"
  shows "pascoa2_main ltm s =
    ok (say (greeting (today ltm) @ easter_news2 (today ltm) y) (s\<lparr>tin := nl @ r\<rparr>))"
proof -
  obtain m d where e: "easter y = (m, d)" by (cases "easter y")
  define cy cm cd where "cy = tm_year ltm + 1900" and "cm = tm_mon ltm + 1" and "cd = tm_mday ltm"
  have t: "today ltm = (cy, cm, cd)" by (simp add: today_def cy_def cm_def cd_def)
  have i: "i32 (tm_year ltm + 1900) = ok cy" "i32 (tm_mon ltm + 1) = ok cm"
    using assms(1-3) by (simp_all add: i32_in cy_def cm_def today_def)
  have name: "month_name2 m = (if m = 3 then ''March'' else ''April'')"
    using month_name2_easter [of y m] e by simp
  have sc: "scan_int (say u s) = ok (say u (s\<lparr>tin := nl @ r\<rparr>), Some y)" for u
    using scan_int_line [of y "say u s" r] assms(4-6) by (simp add: say_def)
  show ?thesis
    unfolding pascoa2_main_def i bnd_ok Let_def say_simps sc prod.case need_Some meeus2_easter [OF assms(4)] e name
      t greeting_def easter_news2_def fst_conv snd_conv cd_def [symmetric]
    by (auto simp: append_assoc [symmetric] simp del: append_assoc)
qed

theorem pascoa2_announces_witness:
  "pascoa2_main \<lparr>tm_sec = 0, tm_min = 0, tm_hour = 0, tm_mday = 21, tm_mon = 3, tm_year = 125\<rparr>
     \<lparr>tin = ''2025'' @ nl, tout = []\<rparr> = ok (say (greeting (2025, 4, 21)) \<lparr>tin = nl, tout = []\<rparr>)"
proof -
  have e: "easter 2025 = (4, 20)" by code_simp
  have d: "dec 2025 = ''2025''" by (simp add: dec_def)
  show ?thesis
    using pascoa2_announces [of "\<lparr>tm_sec = 0, tm_min = 0, tm_hour = 0, tm_mday = 21, tm_mon = 3, tm_year = 125\<rparr>"
        2025 "\<lparr>tin = ''2025'' @ nl, tout = []\<rparr>" "[]"]
    by (simp add: today_def easter_news2_def e d)
qed

section \<open>pascoa: the formula of Clavius\<close>

text \<open>The product \<open>5 * ano\<close> is the one operation that may overflow.\<close>

definition clavius :: "int \<Rightarrow> int run" where
  "clavius ano =
     (let a = ano smod 19 + 1;
          b = ano sdiv 100 + 1;
          c = (3 * b) sdiv 4 - 12;
          d = (8 * b + 5) sdiv 25 - 5;
          e = (11 * a + 20 + d - c) smod 30;
          e = (if e = 25 \<and> a > 11 \<or> e = 24 then e + 1 else e);
          f = 44 - e;
          f = (if f < 21 then f + 30 else f)
      in bnd (i32 (5 * ano)) (\<lambda>ano5.
         let g = ano5 sdiv 4 - (c + 10)
         in bnd (i32 (g + f)) (\<lambda>u. ok (f + 7 - u smod 7))))"

definition pascoa_main :: "terminal \<Rightarrow> terminal run" where
  "pascoa_main s =
     bnd (scan_int (say ''Digite um ano: '' s)) (\<lambda>(s, y).
     bnd (need y) (\<lambda>ano.
     bnd (clavius ano) (\<lambda>f.
     let mes = (if f > 31 then 4 else 3) in
     bnd (rd months (mes - 1)) (\<lambda>name.
     ok (if mes = 4 then
           say (nl @ tab @ ''Pascoa: '' @ dec (f - 31) @ '' de '' @ name @ '' de '' @ dec ano @ nl @ nl) s
         else say (nl @ tab @ ''Pascoa: '' @ dec f @ '' de '' @ name @ '' de '' @ dec ano @ nl @ nl) s)))))"

text \<open>The epact is computed with the remainder of C++, which is right while no operand is negative.\<close>

lemma clavius_easter:
  assumes "0 \<le> y" "y < 8600"
  shows "clavius y = ok (easter_march y)"
proof -
  define b where "b = y div 100 + 1"
  have b: "1 \<le> b" "b \<le> 86" using assms by (simp_all add: b_def pos_imp_zdiv_nonneg_iff)
  have c: "3 * b div 4 - 12 = solar y" "(8 * b + 5) div 25 - 5 = lunar y"
    by (simp_all add: solar_def lunar_def b_def)
  have "4 * (3 * b div 4) \<le> 3 * b" "8 * b + 5 < 25 * ((8 * b + 5) div 25) + 25" by linarith+
  then have "0 \<le> 11 * golden y + 20 + lunar y - solar y"
    using b golden_bounds [of y] unfolding c [symmetric] by linarith
  then have e: "(11 * golden y + 20 + lunar y - solar y) smod 30 = (11 * golden y + 20 + lunar y - solar y) mod 30"
    by (simp add: smod_nonneg)
  define n where "n = paschal_moon y"
  have n: "(if 44 - epact y < 21 then 44 - epact y + 30 else 44 - epact y) = n"
    by (simp add: n_def paschal_moon_def)
  have "0 \<le> 3 * b div 4" "3 * b div 4 \<le> b" using b by linarith+
  moreover have "100 * b \<le> y + 100" by (simp add: b_def)
  moreover have "4 * (5 * y div 4) \<le> 5 * y" "5 * y < 4 * (5 * y div 4) + 4" by linarith+
  ultimately have pos: "0 \<le> 5 * y div 4 - (solar y + 10) + n" "5 * y div 4 - (solar y + 10) + n \<le> int_max"
    using assms b paschal_moon_bounds [of y] unfolding c(1) [symmetric] n_def by linarith+
  have "(5 * y div 4 - (solar y + 10) + n) smod 7 = march_number y n mod 7"
    using pos(1) by (simp add: smod_nonneg march_number_mod7 algebra_simps)
  then have "n + 7 - (5 * y div 4 - (solar y + 10) + n) smod 7 = easter_march y"
    by (simp add: easter_march_def sunday_after_def n_def)
  moreover have "i32 (5 * y) = ok (5 * y)" using assms by (simp add: i32_in)
  moreover have "y smod 19 + 1 = golden y" "y sdiv 100 + 1 = b" "(5 * y) sdiv 4 = 5 * y div 4"
    "(3 * b) sdiv 4 = 3 * b div 4" "(8 * b + 5) sdiv 25 = (8 * b + 5) div 25"
    using assms(1) b by (simp_all add: smod_nonneg sdiv_nonneg golden_def b_def)
  moreover have "(if (11 * golden y + 20 + lunar y - solar y) mod 30 = 25 \<and> golden y > 11 \<or>
      (11 * golden y + 20 + lunar y - solar y) mod 30 = 24
      then (11 * golden y + 20 + lunar y - solar y) mod 30 + 1
      else (11 * golden y + 20 + lunar y - solar y) mod 30) = epact y"
    by (auto simp: epact_def Let_def)
  ultimately show ?thesis
    using pos unfolding clavius_def Let_def by (simp only: c e n bnd_ok i32_in simp_thms)
qed

text \<open>
  C19: pascoa prints Easter by the rule of the Gregorian reform for the years from 0 to 8599; the
  product it computes with and the remainders of negative numbers are the limit.
\<close>

theorem pascoa_prints_easter:
  assumes "0 \<le> y" "y < 8600" "tin s = dec y @ nl @ r"
  shows "pascoa_main s = ok (say (''Digite um ano: '' @
    (case easter y of (m, d) \<Rightarrow> nl @ tab @ ''Pascoa: '' @ dec d @ '' de '' @
       (if m = 3 then ''March'' else ''April'') @ '' de '' @ dec y @ nl @ nl)) (s\<lparr>tin := nl @ r\<rparr>))"
proof -
  have sc: "scan_int (say u s) = ok (say u (s\<lparr>tin := nl @ r\<rparr>), Some y)" for u
    using scan_int_line [of y "say u s" r] assms by (simp add: say_def)
  have rd: "rd months 3 = ok ''April''" "rd months 2 = ok ''March''"
    by (simp_all add: rd_def months_def at_def)
  show ?thesis
    unfolding pascoa_main_def sc bnd_ok prod.case need_Some clavius_easter [OF assms(1,2)] Let_def
    by (simp add: rd easter_def march_date_def)
qed

theorem pascoa_prints_easter_witness:
  "pascoa_main \<lparr>tin = ''2024'' @ nl, tout = []\<rparr> =
   ok \<lparr>tin = nl, tout = ''Digite um ano: '' @ nl @ tab @ ''Pascoa: 31 de March de 2024'' @ nl @ nl\<rparr>"
proof -
  have e: "easter 2024 = (3, 31)" by code_simp
  have d: "dec 2024 = ''2024''" "dec 31 = ''31''" by (simp_all add: dec_def)
  show ?thesis
    using pascoa_prints_easter [of 2024 "\<lparr>tin = ''2024'' @ nl, tout = []\<rparr>" "[]"]
    by (simp add: e d say_def)
qed

end
