(* ===== verification/Date_Easter20.thy ===== *)
theory Date_Easter20
  imports Date_Easter
begin

text \<open>
  The Easter programs of \<open>src/Date/pascoa\<close> that are made for the years 1900 to 2099: the formulas
  of Carter and Oudin (pascoa3) and of Oudin and Gauss (pascoa4, with carnival and Corpus Christi).
  In these years the corrections of the calendar are constant, so that the rule of Easter becomes
  the short \<open>easter20\<close>; each formula is first brought to the Sunday it looks for, then compared
  to the rule year by year.
\<close>

section \<open>pascoa3: the formulas of Carter and Oudin\<close>

definition carter_date :: "int \<Rightarrow> (int \<times> int) run" where
  "carter_date ano =
     (let a = 255 - 11 * (ano smod 19);
          b = (a - 21) smod 30 + 21;
          b = (if b > 38 then b - 1 else b)
      in bnd (i32 (ano + ano sdiv 4)) (\<lambda>u. bnd (i32 (u + b)) (\<lambda>u. bnd (i32 (u + 1)) (\<lambda>u.
         let c = u smod 7;
             d = b + 7 - c
         in if d < 32 then ok (3, d) else ok (4, d - 31)))))"

definition carter :: "int \<Rightarrow> 'a console_scheme \<Rightarrow> 'a console_scheme run" where
  "carter ano s =
     bnd (carter_date ano) (\<lambda>(mes, dia).
     ok (print (nl @ tab @ ''O dia da pascoa '' @ e_acute @ '': '' @ field0 2 dia @ ''/'' @ field0 2 mes @
       ''/'' @ field 4 ano @ nl @ nl) s))"

definition oudin_date :: "int \<Rightarrow> (int \<times> int) run" where
  "oudin_date ano =
     (let sec = ano sdiv 100;
          a = ano - 19 * (ano sdiv 19);
          b = (sec - 17) sdiv 25;
          c = sec - sec sdiv 4 - (sec - b) sdiv 3 + (19 * a + 15);
          d = c - 30 * (c sdiv 30)
      in bnd (div32 29 (d + 1)) (\<lambda>q.
         let e = d - d sdiv 28 * (1 - 1 sdiv 28) * q * ((21 - a) sdiv 11)
         in bnd (i32 (ano + ano sdiv 4)) (\<lambda>u. bnd (i32 (u + (e + 2 - sec + sec sdiv 4))) (\<lambda>f.
            let g = f - 7 * (f sdiv 7);
                h = e - g;
                mes = 3 + (h + 40) sdiv 44;
                dia = h + 28 - 31 * (mes sdiv 4)
            in ok (mes, dia)))))"

definition oudin :: "int \<Rightarrow> 'a console_scheme \<Rightarrow> 'a console_scheme run" where
  "oudin ano s =
     bnd (oudin_date ano) (\<lambda>(mes, dia).
     ok (print (nl @ tab @ ''O dia da pascoa '' @ e_acute @ '': '' @ field0 2 dia @ ''/'' @ field0 2 mes @
       ''/'' @ field 4 ano @ nl @ nl) s))"

definition pascoa3_main :: "'a console_scheme \<Rightarrow> 'a console_scheme run" where
  "pascoa3_main s =
     bnd (loop (\<lambda>s.
       bnd (read_int (print (nl @ tab @ ''digite um ano entre 1900 e 2099: '') s)) (\<lambda>(s, ano).
       let s = (if ano < 1900 \<or> ano > 2099 then print (nl @ tab @ ''ano invalido!'' @ nl @ nl) s else s)
       in ok (if ano < 1900 \<or> ano > 2099 then Inl s else Inr (s, ano)))) s) (\<lambda>(s, ano).
     bnd (carter ano s) (oudin ano))"

subsection \<open>The years 1900 to 2099\<close>

text \<open>
  In these two centuries the corrections are constant: the full moon is \<open>h20\<close> days after 21 March,
  or a day earlier, and \<open>sunday20\<close> finds the Sunday after it.
\<close>

definition h20 :: "int \<Rightarrow> int" where
  "h20 y = (19 * (y mod 19) + 24) mod 30"

definition sunday20 :: "int \<Rightarrow> int \<Rightarrow> int" where
  "sunday20 y n = n + 7 - (y + y div 4 + 1 + n) mod 7"

definition early20 :: "int \<Rightarrow> bool" where
  "early20 y \<longleftrightarrow> h20 y = 29 \<or> h20 y = 28 \<and> 11 \<le> y mod 19"

lemma century20: "1900 \<le> y \<Longrightarrow> y \<le> 2099 \<Longrightarrow> y div 100 = 19 \<or> y div 100 = (20::int)"
  by linarith

lemma h20_meeus: "1900 \<le> y \<Longrightarrow> y \<le> 2099 \<Longrightarrow> meeus_h y = h20 y"
  using century20 [of y] by (auto simp: meeus_h_def h20_def add.commute)

lemma sunday20_after: "1900 \<le> y \<Longrightarrow> y \<le> 2099 \<Longrightarrow> sunday_after y n = sunday20 y n"
proof -
  assume y: "1900 \<le> y" "y \<le> 2099"
  have "5 * y div 4 - solar y - 10 + n = y + y div 4 + 1 + n + 7 * - 2"
    using century20 [OF y] by (auto simp: solar_def)
  then have "march_number y n mod 7 = (y + y div 4 + 1 + n) mod 7"
    by (simp only: march_number_mod7 mod_mult_self2)
  then show ?thesis by (simp add: sunday_after_def sunday20_def)
qed

lemma easter20: "1900 \<le> y \<Longrightarrow> y \<le> 2099 \<Longrightarrow>
    easter_march y = sunday20 y (21 + h20 y - (if early20 y then 1 else 0))"
  by (simp add: easter_march_def sunday20_after paschal_moon_meeus moon_early_def early20_def h20_meeus)

lemma h20_bounds: "0 \<le> h20 y" "h20 y < 30"
  by (simp_all add: h20_def)

lemma carter_sunday:
  assumes y: "1900 \<le> y" "y \<le> 2099"
  shows "carter_date y = ok (march_date (sunday20 y (21 + h20 y - (if h20 y > 17 then 1 else 0))))"
proof -
  have m: "y smod 19 = y mod 19" "y sdiv 4 = y div 4" using y by (simp_all add: smod_nonneg sdiv_nonneg)
  have "(255 - 11 * (y mod 19) - 21) mod 30 = (19 * (y mod 19) + 24 + 30 * (7 - y mod 19)) mod 30"
    by (simp add: algebra_simps)
  moreover have "0 \<le> 255 - 11 * (y mod 19) - 21"
    using pos_mod_bound [of 19 y] by simp
  ultimately have h: "(255 - 11 * (y mod 19) - 21) smod 30 = h20 y"
    by (simp only: mod_mult_self2 smod_nonneg h20_def zero_less_numeral)
  define b where "b = 21 + h20 y - (if h20 y > 17 then 1 else 0)"
  have b: "(if h20 y + 21 > 38 then h20 y + 21 - 1 else h20 y + 21) = b"
    by (simp add: b_def)
  have b0: "0 \<le> b" "b \<le> 50" using h20_bounds [of y] by (simp_all add: b_def)
  have q: "0 \<le> y div 4" "y div 4 \<le> y" using y by (simp_all add: pos_imp_zdiv_nonneg_iff)
  have i: "i32 (y + y div 4) = ok (y + y div 4)" "i32 (y + y div 4 + b) = ok (y + y div 4 + b)"
    "i32 (y + y div 4 + b + 1) = ok (y + y div 4 + b + 1)"
    using y b0 q by (simp_all add: i32_in)
  have c: "(y + y div 4 + b + 1) smod 7 = (y + y div 4 + 1 + b) mod 7"
    using y b0 q smod_nonneg [of "y + y div 4 + b + 1" 7] by (simp add: algebra_simps)
  show ?thesis
    unfolding carter_date_def Let_def m h b i bnd_ok c b_def [symmetric]
    by (simp add: march_date_def sunday20_def)
qed

lemma carter_easter20: "\<forall>y \<in> set [1900..2099].
    sunday20 y (21 + h20 y - (if h20 y > 17 then 1 else 0)) =
    sunday20 y (21 + h20 y - (if early20 y then 1 else 0)) -
      (if y \<in> {1906, 1930, 1957, 2001, 2025, 2052, 2055, 2079, 2096} then 7 else 0)"
  by code_simp

text \<open>The two formulas of Oudin share everything but the correction of the full moon.\<close>

lemma oudin_terms:
  assumes y: "1900 \<le> y" "y \<le> 2099"
  defines "sec \<equiv> y sdiv 100" and "a \<equiv> y - 19 * (y sdiv 19)"
  shows "a = y mod 19" "sec - sec sdiv 4 = 15"
    "sec - sec sdiv 4 - (sec - (sec - 17) sdiv 25) sdiv 3 + (19 * (y mod 19) + 15) = 19 * (y mod 19) + 24"
    "19 * (y mod 19) + 24 - 30 * ((19 * (y mod 19) + 24) sdiv 30) = h20 y"
proof -
  show a: "a = y mod 19" using y by (simp add: a_def sdiv_nonneg minus_mult_div_eq_mod)
  have "sec = 19 \<or> sec = 20" using century20 [OF y] y by (simp add: sec_def sdiv_nonneg)
  moreover have "(19::int) sdiv 4 = 4" "(2::int) sdiv 25 = 0" "(19::int) sdiv 3 = 6" "(20::int) sdiv 4 = 5"
    "(3::int) sdiv 25 = 0" "(20::int) sdiv 3 = 6"
    by (simp_all add: sdiv_nonneg)
  ultimately show "sec - sec sdiv 4 = 15"
    "sec - sec sdiv 4 - (sec - (sec - 17) sdiv 25) sdiv 3 + (19 * (y mod 19) + 15) = 19 * (y mod 19) + 24"
    by auto
  have "0 \<le> 19 * (y mod 19) + 24" by simp
  then show "19 * (y mod 19) + 24 - 30 * ((19 * (y mod 19) + 24) sdiv 30) = h20 y"
    by (simp add: sdiv_nonneg minus_mult_div_eq_mod h20_def)
qed

lemma oudin_month_day:
  fixes y e :: int
  assumes y: "1900 \<le> y" "y \<le> 2099" and e: "0 \<le> e" "e \<le> 29"
  defines "f \<equiv> y + y div 4 + (e + 2 - y sdiv 100 + y sdiv 100 sdiv 4)"
  defines "h \<equiv> e - (f - 7 * (f sdiv 7))"
  shows "i32 f = ok f" "(3 + (h + 40) sdiv 44, h + 28 - 31 * ((3 + (h + 40) sdiv 44) sdiv 4))
      = march_date (sunday20 y (21 + e))"
proof -
  have f: "f = y + y div 4 + 1 + (21 + e) + 7 * - 5"
    using oudin_terms(2) [OF y] by (simp add: f_def)
  have q: "0 \<le> y div 4" "y div 4 \<le> y" using y by (simp_all add: pos_imp_zdiv_nonneg_iff)
  then show "i32 f = ok f" using y e by (simp add: f i32_in)
  have "0 \<le> f" using q y e by (simp add: f)
  then have "f - 7 * (f sdiv 7) = (y + y div 4 + 1 + (21 + e)) mod 7"
    unfolding f by (simp only: sdiv_nonneg zero_less_numeral minus_mult_div_eq_mod mod_mult_self2)
  then have h: "h = sunday20 y (21 + e) - 28"
    by (simp add: h_def sunday20_def)
  have hb: "- 6 \<le> h" "h \<le> 29"
    using e pos_mod_bound [of 7 "y + y div 4 + 1 + (21 + e)"] by (simp_all add: h sunday20_def)
  show "(3 + (h + 40) sdiv 44, h + 28 - 31 * ((3 + (h + 40) sdiv 44) sdiv 4)) = march_date (sunday20 y (21 + e))"
  proof (cases "h \<le> 3")
    case True
    with hb have "(h + 40) sdiv 44 = 0" "(3::int) sdiv 4 = 0" by (simp_all add: sdiv_nonneg div_pos_pos_trivial)
    with True show ?thesis by (simp add: march_date_def h)
  next
    case False
    with hb have "(h + 40) div 44 = 1" by (intro int_div_pos_eq [where r = "h - 4"]) auto
    with False hb have "(h + 40) sdiv 44 = 1" "(4::int) sdiv 4 = 1" by (simp_all add: sdiv_nonneg)
    with False show ?thesis by (simp add: march_date_def h)
  qed
qed

lemma oudin_leap_term: "1900 \<le> y \<Longrightarrow> y \<le> 2099 \<Longrightarrow> y + y sdiv 4 = y + y div 4 \<and> i32 (y + y div 4) = ok (y + y div 4)"
  by (simp add: sdiv_nonneg i32_in)

lemma div32_29: "0 \<le> d \<Longrightarrow> div32 29 (d + 1) = ok (29 div (d + 1))"
proof -
  assume d: "0 \<le> d"
  then have "0 \<le> 29 div (d + 1)" "29 div (d + 1) \<le> 29"
    using zdiv_mono2 [of 29 1 "d + 1"] by (simp_all add: pos_imp_zdiv_nonneg_iff)
  with d show ?thesis by (simp add: div32_def sdiv_nonneg i32_in)
qed

definition oudin3_e :: "int \<Rightarrow> int" where
  "oudin3_e y = h20 y - h20 y sdiv 28 * (1 - 1 sdiv 28) * (29 div (h20 y + 1)) * ((21 - y mod 19) sdiv 11)"

lemma oudin3_e: "oudin3_e y = h20 y - (if h20 y = 28 \<and> y mod 19 \<le> 10 then 1 else 0)"
proof -
  have a: "0 \<le> y mod 19" "y mod 19 < 19" by simp_all
  have "(1::int) sdiv 28 = 0" by (simp add: sdiv_nonneg)
  moreover have "h20 y sdiv 28 = (if 28 \<le> h20 y then 1 else 0)"
    using h20_bounds [of y] by (auto simp: sdiv_nonneg div_pos_pos_trivial intro!: int_div_pos_eq [where r = "h20 y - 28"])
  moreover have "h20 y = 29 \<Longrightarrow> 29 div (h20 y + 1) = 0" "h20 y = 28 \<Longrightarrow> 29 div (h20 y + 1) = 1" by simp_all
  moreover have "(21 - y mod 19) sdiv 11 = (if y mod 19 \<le> 10 then 1 else 0)"
    using a by (auto simp: sdiv_nonneg div_pos_pos_trivial intro!: int_div_pos_eq [where r = "10 - y mod 19"])
  ultimately show ?thesis using h20_bounds [of y] unfolding oudin3_e_def
    by (cases "h20 y = 29"; cases "h20 y = 28") auto
qed

lemma oudin_sunday:
  assumes y: "1900 \<le> y" "y \<le> 2099"
  shows "oudin_date y = ok (march_date (sunday20 y (21 + oudin3_e y)))"
proof -
  have e: "0 \<le> oudin3_e y" "oudin3_e y \<le> 29" using h20_bounds [of y] by (simp_all add: oudin3_e)
  note t = oudin_terms [OF y] and md = oudin_month_day [OF y e]
  show ?thesis
    unfolding oudin_date_def Let_def t(3,4) t(1) div32_29 [OF h20_bounds(1)] bnd_ok
      oudin_leap_term [OF y, THEN conjunct1] oudin_leap_term [OF y, THEN conjunct2]
      oudin3_e_def [symmetric] md ..
qed

lemma oudin_easter20: "\<forall>y \<in> set [1900..2099].
    sunday20 y (21 + (h20 y - (if h20 y = 28 \<and> y mod 19 \<le> 10 then 1 else 0))) =
    sunday20 y (21 + h20 y - (if early20 y then 1 else 0)) + (if y \<in> {1954, 1981, 2049, 2076} then 7 else 0)"
  by code_simp

text \<open>What pascoa3 prints for the year \<open>y\<close> and the day \<open>n\<close> of March.\<close>

definition dia_da_pascoa :: "int \<Rightarrow> int \<Rightarrow> string" where
  "dia_da_pascoa y n = (case march_date n of (m, d) \<Rightarrow>
     nl @ tab @ ''O dia da pascoa '' @ e_acute @ '': '' @ field0 2 d @ ''/'' @ field0 2 m @ ''/'' @
     field 4 y @ nl @ nl)"

definition carter_late :: "int list" where
  "carter_late = [1906, 1930, 1957, 2001, 2025, 2052, 2055, 2079, 2096]"

definition oudin_late :: "int list" where
  "oudin_late = [1954, 1981, 2049, 2076]"

lemma in_upto: "l \<le> i \<Longrightarrow> i \<le> u \<Longrightarrow> i \<in> set [l..u]"
  by (simp only: set_upto atLeastAtMost_iff simp_thms)

lemma carter_easter:
  assumes y: "1900 \<le> y" "y \<le> 2099"
  shows "carter_date y = ok (march_date (easter_march y - (if y \<in> set carter_late then 7 else 0)))"
  using bspec [OF carter_easter20 in_upto [OF y]]
  by (simp add: carter_sunday [OF y] easter20 [OF y] carter_late_def)

lemma oudin_easter:
  assumes y: "1900 \<le> y" "y \<le> 2099"
  shows "oudin_date y = ok (march_date (easter_march y + (if y \<in> set oudin_late then 7 else 0)))"
  using bspec [OF oudin_easter20 in_upto [OF y]]
  by (simp add: oudin_sunday [OF y] oudin3_e easter20 [OF y] oudin_late_def)

text \<open>
  C12: pascoa3 asks until the year is between 1900 and 2099 and then prints Easter twice.  The
  first date, by Carter, is a week early in nine of these years (the test of the full moon has 38
  where Carter has 48); the second, by Oudin, is a week late in four (a parenthesis is misplaced).
  In all other years both are Easter.
\<close>

theorem pascoa3_prints:
  assumes "inp s = xs @ y # r"
    and "list_all (\<lambda>x. int_min \<le> x \<and> x \<le> int_max \<and> (x < 1900 \<or> x > 2099)) xs"
    and "1900 \<le> y" "y \<le> 2099"
  shows "pascoa3_main s = ok (print
    (concat (map (\<lambda>x. nl @ tab @ ''digite um ano entre 1900 e 2099: '' @ nl @ tab @ ''ano invalido!'' @ nl @ nl) xs)
     @ nl @ tab @ ''digite um ano entre 1900 e 2099: ''
     @ dia_da_pascoa y (easter_march y - (if y \<in> set carter_late then 7 else 0))
     @ dia_da_pascoa y (easter_march y + (if y \<in> set oudin_late then 7 else 0))) (s\<lparr>inp := r\<rparr>))"
proof -
  define ask :: string where "ask = nl @ tab @ ''digite um ano entre 1900 e 2099: ''"
  define bad :: string where "bad = nl @ tab @ ''ano invalido!'' @ nl @ nl"
  let ?body = "\<lambda>s. bnd (read_int (print ask s)) (\<lambda>(s, ano).
       let s = (if ano < 1900 \<or> ano > 2099 then print bad s else s)
       in ok (if ano < 1900 \<or> ano > 2099 then Inl s else Inr (s, ano)))"
  have loop: "loop ?body s = ok (print (concat (map (\<lambda>x. ask @ bad) xs) @ ask) (s\<lparr>inp := r\<rparr>), y)"
    using assms(1,2)
  proof (induction xs arbitrary: s)
    case Nil
    then show ?case using assms(3,4)
      by (subst loop_unfold) (simp add: read_int_def print_def)
  next
    case (Cons x xs)
    have "loop ?body s = loop ?body (print (ask @ bad) (s\<lparr>inp := xs @ y # r\<rparr>))"
      using Cons.prems by (subst loop_unfold) (auto simp: read_int_def print_def)
    with Cons.IH [of "print (ask @ bad) (s\<lparr>inp := xs @ y # r\<rparr>)"] Cons.prems show ?case
      by (simp add: print_def)
  qed
  have out: "bnd (carter_date y) (\<lambda>(mes, dia). ok (print (nl @ tab @ ''O dia da pascoa '' @ e_acute @ '': '' @
      field0 2 dia @ ''/'' @ field0 2 mes @ ''/'' @ field 4 y @ nl @ nl) s)) =
      ok (print (dia_da_pascoa y (easter_march y - (if y \<in> set carter_late then 7 else 0))) s)"
    "bnd (oudin_date y) (\<lambda>(mes, dia). ok (print (nl @ tab @ ''O dia da pascoa '' @ e_acute @ '': '' @
      field0 2 dia @ ''/'' @ field0 2 mes @ ''/'' @ field 4 y @ nl @ nl) s)) =
      ok (print (dia_da_pascoa y (easter_march y + (if y \<in> set oudin_late then 7 else 0))) s)" for s :: "'a console_scheme"
    unfolding carter_easter [OF assms(3,4)] oudin_easter [OF assms(3,4)] bnd_ok dia_da_pascoa_def
    by (simp_all split: prod.split)
  show ?thesis
    unfolding pascoa3_main_def carter_def oudin_def ask_def [symmetric] bad_def [symmetric] loop bnd_ok prod.case out
    by (simp add: ask_def bad_def)
qed

theorem pascoa3_prints_witness:
  "pascoa3_main \<lparr>inp = [1800, 2025], out = []\<rparr> = ok \<lparr>inp = [], out =
     nl @ tab @ ''digite um ano entre 1900 e 2099: '' @ nl @ tab @ ''ano invalido!'' @ nl @ nl
     @ nl @ tab @ ''digite um ano entre 1900 e 2099: ''
     @ nl @ tab @ ''O dia da pascoa '' @ e_acute @ '': 13/04/2025'' @ nl @ nl
     @ nl @ tab @ ''O dia da pascoa '' @ e_acute @ '': 20/04/2025'' @ nl @ nl\<rparr>"
proof -
  have "easter_march 2025 = 51" by code_simp
  then have "dia_da_pascoa 2025 (easter_march 2025 - (if 2025 \<in> set carter_late then 7 else 0)) =
      nl @ tab @ ''O dia da pascoa '' @ e_acute @ '': 13/04/2025'' @ nl @ nl"
    "dia_da_pascoa 2025 (easter_march 2025 + (if 2025 \<in> set oudin_late then 7 else 0)) =
      nl @ tab @ ''O dia da pascoa '' @ e_acute @ '': 20/04/2025'' @ nl @ nl"
    by (simp_all add: dia_da_pascoa_def carter_late_def oudin_late_def march_date_def field0_def field_def
        dec_def Let_def)
  then show ?thesis
    using pascoa3_prints [of "\<lparr>inp = [1800, 2025], out = []\<rparr>" "[1800]" 2025 "[]"]
    by (simp add: print_def)
qed

section \<open>pascoa4: Easter, carnival and Corpus Christi\<close>

definition mesdapascoa :: "int \<Rightarrow> int run" where
  "mesdapascoa ano =
     (let a = ano sdiv 100;
          b = ano - 19 * (ano sdiv 19);
          c = (a - 17) sdiv 25;
          d = a - a sdiv 4 - (a - c) sdiv 3 + (19 * b + 15);
          e = d - 30 * (d sdiv 30)
      in bnd (div32 29 (e + 1)) (\<lambda>q.
         let f = e - e sdiv 28 * (1 - e sdiv 28) * q * ((21 - b) sdiv 11)
         in bnd (i32 (ano + ano sdiv 4)) (\<lambda>u. bnd (i32 (u + (f + 2 - a + a sdiv 4))) (\<lambda>g.
            let h = g - 7 * (g sdiv 7);
                i = f - h
            in ok (3 + (i + 40) sdiv 44)))))"

definition diadapascoa :: "int \<Rightarrow> int run" where
  "diadapascoa ano =
     (let a = ano sdiv 100;
          b = ano - 19 * (ano sdiv 19);
          c = (a - 17) sdiv 25;
          d = a - a sdiv 4 - (a - c) sdiv 3 + (19 * b + 15);
          e = d - 30 * (d sdiv 30)
      in bnd (div32 29 (e + 1)) (\<lambda>q.
         let f = e - e sdiv 28 * (1 - e sdiv 28) * q * ((21 - b) sdiv 11)
         in bnd (i32 (ano + ano sdiv 4)) (\<lambda>u. bnd (i32 (u + (f + 2 - a + a sdiv 4))) (\<lambda>g.
            let h = g - 7 * (g sdiv 7);
                i = f - h;
                j = 3 + (i + 40) sdiv 44
            in ok (i + 28 - 31 * (j sdiv 4))))))"

text \<open>The date of Gauss is computed, then written through a pointer that was never set.\<close>

definition gauss_date :: "int \<Rightarrow> int \<times> int" where
  "gauss_date ano =
     (let X = 24; Y = 5;
          a = ano smod 19;
          b = ano smod 4;
          c = ano smod 7;
          d = (19 * a + X) smod 30;
          e = (2 * b + 4 * c + 6 * d + Y) smod 7;
          (dia, mes) = (if d + e > 9 then (d + e - 9, 4) else (d + e + 22, 3));
          dia = (if dia = 26 \<and> mes = 4 then 19 else dia);
          dia = (if dia = 25 \<and> mes = 4 \<and> d = 28 \<and> a > 10 then 18 else dia)
      in (mes, dia))"

definition findPascoa :: "int \<Rightarrow> string run" where
  "findPascoa ano = (let (mes, dia) = gauss_date ano in fail Uninitialised)"

text \<open>
  The days and months passed here are what \<open>diadapascoa\<close> and \<open>mesdapascoa\<close> return; \<open>mes[1]\<close> is
  all that is read of the array of month lengths.
\<close>

definition diadocarnaval :: "int \<Rightarrow> int \<Rightarrow> int \<Rightarrow> int run" where
  "diadocarnaval ano diapascoa mespascoa =
     (let mes1 = (if ano smod 4 = 0 \<or> ano smod 400 = 0 \<and> ano smod 100 \<noteq> 0 then 29 else 28) in
      bnd (i32 (mes1 + diapascoa)) (\<lambda>u.
      if mespascoa = 3 then i32 (u - 47)
      else bnd (i32 (diapascoa + 31)) (\<lambda>v. bnd (i32 (u - 47)) (\<lambda>w.
        if v - w > 47 then i32 (47 - v)
        else bnd (i32 (v + mes1)) (\<lambda>x. i32 (47 - x))))))"

definition mesdocarnaval :: "int \<Rightarrow> int \<Rightarrow> int \<Rightarrow> int run" where
  "mesdocarnaval diacarnaval diapascoa mespascoa =
     (if mespascoa = 3 then ok 2
      else bnd (i32 (diapascoa + 31)) (\<lambda>u. bnd (i32 (u - diacarnaval)) (\<lambda>v.
        if v > 47 then ok 3 else ok 2)))"

definition mescorpus :: "int \<Rightarrow> int run" where
  "mescorpus ano =
     (let a = ano smod 19;
          b = ano sdiv 100;
          c = ano smod 100;
          d = b sdiv 4;
          e = b smod 4;
          f = (b + 8) sdiv 25;
          g = (b - f + 1) sdiv 3;
          h = (19 * a + b - d - g + 15) smod 30;
          i = c sdiv 4;
          j = c smod 4;
          k = (32 + 2 * e + 2 * i - h - j) smod 7;
          l = (a + 11 * h + 22 * k) sdiv 451;
          mes = (h + k - 7 * l + 114) sdiv 31;
          dia = (h + k - 7 * l + 114) smod 31 + 1
      in if mes = 3 then if dia + 60 - 30 \<le> 30 then ok (mes + 1) else ok (mes + 2)
         else if mes = 4 then if dia + 60 - 31 \<le> 31 then ok (mes + 1) else ok (mes + 2)
         else fail Missing_Return)"

definition diacorpus :: "int \<Rightarrow> int run" where
  "diacorpus ano =
     (let a = ano smod 19;
          b = ano sdiv 100;
          c = ano smod 100;
          d = b sdiv 4;
          e = b smod 4;
          f = (b + 8) sdiv 25;
          g = (b - f + 1) sdiv 3;
          h = (19 * a + b - d - g + 15) smod 30;
          i = c sdiv 4;
          j = c smod 4;
          k = (32 + 2 * e + 2 * i - h - j) smod 7;
          l = (a + 11 * h + 22 * k) sdiv 451;
          mes = (h + k - 7 * l + 114) sdiv 31;
          dia = (h + k - 7 * l + 114) smod 31 + 1
      in if mes = 3 then if dia + 60 - 30 \<le> 30 then ok (dia + 60 - 30) else ok (dia + 60 - 30 - 31)
         else if mes = 4 then if dia + 60 - 31 \<le> 31 then ok (dia + 60 - 31 + 1) else ok (dia + 60 - 31 - 30)
         else fail Missing_Return)"

definition no_dia :: "int \<Rightarrow> int \<Rightarrow> int \<Rightarrow> string" where
  "no_dia dia mes ano = ''no dia '' @ field0 2 dia @ '' do mes '' @ field0 2 mes @ '' do ano '' @ field 4 ano @ ''.''"

definition pascoa4_main :: "terminal \<Rightarrow> terminal run" where
  "pascoa4_main s =
     bnd (scan_int (say ''Qual o ano que quer consultar? '' s)) (\<lambda>(s, y).
     bnd (need y) (\<lambda>ano.
     bnd (diadapascoa ano) (\<lambda>dp.
     bnd (mesdapascoa ano) (\<lambda>mp.
     bnd (diadocarnaval ano dp mp) (\<lambda>dc.
     bnd (mesdocarnaval dc dp mp) (\<lambda>mc.
     bnd (diacorpus ano) (\<lambda>dcc.
     bnd (mescorpus ano) (\<lambda>mcc.
     let s = say (nl @ tab @ ''Corpus Christi ser'' @ a_acute @ '' '' @ no_dia dcc mcc ano) s;
         s = say (nl @ tab @ ''A P'' @ a_acute @ ''scoa ser'' @ a_acute @ '' '' @ no_dia dp mp ano) s
     in ok (if mc = 3 then
              say (nl @ tab @ ''O carnaval ser'' @ a_acute @ '' '' @ no_dia (2 - dc - 2) mc ano @ nl @ nl @ nl @ tab @
                ''Dia de cinzas ser'' @ a_acute @ ''  '' @ no_dia (1 - dc - 1) mc ano @ nl @ nl) s
            else
              say (nl @ tab @ ''O carnaval ser'' @ a_acute @ '' '' @ no_dia (dc - 2) mc ano @ nl @ tab @
                ''Dia de cinzas ser'' @ a_acute @ ''  '' @ no_dia (dc - 1) mc ano @ nl @ nl) s)))))))))"

lemma oudin4_e: "h20 y - h20 y sdiv 28 * (1 - h20 y sdiv 28) * q * r = h20 y"
proof -
  have "h20 y sdiv 28 = (if 28 \<le> h20 y then 1 else 0)"
    using h20_bounds [of y] by (auto simp: sdiv_nonneg div_pos_pos_trivial intro!: int_div_pos_eq [where r = "h20 y - 28"])
  then show ?thesis by simp
qed

lemma oudin4_easter20: "\<forall>y \<in> set [1900..2099].
    sunday20 y (21 + h20 y) =
    sunday20 y (21 + h20 y - (if early20 y then 1 else 0)) + (if y \<in> set [1954, 1981, 2049, 2076] then 7 else 0)"
  by code_simp

text \<open>The month and the day pascoa4 gives for Easter.\<close>

definition pascoa4_easter :: "int \<Rightarrow> int" where
  "pascoa4_easter y = easter_march y + (if y \<in> set oudin_late then 7 else 0)"

lemma pascoa4_month_day:
  assumes y: "1900 \<le> y" "y \<le> 2099"
  shows "mesdapascoa y = ok (fst (march_date (pascoa4_easter y)))"
    "diadapascoa y = ok (snd (march_date (pascoa4_easter y)))"
proof -
  note t = oudin_terms [OF y] and md = oudin_month_day [OF y h20_bounds(1), of y]
  have b: "h20 y \<le> 29" using h20_bounds(2) [of y] by simp
  have s: "sunday20 y (21 + h20 y) = pascoa4_easter y"
    using bspec [OF oudin4_easter20 in_upto [OF y]]
    by (simp add: pascoa4_easter_def easter20 [OF y] oudin_late_def)
  note parts = md(2) [OF b, unfolded s, THEN arg_cong [where f = fst], unfolded fst_conv]
    md(2) [OF b, unfolded s, THEN arg_cong [where f = snd], unfolded snd_conv]
  note evaluate = t(3,4) t(1) div32_29 [OF h20_bounds(1)] bnd_ok oudin4_e
    oudin_leap_term [OF y, THEN conjunct1] oudin_leap_term [OF y, THEN conjunct2] md(1) [OF b]
  show "mesdapascoa y = ok (fst (march_date (pascoa4_easter y)))"
    unfolding mesdapascoa_def Let_def evaluate parts(1) ..
  show "diadapascoa y = ok (snd (march_date (pascoa4_easter y)))"
    unfolding diadapascoa_def Let_def evaluate parts(2) ..
qed

lemma mescorpus_meeus: "mescorpus y = (let (m, d) = meeus y in
    if m = 3 then ok (if d \<le> 0 then 4 else 5) else if m = 4 then ok (if d \<le> 2 then 5 else 6) else fail Missing_Return)"
  unfolding mescorpus_def meeus_def Let_def prod.case by auto

lemma diacorpus_meeus: "diacorpus y = (let (m, d) = meeus y in
    if m = 3 then ok (if d \<le> 0 then d + 30 else d - 1)
    else if m = 4 then ok (if d \<le> 2 then d + 30 else d - 1) else fail Missing_Return)"
  unfolding diacorpus_def meeus_def Let_def prod.case by auto

text \<open>
  for every year from 0 on, the day and month pascoa4 computes for Corpus Christi are sixty
  days after Easter, and they are a date of the calendar unless Easter is on 2 April: then the day
  is the 32nd of May.
\<close>

theorem corpus_sixty_days:
  assumes "0 \<le> y"
  shows "\<exists>m d. mescorpus y = ok m \<and> diacorpus y = ok d
    \<and> day_number (y, m, d) = march_number y (easter_march y) + 60
    \<and> (valid_date (y, m, d) \<longleftrightarrow> easter y \<noteq> (4, 2))"
proof -
  define n where "n = easter_march y"
  have n: "22 \<le> n" "n \<le> 56" using easter_march_bounds [of y] by (simp_all add: n_def)
  have e: "easter y = march_date n" by (simp add: easter_def n_def)
  show ?thesis
    using n unfolding mescorpus_meeus diacorpus_meeus meeus_easter [OF assms] e n_def [symmetric]
    by (cases "n \<le> 31"; cases "n \<le> 33") (auto simp: march_date_def march_number_def)
qed

theorem corpus_sixty_days_witness:
  "\<exists>m d. mescorpus 2024 = ok m \<and> diacorpus 2024 = ok d
    \<and> day_number (2024, m, d) = march_number 2024 (easter_march 2024) + 60
    \<and> (valid_date (2024, m, d) \<longleftrightarrow> easter 2024 \<noteq> (4, 2))"
  by (rule corpus_sixty_days) simp

text \<open>
  Carnival and Ash Wednesday as pascoa4 prints them when it takes Easter to be on day \<open>n\<close> of March
  and February to have \<open>f\<close> days: pairs of month and day.
\<close>

definition carnival_shown :: "int \<Rightarrow> int \<Rightarrow> (int \<times> int) \<times> (int \<times> int)" where
  "carnival_shown f n = (if n \<le> 31 then ((2, f + n - 49), (2, f + n - 48))
     else if n > 47 then ((3, n - 47), (3, n - 47)) else ((2, 45 - n), (2, 46 - n)))"

definition feb4 :: "int \<Rightarrow> int" where
  "feb4 y = (if y mod 4 = 0 then 29 else 28)"

text \<open>Carnival is 47 days before Easter: with the right length of February that is so in these cases.\<close>

lemma carnival_shown_right:
  assumes "22 \<le> n" "n \<le> 57"
  shows "(case fst (carnival_shown (28 + leap_day y) n) of (m, d) \<Rightarrow> day_number (y, m, d) = march_number y (n - 47))
     \<longleftrightarrow> n > 47 \<or> n = 32 \<and> \<not> leap y"
    "(case snd (carnival_shown (28 + leap_day y) n) of (m, d) \<Rightarrow> day_number (y, m, d) = march_number y (n - 46))
     \<longleftrightarrow> n = 32 \<and> \<not> leap y"
  using assms leap_day_bounds [of y] by (auto simp: carnival_shown_def march_number_def leap_day_def)

definition pascoa4_text :: "int \<Rightarrow> int \<times> int \<Rightarrow> int \<times> int \<Rightarrow> (int \<times> int) \<times> (int \<times> int) \<Rightarrow> string" where
  "pascoa4_text y corpus pascoa carnaval = (case (corpus, pascoa, carnaval) of ((mcc, dcc), (mp, dp), ((mc, dc), (mz, dz))) \<Rightarrow>
     nl @ tab @ ''Corpus Christi ser'' @ a_acute @ '' '' @ no_dia dcc mcc y @
     nl @ tab @ ''A P'' @ a_acute @ ''scoa ser'' @ a_acute @ '' '' @ no_dia dp mp y @
     nl @ tab @ ''O carnaval ser'' @ a_acute @ '' '' @ no_dia dc mc y @ (if mc = 3 then nl @ nl else []) @ nl @ tab @
     ''Dia de cinzas ser'' @ a_acute @ ''  '' @ no_dia dz mz y @ nl @ nl)"

lemma pascoa4_easter_bounds:
  assumes y: "1900 \<le> y" "y \<le> 2099"
  shows "22 \<le> pascoa4_easter y" "pascoa4_easter y \<le> 57"
  using oudin4_easter20 [THEN bspec, OF in_upto [OF y]] h20_bounds [of y] easter_march_bounds [of y]
    pos_mod_sign [of 7 "y + y div 4 + 1 + (21 + h20 y)"]
  by (simp_all add: pascoa4_easter_def oudin_late_def easter20 [OF y, symmetric] sunday20_def [of y "21 + h20 y"]
      del: pos_mod_sign)

lemma mes1_feb4: "0 \<le> y \<Longrightarrow> (if y smod 4 = 0 \<or> y smod 400 = 0 \<and> y smod 100 \<noteq> 0 then 29 else 28) = feb4 y"
proof -
  assume y: "0 \<le> y"
  have "y mod 400 = 0 \<Longrightarrow> y mod 100 = 0"
    using mod_mod_cancel [of 100 400 y] by simp
  with y show ?thesis by (auto simp: feb4_def smod_nonneg)
qed

lemma carnival4:
  assumes y: "0 \<le> y" and n: "22 \<le> n" "n \<le> 57"
  defines "mp \<equiv> fst (march_date n)" and "dp \<equiv> snd (march_date n)"
  shows "\<exists>dc. diadocarnaval y dp mp = ok dc \<and>
      mesdocarnaval dc dp mp = ok (fst (fst (carnival_shown (feb4 y) n))) \<and>
      (if fst (fst (carnival_shown (feb4 y) n)) = 3
       then carnival_shown (feb4 y) n = ((3, 2 - dc - 2), (3, 1 - dc - 1))
       else carnival_shown (feb4 y) n = ((2, dc - 2), (2, dc - 1)))"
proof -
  have f: "feb4 y = 28 \<or> feb4 y = 29" by (simp add: feb4_def)
  show ?thesis
  proof (cases "n \<le> 31")
    case True
    with n f show ?thesis
      unfolding diadocarnaval_def mes1_feb4 [OF y] Let_def
      by (auto simp: mp_def dp_def march_date_def mesdocarnaval_def carnival_shown_def i32_in)
  next
    case False
    with n f show ?thesis
      unfolding diadocarnaval_def mes1_feb4 [OF y] Let_def
      by (auto simp: mp_def dp_def march_date_def mesdocarnaval_def carnival_shown_def i32_in)
  qed
qed

definition corpus_shown :: "int \<Rightarrow> int \<times> int" where
  "corpus_shown n = (if n \<le> 33 then (5, n - 1) else (6, n - 32))"

lemma corpus_shown: "0 \<le> y \<Longrightarrow> mescorpus y = ok (fst (corpus_shown (easter_march y))) \<and>
    diacorpus y = ok (snd (corpus_shown (easter_march y)))"
  using easter_march_bounds [of y] unfolding mescorpus_meeus diacorpus_meeus
  by (auto simp: meeus_easter easter_def march_date_def corpus_shown_def)

text \<open>
  C13: what pascoa4 prints for the years 1900 to 2099: Corpus Christi from the rule of Easter,
  Easter by the formula of Oudin, a week late in 1954, 1981, 2049 and 2076, and the days of carnival
  computed from that date, which are right only when it is after 16 April.
\<close>

theorem pascoa4_prints:
  assumes y: "1900 \<le> y" "y \<le> 2099" and s: "tin s = dec y @ nl @ r"
  shows "pascoa4_main s = ok (say (''Qual o ano que quer consultar? '' @
    pascoa4_text y (corpus_shown (easter_march y)) (march_date (pascoa4_easter y))
      (carnival_shown (feb4 y) (pascoa4_easter y))) (s\<lparr>tin := nl @ r\<rparr>))"
proof -
  have y0: "0 \<le> y" using y by simp
  have sc: "scan_int (say u s) = ok (say u (s\<lparr>tin := nl @ r\<rparr>), Some y)" for u
    using scan_int_line [of y "say u s" r] y s by (simp add: say_def)
  define n where "n = pascoa4_easter y"
  obtain dc where dc: "diadocarnaval y (snd (march_date n)) (fst (march_date n)) = ok dc"
      "mesdocarnaval dc (snd (march_date n)) (fst (march_date n)) = ok (fst (fst (carnival_shown (feb4 y) n)))"
      "if fst (fst (carnival_shown (feb4 y) n)) = 3
       then carnival_shown (feb4 y) n = ((3, 2 - dc - 2), (3, 1 - dc - 1))
       else carnival_shown (feb4 y) n = ((2, dc - 2), (2, dc - 1))"
    using carnival4 [OF y0 pascoa4_easter_bounds [OF y]] unfolding n_def by blast
  define c where "c = corpus_shown (easter_march y)"
  have "pascoa4_main s =
    (let s = say (nl @ tab @ ''Corpus Christi ser'' @ a_acute @ '' '' @ no_dia (snd c) (fst c) y)
           (say ''Qual o ano que quer consultar? '' (s\<lparr>tin := nl @ r\<rparr>));
         s = say (nl @ tab @ ''A P'' @ a_acute @ ''scoa ser'' @ a_acute @ '' '' @
           no_dia (snd (march_date n)) (fst (march_date n)) y) s;
         mc = fst (fst (carnival_shown (feb4 y) n))
     in ok (if mc = 3 then
              say (nl @ tab @ ''O carnaval ser'' @ a_acute @ '' '' @ no_dia (2 - dc - 2) mc y @ nl @ nl @ nl @ tab @
                ''Dia de cinzas ser'' @ a_acute @ ''  '' @ no_dia (1 - dc - 1) mc y @ nl @ nl) s
            else
              say (nl @ tab @ ''O carnaval ser'' @ a_acute @ '' '' @ no_dia (dc - 2) mc y @ nl @ tab @
                ''Dia de cinzas ser'' @ a_acute @ ''  '' @ no_dia (dc - 1) mc y @ nl @ nl) s))"
    unfolding pascoa4_main_def sc bnd_ok prod.case need_Some pascoa4_month_day [OF y] n_def [symmetric] dc(1,2)
      corpus_shown [OF y0, THEN conjunct1] corpus_shown [OF y0, THEN conjunct2] c_def [symmetric] Let_def ..
  then show ?thesis
    using dc(3) unfolding n_def [symmetric] c_def [symmetric] pascoa4_text_def
    by (cases "fst (fst (carnival_shown (feb4 y) n)) = 3")
      (simp_all add: Let_def case_prod_beta)
qed

lemma sunday20_pred: "sunday20 y (n - 1) = (if sunday20 y n = n + 7 then n else sunday20 y n)"
proof -
  define w where "w = (y + y div 4 + 1 + n) mod 7"
  have w: "0 \<le> w" "w < 7" by (simp_all add: w_def)
  have "(y + y div 4 + 1 + (n - 1)) mod 7 = (w - 1) mod 7"
    by (simp add: w_def mod_diff_left_eq algebra_simps)
  also have "\<dots> = (if w = 0 then 6 else w - 1)" using w by (auto simp: mod_pos_pos_trivial)
  finally show ?thesis by (simp add: sunday20_def w_def [symmetric])
qed

lemma gauss_sunday:
  assumes y: "0 \<le> y"
  shows "(2 * (y smod 4) + 4 * (y smod 7) + 6 * h20 y + 5) smod 7 = sunday20 y (21 + h20 y) - 22 - h20 y"
proof -
  define q b where "q = y div 4" and "b = y mod 4"
  have y4: "y = 4 * q + b" by (simp add: q_def b_def)
  have "0 \<le> b" by (simp add: b_def)
  then have pos: "0 \<le> 2 * b + 4 * (y mod 7) + 6 * h20 y + 5" using h20_bounds [of y] by simp
  have "(2 * b + 4 * (y mod 7) + 6 * h20 y + 5) mod 7 = (4 * (y mod 7) + (2 * b + 6 * h20 y + 5)) mod 7"
    by (simp add: algebra_simps)
  also have "\<dots> = (4 * y + (2 * b + 6 * h20 y + 5)) mod 7"
    by (metis mod_add_left_eq mod_mult_right_eq)
  also have "4 * y + (2 * b + 6 * h20 y + 5) = 6 - (y + q + 1 + (21 + h20 y)) + 7 * (h20 y + b + 3 * q + 3)"
    by (simp add: y4)
  also have "\<dots> mod 7 = (6 - (y + q + 1 + (21 + h20 y)) mod 7) mod 7"
    by (simp only: mod_mult_self2 mod_diff_right_eq)
  also have "\<dots> = 6 - (y + q + 1 + (21 + h20 y)) mod 7"
  proof -
    define w where "w = (y + q + 1 + (21 + h20 y)) mod 7"
    have "0 \<le> w" "w < 7" by (simp_all add: w_def)
    then show ?thesis unfolding w_def [symmetric] by simp
  qed
  finally have m: "(2 * b + 4 * (y mod 7) + 6 * h20 y + 5) mod 7 = 6 - (y + q + 1 + (21 + h20 y)) mod 7" .
  have "y smod 4 = b" "y smod 7 = y mod 7" using y by (simp_all add: smod_nonneg b_def)
  then have "(2 * (y smod 4) + 4 * (y smod 7) + 6 * h20 y + 5) smod 7 = (2 * b + 4 * (y mod 7) + 6 * h20 y + 5) mod 7"
    using pos by (simp only: smod_nonneg zero_less_numeral)
  then show ?thesis unfolding m by (simp add: sunday20_def q_def)
qed

lemma gauss_easter20:
  assumes y: "0 \<le> y"
  shows "gauss_date y = march_date (sunday20 y (21 + h20 y - (if early20 y then 1 else 0)))"
proof -
  define n where "n = sunday20 y (21 + h20 y)"
  have n: "22 + h20 y \<le> n" "n \<le> 28 + h20 y"
    using pos_mod_bound [of 7 "y + y div 4 + 1 + (21 + h20 y)"] pos_mod_sign [of 7 "y + y div 4 + 1 + (21 + h20 y)"]
    by (simp_all add: n_def sunday20_def del: pos_mod_sign pos_mod_bound)
  have e: "(2 * (y smod 4) + 4 * (y smod 7) + 6 * h20 y + 5) smod 7 = n - 22 - h20 y"
    using gauss_sunday [OF y] by (simp add: n_def)
  have a: "y smod 19 = y mod 19" using y by (simp add: smod_nonneg)
  have h: "(19 * (y mod 19) + 24) smod 30 = h20 y" by (simp add: smod_nonneg h20_def)
  have early: "sunday20 y (20 + h20 y) = (if n = 28 + h20 y then 21 + h20 y else n)"
    using sunday20_pred [of y "21 + h20 y"] by (simp add: n_def)
  show ?thesis
    using n early h20_bounds [of y] unfolding gauss_date_def Let_def a h e n_def [symmetric]
    by (auto simp: march_date_def early20_def n_def [symmetric])
qed

text \<open>
  the formula of Gauss in findPascoa gives Easter from 1900 to 2099; the function itself writes
  the date through a pointer that has no value.
\<close>

theorem gauss_easter:
  assumes y: "1900 \<le> y" "y \<le> 2099"
  shows "gauss_date y = easter y \<and> findPascoa y = fail Uninitialised"
  using gauss_easter20 [of y] y
  by (simp add: easter_def easter20 [OF y] findPascoa_def case_prod_beta)

theorem gauss_easter_witness: "gauss_date 2024 = (3, 31) \<and> findPascoa 2024 = fail Uninitialised"
proof -
  have "easter 2024 = (3, 31)" by code_simp
  then show ?thesis using gauss_easter [of 2024] by simp
qed

theorem pascoa4_prints_witness:
  "pascoa4_main \<lparr>tin = ''2019'' @ nl, tout = []\<rparr> = ok (say (''Qual o ano que quer consultar? '' @
     pascoa4_text 2019 (6, 20) (4, 21) ((3, 5), (3, 5))) \<lparr>tin = nl, tout = []\<rparr>)"
proof -
  have "easter_march 2019 = 52" by code_simp
  moreover have "dec 2019 = ''2019''" by (simp add: dec_def)
  ultimately show ?thesis
    using pascoa4_prints [of 2019 "\<lparr>tin = ''2019'' @ nl, tout = []\<rparr>" "[]"]
    by (simp add: pascoa4_easter_def oudin_late_def march_date_def corpus_shown_def carnival_shown_def)
qed

end
