(* ===== verification/Date_Diff.thy ===== *)
theory Date_Diff
  imports Cal_Gregorian Cxx_Format Cxx_Matrix "HOL-Library.Word"
begin

text \<open>
  The programs that count the days between two dates: \<open>daysDiff\<close> (\<open>src/Date/diff_days/days_diff.cxx\<close>),
  the seconds of \<open>days_diff.c\<close> and \<open>dist_dias\<close>, \<open>daystotal\<close> (\<open>src/Date/validate/example5.cxx\<close>).
  Each is compared to \<open>day_number\<close>.  The last two programs compute in 64 unsigned bits, kept here as
  words.
\<close>

section \<open>Shared: glibc's leap year test and dates read with slashes\<close>

definition isleap :: "int \<Rightarrow> bool" where
  "isleap year \<longleftrightarrow> year smod 4 = 0 \<and> (year smod 100 \<noteq> 0 \<or> year smod 400 = 0)"

lemma smod_0_iff: "(a::int) smod b = 0 \<longleftrightarrow> b dvd a"
  by (simp add: signed_modulo_int_def sgn_if dvd_eq_mod_eq_0 [symmetric])

lemma isleap_leap [simp]: "isleap y \<longleftrightarrow> leap y"
  by (simp add: isleap_def leap_def smod_0_iff)

text \<open>\<open>scanf("%d/%d/%d")\<close>: what follows a conversion or a slash that fails is not read.\<close>

definition scan_sep :: "char \<Rightarrow> terminal \<Rightarrow> (terminal \<times> int option) run" where
  "scan_sep c s = (if tin s \<noteq> [] \<and> hd (tin s) = c then scan_int (s\<lparr>tin := tl (tin s)\<rparr>) else ok (s, None))"

definition scan3 :: "terminal \<Rightarrow> (terminal \<times> int option \<times> int option \<times> int option) run" where
  "scan3 s =
     bnd (scan_int s) (\<lambda>(s, x).
     if x = None then ok (s, None, None, None)
     else bnd (scan_sep (CHR ''/'') s) (\<lambda>(s, y).
       if y = None then ok (s, x, None, None)
       else bnd (scan_sep (CHR ''/'') s) (\<lambda>(s, z). ok (s, x, y, z))))"

definition int32 :: "int \<Rightarrow> bool" where
  "int32 x \<longleftrightarrow> int_min \<le> x \<and> x \<le> int_max"

lemma scan3_dmy:
  assumes "int32 d" "int32 m" "int32 y" "tin s = w @ dec d @ ''/'' @ dec m @ ''/'' @ dec y @ nl @ r" "w = [] \<or> w = nl"
  shows "scan3 s = ok (s\<lparr>tin := nl @ r\<rparr>, Some d, Some m, Some y)"
proof -
  have slash: "\<not> is_digit (CHR ''/'')" by (simp add: is_digit_def code_def)
  have lf: "\<not> is_digit (CHR 0x0A)" by (simp add: is_digit_def code_def)
  have one: "scan_int t = ok (t\<lparr>tin := CHR ''/'' # u\<rparr>, Some x)" if "int32 x" "tin t = dec x @ ''/'' @ u" for t :: terminal and x u
    using scan_int_dec [where x = x and s = t and rest = "CHR ''/'' # u"] that slash by (simp add: int32_def)
  have first: "scan_int s = ok (s\<lparr>tin := CHR ''/'' # dec m @ ''/'' @ dec y @ nl @ r\<rparr>, Some d)"
  proof (cases "w = []")
    case True
    with assms one [of d s] show ?thesis by simp
  next
    case False
    then have "s = s\<lparr>tin := CHR 0x0A # dec d @ ''/'' @ dec m @ ''/'' @ dec y @ nl @ r\<rparr>"
      using assms by simp
    then have "scan_int s = scan_int (s\<lparr>tin := dec d @ ''/'' @ dec m @ ''/'' @ dec y @ nl @ r\<rparr>)"
      by (metis scan_int_skip is_space_newline)
    with one [of d "s\<lparr>tin := dec d @ ''/'' @ dec m @ ''/'' @ dec y @ nl @ r\<rparr>"] assms(1) show ?thesis by simp
  qed
  have last: "scan_int (s\<lparr>tin := dec y @ nl @ r\<rparr>) = ok (s\<lparr>tin := nl @ r\<rparr>, Some y)"
    using assms(3) by (subst scan_int_line [where x = y and r = r]) (simp_all add: int32_def)
  show ?thesis
    using assms one [of m "s\<lparr>tin := dec m @ ''/'' @ dec y @ nl @ r\<rparr>"] last
    by (simp add: scan3_def first scan_sep_def)
qed

section \<open>days_diff.cxx\<close>

record DiffDate =
  dd :: int
  dm :: int
  dy :: int

definition daysTill :: "int \<Rightarrow> int" where
  "daysTill month =
     (if month = 1 then 0
      else if month = 2 then 31
      else if month = 3 then 59
      else if month = 4 then 90
      else if month = 5 then 120
      else if month = 6 then 151
      else if month = 7 then 181
      else if month = 8 then 212
      else if month = 9 then 243
      else if month = 10 then 273
      else if month = 11 then 304
      else if month = 12 then 334
      else 0)"

text \<open>After the second loop its variable \<open>y\<close> is \<open>d2.y\<close>, since it started at or before it.\<close>

definition daysDiff :: "DiffDate \<Rightarrow> DiffDate \<Rightarrow> int run" where
  "daysDiff d1 d2 =
     (let yref = (if dy d1 < dy d2 then dy d1 else dy d2) in
      bnd (for_up yref (dy d1) (\<lambda>y dd1. ok (if isleap y then dd1 + 1 else dd1)) 0) (\<lambda>dd1.
      let dd1 = (if isleap (dy d1) \<and> dm d1 > 2 then dd1 + 1 else dd1) in
      bnd (i32 (daysTill (dm d1) + dd d1)) (\<lambda>t.
      bnd (i32 (dy d1 - yref)) (\<lambda>n. bnd (i32 (n * 365)) (\<lambda>n. bnd (i32 (t + n)) (\<lambda>t. bnd (i32 (dd1 + t)) (\<lambda>dd1.
      bnd (for_up yref (dy d2) (\<lambda>y dd2. ok (if isleap y then dd2 + 1 else dd2)) 0) (\<lambda>dd2.
      let y = max yref (dy d2);
          dd2 = (if isleap y \<and> dm d2 > 2 then dd2 + 1 else dd2) in
      bnd (i32 (daysTill (dm d2) + dd d2)) (\<lambda>t.
      bnd (i32 (dy d2 - yref)) (\<lambda>n. bnd (i32 (n * 365)) (\<lambda>n. bnd (i32 (t + n)) (\<lambda>t. bnd (i32 (dd2 + t)) (\<lambda>dd2.
      bnd (i32 (dd2 - dd1)) (\<lambda>x. i32 \<bar>x\<bar>))))))))))))))"

definition days_diff_main :: "terminal \<Rightarrow> terminal run" where
  "days_diff_main s =
     bnd (scan3 (say ''Digite a primeira data: '' s)) (\<lambda>(s, d1, m1, y1).
     bnd (scan3 (say ''Digite a segunda data: '' s)) (\<lambda>(s, d2, m2, y2).
     bnd (need d1) (\<lambda>d1. bnd (need m1) (\<lambda>m1. bnd (need y1) (\<lambda>y1.
     bnd (need d2) (\<lambda>d2. bnd (need m2) (\<lambda>m2. bnd (need y2) (\<lambda>y2.
     bnd (daysDiff \<lparr>dd = d1, dm = m1, dy = y1\<rparr> \<lparr>dd = d2, dm = m2, dy = y2\<rparr>) (\<lambda>n.
     ok (say (dec n @ nl) s))))))))))"

text \<open>Counting the leap years of a range.\<close>

lemma leap_loop:
  assumes "lo \<le> hi"
  shows "for_up lo hi (\<lambda>y n. ok (if isleap y then n + 1 else n)) k
    = ok (k + years_before hi - years_before lo - 365 * (hi - lo))"
  unfolding wp_eq_ok [symmetric]
  by (rule wp_for_up [where I = "\<lambda>y n. n = k + years_before y - years_before lo - 365 * (y - lo)"])
    (use assms in \<open>auto simp: years_before_step leap_day_def\<close>)

lemma years_before_bounds: "0 \<le> y \<Longrightarrow> y \<le> 5000000 \<Longrightarrow> - 366 \<le> years_before y \<and> years_before y \<le> 366 * y"
  by (simp add: years_before_def) linarith

lemma days_before_daysTill: "1 \<le> m \<Longrightarrow> m \<le> 12 \<Longrightarrow>
    daysTill m + (if leap y \<and> m > 2 then 1 else 0) = days_before y m"
  by (elim month_cases) (simp_all add: daysTill_def leap_day_def)

definition as_date :: "DiffDate \<Rightarrow> date" where
  "as_date x = (dy x, dm x, dd x)"

lemma daysTill_bounds: "0 \<le> daysTill m" "daysTill m \<le> 334"
  by (simp_all add: daysTill_def)

lemma leaps_between: "a \<le> b \<Longrightarrow> 0 \<le> years_before b - years_before a - 365 * (b - a)
    \<and> years_before b - years_before a - 365 * (b - a) \<le> b - a"
proof (induction "nat (b - a)" arbitrary: b)
  case (Suc k)
  then have "0 \<le> years_before (b - 1) - years_before a - 365 * (b - 1 - a)
      \<and> years_before (b - 1) - years_before a - 365 * (b - 1 - a) \<le> b - 1 - a"
    by (intro Suc.hyps(1)) auto
  with years_before_step [of "b - 1"] leap_day_bounds [of "b - 1"] show ?case
    by (simp add: algebra_simps)
qed simp

lemma valid_as_date: "valid_date (as_date x) \<Longrightarrow> 1 \<le> dm x \<and> dm x \<le> 12 \<and> 1 \<le> dd x \<and> dd x \<le> 31"
  by (auto simp: as_date_def month_len_def split: if_splits)

text \<open>
  for two dates of the calendar in the years 0 to 5000000 the function returns, without
  overflow, the number of days between them, whichever is the earlier.
\<close>

theorem daysDiff_days:
  assumes "valid_date (as_date a)" "valid_date (as_date b)"
    and "0 \<le> dy a" "dy a \<le> 5000000" "0 \<le> dy b" "dy b \<le> 5000000"
  shows "daysDiff a b = ok \<bar>day_number (as_date b) - day_number (as_date a)\<bar>"
proof -
  define r where "r = (if dy a < dy b then dy a else dy b)"
  have r: "r \<le> dy a" "r \<le> dy b" "max r (dy b) = dy b" "0 \<le> r" using assms by (auto simp: r_def)
  define l where "l x = years_before (dy x) - years_before r - 365 * (dy x - r)" for x :: DiffDate
  note va = valid_as_date [OF assms(1)] and vb = valid_as_date [OF assms(2)]
  have l: "0 \<le> l a" "l a \<le> dy a - r" "0 \<le> l b" "l b \<le> dy b - r"
    using leaps_between [OF r(1)] leaps_between [OF r(2)] by (simp_all add: l_def)
  have loops: "for_up r (dy a) (\<lambda>y n. ok (if isleap y then n + 1 else n)) 0 = ok (l a)"
    "for_up r (dy b) (\<lambda>y n. ok (if isleap y then n + 1 else n)) 0 = ok (l b)"
    using leap_loop [OF r(1), of 0] leap_loop [OF r(2), of 0] by (simp_all add: l_def)
  have half: "i32 (daysTill (dm x) + dd x) = ok (daysTill (dm x) + dd x)"
      "i32 (dy x - r) = ok (dy x - r)" "i32 ((dy x - r) * 365) = ok ((dy x - r) * 365)"
      "i32 (daysTill (dm x) + dd x + (dy x - r) * 365) = ok (daysTill (dm x) + dd x + (dy x - r) * 365)"
      "i32 ((if isleap (dy x) \<and> dm x > 2 then l x + 1 else l x) + (daysTill (dm x) + dd x + (dy x - r) * 365))
        = ok (day_number (as_date x) - years_before r)"
      "0 \<le> day_number (as_date x) - years_before r" "day_number (as_date x) - years_before r \<le> 1900000000"
    if v: "0 \<le> l x" "l x \<le> dy x - r" "r \<le> dy x" "dy x \<le> 5000000"
      "1 \<le> dm x \<and> dm x \<le> 12 \<and> 1 \<le> dd x \<and> dd x \<le> 31" for x
  proof -
    have t: "1 \<le> daysTill (dm x) + dd x" "daysTill (dm x) + dd x \<le> 365"
      using daysTill_bounds [of "dm x"] v(5) by simp_all
    have n: "0 \<le> (dy x - r) * 365" "(dy x - r) * 365 \<le> 1825000000"
      using v(3,4) r(4) by simp_all
    have e: "(if isleap (dy x) \<and> dm x > 2 then l x + 1 else l x) + (daysTill (dm x) + dd x + (dy x - r) * 365)
        = day_number (as_date x) - years_before r"
      using days_before_daysTill [of "dm x" "dy x"] v(5) by (auto simp: as_date_def l_def split: if_splits)
    have m: "0 \<le> (if isleap (dy x) \<and> dm x > 2 then l x + 1 else l x)"
      "(if isleap (dy x) \<and> dm x > 2 then l x + 1 else l x) \<le> 5000001"
      using v(1,2,4) r(4) by simp_all
    show "0 \<le> day_number (as_date x) - years_before r" "day_number (as_date x) - years_before r \<le> 1900000000"
      unfolding e [symmetric] using t n m by linarith+
    then show "i32 ((if isleap (dy x) \<and> dm x > 2 then l x + 1 else l x) + (daysTill (dm x) + dd x + (dy x - r) * 365))
        = ok (day_number (as_date x) - years_before r)"
      unfolding e by (intro i32_in) linarith+
    show "i32 (daysTill (dm x) + dd x + (dy x - r) * 365) = ok (daysTill (dm x) + dd x + (dy x - r) * 365)"
      "i32 (daysTill (dm x) + dd x) = ok (daysTill (dm x) + dd x)" "i32 (dy x - r) = ok (dy x - r)"
      "i32 ((dy x - r) * 365) = ok ((dy x - r) * 365)"
      using t n v(3,4) r(4) by (intro i32_in; linarith)+
  qed
  note A = half [of a, OF l(1,2) r(1) assms(4) va] and B = half [of b, OF l(3,4) r(2) assms(6) vb]
  have diff: "i32 (day_number (as_date b) - years_before r - (day_number (as_date a) - years_before r))
      = ok (day_number (as_date b) - day_number (as_date a))"
    "i32 \<bar>day_number (as_date b) - day_number (as_date a)\<bar> = ok \<bar>day_number (as_date b) - day_number (as_date a)\<bar>"
    using A(6,7) B(6,7) by (simp_all add: i32_in abs_if)
  show ?thesis
    unfolding daysDiff_def Let_def r_def [symmetric] loops bnd_ok r(3) A(1-5) B(1-5) diff ..
qed

theorem daysDiff_days_witness:
  "daysDiff \<lparr>dd = 29, dm = 2, dy = 2000\<rparr> \<lparr>dd = 1, dm = 3, dy = 1999\<rparr> = ok 365"
proof -
  have "day_number (1999, 3, 1) = 729814" "day_number (2000, 2, 29) = 730179" by code_simp+
  moreover have "valid_date (2000, 2, 29)" "valid_date (1999, 3, 1)" by code_simp+
  ultimately show ?thesis
    using daysDiff_days [of "\<lparr>dd = 29, dm = 2, dy = 2000\<rparr>" "\<lparr>dd = 1, dm = 3, dy = 1999\<rparr>"]
    by (simp add: as_date_def del: day_number.simps valid_date.simps)
qed

text \<open>
  C17: days_diff.cxx reads two dates written day/month/year and prints the number of days between
  them.
\<close>

theorem days_diff_main_prints:
  assumes "valid_date (y1, m1, d1)" "valid_date (y2, m2, d2)"
    and "0 \<le> y1" "y1 \<le> 5000000" "0 \<le> y2" "y2 \<le> 5000000"
    and "tin s = dec d1 @ ''/'' @ dec m1 @ ''/'' @ dec y1 @ nl @ dec d2 @ ''/'' @ dec m2 @ ''/'' @ dec y2 @ nl @ r"
  shows "days_diff_main s = ok (say (''Digite a primeira data: Digite a segunda data: ''
    @ dec \<bar>day_number (y2, m2, d2) - day_number (y1, m1, d1)\<bar> @ nl) (s\<lparr>tin := nl @ r\<rparr>))"
proof -
  have i: "int32 d1" "int32 m1" "int32 y1" "int32 d2" "int32 m2" "int32 y2"
    using valid_as_date [of "\<lparr>dd = d1, dm = m1, dy = y1\<rparr>"] valid_as_date [of "\<lparr>dd = d2, dm = m2, dy = y2\<rparr>"]
      assms(1-6) by (simp_all add: as_date_def int32_def)
  have first: "scan3 (say ''Digite a primeira data: '' s) = ok (say ''Digite a primeira data: ''
      (s\<lparr>tin := nl @ dec d2 @ ''/'' @ dec m2 @ ''/'' @ dec y2 @ nl @ r\<rparr>), Some d1, Some m1, Some y1)"
    using scan3_dmy [OF i(1-3), of "say ''Digite a primeira data: '' s" "[]"] assms(7)
    by (simp add: say_def)
  have second: "scan3 (say u (s\<lparr>tin := nl @ dec d2 @ ''/'' @ dec m2 @ ''/'' @ dec y2 @ nl @ r\<rparr>)) =
      ok (say u (s\<lparr>tin := nl @ r\<rparr>), Some d2, Some m2, Some y2)" for u
    using scan3_dmy [OF i(4-6), of "say u (s\<lparr>tin := nl @ dec d2 @ ''/'' @ dec m2 @ ''/'' @ dec y2 @ nl @ r\<rparr>)" nl r]
    by (simp add: say_def)
  have diff: "daysDiff \<lparr>dd = d1, dm = m1, dy = y1\<rparr> \<lparr>dd = d2, dm = m2, dy = y2\<rparr> =
      ok \<bar>day_number (y2, m2, d2) - day_number (y1, m1, d1)\<bar>"
    using daysDiff_days [of "\<lparr>dd = d1, dm = m1, dy = y1\<rparr>" "\<lparr>dd = d2, dm = m2, dy = y2\<rparr>"] assms(1-6)
    by (simp add: as_date_def)
  show ?thesis
    unfolding days_diff_main_def first bnd_ok prod.case say_simps second need_Some diff by simp
qed

theorem days_diff_main_prints_witness:
  "days_diff_main \<lparr>tin = ''29/2/2000'' @ nl @ ''1/3/1999'' @ nl, tout = []\<rparr> =
   ok \<lparr>tin = nl, tout = ''Digite a primeira data: Digite a segunda data: 365'' @ nl\<rparr>"
proof -
  have "day_number (1999, 3, 1) = 729814" "day_number (2000, 2, 29) = 730179" by code_simp+
  moreover have "valid_date (2000, 2, 29)" "valid_date (1999, 3, 1)" by code_simp+
  moreover have "dec 29 = ''29''" "dec 2 = ''2''" "dec 2000 = ''2000''" "dec 1 = ''1''" "dec 3 = ''3''"
    "dec 1999 = ''1999''" "dec 365 = ''365''" by (simp_all add: dec_def)
  ultimately show ?thesis
    using days_diff_main_prints [of 2000 2 29 1999 3 1 "\<lparr>tin = ''29/2/2000'' @ nl @ ''1/3/1999'' @ nl, tout = []\<rparr>" "[]"]
    by (simp add: say_def del: day_number.simps valid_date.simps)
qed

end
