(* ===== verification/Date_Seconds.thy ===== *)
theory Date_Seconds
  imports Date_Diff
begin

text \<open>
  Days and seconds between dates in 64 unsigned bits: \<open>src/Date/diff_days/days_diff.c\<close>, which
  counts seconds, and \<open>src/Date/validate/example5.cxx\<close>, which counts days.  A number of type
  \<open>unsigned long\<close> or \<open>unsigned long long\<close> is a \<open>64 word\<close>; signed operands are converted with
  \<open>of_int\<close>, so that what is subtracted below zero wraps around as in C++.
\<close>

section \<open>days_diff.c\<close>

record MinhaDataHora =
  d_hora :: int
  d_minuto :: int
  d_segundo :: int
  d_dia :: int
  d_mes :: int
  d_ano :: int

definition defineDataHora :: "MinhaDataHora \<Rightarrow> int \<Rightarrow> int \<Rightarrow> int \<Rightarrow> int \<Rightarrow> int \<Rightarrow> int \<Rightarrow> MinhaDataHora" where
  "defineDataHora pd hora minuto segundo dia mes ano =
     pd\<lparr>d_hora := hora, d_minuto := minuto, d_segundo := segundo, d_dia := dia, d_mes := mes, d_ano := ano\<rparr>"

definition imprimeDataHora :: "MinhaDataHora \<Rightarrow> string" where
  "imprimeDataHora d = field0 2 (d_hora d) @ '':'' @ field0 2 (d_minuto d) @ '':'' @ field0 2 (d_segundo d) @ '' '' @
     field0 2 (d_dia d) @ ''/'' @ field0 2 (d_mes d) @ ''/'' @ field0 4 (d_ano d)"

definition ehBissexto :: "int \<Rightarrow> bool" where
  "ehBissexto ano \<longleftrightarrow> (ano smod 4 = 0 \<or> ano smod 400 = 0) \<and> ano smod 100 \<noteq> 0"

definition contaBissextos :: "int \<Rightarrow> int" where
  "contaBissextos ano = ano sdiv 4 - ano sdiv 100 + ano sdiv 400"

definition meses :: "int list" where
  "meses = [31, 28, 31, 30, 31, 30, 31, 31, 30, 31, 30, 31]"

definition dataParaSegundos :: "MinhaDataHora \<Rightarrow> 64 word run" where
  "dataParaSegundos d =
     bnd (i32 (d_ano d - 1)) (\<lambda>ano1.
     let total = 0 + of_int (ano1 * 31536000) in
     bnd (for_up 1 (d_mes d) (\<lambda>mes total. bnd (rd meses (mes - 1)) (\<lambda>n. ok (total + of_int (n * 86400)))) total) (\<lambda>total.
     bnd (i32 (d_dia d - 1)) (\<lambda>dia1.
     let total = total + of_int (dia1 * 86400);
         total = total + of_int (d_hora d * 3600);
         total = total + of_int (d_minuto d * 60);
         total = total + of_int (d_segundo d);
         diasExtras = contaBissextos ano1;
         total = total + of_int (diasExtras * 86400) in
     if ehBissexto (d_ano d) then bnd (i32 (d_mes d - 1)) (\<lambda>mes1. ok (if mes1 \<ge> 2 then total + 86400 else total))
     else ok total)))"

definition calculaDiferencaEmSegundos :: "MinhaDataHora \<Rightarrow> MinhaDataHora \<Rightarrow> 64 word run" where
  "calculaDiferencaEmSegundos d1 d2 =
     bnd (dataParaSegundos d1) (\<lambda>segundosd1.
     bnd (dataParaSegundos d2) (\<lambda>segundosd2.
     if segundosd1 > segundosd2 then ok (segundosd1 - segundosd2) else ok (segundosd2 - segundosd1)))"

definition calculaDiferencaEmDias :: "MinhaDataHora \<Rightarrow> MinhaDataHora \<Rightarrow> 64 word run" where
  "calculaDiferencaEmDias d1 d2 = bnd (calculaDiferencaEmSegundos d1 d2) (\<lambda>segundos. ok (segundos div 86400))"

definition nada :: MinhaDataHora where
  "nada = \<lparr>d_hora = 0, d_minuto = 0, d_segundo = 0, d_dia = 0, d_mes = 0, d_ano = 0\<rparr>"

text \<open>The main program; both structures are set by \<open>defineDataHora\<close> before they are used.\<close>

definition days_diff_c_main :: "tm \<Rightarrow> string run" where
  "days_diff_c_main dt =
     bnd (i32 (tm_mon dt + 1)) (\<lambda>mes. bnd (i32 (tm_year dt + 1900)) (\<lambda>ano.
     let d1 = defineDataHora nada 23 5 10 29 3 1987;
         d2 = defineDataHora nada (tm_hour dt) (tm_min dt) (tm_sec dt) (tm_mday dt) mes ano in
     bnd (dataParaSegundos d1) (\<lambda>s1. bnd (dataParaSegundos d2) (\<lambda>s2.
     bnd (calculaDiferencaEmSegundos d1 d2) (\<lambda>s. bnd (calculaDiferencaEmDias d1 d2) (\<lambda>n.
     ok (''d1: '' @ imprimeDataHora d1 @ '' (em segundos: '' @ dec (uint s1) @ '')'' @ nl @
         ''d2: '' @ imprimeDataHora d2 @ '' (em segundos: '' @ dec (uint s2) @ '')'' @ nl @ nl @
         ''Diferenca em segundos entre d1 e d2: '' @ dec (uint s) @ nl @
         ''Diferenca em dias entre d1 e d2: '' @ dec (uint n) @ nl)))))))"

text \<open>The seconds since 1 January of year 1, and what the program loses of them.\<close>

definition date_of :: "MinhaDataHora \<Rightarrow> date" where
  "date_of d = (d_ano d, d_mes d, d_dia d)"

definition instant :: "MinhaDataHora \<Rightarrow> int" where
  "instant d = 86400 * (day_number (date_of d) - 1) + 3600 * d_hora d + 60 * d_minuto d + d_segundo d"

definition lost :: "MinhaDataHora \<Rightarrow> int" where
  "lost d = (if 400 dvd d_ano d \<and> 2 < d_mes d then 86400 else 0)"

definition valid_time :: "MinhaDataHora \<Rightarrow> bool" where
  "valid_time d \<longleftrightarrow> valid_date (date_of d) \<and> 1 \<le> d_ano d \<and> d_ano d \<le> int_max
     \<and> 0 \<le> d_hora d \<and> d_hora d < 24 \<and> 0 \<le> d_minuto d \<and> d_minuto d < 60 \<and> 0 \<le> d_segundo d \<and> d_segundo d < 60"

lemma ehBissexto_leap: "ehBissexto y \<longleftrightarrow> leap y \<and> \<not> 400 dvd y"
proof -
  have "400 dvd y \<Longrightarrow> 4 dvd y" "400 dvd y \<Longrightarrow> 100 dvd y" "\<not> 100 dvd y \<Longrightarrow> \<not> 400 dvd y"
    by (auto intro: dvd_trans [of _ 400 y])
  then show ?thesis by (auto simp: ehBissexto_def leap_def smod_0_iff)
qed

lemma meses_loop:
  assumes "1 \<le> m" "m \<le> 12"
  shows "for_up 1 m (\<lambda>mes total. bnd (rd meses (mes - 1)) (\<lambda>n. ok (total + of_int (n * 86400)))) t
    = ok (t + of_int (86400 * (days_before y m - (if 2 < m then leap_day y else 0))) :: 64 word)"
  using assms by (elim month_cases) (simp_all add: meses_def rd_def at_def)

lemma valid_time_bounds:
  assumes "valid_time d"
  shows "1 \<le> d_mes d" "d_mes d \<le> 12" "1 \<le> d_dia d" "d_dia d \<le> 31" "1 \<le> d_ano d" "d_ano d \<le> int_max"
  using assms by (auto simp: valid_time_def date_of_def month_len_def split: if_splits)

lemma contaBissextos_years:
  "1 \<le> y \<Longrightarrow> (y - 1) * 31536000 + contaBissextos (y - 1) * 86400 = 86400 * years_before y"
  by (simp add: contaBissextos_def years_before_def sdiv_nonneg algebra_simps)

lemma dataParaSegundos_instant:
  assumes "valid_time d"
  shows "dataParaSegundos d = ok (of_int (instant d - lost d))"
proof -
  note b = valid_time_bounds [OF assms]
  define y m where "y = d_ano d" and "m = d_mes d"
  have i: "i32 (d_ano d - 1) = ok (y - 1)" "i32 (d_dia d - 1) = ok (d_dia d - 1)" "i32 (d_mes d - 1) = ok (m - 1)"
    using b by (simp_all add: i32_in y_def m_def)
  let ?a = "days_before y m - (if 2 < m then leap_day y else 0)"
  have sum: "(y - 1) * 31536000 + 86400 * ?a + (d_dia d - 1) * 86400 + d_hora d * 3600 + d_minuto d * 60 +
      d_segundo d + contaBissextos (y - 1) * 86400 + (if leap y \<and> \<not> 400 dvd y \<and> 2 < m then 86400 else 0) =
      instant d - lost d"
  proof -
    have "(y - 1) * 31536000 + contaBissextos (y - 1) * 86400 = 86400 * years_before y"
      using contaBissextos_years b(5) by (simp add: y_def)
    moreover have "400 dvd y \<Longrightarrow> leap y"
      by (auto simp: leap_def intro: dvd_trans [of _ 400 y])
    ultimately show ?thesis
      by (auto simp: instant_def lost_def date_of_def y_def [symmetric] m_def [symmetric] leap_day_def)
  qed
  have "dataParaSegundos d = ok (of_int ((y - 1) * 31536000) + of_int (86400 * ?a) + of_int ((d_dia d - 1) * 86400)
      + of_int (d_hora d * 3600) + of_int (d_minuto d * 60) + of_int (d_segundo d)
      + of_int (contaBissextos (y - 1) * 86400) + of_int (if leap y \<and> \<not> 400 dvd y \<and> 2 < m then 86400 else 0))"
  proof -
    have loop: "for_up 1 (d_mes d) (\<lambda>mes total. bnd (rd meses (mes - 1)) (\<lambda>n. ok (total + of_int (n * 86400)))) t
        = ok (t + of_int (86400 * ?a))" for t :: "64 word"
      using meses_loop [OF b(1,2), of t y] by (simp only: m_def)
    show ?thesis
      unfolding dataParaSegundos_def i bnd_ok Let_def loop
      unfolding ehBissexto_leap y_def [symmetric] m_def [symmetric]
      by (cases "leap y \<and> \<not> 400 dvd y"; cases "2 < m") (simp_all del: of_int_add of_int_mult of_int_diff)
  qed
  also have "\<dots> = ok (of_int ((y - 1) * 31536000 + 86400 * ?a + (d_dia d - 1) * 86400 + d_hora d * 3600 + d_minuto d * 60 +
      d_segundo d + contaBissextos (y - 1) * 86400 + (if leap y \<and> \<not> 400 dvd y \<and> 2 < m then 86400 else 0)))"
    by (simp only: of_int_add)
  finally show ?thesis unfolding sum .
qed

text \<open>The seconds of every date an \<open>int\<close> can hold fit in the 64 bits.\<close>

lemma instant_bounds:
  assumes "valid_time d"
  shows "0 \<le> instant d - lost d" "instant d - lost d < 2 ^ 57"
proof -
  note b = valid_time_bounds [OF assms]
  have v: "valid_date (d_ano d, d_mes d, d_dia d)" using assms by (simp add: valid_time_def date_of_def)
  have doy: "1 \<le> days_before (d_ano d) (d_mes d) + d_dia d" "days_before (d_ano d) (d_mes d) + d_dia d \<le> 366"
    using day_of_year_bounds [OF v] leap_day_bounds [of "d_ano d"] by simp_all
  have lost: "lost d \<le> 86400 * (days_before (d_ano d) (d_mes d) + d_dia d - 1)" "0 \<le> lost d"
    using days_before_mono [of 2 "d_mes d" "d_ano d"] leap_day_bounds [of "d_ano d"] doy(1) b(3)
    by (auto simp: lost_def)
  have "0 \<le> (d_ano d - 1) div 4" "0 \<le> (d_ano d - 1) div 400" "0 \<le> (d_ano d - 1) div 100"
    "(d_ano d - 1) div 4 \<le> d_ano d - 1" "(d_ano d - 1) div 400 \<le> d_ano d - 1" "(d_ano d - 1) div 100 \<le> d_ano d - 1"
    using b(5) by linarith+
  then have y: "0 \<le> years_before (d_ano d)" "years_before (d_ano d) \<le> 367 * (d_ano d - 1)"
    using b(5) by (simp_all add: years_before_def)
  have t: "0 \<le> 3600 * d_hora d + 60 * d_minuto d + d_segundo d" "3600 * d_hora d + 60 * d_minuto d + d_segundo d < 86400"
    using assms by (simp_all add: valid_time_def)
  have "instant d = 86400 * years_before (d_ano d) + 86400 * (days_before (d_ano d) (d_mes d) + d_dia d - 1)
      + (3600 * d_hora d + 60 * d_minuto d + d_segundo d)"
    by (simp add: instant_def date_of_def algebra_simps)
  with y lost t doy b(5,6) show "0 \<le> instant d - lost d" "instant d - lost d < 2 ^ 57"
    by simp_all
qed

lemma uint_of_int_small: "0 \<le> x \<Longrightarrow> x < 2 ^ 57 \<Longrightarrow> uint (of_int x :: 64 word) = x"
  by (simp add: uint_word_of_int_eq take_bit_int_eq_self)

text \<open>
  C16: the difference in days is that of the calendar, except for what \<open>ehBissexto\<close> loses: it does
  not take the years divisible by 400 as leap years, so that a date after February of such a year
  is counted a day too early.
\<close>

theorem diferenca_em_dias:
  assumes "valid_time a" "valid_time b"
  shows "\<exists>w. calculaDiferencaEmDias a b = ok w
    \<and> uint w = \<bar>(instant b - lost b) - (instant a - lost a)\<bar> div 86400"
proof -
  define x y where "x = instant a - lost a" and "y = instant b - lost b"
  have x: "0 \<le> x" "x < 2 ^ 57" and y: "0 \<le> y" "y < 2 ^ 57"
    using instant_bounds [OF assms(1)] instant_bounds [OF assms(2)] by (simp_all only: x_def y_def)
  have less: "(of_int x :: 64 word) > of_int y \<longleftrightarrow> x > y"
    using x y by (simp add: word_less_def uint_of_int_small)
  define s :: "64 word" where "s = (if x > y then of_int (x - y) else of_int (y - x))"
  have s: "uint s = \<bar>y - x\<bar>"
    using x y by (auto simp: s_def uint_of_int_small simp del: of_int_diff)
  have "calculaDiferencaEmSegundos a b = ok s"
    unfolding calculaDiferencaEmSegundos_def dataParaSegundos_instant [OF assms(1)] dataParaSegundos_instant [OF assms(2)]
      bnd_ok x_def [symmetric] y_def [symmetric] less
    by (simp add: s_def)
  then have "calculaDiferencaEmDias a b = ok (s div 86400)"
    by (simp add: calculaDiferencaEmDias_def)
  moreover have "uint (s div 86400) = \<bar>y - x\<bar> div 86400"
    by (simp add: uint_div s)
  ultimately show ?thesis by (simp add: x_def y_def)
qed

theorem diferenca_em_dias_witness:
  "\<exists>w. calculaDiferencaEmDias
      \<lparr>d_hora = 0, d_minuto = 0, d_segundo = 0, d_dia = 1, d_mes = 1, d_ano = 2000\<rparr>
      \<lparr>d_hora = 0, d_minuto = 0, d_segundo = 0, d_dia = 1, d_mes = 3, d_ano = 2000\<rparr> = ok w \<and> uint w = 59"
proof -
  have n: "day_number (2000, 1, 1) = 730120" "day_number (2000, 3, 1) = 730180" by code_simp+
  have v: "valid_date (2000, 1, 1)" "valid_date (2000, 3, 1)" by code_simp+
  show ?thesis
    using diferenca_em_dias
      [of "\<lparr>d_hora = 0, d_minuto = 0, d_segundo = 0, d_dia = 1, d_mes = 1, d_ano = 2000\<rparr>"
          "\<lparr>d_hora = 0, d_minuto = 0, d_segundo = 0, d_dia = 1, d_mes = 3, d_ano = 2000\<rparr>"]
    by (simp add: valid_time_def date_of_def instant_def lost_def n v del: day_number.simps valid_date.simps)
qed

section \<open>example5.cxx\<close>

record data =
  c_dia :: int
  c_mes :: int
  c_ano :: int

definition daytab :: "int list list" where
  "daytab = [[31, 28, 31, 30, 31, 30, 31, 31, 30, 31, 30, 31], [31, 29, 31, 30, 31, 30, 31, 31, 30, 31, 30, 31]]"

definition daystotal :: "int \<Rightarrow> int \<Rightarrow> int \<Rightarrow> int run" where
  "daystotal d m y =
     bnd (i32 (m - 1)) (\<lambda>m1.
     for_up 1 (y + 1) (\<lambda>year daystotal.
       let max_month = (if year < y then 12 else m1);
           leap = (if year smod 4 = 0 then 1 else 0);
           leap = (if year smod 100 = 0 \<and> year smod 400 \<noteq> 0 then 0 else leap)
       in for_up 1 (max_month + 1) (\<lambda>month daystotal.
            bnd (rd2 daytab leap (month - 1)) (\<lambda>n. i32 (daystotal + n))) daystotal) d)"

text \<open>
  \<open>__isleap(inicio.ano++)\<close>: the macro of glibc evaluates its argument up to three times,
  \<open>((y) % 4 == 0 && ((y) % 100 != 0 || (y) % 400 == 0))\<close>.  The value and the new year.
\<close>

definition isleap_inc :: "int \<Rightarrow> (bool \<times> int) run" where
  "isleap_inc ano =
     bnd (i32 (ano + 1)) (\<lambda>ano1.
     if ano smod 4 = 0 then
       bnd (i32 (ano1 + 1)) (\<lambda>ano2.
       if ano1 smod 100 \<noteq> 0 then ok (True, ano2)
       else bnd (i32 (ano2 + 1)) (\<lambda>ano3. ok (ano2 smod 400 = 0, ano3)))
     else ok (False, ano1))"

definition dist_dias :: "data \<Rightarrow> data \<Rightarrow> 64 word run" where
  "dist_dias inicio fim =
     (let idias = of_int (c_dia inicio);
          dbissexto = (if isleap (c_ano inicio) then 1 else 0) in
      bnd (i32 (c_mes inicio - 1)) (\<lambda>i.
      bnd (for_down i 1 (\<lambda>i idias. bnd (rd2 daytab dbissexto (i - 1)) (\<lambda>n. ok (idias + of_int n))) idias) (\<lambda>idias.
      let fdias = of_int (c_dia fim);
          dbissexto = (if isleap (c_ano fim) then 1 else 0) in
      bnd (i32 (c_mes fim - 1)) (\<lambda>i.
      bnd (for_down i 1 (\<lambda>i fdias. bnd (rd2 daytab dbissexto (i - 1)) (\<lambda>n. ok (fdias + of_int n))) fdias) (\<lambda>fdias.
      bnd (while_run (\<lambda>(ano, def_anos). ok (ano < c_ano fim))
        (\<lambda>(ano, def_anos). bnd (isleap_inc ano) (\<lambda>(b, ano).
          ok (ano, def_anos + of_int (365 + (if b then 1 else 0))))) (c_ano inicio, 0)) (\<lambda>(ano, def_anos).
      ok (def_anos - idias + fdias)))))))"

definition dist_main :: "terminal \<Rightarrow> terminal run" where
  "dist_main s =
     bnd (scan_int (say (nl @ tab @ ''Digite primeira data'' @ nl @ tab @ ''Dia: '') s)) (\<lambda>(s, d1).
     bnd (scan_int (say (nl @ tab @ ''Mes: '') s)) (\<lambda>(s, m1).
     bnd (scan_int (say (nl @ tab @ ''Ano: '') s)) (\<lambda>(s, y1).
     bnd (scan_int (say (nl @ tab @ ''Digite segunda data'' @ nl @ tab @ ''Dia: '') s)) (\<lambda>(s, d2).
     bnd (scan_int (say (nl @ tab @ ''Mes: '') s)) (\<lambda>(s, m2).
     bnd (scan_int (say (nl @ tab @ ''Ano: '') s)) (\<lambda>(s, y2).
     bnd (need d1) (\<lambda>d1. bnd (need m1) (\<lambda>m1. bnd (need y1) (\<lambda>y1.
     bnd (need d2) (\<lambda>d2. bnd (need m2) (\<lambda>m2. bnd (need y2) (\<lambda>y2.
     bnd (dist_dias \<lparr>c_dia = d1, c_mes = m1, c_ano = y1\<rparr> \<lparr>c_dia = d2, c_mes = m2, c_ano = y2\<rparr>) (\<lambda>n.
     ok (say (nl @ tab @ ''A distancia em dias: '' @ dec (uint n) @ nl @ nl) s))))))))))))))"

lemma daytab_month_len:
  "1 \<le> i \<Longrightarrow> i \<le> 12 \<Longrightarrow> rd2 daytab (if leap y then 1 else 0) (i - 1) = ok (month_len y i)"
  by (elim month_cases) (simp_all add: daytab_def rd2_def rd_def at_def leap_day_def)

lemma year_days:
  assumes "k \<le> 12" "0 \<le> t" "t \<le> 2147000000"
  shows "for_up 1 (k + 1) (\<lambda>month n. bnd (rd2 daytab (if leap y then 1 else 0) (month - 1)) (\<lambda>x. i32 (n + x))) t
    = ok (t + days_before y (k + 1))"
  unfolding wp_eq_ok [symmetric]
proof (cases "1 \<le> k + 1")
  case True
  show "wp (for_up 1 (k + 1) (\<lambda>month n. bnd (rd2 daytab (if leap y then 1 else 0) (month - 1)) (\<lambda>x. i32 (n + x))) t)
     (\<lambda>z. z = t + days_before y (k + 1))"
  proof (rule wp_for_up [where I = "\<lambda>i z. z = t + days_before y i"])
    fix i z assume i: "1 \<le> i" "i < k + 1" and z: "z = t + days_before y i"
    have "days_before y i + month_len y i \<le> 366"
      using days_before_mono [of i 13 y] i assms(1) leap_day_bounds [of y] by simp
    moreover have "0 \<le> days_before y i" "0 \<le> month_len y i"
      by (auto simp: days_before_def month_len_def intro!: sum_list_nonneg)
    ultimately show "wp (bnd (rd2 daytab (if leap y then 1 else 0) (i - 1)) (\<lambda>x. i32 (z + x)))
       (\<lambda>z. z = t + days_before y (i + 1))"
      using i z assms by (simp add: daytab_month_len days_before_step)
  qed (use True in simp_all)
qed (simp add: days_before_def)

text \<open>
  \<open>daystotal\<close> is the number of the day, counted from 1 January of year 1, for the dates of the
  years 1 to 5000000.
\<close>

theorem daystotal_day_number:
  assumes v: "valid_date (y, m, d)" and y: "1 \<le> y" "y \<le> 5000000"
  shows "daystotal d m y = ok (day_number (y, m, d))"
proof -
  have l: "(if year smod 100 = 0 \<and> year smod 400 \<noteq> 0 then 0 else if year smod 4 = 0 then 1 else 0) =
      (if leap year then 1 else 0 :: int)" for year
    by (auto simp: leap_def smod_0_iff intro: dvd_trans [of 4 100] dvd_trans [of 4 400] dvd_trans [of 100 400])
  have d: "1 \<le> m" "m \<le> 12" "1 \<le> d" "d \<le> 31" using v by (auto simp: month_len_def split: if_splits)
  have yb: "0 \<le> years_before z" "years_before z \<le> 1835000000" if "1 \<le> z" "z \<le> 5000000" for z
    using that leaps_between [of 1 z] by (simp_all add: years_before_def [of 1])
  have step: "for_up 1 ((if year < y then 12 else m - 1) + 1) (\<lambda>month n.
      bnd (rd2 daytab (if leap year then 1 else 0) (month - 1)) (\<lambda>x. i32 (n + x))) (d + years_before year)
    = ok (if year < y then d + years_before (year + 1) else day_number (y, m, d))"
    if "1 \<le> year" "year \<le> y" for year
    using year_days [of "if year < y then 12 else m - 1" "d + years_before year" year] yb [of year] that d y
    by (auto simp: years_before_step)
  have i: "i32 (m - 1) = ok (m - 1)" using d by (simp add: i32_in)
  show ?thesis
    unfolding daystotal_def i bnd_ok Let_def l wp_eq_ok [symmetric]
  proof (rule wp_for_up [where I = "\<lambda>z t. t = (if z \<le> y then d + years_before z else day_number (y, m, d))"])
    fix z t assume z: "1 \<le> z" "z < y + 1" "t = (if z \<le> y then d + years_before z else day_number (y, m, d))"
    then show "wp (for_up 1 ((if z < y then 12 else m - 1) + 1) (\<lambda>month n.
        bnd (rd2 daytab (if leap z then 1 else 0) (month - 1)) (\<lambda>x. i32 (n + x))) t)
      (\<lambda>t. t = (if z + 1 \<le> y then d + years_before (z + 1) else day_number (y, m, d)))"
      using step [of z] by auto
  qed (use y in \<open>auto simp: years_before_def\<close>)
qed

theorem daystotal_day_number_witness: "daystotal 29 2 2000 = ok 730179"
proof -
  have "valid_date (2000, 2, 29)" "day_number (2000, 2, 29) = 730179" by code_simp+
  then show ?thesis
    using daystotal_day_number [of 2000 2 29] by (simp del: day_number.simps valid_date.simps)
qed

lemma months_down:
  fixes t :: "64 word"
  assumes "0 \<le> k" "k < 12"
  shows "for_down k 1 (\<lambda>i w. bnd (rd2 daytab (if leap y then 1 else 0) (i - 1)) (\<lambda>n. ok (w + of_int n))) t
    = ok (t + of_int (days_before y (k + 1)))"
  unfolding wp_eq_ok [symmetric]
proof (rule wp_for_down [where I = "\<lambda>i w. w = t + of_int (days_before y (k + 1) - days_before y (i + 1))"])
  fix i w assume i: "1 \<le> i" "i \<le> k" and w: "w = t + of_int (days_before y (k + 1) - days_before y (i + 1))"
  have "days_before y (i + 1) = days_before y i + month_len y i"
    using i by (simp add: days_before_step)
  with i w assms show "wp (bnd (rd2 daytab (if leap y then 1 else 0) (i - 1)) (\<lambda>n. ok (w + of_int n)))
      (\<lambda>w. w = t + of_int (days_before y (k + 1) - days_before y (i - 1 + 1)))"
    by (simp add: daytab_month_len)
next
  fix w assume "w = t + of_int (days_before y (k + 1) - days_before y (min k (1 - 1) + 1))"
  then show "w = t + of_int (days_before y (k + 1))" using assms by simp
qed simp

text \<open>
  The days the loop counts for the year \<open>y\<close> when it starts from the year \<open>a\<close>: every multiple of 4 is a leap year, and
  the year after it is skipped.
\<close>

definition contado :: "int \<Rightarrow> int \<Rightarrow> int" where
  "contado a y = (if y mod 4 = 0 then 366 else if y mod 4 = 1 \<and> a < y then 0 else 365)"

definition contados :: "int \<Rightarrow> int \<Rightarrow> int" where
  "contados a b = (\<Sum>y \<in> {a..<b}. contado a y)"

lemma contados_step: "a \<le> b \<Longrightarrow> contados a (b + 1) = contados a b + contado a b"
proof -
  assume "a \<le> b"
  then have "{a..<b + 1} = insert b {a..<b}" by auto
  then show ?thesis by (simp add: contados_def)
qed

lemma isleap_inc_skips:
  assumes "int_min \<le> y" "y < int_max"
  shows "isleap_inc y = ok (if y mod 4 = 0 then (True, y + 2) else (False, y + 1))"
proof (cases "y mod 4 = 0")
  case True
  then have four: "4 dvd y" by presburger
  then have "\<not> 100 dvd y + 1" by presburger
  moreover have "y + 2 \<le> int_max" using four assms(2) by presburger
  ultimately show ?thesis using True four assms by (simp add: isleap_inc_def smod_0_iff i32_in)
next
  case False
  then have "\<not> 4 dvd y" by presburger
  with False assms show ?thesis by (simp add: isleap_inc_def smod_0_iff i32_in)
qed

lemma years_counted:
  assumes "int_min \<le> a" "b \<le> int_max"
  shows "wp (while_run (\<lambda>(ano, w). ok (ano < b))
        (\<lambda>(ano, w). bnd (isleap_inc ano) (\<lambda>(l, ano). ok (ano, w + of_int (365 + (if l then 1 else 0))))) (a, 0 :: 64 word))
     (\<lambda>(ano, w). w = of_int (if a \<le> b then contados a b else 0))"
proof (cases "a \<le> b")
  case True
  let ?I = "\<lambda>(ano, w :: 64 word). a \<le> ano \<and> w = of_int (contados a (min ano b)) \<and> (ano mod 4 = 1 \<longrightarrow> ano = a)"
  show ?thesis
  proof (rule wp_while [where I = ?I and m = "\<lambda>(ano, w). nat (b - ano)"])
    show "?I (a, 0)" using True by (simp add: contados_def)
  next
    fix s assume I: "?I s"
    obtain y w where s: "s = (y, w)" by (cases s)
    have y: "a \<le> y" "w = of_int (contados a (min y b))" "y mod 4 = 1 \<longrightarrow> y = a" using I by (auto simp: s)
    show "wp (case s of (ano, w) \<Rightarrow> ok (ano < b)) (\<lambda>t. if t then
        wp (case s of (ano, w) \<Rightarrow> bnd (isleap_inc ano) (\<lambda>(l, ano). ok (ano, w + of_int (365 + (if l then 1 else 0)))))
          (\<lambda>s'. ?I s' \<and> (case s' of (ano, w) \<Rightarrow> nat (b - ano)) < (case s of (ano, w) \<Rightarrow> nat (b - ano)))
        else case s of (ano, w) \<Rightarrow> w = of_int (if a \<le> b then contados a b else 0))"
    proof (cases "y < b")
      case less: True
      have i: "isleap_inc y = ok (if y mod 4 = 0 then (True, y + 2) else (False, y + 1))"
        by (rule isleap_inc_skips) (use less y assms in auto)
      show ?thesis
      proof (cases "y mod 4 = 0")
        case four: True
        then have "(y + 1) mod 4 = 1" "(y + 2) mod 4 = 2" by presburger+
        then have "contados a (min (y + 2) b) = contados a y + 366"
          using contados_step [of a y] contados_step [of a "y + 1"] y(1) less four
          by (cases "y + 1 = b") (simp_all add: contado_def min_def add.commute [of y 2])
        with i y less four \<open>(y + 2) mod 4 = 2\<close> show ?thesis by (simp add: s)
      next
        case False
        then have "(y + 1) mod 4 \<noteq> 1" by presburger
        moreover have "contados a (y + 1) = contados a y + 365"
          using contados_step [OF y(1)] False y(3) by (auto simp: contado_def)
        ultimately show ?thesis using i y less False by (simp add: s)
      qed
    next
      case False
      with y True show ?thesis by (simp add: s min_def)
    qed
  qed
next
  case False
  then show ?thesis by (subst while_run_unfold) simp
qed

text \<open>Compared to the calendar.\<close>

definition saltados :: "int \<Rightarrow> int \<Rightarrow> int" where
  "saltados a b = int (card {y \<in> {a<..<b}. y mod 4 = 1})"

definition falsos :: "int \<Rightarrow> int \<Rightarrow> int" where
  "falsos a b = int (card {y \<in> {a..<b}. y mod 4 = 0 \<and> \<not> leap y})"

lemma contados_calendar:
  "a \<le> b \<Longrightarrow> contados a b = years_before b - years_before a - 365 * saltados a b + falsos a b"
proof (induction b rule: int_ge_induct)
  case (step b)
  have "{y \<in> {a<..<b + 1}. y mod 4 = 1} = (if a < b \<and> b mod 4 = 1 then insert b {y \<in> {a<..<b}. y mod 4 = 1} else {y \<in> {a<..<b}. y mod 4 = 1})"
    by (auto simp: le_less)
  moreover have "finite {y \<in> {a<..<b}. y mod 4 = 1}" by (rule finite_subset [of _ "{a<..<b}"]) auto
  ultimately have s: "saltados a (b + 1) = saltados a b + (if a < b \<and> b mod 4 = 1 then 1 else 0)"
    by (simp add: saltados_def)
  have "{y \<in> {a..<b + 1}. y mod 4 = 0 \<and> \<not> leap y} =
      (if b mod 4 = 0 \<and> \<not> leap b then insert b {y \<in> {a..<b}. y mod 4 = 0 \<and> \<not> leap y} else {y \<in> {a..<b}. y mod 4 = 0 \<and> \<not> leap y})"
    using step.hyps by (auto simp: le_less)
  moreover have "finite {y \<in> {a..<b}. y mod 4 = 0 \<and> \<not> leap y}" by (rule finite_subset [of _ "{a..<b}"]) auto
  ultimately have f: "falsos a (b + 1) = falsos a b + (if b mod 4 = 0 \<and> \<not> leap b then 1 else 0)"
    by (simp add: falsos_def)
  have "b mod 4 = 0" if "leap b" using that by (auto simp: leap_def)
  then show ?case
    using step s f by (auto simp: contados_step contado_def years_before_step leap_day_def)
qed (simp add: contados_def saltados_def falsos_def)

definition as_date5 :: "data \<Rightarrow> date" where
  "as_date5 x = (c_ano x, c_mes x, c_dia x)"

text \<open>
  C18: what dist_dias of example5 returns, in 64 unsigned bits.  The loop over the years increments the
  year in the argument of a macro that evaluates it twice: every multiple of 4 counts as a leap year
  (\<open>falsos\<close> of them are not) and the year after it is skipped (\<open>saltados\<close> of them).  The result is the number of days
  only if neither happens between the two years; a second date before the first one wraps around, and when its year is
  earlier the years between are not counted.
\<close>

theorem dist_dias_days:
  assumes "valid_date (as_date5 a)" "valid_date (as_date5 b)" "int_min \<le> c_ano a" "c_ano b \<le> int_max"
  shows "dist_dias a b = ok (of_int (if c_ano a \<le> c_ano b then
      day_number (as_date5 b) - day_number (as_date5 a) - 365 * saltados (c_ano a) (c_ano b) + falsos (c_ano a) (c_ano b)
    else days_before (c_ano b) (c_mes b) + c_dia b - (days_before (c_ano a) (c_mes a) + c_dia a)))"
proof -
  have m: "0 \<le> c_mes a - 1" "c_mes a - 1 < 12" "0 \<le> c_mes b - 1" "c_mes b - 1 < 12"
    using assms by (simp_all add: as_date5_def)
  then have i: "i32 (c_mes a - 1) = ok (c_mes a - 1)" "i32 (c_mes b - 1) = ok (c_mes b - 1)"
    by (simp_all add: i32_in)
  obtain ano where l: "while_run (\<lambda>(ano, def_anos). ok (ano < c_ano b))
        (\<lambda>(ano, def_anos). bnd (isleap_inc ano) (\<lambda>(b, ano). ok (ano, def_anos + of_int (365 + (if b then 1 else 0)))))
        (c_ano a, 0 :: 64 word) = ok (ano, of_int (if c_ano a \<le> c_ano b then contados (c_ano a) (c_ano b) else 0))"
    using years_counted [OF assms(3,4)] by (auto simp: wp_iff)
  show ?thesis
    unfolding dist_dias_def Let_def i bnd_ok isleap_leap months_down [OF m(1,2)] months_down [OF m(3,4)] l prod.case
    by (simp add: as_date5_def contados_calendar)
qed

text \<open>From 1 January 2020 to 1 January 2022 there are 731 days; 2021 is skipped.\<close>

theorem dist_dias_days_witness:
  "dist_dias \<lparr>c_dia = 1, c_mes = 1, c_ano = 2020\<rparr> \<lparr>c_dia = 1, c_mes = 1, c_ano = 2022\<rparr> = ok 366 \<and>
   (\<exists>w. dist_dias \<lparr>c_dia = 2, c_mes = 1, c_ano = 2020\<rparr> \<lparr>c_dia = 1, c_mes = 1, c_ano = 2020\<rparr> = ok w \<and> uint w = 2 ^ 64 - 1)"
proof -
  have "{y \<in> {2020<..<2022}. y mod 4 = 1} = {2021 :: int}"
  proof -
    have "y = 2021" if "2020 < y" "y < 2022" for y :: int using that by simp
    then show ?thesis by auto
  qed
  then have s: "saltados 2020 2022 = 1" unfolding saltados_def by simp
  have "{y \<in> {2020..<2022}. y mod 4 = 0 \<and> \<not> leap y} = {}"
  proof -
    have "leap y \<or> \<not> 4 dvd y" if "2020 \<le> y" "y < 2022" for y
    proof -
      from that have "y = 2020 \<or> y = 2021" by auto
      then show ?thesis by (auto simp: leap_def)
    qed
    then show ?thesis by auto
  qed
  then have f: "falsos 2020 2022 = 0" unfolding falsos_def by (simp only: card.empty of_nat_0)
  have z: "saltados 2020 2020 = 0" "falsos 2020 2020 = 0" by (simp_all add: saltados_def falsos_def)
  have n: "day_number (2020, 1, 1) = 737425" "day_number (2022, 1, 1) = 738156" "day_number (2020, 1, 2) = 737426"
    and v: "valid_date (2020, 1, 1)" "valid_date (2022, 1, 1)" "valid_date (2020, 1, 2)" by code_simp+
  show ?thesis
    using dist_dias_days [of "\<lparr>c_dia = 1, c_mes = 1, c_ano = 2020\<rparr>" "\<lparr>c_dia = 1, c_mes = 1, c_ano = 2022\<rparr>"]
      dist_dias_days [of "\<lparr>c_dia = 2, c_mes = 1, c_ano = 2020\<rparr>" "\<lparr>c_dia = 1, c_mes = 1, c_ano = 2020\<rparr>"]
    by (simp add: as_date5_def s f z n v uint_word_ariths del: day_number.simps valid_date.simps)
qed

end
