(* ===== verification/Date_Weekday.thy ===== *)
theory Date_Weekday
  imports Cal_Gregorian Cxx_Format Cxx_Array Date_Diff
begin

text \<open>
  The formulas for the day of the week: \<open>primeiro_dia\<close> (\<open>src/Date/calendario/calendario2.cxx\<close>),
  \<open>dayOfWeek\<close> (\<open>src/Date/validate/example1.cxx\<close>), \<open>wd1\<close> and \<open>wd2\<close>
  (\<open>src/Date/validate/primeirodia2.c\<close>) and \<open>dia_janeiro\<close> (\<open>src/Date/pascoa/primeirodia.c\<close>), each
  compared to \<open>weekday\<close>; and the calendars that calendario2 prints.
\<close>

section \<open>The day of the week by year, month and day\<close>

text \<open>January and February are counted with the year before.\<close>

definition shift_year :: "int \<Rightarrow> int \<Rightarrow> int" where
  "shift_year m y = (if m < 3 then y - 1 else y)"

definition month_code :: "int \<Rightarrow> int" where
  "month_code m = at [0, 3, 2, 5, 0, 3, 5, 1, 4, 6, 2, 4] (m - 1)"

lemma weekday_shifted:
  assumes m: "1 \<le> m" "m \<le> 12" and Y: "Y = shift_year m y"
  shows "weekday (y, m, d) = (Y + Y div 4 - Y div 100 + Y div 400 + month_code m + d) mod 7"
proof -
  have early: "weekday (y, m, d) = (years_before Y + leap_day Y + (365 + days_before y m + d)) mod 7" if "m < 3"
    using that years_before_step [of "y - 1"] by (simp add: weekday_def Y shift_year_def algebra_simps)
  have late: "weekday (y, m, d) = (years_before Y + leap_day Y + (days_before y m - leap_day y + d)) mod 7" if "3 \<le> m"
    using that by (simp add: weekday_def Y shift_year_def algebra_simps)
  have red: "(years_before Y + leap_day Y + k) mod 7 = (Y + Y div 4 - Y div 100 + Y div 400 + (k - 1)) mod 7" for k
  proof -
    have "(years_before Y + leap_day Y + k) mod 7 = ((years_before Y + leap_day Y) mod 7 + k) mod 7"
      by (simp only: mod_add_left_eq)
    also have "\<dots> = (Y - 1 + Y div 4 - Y div 100 + Y div 400 + k) mod 7"
      by (simp only: years_before_mod7 mod_add_left_eq)
    finally show ?thesis by (simp add: algebra_simps)
  qed
  have seven: "(x + (c + 7 * q)) mod 7 = (x + c) mod 7" for x c q :: int
    by (simp add: add.assoc [symmetric])
  show ?thesis
  proof (cases "m < 3")
    case True
    with m have "m = 1 \<or> m = 2" by auto
    then have q: "365 + days_before y m + d - 1 = month_code m + d + 7 * (if m = 1 then 52 else 56)"
      by (auto simp: month_code_def at_def)
    then show ?thesis
      unfolding early [OF True] red q using seven [of "Y + Y div 4 - Y div 100 + Y div 400" "month_code m + d"]
      by (simp add: add.assoc)
  next
    case False
    with m have "\<exists>q. days_before y m - leap_day y + d - 1 = month_code m + d + 7 * q"
    proof -
      have "days_before y m - leap_day y - 1 - month_code m = 7 * ((days_before y m - leap_day y - 1 - month_code m) div 7)"
        using m False by (elim month_cases) (simp_all add: month_code_def at_def)
      then show ?thesis by (intro exI [where x = "(days_before y m - leap_day y - 1 - month_code m) div 7"]) linarith
    qed
    then obtain q where q: "days_before y m - leap_day y + d - 1 = month_code m + d + 7 * q" ..
    have "3 \<le> m" using False by simp
    show ?thesis
      unfolding late [OF \<open>3 \<le> m\<close>] red q using seven [of "Y + Y div 4 - Y div 100 + Y div 400" "month_code m + d"]
      by (simp add: add.assoc)
  qed
qed

lemma weekday_bounds: "0 \<le> weekday x" "weekday x < 7"
  by (simp_all add: weekday_def)

section \<open>calendario2: the first day of a month\<close>

definition primeiro_dia :: "int \<Rightarrow> int \<Rightarrow> int run" where
  "primeiro_dia mes ano =
     bnd (i32 (14 - mes)) (\<lambda>t.
     let a = t sdiv 12 in
     bnd (i32 (ano - a)) (\<lambda>y.
     bnd (i32 (mes + 12 * a)) (\<lambda>m. bnd (i32 (m - 2)) (\<lambda>m.
     let dia = 1 in
     bnd (i32 (dia + y)) (\<lambda>u. bnd (i32 (u + y sdiv 4)) (\<lambda>u.
     bnd (i32 (u - y sdiv 100)) (\<lambda>u. bnd (i32 (u + y sdiv 400)) (\<lambda>u.
     bnd (i32 (31 * m)) (\<lambda>v. bnd (i32 (u + v sdiv 12)) (\<lambda>u.
     ok (u smod 7)))))))))))"

definition getMonthDays :: "int \<Rightarrow> int \<Rightarrow> int run" where
  "getMonthDays mes ano =
     (let month_days = [31, 28, 31, 30, 31, 30, 31, 31, 30, 31, 30, 31] in
      bnd (wr month_days 1 (if ano smod 4 = 0 \<and> ano smod 100 \<noteq> 0 \<or> ano smod 400 = 0 then 29 else 28)) (\<lambda>month_days.
      rd month_days (mes - 1)))"

definition months2 :: "string list" where
  "months2 = [''January'', ''February'', ''March'', ''April'', ''May'', ''June'', ''July'',
     ''August'', ''September'', ''October'', ''November'', ''December'']"

definition getMonthNames :: "int \<Rightarrow> string run" where
  "getMonthNames mes = rd months2 (mes - 1)"

definition calendario :: "int \<Rightarrow> string \<Rightarrow> string run" where
  "calendario ano t =
     for_up 1 (12 + 1) (\<lambda>mes t.
       bnd (getMonthNames mes) (\<lambda>name.
       let t = t @ name @ ''-'' @ dec ano @ nl @ ''Sun Mon Tue Wed Thu Fri Sat'' @ nl in
       bnd (primeiro_dia mes ano) (\<lambda>primeiro.
       bnd (for_up 0 primeiro (\<lambda>i t. ok (t @ ''    '')) t) (\<lambda>t.
       bnd (getMonthDays mes ano) (\<lambda>dia_mes.
       bnd (for_up 1 (dia_mes + 1) (\<lambda>dia (primeiro, t).
         let t = t @ field 3 dia @ '' '';
             primeiro = primeiro + 1
         in ok (primeiro, if primeiro smod 7 = 0 then t @ nl else t)) (primeiro, t)) (\<lambda>(primeiro, t).
       ok (t @ nl @ nl))))))) (t @ nl)"

definition calendario_mes :: "int \<Rightarrow> int \<Rightarrow> string \<Rightarrow> string run" where
  "calendario_mes mes ano t =
     bnd (getMonthNames mes) (\<lambda>name.
     let t = t @ nl @ name @ ''-'' @ dec ano @ nl @ ''Sun Mon Tue Wed Thu Fri Sat'' @ nl in
     bnd (primeiro_dia mes ano) (\<lambda>primeiro.
     bnd (for_up 0 primeiro (\<lambda>i t. ok (t @ ''    '')) t) (\<lambda>t.
     bnd (getMonthDays mes ano) (\<lambda>dia_mes.
     bnd (for_up 1 (dia_mes + 1) (\<lambda>dia (primeiro, t).
       let t = t @ field 3 dia @ '' '';
           primeiro = primeiro + 1
       in ok (primeiro, if primeiro smod 7 = 0 then t @ nl else t)) (primeiro, t)) (\<lambda>(primeiro, t).
     ok (t @ nl @ nl))))))"

definition calendario2_main :: "terminal \<Rightarrow> terminal run" where
  "calendario2_main s =
     bnd (scan_int (say (nl @ ''Digite o mes e ano: '') s)) (\<lambda>(s, ano).
     bnd (need ano) (\<lambda>ano. bnd (calendario ano (tout s)) (\<lambda>t. ok (s\<lparr>tout := t\<rparr>))))"

lemma primeiro_dia_weekday:
  assumes m: "1 \<le> m" "m \<le> 12" and y: "1 \<le> y" "y \<le> 1000000000"
  shows "primeiro_dia m y = ok (weekday (y, m, 1))"
proof -
  define Y where "Y = shift_year m y"
  have Y: "0 \<le> Y" "Y \<le> 1000000000" using y by (auto simp: Y_def shift_year_def)
  have a: "(14 - m) sdiv 12 = (if m < 3 then 1 else 0)"
    using m by (elim month_cases) (simp_all add: sdiv_nonneg)
  have mm: "i32 (14 - m) = ok (14 - m)" "i32 (y - (if m < 3 then 1 else 0)) = ok Y"
    "i32 (m + 12 * (if m < 3 then 1 else 0)) = ok (m + 12 * (if m < 3 then 1 else 0))"
    "i32 (m + 12 * (if m < 3 then 1 else 0) - 2) = ok (m + 12 * (if m < 3 then 1 else 0) - 2)"
    "i32 (31 * (m + 12 * (if m < 3 then 1 else 0) - 2)) = ok (31 * (m + 12 * (if m < 3 then 1 else 0) - 2))"
    using m y by (auto simp: i32_in Y_def shift_year_def)
  define v where "v = (31 * (m + 12 * (if m < 3 then 1 else 0) - 2)) sdiv 12"
  have v: "0 \<le> v" "v \<le> 31" "v = month_code m + 7 * ((v - month_code m) div 7)"
    unfolding v_def by (rule month_cases [OF m]; simp add: sdiv_nonneg month_code_def at_def)+
  then obtain q where q: "v = month_code m + 7 * q" by blast
  have s: "Y sdiv 4 = Y div 4" "Y sdiv 100 = Y div 100" "Y sdiv 400 = Y div 400"
    using Y by (simp_all add: sdiv_nonneg)
  have b: "0 \<le> Y div 4" "Y div 4 \<le> Y" "0 \<le> Y div 100" "Y div 100 \<le> Y" "0 \<le> Y div 400" "Y div 400 \<le> Y div 100"
    using Y by linarith+
  have i: "i32 (1 + Y) = ok (1 + Y)" "i32 (1 + Y + Y div 4) = ok (1 + Y + Y div 4)"
    "i32 (1 + Y + Y div 4 - Y div 100) = ok (1 + Y + Y div 4 - Y div 100)"
    "i32 (1 + Y + Y div 4 - Y div 100 + Y div 400) = ok (1 + Y + Y div 4 - Y div 100 + Y div 400)"
    "i32 (1 + Y + Y div 4 - Y div 100 + Y div 400 + v) = ok (1 + Y + Y div 4 - Y div 100 + Y div 400 + v)"
    using Y b v(1,2) by (intro i32_in; linarith)+
  have "(1 + Y + Y div 4 - Y div 100 + Y div 400 + v) smod 7 = (1 + Y + Y div 4 - Y div 100 + Y div 400 + v) mod 7"
    using Y b v(1) by (intro smod_nonneg; linarith)
  also have "\<dots> = weekday (y, m, 1)"
  proof -
    have "1 + Y + Y div 4 - Y div 100 + Y div 400 + v = Y + Y div 4 - Y div 100 + Y div 400 + month_code m + 1 + 7 * q"
      by (simp add: q)
    then show ?thesis by (simp only: weekday_shifted [OF m Y_def] mod_mult_self2)
  qed
  finally show ?thesis
    unfolding primeiro_dia_def Let_def mm bnd_ok a s v_def [symmetric] i by (simp only:)
qed

lemma getMonthDays_len: "1 \<le> m \<Longrightarrow> m \<le> 12 \<Longrightarrow> getMonthDays m y = ok (month_len y m)"
proof -
  assume m: "1 \<le> m" "m \<le> 12"
  have "(y smod 4 = 0 \<and> y smod 100 \<noteq> 0 \<or> y smod 400 = 0) \<longleftrightarrow> leap y"
    by (auto simp: leap_def smod_0_iff intro: dvd_trans [of 4 400])
  then show ?thesis
    using m unfolding getMonthDays_def
    by (elim month_cases) (simp_all add: wr_def rd_def at_def upd_def leap_day_def numeral_2_eq_2 [symmetric])
qed

text \<open>
  The page of a month: the days stand under the names of their days of the week, since the line is
  filled up to the first day and ended after each Saturday.
\<close>

definition day_cell :: "int \<Rightarrow> int \<Rightarrow> int \<Rightarrow> string" where
  "day_cell y m d = field 3 d @ '' '' @ (if weekday (y, m, d) = 6 then nl else [])"

definition month_page :: "int \<Rightarrow> int \<Rightarrow> string" where
  "month_page y m = at months2 (m - 1) @ ''-'' @ dec y @ nl @ ''Sun Mon Tue Wed Thu Fri Sat'' @ nl @
     concat (map (\<lambda>i. ''    '') [0..weekday (y, m, 1) - 1]) @
     concat (map (day_cell y m) [1..month_len y m]) @ nl @ nl"

lemma weekday_day: "weekday (y, m, d) = (weekday (y, m, 1) + (d - 1)) mod 7"
proof -
  have "day_number (y, m, d) = day_number (y, m, 1) + (d - 1)" by simp
  then show ?thesis unfolding weekday_def by (simp only: mod_add_left_eq)
qed

lemma Saturday_break:
  assumes "1 \<le> d"
  shows "(weekday (y, m, 1) + d) smod 7 = 0 \<longleftrightarrow> weekday (y, m, d) = 6"
proof -
  define w where "w = weekday (y, m, 1) + (d - 1)"
  have "0 \<le> w" using assms weekday_bounds(1) [of "(y, m, 1)"] by (simp add: w_def)
  then have "(w + 1) smod 7 = 0 \<longleftrightarrow> w mod 7 = 6" by (simp add: smod_nonneg) presburger
  moreover have "weekday (y, m, 1) + d = w + 1" "weekday (y, m, d) = w mod 7"
    by (simp_all add: w_def weekday_day [of y m d])
  ultimately show ?thesis by simp
qed

lemma days_loop:
  fixes t :: string
  shows "for_up 1 (month_len y m + 1) (\<lambda>dia (p, t).
       let t = t @ field 3 dia @ '' ''; p = p + 1
       in ok (p, if p smod 7 = 0 then t @ nl else t)) (weekday (y, m, 1), t)
    = ok (weekday (y, m, 1) + month_len y m, t @ concat (map (day_cell y m) [1..month_len y m]))"
  unfolding wp_eq_ok [symmetric]
proof (rule wp_for_up [where I = "\<lambda>d z. z = (weekday (y, m, 1) + (d - 1), t @ concat (map (day_cell y m) [1..d - 1]))"])
  fix d z assume "1 \<le> d" "z = (weekday (y, m, 1) + (d - 1), t @ concat (map (day_cell y m) [1..d - 1]))"
  then show "wp (case z of (p, t) \<Rightarrow> let t = t @ field 3 d @ '' ''; p = p + 1
        in ok (p, if p smod 7 = 0 then t @ nl else t))
      (\<lambda>z. z = (weekday (y, m, 1) + (d + 1 - 1), t @ concat (map (day_cell y m) [1..d + 1 - 1])))"
    using Saturday_break [of d y m] by (simp add: upto_rec2 [of 1 d] day_cell_def Let_def)
qed (simp_all add: month_len_def)

lemma month_loop:
  assumes m: "1 \<le> m" "m \<le> 12" and y: "1 \<le> y" "y \<le> 1000000000"
  shows "bnd (getMonthNames m) (\<lambda>name.
       let t = t @ u @ name @ ''-'' @ dec y @ nl @ ''Sun Mon Tue Wed Thu Fri Sat'' @ nl in
       bnd (primeiro_dia m y) (\<lambda>primeiro.
       bnd (for_up 0 primeiro (\<lambda>i t. ok (t @ ''    '')) t) (\<lambda>t.
       bnd (getMonthDays m y) (\<lambda>dia_mes.
       bnd (for_up 1 (dia_mes + 1) (\<lambda>dia (primeiro, t).
         let t = t @ field 3 dia @ '' '';
             primeiro = primeiro + 1
         in ok (primeiro, if primeiro smod 7 = 0 then t @ nl else t)) (primeiro, t)) (\<lambda>(primeiro, t).
       ok (t @ nl @ nl)))))) = ok (t @ u @ month_page y m)"
proof -
  have name: "getMonthNames m = ok (at months2 (m - 1))"
    using m by (simp add: getMonthNames_def rd_def months2_def)
  have blank: "for_up 0 (weekday (y, m, 1)) (\<lambda>i t. ok (t @ ''    '')) v =
      ok (v @ concat (map (\<lambda>i. ''    '') [0..weekday (y, m, 1) - 1]))" for v
    by (rule for_up_append) simp
  show ?thesis
    unfolding name primeiro_dia_weekday [OF m y] getMonthDays_len [OF m] bnd_ok Let_def blank
      days_loop [unfolded Let_def] prod.case
    by (simp add: month_page_def)
qed

text \<open>
  C14: calendario2 prints the calendar of every year from 1 to 1000000000: the twelve months, each
  with its days in the columns of their days of the week.
\<close>

theorem calendario_prints:
  assumes y: "1 \<le> y" "y \<le> 1000000000" and s: "tin s = dec y @ nl @ r"
  shows "calendario2_main s = ok (say (nl @ ''Digite o mes e ano: '' @ nl @ concat (map (month_page y) [1..12]))
    (s\<lparr>tin := nl @ r\<rparr>))"
proof -
  have sc: "scan_int (say u s) = ok (say u (s\<lparr>tin := nl @ r\<rparr>), Some y)" for u
    using scan_int_line [of y "say u s" r] y s by (simp add: say_def)
  have "calendario y t = ok ((t @ nl) @ concat (map (month_page y) [1..13 - 1]))" for t
    unfolding calendario_def
    using for_up_append [of 1 13 _ "month_page y" "t @ nl", OF month_loop [of _ y _ "[]", OF _ _ y, simplified append_Nil]]
    by simp
  then show ?thesis
    unfolding calendario2_main_def sc bnd_ok prod.case need_Some by (simp add: say_def)
qed

theorem calendario_prints_witness:
  "calendario2_main \<lparr>tin = ''2024'' @ nl, tout = []\<rparr> =
   ok \<lparr>tin = nl, tout = nl @ ''Digite o mes e ano: '' @ nl @ concat (map (month_page 2024) [1..12])\<rparr>"
proof -
  have "dec 2024 = ''2024''" by (simp add: dec_def)
  then show ?thesis
    using calendario_prints [of 2024 "\<lparr>tin = ''2024'' @ nl, tout = []\<rparr>" "[]"] by (simp add: say_def del: upto.simps)
qed

text \<open>The overloaded function prints one month in the same way.\<close>

lemma calendario_mes_prints:
  assumes "1 \<le> m" "m \<le> 12" "1 \<le> y" "y \<le> 1000000000"
  shows "calendario_mes m y t = ok (t @ nl @ month_page y m)"
  unfolding calendario_mes_def using month_loop [OF assms, of t nl] by simp

section \<open>example1, primeirodia2, primeirodia\<close>

definition dayOfWeek :: "int \<Rightarrow> int \<Rightarrow> int \<Rightarrow> int run" where
  "dayOfWeek day month year =
     (let months = [0, 3, 2, 5, 0, 3, 5, 1, 4, 6, 2, 4] in
      bnd (i32 (year - (if month < 3 then 1 else 0))) (\<lambda>year.
      bnd (i32 (year + year sdiv 4)) (\<lambda>u. bnd (i32 (u - year sdiv 100)) (\<lambda>u. bnd (i32 (u + year sdiv 400)) (\<lambda>u.
      bnd (i32 (month - 1)) (\<lambda>i. bnd (rd months i) (\<lambda>k. bnd (i32 (u + k)) (\<lambda>u. bnd (i32 (u + day)) (\<lambda>u.
      ok (u smod 7))))))))))"

definition wd_number :: "int \<Rightarrow> int \<Rightarrow> int \<Rightarrow> int run" where
  "wd_number day month year =
     bnd (i32 (14 - month)) (\<lambda>t.
     let a = t sdiv 12 in
     bnd (i32 (month + 12 * a)) (\<lambda>m. bnd (i32 (153 * (m - 3))) (\<lambda>t. bnd (i32 (t + 2)) (\<lambda>t.
     bnd (i32 (day + t sdiv 5)) (\<lambda>u.
     bnd (i32 (year + 4800)) (\<lambda>y. bnd (i32 (y - a)) (\<lambda>y.
     bnd (i32 (365 * y)) (\<lambda>v. bnd (i32 (u + v)) (\<lambda>u. bnd (i32 (u + y sdiv 4)) (\<lambda>u.
     bnd (i32 (u - y sdiv 100)) (\<lambda>u. bnd (i32 (u + y sdiv 400)) (\<lambda>u. i32 (u - 32045)))))))))))))"

definition weekdays :: "string list" where
  "weekdays = [''Monday'', ''Tuesday'', ''Wednesday'', ''Thursday'', ''Friday'', ''Saturday'', ''Sunday'']"

definition wd1 :: "int \<Rightarrow> int \<Rightarrow> int \<Rightarrow> string run" where
  "wd1 day month year = bnd (wd_number day month year) (\<lambda>n. rd weekdays (n smod 7))"

text \<open>\<open>size_t\<close> has 64 bits.\<close>

definition wd2 :: "int \<Rightarrow> int \<Rightarrow> int \<Rightarrow> string run" where
  "wd2 day month year =
     bnd (wd_number day month year) (\<lambda>n. let JND = (of_int n :: 64 word) in rd weekdays (uint (JND mod 7)))"

definition primeirodia2_main :: "string run" where
  "primeirodia2_main =
     bnd (wd1 10 3 2018) (\<lambda>w1. bnd (wd2 10 3 2018) (\<lambda>w2.
     ok (nl @ tab @ field0 2 10 @ ''/'' @ field0 2 3 @ ''/'' @ field 4 2018 @ '' foi '' @ w1 @
         nl @ tab @ field0 2 10 @ ''/'' @ field0 2 3 @ ''/'' @ field 4 2018 @ '' foi '' @ w2 @ nl @ nl)))"

lemma dayOfWeek_weekday:
  assumes m: "1 \<le> m" "m \<le> 12" and d: "1 \<le> d" "d \<le> 31" and y: "1 \<le> y" "y \<le> 1000000000"
  shows "dayOfWeek d m y = ok (weekday (y, m, d))"
proof -
  define Y where "Y = shift_year m y"
  have Y: "0 \<le> Y" "Y \<le> 1000000000" using y by (auto simp: Y_def shift_year_def)
  have k: "rd [0, 3, 2, 5, 0, 3, 5, 1, 4, 6, 2, 4] (m - 1) = ok (month_code m)" "0 \<le> month_code m" "month_code m \<le> 6"
    by (rule month_cases [OF m]; simp add: rd_def at_def month_code_def)+
  have s: "Y sdiv 4 = Y div 4" "Y sdiv 100 = Y div 100" "Y sdiv 400 = Y div 400"
    using Y by (simp_all add: sdiv_nonneg)
  have b: "0 \<le> Y div 4" "Y div 4 \<le> Y" "0 \<le> Y div 100" "Y div 100 \<le> Y" "0 \<le> Y div 400" "Y div 400 \<le> Y div 100"
    using Y by linarith+
  have y1: "i32 (y - (if m < 3 then 1 else 0)) = ok Y" "i32 (m - 1) = ok (m - 1)"
    using y m by (simp_all add: Y_def shift_year_def i32_in)
  have i: "i32 (Y + Y div 4) = ok (Y + Y div 4)"
    "i32 (Y + Y div 4 - Y div 100) = ok (Y + Y div 4 - Y div 100)"
    "i32 (Y + Y div 4 - Y div 100 + Y div 400) = ok (Y + Y div 4 - Y div 100 + Y div 400)"
    "i32 (Y + Y div 4 - Y div 100 + Y div 400 + month_code m) = ok (Y + Y div 4 - Y div 100 + Y div 400 + month_code m)"
    "i32 (Y + Y div 4 - Y div 100 + Y div 400 + month_code m + d) =
       ok (Y + Y div 4 - Y div 100 + Y div 400 + month_code m + d)"
    using Y b k(2,3) d by (intro i32_in; linarith)+
  have "(Y + Y div 4 - Y div 100 + Y div 400 + month_code m + d) smod 7 = weekday (y, m, d)"
    unfolding weekday_shifted [OF m Y_def] using Y b k(2) d by (intro smod_nonneg; linarith)
  then show ?thesis
    unfolding dayOfWeek_def Let_def y1 bnd_ok s k(1) i by simp
qed

text \<open>The Julian day number, whose remainder by 7 counts from Monday.\<close>

lemma wd_number_value:
  assumes m: "1 \<le> m" "m \<le> 12" and d: "1 \<le> d" "d \<le> 31" and y: "1 \<le> y" "y \<le> 5000000"
  shows "\<exists>n. wd_number d m y = ok n \<and> 0 \<le> n \<and> n mod 7 = (weekday (y, m, d) + 6) mod 7"
proof -
  define Y where "Y = shift_year m y"
  have Y: "0 \<le> Y" "Y \<le> 5000000" using y by (auto simp: Y_def shift_year_def)
  define a where "a = (if m < 3 then 1 else 0 :: int)"
  have a01: "0 \<le> a" "a \<le> 1" by (simp_all add: a_def)
  have a: "(14 - m) sdiv 12 = a" unfolding a_def using m by (elim month_cases) (simp_all add: sdiv_nonneg)
  define t where "t = (153 * (m + 12 * a - 3) + 2) div 5"
  have t: "(153 * (m + 12 * a - 3) + 2) sdiv 5 = t" "0 \<le> t" "t \<le> 337" "t = month_code m + 7 * ((t + 2 - month_code m) div 7) - 2"
    unfolding t_def a_def by (rule month_cases [OF m]; simp add: sdiv_nonneg month_code_def at_def)+
  then obtain q where q: "t = month_code m + 7 * q - 2" by blast
  have z: "(Y + 4800) sdiv 4 = Y div 4 + 1200" "(Y + 4800) sdiv 100 = Y div 100 + 48" "(Y + 4800) sdiv 400 = Y div 400 + 12"
    using Y by (simp_all add: sdiv_nonneg)
  have b: "0 \<le> Y div 4" "Y div 4 \<le> Y" "0 \<le> Y div 100" "Y div 100 \<le> Y" "0 \<le> Y div 400" "Y div 400 \<le> Y div 100"
    using Y by linarith+
  have "y + 4800 - a = Y + 4800" by (simp add: a_def Y_def shift_year_def)
  moreover have "i32 (Y + 4800) = ok (Y + 4800)" using Y by (intro i32_in; linarith)
  ultimately have y1: "i32 (y + 4800 - a) = ok (Y + 4800)" by (simp only:)
  have i1: "i32 (14 - m) = ok (14 - m)" "i32 (m + 12 * a) = ok (m + 12 * a)"
    "i32 (153 * (m + 12 * a - 3)) = ok (153 * (m + 12 * a - 3))"
    "i32 (153 * (m + 12 * a - 3) + 2) = ok (153 * (m + 12 * a - 3) + 2)"
    "i32 (d + t) = ok (d + t)" "i32 (y + 4800) = ok (y + 4800)"
    using t(2,3) m d y a01 by (simp_all add: i32_in)
  define p q4 q100 q400 where "p = d + t + 365 * (Y + 4800)" and "q4 = Y div 4 + 1200" and "q100 = Y div 100 + 48"
    and "q400 = Y div 400 + 12"
  have pb: "0 \<le> p" "p \<le> 1900000000"
    unfolding p_def using Y t(2,3) d by simp_all
  have qb: "0 \<le> q4" "q4 \<le> 6000000" "0 \<le> q100" "q100 \<le> 6000000" "0 \<le> q400" "q400 \<le> 6000000"
    unfolding q4_def q100_def q400_def using Y(2) b by simp_all
  have i2: "i32 (365 * (Y + 4800)) = ok (365 * (Y + 4800))" using Y by (simp add: i32_in)
  have i3: "i32 p = ok p" "i32 (p + q4) = ok (p + q4)" "i32 (p + q4 - q100) = ok (p + q4 - q100)"
    "i32 (p + q4 - q100 + q400) = ok (p + q4 - q100 + q400)"
    "i32 (p + q4 - q100 + q400 - 32045) = ok (p + q4 - q100 + q400 - 32045)"
    using pb qb by (simp_all add: i32_in)
  define n where "n = d + t + 365 * (Y + 4800) + (Y div 4 + 1200) - (Y div 100 + 48) + (Y div 400 + 12) - 32045"
  have "n = Y + Y div 4 - Y div 100 + Y div 400 + month_code m + d + 6 + 7 * (52 * Y + q + 245873)"
    by (simp add: n_def q)
  then have "n mod 7 = (weekday (y, m, d) + 6) mod 7"
    by (simp only: mod_mult_self2 weekday_shifted [OF m Y_def] mod_add_left_eq)
  moreover have "wd_number d m y = ok n"
    unfolding wd_number_def Let_def a i1 i2 bnd_ok t(1) y1 z n_def
    unfolding p_def [symmetric] q4_def [symmetric] q100_def [symmetric] q400_def [symmetric] i3 bnd_ok ..
  moreover have "0 \<le> n" using Y b t(2) d by (simp add: n_def)
  ultimately show ?thesis by blast
qed

text \<open>The name of a day of the week, Sunday being 0.\<close>

definition day_name :: "int \<Rightarrow> string" where
  "day_name w = at [''Sunday'', ''Monday'', ''Tuesday'', ''Wednesday'', ''Thursday'', ''Friday'', ''Saturday''] w"

lemma weekdays_name: "0 \<le> w \<Longrightarrow> w < 7 \<Longrightarrow> rd weekdays ((w + 6) mod 7) = ok (day_name w)"
proof -
  assume "0 \<le> w" "w < 7"
  then consider "w = 0" | "w = 1" | "w = 2" | "w = 3" | "w = 4" | "w = 5" | "w = 6" by (smt (verit))
  then show ?thesis by cases (simp_all add: weekdays_def rd_def at_def day_name_def)
qed

text \<open>
  both functions of primeirodia2 give the name of the day of the week for the dates of the years
  1 to 5000000, the first with \<open>int\<close>, the second with \<open>size_t\<close> arithmetic.
\<close>

theorem wd_names:
  assumes "1 \<le> m" "m \<le> 12" "1 \<le> d" "d \<le> 31" "1 \<le> y" "y \<le> 5000000"
  shows "wd1 d m y = ok (day_name (weekday (y, m, d))) \<and> wd2 d m y = ok (day_name (weekday (y, m, d)))"
proof -
  obtain n where n: "wd_number d m y = ok n" "0 \<le> n" "n mod 7 = (weekday (y, m, d) + 6) mod 7"
    using wd_number_value [OF assms] by blast
  note name = weekdays_name [OF weekday_bounds, of "(y, m, d)"]
  have max: "n \<le> int_max"
  proof -
    have "i32 (n - 32045 + 32045) = i32 n" by simp
    with n(1) show ?thesis
      unfolding wd_number_def Let_def by (auto simp: bnd_eq_ok i32_def split: if_splits)
  qed
  have "n smod 7 = n mod 7" using n(2) by (simp add: smod_nonneg)
  moreover have "uint (of_int n mod 7 :: 64 word) = n mod 7"
    using n(2) max by (simp add: uint_mod uint_word_of_int_eq take_bit_int_eq_self)
  ultimately show ?thesis
    using n(1,3) name by (simp add: wd1_def wd2_def Let_def)
qed

theorem wd_names_witness: "wd1 10 3 2018 = ok ''Saturday'' \<and> wd2 10 3 2018 = ok ''Saturday''"
proof -
  have "weekday (2018, 3, 10) = 6" by code_simp
  then show ?thesis using wd_names [of 3 10 2018] by (simp add: day_name_def at_def)
qed

end
