(* ===== verification/Date_Calendar.thy ===== *)
theory Date_Calendar
  imports Date_Easter Date_Weekday Cxx_Matrix
begin

text \<open>
  \<open>src/Date/calendario/calendario.c\<close>: the calendar of a year, two months side by side.  The program
  finds Easter by the formula of Clavius, walks back from that Sunday to 1 January to get its day
  of the week, fills one matrix for the odd and one for the par month and prints both every second
  month.  A year divisible by 100 is divided by 100 before anything else, so that the calendar is
  that of another year.
\<close>

section \<open>Part I: from Easter back to 1 January\<close>

text \<open>The year the program goes on with, the leap year flag, the length of February, Easter.\<close>

definition ano_util :: "int \<Rightarrow> int" where
  "ano_util ano = (if ano smod 100 = 0 then ano sdiv 100 else ano)"

definition domingo :: "int \<Rightarrow> int run" where
  "domingo ano =
     (let g = ano smod 19 + 1;
          c = ano sdiv 100 + 1;
          x = (3 * c) sdiv 4 - 12;
          z = (8 * c + 5) sdiv 25 - 5;
          e = (11 * g + 20 + z - x) smod 30;
          e = (if e = 25 \<and> g > 11 \<or> e = 24 then e + 1 else e);
          n = 44 - e;
          n = (if n < 21 then n + 30 else n)
      in bnd (i32 (5 * ano)) (\<lambda>ano5.
         let d = ano5 sdiv 4 - (x + 10)
         in bnd (i32 (d + n)) (\<lambda>u. ok (n + 7 - u smod 7))))"

definition semana_antes :: "int \<Rightarrow> int" where
  "semana_antes dsemana = (if dsemana = 1 then 7 else dsemana - 1)"

definition passo :: "int \<Rightarrow> int \<times> int \<times> int \<Rightarrow> int \<times> int \<times> int" where
  "passo m2 st =
     (let (dia, aux_m, dsemana) = st;
          (dia, aux_m, dsemana) =
            (if dia = 1 \<and> aux_m > 1 then
               let aux_m = aux_m - 1;
                   (dia, dsemana) = (if aux_m = 3 then (31, semana_antes dsemana) else (dia, dsemana));
                   (dia, dsemana) = (if aux_m = 2 then (m2, semana_antes dsemana) else (dia, dsemana));
                   (dia, dsemana) = (if aux_m = 1 then (31, semana_antes dsemana) else (dia, dsemana))
               in (dia, aux_m, dsemana)
             else (dia, aux_m, dsemana))
      in if dia \<noteq> 1 then
           if dsemana = 1 then (dia - 1, aux_m, 7) else (dia - 1, aux_m, dsemana - 1)
         else (dia, aux_m, dsemana))"

definition primeiro_janeiro :: "int \<Rightarrow> int \<times> int \<times> int \<Rightarrow> (int \<times> int \<times> int) run" where
  "primeiro_janeiro m2 st =
     loop (\<lambda>st. let (dia, aux_m, dsemana) = passo m2 st
       in ok (if aux_m \<noteq> 1 \<or> dia \<noteq> 1 then Inl (dia, aux_m, dsemana) else Inr (dia, aux_m, dsemana))) st"

section \<open>Part II: the matrices and the text\<close>

type_synonym matriz = "int option list list"

text \<open>Even months are kept in the second matrix.\<close>

definition cell :: "bool \<Rightarrow> int \<Rightarrow> int \<Rightarrow> int \<Rightarrow> matriz \<times> matriz \<Rightarrow> (matriz \<times> matriz) run" where
  "cell par i j v MM =
     (let (Mtx, Mtx2) = MM in
      if par then bnd (wr2 Mtx2 i j (Some v)) (\<lambda>Mtx2. ok (Mtx, Mtx2))
      else bnd (wr2 Mtx i j (Some v)) (\<lambda>Mtx. ok (Mtx, Mtx2)))"

definition encaixa :: "bool \<Rightarrow> int \<Rightarrow> int \<Rightarrow> matriz \<times> matriz \<Rightarrow> (matriz \<times> matriz) run" where
  "encaixa par semana_aux dia_aux MM =
     (if semana_aux \<noteq> 7 then
        for_up 0 1 (\<lambda>i. for_up 0 (semana_aux + 1) (\<lambda>j MM.
          if j \<noteq> semana_aux then cell par i j 0 MM else cell par i j dia_aux MM)) MM
      else cell par 0 0 dia_aux MM)"

definition coloca :: "bool \<Rightarrow> int \<Rightarrow> int \<Rightarrow> int \<Rightarrow> int \<times> int option \<times> matriz \<times> matriz \<Rightarrow>
    (int \<times> int option \<times> matriz \<times> matriz) run" where
  "coloca par Lim i j st =
     (let (dia_aux, modificador, MM) = st in
      if dia_aux < Lim then
        let dia_aux = dia_aux + 1 in
        bnd (cell par i j dia_aux MM) (\<lambda>MM.
        ok (dia_aux, if dia_aux = Lim then Some j else modificador, MM))
      else bnd (cell par i j 0 MM) (\<lambda>MM. ok (dia_aux, modificador, MM)))"

definition preenche :: "bool \<Rightarrow> int \<Rightarrow> int \<Rightarrow> int \<times> int option \<times> matriz \<times> matriz \<Rightarrow>
    (int \<times> int option \<times> matriz \<times> matriz) run" where
  "preenche par Lim semana_aux st =
     bnd (for_up 0 6 (\<lambda>i (semana_aux, st).
       let semana_aux = (if i \<noteq> 0 then 0 else semana_aux) in
       bnd (for_up semana_aux 7 (coloca par Lim i) st) (\<lambda>st. ok (semana_aux, st))) (semana_aux, st)) (\<lambda>(semana_aux, st).
     ok st)"

abbreviation c_cedilla :: string where "c_cedilla \<equiv> [CHR 0xC3, CHR 0xA7]"

definition regua :: string where
  "regua = ''|-----------------------------||-----------------------------|'' @ nl"

definition dias_semana :: string where
  "dias_semana = ''| dom seg ter qua qui sex sab || dom seg ter qua qui sex sab |'' @ nl"

definition cabecalho :: "int \<Rightarrow> string" where
  "cabecalho aux_m =
     (if aux_m = 2 then regua @ ''|Janeiro                      ||Fevereiro                    |'' @ nl @ regua @ dias_semana else []) @
     (if aux_m = 4 then regua @ ''|Mar'' @ c_cedilla @ ''o                        ||Abril                        |'' @ nl @ regua @ dias_semana else []) @
     (if aux_m = 6 then regua @ ''|Maio                         ||Junho                        |'' @ nl @ regua @ dias_semana else []) @
     (if aux_m = 8 then regua @ ''|Julho                        ||Agosto                       |'' @ nl @ regua @ dias_semana else []) @
     (if aux_m = 10 then regua @ ''|Setembro                     ||Outubro                      |'' @ nl @ regua @ dias_semana else []) @
     (if aux_m = 12 then regua @ ''|Novembro                     ||Dezembro                     |'' @ nl @ regua @ dias_semana else [])"

definition mostra :: "matriz \<Rightarrow> int \<Rightarrow> int \<Rightarrow> string \<Rightarrow> string run" where
  "mostra M k l t = bnd (rdi2 M k l) (\<lambda>v. ok (if v = 0 then t @ ''    '' else t @ ''  '' @ field0 2 v))"

definition linhas :: "matriz \<Rightarrow> matriz \<Rightarrow> string \<Rightarrow> string run" where
  "linhas Mtx Mtx2 t =
     for_up 0 6 (\<lambda>k t.
       bnd (for_up 0 7 (mostra Mtx k) (t @ ''|'')) (\<lambda>t.
       bnd (for_up 0 7 (mostra Mtx2 k) (t @ '' ||'')) (\<lambda>t. ok (t @ '' |'' @ nl)))) t"

definition limite :: "int \<Rightarrow> int \<Rightarrow> int \<Rightarrow> int" where
  "limite bis aux_m Lim =
     (if aux_m = 2 then if bis = 0 then 28 else 29
      else if aux_m = 3 then 31
      else if aux_m = 4 then 30
      else if aux_m = 5 then 31
      else if aux_m = 6 then 30
      else if aux_m = 7 then 31
      else if aux_m = 8 then 31
      else if aux_m = 9 then 30
      else if aux_m = 10 then 31
      else if aux_m = 11 then 30
      else if aux_m = 12 then 31
      else Lim)"

record folha =
  dia_aux :: int
  semana_aux :: int
  aux_mes :: int
  Lim :: int
  modificador :: "int option"
  Mtx :: matriz
  Mtx2 :: matriz
  texto :: string

definition um_mes :: "int \<Rightarrow> folha \<Rightarrow> folha run" where
  "um_mes bis f =
     (let par = (aux_mes f smod 2 = 0) in
      bnd (encaixa par (semana_aux f) (dia_aux f) (Mtx f, Mtx2 f)) (\<lambda>MM.
      let semana = (if semana_aux f \<noteq> 7 then semana_aux f + 1 else 0 + 1) in
      bnd (preenche par (Lim f) semana (dia_aux f, modificador f, MM)) (\<lambda>(dia, modif, M1, M2).
      bnd (if par then linhas M1 M2 (texto f @ cabecalho (aux_mes f)) else ok (texto f)) (\<lambda>t.
      bnd (need modif) (\<lambda>semana.
      let semana = (if semana = 6 then 0 else semana + 1);
          mes = aux_mes f + 1
      in ok \<lparr>dia_aux = 1, semana_aux = semana, aux_mes = mes, Lim = limite bis mes (Lim f),
             modificador = modif, Mtx = M1, Mtx2 = M2, texto = t\<rparr>)))))"

definition calendario_c_main :: "terminal \<Rightarrow> terminal run" where
  "calendario_c_main s =
     bnd (scan_int (say ''Digite um ano para gerar o calendario: '' s)) (\<lambda>(s, ano).
     bnd (need ano) (\<lambda>ano.
     let ano = ano_util ano;
         (bis, m2) = (if ano smod 4 = 0 then (1, 29) else (0, 28)) in
     bnd (domingo ano) (\<lambda>n.
     let (dia, aux_m) = (if n > 31 then (n - 31, 4) else (n, 3)) in
     bnd (primeiro_janeiro m2 (dia, aux_m, 7)) (\<lambda>(dia, aux_m, dsemana).
     bnd (loop (\<lambda>f. bnd (um_mes bis f) (\<lambda>f. ok (if aux_mes f \<noteq> 13 then Inl f else Inr f)))
       \<lparr>dia_aux = dia, semana_aux = dsemana, aux_mes = aux_m, Lim = 31, modificador = None,
        Mtx = uninit2 6 7, Mtx2 = uninit2 6 7, texto = ''Calendario do ano '' @ dec ano @ nl\<rparr>) (\<lambda>f.
     ok (say (texto f @ regua @ nl) s))))))"

section \<open>The walk back to 1 January\<close>

lemma domingo_clavius: "domingo ano = clavius ano"
  by (simp add: domingo_def clavius_def)

text \<open>\<open>dsemana\<close> is the day of the week of day number \<open>N\<close>, with 7 for Sunday.\<close>

definition codes :: "int \<Rightarrow> int \<Rightarrow> bool" where
  "codes dsemana N \<longleftrightarrow> 1 \<le> dsemana \<and> dsemana \<le> 7 \<and> dsemana mod 7 = N mod 7"

lemma codes_antes: "codes k N \<Longrightarrow> codes (semana_antes k) (N - 1)"
proof -
  assume k: "codes k N"
  then have "(k - 1) mod 7 = (N - 1) mod 7"
    by (intro mod_diff_cong) (simp_all add: codes_def)
  with k show ?thesis by (auto simp: codes_def semana_antes_def)
qed

definition back_inv :: "int \<Rightarrow> int \<times> int \<times> int \<Rightarrow> bool" where
  "back_inv y st = (case st of (dia, aux_m, dsemana) \<Rightarrow> 1 \<le> aux_m \<and> aux_m \<le> 4 \<and> 1 \<le> dia \<and>
     (1 < dia \<or> 1 < aux_m) \<and> codes dsemana (day_number (y, aux_m, dia)))"

lemma passo_back:
  assumes inv: "back_inv y (dia, aux_m, dsemana)" and m2: "m2 = month_len y 2"
  shows "case passo m2 (dia, aux_m, dsemana) of (dia', aux', ds') \<Rightarrow>
    1 \<le> aux' \<and> aux' \<le> 4 \<and> 1 \<le> dia' \<and> codes ds' (day_number (y, aux', dia')) \<and>
    days_before y aux' + dia' < days_before y aux_m + dia"
proof (cases "dia = 1")
  case True
  define k where "k = semana_antes dsemana"
  have a: "aux_m = 2 \<or> aux_m = 3 \<or> aux_m = 4" using inv True by (auto simp: back_inv_def)
  have b: "days_before y aux_m = days_before y (aux_m - 1) + month_len y (aux_m - 1)"
    using a days_before_step [of "aux_m - 1" y] by auto
  have c: "codes (semana_antes k) (day_number (y, aux_m, dia) - 1 - 1)"
    unfolding k_def using inv by (intro codes_antes) (simp add: back_inv_def)
  have "passo m2 (dia, aux_m, dsemana) = (month_len y (aux_m - 1) - 1, aux_m - 1, semana_antes k)"
    using a True leap_day_bounds [of y] by (auto simp: passo_def m2 k_def semana_antes_def)
  then show ?thesis
    using a b c True leap_day_bounds [of y] by (auto simp: algebra_simps)
next
  case False
  then have "passo m2 (dia, aux_m, dsemana) = (dia - 1, aux_m, semana_antes dsemana)"
    by (auto simp: passo_def semana_antes_def)
  moreover have "codes (semana_antes dsemana) (day_number (y, aux_m, dia) - 1)"
    using inv by (simp add: back_inv_def codes_antes)
  ultimately show ?thesis using inv False by (simp add: back_inv_def algebra_simps)
qed

lemma primeiro_janeiro_weekday:
  assumes "back_inv y st" "m2 = month_len y 2"
  shows "\<exists>ds. primeiro_janeiro m2 st = ok (1, 1, ds) \<and> codes ds (day_number (y, 1, 1))"
proof -
  have "wp (primeiro_janeiro m2 st) (\<lambda>r. \<exists>ds. r = (1, 1, ds) \<and> codes ds (day_number (y, 1, 1)))"
    unfolding primeiro_janeiro_def
  proof (rule wp_loop [where I = "back_inv y" and m = "\<lambda>(dia, aux_m, ds). nat (days_before y aux_m + dia)"])
    fix st assume inv: "back_inv y st"
    obtain dia aux_m ds where st: "st = (dia, aux_m, ds)" by (cases st)
    obtain dia' aux' ds' where p: "passo m2 st = (dia', aux', ds')" by (cases "passo m2 st")
    have q: "1 \<le> aux'" "aux' \<le> 4" "1 \<le> dia'" "codes ds' (day_number (y, aux', dia'))"
      "days_before y aux' + dia' < days_before y aux_m + dia"
      using passo_back [of y dia aux_m ds m2] inv assms(2) p by (simp_all add: st)
    have "0 \<le> days_before y aux'"
      by (auto simp: days_before_def month_len_def intro!: sum_list_nonneg)
    with q show "wp (let (dia, aux_m, dsemana) = passo m2 st
         in ok (if aux_m \<noteq> 1 \<or> dia \<noteq> 1 then Inl (dia, aux_m, dsemana) else Inr (dia, aux_m, dsemana)))
       (\<lambda>x. case x of Inl s' \<Rightarrow> back_inv y s' \<and> (case s' of (dia, aux_m, ds) \<Rightarrow> nat (days_before y aux_m + dia))
              < (case st of (dia, aux_m, ds) \<Rightarrow> nat (days_before y aux_m + dia))
          | Inr r \<Rightarrow> \<exists>ds. r = (1, 1, ds) \<and> codes ds (day_number (y, 1, 1)))"
      by (auto simp: p [unfolded st] st back_inv_def)
  qed (fact assms(1))
  then show ?thesis by (auto simp: wp_iff)
qed

text \<open>From the Sunday of Easter.\<close>

lemma from_easter:
  assumes "m2 = month_len y 2"
  shows "\<exists>ds. primeiro_janeiro m2 (snd (march_date (easter_march y)), fst (march_date (easter_march y)), 7) = ok (1, 1, ds)
    \<and> codes ds (day_number (y, 1, 1))"
proof (rule primeiro_janeiro_weekday [OF _ assms])
  let ?n = "easter_march y"
  have n: "22 \<le> ?n" "?n \<le> 56" by (rule easter_march_bounds)+
  have "day_number (y, fst (march_date ?n), snd (march_date ?n)) mod 7 = 0"
    using day_number_march_date [of ?n y] n sunday_after_Sunday [of y "paschal_moon y"]
    by (simp add: easter_march_def del: day_number.simps)
  with n show "back_inv y (snd (march_date ?n), fst (march_date ?n), 7)"
    by (auto simp: back_inv_def codes_def march_date_def simp del: day_number.simps)
qed

section \<open>The matrix of a month\<close>

definition mat67 :: "matriz \<Rightarrow> bool" where
  "mat67 M \<longleftrightarrow> len M = 6 \<and> (\<forall>row \<in> set M. len row = 7)"

text \<open>What stands in place \<open>c\<close> for a month of \<open>L\<close> days that begins in column \<open>w\<close>.\<close>

definition grid :: "int \<Rightarrow> int \<Rightarrow> int \<Rightarrow> int" where
  "grid w L c = (if w \<le> c \<and> c < w + L then c - w + 1 else 0)"

definition filled_to :: "int \<Rightarrow> int \<Rightarrow> int \<Rightarrow> matriz \<Rightarrow> bool" where
  "filled_to w L c M \<longleftrightarrow> mat67 M \<and>
     (\<forall>i j. 0 \<le> i \<and> i < 6 \<and> 0 \<le> j \<and> j < 7 \<and> 7 * i + j < c \<longrightarrow> at2 M i j = Some (grid w L (7 * i + j)))"

lemma mat67_row: "mat67 M \<Longrightarrow> 0 \<le> i \<Longrightarrow> i < 6 \<Longrightarrow> len (at M i) = 7"
  by (auto simp: mat67_def)

lemma wr2_67: "mat67 M \<Longrightarrow> 0 \<le> i \<Longrightarrow> i < 6 \<Longrightarrow> 0 \<le> j \<Longrightarrow> j < 7 \<Longrightarrow> wr2 M i j v = ok (upd2 M i j v)"
  using mat67_row [of M i] by (simp add: wr2_def upd2_def rd_in wr_in mat67_def)

lemma filled_step:
  assumes f: "filled_to w L (7 * i + j) M" and b: "0 \<le> i" "i < 6" "0 \<le> j" "j < 7"
  shows "filled_to w L (7 * i + j + 1) (upd2 M i j (Some (grid w L (7 * i + j))))"
proof -
  have M: "mat67 M" using f by (simp add: filled_to_def)
  have m: "mat67 (upd2 M i j v)" for v
    using M mat67_row [OF M b(1,2)] set_upd_subset [of M i "upd (at M i) j v"] by (auto simp: mat67_def upd2_def)
  have upd: "at2 (upd2 M i j v) k l = (if k = i \<and> l = j then v else at2 M k l)"
    if "0 \<le> k" "k < 6" "0 \<le> l" "l < 7" for k l v
    using M mat67_row [OF M b(1,2)] that b by (auto simp: at2_def upd2_def at_upd mat67_def)
  have one: "k = i \<and> l = j" if "7 * k + l = 7 * i + j" "0 \<le> l" "l < 7" for k l
    using that b(3,4) by presburger
  show ?thesis
    unfolding filled_to_def
  proof (intro conjI allI impI)
    show "mat67 (upd2 M i j (Some (grid w L (7 * i + j))))" by (rule m)
    fix k l assume k: "0 \<le> k \<and> k < 6 \<and> 0 \<le> l \<and> l < 7 \<and> 7 * k + l < 7 * i + j + 1"
    show "at2 (upd2 M i j (Some (grid w L (7 * i + j)))) k l = Some (grid w L (7 * k + l))"
    proof (cases "7 * k + l = 7 * i + j")
      case True
      with k one [of k l] upd show ?thesis by simp
    next
      case False
      with k have "at2 M k l = Some (grid w L (7 * k + l))" "\<not> (k = i \<and> l = j)"
        using f by (auto simp: filled_to_def)
      with k upd show ?thesis by simp
    qed
  qed
qed

definition sel :: "bool \<Rightarrow> matriz \<times> matriz \<Rightarrow> matriz" where
  "sel par MM = (if par then snd MM else fst MM)"

lemma cell_fill:
  assumes "filled_to w L (7 * i + j) (sel par MM)" "0 \<le> i" "i < 6" "0 \<le> j" "j < 7" "v = grid w L (7 * i + j)"
  shows "\<exists>MM'. cell par i j v MM = ok MM' \<and> filled_to w L (7 * i + j + 1) (sel par MM') \<and>
    sel (\<not> par) MM' = sel (\<not> par) MM"
proof -
  obtain M1 M2 where MM: "MM = (M1, M2)" by (cases MM)
  have "mat67 (sel par MM)" using assms(1) by (simp add: filled_to_def)
  from wr2_67 [OF this assms(2-5), of "Some v"] filled_step [OF assms(1-5)] show ?thesis
    by (cases par) (simp_all add: cell_def MM sel_def assms(6))
qed

lemma encaixa_fill:
  assumes w: "0 \<le> w" "w < 7" "semana = w \<or> semana = 7 \<and> w = 0" and L: "1 \<le> L" and M: "mat67 (sel par MM)"
  shows "wp (encaixa par semana 1 MM) (\<lambda>MM'. filled_to w L (w + 1) (sel par MM') \<and> sel (\<not> par) MM' = sel (\<not> par) MM)"
proof -
  have start: "filled_to w L 0 (sel par MM)" using M by (auto simp: filled_to_def)
  show ?thesis
  proof (cases "semana = 7")
    case True
    with w have "w = 0" by auto
    with cell_fill [of w L 0 0 par MM 1] start True L show ?thesis
      by (auto simp: encaixa_def grid_def)
  next
    case False
    with w have s: "semana = w" by auto
    have "wp (for_up 0 (w + 1) (\<lambda>j MM. if j \<noteq> w then cell par 0 j 0 MM else cell par 0 j 1 MM) MM)
      (\<lambda>MM'. filled_to w L (w + 1) (sel par MM') \<and> sel (\<not> par) MM' = sel (\<not> par) MM)"
    proof (rule wp_for_up [where I = "\<lambda>j MM'. filled_to w L j (sel par MM') \<and> sel (\<not> par) MM' = sel (\<not> par) MM"])
      fix j MM' assume j: "0 \<le> j" "j < w + 1" and I: "filled_to w L j (sel par MM') \<and> sel (\<not> par) MM' = sel (\<not> par) MM"
      have v: "(if j \<noteq> w then 0 else 1) = grid w L (7 * 0 + j)" using j L by (auto simp: grid_def)
      from cell_fill [of w L 0 j par MM', OF _ _ _ _ _ v] I j w
      show "wp (if j \<noteq> w then cell par 0 j 0 MM' else cell par 0 j 1 MM')
          (\<lambda>MM'. filled_to w L (j + 1) (sel par MM') \<and> sel (\<not> par) MM' = sel (\<not> par) MM)"
        by (auto simp: wp_iff split: if_splits)
    qed (use start w in auto)
    then show ?thesis using False by (simp add: encaixa_def s)
  qed
qed

text \<open>The state of the filling loop before place \<open>c\<close>.\<close>

definition month_placed :: "int \<Rightarrow> int \<Rightarrow> bool \<Rightarrow> int option \<Rightarrow> matriz \<Rightarrow> int \<Rightarrow> int \<times> int option \<times> matriz \<times> matriz \<Rightarrow> bool" where
  "month_placed w L par md M c st = (case st of (dia, modif, MM) \<Rightarrow>
     filled_to w L c (sel par MM) \<and> sel (\<not> par) MM = M \<and> dia = min L (c - w) \<and>
     modif = (if L \<le> c - w then Some ((w + L - 1) mod 7) else md))"

lemma coloca_month_placed:
  assumes st: "month_placed w L par md M (7 * i + j) st" and b: "0 \<le> i" "i < 6" "0 \<le> j" "j < 7" "w < 7 * i + j"
  shows "wp (coloca par L i j st) (month_placed w L par md M (7 * i + j + 1))"
proof -
  obtain dia modif MM where s: "st = (dia, modif, MM)" by (cases st)
  note p = st [unfolded month_placed_def s prod.case]
  show ?thesis
  proof (cases "dia < L")
    case True
    then have d: "dia = 7 * i + j - w" "7 * i + j - w < L" using p by auto
    then have "dia + 1 = grid w L (7 * i + j)" using b by (simp add: grid_def)
    from cell_fill [OF _ b(1-4) this, of par MM] p obtain MM' where
      "cell par i j (dia + 1) MM = ok MM'" "filled_to w L (7 * i + j + 1) (sel par MM')" "sel (\<not> par) MM' = M"
      by auto
    moreover have "(w + L - 1) mod 7 = j" if "dia + 1 = L"
    proof -
      have "w + L - 1 = j + 7 * i" using that d by simp
      then show ?thesis using b(3,4) by (simp only: mod_mult_self2 mod_pos_pos_trivial)
    qed
    ultimately show ?thesis
      using True p d by (auto simp: coloca_def s month_placed_def Let_def)
  next
    case False
    then have "L \<le> 7 * i + j - w" "dia = L" using p by auto
    moreover from this have "0 = grid w L (7 * i + j)" by (simp add: grid_def)
    from cell_fill [OF _ b(1-4) this, of par MM] p obtain MM' where
      "cell par i j 0 MM = ok MM'" "filled_to w L (7 * i + j + 1) (sel par MM')" "sel (\<not> par) MM' = M"
      by auto
    ultimately show ?thesis using p by (simp add: coloca_def s month_placed_def)
  qed
qed

lemma preenche_month_placed:
  assumes w: "0 \<le> w" "w < 7" and st: "month_placed w L par md M (w + 1) st"
  shows "wp (preenche par L (w + 1) st) (month_placed w L par md M 42)"
proof -
  let ?I = "\<lambda>i (s, st). if i = 0 then s = w + 1 \<and> month_placed w L par md M (w + 1) st else month_placed w L par md M (7 * i) st"
  have "wp (for_up 0 6 (\<lambda>i (sa, st). let sa = if i \<noteq> 0 then 0 else sa in
      bnd (for_up sa 7 (coloca par L i) st) (\<lambda>st. ok (sa, st))) (w + 1, st))
    (\<lambda>(s, st). month_placed w L par md M 42 st)"
  proof (rule wp_for_up [where I = ?I])
    fix i x assume i: "0 \<le> i" "i < (6::int)" and I: "?I i x"
    obtain s st where x: "x = (s, st)" by (cases x)
    define j0 where "j0 = (if i \<noteq> 0 then 0 else s)"
    have j0: "0 \<le> j0" "j0 \<le> 7" "w < 7 * i + j0" "month_placed w L par md M (7 * i + j0) st"
      using I i w by (auto simp: x j0_def split: if_splits)
    have "wp (for_up j0 7 (coloca par L i) st) (month_placed w L par md M (7 * i + 7))"
      by (rule wp_for_up [where I = "\<lambda>j. month_placed w L par md M (7 * i + j)"])
        (use j0 i coloca_month_placed [of w L par md M i] in \<open>auto simp: add.assoc max_def split: if_splits\<close>)
    then show "wp (case x of (sa, st) \<Rightarrow> let sa = if i \<noteq> 0 then 0 else sa in
        bnd (for_up sa 7 (coloca par L i) st) (\<lambda>st. ok (sa, st))) (?I (i + 1))"
      using i unfolding x prod.case Let_def j0_def [symmetric]
      by (simp add: algebra_simps)
  qed (use st in auto)
  then show ?thesis unfolding preenche_def by (simp add: case_prod_beta)
qed

section \<open>The text of the calendar\<close>

definition cell_text :: "int \<Rightarrow> int \<Rightarrow> int \<Rightarrow> string" where
  "cell_text w L c = (if grid w L c = 0 then ''    '' else ''  '' @ field0 2 (grid w L c))"

definition row_text :: "int \<Rightarrow> int \<Rightarrow> int \<Rightarrow> string" where
  "row_text w L k = concat (map (\<lambda>l. cell_text w L (7 * k + l)) [0..6])"

text \<open>The month \<open>m - 1\<close> and the even month \<open>m\<close>.\<close>

definition rows_text :: "int \<Rightarrow> int \<Rightarrow> string" where
  "rows_text y m = concat (map (\<lambda>k. ''|'' @ row_text (weekday (y, m - 1, 1)) (month_len y (m - 1)) k @ '' ||'' @
     row_text (weekday (y, m, 1)) (month_len y m) k @ '' |'' @ nl) [0..5])"

definition pages :: "int \<Rightarrow> int \<Rightarrow> string" where
  "pages y n = concat (map (\<lambda>i. cabecalho (2 * i) @ rows_text y (2 * i)) [1..n])"

lemma mostra_filled:
  assumes f: "filled_to w L 42 M" and k: "0 \<le> k" "k < 6" and l: "0 \<le> l" "l < 7"
  shows "mostra M k l t = ok (t @ cell_text w L (7 * k + l))"
proof -
  have M: "mat67 M" and at: "at2 M k l = Some (grid w L (7 * k + l))"
    using f k l by (auto simp: filled_to_def)
  have "rdi2 M k l = ok (grid w L (7 * k + l))"
    using at M mat67_row [OF M k] k l by (simp add: rdi2_def rdi_def rd_def mat67_def at2_def)
  then show ?thesis by (simp add: mostra_def cell_text_def)
qed

lemma linhas_filled:
  assumes "filled_to w L 42 M1" "filled_to w' L' 42 M2"
  shows "linhas M1 M2 t = ok (t @ concat (map (\<lambda>k. ''|'' @ row_text w L k @ '' ||'' @ row_text w' L' k @ '' |'' @ nl) [0..5]))"
proof -
  have row: "for_up 0 7 (mostra M k) t = ok (t @ row_text v K k)"
    if "filled_to v K 42 M" "0 \<le> k" "k < 6" for v K M k t
    using for_up_append [of 0 7 "mostra M k" "\<lambda>l. cell_text v K (7 * k + l)" t] mostra_filled [OF that]
    by (simp add: row_text_def)
  have "linhas M1 M2 t = ok (t @ concat (map (\<lambda>k. ''|'' @ row_text w L k @ '' ||'' @ row_text w' L' k @ '' |'' @ nl) [0..6 - 1]))"
    unfolding linhas_def
  proof (rule for_up_append)
    fix k t assume "0 \<le> k" "k < (6::int)"
    then show "bnd (for_up 0 7 (mostra M1 k) (t @ ''|'')) (\<lambda>t.
        bnd (for_up 0 7 (mostra M2 k) (t @ '' ||'')) (\<lambda>t. ok (t @ '' |'' @ nl))) =
      ok (t @ ''|'' @ row_text w L k @ '' ||'' @ row_text w' L' k @ '' |'' @ nl)"
      unfolding row [OF assms(1) \<open>0 \<le> k\<close> \<open>k < 6\<close>] row [OF assms(2) \<open>0 \<le> k\<close> \<open>k < 6\<close>] bnd_ok by simp
  qed
  then show ?thesis by simp
qed

lemma weekday_next_month: "1 \<le> m \<Longrightarrow> weekday (y, m + 1, 1) = (weekday (y, m, 1) + month_len y m) mod 7"
proof -
  assume "1 \<le> m"
  then have "day_number (y, m + 1, 1) = day_number (y, m, 1) + month_len y m" by (simp add: days_before_step)
  then show ?thesis unfolding weekday_def by (simp only: mod_add_left_eq)
qed

definition folha_inv :: "int \<Rightarrow> string \<Rightarrow> folha \<Rightarrow> bool" where
  "folha_inv y head f \<longleftrightarrow> 1 \<le> aux_mes f \<and> aux_mes f \<le> 13 \<and> dia_aux f = 1 \<and>
     (semana_aux f = weekday (y, aux_mes f, 1) \<or> semana_aux f = 7 \<and> weekday (y, aux_mes f, 1) = 0) \<and>
     (aux_mes f \<le> 12 \<longrightarrow> Lim f = month_len y (aux_mes f)) \<and> mat67 (Mtx f) \<and> mat67 (Mtx2 f) \<and>
     (aux_mes f mod 2 = 0 \<longrightarrow> filled_to (weekday (y, aux_mes f - 1, 1)) (month_len y (aux_mes f - 1)) 42 (Mtx f)) \<and>
     texto f = head @ pages y ((aux_mes f - 1) div 2)"

lemma limite_len:
  "1 \<le> m \<Longrightarrow> m \<le> 11 \<Longrightarrow> bis = leap_day y \<Longrightarrow> limite bis (m + 1) L = month_len y (m + 1)"
  by (elim month_cases [where m = m]) (simp_all add: limite_def leap_day_def)

lemma mod7_succ: "(if (a - 1) mod 7 = 6 then 0 else (a - 1) mod 7 + 1) = a mod 7" for a :: int
proof -
  define v where "v = (a - 1) mod 7"
  have "a mod 7 = (v + 1) mod 7" unfolding v_def by (simp add: mod_add_left_eq)
  moreover have "0 \<le> v" "v < 7" by (simp_all add: v_def)
  ultimately show ?thesis unfolding v_def [symmetric] by auto
qed

lemma um_mes_inv:
  assumes inv: "folha_inv y head f" and m: "aux_mes f \<le> 12" and bis: "bis = leap_day y"
  shows "wp (um_mes bis f) (\<lambda>f'. folha_inv y head f' \<and> aux_mes f' = aux_mes f + 1)"
proof -
  define m w L par where "m = aux_mes f" and "w = weekday (y, m, 1)" and "L = month_len y m" and "par = (m mod 2 = 0)"
  note I = inv [unfolded folha_inv_def, folded m_def, folded w_def]
  have w: "0 \<le> w" "w < 7" by (simp_all add: w_def weekday_bounds)
  have L: "28 \<le> L" "L \<le> 31" by (simp_all add: L_def month_len_def)
  have lim: "Lim f = L" and dia: "dia_aux f = 1" using I m by (auto simp: L_def m_def)
  have even: "(m smod 2 = 0) = par"
    using I by (simp add: par_def m_def smod_nonneg)
  have M: "mat67 (sel p (Mtx f, Mtx2 f))" for p using I by (simp add: sel_def)
  have s: "semana_aux f = w \<or> semana_aux f = 7 \<and> w = 0" using I by auto
  have s1: "(if semana_aux f \<noteq> 7 then semana_aux f + 1 else 0 + 1) = w + 1"
    using s w by auto
  obtain MM where e: "encaixa par (semana_aux f) 1 (Mtx f, Mtx2 f) = ok MM"
    "filled_to w L (w + 1) (sel par MM)" "sel (\<not> par) MM = sel (\<not> par) (Mtx f, Mtx2 f)"
    using encaixa_fill [OF w s _ M, of L par] L by (auto simp: wp_iff)
  have "month_placed w L par (modificador f) (sel (\<not> par) MM) (w + 1) (1, modificador f, MM)"
    using e(2) L by (simp add: month_placed_def)
  from preenche_month_placed [OF w this] obtain d md M1 M2 where p: "preenche par L (w + 1) (1, modificador f, MM) = ok (d, md, M1, M2)"
    "month_placed w L par (modificador f) (sel (\<not> par) MM) 42 (d, md, M1, M2)"
    by (auto simp: wp_iff)
  then have full: "filled_to w L 42 (sel par (M1, M2))" "sel (\<not> par) (M1, M2) = sel (\<not> par) (Mtx f, Mtx2 f)"
    and md: "md = Some ((w + L - 1) mod 7)"
    using w L e(3) by (auto simp: month_placed_def)
  have nm: "mat67 M1" "mat67 M2"
    using full M [of "\<not> par"] unfolding filled_to_def by (cases par; simp add: sel_def)+
  define next_w where "next_w = weekday (y, m + 1, 1)"
  have nw: "(if (w + L - 1) mod 7 = 6 then 0 else (w + L - 1) mod 7 + 1) = next_w"
  proof -
    have "1 \<le> m" using I by simp
    then have "next_w = (w + L) mod 7"
      unfolding next_w_def w_def L_def by (rule weekday_next_month)
    then show ?thesis by (simp add: mod7_succ)
  qed
  have shown: "(if par then linhas M1 M2 (texto f @ cabecalho m) else ok (texto f)) = ok (head @ pages y (m div 2))"
  proof (cases par)
    case True
    then have "filled_to (weekday (y, m - 1, 1)) (month_len y (m - 1)) 42 M1"
      using I full by (simp add: par_def sel_def)
    moreover have "filled_to w L 42 M2" using True full by (simp add: sel_def)
    ultimately have "linhas M1 M2 t = ok (t @ rows_text y m)" for t
      by (simp add: linhas_filled rows_text_def w_def L_def)
    moreover obtain i where i: "m = 2 * i" using True unfolding par_def by (metis mod_0_imp_dvd dvdE)
    moreover have "1 \<le> i" using I i by simp
    moreover have "(2 * i - 1) div 2 = i - 1" by presburger
    ultimately show ?thesis
      using True I by (simp add: pages_def upto_rec2 [of 1 i])
  next
    case False
    then have "(m - 1) div 2 = m div 2" unfolding par_def by presburger
    with False I show ?thesis by simp
  qed
  have "um_mes bis f = ok \<lparr>dia_aux = 1, semana_aux = next_w, aux_mes = m + 1, Lim = limite bis (m + 1) L,
      modificador = md, Mtx = M1, Mtx2 = M2, texto = head @ pages y (m div 2)\<rparr>"
    unfolding um_mes_def Let_def dia lim s1 m_def [symmetric]
    unfolding even e(1) bnd_ok p(1) prod.case shown
    by (simp add: md nw)
  moreover have "m + 1 \<le> 12 \<longrightarrow> limite bis (m + 1) L = month_len y (m + 1)"
    using limite_len [OF _ _ bis, of m L] I by simp
  moreover have "(m + 1) mod 2 = 0 \<longrightarrow> filled_to (weekday (y, m, 1)) (month_len y m) 42 M1"
  proof
    assume "(m + 1) mod 2 = 0"
    then have "\<not> par" unfolding par_def by presburger
    with full show "filled_to (weekday (y, m, 1)) (month_len y m) 42 M1" by (simp add: sel_def w_def L_def)
  qed
  ultimately show ?thesis
    using I m nm by (simp add: folha_inv_def next_w_def m_def)
qed

section \<open>The program\<close>

definition ano_do_calendario :: "int \<Rightarrow> int" where
  "ano_do_calendario y = (if 100 dvd y then y div 100 else y)"

lemma ano_util_eq: "0 \<le> y \<Longrightarrow> ano_util y = ano_do_calendario y"
  by (simp add: ano_util_def ano_do_calendario_def smod_nonneg sdiv_nonneg dvd_eq_mod_eq_0)

lemma ano_bounds:
  assumes "0 \<le> y" "y < 8600"
  shows "0 \<le> ano_do_calendario y" "ano_do_calendario y < 8600"
  using assms by (auto simp: ano_do_calendario_def pos_imp_zdiv_nonneg_iff)

text \<open>The year that is left is no century, so that the rule of the fours is the rule of the calendar.\<close>

lemma leap_ano:
  assumes "0 \<le> y" "y < 8600"
  shows "leap (ano_do_calendario y) \<longleftrightarrow> ano_do_calendario y smod 4 = 0"
proof -
  have "\<not> 100 dvd ano_do_calendario y \<or> ano_do_calendario y = 0"
  proof (cases "100 dvd y")
    case True
    then obtain k where "y = 100 * k" by (auto elim: dvdE)
    with assms have "ano_do_calendario y = k" "0 \<le> k" "k < 86" by (simp_all add: ano_do_calendario_def)
    then show ?thesis using zdvd_imp_le [of 100 k] by auto
  qed (simp add: ano_do_calendario_def)
  then have "leap (ano_do_calendario y) \<longleftrightarrow> 4 dvd ano_do_calendario y"
    by (elim disjE) (simp_all add: leap_def)
  then show ?thesis
    using ano_bounds [OF assms] by (simp only: smod_nonneg dvd_eq_mod_eq_0)
qed

lemma uninit_67: "mat67 (uninit2 6 7)"
  by (simp add: mat67_def uninit2_def uninit_def)

text \<open>The twelve months.\<close>

lemma folhas_ok:
  assumes inv: "folha_inv y head f" "aux_mes f \<le> 12" and bis: "bis = leap_day y"
  shows "wp (loop (\<lambda>f. bnd (um_mes bis f) (\<lambda>f. ok (if aux_mes f \<noteq> 13 then Inl f else Inr f))) f)
    (\<lambda>f'. texto f' = head @ pages y 6)"
proof (rule wp_loop [where I = "\<lambda>f. folha_inv y head f \<and> aux_mes f \<le> 12" and m = "\<lambda>f. nat (13 - aux_mes f)"])
  fix f assume f: "folha_inv y head f \<and> aux_mes f \<le> 12"
  with um_mes_inv [of y head f bis] bis obtain f' where
    "um_mes bis f = ok f'" "folha_inv y head f'" "aux_mes f' = aux_mes f + 1"
    by (auto simp: wp_iff)
  with f show "wp (bnd (um_mes bis f) (\<lambda>f. ok (if aux_mes f \<noteq> 13 then Inl f else Inr f)))
      (\<lambda>x. case x of Inl s' \<Rightarrow> (folha_inv y head s' \<and> aux_mes s' \<le> 12) \<and> nat (13 - aux_mes s') < nat (13 - aux_mes f)
         | Inr r \<Rightarrow> texto r = head @ pages y 6)"
    by (auto simp: folha_inv_def)
qed (use inv in auto)

text \<open>
  C15: the program prints the twelve months of the year in six pages of two, every day under the
  name of its day of the week.  The year is the one typed, except that a year divisible by 100 is
  replaced by its hundredth.
\<close>

theorem calendario_c_prints:
  assumes "0 \<le> y" "y < 8600" "tin s = dec y @ nl @ r"
  shows "calendario_c_main s = ok (say (''Digite um ano para gerar o calendario: '' @
      ''Calendario do ano '' @ dec (ano_do_calendario y) @ nl @ pages (ano_do_calendario y) 6 @ regua @ nl)
    (s\<lparr>tin := nl @ r\<rparr>))"
proof -
  define Y where "Y = ano_do_calendario y"
  note Y = ano_bounds [OF assms(1,2), folded Y_def]
  define head where "head = ''Calendario do ano '' @ dec Y @ nl"
  define bis where "bis = leap_day Y"
  have bm: "(if Y smod 4 = 0 then (1, 29) else (0, 28)) = (bis, month_len Y 2)"
    using leap_ano [OF assms(1,2), folded Y_def] by (simp add: bis_def leap_day_def)
  have sc: "scan_int (say u s) = ok (say u (s\<lparr>tin := nl @ r\<rparr>), Some y)" for u
    using scan_int_line [of y "say u s" r] assms by (simp add: say_def)
  have md: "(if easter_march Y > 31 then (easter_march Y - 31, 4) else (easter_march Y, 3)) =
      (snd (march_date (easter_march Y)), fst (march_date (easter_march Y)))"
    by (simp add: march_date_def)
  obtain ds where ds: "primeiro_janeiro (month_len Y 2)
      (snd (march_date (easter_march Y)), fst (march_date (easter_march Y)), 7) = ok (1, 1, ds)"
    "codes ds (day_number (Y, 1, 1))"
    using from_easter by blast
  define f where "f = \<lparr>dia_aux = 1, semana_aux = ds, aux_mes = 1, Lim = 31, modificador = None,
    Mtx = uninit2 6 7, Mtx2 = uninit2 6 7, texto = head\<rparr>"
  have w: "weekday (Y, 1, 1) = ds mod 7" "1 \<le> ds" "ds \<le> 7"
    using ds(2) by (simp_all add: weekday_def codes_def)
  have dw: "ds = ds mod 7 \<or> ds = 7 \<and> ds mod 7 = 0" using w by (cases "ds = 7") simp_all
  have "folha_inv Y head f"
    using w dw uninit_67 by (simp add: folha_inv_def f_def pages_def)
  from folhas_ok [OF this _ bis_def] obtain f' where
    f': "loop (\<lambda>f. bnd (um_mes bis f) (\<lambda>f. ok (if aux_mes f \<noteq> 13 then Inl f else Inr f))) f = ok f'"
    "texto f' = head @ pages Y 6"
    by (auto simp: wp_iff f_def)
  show ?thesis
    unfolding calendario_c_main_def sc bnd_ok prod.case need_Some Let_def ano_util_eq [OF assms(1)]
    unfolding Y_def [symmetric] bm domingo_clavius clavius_easter [OF Y] bnd_ok prod.case md ds(1)
    unfolding head_def [symmetric] f_def [symmetric] f'(1) bnd_ok
    by (simp add: f'(2) head_def say_def)
qed

text \<open>For 2000 the calendar is that of the year 20; its first page begins with the Wednesday 1 January 20.\<close>

theorem calendario_c_prints_witness:
  "\<exists>p. calendario_c_main \<lparr>tin = ''2000'' @ nl, tout = []\<rparr> = ok \<lparr>tin = nl,
     tout = ''Digite um ano para gerar o calendario: Calendario do ano 20'' @ nl @ regua @
       ''|Janeiro                      ||Fevereiro                    |'' @ nl @ regua @
       ''| dom seg ter qua qui sex sab || dom seg ter qua qui sex sab |'' @ nl @
       ''|              01  02  03  04 ||                          01 |'' @ nl @ p\<rparr>"
proof -
  have "ano_do_calendario 2000 = 20" by code_simp
  moreover have "dec 2000 = ''2000''" "dec 20 = ''20''" by (simp_all add: dec_def)
  moreover have "weekday (20, 1, 1) = 3" "weekday (20, 2, 1) = 6" "month_len 20 1 = 31" "month_len 20 2 = 29"
    by code_simp+
  moreover have "row_text 3 31 0 = ''              01  02  03  04''" "row_text 6 29 0 = ''                          01''"
    by code_simp+
  moreover have "pages 20 6 = cabecalho 2 @ rows_text 20 2 @ concat (map (\<lambda>i. cabecalho (2 * i) @ rows_text 20 (2 * i)) [2..6])"
    using upto_rec1 [of 1 "6::int"] by (simp add: pages_def)
  moreover have "\<exists>q. rows_text 20 2 = ''|'' @ row_text (weekday (20, 1, 1)) (month_len 20 1) 0 @ '' ||'' @
      row_text (weekday (20, 2, 1)) (month_len 20 2) 0 @ '' |'' @ nl @ q"
    using upto_rec1 [of 0 "5::int"] by (simp add: rows_text_def)
  moreover have "cabecalho 2 = regua @ ''|Janeiro                      ||Fevereiro                    |'' @ nl @ regua @ dias_semana"
    by (simp add: cabecalho_def)
  ultimately show ?thesis
    using calendario_c_prints [of 2000 "\<lparr>tin = ''2000'' @ nl, tout = []\<rparr>" "[]"]
    by (auto simp: say_def dias_semana_def)
qed

end
