(* ===== verification/Graph_Paths.thy ===== *)
theory Graph_Paths
  imports Cxx_Array Cxx_Console
begin

text \<open>
  Graphs as arrays of adjacency lists: \<open>DataStructure/grafos/grafo3.cxx\<close> (degrees and
  neighbours) and \<open>grafo4.cxx\<close> (all paths between two vertices, by backtracking).  The
  specification is \<open>simple_path\<close>: the program prints every simple path, and each of them once
  when no arc is doubled.
\<close>

section \<open>The graph of grafo3\<close>

record grafo =
  n_vert :: int
  adj :: "int list list"

definition Grafo3 :: "int \<Rightarrow> grafo" where
  "Grafo3 V = \<lparr>n_vert = V, adj = replicate (nat V) []\<rparr>"

definition adicionarAresta3 :: "grafo \<Rightarrow> int \<Rightarrow> int \<Rightarrow> grafo run" where
  "adicionarAresta3 g v1 v2 =
     bnd (rd (adj g) v1) (\<lambda>l. bnd (wr (adj g) v1 (l @ [v2])) (\<lambda>a. ok (g\<lparr>adj := a\<rparr>)))"

definition obterGrauDeSaida :: "grafo \<Rightarrow> int \<Rightarrow> int run" where
  "obterGrauDeSaida g v = bnd (rd (adj g) v) (\<lambda>l. ok (len l))"

definition existeVizinho :: "grafo \<Rightarrow> int \<Rightarrow> int \<Rightarrow> bool run" where
  "existeVizinho g v1 v2 = bnd (rd (adj g) v1) (\<lambda>l. ok (List.find (\<lambda>x. x = v2) l \<noteq> None))"

definition grafo3_main :: "string run" where
  "grafo3_main =
     bnd (adicionarAresta3 (Grafo3 4) 0 1) (\<lambda>g.
     bnd (adicionarAresta3 g 0 3) (\<lambda>g.
     bnd (adicionarAresta3 g 1 2) (\<lambda>g.
     bnd (adicionarAresta3 g 3 1) (\<lambda>g.
     bnd (adicionarAresta3 g 3 2) (\<lambda>g.
     bnd (obterGrauDeSaida g 1) (\<lambda>a.
     bnd (obterGrauDeSaida g 3) (\<lambda>b.
     bnd (existeVizinho g 0 1) (\<lambda>c.
     bnd (existeVizinho g 0 2) (\<lambda>d.
     ok (''Grau de saida do vertice 1: '' @ dec a @ nl @ ''Grau de saida do vertice 3: '' @ dec b @
       (if c then nl @ nl @ ''1 eh vizinho de 0'' @ nl else nl @ nl @ ''1 NAO eh vizinho de 0'' @ nl) @
       (if d then ''2 eh vizinho de 0'' @ nl else ''2 NAO eh vizinho de 0'' @ nl)))))))))))"

section \<open>The graph of grafo4\<close>

definition Graph4 :: "int \<Rightarrow> grafo" where
  "Graph4 V = \<lparr>n_vert = V, adj = replicate (nat V) []\<rparr>"

definition addEdge4 :: "grafo \<Rightarrow> int \<Rightarrow> int \<Rightarrow> grafo run" where
  "addEdge4 g u v =
     bnd (rd (adj g) u) (\<lambda>l. bnd (wr (adj g) u (l @ [v])) (\<lambda>a. ok (g\<lparr>adj := a\<rparr>)))"

text \<open>The arrays the backtracking works on, and what it has printed.\<close>

record trilha =
  visited :: "bool option list"
  path :: "int option list"
  path_index :: int
  shown :: string

lemma for_each_mono [partial_function_mono]:
  assumes "\<And>x s. mono_option (\<lambda>f. F f x s)"
  shows "mono_option (\<lambda>f. for_each (F f) xs s)"
  by (induction xs arbitrary: s) (simp_all add: bnd_mono assms monotoneI flat_ord_def)

partial_function (option) printAllPathsUtil :: "grafo \<Rightarrow> int \<Rightarrow> int \<Rightarrow> trilha \<Rightarrow> trilha run" where
  "printAllPathsUtil g u d s =
     bnd (wr (visited s) u (Some True)) (\<lambda>m.
     bnd (wr (path s) (path_index s) (Some u)) (\<lambda>p.
     bnd (ok (s\<lparr>visited := m, path := p, path_index := path_index s + 1\<rparr>)) (\<lambda>s.
     bnd (if u = d then
            bnd (for_up 0 (path_index s) (\<lambda>i t. bnd (rdi (path s) i) (\<lambda>x. ok (t @ dec x @ '' ''))) (shown s)) (\<lambda>t.
            ok (s\<lparr>shown := t @ nl\<rparr>))
          else
            bnd (rd (adj g) u) (\<lambda>l.
            for_each (\<lambda>v s. bnd (rdi (visited s) v) (\<lambda>b. if \<not> b then printAllPathsUtil g v d s else ok s)) l s)) (\<lambda>s.
     bnd (wr (visited s) u (Some False)) (\<lambda>m.
     ok (s\<lparr>path_index := path_index s - 1, visited := m\<rparr>))))))"

definition printAllPaths :: "grafo \<Rightarrow> int \<Rightarrow> int \<Rightarrow> string \<Rightarrow> string run" where
  "printAllPaths g s d t =
     bnd (for_up 0 (n_vert g) (\<lambda>i m. wr m i (Some False)) (uninit (n_vert g))) (\<lambda>m.
     bnd (printAllPathsUtil g s d \<lparr>visited = m, path = uninit (n_vert g), path_index = 0, shown = t\<rparr>) (\<lambda>s.
     ok (shown s)))"

definition grafo4_main :: "string run" where
  "grafo4_main =
     bnd (addEdge4 (Graph4 4) 0 1) (\<lambda>g.
     bnd (addEdge4 g 0 2) (\<lambda>g.
     bnd (addEdge4 g 0 3) (\<lambda>g.
     bnd (addEdge4 g 2 0) (\<lambda>g.
     bnd (addEdge4 g 2 1) (\<lambda>g.
     bnd (addEdge4 g 1 3) (\<lambda>g.
     printAllPaths g 2 3 (''Following are all different paths from '' @ dec 2 @ '' to '' @ dec 3 @ nl)))))))"

section \<open>Simple paths\<close>

fun walk :: "int list list \<Rightarrow> int list \<Rightarrow> bool" where
  "walk a (x # y # zs) \<longleftrightarrow> y \<in> set (at a x) \<and> walk a (y # zs)"
| "walk a _ \<longleftrightarrow> True"

definition simple_path :: "int list list \<Rightarrow> int \<Rightarrow> int \<Rightarrow> int list \<Rightarrow> bool" where
  "simple_path a u d p \<longleftrightarrow> p \<noteq> [] \<and> hd p = u \<and> last p = d \<and> distinct p \<and> walk a p"

lemma walk_Cons: "walk a (x # ys) \<longleftrightarrow> ys = [] \<or> hd ys \<in> set (at a x) \<and> walk a ys"
  by (cases ys) auto

lemma simple_path_end: "simple_path a d d p \<longleftrightarrow> p = [d]"
  by (cases p) (auto simp: simple_path_def split: if_splits)

lemma simple_path_step:
  assumes "u \<noteq> d"
  shows "simple_path a u d p \<longleftrightarrow> (\<exists>v q. p = u # q \<and> v \<in> set (at a u) \<and> u \<notin> set q \<and> simple_path a v d q)"
  using assms by (cases p) (auto simp: simple_path_def walk_Cons split: if_splits)

definition arcs_inside :: "grafo \<Rightarrow> bool" where
  "arcs_inside g \<longleftrightarrow> len (adj g) = n_vert g \<and> (\<forall>l \<in> set (adj g). \<forall>v \<in> set l. 0 \<le> v \<and> v < n_vert g)"

lemma arcs_insideD:
  "arcs_inside g \<Longrightarrow> 0 \<le> u \<Longrightarrow> u < n_vert g \<Longrightarrow> v \<in> set (at (adj g) u) \<Longrightarrow> 0 \<le> v \<and> v < n_vert g"
  unfolding arcs_inside_def by (metis at_in_set)

text \<open>The state with the path \<open>w\<close> on its way.\<close>

definition on_way :: "grafo \<Rightarrow> int list \<Rightarrow> trilha \<Rightarrow> bool" where
  "on_way g w s \<longleftrightarrow> distinct w \<and> (\<forall>x \<in> set w. 0 \<le> x \<and> x < n_vert g) \<and>
     len (visited s) = n_vert g \<and> (\<forall>x. 0 \<le> x \<and> x < n_vert g \<longrightarrow> at (visited s) x = Some (x \<in> set w)) \<and>
     len (path s) = n_vert g \<and> path_index s = len w \<and>
     (\<forall>i. 0 \<le> i \<and> i < len w \<longrightarrow> at (path s) i = Some (at w i))"

text \<open>A list of texts: what is printed for the paths \<open>w @ p\<close>, and which \<open>p\<close> these are.\<close>

definition prints_paths :: "grafo \<Rightarrow> int \<Rightarrow> int list \<Rightarrow> (int list \<Rightarrow> bool) \<Rightarrow> string \<Rightarrow> string \<Rightarrow> bool" where
  "prints_paths g d w P t t' \<longleftrightarrow> (\<exists>ps. t' = t @ concat (map (\<lambda>p. blanks (w @ p) @ nl) ps) \<and>
     set ps = Collect P \<and> ((\<forall>l \<in> set (adj g). distinct l) \<longrightarrow> distinct ps))"

lemma on_way_room:
  assumes "on_way g w s" "0 \<le> u" "u < n_vert g" "u \<notin> set w"
  shows "len w < n_vert g"
proof -
  have "card (set (u # w)) \<le> card {0..<n_vert g}"
    using assms by (intro card_mono) (auto simp: on_way_def)
  moreover have "distinct (u # w)" using assms by (auto simp: on_way_def)
  ultimately show ?thesis using assms(2,3) by (simp only: distinct_card) simp
qed

lemma at_snoc: "0 \<le> i \<Longrightarrow> i < 1 + len w \<Longrightarrow> at (w @ [u]) i = (if i < len w then at w i else u)"
  by (auto simp: at_def nth_append)

lemma on_way_push:
  assumes "on_way g w s" "0 \<le> u" "u < n_vert g" "u \<notin> set w"
  shows "on_way g (w @ [u]) (s\<lparr>visited := upd (visited s) u (Some True),
    path := upd (path s) (path_index s) (Some u), path_index := path_index s + 1\<rparr>)"
  using assms on_way_room [OF assms] by (auto simp: on_way_def at_upd at_snoc)

lemma on_way_pop:
  assumes "on_way g (w @ [u]) s"
  shows "on_way g w (s\<lparr>path_index := path_index s - 1, visited := upd (visited s) u (Some False)\<rparr>)"
  using assms by (auto simp: on_way_def at_upd at_snoc)

lemma on_way_shown [simp]: "on_way g w (s\<lparr>shown := t\<rparr>) \<longleftrightarrow> on_way g w s"
  by (simp add: on_way_def)

lemma concat_at: "concat (map (\<lambda>i. f (at w i)) [0..len w - 1]) = concat (map f w)"
proof (induction w rule: rev_induct)
  case (snoc x xs)
  have u: "[0..len (xs @ [x]) - 1] = [0..len xs - 1] @ [len xs]" using upto_rec2 [of 0 "len xs"] by simp
  have "map (\<lambda>i. f (at (xs @ [x]) i)) [0..len xs - 1] = map (\<lambda>i. f (at xs i)) [0..len xs - 1]"
    by (auto simp: at_snoc)
  then show ?case using snoc at_snoc [of "len xs" xs x] unfolding u map_append by (simp only: concat_append) simp
qed simp

lemma show_path:
  assumes "on_way g w s"
  shows "for_up 0 (path_index s) (\<lambda>i t. bnd (rdi (path s) i) (\<lambda>x. ok (t @ dec x @ '' ''))) t = ok (t @ blanks w)"
proof -
  have "for_up 0 (len w) (\<lambda>i t. bnd (rdi (path s) i) (\<lambda>x. ok (t @ dec x @ '' ''))) t =
      ok (t @ concat (map (\<lambda>i. dec (at w i) @ '' '') [0..len w - 1]))"
  proof (rule for_up_append)
    fix i t assume i: "0 \<le> i" "i < len w"
    have "len w \<le> n_vert g"
    proof -
      have "card (set w) \<le> card {0..<n_vert g}" using assms by (intro card_mono) (auto simp: on_way_def)
      then show ?thesis using assms i by (simp add: on_way_def distinct_card)
    qed
    then have "rdi (path s) i = ok (at w i)"
      using assms i by (simp add: on_way_def rdi_def rd_in)
    then show "bnd (rdi (path s) i) (\<lambda>x. ok (t @ dec x @ '' '')) = ok (t @ dec (at w i) @ '' '')" by simp
  qed
  then show ?thesis using assms by (simp add: on_way_def concat_at [of "\<lambda>x. dec x @ '' ''"] blanks_def)
qed

lemma prints_more:
  assumes "prints_paths g d w P t t'" "prints_paths g d (w @ [u]) Q t' t''"
    and "\<And>p. P p \<Longrightarrow> \<exists>v q. p = u # v # q \<and> v \<in> V" "\<And>p. Q p \<Longrightarrow> \<exists>q. p = y # q"
    and "(\<forall>l \<in> set (adj g). distinct l) \<Longrightarrow> y \<notin> V"
  shows "prints_paths g d w (\<lambda>p. P p \<or> (\<exists>q. p = u # q \<and> Q q)) t t''"
proof -
  obtain ps qs where ps: "t' = t @ concat (map (\<lambda>p. blanks (w @ p) @ nl) ps)" "set ps = Collect P"
      "(\<forall>l \<in> set (adj g). distinct l) \<longrightarrow> distinct ps"
    and qs: "t'' = t' @ concat (map (\<lambda>p. blanks ((w @ [u]) @ p) @ nl) qs)" "set qs = Collect Q"
      "(\<forall>l \<in> set (adj g). distinct l) \<longrightarrow> distinct qs"
    using assms(1,2) unfolding prints_paths_def by blast
  have "distinct (ps @ map ((#) u) qs)" if "\<forall>l \<in> set (adj g). distinct l"
    using ps(2,3) qs(2,3) that assms(3-5) by (fastforce simp: distinct_map)
  then show ?thesis
    using ps qs unfolding prints_paths_def
    by (intro exI [of _ "ps @ map ((#) u) qs"]) (auto simp: comp_def)
qed

lemma printAllPathsUtil_ok:
  assumes g: "arcs_inside g"
  shows "on_way g w s \<Longrightarrow> 0 \<le> u \<Longrightarrow> u < n_vert g \<Longrightarrow> u \<notin> set w \<Longrightarrow>
    wp (printAllPathsUtil g u d s) (\<lambda>s'. on_way g w s' \<and>
      prints_paths g d w (\<lambda>p. simple_path (adj g) u d p \<and> set p \<inter> set w = {}) (shown s) (shown s'))"
proof (induction "nat (n_vert g - len w)" arbitrary: w s u rule: less_induct)
  case less
  note room = on_way_room [OF less.prems]
  define s1 where "s1 = s\<lparr>visited := upd (visited s) u (Some True), path := upd (path s) (path_index s) (Some u),
    path_index := path_index s + 1\<rparr>"
  have s1: "on_way g (w @ [u]) s1" unfolding s1_def by (rule on_way_push [OF less.prems])
  have start: "printAllPathsUtil g u d s = bnd (if u = d then
            bnd (for_up 0 (path_index s1) (\<lambda>i t. bnd (rdi (path s1) i) (\<lambda>x. ok (t @ dec x @ '' ''))) (shown s1)) (\<lambda>t.
            ok (s1\<lparr>shown := t @ nl\<rparr>))
          else
            bnd (rd (adj g) u) (\<lambda>l.
            for_each (\<lambda>v s. bnd (rdi (visited s) v) (\<lambda>b. if \<not> b then printAllPathsUtil g v d s else ok s)) l s1)) (\<lambda>s.
     bnd (wr (visited s) u (Some False)) (\<lambda>m.
     ok (s\<lparr>path_index := path_index s - 1, visited := m\<rparr>)))"
  proof -
    have "wr (visited s) u (Some True) = ok (upd (visited s) u (Some True))"
      "wr (path s) (path_index s) (Some u) = ok (upd (path s) (path_index s) (Some u))"
      using less.prems room by (simp_all add: wr_in on_way_def)
    then show ?thesis unfolding printAllPathsUtil.simps [of g u d s] by (simp only: bnd_ok s1_def)
  qed
  have fin: "wp (bnd m (\<lambda>s. bnd (wr (visited s) u (Some False)) (\<lambda>m. ok (s\<lparr>path_index := path_index s - 1, visited := m\<rparr>))))
      (\<lambda>s'. on_way g w s' \<and> Q (shown s'))" if "wp m (\<lambda>s'. on_way g (w @ [u]) s' \<and> Q (shown s'))" for m Q
    unfolding wp_bnd
  proof (rule wp_conseq [OF that], elim conjE)
    fix s' assume "on_way g (w @ [u]) s'" "Q (shown s')"
    with on_way_pop [OF this(1)] less.prems
    show "wp (wr (visited s') u (Some False)) (\<lambda>m. wp (ok (s'\<lparr>path_index := path_index s' - 1, visited := m\<rparr>))
        (\<lambda>s'. on_way g w s' \<and> Q (shown s')))" by (simp add: on_way_def [of g "w @ [u]"])
  qed
  show ?case
  proof (cases "u = d")
    case True
    have "prints_paths g d w (\<lambda>p. simple_path (adj g) u d p \<and> set p \<inter> set w = {}) (shown s) (shown s @ blanks (w @ [u]) @ nl)"
      unfolding prints_paths_def using True less.prems by (intro exI [of _ "[[d]]"]) (auto simp: simple_path_end)
    moreover have "on_way g (w @ [u]) (s1\<lparr>shown := shown s @ blanks (w @ [u]) @ nl\<rparr>)" using s1 by simp
    moreover have "shown s1 = shown s" by (simp add: s1_def)
    ultimately show ?thesis
      unfolding start by (intro fin) (simp add: True show_path [OF s1, simplified True])
  next
    case False
    define l where "l = at (adj g) u"
    have rd: "rd (adj g) u = ok l" using g less.prems by (simp add: l_def arcs_inside_def rd_in)
    define P where "P ys p \<longleftrightarrow> (\<exists>v q. p = u # q \<and> v \<in> set ys \<and> simple_path (adj g) v d q \<and> set q \<inter> set (w @ [u]) = {})" for ys p
    have loop: "wp (for_each (\<lambda>v s. bnd (rdi (visited s) v) (\<lambda>b. if \<not> b then printAllPathsUtil g v d s else ok s)) l s1)
      (\<lambda>s'. on_way g (w @ [u]) s' \<and> prints_paths g d w (P l) (shown s) (shown s'))"
    proof (rule wp_for_each [where I = "\<lambda>ys s'. on_way g (w @ [u]) s' \<and> prints_paths g d w (P ys) (shown s) (shown s')"])
      show "on_way g (w @ [u]) s1 \<and> prints_paths g d w (P []) (shown s) (shown s1)"
        using s1 by (auto simp: s1_def P_def prints_paths_def)
    next
      fix ys y zs s' assume l: "l = ys @ y # zs" and I: "on_way g (w @ [u]) s' \<and> prints_paths g d w (P ys) (shown s) (shown s')"
      have y: "0 \<le> y" "y < n_vert g" using arcs_insideD [OF g less.prems(2,3), of y] l by (simp_all add: l_def)
      have vy: "rdi (visited s') y = ok (y \<in> set (w @ [u]))"
        using I y by (simp add: on_way_def rdi_def rd_in)
      have hd: "hd q = y \<and> q \<noteq> []" if "simple_path (adj g) y d q" for q using that by (simp add: simple_path_def)
      have split: "P (ys @ [y]) = (\<lambda>p. P ys p \<or> (\<exists>q. p = u # q \<and> simple_path (adj g) y d q \<and> set q \<inter> set (w @ [u]) = {}))"
        by (auto simp: P_def fun_eq_iff)
      show "wp (bnd (rdi (visited s') y) (\<lambda>b. if \<not> b then printAllPathsUtil g y d s' else ok s'))
        (\<lambda>s'. on_way g (w @ [u]) s' \<and> prints_paths g d w (P (ys @ [y])) (shown s) (shown s'))"
      proof (cases "y \<in> set (w @ [u])")
        case True
        then have "P (ys @ [y]) = P ys" using hd unfolding split by (auto simp: fun_eq_iff) (metis IntI emptyE hd_in_set insertCI)+
        with True vy I show ?thesis by simp
      next
        case F: False
        have "nat (n_vert g - len (w @ [u])) < nat (n_vert g - len w)" using room by simp
        from less.hyps [OF this conjunct1 [OF I] y F]
        have "wp (printAllPathsUtil g y d s') (\<lambda>s''. on_way g (w @ [u]) s'' \<and>
          prints_paths g d (w @ [u]) (\<lambda>p. simple_path (adj g) y d p \<and> set p \<inter> set (w @ [u]) = {}) (shown s') (shown s''))" .
        moreover have "\<exists>v q. p = u # v # q \<and> v \<in> set ys" if "P ys p" for p
          using that unfolding P_def simple_path_def by (metis list.collapse)
        moreover have "\<exists>q. p = y # q" if "simple_path (adj g) y d p" for p
          using hd [OF that] by (cases p) auto
        moreover have "y \<notin> set ys" if "\<forall>l \<in> set (adj g). distinct l"
          using that g less.prems(2,3) l by (auto simp: l_def arcs_inside_def dest!: bspec [OF _ at_in_set])
        ultimately show ?thesis
          using F vy I unfolding split by (auto elim!: wp_conseq intro!: prints_more [where V = "set ys"])
      qed
    qed simp
    have "P l = (\<lambda>p. simple_path (adj g) u d p \<and> set p \<inter> set w = {})"
      using less.prems(4) False by (auto simp: P_def fun_eq_iff simple_path_step l_def)
    with loop show ?thesis
      unfolding start by (intro fin) (simp add: False rd)
  qed
qed

section \<open>The two programs\<close>

lemma marks_false:
  assumes "0 \<le> n"
  shows "for_up 0 n (\<lambda>i m. wr m i (Some False)) (uninit n) = ok (replicate (nat n) (Some False))"
proof -
  have "wp (for_up 0 n (\<lambda>i m. wr m i (Some False)) (uninit n)) (\<lambda>m. len m = n \<and> (\<forall>j. 0 \<le> j \<and> j < n \<longrightarrow> at m j = Some False))"
    by (rule wp_for_up [where I = "\<lambda>i m. len m = n \<and> (\<forall>j. 0 \<le> j \<and> j < i \<longrightarrow> at m j = Some False)"])
      (use assms in \<open>auto simp: at_upd\<close>)
  moreover have "m = replicate (nat n) (Some False)" if "len m = n" "\<forall>j. 0 \<le> j \<and> j < n \<longrightarrow> at m j = Some False" for m
    using that by (intro list_eq_at) (auto simp: at_def)
  ultimately show ?thesis by (auto simp: wp_iff)
qed

text \<open>
  C7: grafo4 prints every simple path from \<open>s\<close> to \<open>d\<close>, one to a line, and nothing else; each of them
  once unless an arc occurs twice in an adjacency list.  No access is outside an array.
\<close>

theorem printAllPaths_all:
  assumes "arcs_inside g" "0 \<le> s" "s < n_vert g"
  shows "\<exists>ps. printAllPaths g s d t = ok (t @ concat (map (\<lambda>p. blanks p @ nl) ps)) \<and>
    set ps = {p. simple_path (adj g) s d p} \<and> ((\<forall>l \<in> set (adj g). distinct l) \<longrightarrow> distinct ps)"
proof -
  let ?s = "\<lparr>visited = replicate (nat (n_vert g)) (Some False), path = uninit (n_vert g), path_index = 0, shown = t\<rparr>"
  have "on_way g [] ?s" using assms(2,3) by (auto simp: on_way_def at_def)
  from printAllPathsUtil_ok [OF assms(1) this assms(2,3), of d] obtain s' where
    "printAllPathsUtil g s d ?s = ok s'" "prints_paths g d [] (simple_path (adj g) s d) t (shown s')"
    by (auto simp: wp_iff)
  moreover have "0 \<le> n_vert g" using assms(2,3) by simp
  ultimately show ?thesis
    unfolding printAllPaths_def marks_false [OF \<open>0 \<le> n_vert g\<close>] by (simp add: prints_paths_def)
qed

declare printAllPathsUtil.simps [code]

lemma grafo4_main_prints:
  "grafo4_main = ok (''Following are all different paths from 2 to 3'' @ nl @
     ''2 0 1 3 '' @ nl @ ''2 0 3 '' @ nl @ ''2 1 3 '' @ nl)"
  by code_simp

theorem printAllPaths_all_witness:
  "\<exists>ps. printAllPaths \<lparr>n_vert = 3, adj = [[1, 2], [2], []]\<rparr> 0 2 [] = ok (concat (map (\<lambda>p. blanks p @ nl) ps)) \<and>
     set ps = {[0, 1, 2], [0, 2]} \<and> distinct ps"
proof -
  let ?a = "[[1, 2], [2], []] :: int list list"
  have at: "at ?a 0 = [1, 2]" "at ?a 1 = [2]" by (simp_all add: at_def)
  have e: "simple_path ?a 2 2 q \<longleftrightarrow> q = [2]" for q by (rule simple_path_end)
  have d: "simple_path ?a 1 2 q \<longleftrightarrow> q = [1, 2]" for q
    using simple_path_step [of 1 2 ?a q] e at(2) by auto
  have "simple_path ?a 0 2 p \<longleftrightarrow> p = [0, 1, 2] \<or> p = [0, 2]" for p
  proof -
    have "simple_path ?a 0 2 p \<longleftrightarrow> (\<exists>q. p = 0 # q \<and> 0 \<notin> set q \<and> (simple_path ?a 1 2 q \<or> simple_path ?a 2 2 q))"
      using simple_path_step [of 0 2 ?a p] unfolding at(1) by fastforce
    then show ?thesis using d e by auto
  qed
  then have "{p. simple_path ?a 0 2 p} = {[0, 1, 2], [0, 2]}" by auto
  then show ?thesis
    using printAllPaths_all [of "\<lparr>n_vert = 3, adj = ?a\<rparr>" 0 2 "[]"] by (auto simp: arcs_inside_def)
qed

text \<open>grafo3: the degree counts the arcs, the neighbour test finds them.\<close>

lemma adicionarAresta3_adds:
  assumes "0 \<le> u" "u < len (adj g)"
  shows "\<exists>g'. adicionarAresta3 g u v = ok g' \<and> n_vert g' = n_vert g \<and> len (adj g') = len (adj g) \<and>
    (\<forall>x. 0 \<le> x \<and> x < len (adj g) \<longrightarrow> at (adj g') x = (if x = u then at (adj g) u @ [v] else at (adj g) x))"
  using assms by (auto simp: adicionarAresta3_def rd_in wr_in at_upd)

lemma existeVizinho_iff:
  "0 \<le> u \<Longrightarrow> u < len (adj g) \<Longrightarrow> existeVizinho g u v = ok (v \<in> set (at (adj g) u))"
  by (auto simp: existeVizinho_def rd_in find_None_iff)

lemma grafo3_main_prints:
  "grafo3_main = ok (''Grau de saida do vertice 1: 1'' @ nl @ ''Grau de saida do vertice 3: 2'' @ nl @ nl @
     ''1 eh vizinho de 0'' @ nl @ ''2 NAO eh vizinho de 0'' @ nl)"
  by code_simp

text \<open>
  C38: the graphs the members of grafo4 build are well formed: from arcs between the vertices
  \<open>0 .. n - 1\<close> every call of addEdge returns, and the lists hold exactly the arcs added, as often as they
  were added and no arc that leads outside.
\<close>

theorem addEdge4_builds:
  assumes "0 \<le> n" "\<forall>(u, v) \<in> set es. 0 \<le> u \<and> u < n \<and> 0 \<le> v \<and> v < n"
  shows "\<exists>g. for_each (\<lambda>(u, v) g. addEdge4 g u v) es (Graph4 n) = ok g \<and> arcs_inside g \<and> n_vert g = n \<and>
    (\<forall>u v. 0 \<le> u \<and> u < n \<longrightarrow> count_list (at (adj g) u) v = count_list es (u, v))"
proof -
  let ?I = "\<lambda>es (g :: grafo). len (adj g) = n \<and> n_vert g = n \<and> (\<forall>l \<in> set (adj g). \<forall>v \<in> set l. 0 \<le> v \<and> v < n) \<and>
    (\<forall>u v. 0 \<le> u \<and> u < n \<longrightarrow> count_list (at (adj g) u) v = count_list es (u, v))"
  have "wp (for_each (\<lambda>(u, v) g. addEdge4 g u v) es (Graph4 n)) (?I es)"
  proof (rule wp_for_each [where I = ?I])
    show "?I [] (Graph4 n)" using assms(1) by (auto simp: Graph4_def at_def)
  next
    fix ys y zs g assume es: "es = ys @ y # zs" and I: "?I ys g"
    obtain u v where y: "y = (u, v)" by force
    have b: "0 \<le> u" "u < n" "0 \<le> v" "v < n" using assms(2) by (auto simp: es y)
    let ?a = "upd (adj g) u (at (adj g) u @ [v])"
    have "addEdge4 g u v = ok (g\<lparr>adj := ?a\<rparr>)" using I b by (simp add: addEdge4_def rd_in wr_in)
    moreover have "\<forall>l \<in> set ?a. \<forall>v \<in> set l. 0 \<le> v \<and> v < n"
    proof
      fix l assume "l \<in> set ?a"
      then have "l = at (adj g) u @ [v] \<or> l \<in> set (adj g)" using set_upd_subset [of "adj g" u] by blast
      moreover have "at (adj g) u \<in> set (adj g)" using I b by (intro at_in_set) simp_all
      then have "\<forall>w \<in> set (at (adj g) u). 0 \<le> w \<and> w < n" using I by blast
      ultimately show "\<forall>v \<in> set l. 0 \<le> v \<and> v < n" using I b by auto
    qed
    moreover have "count_list (at ?a x) z = count_list (ys @ [y]) (x, z)" if "0 \<le> x" "x < n" for x z
      using I b that by (simp add: at_upd y count_list_append)
    ultimately show "wp ((\<lambda>(u, v) g. addEdge4 g u v) y g) (?I (ys @ [y]))"
      using I by (simp add: y)
  qed simp
  then show ?thesis by (auto simp: wp_iff arcs_inside_def)
qed

theorem addEdge4_builds_witness:
  "\<exists>g. for_each (\<lambda>(u, v) g. addEdge4 g u v) [(0, 1), (1, 1), (0, 1)] (Graph4 2) = ok g \<and> arcs_inside g \<and>
     count_list (at (adj g) 0) 1 = 2"
  using addEdge4_builds [of 2 "[(0, 1), (1, 1), (0, 1)]"] by auto

end
