(* ===== verification/Graph_Depth.thy ===== *)
theory Graph_Depth
  imports Graph_Paths
begin

text \<open>
  \<open>DataStructure/grafos/grafo5.cxx\<close>: depth-first search with an explicit stack.  When a vertex is
  finished, the program prints the vertices on the stack once for every arc to vertex 12.  The
  theorem says that every reachable vertex is finished exactly once, and with which stack.
\<close>

section \<open>The program\<close>

definition Grafo5 :: "int \<Rightarrow> grafo" where
  "Grafo5 V = \<lparr>n_vert = V, adj = replicate (nat V) []\<rparr>"

definition adicionarAresta5 :: "int \<Rightarrow> int \<Rightarrow> grafo \<Rightarrow> grafo run" where
  "adicionarAresta5 v1 v2 g =
     bnd (rd (adj g) v1) (\<lambda>l. bnd (wr (adj g) v1 (l @ [v2])) (\<lambda>a. ok (g\<lparr>adj := a\<rparr>)))"

text \<open>The stack is a list with its top first; \<open>aux\<close> is the global vector.\<close>

type_synonym dfs_state = "bool option list \<times> int list \<times> int list \<times> string"

primrec nao_visitado :: "bool option list \<Rightarrow> int list \<Rightarrow> int option run" where
  "nao_visitado visitados [] = ok None"
| "nao_visitado visitados (x # xs) =
     bnd (rdi visitados x) (\<lambda>b. if \<not> b then ok (Some x) else nao_visitado visitados xs)"

definition mostra_aux :: "int list \<Rightarrow> int list \<Rightarrow> string \<Rightarrow> string run" where
  "mostra_aux aux l t =
     for_each (\<lambda>x t. if x = 12 then
         bnd (for_up 0 (len aux) (\<lambda>i t. bnd (rd aux i) (\<lambda>y. ok (t @ dec y @ nl))) t) (\<lambda>t. ok (t @ ''****'' @ nl))
       else ok t) l t"

definition apaga_fim :: "'a list \<Rightarrow> 'a list run" where
  "apaga_fim xs = (if xs = [] then fail Bad_Access else ok (butlast xs))"

definition desempilha :: "'a list \<Rightarrow> 'a list run" where
  "desempilha xs = (if xs = [] then fail Bad_Access else ok (tl xs))"

definition dfs_passo :: "grafo \<Rightarrow> int \<times> dfs_state \<Rightarrow> (int \<times> dfs_state + int list \<times> string) run" where
  "dfs_passo g st =
     (let (v, visitados, pilha, aux, t) = st in
      bnd (rdi visitados v) (\<lambda>b.
      bnd (if \<not> b then bnd (wr visitados v (Some True)) (\<lambda>visitados. ok (visitados, v # pilha, aux @ [v]))
           else ok (visitados, pilha, aux)) (\<lambda>(visitados, pilha, aux).
      bnd (rd (adj g) v) (\<lambda>l.
      bnd (nao_visitado visitados l) (\<lambda>it.
      case it of Some w \<Rightarrow> ok (Inl (w, visitados, pilha, aux, t))
      | None \<Rightarrow>
          bnd (mostra_aux aux l t) (\<lambda>t.
          bnd (apaga_fim aux) (\<lambda>aux.
          bnd (desempilha pilha) (\<lambda>pilha.
          if pilha = [] then ok (Inr (aux, t)) else ok (Inl (hd pilha, visitados, pilha, aux, t))))))))))"

definition dfs5 :: "grafo \<Rightarrow> int \<Rightarrow> int list \<Rightarrow> string \<Rightarrow> (int list \<times> string) run" where
  "dfs5 g v aux t =
     bnd (for_up 0 (n_vert g) (\<lambda>i m. wr m i (Some False)) (uninit (n_vert g))) (\<lambda>visitados.
     loop (dfs_passo g) (v, visitados, [], aux, t))"

definition grafo5_main :: "string run" where
  "grafo5_main =
     bnd (for_each (\<lambda>(v1, v2). adicionarAresta5 v1 v2)
       [(0, 1), (1, 2), (2, 11), (2, 3), (3, 4), (4, 5), (4, 7), (5, 6), (6, 10), (7, 8), (8, 9), (9, 10),
        (10, 11), (11, 12)] (Grafo5 13)) (\<lambda>g.
     bnd (dfs5 g 4 [] []) (\<lambda>(aux, t). ok t))"

section \<open>The search\<close>

definition arc_rel :: "grafo \<Rightarrow> (int \<times> int) set" where
  "arc_rel g = {(x, y). 0 \<le> x \<and> x < n_vert g \<and> y \<in> set (at (adj g) x)}"

text \<open>What is printed when the stack is \<open>p\<close>, bottom first, and its top is finished.\<close>

definition page :: "grafo \<Rightarrow> int list \<Rightarrow> string" where
  "page g p = concat (map (\<lambda>x. if x = 12 then concat (map (\<lambda>y. dec y @ nl) p) @ ''****'' @ nl else []) (at (adj g) (last p)))"

definition marked :: "bool option list \<Rightarrow> int \<Rightarrow> bool" where
  "marked vis x \<longleftrightarrow> at vis x = Some True"

text \<open>\<open>ps\<close> are the stacks of the finished vertices, in their order.\<close>

definition dfs_base :: "grafo \<Rightarrow> int \<Rightarrow> string \<Rightarrow> int list list \<Rightarrow> dfs_state \<Rightarrow> bool" where
  "dfs_base g v0 t0 ps st = (case st of (vis, pilha, aux, t) \<Rightarrow>
     len vis = n_vert g \<and>
     (\<forall>x. 0 \<le> x \<and> x < n_vert g \<longrightarrow> at vis x = Some (x \<in> set pilha \<or> x \<in> last ` set ps)) \<and>
     (\<forall>x \<in> set pilha. 0 \<le> x \<and> x < n_vert g) \<and> aux = rev pilha \<and> distinct pilha \<and>
     distinct (map last ps) \<and> set pilha \<inter> last ` set ps = {} \<and>
     (pilha \<noteq> [] \<longrightarrow> last pilha = v0) \<and> walk (adj g) (rev pilha) \<and>
     (\<forall>p \<in> set ps. p \<noteq> [] \<and> hd p = v0 \<and> distinct p \<and> walk (adj g) p \<and> 0 \<le> last p \<and> last p < n_vert g \<and>
        (\<forall>y \<in> set (at (adj g) (last p)). y \<in> set pilha \<or> y \<in> last ` set ps)) \<and>
     t = t0 @ concat (map (page g) ps))"

lemma nao_visitado_find:
  "(\<forall>x \<in> set l. 0 \<le> x \<and> x < len vis \<and> at vis x \<noteq> None) \<Longrightarrow>
   nao_visitado vis l = ok (List.find (\<lambda>x. \<not> marked vis x) l)"
  by (induction l) (auto simp: rdi_def rd_in marked_def)

lemma for_each_append: "for_each (\<lambda>x t. ok (t @ f x)) l t = ok (t @ concat (map f l))"
  by (induction l arbitrary: t) simp_all

lemma mostra_aux_page:
  assumes "l = at (adj g) (last p)"
  shows "mostra_aux p l t = ok (t @ page g p)"
proof -
  have "for_up 0 (len p) (\<lambda>i t. bnd (rd p i) (\<lambda>y. ok (t @ dec y @ nl))) t = ok (t @ concat (map (\<lambda>y. dec y @ nl) p))" for t
    using for_up_append [of 0 "len p" "\<lambda>i t. bnd (rd p i) (\<lambda>y. ok (t @ dec y @ nl))" "\<lambda>i. dec (at p i) @ nl" t]
    by (simp add: rd_in concat_at [of "\<lambda>y. dec y @ nl"])
  then have "mostra_aux p l t = for_each (\<lambda>x t. ok (t @ (if x = 12 then concat (map (\<lambda>y. dec y @ nl) p) @ ''****'' @ nl else []))) l t"
    unfolding mostra_aux_def by (intro arg_cong2 [where f = "\<lambda>f. for_each f l"]) (auto simp: fun_eq_iff)
  then show ?thesis by (simp only: for_each_append page_def assms)
qed

lemma walk_snoc: "walk a (p @ [x]) \<longleftrightarrow> walk a p \<and> (p \<noteq> [] \<longrightarrow> x \<in> set (at a (last p)))"
  by (induction p rule: induct_list012) auto

lemma base_mark:
  assumes base: "dfs_base g v0 t0 ps (vis, pilha, aux, t)" and v: "0 \<le> v" "v < n_vert g" "\<not> marked vis v"
    and edge: "if pilha = [] then v = v0 else v \<in> set (at (adj g) (hd pilha))"
  shows "dfs_base g v0 t0 ps (upd vis v (Some True), v # pilha, aux @ [v], t)"
proof -
  have b: "len vis = n_vert g" "\<forall>x. 0 \<le> x \<and> x < n_vert g \<longrightarrow> at vis x = Some (x \<in> set pilha \<or> x \<in> last ` set ps)"
    "walk (adj g) (rev pilha)" "pilha \<noteq> [] \<longrightarrow> last pilha = v0"
    using base by (auto simp: dfs_base_def)
  have new: "v \<notin> set pilha" "v \<notin> last ` set ps" using b(2) v by (auto simp: marked_def)
  have "at (upd vis v (Some True)) x = Some (x \<in> set (v # pilha) \<or> x \<in> last ` set ps)" if "0 \<le> x" "x < n_vert g" for x
    using b(1,2) v that by (simp add: at_upd)
  moreover have "walk (adj g) (rev (v # pilha))"
    using b(3) edge by (simp add: walk_snoc last_rev)
  moreover have "last (v # pilha) = v0" using b(4) edge by (cases pilha) auto
  ultimately show ?thesis
    using base v new unfolding dfs_base_def prod.case by auto
qed

lemma base_finish:
  assumes base: "dfs_base g v0 t0 ps (vis, v # pilha, aux, t)" and all: "\<forall>y \<in> set (at (adj g) v). marked vis y"
    and g: "arcs_inside g"
  shows "dfs_base g v0 t0 (ps @ [rev (v # pilha)]) (vis, pilha, butlast aux, t @ page g aux)"
proof -
  have b: "len vis = n_vert g" "\<forall>x. 0 \<le> x \<and> x < n_vert g \<longrightarrow> at vis x = Some (x \<in> set (v # pilha) \<or> x \<in> last ` set ps)"
    "0 \<le> v" "v < n_vert g" "aux = rev (v # pilha)" "v \<notin> last ` set ps" "last (v # pilha) = v0"
    using base by (auto simp: dfs_base_def)
  have l: "last (rev (v # pilha)) = v" "hd (rev (v # pilha)) = v0" using b(7) by (simp, simp only: hd_rev)
  have vis: "y = v \<or> y \<in> set pilha \<or> y \<in> last ` set ps" if "y \<in> set (at (adj g) v)" for y
    using all that b(2) arcs_insideD [OF g b(3,4) that] by (auto simp: marked_def)
  have w: "walk (adj g) (rev pilha)" "walk (adj g) (rev (v # pilha))"
    using base by (auto simp: dfs_base_def walk_snoc)
  have im: "last ` set (ps @ [rev (v # pilha)]) = insert v (last ` set ps)" using l by auto
  show ?thesis
    using base b(3-6) l w vis unfolding dfs_base_def prod.case im
    by (auto simp: image_iff)
qed

definition dfs_inv :: "grafo \<Rightarrow> int \<Rightarrow> string \<Rightarrow> int \<times> dfs_state \<Rightarrow> bool" where
  "dfs_inv g v0 t0 s = (case s of (v, vis, pilha, aux, t) \<Rightarrow> 0 \<le> v \<and> v < n_vert g \<and>
     (\<exists>ps. dfs_base g v0 t0 ps (vis, pilha, aux, t) \<and>
        (if marked vis v then pilha \<noteq> [] \<and> v = hd pilha
         else if pilha = [] then v = v0 \<and> ps = [] else v \<in> set (at (adj g) (hd pilha)))))"

definition unmarked :: "grafo \<Rightarrow> bool option list \<Rightarrow> int set" where
  "unmarked g vis = {x. 0 \<le> x \<and> x < n_vert g \<and> \<not> marked vis x}"

definition dfs_measure :: "grafo \<Rightarrow> int \<times> dfs_state \<Rightarrow> nat" where
  "dfs_measure g s = (case s of (v, vis, pilha, aux, t) \<Rightarrow>
     3 * card (unmarked g vis) + length pilha + (if marked vis v then 1 else 0))"

lemma unmarked_upd:
  assumes "len vis = n_vert g" "0 \<le> v" "v < n_vert g" "\<not> marked vis v"
  shows "card (unmarked g vis) = Suc (card (unmarked g (upd vis v (Some True))))"
proof -
  have "unmarked g vis = insert v (unmarked g (upd vis v (Some True)))" "v \<notin> unmarked g (upd vis v (Some True))"
    using assms by (auto simp: unmarked_def marked_def at_upd split: if_splits)
  moreover have "finite (unmarked g (upd vis v (Some True)))"
    unfolding unmarked_def by (rule finite_subset [of _ "{0..<n_vert g}"]) auto
  ultimately show ?thesis by (metis card_insert_disjoint)
qed

text \<open>The result: the stacks of the finished vertices.\<close>

definition dfs_result :: "grafo \<Rightarrow> int \<Rightarrow> int list list \<Rightarrow> bool" where
  "dfs_result g v0 ps \<longleftrightarrow> (\<forall>p \<in> set ps. simple_path (adj g) v0 (last p) p) \<and> distinct (map last ps) \<and>
     last ` set ps = {x. (v0, x) \<in> (arc_rel g)\<^sup>*}"

lemma walk_reach:
  "walk (adj g) p \<Longrightarrow> p \<noteq> [] \<Longrightarrow> \<forall>x \<in> set (butlast p). 0 \<le> x \<and> x < n_vert g \<Longrightarrow> (hd p, last p) \<in> (arc_rel g)\<^sup>*"
  by (induction p rule: induct_list012) (auto simp: arc_rel_def intro: converse_rtrancl_into_rtrancl)

lemma walk_inside:
  assumes g: "arcs_inside g"
  shows "walk (adj g) q \<Longrightarrow> q \<noteq> [] \<Longrightarrow> 0 \<le> hd q \<Longrightarrow> hd q < n_vert g \<Longrightarrow> \<forall>x \<in> set q. 0 \<le> x \<and> x < n_vert g"
proof (induction q rule: induct_list012)
  case (3 x y zs)
  from "3.prems" have "0 \<le> x" "x < n_vert g" "y \<in> set (at (adj g) x)" "walk (adj g) (y # zs)" by simp_all
  moreover from arcs_insideD [OF g this(1-3)] have "0 \<le> y" "y < n_vert g" by blast+
  ultimately have "\<forall>x \<in> set (y # zs). 0 \<le> x \<and> x < n_vert g" by (intro "3.IH"(2)) simp_all
  with \<open>0 \<le> x\<close> \<open>x < n_vert g\<close> show ?case unfolding list.set(2) [of x] by blast
qed simp_all

lemma base_result:
  assumes base: "dfs_base g v0 t0 ps (vis, [], aux, t)" and v: "v0 \<in> last ` set ps" and g: "arcs_inside g"
  shows "aux = [] \<and> t = t0 @ concat (map (page g) ps) \<and> dfs_result g v0 ps"
proof -
  have b: "\<forall>p \<in> set ps. p \<noteq> [] \<and> hd p = v0 \<and> distinct p \<and> walk (adj g) p \<and> 0 \<le> last p \<and> last p < n_vert g \<and>
        (\<forall>y \<in> set (at (adj g) (last p)). y \<in> last ` set ps)" "distinct (map last ps)"
    using base by (auto simp: dfs_base_def)
  have "x \<in> last ` set ps" if "(v0, x) \<in> (arc_rel g)\<^sup>*" for x
    using that by (induction rule: rtrancl_induct) (use v b(1) in \<open>auto simp: arc_rel_def\<close>)
  moreover have "(v0, last p) \<in> (arc_rel g)\<^sup>*" if p: "p \<in> set ps" for p
  proof -
    obtain p0 where "p0 \<in> set ps" "last p0 = v0" using v by auto
    then have "0 \<le> v0" "v0 < n_vert g" using b(1) by auto
    with walk_inside [OF g, of p] b(1) p have "\<forall>x \<in> set p. 0 \<le> x \<and> x < n_vert g" by auto
    with walk_reach [of g p] b(1) p show ?thesis by (auto dest: in_set_butlastD)
  qed
  ultimately show ?thesis
    using base b by (auto simp: dfs_base_def dfs_result_def simple_path_def)
qed

lemma passo_split:
  assumes "dfs_inv g v0 t0 (v, vis, pilha, aux, t)"
  obtains ps vis' pilha' where
    "rdi vis v = ok (marked vis v)"
    "(if \<not> marked vis v then bnd (wr vis v (Some True)) (\<lambda>vis. ok (vis, v # pilha, aux @ [v])) else ok (vis, pilha, aux)) =
      ok (vis', v # pilha', rev (v # pilha'))"
    "dfs_base g v0 t0 ps (vis', v # pilha', rev (v # pilha'), t)"
    "3 * card (unmarked g vis') + length (v # pilha') + (if marked vis v then 1 else 0)
       \<le> dfs_measure g (v, vis, pilha, aux, t) - (if marked vis v then 0 else 2)"
    "2 \<le> dfs_measure g (v, vis, pilha, aux, t)"
proof -
  obtain ps where v: "0 \<le> v" "v < n_vert g" and base: "dfs_base g v0 t0 ps (vis, pilha, aux, t)"
    and c: "if marked vis v then pilha \<noteq> [] \<and> v = hd pilha
         else if pilha = [] then v = v0 \<and> ps = [] else v \<in> set (at (adj g) (hd pilha))"
    using assms by (auto simp: dfs_inv_def)
  have b: "len vis = n_vert g" "rdi vis v = ok (marked vis v)" "aux = rev pilha"
    using base v by (auto simp: dfs_base_def rdi_def rd_in marked_def)
  show thesis
  proof (cases "marked vis v")
    case True
    then obtain pilha' where p: "pilha = v # pilha'" using c by (cases pilha) auto
    show thesis
      by (rule that [of vis pilha' ps]) (use True b base p in \<open>simp_all add: dfs_measure_def\<close>)
  next
    case False
    have "dfs_base g v0 t0 ps (upd vis v (Some True), v # pilha, aux @ [v], t)"
      by (rule base_mark [OF base v False]) (use False c in simp)
    moreover have "card (unmarked g vis) = Suc (card (unmarked g (upd vis v (Some True))))"
      by (rule unmarked_upd [OF b(1) v False])
    ultimately show thesis
      by (intro that [of "upd vis v (Some True)" pilha ps]) (use False b v in \<open>simp_all add: dfs_measure_def wr_in\<close>)
  qed
qed

lemma dfs_passo_inv:
  assumes g: "arcs_inside g" and inv: "dfs_inv g v0 t0 s"
  shows "wp (dfs_passo g s) (\<lambda>x. case x of Inl s' \<Rightarrow> dfs_inv g v0 t0 s' \<and> dfs_measure g s' < dfs_measure g s
    | Inr (aux, t) \<Rightarrow> aux = [] \<and> (\<exists>ps. t = t0 @ concat (map (page g) ps) \<and> dfs_result g v0 ps))"
proof -
  obtain v vis pilha aux t where s: "s = (v, vis, pilha, aux, t)" by (cases s)
  obtain ps vis' pilha' where r: "rdi vis v = ok (marked vis v)"
    "(if \<not> marked vis v then bnd (wr vis v (Some True)) (\<lambda>vis. ok (vis, v # pilha, aux @ [v])) else ok (vis, pilha, aux)) =
      ok (vis', v # pilha', rev (v # pilha'))"
    and base: "dfs_base g v0 t0 ps (vis', v # pilha', rev (v # pilha'), t)"
    and m: "3 * card (unmarked g vis') + length (v # pilha') + (if marked vis v then 1 else 0)
       \<le> dfs_measure g s - (if marked vis v then 0 else 2)" "2 \<le> dfs_measure g s"
    using passo_split [OF inv [unfolded s], folded s] .
  have m: "3 * card (unmarked g vis') + length (v # pilha') < dfs_measure g s" using m by (cases "marked vis v") auto
  define l where "l = at (adj g) v"
  have b: "len vis' = n_vert g" "\<forall>x. 0 \<le> x \<and> x < n_vert g \<longrightarrow> at vis' x = Some (x \<in> set (v # pilha') \<or> x \<in> last ` set ps)"
    "0 \<le> v" "v < n_vert g" "\<forall>x \<in> set pilha'. 0 \<le> x \<and> x < n_vert g" "last (v # pilha') = v0"
    using base by (auto simp: dfs_base_def)
  have rd: "rd (adj g) v = ok l" using g b by (simp add: l_def arcs_inside_def rd_in)
  have find: "nao_visitado vis' l = ok (List.find (\<lambda>x. \<not> marked vis' x) l)"
    using arcs_insideD [OF g b(3,4)] b by (intro nao_visitado_find) (simp add: l_def)
  show ?thesis
  proof (cases "List.find (\<lambda>x. \<not> marked vis' x) l")
    case (Some w)
    then have w: "w \<in> set l" "\<not> marked vis' w" by (auto simp: find_Some_iff)
    have "dfs_inv g v0 t0 (w, vis', v # pilha', rev (v # pilha'), t)"
      using base w arcs_insideD [OF g b(3,4), of w] by (auto simp: dfs_inv_def l_def)
    moreover have "dfs_measure g (w, vis', v # pilha', rev (v # pilha'), t) < dfs_measure g s"
      using m w(2) by (simp add: dfs_measure_def [of g "(w, _)"])
    moreover have "dfs_passo g s = ok (Inl (w, vis', v # pilha', rev (v # pilha'), t))"
      unfolding s dfs_passo_def Let_def prod.case r(1) bnd_ok r(2) rd find Some option.case ..
    ultimately show ?thesis by simp
  next
    case None
    then have all: "\<forall>y \<in> set (at (adj g) v). marked vis' y" by (auto simp: find_None_iff l_def)
    define t' where "t' = t @ page g (rev (v # pilha'))"
    have show_it: "mostra_aux (rev (v # pilha')) l t = ok t'"
      unfolding t'_def by (rule mostra_aux_page) (simp add: l_def)
    have new: "dfs_base g v0 t0 (ps @ [rev (v # pilha')]) (vis', pilha', rev pilha', t')"
      using base_finish [OF base all g] by (simp add: t'_def)
    have step: "dfs_passo g s = (if pilha' = [] then ok (Inr (rev pilha', t')) else ok (Inl (hd pilha', vis', pilha', rev pilha', t')))"
      unfolding s dfs_passo_def Let_def prod.case r(1) bnd_ok r(2) rd find None option.case show_it
      by (simp add: apaga_fim_def desempilha_def)
    show ?thesis
    proof (cases "pilha' = []")
      case True
      have "v0 \<in> last ` set (ps @ [rev (v # pilha')])" using b(6) True by simp
      from base_result [OF new [unfolded True] this [unfolded True] g] show ?thesis
        unfolding step True by (simp only: refl if_True wp_ok sum.case prod.case) blast
    next
      case False
      then have h: "hd pilha' \<in> set pilha'" by simp
      then have mk: "marked vis' (hd pilha')" using b(2,5) by (auto simp: marked_def)
      have "dfs_inv g v0 t0 (hd pilha', vis', pilha', rev pilha', t')"
        using new mk False h b(5) by (auto simp: dfs_inv_def)
      moreover have "dfs_measure g (hd pilha', vis', pilha', rev pilha', t') < dfs_measure g s"
        using m mk by (simp add: dfs_measure_def [of g "(hd pilha', _)"])
      ultimately show ?thesis unfolding step using False by simp
    qed
  qed
qed

text \<open>
  C8: the search of grafo5 ends; it finishes every vertex that can be reached from \<open>v\<close> exactly
  once, with a simple path from \<open>v\<close> to it on the stack, prints that path once for every arc from
  there to 12, and leaves the global vector empty.
\<close>

theorem dfs5_paths:
  assumes "arcs_inside g" "0 \<le> v" "v < n_vert g"
  shows "\<exists>ps. dfs5 g v [] t = ok ([], t @ concat (map (page g) ps)) \<and>
    (\<forall>p \<in> set ps. simple_path (adj g) v (last p) p) \<and> distinct (map last ps) \<and>
    last ` set ps = {x. (v, x) \<in> (arc_rel g)\<^sup>*}"
proof -
  let ?vis = "replicate (nat (n_vert g)) (Some False)"
  have n: "0 \<le> n_vert g" using assms by simp
  have "dfs_inv g v t (v, ?vis, [], [], t)"
    using assms(2,3) by (auto simp: dfs_inv_def dfs_base_def marked_def at_def intro!: exI [of _ "[]"])
  then have "wp (loop (dfs_passo g) (v, ?vis, [], [], t)) (\<lambda>(aux, t'). aux = [] \<and>
      (\<exists>ps. t' = t @ concat (map (page g) ps) \<and> dfs_result g v ps))"
    by (rule wp_loop [where I = "dfs_inv g v t" and m = "dfs_measure g"]) (use dfs_passo_inv [OF assms(1)] in \<open>auto split: sum.splits prod.splits elim!: wp_conseq\<close>)
  then show ?thesis
    unfolding dfs5_def marks_false [OF n] bnd_ok by (auto simp: wp_iff dfs_result_def)
qed

lemma grafo5_main_prints:
  "grafo5_main = ok (''4'' @ nl @ ''5'' @ nl @ ''6'' @ nl @ ''10'' @ nl @ ''11'' @ nl @ ''****'' @ nl)"
  by code_simp

theorem dfs5_paths_witness:
  "\<exists>ps. dfs5 \<lparr>n_vert = 2, adj = [[1, 1], []]\<rparr> 0 [] [] = ok ([], concat (map (page \<lparr>n_vert = 2, adj = [[1, 1], []]\<rparr>) ps)) \<and>
     distinct (map last ps) \<and> last ` set ps = {0, 1}"
proof -
  let ?g = "\<lparr>n_vert = 2, adj = [[1, 1], []]\<rparr>"
  have r: "arc_rel ?g = {(0, 1)}"
  proof -
    have "x = 0 \<or> x = 1" if "0 \<le> x" "x < 2" for x :: int using that by auto
    then show ?thesis by (fastforce simp: arc_rel_def at_def)
  qed
  have "x = 0 \<or> x = 1" if "(0, x) \<in> {(0, 1)}\<^sup>*" for x :: int
    using that by (induction rule: rtrancl_induct) auto
  then have "{x. (0, x) \<in> (arc_rel ?g)\<^sup>*} = {0, 1}" unfolding r by auto
  then show ?thesis
    using dfs5_paths [of ?g 0 "[]"] by (auto simp: arcs_inside_def)
qed

end
