(* ===== verification/Graph_Cities.thy ===== *)
theory Graph_Cities
  imports Cxx_Matrix Cxx_Console
begin

text \<open>
  \<open>DataStructure/grafos/grafo2.cxx\<close>: the cities that can be reached from a city, by a search with
  a ring buffer of 11 places.  A city is marked when it is taken from the queue, not when it is put
  there (the assignment is written as a comparison), so that it can be queued more than once: the
  search still ends, and it is complete as long as the queue does not overflow.
\<close>

section \<open>The program\<close>

abbreviation MAX_CIDADES :: int where "MAX_CIDADES \<equiv> 11"

record rota =
  inicio_f :: int
  tamanho :: int
  fila :: "int list"
  cor :: "int list"
  saida :: string

definition fila_cheia :: string where
  "fila_cheia = nl @ ''Fila esta cheia'' @ nl"

definition inserirFILA :: "int \<Rightarrow> rota \<Rightarrow> rota run" where
  "inserirFILA x s =
     (if tamanho s = MAX_CIDADES then ok (s\<lparr>saida := saida s @ fila_cheia\<rparr>)
      else bnd (wr (fila s) ((inicio_f s + tamanho s) smod MAX_CIDADES) x) (\<lambda>f.
        ok (s\<lparr>fila := f, tamanho := tamanho s + 1\<rparr>)))"

definition removerFILA :: "rota \<Rightarrow> (rota \<times> int) run" where
  "removerFILA s =
     (if tamanho s \<noteq> 0 then
        bnd (rd (fila s) (inicio_f s)) (\<lambda>aux.
        bnd (wr (fila s) (inicio_f s) (- 1)) (\<lambda>f.
        ok (s\<lparr>fila := f, inicio_f := (inicio_f s + 1) smod MAX_CIDADES, tamanho := tamanho s - 1\<rparr>, aux)))
      else ok (s, - 1))"

definition cidade_passo :: "int list list \<Rightarrow> int \<times> rota \<Rightarrow> (int \<times> rota) run" where
  "cidade_passo G st =
     (let (base, s) = st in
      bnd (wr (cor s) base 2) (\<lambda>c.
      bnd (for_up 0 MAX_CIDADES (\<lambda>j s.
        bnd (rd2 G base j) (\<lambda>a.
        if a \<noteq> - 1 then bnd (rd (cor s) j) (\<lambda>k. if k = 0 then inserirFILA j s else ok s) else ok s)) (s\<lparr>cor := c\<rparr>)) (\<lambda>s.
      bnd (removerFILA s) (\<lambda>(s, b). ok (b, s)))))"

definition CaminhoNoGrafo :: "int list list \<Rightarrow> string list \<Rightarrow> int \<Rightarrow> rota \<Rightarrow> rota run" where
  "CaminhoNoGrafo G nomes cidadeInicio s =
     bnd (for_up 0 MAX_CIDADES (\<lambda>i s. bnd (wr (cor s) i 0) (\<lambda>c. ok (s\<lparr>cor := c\<rparr>))) s) (\<lambda>s.
     bnd (while_run (\<lambda>(base, s). ok (base \<noteq> - 1)) (cidade_passo G) (cidadeInicio, s)) (\<lambda>(base, s).
     bnd (for_up 0 MAX_CIDADES (\<lambda>i s.
       bnd (rd (cor s) i) (\<lambda>k.
       if k = 2 then bnd (rd nomes i) (\<lambda>n. ok (s\<lparr>saida := saida s @ nl @ n\<rparr>)) else ok s)) s) (\<lambda>s.
     ok (s\<lparr>saida := saida s @ nl\<rparr>))))"

definition grafo2_main :: "string run" where
  "grafo2_main =
     bnd (for_up 0 11 (\<lambda>i G. for_up 0 11 (\<lambda>j G. wr2 G i j (- 1)) G) (replicate 11 (replicate 11 0))) (\<lambda>G.
     bnd (for_each (\<lambda>(i, j, a) G. wr2 G i j a)
       [(0, 3, 400), (3, 4, 80), (7, 10, 90), (8, 6, 80), (10, 9, 500), (3, 1, 120), (4, 5, 500), (2, 5, 400),
        (5, 6, 300), (6, 5, 500)] G) (\<lambda>G.
     let nomes = [''Sao Paulo-GRU'', ''Nova York-JFK'', ''Los Angeles'', ''Londres-LHR'', ''Frankfurt'', ''Tokio'',
           ''Sydney'', [], [], [], []];
         s = \<lparr>inicio_f = 0, tamanho = 0, fila = replicate 500 0, cor = replicate 11 0,
              saida = ''Grafo gerado com as cidades :'' @ nl\<rparr> in
     bnd (for_up 0 11 (\<lambda>i s. bnd (rd nomes i) (\<lambda>n. ok (s\<lparr>saida := saida s @ dec i @ '' : '' @ n @ nl\<rparr>))) s) (\<lambda>s.
     bnd (rd nomes 8) (\<lambda>n.
     bnd (CaminhoNoGrafo G nomes 8 (s\<lparr>saida := saida s @ nl @ nl @ ''Todas as cidades possiveis apartir de : '' @ n @ nl\<rparr>)) (\<lambda>s.
     ok (saida s @ nl))))))"

lemma grafo2_main_prints:
  "grafo2_main = ok (''Grafo gerado com as cidades :'' @ nl @ ''0 : Sao Paulo-GRU'' @ nl @ ''1 : Nova York-JFK'' @ nl @
     ''2 : Los Angeles'' @ nl @ ''3 : Londres-LHR'' @ nl @ ''4 : Frankfurt'' @ nl @ ''5 : Tokio'' @ nl @ ''6 : Sydney'' @ nl @
     ''7 : '' @ nl @ ''8 : '' @ nl @ ''9 : '' @ nl @ ''10 : '' @ nl @ nl @ nl @
     ''Todas as cidades possiveis apartir de : '' @ nl @ nl @ ''Tokio'' @ nl @ ''Sydney'' @ nl @ nl @ nl)"
  by code_simp

section \<open>The ring buffer\<close>

definition queue_ok :: "rota \<Rightarrow> bool" where
  "queue_ok s \<longleftrightarrow> len (fila s) = 500 \<and> 0 \<le> inicio_f s \<and> inicio_f s < 11 \<and> 0 \<le> tamanho s \<and> tamanho s \<le> 11"

definition queue_of :: "rota \<Rightarrow> int list" where
  "queue_of s = map (\<lambda>i. at (fila s) ((inicio_f s + i) mod 11)) [0..tamanho s - 1]"

lemma length_queue: "queue_ok s \<Longrightarrow> len (queue_of s) = tamanho s"
  by (simp add: queue_ok_def queue_of_def)

lemma mod11_inj:
  fixes a :: int
  assumes "0 \<le> i" "i < 11" "0 \<le> j" "j < 11" "(a + i) mod 11 = (a + j) mod 11"
  shows "i = j"
proof -
  have "11 dvd a + i - (a + j)" using assms(5) unfolding mod_eq_dvd_iff .
  then have "11 dvd i - j" by simp
  with assms(1-4) show ?thesis by presburger
qed

lemma enqueue:
  assumes "queue_ok s" "tamanho s < 11"
  shows "\<exists>s'. inserirFILA x s = ok s' \<and> queue_ok s' \<and> queue_of s' = queue_of s @ [x] \<and> cor s' = cor s \<and> saida s' = saida s"
proof -
  let ?i = "(inicio_f s + tamanho s) mod 11"
  have i: "0 \<le> ?i" "?i < 11" by simp_all
  have m: "(inicio_f s + tamanho s) smod 11 = ?i" using assms by (simp add: queue_ok_def smod_nonneg)
  have "at (upd (fila s) ?i x) ((inicio_f s + j) mod 11) = at (fila s) ((inicio_f s + j) mod 11)" if "0 \<le> j" "j < tamanho s" for j
  proof -
    have "(inicio_f s + j) mod 11 \<noteq> ?i"
      using mod11_inj [of j "tamanho s" "inicio_f s"] that assms by (auto simp: queue_ok_def)
    then show ?thesis using i by simp
  qed
  then have "map (\<lambda>j. at (upd (fila s) ?i x) ((inicio_f s + j) mod 11)) [0..tamanho s] = queue_of s @ [x]"
    using assms i upto_rec2 [of 0 "tamanho s"] by (simp add: queue_of_def queue_ok_def)
  then show ?thesis
    using assms i by (simp add: inserirFILA_def m wr_in queue_ok_def queue_of_def)
qed

lemma dequeue:
  assumes "queue_ok s" "queue_of s = x # q"
  shows "\<exists>s'. removerFILA s = ok (s', x) \<and> queue_ok s' \<and> queue_of s' = q \<and> cor s' = cor s \<and> saida s' = saida s"
proof -
  have t: "0 < tamanho s" using length_queue [OF assms(1)] assms(2) by simp
  then have u: "[0..tamanho s - 1] = 0 # [1..tamanho s - 1]" using upto_rec1 [of 0 "tamanho s - 1"] by simp
  have x: "x = at (fila s) (inicio_f s)" and q: "q = map (\<lambda>i. at (fila s) ((inicio_f s + i) mod 11)) [1..tamanho s - 1]"
    using assms unfolding queue_of_def u by (simp_all add: queue_ok_def)
  have sh: "[1..tamanho s - 1] = map (\<lambda>i. i + 1) [0..tamanho s - 1 - 1]"
    by (rule nth_equalityI) auto
  have n: "(inicio_f s + 1) smod 11 = (inicio_f s + 1) mod 11" using assms by (simp add: queue_ok_def smod_nonneg)
  have "at (upd (fila s) (inicio_f s) (- 1)) (((inicio_f s + 1) mod 11 + i) mod 11) = at (fila s) ((inicio_f s + (i + 1)) mod 11)"
    if "0 \<le> i" "i < tamanho s - 1" for i
  proof -
    have e: "((inicio_f s + 1) mod 11 + i) mod 11 = (inicio_f s + (i + 1)) mod 11"
      unfolding mod_add_left_eq by (simp only: ac_simps)
    have "(inicio_f s + (i + 1)) mod 11 \<noteq> (inicio_f s + 0) mod 11"
      using mod11_inj [of "i + 1" 0 "inicio_f s"] that assms by (auto simp: queue_ok_def)
    then have "(inicio_f s + (i + 1)) mod 11 \<noteq> inicio_f s" using assms by (simp add: queue_ok_def)
    then show ?thesis unfolding e using assms by (intro at_upd_neq) (auto simp: queue_ok_def)
  qed
  then show ?thesis
    using assms t x by (simp add: removerFILA_def rd_in wr_in queue_ok_def queue_of_def n q sh)
qed

lemma dequeue_empty: "queue_ok s \<Longrightarrow> queue_of s = [] \<Longrightarrow> removerFILA s = ok (s, - 1)"
  using length_queue [of s] by (simp add: removerFILA_def)

section \<open>The search\<close>

definition cheias :: "nat \<Rightarrow> string" where
  "cheias k = concat (replicate k fila_cheia)"

lemma cheias_simps [simp]: "cheias 0 = []" "cheias a @ cheias b = cheias (a + b)" "cheias (Suc 0) = fila_cheia"
  "cheias a @ cheias b @ t = cheias (a + b) @ t"
  by (simp_all add: cheias_def replicate_add)

lemma insert_any:
  assumes "queue_ok s"
  shows "\<exists>s'. inserirFILA x s = ok s' \<and> queue_ok s' \<and> cor s' = cor s \<and> queue_of s' = take 11 (queue_of s @ [x]) \<and>
    saida s' = saida s @ cheias (length (queue_of s @ [x]) - 11)"
proof (cases "tamanho s = 11")
  case True
  then have "length (queue_of s) = 11" using length_queue [OF assms] by simp
  with True assms show ?thesis by (simp add: inserirFILA_def queue_ok_def queue_of_def)
next
  case False
  then have "tamanho s < 11" "length (queue_of s) < 11" using length_queue [OF assms] assms by (auto simp: queue_ok_def)
  with enqueue [OF assms this(1), of x] show ?thesis by auto
qed

definition novas :: "int list list \<Rightarrow> int \<Rightarrow> int list \<Rightarrow> int \<Rightarrow> int list" where
  "novas G base c n = filter (\<lambda>j. at2 G base j \<noteq> - 1 \<and> at c j = 0) [0..n - 1]"

lemma novas_step: "0 \<le> n \<Longrightarrow> novas G base c (n + 1) = novas G base c n @ (if at2 G base n \<noteq> - 1 \<and> at c n = 0 then [n] else [])"
  using upto_rec2 [of 0 n] by (simp add: novas_def)

lemma scan_cidade:
  assumes G: "shape 11 G" "0 \<le> base" "base < 11" and s: "queue_ok s" "len (cor s) = 11"
  shows "wp (for_up 0 MAX_CIDADES (\<lambda>j s.
        bnd (rd2 G base j) (\<lambda>a.
        if a \<noteq> - 1 then bnd (rd (cor s) j) (\<lambda>k. if k = 0 then inserirFILA j s else ok s) else ok s)) s)
     (\<lambda>s'. queue_ok s' \<and> cor s' = cor s \<and> queue_of s' = take 11 (queue_of s @ novas G base (cor s) 11) \<and>
        saida s' = saida s @ cheias (length (queue_of s @ novas G base (cor s) 11) - 11))"
proof (rule wp_for_up [where I = "\<lambda>j s'. queue_ok s' \<and> cor s' = cor s \<and> queue_of s' = take 11 (queue_of s @ novas G base (cor s) j) \<and>
        saida s' = saida s @ cheias (length (queue_of s @ novas G base (cor s) j) - 11)"])
  show "queue_ok s \<and> cor s = cor s \<and> queue_of s = take 11 (queue_of s @ novas G base (cor s) 0) \<and>
        saida s = saida s @ cheias (length (queue_of s @ novas G base (cor s) 0) - 11)"
    using s length_queue [OF s(1)] by (simp add: novas_def queue_ok_def)
next
  fix j s' assume j: "0 \<le> j" "j < (11 :: int)" and I: "queue_ok s' \<and> cor s' = cor s \<and> queue_of s' = take 11 (queue_of s @ novas G base (cor s) j) \<and>
        saida s' = saida s @ cheias (length (queue_of s @ novas G base (cor s) j) - 11)"
  define xs where "xs = queue_of s @ novas G base (cor s) j"
  have x: "queue_of s' = take 11 xs" "saida s' = saida s @ cheias (length xs - 11)" using I by (simp_all only: xs_def)
  obtain s'' where ins: "inserirFILA j s' = ok s''" "queue_ok s''" "cor s'' = cor s'" "queue_of s'' = take 11 (queue_of s' @ [j])"
      "saida s'' = saida s' @ cheias (length (queue_of s' @ [j]) - 11)"
    using insert_any [of s' j] I by auto
  have "length xs - 11 + (min (length xs) 11 + 1 - 11) = Suc (length xs) - 11" by simp
  then have "saida s'' = saida s @ cheias (length (xs @ [j]) - 11)"
    using ins(5) x by (simp add: min.commute)
  moreover have "take 11 (take 11 xs @ [j]) = take 11 (xs @ [j])" for xs by (simp add: min_def)
  ultimately show "wp (bnd (rd2 G base j) (\<lambda>a.
        if a \<noteq> - 1 then bnd (rd (cor s') j) (\<lambda>k. if k = 0 then inserirFILA j s' else ok s') else ok s'))
     (\<lambda>s'. queue_ok s' \<and> cor s' = cor s \<and> queue_of s' = take 11 (queue_of s @ novas G base (cor s) (j + 1)) \<and>
        saida s' = saida s @ cheias (length (queue_of s @ novas G base (cor s) (j + 1)) - 11))"
    using j s G I ins(1-4) x by (simp add: wp_rd2 novas_step rd_in xs_def del: take_append length_append)
qed simp

definition ligadas :: "int list list \<Rightarrow> (int \<times> int) set" where
  "ligadas G = {(i, j). inside 11 i \<and> inside 11 j \<and> at2 G i j \<noteq> - 1}"

text \<open>The cities the loop still has to look at.\<close>

definition pendentes :: "int \<times> rota \<Rightarrow> int list" where
  "pendentes bs = (case bs of (base, s) \<Rightarrow> if base = - 1 then [] else base # queue_of s)"

definition rota_inv :: "int list list \<Rightarrow> int \<Rightarrow> string \<Rightarrow> int \<times> rota \<Rightarrow> bool" where
  "rota_inv G c t0 bs \<longleftrightarrow> (let s = snd bs; black = (\<lambda>x. inside 11 x \<and> at (cor s) x = 2) in
     queue_ok s \<and> len (cor s) = 11 \<and> (\<forall>x. inside 11 x \<longrightarrow> at (cor s) x = 0 \<or> at (cor s) x = 2) \<and>
     (\<forall>x \<in> set (pendentes bs). inside 11 x \<and> (c, x) \<in> (ligadas G)\<^sup>*) \<and>
     (\<forall>x. black x \<longrightarrow> (c, x) \<in> (ligadas G)\<^sup>*) \<and> (c \<in> set (pendentes bs) \<or> black c) \<and>
     (\<exists>k. saida s = t0 @ cheias k \<and>
        (k = 0 \<longrightarrow> (\<forall>x y. black x \<and> (x, y) \<in> ligadas G \<longrightarrow> black y \<or> y \<in> set (pendentes bs)))))"

definition brancas :: "int list \<Rightarrow> int set" where
  "brancas c = {x. inside 11 x \<and> at c x = 0}"

text \<open>The place of the first white city that is waiting, or something larger.\<close>

definition prio :: "int list \<Rightarrow> int list \<Rightarrow> nat" where
  "prio c L = (if \<exists>x \<in> set L. at c x = 0 then length (takeWhile (\<lambda>x. at c x \<noteq> 0) L) else 50 + length L)"

definition rota_measure :: "int \<times> rota \<Rightarrow> nat" where
  "rota_measure bs = 100 * card (brancas (cor (snd bs))) + prio (cor (snd bs)) (pendentes bs)"

lemma prio_less: "length L \<le> 12 \<Longrightarrow> prio c L < 100"
  using length_takeWhile_le [of "\<lambda>x. at c x \<noteq> 0" L] by (simp add: prio_def)

lemma prio_step:
  assumes "at c b \<noteq> 0" "length q \<le> 11" "\<forall>x \<in> set ws. at c x = 0"
  shows "prio c (take 11 (q @ ws)) < prio c (b # q)"
proof (cases "\<exists>x \<in> set q. at c x = 0")
  case True
  then have "takeWhile (\<lambda>x. at c x \<noteq> 0) (q @ zs) = takeWhile (\<lambda>x. at c x \<noteq> 0) q" for zs
    by (auto intro: takeWhile_append1)
  with True assms show ?thesis by (auto simp: prio_def)
next
  case False
  show ?thesis
  proof (cases "take (11 - length q) ws")
    case Nil
    with False assms show ?thesis by (auto simp: prio_def)
  next
    case (Cons w ws')
    then have "w \<in> set ws" by (metis in_set_takeD list.set_intros(1))
    then have "at c w = 0" using assms(3) by blast
    moreover have "takeWhile (\<lambda>x. at c x \<noteq> 0) (q @ w # ws') = q @ takeWhile (\<lambda>x. at c x \<noteq> 0) (w # ws')"
      using False by (intro takeWhile_append2) auto
    ultimately show ?thesis using False assms Cons by (auto simp: prio_def)
  qed
qed

lemma remove_next:
  assumes "queue_ok s" "\<forall>x \<in> set (queue_of s). inside 11 x"
  shows "\<exists>s' b. removerFILA s = ok (s', b) \<and> queue_ok s' \<and> pendentes (b, s') = queue_of s \<and> cor s' = cor s \<and> saida s' = saida s"
proof (cases "queue_of s")
  case Nil
  with dequeue_empty [OF assms(1)] assms(1) show ?thesis by (simp add: pendentes_def)
next
  case (Cons x q)
  then have "x \<noteq> - 1" using assms(2) by auto
  moreover obtain s' where "removerFILA s = ok (s', x)" "queue_ok s'" "queue_of s' = q" "cor s' = cor s" "saida s' = saida s"
    using dequeue [OF assms(1) Cons] by blast
  ultimately show ?thesis using Cons by (intro exI [of _ s'] exI [of _ x]) (simp add: pendentes_def)
qed

lemma cidade_passo_inv:
  assumes G: "shape 11 G" and inv: "rota_inv G c t0 (base, s)" and nz: "base \<noteq> - 1"
  shows "wp (cidade_passo G (base, s)) (\<lambda>bs. rota_inv G c t0 bs \<and> rota_measure bs < rota_measure (base, s))"
proof -
  define c1 where "c1 = upd (cor s) base 2"
  define s1 where "s1 = s\<lparr>cor := c1\<rparr>"
  define ws where "ws = novas G base c1 11"
  obtain k where i: "queue_ok s" "len (cor s) = 11" "\<forall>x. inside 11 x \<longrightarrow> at (cor s) x = 0 \<or> at (cor s) x = 2"
    "inside 11 base" "(c, base) \<in> (ligadas G)\<^sup>*" "\<forall>x \<in> set (queue_of s). inside 11 x \<and> (c, x) \<in> (ligadas G)\<^sup>*"
    "\<forall>x. inside 11 x \<and> at (cor s) x = 2 \<longrightarrow> (c, x) \<in> (ligadas G)\<^sup>*"
    "c \<in> insert base (set (queue_of s)) \<or> inside 11 c \<and> at (cor s) c = 2"
    "saida s = t0 @ cheias k" "k = 0 \<Longrightarrow> (inside 11 x \<and> at (cor s) x = 2) \<and> (x, y) \<in> ligadas G \<Longrightarrow>
        inside 11 y \<and> at (cor s) y = 2 \<or> y \<in> insert base (set (queue_of s))" for x y
    using inv nz by (auto simp: rota_inv_def Let_def pendentes_def)
  have c1: "at c1 x = (if x = base then 2 else at (cor s) x)" if "inside 11 x" for x
    using that i(2,4) by (simp add: c1_def at_upd)
  have s1: "queue_ok s1" "len (cor s1) = 11" "queue_of s1 = queue_of s" "saida s1 = saida s" "cor s1 = c1"
    using i(1,2) by (simp_all add: s1_def c1_def queue_ok_def queue_of_def)
  have ws: "x \<in> set ws \<longleftrightarrow> inside 11 x \<and> (base, x) \<in> ligadas G \<and> at c1 x = 0" for x
    using i(4) by (auto simp: ws_def novas_def ligadas_def)
  have lq: "length (queue_of s) \<le> 11" using length_queue [OF i(1)] i(1) by (simp add: queue_ok_def)
  from scan_cidade [OF G _ _ s1(1,2), of base] i(4) obtain s2 where s2:
    "for_up 0 MAX_CIDADES (\<lambda>j s. bnd (rd2 G base j) (\<lambda>a.
        if a \<noteq> - 1 then bnd (rd (cor s) j) (\<lambda>k. if k = 0 then inserirFILA j s else ok s) else ok s)) s1 = ok s2"
    "queue_ok s2" "cor s2 = c1" "queue_of s2 = take 11 (queue_of s @ ws)"
    "saida s2 = saida s @ cheias (length (queue_of s @ ws) - 11)"
    by (auto simp: wp_iff s1 ws_def simp del: for_up_step)
  have sub: "set (queue_of s2) \<subseteq> set (queue_of s) \<union> set ws" unfolding s2(4) using set_take_subset [of 11 "queue_of s @ ws"] by simp
  have reach: "inside 11 x \<and> (c, x) \<in> (ligadas G)\<^sup>*" if "x \<in> set (queue_of s2)" for x
    using sub that i(5,6) ws by (auto intro: rtrancl_into_rtrancl)
  obtain s3 b where s3: "removerFILA s2 = ok (s3, b)" "queue_ok s3" "pendentes (b, s3) = queue_of s2" "cor s3 = c1" "saida s3 = saida s2"
    using remove_next [OF s2(2)] reach s2(3) by auto
  have keep: "set (queue_of s) \<subseteq> set (queue_of s2)" unfolding s2(4) using lq by (simp add: take_append)
  have all: "set (queue_of s2) = set (queue_of s) \<union> set ws" if "length (queue_of s @ ws) \<le> 11"
    unfolding s2(4) using that by simp
  have "rota_inv G c t0 (b, s3)"
    unfolding rota_inv_def Let_def snd_conv s3(3-5)
  proof (intro conjI exI [of _ "k + (length (queue_of s @ ws) - 11)"])
    show "\<forall>x. inside 11 x \<and> at c1 x = 2 \<longrightarrow> (c, x) \<in> (ligadas G)\<^sup>*" using i(5,7) c1 by (auto split: if_splits)
    show "\<forall>x. inside 11 x \<longrightarrow> at c1 x = 0 \<or> at c1 x = 2" using i(3) c1 by auto
    show "c \<in> set (queue_of s2) \<or> inside 11 c \<and> at c1 c = 2" using i(4,8) c1 keep by auto
    show "k + (length (queue_of s @ ws) - 11) = 0 \<longrightarrow> (\<forall>x y. (inside 11 x \<and> at c1 x = 2) \<and> (x, y) \<in> ligadas G \<longrightarrow>
        (inside 11 y \<and> at c1 y = 2) \<or> y \<in> set (queue_of s2))"
    proof (intro impI allI, elim conjE)
      fix x y assume k: "k + (length (queue_of s @ ws) - 11) = 0" and x: "0 \<le> x" "x < 11" "at c1 x = 2" "(x, y) \<in> ligadas G"
      have y: "inside 11 y" using x(4) by (simp add: ligadas_def)
      show "(inside 11 y \<and> at c1 y = 2) \<or> y \<in> set (queue_of s2)"
      proof (cases "x = base")
        case True
        with x(4) y ws [of y] c1 [OF y] i(3) all k show ?thesis by auto
      next
        case False
        with x c1 have "at (cor s) x = 2" by simp
        with i(10) [of x y] x k y c1 [OF y] keep show ?thesis by auto
      qed
    qed
  qed (use s3(2) s2(5) i(2,9) reach in \<open>auto simp: c1_def\<close>)
  moreover have "rota_measure (b, s3) < rota_measure (base, s)"
  proof (cases "at (cor s) base = 0")
    case True
    have "brancas (cor s) = insert base (brancas c1)" "base \<notin> brancas c1"
      using True i(4) c1 by (auto simp: brancas_def split: if_splits)
    moreover have "finite (brancas c1)"
      unfolding brancas_def by (rule finite_subset [of _ "{0..<11}"]) auto
    ultimately have "card (brancas (cor s)) = Suc (card (brancas c1))" by simp
    moreover have "prio c1 (queue_of s2) < 100" by (rule prio_less) (simp add: s2(4))
    ultimately show ?thesis by (simp add: rota_measure_def s3)
  next
    case False
    then have "at (cor s) base = 2" using i(3,4) by auto
    then have "c1 = cor s" using i(4) upd_same [of "cor s" base] by (simp add: c1_def)
    moreover have "prio c1 (queue_of s2) < prio c1 (base # queue_of s)"
      unfolding s2(4) using lq ws c1 [OF i(4)] by (intro prio_step) auto
    ultimately show ?thesis using nz by (simp add: rota_measure_def s3 pendentes_def [of "(base, s)"])
  qed
  moreover have "cidade_passo G (base, s) = ok (b, s3)"
    using i(2,4) s2(1) s3(1) by (simp add: cidade_passo_def wr_in c1_def s1_def del: for_up_step)
  ultimately show ?thesis by simp
qed

lemma white_start:
  assumes "len (cor s) = 11"
  shows "wp (for_up 0 MAX_CIDADES (\<lambda>i s. bnd (wr (cor s) i 0) (\<lambda>c. ok (s\<lparr>cor := c\<rparr>))) s)
    (\<lambda>s'. \<exists>c. s' = s\<lparr>cor := c\<rparr> \<and> len c = 11 \<and> (\<forall>x. inside 11 x \<longrightarrow> at c x = 0))"
  by (rule wp_for_up [where I = "\<lambda>i s'. \<exists>c. s' = s\<lparr>cor := c\<rparr> \<and> len c = 11 \<and> (\<forall>x. 0 \<le> x \<and> x < i \<longrightarrow> at c x = 0)"])
    (use assms in \<open>auto simp: at_upd intro: exI [of _ "cor s"]\<close>)

definition nomes_de :: "string list \<Rightarrow> int set \<Rightarrow> int \<Rightarrow> string" where
  "nomes_de nomes S n = concat (map (\<lambda>i. if i \<in> S then nl @ at nomes i else []) [0..n - 1])"

lemma mostra_cidades:
  assumes "len nomes = 11" "len (cor s) = 11"
  shows "wp (for_up 0 MAX_CIDADES (\<lambda>i s. bnd (rd (cor s) i) (\<lambda>k.
      if k = 2 then bnd (rd nomes i) (\<lambda>n. ok (s\<lparr>saida := saida s @ nl @ n\<rparr>)) else ok s)) s)
    (\<lambda>s'. saida s' = saida s @ nomes_de nomes {x. inside 11 x \<and> at (cor s) x = 2} 11)"
proof (rule wp_for_up [where I = "\<lambda>i s'. cor s' = cor s \<and> saida s' = saida s @ nomes_de nomes {x. inside 11 x \<and> at (cor s) x = 2} i"])
  fix i s' assume "0 \<le> i" "i < (11 :: int)"
    and "cor s' = cor s \<and> saida s' = saida s @ nomes_de nomes {x. inside 11 x \<and> at (cor s) x = 2} i"
  moreover from this(1) have "[0..i + 1 - 1] = [0..i - 1] @ [i]" using upto_rec2 [of 0 i] by simp
  ultimately show "wp (bnd (rd (cor s') i) (\<lambda>k. if k = 2 then bnd (rd nomes i) (\<lambda>n. ok (s'\<lparr>saida := saida s' @ nl @ n\<rparr>)) else ok s'))
    (\<lambda>s'. cor s' = cor s \<and> saida s' = saida s @ nomes_de nomes {x. inside 11 x \<and> at (cor s) x = 2} (i + 1))"
    using assms by (simp add: nomes_de_def)
qed (simp_all add: nomes_de_def)

text \<open>
  C9: from every city the search of grafo2 ends, for every graph of eleven cities; it prints, in
  the order of their numbers, only cities that can be reached, the first among them, and all that can be
  reached unless the queue has overflowed (\<open>k\<close> times).
\<close>

theorem CaminhoNoGrafo_reaches:
  assumes "shape 11 G" "len nomes = 11" "queue_ok s" "tamanho s = 0" "len (cor s) = 11" "0 \<le> c" "c < 11"
  shows "\<exists>s' S k. CaminhoNoGrafo G nomes c s = ok s' \<and> saida s' = saida s @ cheias k @ nomes_de nomes S 11 @ nl \<and>
    c \<in> S \<and> S \<subseteq> {x. (c, x) \<in> (ligadas G)\<^sup>*} \<and> (k = 0 \<longrightarrow> S = {x. (c, x) \<in> (ligadas G)\<^sup>*})"
proof -
  obtain cs where w: "for_up 0 MAX_CIDADES (\<lambda>i s. bnd (wr (cor s) i 0) (\<lambda>c. ok (s\<lparr>cor := c\<rparr>))) s = ok (s\<lparr>cor := cs\<rparr>)"
    "len cs = 11" "\<forall>x. inside 11 x \<longrightarrow> at cs x = 0"
    using white_start [OF assms(5)] by (auto simp: wp_iff simp del: for_up_step)
  have "queue_of s = []" using length_queue [OF assms(3)] assms(4) by simp
  then have q: "queue_of (s\<lparr>cor := cs\<rparr>) = []" by (simp add: queue_of_def)
  have start: "rota_inv G c (saida s) (c, s\<lparr>cor := cs\<rparr>)"
    using assms w(2,3) q by (auto simp: rota_inv_def Let_def pendentes_def queue_ok_def intro!: exI [of _ 0])
  have "wp (while_run (\<lambda>(base, s). ok (base \<noteq> - 1)) (cidade_passo G) (c, s\<lparr>cor := cs\<rparr>))
      (\<lambda>bs. rota_inv G c (saida s) bs \<and> fst bs = - 1)"
    by (rule wp_while [where I = "rota_inv G c (saida s)" and m = rota_measure])
      (use start cidade_passo_inv [OF assms(1)] in \<open>auto split: prod.splits\<close>)
  then obtain s1 where s1: "while_run (\<lambda>(base, s). ok (base \<noteq> - 1)) (cidade_passo G) (c, s\<lparr>cor := cs\<rparr>) = ok (- 1, s1)"
    and inv: "rota_inv G c (saida s) (- 1, s1)"
    by (auto simp: wp_iff)
  define S where "S = {x. inside 11 x \<and> at (cor s1) x = 2}"
  have mem: "x \<in> S \<longleftrightarrow> inside 11 x \<and> at (cor s1) x = 2" for x by (simp add: S_def)
  have none: "pendentes (- 1, s1) = []" by (simp add: pendentes_def)
  note inv' = inv [unfolded rota_inv_def Let_def snd_conv none mem [symmetric] list.set empty_iff simp_thms]
  obtain k where k5: "saida s1 = saida s @ cheias k" "k = 0 \<longrightarrow> (\<forall>x y. x \<in> S \<and> (x, y) \<in> ligadas G \<longrightarrow> y \<in> S)"
    using inv' by blast
  have k: "len (cor s1) = 11" "S \<subseteq> {x. (c, x) \<in> (ligadas G)\<^sup>*}" "c \<in> S" using inv' by blast+
  have "y \<in> S" if "k = 0" "(c, y) \<in> (ligadas G)\<^sup>*" for y
    using that(2) by (induction rule: rtrancl_induct) (use k(3) k5(2) that(1) in blast)+
  then have "k = 0 \<longrightarrow> S = {x. (c, x) \<in> (ligadas G)\<^sup>*}" using k(2) by blast
  moreover obtain s2 where "for_up 0 MAX_CIDADES (\<lambda>i s. bnd (rd (cor s) i) (\<lambda>k.
      if k = 2 then bnd (rd nomes i) (\<lambda>n. ok (s\<lparr>saida := saida s @ nl @ n\<rparr>)) else ok s)) s1 = ok s2"
    "saida s2 = saida s1 @ nomes_de nomes S 11"
    using mostra_cidades [OF assms(2) k(1)] by (auto simp: wp_iff S_def simp del: for_up_step)
  ultimately show ?thesis
    using k(2-3) k5(1) by (intro exI [of _ "s2\<lparr>saida := saida s2 @ nl\<rparr>"] exI [of _ S] exI [of _ k])
      (simp add: CaminhoNoGrafo_def w(1) s1 del: for_up_step)
qed

text \<open>
  A graph on which the queue overflows: city 9 is reached from city 1 only, whose turn comes when
  the queue is full.
\<close>

definition cheio :: "int list list" where
  "cheio = [[-1, 1, 1, 1, 1, 1, 1, 1, 1, -1, -1], [-1, -1, 1, 1, 1, 1, -1, -1, -1, 1, -1]] @ replicate 9 (replicate 11 (- 1))"

lemma cidade_perdida:
  "bnd (CaminhoNoGrafo cheio (map dec [0..10]) 0 \<lparr>inicio_f = 0, tamanho = 0, fila = replicate 500 0, cor = replicate 11 0, saida = []\<rparr>)
     (\<lambda>s. ok (saida s)) =
   ok (fila_cheia @ concat (map (\<lambda>i. nl @ dec i) [0..8]) @ nl)"
  by code_simp

lemma cidade_perdida_ligada: "(0, 1) \<in> ligadas cheio" "(1, 9) \<in> ligadas cheio"
  by (simp_all add: ligadas_def at2_def at_def cheio_def)

theorem CaminhoNoGrafo_reaches_witness:
  "\<exists>s' S k. CaminhoNoGrafo cheio (map dec [0..10]) 0
       \<lparr>inicio_f = 0, tamanho = 0, fila = replicate 500 0, cor = replicate 11 0, saida = []\<rparr> = ok s' \<and>
     saida s' = cheias k @ nomes_de (map dec [0..10]) S 11 @ nl \<and> 0 \<in> S \<and> (9 \<in> S \<or> 0 < k)"
proof -
  have "(0, 9) \<in> (ligadas cheio)\<^sup>*" using cidade_perdida_ligada by (meson r_into_rtrancl rtrancl_trans)
  then show ?thesis
    using CaminhoNoGrafo_reaches [of cheio "map dec [0..10]"
      "\<lparr>inicio_f = 0, tamanho = 0, fila = replicate 500 0, cor = replicate 11 0, saida = []\<rparr>" 0]
    by (auto simp: shape_def cheio_def queue_ok_def)
qed

end
