(* ===== verification/Graph_Kruskal4.thy ===== *)
theory Graph_Kruskal4
  imports Graph_Kruskal Cxx_Matrix Cxx_Console
begin

text \<open>
  \<open>DataStructure/grafos/kruskals/kruskals4.cxx\<close>: Kruskal's algorithm on an adjacency matrix of at
  most eight vertices, numbered from 1, with 0 for the parent of a root.  The smallest
  entry is looked for again for every edge.  On a connected graph the program prints a minimum
  spanning tree, on any other it does not end.
\<close>

section \<open>The program\<close>

text \<open>The globals, except those only the loops use; \<open>ka\<close> to \<open>kv\<close> are \<open>a\<close>, \<open>b\<close>, \<open>u\<close>, \<open>v\<close>.\<close>

record kr4 = console +
  kcost :: "int list list"
  kparent :: "int list"
  kne :: int
  kmincost :: int
  kmin :: int
  ka :: int
  kb :: int
  ku :: int
  kv :: int

definition find4 :: "int list \<Rightarrow> int \<Rightarrow> int run" where
  "find4 p i = loop (\<lambda>i. bnd (rd p i) (\<lambda>q. if q \<noteq> 0 then bnd (rd p i) (\<lambda>q. ok (Inl q)) else ok (Inr i))) i"

definition uni4 :: "int list \<Rightarrow> int \<Rightarrow> int \<Rightarrow> (int list \<times> bool) run" where
  "uni4 p i j = (if i \<noteq> j then bnd (wr p j i) (\<lambda>p. ok (p, True)) else ok (p, False))"

definition menor4 :: "int \<Rightarrow> kr4 \<Rightarrow> kr4 run" where
  "menor4 n s =
     for_up 1 (n + 1) (\<lambda>i s. for_up 1 (n + 1) (\<lambda>j s.
       bnd (rd2 (kcost s) i j) (\<lambda>c.
       ok (if c < kmin s then s\<lparr>kmin := c, ka := i, ku := i, kb := j, kv := j\<rparr> else s))) s) (s\<lparr>kmin := 999\<rparr>)"

definition line4 :: "int \<Rightarrow> int \<Rightarrow> int \<Rightarrow> int \<Rightarrow> string" where
  "line4 ne a b w = nl @ tab @ dec ne @ '' edge ('' @ dec a @ '','' @ dec b @ ''): '' @ dec w @ nl"

definition passo4 :: "int \<Rightarrow> kr4 \<Rightarrow> kr4 run" where
  "passo4 n s =
     bnd (menor4 n s) (\<lambda>s.
     bnd (find4 (kparent s) (ku s)) (\<lambda>u.
     bnd (find4 (kparent s) (kv s)) (\<lambda>v.
     bnd (uni4 (kparent s) u v) (\<lambda>(p, joined).
     bnd (if joined then
            bnd (i32 (kmincost s + kmin s)) (\<lambda>m.
            ok (print (line4 (kne s) (ka s) (kb s) (kmin s)) (s\<lparr>kne := kne s + 1, kmincost := m\<rparr>)))
          else ok s) (\<lambda>s.
     bnd (wr2 (kcost s) (kb s) (ka s) 999) (\<lambda>c.
     bnd (wr2 c (ka s) (kb s) 999) (\<lambda>c.
     ok (s\<lparr>kcost := c, kparent := p, ku := u, kv := v\<rparr>))))))))"

definition header4 :: string where
  "header4 = nl @ tab @ ''Implementation of Kruskal'' @ [CHR 0x27] @ ''s algorithm'' @ nl @ tab @ ''Enter the no. of vertices: ''"

definition enter_costs4 :: string where
  "enter_costs4 = nl @ tab @ ''Enter the cost adjacency matrix: ''"

definition edges4 :: string where
  "edges4 = nl @ tab @ ''The edges of Minimum Cost Spanning Tree are'' @ nl"

definition ler4 :: "int \<Rightarrow> kr4 \<Rightarrow> kr4 run" where
  "ler4 n s =
     for_up 1 (n + 1) (\<lambda>i s. for_up 1 (n + 1) (\<lambda>j s.
       bnd (read_int s) (\<lambda>(s, x).
       bnd (wr2 (kcost s) i j x) (\<lambda>c.
       bnd (rd2 c i j) (\<lambda>y.
       if y = 0 then bnd (wr2 c i j 999) (\<lambda>c. ok (s\<lparr>kcost := c\<rparr>)) else ok (s\<lparr>kcost := c\<rparr>))))) s) s"

definition kruskal4_main :: "int list \<Rightarrow> kr4 run" where
  "kruskal4_main input =
     bnd (read_int (print header4
       \<lparr>inp = input, out = [], kcost = replicate 9 (replicate 9 0), kparent = replicate 9 0, kne = 1, kmincost = 0,
        kmin = 0, ka = 0, kb = 0, ku = 0, kv = 0\<rparr>)) (\<lambda>(s, n).
     bnd (ler4 n (print enter_costs4 s)) (\<lambda>s.
     bnd (while_run (\<lambda>s. ok (kne s < n)) (passo4 n) (print edges4 s)) (\<lambda>s.
     ok (print (nl @ tab @ ''Minimum cost: '' @ dec (kmincost s) @ nl @ nl) s))))"

section \<open>Find and union\<close>

text \<open>Vertex \<open>u + 1\<close> is element \<open>u\<close> of the partition.\<close>

definition par4 :: "int list \<Rightarrow> int \<Rightarrow> int" where
  "par4 p u = (if at p (u + 1) = 0 then u else at p (u + 1) - 1)"

definition holds4 :: "int \<Rightarrow> int list \<Rightarrow> (int \<Rightarrow> int) \<Rightarrow> bool" where
  "holds4 n p rep \<longleftrightarrow> len p = 9 \<and> n \<le> 8 \<and> at p 0 = 0 \<and> (\<forall>u. 0 \<le> u \<and> u < n \<longrightarrow> at p (u + 1) \<noteq> u + 1) \<and> uf n (par4 p) (\<lambda>u. 0) rep"

definition find4_pair :: "int list \<Rightarrow> int \<Rightarrow> (int list \<times> int) run" where
  "find4_pair p u = bnd (find4 p (u + 1)) (\<lambda>x. ok (p, x - 1))"

definition unite4 :: "int list \<Rightarrow> int \<Rightarrow> int \<Rightarrow> int list run" where
  "unite4 p x y = wr p (y + 1) (x + 1)"

lemma find4_step:
  "0 \<le> i \<Longrightarrow> i < len p \<Longrightarrow> find4 p i = (if at p i = 0 then ok i else find4 p (at p i))"
  unfolding find4_def by (subst loop_unfold) (simp add: rd_in)

lemma find4_root:
  assumes "holds4 n p rep"
  shows "0 \<le> u \<Longrightarrow> u < n \<Longrightarrow> find4 p (u + 1) = ok (rep u + 1)"
proof -
  from assms obtain d :: "int \<Rightarrow> nat" where d: "\<And>u. 0 \<le> u \<Longrightarrow> u < n \<Longrightarrow> par4 p u \<noteq> u \<Longrightarrow> d (par4 p u) < d u"
    and h: "len p = 9" "n \<le> 8" "uf n (par4 p) (\<lambda>u. 0) rep"
      "\<And>u. 0 \<le> u \<Longrightarrow> u < n \<Longrightarrow> at p (u + 1) \<noteq> u + 1"
    by (auto simp: holds4_def uf_def)
  show "0 \<le> u \<Longrightarrow> u < n \<Longrightarrow> find4 p (u + 1) = ok (rep u + 1)"
  proof (induction "d u" arbitrary: u rule: less_induct)
    case less
    note par = uf_parent [OF h(3) less.prems]
    have st: "find4 p (u + 1) = (if at p (u + 1) = 0 then ok (u + 1) else find4 p (at p (u + 1)))"
      using less.prems h by (intro find4_step) auto
    show ?case
    proof (cases "at p (u + 1) = 0")
      case True
      then have "par4 p u = u" by (simp add: par4_def)
      with uf_self [OF h(3) less.prems] st True show ?thesis by simp
    next
      case False
      then have q: "par4 p u = at p (u + 1) - 1" by (simp add: par4_def)
      then have "par4 p u \<noteq> u" using h(4) [OF less.prems] by simp
      from less.hyps [OF d [OF less.prems this]] par have "find4 p (at p (u + 1)) = ok (rep u + 1)" by (simp add: q)
      with st False show ?thesis by simp
    qed
  qed
qed

lemma unite4_merges:
  assumes h: "holds4 n p rep" and x: "0 \<le> x" "x < n" "rep x = x" and y: "0 \<le> y" "y < n" "rep y = y" and ne: "x \<noteq> y"
  shows "wp (unite4 p x y) (\<lambda>p'. \<exists>rep'. holds4 n p' rep' \<and> merged n rep x y rep')"
proof -
  let ?p = "upd p (y + 1) (x + 1)"
  have h': "len p = 9" "n \<le> 8" "at p 0 = 0" "\<And>u. 0 \<le> u \<Longrightarrow> u < n \<Longrightarrow> at p (u + 1) \<noteq> u + 1" "uf n (par4 p) (\<lambda>u. 0) rep"
    using h by (auto simp: holds4_def)
  have "par4 ?p u = ((par4 p)(y := x)) u" if "0 \<le> u" "u < n" for u
    using that x y h'(1,2) by (simp add: par4_def at_upd)
  moreover have "uf n ((par4 p)(y := x)) (\<lambda>u. 0) (relink rep y x)"
    by (rule uf_link [OF h'(5) y x]) (use ne in auto)
  ultimately have "uf n (par4 ?p) (\<lambda>u. 0) (relink rep y x)" 
    using uf_cong [of n "(par4 p)(y := x)" "\<lambda>u. 0" "relink rep y x" "par4 ?p" "\<lambda>u. 0"] by blast
  then have "holds4 n ?p (relink rep y x)"
    using h' x y ne by (auto simp: holds4_def at_upd)
  with merged_relink(2) [OF x(3) y(3) ne] show ?thesis
    using h' y by (auto simp: unite4_def)
qed

interpretation d4: disjoint_sets n "holds4 n" find4_pair unite4 for n
proof
  fix p rep u assume h: "holds4 n p rep" and u: "0 \<le> u" "u < n"
  show "wp (find4_pair p u) (\<lambda>(p', x). holds4 n p' rep \<and> x = rep u)"
    using find4_root [OF h u] h by (simp add: find4_pair_def)
  show "0 \<le> rep u \<and> rep u < n \<and> rep (rep u) = rep u"
    using uf_rep [of n "par4 p" "\<lambda>u. 0" rep, OF _ u] h by (simp add: holds4_def)
qed (rule unite4_merges)

lemma start4: "n \<le> 8 \<Longrightarrow> holds4 n (replicate 9 0) (\<lambda>u. u)"
proof -
  assume n: "n \<le> 8"
  have "at (replicate 9 0) u = (0 :: int)" if "0 \<le> u" "u < 9" for u using that by (simp add: at_def)
  moreover from this have "uf n (par4 (replicate 9 0)) (\<lambda>u. 0) (\<lambda>u. u)"
    using n by (intro uf_cong [OF uf_start]) (simp_all add: par4_def)
  ultimately show ?thesis using n by (simp add: holds4_def)
qed

section \<open>The smallest entry\<close>

definition before :: "int \<Rightarrow> int \<Rightarrow> int \<Rightarrow> int \<Rightarrow> int \<Rightarrow> bool" where
  "before n i j x y \<longleftrightarrow> 1 \<le> x \<and> x \<le> n \<and> 1 \<le> y \<and> y \<le> n \<and> (x < i \<or> x = i \<and> y < j)"

definition best4 :: "int \<Rightarrow> int \<Rightarrow> int \<Rightarrow> kr4 \<Rightarrow> kr4 \<Rightarrow> bool" where
  "best4 n i j s s' \<longleftrightarrow> (let C = at2 (kcost s) in
     (\<forall>x y. before n i j x y \<longrightarrow> 999 \<le> C x y) \<and> s' = s\<lparr>kmin := 999\<rparr> \<or>
     (\<exists>a b. before n i j a b \<and> C a b < 999 \<and> (\<forall>x y. before n i j x y \<longrightarrow> C a b \<le> C x y) \<and>
        (\<forall>x y. before n a b x y \<longrightarrow> C a b < C x y) \<and> s' = s\<lparr>kmin := C a b, ka := a, ku := a, kb := b, kv := b\<rparr>))"

lemma before_step:
  "1 \<le> i \<Longrightarrow> i \<le> n \<Longrightarrow> 1 \<le> j \<Longrightarrow> j \<le> n \<Longrightarrow> before n i (j + 1) x y \<longleftrightarrow> before n i j x y \<or> x = i \<and> y = j"
  by (auto simp: before_def)

lemma before_row: "before n i (n + 1) x y \<longleftrightarrow> before n (i + 1) 1 x y"
  by (auto simp: before_def)

lemma best4_step:
  assumes best: "best4 n i j s s'" and ij: "1 \<le> i" "i \<le> n" "1 \<le> j" "j \<le> n"
  shows "best4 n i (j + 1) s (if at2 (kcost s') i j < kmin s' then s'\<lparr>kmin := at2 (kcost s') i j, ka := i, ku := i, kb := j, kv := j\<rparr> else s')"
proof -
  let ?C = "at2 (kcost s)"
  consider (none) "\<forall>x y. before n i j x y \<longrightarrow> 999 \<le> ?C x y" "s' = s\<lparr>kmin := 999\<rparr>"
    | (some) a b where "before n i j a b" "?C a b < 999" "\<forall>x y. before n i j x y \<longrightarrow> ?C a b \<le> ?C x y"
      "\<forall>x y. before n a b x y \<longrightarrow> ?C a b < ?C x y" "s' = s\<lparr>kmin := ?C a b, ka := a, ku := a, kb := b, kv := b\<rparr>"
    using best by (auto simp: best4_def Let_def)
  then show ?thesis
  proof cases
    case none
    show ?thesis
    proof (cases "?C i j < 999")
      case True
      with none have "\<forall>x y. before n i j x y \<longrightarrow> ?C i j < ?C x y" by force
      with none True show ?thesis
        unfolding best4_def Let_def before_step [OF ij]
        by - (rule disjI2, rule exI [of _ i], rule exI [of _ j], auto intro: less_imp_le)
    next
      case False
      with none show ?thesis
        unfolding best4_def Let_def before_step [OF ij] by (intro disjI1) auto
    qed
  next
    case (some a b)
    show ?thesis
    proof (cases "?C i j < ?C a b")
      case True
      with some have "\<forall>x y. before n i j x y \<longrightarrow> ?C i j < ?C x y" "?C i j < 999" by force+
      with some True show ?thesis
        unfolding best4_def Let_def before_step [OF ij]
        by - (rule disjI2, rule exI [of _ i], rule exI [of _ j], auto intro: less_imp_le)
    next
      case False
      with some show ?thesis
        unfolding best4_def Let_def before_step [OF ij]
        by - (rule disjI2, rule exI [of _ a], rule exI [of _ b], auto intro: less_imp_le)
    qed
  qed
qed

lemma menor4_best:
  assumes "shape 9 (kcost s)" "n \<le> 8"
  shows "wp (menor4 n s) (best4 n (n + 1) 1 s)"
proof (cases "1 \<le> n")
  case True
  have kc: "kcost s' = kcost s" if "best4 n i j s s'" for i j s' using that by (auto simp: best4_def Let_def)
  show ?thesis
    unfolding menor4_def
  proof (rule wp_for_up [where I = "\<lambda>i. best4 n i 1 s"])
    show "best4 n 1 1 s (s\<lparr>kmin := 999\<rparr>)" by (auto simp: best4_def Let_def before_def)
  next
    fix i s' assume i: "1 \<le> i" "i < n + 1" and b: "best4 n i 1 s s'"
    show "wp (for_up 1 (n + 1) (\<lambda>j s. bnd (rd2 (kcost s) i j) (\<lambda>c.
       ok (if c < kmin s then s\<lparr>kmin := c, ka := i, ku := i, kb := j, kv := j\<rparr> else s))) s') (best4 n (i + 1) 1 s)"
    proof (rule wp_for_up [where I = "\<lambda>j. best4 n i j s"])
      fix j t assume j: "1 \<le> j" "j < n + 1" and b: "best4 n i j s t"
      have "shape 9 (kcost t)" using kc [OF b] assms(1) by simp
      then show "wp (bnd (rd2 (kcost t) i j) (\<lambda>c.
         ok (if c < kmin t then t\<lparr>kmin := c, ka := i, ku := i, kb := j, kv := j\<rparr> else t))) (best4 n i (j + 1) s)"
        using best4_step [OF b] i j assms(2) by (simp add: wp_rd2)
    next
      fix t assume "best4 n i (max 1 (n + 1)) s t"
      then show "best4 n (i + 1) 1 s t" using True by (simp add: best4_def before_row)
    qed (fact b)
  qed (use True in simp)
next
  case False
  then show ?thesis by (auto simp: menor4_def best4_def Let_def before_def)
qed

section \<open>The loop\<close>

lemma find4_roots:
  assumes "holds4 n p rep" "0 \<le> u" "u < n"
  shows "at p (rep u + 1) = 0" "0 \<le> rep u" "rep u < n"
proof -
  have h: "uf n (par4 p) (\<lambda>u. 0) rep" "\<And>u. 0 \<le> u \<Longrightarrow> u < n \<Longrightarrow> at p (u + 1) \<noteq> u + 1"
    using assms(1) by (auto simp: holds4_def)
  note r = uf_rep [OF h(1) assms(2,3)]
  then show "0 \<le> rep u" "rep u < n" by auto
  then show "at p (rep u + 1) = 0" using h(2) [of "rep u"] r by (auto simp: par4_def split: if_splits)
qed

abbreviation ends1 :: "int \<times> int \<Rightarrow> int \<times> int" where
  "ends1 \<equiv> \<lambda>(i, j). (i - 1, j - 1)"

definition edges_of :: "int \<Rightarrow> (int \<Rightarrow> int \<Rightarrow> int) \<Rightarrow> (int \<times> int) set" where
  "edges_of n c = {(i, j). 1 \<le> i \<and> i \<le> j \<and> j \<le> n \<and> c i j < 999}"

definition wt4 :: "(int \<Rightarrow> int \<Rightarrow> int) \<Rightarrow> int \<times> int \<Rightarrow> int" where
  "wt4 c e = c (fst e) (snd e)"

primrec lines_from :: "int \<Rightarrow> (int \<Rightarrow> int \<Rightarrow> int) \<Rightarrow> (int \<times> int) list \<Rightarrow> string" where
  "lines_from k c [] = []"
| "lines_from k c (e # es) = line4 k (fst e) (snd e) (wt4 c e) @ lines_from (k + 1) c es"

definition lines4 :: "(int \<Rightarrow> int \<Rightarrow> int) \<Rightarrow> (int \<times> int) list \<Rightarrow> string" where
  "lines4 = lines_from 1"

lemma lines_from_snoc: "lines_from k c (es @ [e]) = lines_from k c es @ line4 (k + len es) (fst e) (snd e) (wt4 c e)"
  by (induction es arbitrary: k) (simp_all add: add.assoc add.commute add.left_commute)

lemma lines4_snoc [simp]: "lines4 c [] = []" "lines4 c (es @ [e]) = lines4 c es @ line4 (1 + len es) (fst e) (snd e) (wt4 c e)"
  by (simp_all add: lines4_def lines_from_snoc)

text \<open>The edges \<open>es\<close> have been looked at.\<close>

definition turn4 :: "int \<Rightarrow> (int \<Rightarrow> int \<Rightarrow> int) \<Rightarrow> string \<Rightarrow> (int \<times> int) list \<Rightarrow> kr4 \<Rightarrow> bool" where
  "turn4 n c t0 es s \<longleftrightarrow> shape 9 (kcost s) \<and>
     (\<forall>i j. 1 \<le> i \<and> i \<le> n \<and> 1 \<le> j \<and> j \<le> n \<longrightarrow>
        at2 (kcost s) i j = (if (i, j) \<in> set es \<or> (j, i) \<in> set es then 999 else c i j)) \<and>
     set es \<subseteq> edges_of n c \<and> sorted_wrt (\<lambda>e f. wt4 c e \<le> wt4 c f) es \<and>
     (\<forall>e \<in> set es. \<forall>f \<in> edges_of n c - set es. wt4 c e \<le> wt4 c f) \<and>
     (\<exists>k. d4.parts n ends1 (foldl (grow ends1) {} es) k (kparent s) \<and> length (picked ends1 {} es) + k = nat n) \<and>
     kne s = 1 + len (picked ends1 {} es) \<and> kmincost s = sum_list (map (wt4 c) (picked ends1 {} es)) \<and>
     out s = t0 @ lines4 c (picked ends1 {} es) \<and>
     (\<exists>x. find4 (kparent s) (ku s) = ok x \<and> find4 (kparent s) (kv s) = ok x \<and> inside 9 x \<and> at (kparent s) x = 0) \<and>
     len (kparent s) = 9 \<and> ((ka s, kb s) = (0, 0) \<or> (ka s, kb s) \<in> set es)"

lemma sum_bounds:
  assumes "\<forall>e \<in> set es. 0 \<le> f e \<and> f e \<le> (b :: int)"
  shows "0 \<le> sum_list (map f es) \<and> sum_list (map f es) \<le> b * len es"
  using assms by (induction es) (auto simp: algebra_simps)

lemma if_or: "(if P then v else if Q \<and> R then v else x) = (if P \<or> R \<and> Q then v else x)"
  by auto

lemma write_both:
  assumes "shape 9 m" "inside 9 a" "inside 9 b"
  shows "\<exists>m'. bnd (wr2 m b a v) (\<lambda>c. wr2 c a b v) = ok m' \<and> shape 9 m' \<and>
    (\<forall>i j. inside 9 i \<and> inside 9 j \<longrightarrow> at2 m' i j = (if (i, j) = (a, b) \<or> (j, i) = (a, b) then v else at2 m i j))"
proof -
  have "wr2 m' i j v = ok (upd2 m' i j v)" if "shape 9 m'" "inside 9 i" "inside 9 j" for m' i j
    using that by (simp add: wp_eq_ok [symmetric] wp_wr2)
  from this [OF assms(1,3,2)] this [OF shape_upd2 [OF assms(1,3,2)] assms(2,3)]
  have "wr2 m b a v = ok (upd2 m b a v)" "wr2 (upd2 m b a v) a b v = ok (upd2 (upd2 m b a v) a b v)" .
  moreover have "at2 (upd2 (upd2 m b a v) a b v) i j = (if (i, j) = (a, b) \<or> (j, i) = (a, b) then v else at2 m i j)"
    if "inside 9 i \<and> inside 9 j" for i j
  proof -
    have i: "inside 9 i" "inside 9 j" using that by simp_all
    have "at2 (upd2 (upd2 m b a v) a b v) i j = (if i = a \<and> j = b then v else at2 (upd2 m b a v) i j)"
      by (rule at2_upd2 [OF shape_upd2 [OF assms(1,3,2)] assms(2,3) i])
    also have "at2 (upd2 m b a v) i j = (if i = b \<and> j = a then v else at2 m i j)"
      by (rule at2_upd2 [OF assms(1,3,2) i])
    finally have e: "at2 (upd2 (upd2 m b a v) a b v) i j =
      (if i = a \<and> j = b then v else if i = b \<and> j = a then v else at2 m i j)" .
    show ?thesis unfolding e prod.inject by (rule if_or)
  qed
  moreover have "shape 9 (upd2 (upd2 m b a v) a b v)"
    by (rule shape_upd2 [OF shape_upd2 [OF assms(1,3,2)] assms(2,3)])
  ultimately show ?thesis 
    by (intro exI [of _ "upd2 (upd2 m b a v) a b v"] conjI allI impI) (simp only: bnd_ok, assumption, blast)
qed

lemma picked_subset: "set (picked ends F es) \<subseteq> set es"
  by (induction es arbitrary: F) auto

lemma turn4_step:
  assumes t: "turn4 n c t0 es s" and n: "n \<le> 8" and c: "\<And>i j. c i j = c j i" "\<And>i j. 0 \<le> c i j"
  shows "\<exists>s' es'. passo4 n s = ok s' \<and> turn4 n c t0 es' s' \<and>
    (if set es = edges_of n c then es' = es else (\<exists>e. e \<in> edges_of n c - set es \<and> es' = es @ [e]))"
proof -
  have shp: "shape 9 (kcost s)" using t by (simp add: turn4_def)
  obtain s1 where m: "menor4 n s = ok s1" "best4 n (n + 1) 1 s s1"
    using menor4_best [OF shp n] by (auto simp: wp_iff)
  let ?F = "foldl (grow ends1) {} es" and ?ps = "picked ends1 {} es"
  have all: "before n (n + 1) 1 x y \<longleftrightarrow> 1 \<le> x \<and> x \<le> n \<and> 1 \<le> y \<and> y \<le> n" for x y by (auto simp: before_def)
  have C: "at2 (kcost s) i j = (if (i, j) \<in> set es \<or> (j, i) \<in> set es then 999 else c i j)" if "1 \<le> i" "i \<le> n" "1 \<le> j" "j \<le> n" for i j
    using t that by (simp add: turn4_def)
  consider (none) "\<forall>x y. 1 \<le> x \<and> x \<le> n \<and> 1 \<le> y \<and> y \<le> n \<longrightarrow> 999 \<le> at2 (kcost s) x y" "s1 = s\<lparr>kmin := 999\<rparr>"
    | (some) a b where "1 \<le> a" "a \<le> n" "1 \<le> b" "b \<le> n" "at2 (kcost s) a b < 999"
      "\<forall>x y. 1 \<le> x \<and> x \<le> n \<and> 1 \<le> y \<and> y \<le> n \<longrightarrow> at2 (kcost s) a b \<le> at2 (kcost s) x y"
      "\<forall>x y. before n a b x y \<longrightarrow> at2 (kcost s) a b < at2 (kcost s) x y"
      "s1 = s\<lparr>kmin := at2 (kcost s) a b, ka := a, ku := a, kb := b, kv := b\<rparr>"
    using m(2) unfolding best4_def Let_def all by blast
  then show ?thesis
  proof cases
    case none
    have "e \<in> set es" if "e \<in> edges_of n c" for e
    proof -
      obtain i j where e: "e = (i, j)" by force
      with that have ij: "1 \<le> i" "i \<le> n" "1 \<le> j" "j \<le> n" "i \<le> j" "c i j < 999" by (auto simp: edges_of_def)
      then have "999 \<le> at2 (kcost s) i j" using none(1) by blast
      with C [OF ij(1-4)] ij(6) have "(i, j) \<in> set es \<or> (j, i) \<in> set es" by (simp split: if_splits)
      moreover have "i = j" if "(j, i) \<in> set es" using that t \<open>i \<le> j\<close> by (force simp: turn4_def edges_of_def)
      ultimately show ?thesis by (auto simp: e)
    qed
    then have E: "set es = edges_of n c" using t by (auto simp: turn4_def)
    obtain x where x: "find4 (kparent s) (ku s) = ok x" "find4 (kparent s) (kv s) = ok x" "inside 9 x" "at (kparent s) x = 0"
      "len (kparent s) = 9"
      using t by (auto simp: turn4_def)
    have ab: "(ka s, kb s) = (0, 0) \<or> (ka s, kb s) \<in> set es" using t by (simp add: turn4_def)
    then have "inside 9 (ka s)" "inside 9 (kb s)" using n unfolding E by (auto simp: edges_of_def)
    then obtain m' where m': "bnd (wr2 (kcost s) (kb s) (ka s) 999) (\<lambda>c. wr2 c (ka s) (kb s) 999) = ok m'" "shape 9 m'"
      "\<forall>i j. inside 9 i \<and> inside 9 j \<longrightarrow> at2 m' i j = (if (i, j) = (ka s, kb s) \<or> (j, i) = (ka s, kb s) then 999 else at2 (kcost s) i j)"
      using write_both [OF shp] by blast
    have "passo4 n s = bnd (bnd (wr2 (kcost s) (kb s) (ka s) 999) (\<lambda>c. wr2 c (ka s) (kb s) 999)) (\<lambda>c.
      ok (s1\<lparr>kcost := c, ku := x, kv := x\<rparr>))"
      unfolding passo4_def m(1) bnd_ok none(2) by (simp add: x(1,2) uni4_def bnd_assoc cong del: bnd_weak_cong)
    then have "passo4 n s = ok (s1\<lparr>kcost := m', ku := x, kv := x\<rparr>)" unfolding m'(1) by simp
    moreover have "at2 m' i j = (if (i, j) \<in> set es \<or> (j, i) \<in> set es then 999 else c i j)"
      if "1 \<le> i" "i \<le> n" "1 \<le> j" "j \<le> n" for i j
      using C [OF that] that m'(3) ab n by auto
    then have "turn4 n c t0 es (s1\<lparr>kcost := m', ku := x, kv := x\<rparr>)"
      using t m'(2) x(3-5) ab find4_step [of x "kparent s"] by (simp add: turn4_def none(2))
    ultimately show ?thesis using E by auto
  next
    case (some a b)
    let ?e = "(a, b)"
    have new: "?e \<notin> set es" "(b, a) \<notin> set es" and w: "at2 (kcost s) a b = c a b"
      using C [OF some(1-4)] some(5) by (auto split: if_splits)
    have "a \<le> b"
    proof (rule ccontr)
      assume "\<not> a \<le> b"
      then have "before n a b b a" using some(1-4) by (simp add: before_def)
      then have "c a b < at2 (kcost s) b a" using some(7) w by metis
      with C [OF some(3,4,1,2)] new c(1) show False by simp
    qed
    then have e: "?e \<in> edges_of n c - set es" using some(1-5) w new by (simp add: edges_of_def)
    have low: "wt4 c ?e \<le> wt4 c f" if f: "f \<in> edges_of n c - set es" for f
    proof -
      obtain i j where ij: "f = (i, j)" "1 \<le> i" "i \<le> n" "1 \<le> j" "j \<le> n" "i \<le> j" using f by (auto simp: edges_of_def)
      have "j = i" if "(j, i) \<in> set es" using that t ij(6) by (force simp: turn4_def edges_of_def)
      then have "at2 (kcost s) i j = c i j" using C [OF ij(2-5)] f ij(1) by auto
      moreover have "at2 (kcost s) a b \<le> at2 (kcost s) i j" using some(6) ij(2-5) by blast
      ultimately show ?thesis using w by (simp add: wt4_def ij(1))
    qed
    obtain k rep where P: "d4.parts n ends1 ?F k (kparent s)" "length ?ps + k = nat n"
      and h: "holds4 n (kparent s) rep"
      using t by (auto simp: turn4_def d4.parts_def)
    define x y where "x = rep (a - 1) + 1" and "y = rep (b - 1) + 1"
    note ra = find4_roots [OF h, of "a - 1"] and rb = find4_roots [OF h, of "b - 1"]
    have xy: "find4 (kparent s) a = ok x" "find4 (kparent s) b = ok y" "inside 9 x" "inside 9 y"
      "at (kparent s) x = 0" "at (kparent s) y = 0" "x \<noteq> 0"
      using find4_root [OF h, of "a - 1"] find4_root [OF h, of "b - 1"] ra rb some(1-4) n
      by (auto simp: x_def y_def)
    have len: "len (kparent s) = 9" using h by (simp add: holds4_def)
    have step: "x = y \<longleftrightarrow> linked ends1 ?F ?e"
      "x \<noteq> y \<Longrightarrow> 0 < k \<and> wp (wr (kparent s) y x) (d4.parts n ends1 (insert ?e ?F) (k - 1))"
      using d4.edge_step [OF P(1), of ?e "a - 1" "b - 1"] some(1-4) xy(1,2)
      by (simp_all add: find4_pair_def unite4_def split: if_splits)
    obtain m' where m': "bnd (wr2 (kcost s) b a 999) (\<lambda>c. wr2 c a b 999) = ok m'" "shape 9 m'"
      "\<forall>i j. inside 9 i \<and> inside 9 j \<longrightarrow> at2 m' i j = (if (i, j) = ?e \<or> (j, i) = ?e then 999 else at2 (kcost s) i j)"
      using write_both [OF shp, of a b 999] some(1-4) n by auto
    have mat: "at2 m' i j = (if (i, j) \<in> set (es @ [?e]) \<or> (j, i) \<in> set (es @ [?e]) then 999 else c i j)"
      if "1 \<le> i" "i \<le> n" "1 \<le> j" "j \<le> n" for i j
      using C [OF that] that m'(3) n by auto
    have base: "set (es @ [?e]) \<subseteq> edges_of n c" "sorted_wrt (\<lambda>e f. wt4 c e \<le> wt4 c f) (es @ [?e])"
      "\<forall>e' \<in> set (es @ [?e]). \<forall>f \<in> edges_of n c - set (es @ [?e]). wt4 c e' \<le> wt4 c f"
      using t e low by (auto simp: turn4_def sorted_wrt_append)
    have pre: "passo4 n s = bnd (uni4 (kparent s) x y) (\<lambda>(p, joined).
     bnd (if joined then
            bnd (i32 (kmincost s1 + kmin s1)) (\<lambda>m.
            ok (print (line4 (kne s1) (ka s1) (kb s1) (kmin s1)) (s1\<lparr>kne := kne s1 + 1, kmincost := m\<rparr>)))
          else ok s1) (\<lambda>s2. bnd (bnd (wr2 (kcost s2) (kb s2) (ka s2) 999) (\<lambda>c. wr2 c (ka s2) (kb s2) 999)) (\<lambda>c.
     ok (s2\<lparr>kcost := c, kparent := p, ku := x, kv := y\<rparr>))))"
    proof -
      have "find4 (kparent s1) (ku s1) = ok x" "find4 (kparent s1) (kv s1) = ok y" "kparent s1 = kparent s"
        using xy(1,2) by (simp_all add: some(8))
      then show ?thesis unfolding passo4_def m(1) bnd_ok by (simp add: bnd_assoc cong del: bnd_weak_cong)
    qed
    have s1: "kcost s1 = kcost s" "ka s1 = a" "kb s1 = b" "kmincost s1 = kmincost s" "kmin s1 = c a b" "kne s1 = kne s"
      by (simp_all add: some(8) w)
    show ?thesis
    proof (cases "x = y")
      case True
      then have "uni4 (kparent s) x y = ok (kparent s, False)" by (simp add: uni4_def)
      then have "passo4 n s = ok (s1\<lparr>kcost := m', kparent := kparent s, ku := x, kv := y\<rparr>)"
        unfolding pre by (simp only: bnd_ok prod.case if_False s1 m'(1))
      moreover have "turn4 n c t0 (es @ [?e]) (s1\<lparr>kcost := m', kparent := kparent s, ku := x, kv := y\<rparr>)"
        using t mat m'(2) base P step(1) True xy len find4_step [of x "kparent s"]
        by (auto simp: turn4_def some(8) picked_snoc grow_def)
      ultimately show ?thesis using e by auto
    next
      case False
      obtain p' where p': "wr (kparent s) y x = ok p'" "p' = upd (kparent s) y x" "d4.parts n ends1 (insert ?e ?F) (k - 1) p'" "0 < k"
        using step(2) [OF False] xy(3,4) len by (auto simp: wr_in)
      have roots: "find4 p' x = ok x" "find4 p' y = ok x" "at p' x = 0" "len p' = 9"
        using p'(2) xy(3-7) False len find4_step [of x p'] find4_step [of y p'] by (auto simp: at_upd)
      have "\<forall>e \<in> set ?ps. 0 \<le> wt4 c e \<and> wt4 c e \<le> 998"
        using t picked_subset [of ends1 "{}" es] c(2) by (force simp: turn4_def edges_of_def wt4_def)
      from sum_bounds [OF this] P(2) p'(4) n have "0 \<le> kmincost s + c a b" "kmincost s + c a b \<le> int_max"
        using t c(2) [of a b] some(5) w by (auto simp: turn4_def)
      then have ov: "i32 (kmincost s + c a b) = ok (kmincost s + c a b)" by (intro i32_in) auto
      have u: "uni4 (kparent s) x y = ok (p', True)" using False p'(1) by (simp add: uni4_def)
      let ?s2 = "print (line4 (kne s) a b (c a b)) (s1\<lparr>kne := kne s + 1, kmincost := kmincost s + c a b\<rparr>)"
      have s2: "kcost ?s2 = kcost s" "ka ?s2 = a" "kb ?s2 = b" by (simp_all add: print_def s1)
      have "passo4 n s = ok (?s2\<lparr>kcost := m', kparent := p', ku := x, kv := y\<rparr>)"
        unfolding pre u bnd_ok prod.case if_True s1 ov s2 m'(1) ..
      moreover have "turn4 n c t0 (es @ [?e]) (?s2\<lparr>kcost := m', kparent := p', ku := x, kv := y\<rparr>)"
        using t mat m'(2) base p'(3,4) P(2) step(1) False roots xy(3)
        by (auto simp: turn4_def some(8) print_def picked_snoc grow_def wt4_def intro!: exI [of _ "k - 1"])
      ultimately show ?thesis using e by auto
    qed
  qed
qed

definition remaining4 :: "int \<Rightarrow> kr4 \<Rightarrow> nat" where
  "remaining4 n s = card {(i, j). 1 \<le> i \<and> i \<le> j \<and> j \<le> n \<and> at2 (kcost s) i j < 999}"

lemma finite_edges_of [simp]: "finite (edges_of n c)"
  by (rule finite_subset [of _ "{1..n} \<times> {1..n}"]) (auto simp: edges_of_def)

lemma remaining4_eq:
  assumes "turn4 n c t0 es s"
  shows "remaining4 n s = card (edges_of n c - set es)"
proof -
  have es: "set es \<subseteq> edges_of n c" and C: "\<And>i j. 1 \<le> i \<Longrightarrow> i \<le> n \<Longrightarrow> 1 \<le> j \<Longrightarrow> j \<le> n \<Longrightarrow>
        at2 (kcost s) i j = (if (i, j) \<in> set es \<or> (j, i) \<in> set es then 999 else c i j)"
    using assms by (simp_all add: turn4_def)
  have "(1 \<le> i \<and> i \<le> j \<and> j \<le> n \<and> at2 (kcost s) i j < 999) \<longleftrightarrow> (i, j) \<in> edges_of n c - set es" for i j
  proof (cases "1 \<le> i \<and> i \<le> j \<and> j \<le> n")
    case True
    have "j = i" if "(j, i) \<in> set es" using that True es by (force simp: edges_of_def)
    with C [of i j] True show ?thesis by (auto simp: edges_of_def)
  qed (auto simp: edges_of_def)
  then have "{(i, j). 1 \<le> i \<and> i \<le> j \<and> j \<le> n \<and> at2 (kcost s) i j < 999} = edges_of n c - set es" by auto
  then show ?thesis by (simp add: remaining4_def)
qed

text \<open>Every edge has been looked at, or there are enough of them in the tree: both come to the same.\<close>

lemma turn4_parts:
  assumes "turn4 n c t0 es s" "1 \<le> n"
  obtains k where "d4.parts n ends1 (foldl (grow ends1) {} es) k (kparent s)" "1 \<le> k"
    "length (picked ends1 {} es) + k = nat n" "kne s = n + 1 - int k"
proof -
  obtain k where k: "d4.parts n ends1 (foldl (grow ends1) {} es) k (kparent s)" "length (picked ends1 {} es) + k = nat n"
    using assms by (auto simp: turn4_def)
  obtain rep where r: "holds4 n (kparent s) rep" "card {a \<in> {0..<n}. rep a = a} = k"
    using k(1) by (auto simp: d4.parts_def)
  have "rep 0 \<in> {a \<in> {0..<n}. rep a = a}" using d4.rep_root [OF r(1), of 0] assms(2) by simp
  moreover have "finite {a \<in> {0..<n}. rep a = a}" by (rule finite_subset [of _ "{0..<n}"]) auto
  ultimately have "1 \<le> k" using r(2) by (metis One_nat_def Suc_leI card_gt_0_iff empty_iff)
  with k that assms show thesis by (auto simp: turn4_def)
qed

lemma connected_exhausted:
  assumes t: "turn4 n c t0 es s" and n: "1 \<le> n" and con: "connected n ends1 (edges_of n c)" and all: "set es = edges_of n c"
  shows "\<not> kne s < n"
proof -
  obtain k where k: "d4.parts n ends1 (foldl (grow ends1) {} es) k (kparent s)" "kne s = n + 1 - int k"
    using turn4_parts [OF t n] by metis
  have "\<not> 1 < k"
  proof
    assume "1 < k"
    from d4.parts_more [OF k(1) this] obtain a b where ab: "0 \<le> a" "a < n" "0 \<le> b" "b < n" "\<not> conn ends1 (foldl (grow ends1) {} es) a b" .
    have "conn ends1 (edges_of n c) a b" by (rule connected_conn [OF con ab(1-4)])
    then have "conn ends1 (foldl (grow ends1) {} es) a b"
      by (rule conn_covered) (simp add: foldl_grow_links all)
    with ab(5) show False by simp
  qed
  with k(2) show ?thesis by simp
qed

lemma full_connected:
  assumes t: "turn4 n c t0 es s" and n: "1 \<le> n" and full: "\<not> kne s < n"
  shows "\<And>a b. 0 \<le> a \<Longrightarrow> a < n \<Longrightarrow> 0 \<le> b \<Longrightarrow> b < n \<Longrightarrow> conn ends1 (foldl (grow ends1) {} es) a b"
    "len (picked ends1 {} es) = n - 1"
proof -
  obtain k where k: "d4.parts n ends1 (foldl (grow ends1) {} es) k (kparent s)" "1 \<le> k"
    "length (picked ends1 {} es) + k = nat n" "kne s = n + 1 - int k"
    by (rule turn4_parts [OF t n])
  then have one: "k = 1" using full by simp
  show "len (picked ends1 {} es) = n - 1" using k(3) one n by linarith
  show "conn ends1 (foldl (grow ends1) {} es) a b" if "0 \<le> a" "a < n" "0 \<le> b" "b < n" for a b
    by (rule d4.parts_one [OF k(1) [unfolded one] that])
qed

lemma full_minimal:
  assumes t: "turn4 n c t0 es s" and n: "1 \<le> n" and full: "\<not> kne s < n"
  shows "min_spanning_forest ends1 (wt4 c) (edges_of n c) (set (picked ends1 {} es))"
    "distinct (picked ends1 {} es)" "sorted_wrt (\<lambda>e f. wt4 c e \<le> wt4 c f) (picked ends1 {} es)"
proof -
  obtain xs where xs: "set xs = edges_of n c - set es" using finite_list [of "edges_of n c - set es"] by auto
  define rest where "rest = sort_key (wt4 c) xs"
  have rest: "set rest = edges_of n c - set es" "sorted_wrt (\<lambda>e f. wt4 c e \<le> wt4 c f) rest"
    using xs sorted_sort_key [of "wt4 c" xs] by (simp_all add: rest_def sorted_map)
  have so: "sorted_wrt (\<lambda>e f. wt4 c e \<le> wt4 c f) (es @ rest)" and st: "set (es @ rest) = edges_of n c"
    using t rest by (auto simp: turn4_def sorted_wrt_append)
  have "linked ends1 (foldl (grow ends1) {} es) e" if "e \<in> set rest" for e
  proof -
    obtain i j where "e = (i, j)" by force
    moreover from this have "1 \<le> i" "i \<le> j" "j \<le> n" using that rest(1) by (auto simp: edges_of_def)
    ultimately show ?thesis using full_connected(1) [OF t n full, of "i - 1" "j - 1"] by (simp add: linked_def)
  qed
  then have p: "picked ends1 {} (es @ rest) = picked ends1 {} es"
    by (simp add: picked_append picked_none)
  note m = picked_minimal [OF so, of ends1, unfolded st p]
  show "min_spanning_forest ends1 (wt4 c) (edges_of n c) (set (picked ends1 {} es))"
    "distinct (picked ends1 {} es)" "sorted_wrt (\<lambda>e f. wt4 c e \<le> wt4 c f) (picked ends1 {} es)"
    by (rule m)+
qed

text \<open>Vertices may be numbered from 0 or from 1.\<close>

lemma conn_map: "conn ends F a b \<Longrightarrow> conn (\<lambda>e. map_prod f f (ends e)) F (f a) (f b)"
proof (induction rule: conn.induct)
  case (along a b e c)
  have "map_prod f f (ends e) = (f b, f c) \<or> map_prod f f (ends e) = (f c, f b)" using along.hyps(3) by auto
  with along.IH along.hyps(2) show ?case by (rule conn.along)
qed (rule conn.here)

lemma conn_ends1: "conn ends1 F (a - 1) (b - 1) \<longleftrightarrow> conn id F a b"
proof
  assume "conn ends1 F (a - 1) (b - 1)"
  from conn_map [OF this, of "\<lambda>x. x + 1"] show "conn id F a b" by (simp add: id_def case_prod_beta)
next
  assume "conn id F a b"
  moreover have "(\<lambda>e. map_prod (\<lambda>x. x - 1) (\<lambda>x. x - 1) (id e)) = ends1" by (auto simp: fun_eq_iff)
  ultimately show "conn ends1 F (a - 1) (b - 1)" using conn_map [of id F a b "\<lambda>x. x - 1"] by simp
qed

lemma conn_ends1_shift: "conn ends1 F a b \<longleftrightarrow> conn id F (a + 1) (b + 1)"
  using conn_ends1 [of F "a + 1" "b + 1"] by simp

lemma msf_ends1: "min_spanning_forest ends1 wt E F \<longleftrightarrow> min_spanning_forest id wt E F"
proof -
  have l: "linked ends1 G e \<longleftrightarrow> linked id G e" for G e by (cases e) (simp add: linked_def conn_ends1)
  have "(\<forall>a b. conn ends1 E a b \<longrightarrow> conn ends1 G a b) \<longleftrightarrow> (\<forall>a b. conn id E a b \<longrightarrow> conn id G a b)" for G
    unfolding conn_ends1_shift by (metis diff_add_cancel)
  then show ?thesis by (simp add: min_spanning_forest_def spanning_forest_def forest_def l)
qed

section \<open>The properties\<close>

text \<open>The matrix \<open>w\<close> as it is typed, and as it is stored.\<close>

definition matriz4 :: "int \<Rightarrow> (int \<Rightarrow> int \<Rightarrow> int) \<Rightarrow> int list" where
  "matriz4 n w = concat (map (\<lambda>i. map (w i) [1..n]) [1..n])"

definition cost4 :: "(int \<Rightarrow> int \<Rightarrow> int) \<Rightarrow> int \<Rightarrow> int \<Rightarrow> int" where
  "cost4 w i j = (if w i j = 0 then 999 else w i j)"

definition stored4 :: "(int \<Rightarrow> int \<Rightarrow> int) \<Rightarrow> int \<Rightarrow> int \<Rightarrow> int \<Rightarrow> kr4 \<Rightarrow> int list \<Rightarrow> kr4 \<Rightarrow> bool" where
  "stored4 w n i j s r s' \<longleftrightarrow> (\<exists>m. s' = s\<lparr>inp := r, kcost := m\<rparr> \<and> shape 9 m \<and>
     (\<forall>x y. before n i j x y \<longrightarrow> at2 m x y = cost4 w x y))"

lemma ler4_stores:
  assumes n: "1 \<le> n" "n \<le> 8" and shp: "shape 9 (kcost s)" and w: "\<And>i j. int_min \<le> w i j \<and> w i j \<le> int_max"
    and inp: "inp s = matriz4 n w"
  shows "wp (ler4 n s) (stored4 w n (n + 1) 1 s [])"
  unfolding ler4_def
proof (rule wp_for_up [where I = "\<lambda>i. stored4 w n i 1 s (concat (map (\<lambda>i. map (w i) [1..n]) [i..n]))"])
  show "stored4 w n 1 1 s (concat (map (\<lambda>i. map (w i) [1..n]) [1..n])) s"
    using shp inp by (auto simp: stored4_def before_def matriz4_def intro!: exI [of _ "kcost s"])
next
  fix i s' assume i: "1 \<le> i" "i < n + 1" and I: "stored4 w n i 1 s (concat (map (\<lambda>i. map (w i) [1..n]) [i..n])) s'"
  let ?r = "concat (map (\<lambda>i. map (w i) [1..n]) [i + 1..n])"
  have "[i..n] = i # [i + 1..n]" using i by (simp add: upto_rec1)
  with I have start: "stored4 w n i 1 s (map (w i) [1..n] @ ?r) s'" by simp
  show "wp (for_up 1 (n + 1) (\<lambda>j s. bnd (read_int s) (\<lambda>(s, x). bnd (wr2 (kcost s) i j x) (\<lambda>c. bnd (rd2 c i j) (\<lambda>y.
       if y = 0 then bnd (wr2 c i j 999) (\<lambda>c. ok (s\<lparr>kcost := c\<rparr>)) else ok (s\<lparr>kcost := c\<rparr>))))) s')
     (stored4 w n (i + 1) 1 s ?r)"
  proof (rule wp_for_up [where I = "\<lambda>j. stored4 w n i j s (map (w i) [j..n] @ ?r)"])
    fix j t assume j: "1 \<le> j" "j < n + 1" and I: "stored4 w n i j s (map (w i) [j..n] @ ?r) t"
    then obtain m where t: "t = s\<lparr>inp := map (w i) [j..n] @ ?r, kcost := m\<rparr>" "shape 9 m"
      "\<And>x y. before n i j x y \<Longrightarrow> at2 m x y = cost4 w x y"
      by (auto simp: stored4_def)
    have ij: "inside 9 i" "inside 9 j" "1 \<le> i" "i \<le> n" "1 \<le> j" "j \<le> n" using i j n by simp_all
    have "[j..n] = j # [j + 1..n]" using j by (simp add: upto_rec1)
    then have r: "read_int t = ok (s\<lparr>inp := map (w i) [j + 1..n] @ ?r, kcost := m\<rparr>, w i j)"
      using w [of i j] by (simp add: t(1) read_int_def)
    have new: "at2 (upd2 m i j v) x y = (if x = i \<and> y = j then v else at2 m x y)" if "before n i (j + 1) x y" for x y v
      using that n by (intro at2_upd2 [OF t(2) ij(1,2)]) (auto simp: before_def)
    have wrote: "stored4 w n i (j + 1) s (map (w i) [j + 1..n] @ ?r)
       (s\<lparr>inp := map (w i) [j + 1..n] @ ?r, kcost := upd2 m i j (cost4 w i j)\<rparr>)"
      unfolding stored4_def using t(2,3) ij new by (intro exI [of _ "upd2 m i j (cost4 w i j)"]) (auto simp: before_step)
    have "upd2 (upd2 m i j x) i j y = upd2 m i j y" for x y
      using ij t(2) by (simp add: upd2_def shape_len)
    then show "wp (bnd (read_int t) (\<lambda>(s, x). bnd (wr2 (kcost s) i j x) (\<lambda>c. bnd (rd2 c i j) (\<lambda>y.
       if y = 0 then bnd (wr2 c i j 999) (\<lambda>c. ok (s\<lparr>kcost := c\<rparr>)) else ok (s\<lparr>kcost := c\<rparr>)))))
      (stored4 w n i (j + 1) s (map (w i) [j + 1..n] @ ?r))"
      unfolding r using wrote ij t(2) at2_upd2 [OF t(2) ij(1,2) ij(1,2)]
      by (cases "w i j = 0") (simp_all add: wp_wr2 [of 9] wp_rd2 [of 9] cost4_def)
  next
    fix t assume "stored4 w n i (max 1 (n + 1)) s (map (w i) [max 1 (n + 1)..n] @ ?r) t"
    then show "stored4 w n (i + 1) 1 s ?r t" using n by (simp add: stored4_def before_row)
  qed (use start in simp)
qed (use n in simp)

definition ligado4 :: "int \<Rightarrow> (int \<Rightarrow> int \<Rightarrow> int) \<Rightarrow> bool" where
  "ligado4 n c \<longleftrightarrow> (\<forall>a. 1 \<le> a \<and> a \<le> n \<longrightarrow> conn id (edges_of n c) 1 a)"

lemma ligado4_connected: "ligado4 n c \<longleftrightarrow> connected n ends1 (edges_of n c)"
proof
  assume l: "ligado4 n c"
  show "connected n ends1 (edges_of n c)"
    unfolding connected_def conn_ends1_shift using l by (auto simp: ligado4_def)
next
  assume c: "connected n ends1 (edges_of n c)"
  show "ligado4 n c"
    unfolding ligado4_def
  proof (intro allI impI)
    fix a assume "1 \<le> a \<and> a \<le> n"
    with c have "conn ends1 (edges_of n c) 0 (a - 1)" by (simp add: connected_def)
    then show "conn id (edges_of n c) 1 a" by (simp add: conn_ends1_shift)
  qed
qed

definition typed4 :: "int \<Rightarrow> (int \<Rightarrow> int \<Rightarrow> int) \<Rightarrow> bool" where
  "typed4 n w \<longleftrightarrow> 1 \<le> n \<and> n \<le> 8 \<and> (\<forall>i j. w i j = w j i) \<and> (\<forall>i j. 0 \<le> w i j \<and> w i j \<le> int_max)"

lemma main4_start:
  assumes "typed4 n w"
  shows "\<exists>s. kruskal4_main (n # matriz4 n w) = bnd (while_run (\<lambda>s. ok (kne s < n)) (passo4 n) s) (\<lambda>s.
       ok (print (nl @ tab @ ''Minimum cost: '' @ dec (kmincost s) @ nl @ nl) s)) \<and>
     turn4 n (cost4 w) (header4 @ enter_costs4 @ edges4) [] s"
proof -
  let ?s0 = "\<lparr>inp = n # matriz4 n w, out = [], kcost = replicate 9 (replicate 9 0), kparent = replicate 9 0, kne = 1,
    kmincost = 0, kmin = 0, ka = 0, kb = 0, ku = 0, kv = 0\<rparr>"
  let ?s1 = "print enter_costs4 (print header4 ?s0\<lparr>inp := matriz4 n w\<rparr>)"
  have n: "1 \<le> n" "n \<le> 8" using assms by (simp_all add: typed4_def)
  have w: "int_min \<le> w i j \<and> w i j \<le> int_max" for i j
  proof -
    have "0 \<le> w i j \<and> w i j \<le> int_max" using assms by (simp add: typed4_def)
    then show ?thesis by simp
  qed
  have rd: "read_int (print header4 ?s0) = ok (print header4 ?s0\<lparr>inp := matriz4 n w\<rparr>, n)"
    using n by (simp add: read_int_def print_def)
  have "shape 9 (kcost ?s1)" "inp ?s1 = matriz4 n w" by (simp_all add: print_def shape_def)
  from ler4_stores [of n ?s1 w, OF n this(1) w this(2)] obtain m where m: "ler4 n ?s1 = ok (?s1\<lparr>inp := [], kcost := m\<rparr>)"
    "shape 9 m" "\<And>x y. before n (n + 1) 1 x y \<Longrightarrow> at2 m x y = cost4 w x y"
    by (auto simp: wp_iff stored4_def)
  let ?s2 = "print edges4 (?s1\<lparr>inp := [], kcost := m\<rparr>)"
  have m': "at2 m i j = cost4 w i j" if "1 \<le> i" "i \<le> n" "1 \<le> j" "j \<le> n" for i j
    using m(3) [of i j] that by (simp add: before_def)
  have p: "d4.parts n ends1 {} (nat n) (replicate 9 0)" by (rule d4.parts_start [OF start4 [OF n(2)]])
  have r: "find4 (replicate 9 0) 0 = ok 0" using find4_step [of 0 "replicate 9 0"] by (simp add: at_def)
  have "turn4 n (cost4 w) (header4 @ enter_costs4 @ edges4) [] ?s2"
    using m(2) m' p r by (auto simp: turn4_def print_def at_def)
  moreover have "kruskal4_main (n # matriz4 n w) = bnd (while_run (\<lambda>s. ok (kne s < n)) (passo4 n) ?s2) (\<lambda>s.
       ok (print (nl @ tab @ ''Minimum cost: '' @ dec (kmincost s) @ nl @ nl) s))"
    unfolding kruskal4_main_def rd bnd_ok prod.case m(1) ..
  ultimately show ?thesis by blast
qed

lemma cost4_facts:
  assumes "typed4 n w"
  shows "\<And>i j. cost4 w i j = cost4 w j i" "\<And>i j. 0 \<le> cost4 w i j"
  using assms by (auto simp: typed4_def cost4_def)

text \<open>
  C6: kruskals4, given the symmetric matrix of a connected graph on at most eight vertices (0 for no
  edge, as is a weight from 999 on), prints the n - 1 edges of a minimum spanning tree in ascending order and
  their total cost, without access outside its arrays.
\<close>

theorem kruskal4_tree:
  assumes "typed4 n w" "ligado4 n (cost4 w)"
  shows "\<exists>s es. kruskal4_main (n # matriz4 n w) = ok s \<and>
     out s = header4 @ enter_costs4 @ edges4 @ lines4 (cost4 w) es @ nl @ tab @ ''Minimum cost: '' @
       dec (sum_list (map (wt4 (cost4 w)) es)) @ nl @ nl \<and>
     len es = n - 1 \<and> distinct es \<and> sorted (map (wt4 (cost4 w)) es) \<and>
     min_spanning_forest id (wt4 (cost4 w)) (edges_of n (cost4 w)) (set es)"
proof -
  let ?c = "cost4 w" and ?t = "header4 @ enter_costs4 @ edges4"
  obtain s0 where s0: "kruskal4_main (n # matriz4 n w) = bnd (while_run (\<lambda>s. ok (kne s < n)) (passo4 n) s0) (\<lambda>s.
       ok (print (nl @ tab @ ''Minimum cost: '' @ dec (kmincost s) @ nl @ nl) s))" "turn4 n ?c ?t [] s0"
    using main4_start [OF assms(1)] by blast
  have n: "1 \<le> n" "n \<le> 8" using assms(1) by (simp_all add: typed4_def)
  have con: "connected n ends1 (edges_of n ?c)" using assms(2) by (simp add: ligado4_connected)
  have "wp (while_run (\<lambda>s. ok (kne s < n)) (passo4 n) s0) (\<lambda>s. \<exists>es. turn4 n ?c ?t es s \<and> \<not> kne s < n)"
  proof (rule wp_while [where I = "\<lambda>s. \<exists>es. turn4 n ?c ?t es s" and m = "remaining4 n"])
    fix s assume "\<exists>es. turn4 n ?c ?t es s"
    then obtain es where t: "turn4 n ?c ?t es s" by blast
    show "wp (ok (kne s < n)) (\<lambda>b. if b then wp (passo4 n s) (\<lambda>s'. (\<exists>es. turn4 n ?c ?t es s') \<and> remaining4 n s' < remaining4 n s)
       else \<exists>es. turn4 n ?c ?t es s \<and> \<not> kne s < n)"
    proof (cases "kne s < n")
      case True
      then have "set es \<noteq> edges_of n ?c" using connected_exhausted [OF t n(1) con] by blast
      with turn4_step [OF t n(2) cost4_facts [OF assms(1)]] obtain s' e where s': "passo4 n s = ok s'"
        "e \<in> edges_of n ?c - set es" "turn4 n ?c ?t (es @ [e]) s'" by auto
      have "card (edges_of n ?c - set (es @ [e])) < card (edges_of n ?c - set es)"
        using s'(2) by (intro psubset_card_mono) auto
      with s' True show ?thesis by (auto simp: remaining4_eq [OF t] remaining4_eq [OF s'(3)])
    qed (use t in auto)
  qed (use s0(2) in blast)
  then obtain s es where s: "while_run (\<lambda>s. ok (kne s < n)) (passo4 n) s0 = ok s" "turn4 n ?c ?t es s" "\<not> kne s < n"
    by (auto simp: wp_iff)
  let ?ps = "picked ends1 {} es"
  have o: "out s = ?t @ lines4 ?c ?ps" "kmincost s = sum_list (map (wt4 ?c) ?ps)" using s(2) by (simp_all add: turn4_def)
  show ?thesis
    using full_minimal [OF s(2) n(1) s(3)] full_connected(2) [OF s(2) n(1) s(3)] o
    by (intro exI [of _ "print (nl @ tab @ ''Minimum cost: '' @ dec (kmincost s) @ nl @ nl) s"] exI [of _ ?ps])
      (simp add: s0(1) s(1) msf_ends1 sorted_map)
qed

text \<open>C35: on a graph that is not connected the same program does not end.\<close>

theorem kruskal4_diverges:
  assumes "typed4 n w" "\<not> ligado4 n (cost4 w)"
  shows "kruskal4_main (n # matriz4 n w) = None"
proof -
  let ?c = "cost4 w" and ?t = "header4 @ enter_costs4 @ edges4"
  obtain s0 where s0: "kruskal4_main (n # matriz4 n w) = bnd (while_run (\<lambda>s. ok (kne s < n)) (passo4 n) s0) (\<lambda>s.
       ok (print (nl @ tab @ ''Minimum cost: '' @ dec (kmincost s) @ nl @ nl) s))" "turn4 n ?c ?t [] s0"
    using main4_start [OF assms(1)] by blast
  have n: "1 \<le> n" "n \<le> 8" using assms(1) by (simp_all add: typed4_def)
  have "while_run (\<lambda>s. ok (kne s < n)) (passo4 n) s0 = None"
    unfolding while_run_def
  proof (rule loop_diverges [where I = "\<lambda>s. \<exists>es. turn4 n ?c ?t es s"])
    fix s assume "\<exists>es. turn4 n ?c ?t es s"
    then obtain es where t: "turn4 n ?c ?t es s" by blast
    have "kne s < n"
    proof (rule ccontr)
      assume full: "\<not> kne s < n"
      have "conn ends1 (edges_of n ?c) a b" if "0 \<le> a" "a < n" "0 \<le> b" "b < n" for a b
      proof (rule conn_mono [OF full_connected(1) [OF t n(1) full that]])
        show "foldl (grow ends1) {} es \<subseteq> edges_of n ?c"
          using foldl_grow_subset [of ends1 "{}" es] t by (auto simp: turn4_def)
      qed
      then have "connected n ends1 (edges_of n ?c)" using n by (simp add: connected_def)
      with assms(2) show False by (simp add: ligado4_connected)
    qed
    with turn4_step [OF t n(2) cost4_facts [OF assms(1)]]
    show "\<exists>s'. bnd (ok (kne s < n)) (\<lambda>t. if t then bnd (passo4 n s) (\<lambda>s'. ok (Inl s')) else ok (Inr s)) = ok (Inl s') \<and>
        (\<exists>es. turn4 n ?c ?t es s')" by auto
  qed (use s0(2) in blast)
  with s0(1) show ?thesis by simp
qed

text \<open>A triangle: the edge of weight 5 is left out.\<close>

definition triangulo :: "int \<Rightarrow> int \<Rightarrow> int" where
  "triangulo i j = (if min i j = 1 \<and> max i j = 2 then 3 else if min i j = 2 \<and> max i j = 3 then 2
     else if min i j = 1 \<and> max i j = 3 then 5 else 0)"

theorem kruskal4_tree_witness:
  "\<exists>s es. kruskal4_main [3, 0, 3, 5, 3, 0, 2, 5, 2, 0] = ok s \<and>
     out s = header4 @ enter_costs4 @ edges4 @ lines4 (cost4 triangulo) es @ nl @ tab @ ''Minimum cost: '' @
       dec (sum_list (map (wt4 (cost4 triangulo)) es)) @ nl @ nl \<and> len es = 2"
proof -
  have t: "typed4 3 triangulo" by (simp add: typed4_def triangulo_def min.commute max.commute)
  have "conn id (edges_of 3 (cost4 triangulo)) 1 2" "conn id (edges_of 3 (cost4 triangulo)) 1 3"
    using conn_edge [of "(1, 2)" "edges_of 3 (cost4 triangulo)" id 1 2] conn_edge [of "(1, 3)" "edges_of 3 (cost4 triangulo)" id 1 3]
    by (auto simp: edges_of_def cost4_def triangulo_def)
  moreover have "a = 1 \<or> a = 2 \<or> a = 3" if "1 \<le> a" "a \<le> 3" for a :: int using that by auto
  ultimately have l: "ligado4 3 (cost4 triangulo)" unfolding ligado4_def by (metis conn.here)
  have m: "3 # matriz4 3 triangulo = [3, 0, 3, 5, 3, 0, 2, 5, 2, 0]" by code_simp
  have two: "(3 :: int) - 1 = 2" by simp
  show ?thesis using kruskal4_tree [OF t l] unfolding m two by blast
qed

theorem kruskal4_diverges_witness: "kruskal4_main [2, 0, 0, 0, 0] = None"
proof -
  have "edges_of 2 (cost4 (\<lambda>i j. 0)) = {}" by (auto simp: edges_of_def cost4_def)
  then have "\<not> ligado4 2 (cost4 (\<lambda>i j. 0))" by (auto simp: ligado4_def intro!: exI [of _ 2])
  moreover have "typed4 2 (\<lambda>i j. 0)" by (simp add: typed4_def)
  moreover have "2 # matriz4 2 (\<lambda>i j. 0) = [2, 0, 0, 0, 0]" by code_simp
  ultimately show ?thesis using kruskal4_diverges by metis
qed

end
