(* ===== verification/Menu_Ring.thy ===== *)
theory Menu_Ring
  imports Cxx_Ring List_Stack
begin

text \<open>
  \<open>DataStructure/stack/source3.cxx\<close>: the interactive circular list.  \<open>anel_main\<close> is the program,
  \<open>anel_step\<close> the same dialogue on a list of numbers, where removal is a filter.
  The one defect shows in both: emptying a list of one element deletes its cell twice.
\<close>

section \<open>The program\<close>

record anel = console +
  rh :: "int element heap"
  r_ini :: ptr
  r_fim :: ptr

definition anel_menu :: string where
  "anel_menu = nl @ nl @ tab @ ''LISTA CIRCULAR SIMPLES N'' @ A_tilde @ ''O ORDENADA'' @
     nl @ tab @ ''MENU DE ESCOLHA'' @
     nl @ tab @ ''[1]-INSERIR NO INICIO'' @
     nl @ tab @ ''[2]-ISERIR NO FIM'' @
     nl @ tab @ ''[3]-CONSULTAR TUDO'' @
     nl @ tab @ ''[4]-REMOVER'' @
     nl @ tab @ ''[5]-ESVAZIAR'' @
     nl @ tab @ ''[6]-SAIR'' @
     nl @ tab @ ''ESCOLHA: ''"

definition anel_vazio :: string where
  "anel_vazio = nl @ tab @ ''LISTA VAZIA!!!''"

definition anel_ask_inicio :: string where
  "anel_ask_inicio = nl @ tab @ ''QUANTOS NUMEROS DESEJA INSERIR NO INICIO?'' @ nl @ tab @ ''DIGITE: ''"

definition anel_ask_fim :: string where
  "anel_ask_fim = nl @ tab @ ''QUANTOS NUMEROS DESEJA INSERIR NO FIM?'' @ nl @ tab @ ''DIGITE: ''"

definition anel_num_inicio :: "int \<Rightarrow> string" where
  "anel_num_inicio i = nl @ tab @ ''INSIRA NO INICIO O NUMERO '' @ dec (i + 1) @ ordinal @ '': ''"

definition anel_num_fim :: "int \<Rightarrow> string" where
  "anel_num_fim i = nl @ tab @ ''INSIRA NO FIM O NUMERO '' @ dec (i + 1) @ ordinal @ '': ''"

definition anel_no_inicio :: "int \<Rightarrow> string" where
  "anel_no_inicio x = nl @ tab @ ''NUMERO '' @ dec x @ '' INSERIDO COM SUCESSO!!!''"

definition anel_no_fim :: "int \<Rightarrow> string" where
  "anel_no_fim x = nl @ tab @ ''NUMERO '' @ dec x @ '' INSERIDO NO FIM COM SUCESSO!!!''"

definition anel_removed :: "int \<Rightarrow> int \<Rightarrow> string" where
  "anel_removed x achou =
     (if achou = 0 then nl @ tab @ ''NUMERO '' @ dec x @ '' N'' @ A_tilde @ ''O ENCONTRADO!!!''
      else nl @ tab @ ''NUMERO '' @ dec x @ '' REMOVIDO '' @ dec achou @ '' VEZ!!!'')"

definition anel_emptied :: string where
  "anel_emptied = nl @ tab @ ''LISTA ESVAZIADA COM SUCESSO ..!!!'' @ nl"

text \<open>\<open>new lista()\<close> is initialised with zeros; the number is read into it.\<close>

definition anel_front :: "int \<Rightarrow> anel \<Rightarrow> anel run" where
  "anel_front x s =
     (let (h, novo) = alloc (rh s) \<lparr>nxt = Some null, data = x\<rparr> in
      if r_ini s = null then bnd (set_next h novo novo) (\<lambda>h. ok (s\<lparr>rh := h, r_ini := novo, r_fim := novo\<rparr>))
      else bnd (set_next h novo (r_ini s)) (\<lambda>h. bnd (set_next h (r_fim s) novo) (\<lambda>h.
        ok (s\<lparr>rh := h, r_ini := novo\<rparr>))))"

definition anel_back :: "int \<Rightarrow> anel \<Rightarrow> anel run" where
  "anel_back x s =
     (let (h, novo) = alloc (rh s) \<lparr>nxt = Some null, data = x\<rparr> in
      if r_ini s = null then bnd (set_next h novo novo) (\<lambda>h. ok (s\<lparr>rh := h, r_ini := novo, r_fim := novo\<rparr>))
      else bnd (set_next h (r_fim s) novo) (\<lambda>h. bnd (set_next h novo (r_ini s)) (\<lambda>h.
        ok (s\<lparr>rh := h, r_fim := novo\<rparr>))))"

definition anel_inicio :: "anel \<Rightarrow> anel run" where
  "anel_inicio s =
     bnd (read_int (print anel_ask_inicio s)) (\<lambda>(s, qtd).
     for_up 0 qtd (\<lambda>i s.
       bnd (read_int (print (anel_num_inicio i) s)) (\<lambda>(s, x).
       bnd (anel_front x s) (\<lambda>s. ok (print (anel_no_inicio x) s)))) s)"

definition anel_fim :: "anel \<Rightarrow> anel run" where
  "anel_fim s =
     bnd (read_int (print anel_ask_fim s)) (\<lambda>(s, qtd).
     for_up 0 qtd (\<lambda>i s.
       bnd (read_int (print (anel_num_fim i) s)) (\<lambda>(s, x).
       bnd (anel_back x s) (\<lambda>s. ok (print (anel_no_fim x) s)))) s)"

definition anel_consultar :: "anel \<Rightarrow> anel run" where
  "anel_consultar s =
     (if r_ini s = null then ok (print anel_vazio s)
      else bnd (print_ring (\<lambda>n. dec (data n) @ '' '') (rh s) (r_ini s)) (\<lambda>t.
        ok (print (nl @ tab @ ''LISTA COMPLETA: '' @ t) s)))"

text \<open>One round of the removal: the heap, \<open>inicio\<close>, \<open>fim\<close>, \<open>aux\<close>, \<open>ant\<close> and \<open>achou\<close>.\<close>

type_synonym anel_loop = "int element heap \<times> ptr \<times> ptr \<times> ptr \<times> ptr \<times> int"

definition anel_remove_step :: "int \<Rightarrow> anel_loop \<Rightarrow> anel_loop run" where
  "anel_remove_step numero = (\<lambda>(h, ini, fim, aux, ant, achou).
     bnd (if ini = fim then bnd (ld h ini) (\<lambda>n. ok (data n = numero)) else ok False) (\<lambda>single.
     if single then bnd (dispose h ini) (\<lambda>h. ok (h, null, fim, aux, ant, achou + 1))
     else bnd (ld h aux) (\<lambda>n.
       if data n = numero then
         if aux = ini then
           bnd (get_next h aux) (\<lambda>ini. bnd (set_next h fim ini) (\<lambda>h. bnd (dispose h aux) (\<lambda>h.
           ok (h, ini, fim, ini, ant, achou + 1))))
         else if aux = fim then
           bnd (set_next h ant ini) (\<lambda>h. bnd (dispose h aux) (\<lambda>h. ok (h, ini, ant, null, ant, achou + 1)))
         else
           bnd (get_next h aux) (\<lambda>q. bnd (set_next h ant q) (\<lambda>h. bnd (dispose h aux) (\<lambda>h.
           bnd (get_next h ant) (\<lambda>q. ok (h, ini, fim, q, ant, achou + 1)))))
       else bnd (get_next h aux) (\<lambda>q. ok (h, ini, fim, q, aux, achou)))))"

definition anel_remove_loop :: "int \<Rightarrow> int \<Rightarrow> anel_loop \<Rightarrow> anel_loop run" where
  "anel_remove_loop numero quantidade s =
     loop (\<lambda>(elemento, s). bnd (anel_remove_step numero s) (\<lambda>s.
       ok (if elemento + 1 \<le> quantidade then Inl (elemento + 1, s) else Inr s))) (1, s)"

definition anel_remover :: "anel \<Rightarrow> anel run" where
  "anel_remover s =
     (if r_ini s = null then ok (print anel_vazio s)
      else bnd (read_int (print (nl @ tab @ ''REMOVA UM ELEMENTO: '') s)) (\<lambda>(s, numero).
        bnd (count_ring (rh s) (r_ini s)) (\<lambda>quantidade.
        bnd (anel_remove_loop numero quantidade (rh s, r_ini s, r_fim s, r_ini s, null, 0)) (\<lambda>(h, i, f, aux, ant, achou).
        ok (print (anel_removed numero achou) (s\<lparr>rh := h, r_ini := i, r_fim := f\<rparr>))))))"

definition anel_esvaziar :: "anel \<Rightarrow> anel run" where
  "anel_esvaziar s =
     (if r_ini s = null then ok (print anel_vazio s)
      else bnd (free_ring (rh s) (r_ini s) (r_fim s)) (\<lambda>h.
        ok (print anel_emptied (s\<lparr>rh := h, r_ini := null\<rparr>))))"

definition anel_escolha :: "int \<Rightarrow> anel \<Rightarrow> anel run" where
  "anel_escolha esc s =
     (if esc = 1 then anel_inicio s
      else if esc = 2 then anel_fim s
      else if esc = 3 then anel_consultar s
      else if esc = 4 then anel_remover s
      else if esc = 5 then anel_esvaziar s
      else ok s)"

definition anel_main :: "int list \<Rightarrow> anel run" where
  "anel_main input = menu_program anel_menu 6 anel_escolha
     \<lparr>inp = input, out = [], rh = empty_heap, r_ini = null, r_fim = null\<rparr>"

section \<open>The dialogue on a list\<close>

record anel_abs = console +
  nums :: "int list"

definition anel_step :: "int \<Rightarrow> anel_abs \<Rightarrow> anel_abs run" where
  "anel_step esc s =
     (if esc = 1 then
        bnd (read_int (print anel_ask_inicio s)) (\<lambda>(s, qtd).
        for_up 0 qtd (\<lambda>i s.
          bnd (read_int (print (anel_num_inicio i) s)) (\<lambda>(s, x).
          ok (print (anel_no_inicio x) (s\<lparr>nums := x # nums s\<rparr>)))) s)
      else if esc = 2 then
        bnd (read_int (print anel_ask_fim s)) (\<lambda>(s, qtd).
        for_up 0 qtd (\<lambda>i s.
          bnd (read_int (print (anel_num_fim i) s)) (\<lambda>(s, x).
          ok (print (anel_no_fim x) (s\<lparr>nums := nums s @ [x]\<rparr>)))) s)
      else if esc \<in> {3, 4, 5} \<and> nums s = [] then ok (print anel_vazio s)
      else if esc = 3 then ok (print (nl @ tab @ ''LISTA COMPLETA: '' @ blanks (nums s)) s)
      else if esc = 4 then
        bnd (read_int (print (nl @ tab @ ''REMOVA UM ELEMENTO: '') s)) (\<lambda>(s, x).
        ok (print (anel_removed x (int (count_list (nums s) x))) (s\<lparr>nums := filter (\<lambda>y. y \<noteq> x) (nums s)\<rparr>)))
      else if esc = 5 then
        (if length (nums s) = 1 then fail Dangling else ok (print anel_emptied (s\<lparr>nums := []\<rparr>)))
      else ok s)"

definition anel_spec :: "int list \<Rightarrow> anel_abs run" where
  "anel_spec input = menu_program anel_menu 6 anel_step \<lparr>inp = input, out = [], nums = []\<rparr>"

section \<open>Simulation\<close>

definition anel_cells :: "int element heap \<Rightarrow> ptr \<Rightarrow> ptr \<Rightarrow> int list \<Rightarrow> bool" where
  "anel_cells h p f xs \<longleftrightarrow> (\<exists>as. ring h p f as \<and> along data (cells h) as = xs)"

definition anel_rel :: "anel \<Rightarrow> anel_abs \<Rightarrow> bool" where
  "anel_rel s a \<longleftrightarrow> inp s = inp a \<and> out s = out a \<and> anel_cells (rh s) (r_ini s) (r_fim s) (nums a)"

lemma print_anel [simp]:
  "rh (print t s) = rh s" "r_ini (print t s) = r_ini s" "r_fim (print t s) = r_fim s" "nums (print t a) = nums a"
  by (simp_all add: print_def)

lemma anel_rel_null: "anel_rel s a \<Longrightarrow> r_ini s = 0 \<longleftrightarrow> nums a = []"
  by (auto simp: anel_rel_def anel_cells_def dest: ring_null)

text \<open>The last cell of a segment can be linked to another cell.\<close>

lemma sl_close:
  assumes "sl m as e" "distinct as" "as \<noteq> []" "m (last as) = Some n"
  shows "sl (m(last as \<mapsto> n\<lparr>nxt := Some e'\<rparr>)) as e'"
proof -
  obtain bs where bs: "as = bs @ [last as]" using assms(3) by (metis append_butlast_last_id)
  then have "sl m (bs @ [last as]) e" "distinct (bs @ [last as])" using assms(1,2) by simp_all
  then have "sl (m(last as \<mapsto> n\<lparr>nxt := Some e'\<rparr>)) (bs @ [last as]) e'" using assms(4) by auto
  then show ?thesis using bs by simp
qed

lemma along_link: "m a = Some n \<Longrightarrow> along data (m(a \<mapsto> n\<lparr>nxt := v\<rparr>)) as = along data m as"
  by (rule along_upd_same) simp_all

lemma ring_last:
  assumes "ring h p f as" "as \<noteq> []"
  obtains n where "0 < f" "f = last as" "f \<in> set as" "cells h f = Some n" "f < brk h" "0 < p" "p = hd as"
proof -
  have f: "f = last as" "last as \<in> set as" using assms by (auto simp: ring_def)
  then obtain n where "0 < f" "cells h f = Some n" using assms sl_dom [of "cells h" as p f] by (auto simp: ring_def)
  moreover have "0 < p" "p = hd as" using assms by (cases as; auto simp: ring_def)+
  ultimately show thesis using that f heap_okD [of h f] assms(1) by (auto simp: ring_def)
qed

lemma anel_fresh:
  assumes "heap_ok h" "alloc h n = (h', q)" "sl (cells h) as p"
  shows "heap_ok h'" "0 < q" "q \<notin> set as" "cells h' = (cells h)(q \<mapsto> n)" "sl (cells h') as p"
proof -
  show h: "heap_ok h'" "0 < q" "cells h' = (cells h)(q \<mapsto> n)" using assms(1,2) by (auto simp: alloc_def put_def)
  have "cells h q = None" using assms(1,2) by (auto simp: alloc_def)
  then show "q \<notin> set as" using sl_dom [OF assms(3), of q] by auto
  with h(3) assms(3) show "sl (cells h') as p" by simp
qed

lemma anel_front_rel:
  assumes "anel_rel s a"
  shows "sim anel_rel (anel_front x s) (ok (a\<lparr>nums := x # nums a\<rparr>))"
proof (rule sim_wp_ok)
  from assms obtain as where as: "ring (rh s) (r_ini s) (r_fim s) as" "along data (cells (rh s)) as = nums a"
    and io: "inp s = inp a" "out s = out a"
    by (auto simp: anel_rel_def anel_cells_def)
  obtain h q where al: "alloc (rh s) \<lparr>nxt = Some null, data = x\<rparr> = (h, q)" by force
  note r = as(1) [unfolded ring_def]
  note f = anel_fresh [OF _ al, of as "r_ini s"]
  note fr = f(1) [OF r [THEN conjunct1]]
  show "wp (anel_front x s) (\<lambda>s'. anel_rel s' (a\<lparr>nums := x # nums a\<rparr>))"
  proof (cases "as = []")
    case True
    have "ring (put h q \<lparr>nxt = Some q, data = x\<rparr>) q q [q]" using f r by (auto simp: ring_def)
    with True as io f r al show ?thesis
      by (auto simp: anel_front_def anel_rel_def anel_cells_def ring_def intro!: exI [of _ "[q]"])
  next
    case False
    from as(1) False obtain n where n: "0 < r_fim s" "r_fim s = last as" "r_fim s \<in> set as" "cells (rh s) (r_fim s) = Some n"
      "r_fim s < brk (rh s)" "0 < r_ini s" "r_ini s = hd as" by (rule ring_last)
    have q: "heap_ok h" "0 < q" "q \<notin> set as" "cells h = (cells (rh s))(q \<mapsto> \<lparr>nxt = Some null, data = x\<rparr>)" "sl (cells h) as (r_ini s)"
      using f r by auto
    have ne: "q \<noteq> r_fim s" using q(3) n(3) by auto
    let ?c = "\<lparr>nxt = Some (r_ini s), data = x\<rparr>"
    let ?h = "put (put h q ?c) (r_fim s) (n\<lparr>nxt := Some q\<rparr>)"
    have "sl ((cells h)(last as \<mapsto> n\<lparr>nxt := Some q\<rparr>)) as q"
      by (rule sl_close [OF q(5)]) (use r False n(2,4) ne q(4) in auto)
    then have "sl (cells ?h) as q" using q(3) n(2) ne by (simp add: fun_upd_twist)
    moreover have "start as q = r_ini s" using n(7) False by (cases as) auto
    ultimately have "ring ?h q (r_fim s) (q # as)" using r q n ne False by (auto simp: ring_def)
    moreover have "along data (cells ?h) (q # as) = x # nums a"
      using as(2) q(3,4) n(4) ne by (simp add: along_upd_same)
    ultimately show ?thesis
      using n q ne al io by (auto simp: anel_front_def anel_rel_def anel_cells_def intro!: exI [of _ "q # as"])
  qed
qed

lemma anel_back_rel:
  assumes "anel_rel s a"
  shows "sim anel_rel (anel_back x s) (ok (a\<lparr>nums := nums a @ [x]\<rparr>))"
proof (rule sim_wp_ok)
  from assms obtain as where as: "ring (rh s) (r_ini s) (r_fim s) as" "along data (cells (rh s)) as = nums a"
    and io: "inp s = inp a" "out s = out a"
    by (auto simp: anel_rel_def anel_cells_def)
  obtain h q where al: "alloc (rh s) \<lparr>nxt = Some null, data = x\<rparr> = (h, q)" by force
  note r = as(1) [unfolded ring_def]
  note f = anel_fresh [OF _ al, of as "r_ini s"]
  note fr = f(1) [OF r [THEN conjunct1]]
  show "wp (anel_back x s) (\<lambda>s'. anel_rel s' (a\<lparr>nums := nums a @ [x]\<rparr>))"
  proof (cases "as = []")
    case True
    have "ring (put h q \<lparr>nxt = Some q, data = x\<rparr>) q q [q]" using f r by (auto simp: ring_def)
    with True as io f r al show ?thesis
      by (auto simp: anel_back_def anel_rel_def anel_cells_def ring_def intro!: exI [of _ "[q]"])
  next
    case False
    from as(1) False obtain n where n: "0 < r_fim s" "r_fim s = last as" "r_fim s \<in> set as" "cells (rh s) (r_fim s) = Some n"
      "r_fim s < brk (rh s)" "0 < r_ini s" "r_ini s = hd as" by (rule ring_last)
    have q: "heap_ok h" "0 < q" "q \<notin> set as" "cells h = (cells (rh s))(q \<mapsto> \<lparr>nxt = Some null, data = x\<rparr>)" "sl (cells h) as (r_ini s)"
      using f r by auto
    have ne: "q \<noteq> r_fim s" using q(3) n(3) by auto
    let ?h = "put (put h (r_fim s) (n\<lparr>nxt := Some q\<rparr>)) q \<lparr>nxt = Some (r_ini s), data = x\<rparr>"
    have "sl ((cells h)(last as \<mapsto> n\<lparr>nxt := Some q\<rparr>)) as q"
      by (rule sl_close [OF q(5)]) (use r False n(2,4) ne q(4) in auto)
    then have "sl (cells ?h) as q" using q(3) n(2) ne by simp
    moreover have "start as q = r_ini s" using n(7) False by (cases as) auto
    ultimately have "ring ?h (r_ini s) q (as @ [q])" using r q n ne False by (auto simp: ring_def start_append)
    moreover have "along data (cells ?h) (as @ [q]) = nums a @ [x]"
      using as(2) q(3,4) n(4) ne by (simp add: along_upd_same)
    ultimately show ?thesis
      using n q ne al io by (auto simp: anel_back_def anel_rel_def anel_cells_def intro!: exI [of _ "as @ [q]"])
  qed
qed

lemma anel_insert_body:
  assumes "\<And>s a. anel_rel s a \<Longrightarrow> sim anel_rel (f x s) (ok (a\<lparr>nums := g x (nums a)\<rparr>))" "anel_rel s a"
  shows "sim anel_rel (bnd (f x s) (\<lambda>s. ok (print t s))) (ok (print t (a\<lparr>nums := g x (nums a)\<rparr>)))"
proof -
  have "sim anel_rel (bnd (f x s) (\<lambda>s. ok (print t s))) (bnd (ok (a\<lparr>nums := g x (nums a)\<rparr>)) (\<lambda>a. ok (print t a)))"
    by (rule sim_bnd [OF assms(1) [OF assms(2)]]) (auto simp: anel_rel_def)
  then show ?thesis by simp
qed

lemma anel_read: "anel_rel s a \<Longrightarrow> sim (rel_prod anel_rel (=)) (read_int (print t s)) (read_int (print t a))"
  by (rule sim_read_int) (auto simp: anel_rel_def)

lemma anel_inserir_sim:
  assumes "anel_rel s a"
  shows "sim anel_rel (anel_inicio s) (anel_step 1 a)" "sim anel_rel (anel_fim s) (anel_step 2 a)"
  unfolding anel_inicio_def anel_fim_def anel_step_def
  using assms
  by (auto intro!: sim_bnd [OF anel_read] sim_for_up [where R = anel_rel]
      anel_insert_body [where g = "(#)"] anel_insert_body [where g = "\<lambda>x xs. xs @ [x]"] anel_front_rel anel_back_rel)

lemma anel_consultar_sim:
  assumes "anel_rel s a"
  shows "sim anel_rel (anel_consultar s) (anel_step 3 a)"
proof (cases "nums a = []")
  case True
  with anel_rel_null [OF assms] assms show ?thesis by (auto simp: anel_consultar_def anel_step_def anel_rel_def)
next
  case False
  from assms obtain as where as: "ring (rh s) (r_ini s) (r_fim s) as" "along data (cells (rh s)) as = nums a"
    by (auto simp: anel_rel_def anel_cells_def)
  have "print_ring (\<lambda>n. dec (data n) @ '' '') (rh s) (r_ini s) = ok (blanks (nums a))"
    using print_ring_ring [OF as(1), of "\<lambda>n. dec (data n) @ '' ''"] False as(2) [symmetric]
    by (auto simp: blanks_def along_def comp_def)
  with False anel_rel_null [OF assms] assms show ?thesis
    by (auto simp: anel_consultar_def anel_step_def anel_rel_def)
qed

lemma anel_esvaziar_sim:
  assumes "anel_rel s a"
  shows "sim anel_rel (anel_esvaziar s) (anel_step 5 a)"
proof -
  from assms obtain as where as: "ring (rh s) (r_ini s) (r_fim s) as" "along data (cells (rh s)) as = nums a"
    by (auto simp: anel_rel_def anel_cells_def)
  have l: "length (nums a) = length as" unfolding as(2) [symmetric] by simp
  consider "as = []" | b where "as = [b]" | "2 \<le> length as" by (cases as; cases "tl as") auto
  then show ?thesis
  proof cases
    case 1
    with as anel_rel_null [OF assms] assms show ?thesis by (auto simp: anel_esvaziar_def anel_step_def anel_rel_def)
  next
    case (2 b)
    then have "nums a \<noteq> []" "length (nums a) = 1" using l by auto
    with 2 as anel_rel_null [OF assms] free_ring_single [of "rh s" "r_ini s" "r_fim s" b] show ?thesis
      by (simp add: anel_esvaziar_def anel_step_def)
  next
    case 3
    then have ne: "nums a \<noteq> []" "length (nums a) \<noteq> 1" using l by auto
    have "wp (anel_esvaziar s) (\<lambda>s'. anel_rel s' (print anel_emptied (a\<lparr>nums := []\<rparr>)))"
      using ne anel_rel_null [OF assms] assms
      by (auto simp: anel_esvaziar_def anel_rel_def anel_cells_def intro!: wp_conseq [OF free_ring_ring [OF as(1) 3]])
    with ne show ?thesis by (auto simp: anel_step_def intro: sim_wp_ok)
  qed
qed

text \<open>During a removal the cells \<open>ks\<close> are kept and the cells \<open>rs\<close> are still to be looked at.\<close>

definition anel_inv :: "int \<Rightarrow> int list \<Rightarrow> ptr list \<Rightarrow> ptr list \<Rightarrow> anel_loop \<Rightarrow> bool" where
  "anel_inv x vals ks rs s = (case s of (h, i, f, aux, ant, achou) \<Rightarrow>
     ring h i f (ks @ rs) \<and> (rs \<noteq> [] \<longrightarrow> aux = hd rs) \<and> (ks \<noteq> [] \<longrightarrow> ant = last ks) \<and>
     x \<notin> set (along data (cells h) ks) \<and>
     along data (cells h) ks @ filter (\<lambda>y. y \<noteq> x) (along data (cells h) rs) = filter (\<lambda>y. y \<noteq> x) vals \<and>
     achou + int (count_list (along data (cells h) rs) x) = int (count_list vals x))"

lemma ring_first: "ring h p f (b # bs) \<Longrightarrow> p = b" "ring h p f (k # ks @ b # bs) \<Longrightarrow> p \<noteq> b"
  by (auto simp: ring_def)

lemma heap_ok_put_del [simp]:
  "heap_ok h \<Longrightarrow> cells h a = Some n \<Longrightarrow> heap_ok ((put h a n')\<lparr>cells := (cells h)(a \<mapsto> n', b := None)\<rparr>)"
  by (auto simp: heap_ok_def put_def)

lemma ring_drop_first:
  assumes "ring h p f (b # bs)" "bs \<noteq> []" "cells h f = Some n"
  shows "ring (del (put h f (n\<lparr>nxt := Some (hd bs)\<rparr>)) b) (hd bs) f bs"
proof -
  have r: "heap_ok h" "b \<notin> set bs" "distinct bs" "sl (cells h) bs b" "f = last bs" "start bs b = hd bs"
    using assms(1,2) by (cases bs; auto simp: ring_def)+
  have "sl ((cells h)(last bs \<mapsto> n\<lparr>nxt := Some (hd bs)\<rparr>)) bs (hd bs)"
    by (rule sl_close [OF r(4,3) assms(2)]) (use r(5) assms(3) in simp)
  with r assms(2,3) show ?thesis by (cases bs) (auto simp: ring_def)
qed

lemma ring_drop_last:
  assumes "ring h p f (ks @ [b])" "ks \<noteq> []" "cells h (last ks) = Some n"
  shows "ring (del (put h (last ks) (n\<lparr>nxt := Some p\<rparr>)) b) p (last ks) ks"
proof -
  have r: "heap_ok h" "b \<notin> set ks" "distinct ks" "sl (cells h) ks b" "start ks 0 = p"
    using assms(1,2) by (cases ks; auto simp: ring_def)+
  have "sl ((cells h)(last ks \<mapsto> n\<lparr>nxt := Some p\<rparr>)) ks p"
    by (rule sl_close [OF r(4,3) assms(2)]) (use assms(3) in simp)
  with r assms(2,3) show ?thesis by (auto simp: ring_def)
qed

lemma ring_drop_middle:
  assumes "ring h p f (ks @ b # bs)" "ks \<noteq> []" "bs \<noteq> []" "cells h (last ks) = Some n"
  shows "ring (del (put h (last ks) (n\<lparr>nxt := Some (hd bs)\<rparr>)) b) p f (ks @ bs)"
proof -
  have r: "heap_ok h" "b \<notin> set ks" "b \<notin> set bs" "distinct (ks @ bs)" "sl (cells h) ks b" "sl (cells h) bs p" "start ks 0 = p"
    using assms(1,2) by (cases ks; auto simp: ring_def)+
  have "sl ((cells h)(last ks \<mapsto> n\<lparr>nxt := Some (hd bs)\<rparr>)) ks (hd bs)"
    by (rule sl_close [OF r(5) _ assms(2)]) (use r(4) assms(4) in simp_all)
  moreover have "last ks \<notin> set bs" using r(4) last_in_set [OF assms(2)] by auto
  moreover have "start bs p = hd bs" "start (ks @ bs) 0 = p" using assms(2,3) r(7) by (cases bs; cases ks; simp)+
  ultimately show ?thesis using r assms by (auto simp: ring_def)
qed

lemma along_unlink:
  assumes "m a = Some n" "b \<notin> set as"
  shows "along data (m(a \<mapsto> n\<lparr>nxt := v\<rparr>, b := None)) as = along data m as"
  using assms by (simp add: along_link)

lemma anel_remove_step_inv:
  assumes inv: "anel_inv x vals ks (b # bs) s"
  shows "wp (anel_remove_step x s) (\<lambda>s'. \<exists>ks'. anel_inv x vals ks' bs s')"
proof -
  obtain h i f aux ant achou where s: "s = (h, i, f, aux, ant, achou)" by (cases s) blast
  from inv have r: "ring h i f (ks @ b # bs)" and aux: "aux = b" and ant: "ks \<noteq> [] \<longrightarrow> ant = last ks"
    and kx: "x \<notin> set (along data (cells h) ks)"
    and vals: "along data (cells h) ks @ filter (\<lambda>y. y \<noteq> x) (along data (cells h) (b # bs)) = filter (\<lambda>y. y \<noteq> x) vals"
    and cnt: "achou + int (count_list (along data (cells h) (b # bs)) x) = int (count_list vals x)"
    by (auto simp: anel_inv_def s)
  have d: "distinct (ks @ b # bs)" and sl: "sl (cells h) ks b" "sl (cells h) (b # bs) i" and ok: "heap_ok h"
    using r by (auto simp: ring_def)
  from sl(2) obtain n where n: "0 < b" "cells h b = Some n" "nxt n = Some (start bs i)" by auto
  from r obtain m where m: "0 < f" "f = last (ks @ b # bs)" "cells h f = Some m" "0 < i" "i = hd (ks @ b # bs)"
    by (auto elim: ring_last)
  have ends: "i = f \<longleftrightarrow> ks = [] \<and> bs = []" using ring_ends [OF r] by (cases ks) auto
  note defs = anel_remove_step_def s aux prod.case
  show ?thesis
  proof (cases "data n = x")
    case False
    have a: "anel_inv x vals (ks @ [b]) bs (h, i, f, start bs i, b, achou)"
      using r kx vals cnt n False by (cases bs) (auto simp: anel_inv_def)
    show ?thesis unfolding defs using n m ends False a by auto
  next
    case x: True
    show ?thesis
    proof (cases ks)
      case Nil
      then have i: "i = b" using m by simp
      show ?thesis
      proof (cases "bs = []")
        case True
        have "anel_inv x vals [] [] (del h b, 0, f, b, ant, achou + 1)"
          using ok vals cnt n x Nil True by (auto simp: anel_inv_def)
        with n m x i ends Nil True show ?thesis unfolding defs by auto
      next
        case False
        have f: "f \<in> set bs" "f = last bs" "f \<noteq> b" using m(2) False Nil d by auto
        have "ring (del (put h f (m\<lparr>nxt := Some (hd bs)\<rparr>)) b) (hd bs) f bs"
          by (rule ring_drop_first [OF _ False m(3)]) (use r Nil in simp)
        moreover have "start bs i = hd bs" using False by (cases bs) auto
        moreover have "b \<notin> set bs" using d by simp
        ultimately have "anel_inv x vals [] bs (del (put h f (m\<lparr>nxt := Some (hd bs)\<rparr>)) b, hd bs, f, hd bs, ant, achou + 1)"
          using vals cnt n x Nil m(3) by (auto simp: anel_inv_def along_link)
        with n m f x i ends Nil False \<open>start bs i = hd bs\<close> show ?thesis unfolding defs by auto
      qed
    next
      case (Cons k ks')
      then have ne: "ks \<noteq> []" and i: "i \<noteq> b" using m d by auto
      then have ant': "ant = last ks" "ant \<in> set ks" "ant \<noteq> b" using ant d by auto
      from sl(1) ant'(2) obtain l where l: "0 < ant" "cells h ant = Some l" using sl_dom by blast
      have bks: "b \<notin> set ks" "b \<notin> set bs" using d by auto
      show ?thesis
      proof (cases "bs = []")
        case True
        have "ring (del (put h ant (l\<lparr>nxt := Some i\<rparr>)) b) i ant ks"
          using ring_drop_last [of h i f ks b l] r True ne l ant'(1) by simp
        then have "anel_inv x vals ks [] (del (put h ant (l\<lparr>nxt := Some i\<rparr>)) b, i, ant, null, ant, achou + 1)"
          using vals cnt n x ant'(1) kx True l(2) bks by (auto simp: anel_inv_def along_link)
        moreover have "f = b" using m(2) True by simp
        ultimately show ?thesis unfolding defs using n l ant' x i ends ne True by auto
      next
        case False
        have st: "start bs i = hd bs" using False by (cases bs) auto
        have fb: "f \<noteq> b" using m(2) False d by auto
        have "ring (del (put h ant (l\<lparr>nxt := Some (hd bs)\<rparr>)) b) i f (ks @ bs)"
          using ring_drop_middle [of h i f ks b bs l] r False ne l ant'(1) by simp
        then have "anel_inv x vals ks bs (del (put h ant (l\<lparr>nxt := Some (hd bs)\<rparr>)) b, i, f, hd bs, ant, achou + 1)"
          using vals cnt n x ant'(1) kx False l(2) bks by (auto simp: anel_inv_def along_link)
        then show ?thesis unfolding defs using n l ant' x i fb ends ne False st by auto
      qed
    qed
  qed
qed

lemma anel_remove_loop_filters:
  assumes "ring h i f as" "as \<noteq> []"
  shows "wp (anel_remove_loop x (int (length as)) (h, i, f, i, null, 0)) (\<lambda>(h', i', f', aux, ant, achou).
    anel_cells h' i' f' (filter (\<lambda>y. y \<noteq> x) (along data (cells h) as)) \<and> achou = int (count_list (along data (cells h) as) x))"
  unfolding anel_remove_loop_def
proof (rule wp_loop_list [where xs = as and I = "\<lambda>rs (e, s). rs \<noteq> [] \<and> e + int (length rs) = int (length as) + 1 \<and>
    (\<exists>ks. anel_inv x (along data (cells h) as) ks rs s)"])
  have "anel_inv x (along data (cells h) as) [] as (h, i, f, i, null, 0)"
    using assms by (cases as) (auto simp: anel_inv_def dest: ring_first)
  then show "case (1, h, i, f, i, null, 0) of (e, s) \<Rightarrow> as \<noteq> [] \<and> e + int (length as) = int (length as) + 1 \<and>
      (\<exists>ks. anel_inv x (along data (cells h) as) ks as s)"
    using assms(2) by auto
next
  fix b bs t assume "case t of (e, s) \<Rightarrow> b # bs \<noteq> [] \<and> e + int (length (b # bs)) = int (length as) + 1 \<and>
      (\<exists>ks. anel_inv x (along data (cells h) as) ks (b # bs) s)"
  then obtain e s ks where t: "t = (e, s)" "e + int (length bs) = int (length as)"
    "anel_inv x (along data (cells h) as) ks (b # bs) s" by (cases t) auto
  from anel_remove_step_inv [OF t(3)] obtain s' ks' where s': "anel_remove_step x s = ok s'"
    "anel_inv x (along data (cells h) as) ks' bs s'" by (auto simp: wp_iff)
  show "wp (case t of (elemento, s) \<Rightarrow> bnd (anel_remove_step x s) (\<lambda>s.
       ok (if elemento + 1 \<le> int (length as) then Inl (elemento + 1, s) else Inr s)))
     (\<lambda>r. case r of Inl s' \<Rightarrow> (case s' of (e, s) \<Rightarrow> bs \<noteq> [] \<and> e + int (length bs) = int (length as) + 1 \<and>
            (\<exists>ks. anel_inv x (along data (cells h) as) ks bs s))
       | Inr y \<Rightarrow> (case y of (h', i', f', aux, ant, achou) \<Rightarrow>
            anel_cells h' i' f' (filter (\<lambda>y. y \<noteq> x) (along data (cells h) as)) \<and>
            achou = int (count_list (along data (cells h) as) x)))"
    using s' t(1,2) by (cases bs) (auto simp: anel_inv_def anel_cells_def)
qed auto

lemma anel_remover_sim:
  assumes "anel_rel s a"
  shows "sim anel_rel (anel_remover s) (anel_step 4 a)"
proof (cases "nums a = []")
  case True
  with anel_rel_null [OF assms] assms show ?thesis by (auto simp: anel_remover_def anel_step_def anel_rel_def)
next
  case False
  have body: "sim anel_rel (bnd (count_ring (rh s) (r_ini s)) (\<lambda>quantidade.
        bnd (anel_remove_loop x quantidade (rh s, r_ini s, r_fim s, r_ini s, null, 0)) (\<lambda>(h, i, f, aux, ant, achou).
        ok (print (anel_removed x achou) (s\<lparr>rh := h, r_ini := i, r_fim := f\<rparr>)))))
      (ok (print (anel_removed x (int (count_list (nums a) x))) (a\<lparr>nums := filter (\<lambda>y. y \<noteq> x) (nums a)\<rparr>)))"
    if r: "anel_rel s a" and ne: "nums a \<noteq> []" for s a x
  proof -
    from r obtain as where as: "ring (rh s) (r_ini s) (r_fim s) as" "along data (cells (rh s)) as = nums a"
      and io: "inp s = inp a" "out s = out a"
      by (auto simp: anel_rel_def anel_cells_def)
    with ne have "as \<noteq> []" by auto
    from anel_remove_loop_filters [OF as(1) this, of x] count_ring_ring [OF as(1) this] io show ?thesis
      unfolding as(2) by (auto simp: wp_iff anel_rel_def)
  qed
  have "sim anel_rel (bnd (read_int (print (nl @ tab @ ''REMOVA UM ELEMENTO: '') s)) (\<lambda>(s, numero).
        bnd (count_ring (rh s) (r_ini s)) (\<lambda>quantidade.
        bnd (anel_remove_loop numero quantidade (rh s, r_ini s, r_fim s, r_ini s, null, 0)) (\<lambda>(h, i, f, aux, ant, achou).
        ok (print (anel_removed numero achou) (s\<lparr>rh := h, r_ini := i, r_fim := f\<rparr>))))))
      (bnd (read_int (print (nl @ tab @ ''REMOVA UM ELEMENTO: '') a)) (\<lambda>(a, x).
        ok (print (anel_removed x (int (count_list (nums a) x))) (a\<lparr>nums := filter (\<lambda>y. y \<noteq> x) (nums a)\<rparr>))))"
    by (rule sim_bnd [where R = "\<lambda>x y. rel_prod anel_rel (=) x y \<and> nums (fst y) \<noteq> []"])
      (use assms False in \<open>auto intro!: sim_read_int body simp: anel_rel_def\<close>)
  with False anel_rel_null [OF assms] show ?thesis by (simp add: anel_remover_def anel_step_def)
qed

interpretation anel: safe_dialogue anel_rel anel_escolha anel_step "{End_Of_Input, Dangling}"
proof
  show "awaits {End_Of_Input, Dangling} (length (inp a)) inp (anel_step esc a)" for esc a
    unfolding anel_step_def by (auto intro!: awaits_read awaits_for_up)
next
  fix s a esc assume r: "anel_rel s a"
  show "sim anel_rel (anel_escolha esc s) (anel_step esc a)"
    using anel_inserir_sim [OF r] anel_consultar_sim [OF r] anel_remover_sim [OF r] anel_esvaziar_sim [OF r] r
    by (auto simp: anel_escolha_def anel_step_def)
qed (auto simp: anel_rel_def)

section \<open>Properties\<close>

text \<open>
  C24: on every input the interactive circular list (\<open>stack/source3.cxx\<close>) reads and prints the same
  as the dialogue on a list of numbers, where a removal takes out every occurrence of a number and says how many
  there were.  It returns, waits for more input or deletes a cell twice, which happens
  exactly when a list of one element is to be emptied.
\<close>

theorem anel_main_refines:
  "sim (\<lambda>s a. out s = out a \<and> inp s = inp a) (anel_main input) (anel_spec input) \<and>
   ((\<exists>s. anel_main input = ok s) \<or> anel_main input = fail End_Of_Input \<or> anel_main input = fail Dangling)"
proof -
  have "anel_rel \<lparr>inp = input, out = [], rh = empty_heap, r_ini = null, r_fim = null\<rparr> \<lparr>inp = input, out = [], nums = []\<rparr>"
    by (auto simp: anel_rel_def anel_cells_def intro!: exI [of _ "[]"])
  from anel.same_output [OF this] anel.program_returns_or_waits [OF this] show ?thesis
    unfolding anel_main_def anel_spec_def by auto
qed

text \<open>Two numbers can be emptied, one cannot.\<close>

lemma anel_main_empties:
  "bnd (anel_main [1, 2, 7, 8, 5, 6]) (\<lambda>s. ok (inp s)) = ok []"
  "bnd (anel_main [2, 1, 7, 5, 6]) (\<lambda>s. ok (inp s)) = fail Dangling"
  by code_simp+

end
