(* ===== verification/Cpf_Valid.thy ===== *)
theory Cpf_Valid
  imports Cxx_Array Cxx_Format
begin

text \<open>
  The Brazilian taxpayer number (CPF): nine digits and two check digits.
  \<open>validation/receita_federal/vivaolinux/cpf/validacpf.cxx\<close> tests a number, \<open>geracpf.cxx\<close> of the
  same directory makes one up.  The specification is \<open>cpf_valid\<close>; what the two check
  digits detect of mistyped numbers is proved here, too.
\<close>

section \<open>The number\<close>

text \<open>The sum of the first \<open>n\<close> digits with the weights \<open>p\<close>, \<open>p - 1\<close>, \<dots>, and the digit it gives.\<close>

definition soma_de :: "int list \<Rightarrow> int \<Rightarrow> int \<Rightarrow> int" where
  "soma_de ds n p = (\<Sum>i \<in> {0..<n}. at ds i * (p - i))"

definition digito_de :: "int \<Rightarrow> int" where
  "digito_de s = (if s mod 11 < 2 then 0 else 11 - s mod 11)"

definition digitos :: "int list \<Rightarrow> bool" where
  "digitos ds \<longleftrightarrow> (\<forall>d \<in> set ds. 0 \<le> d \<and> d \<le> 9)"

definition cpf_valid :: "int list \<Rightarrow> bool" where
  "cpf_valid ds \<longleftrightarrow> len ds = 11 \<and> digitos ds \<and> at ds 9 = digito_de (soma_de ds 9 10) \<and>
     at ds 10 = digito_de (soma_de ds 10 11)"

section \<open>The program validacpf\<close>

definition soma_cpf :: "int option list \<Rightarrow> int \<Rightarrow> int \<Rightarrow> int run" where
  "soma_cpf cpf n p =
     for_up 0 n (\<lambda>i temp. bnd (rdi cpf i) (\<lambda>c. bnd (i32 (c * (p - i))) (\<lambda>m. i32 (temp + m)))) 0"

definition digito_cpf :: "int \<Rightarrow> int run" where
  "digito_cpf temp = bnd (mod32 temp 11) (\<lambda>temp. if temp < 2 then ok 0 else ok (11 - temp))"

definition validaCPF :: "int option list \<Rightarrow> bool run" where
  "validaCPF cpf =
     bnd (soma_cpf cpf 9 10) (\<lambda>temp. bnd (digito_cpf temp) (\<lambda>digito1.
     bnd (soma_cpf cpf 10 11) (\<lambda>temp. bnd (digito_cpf temp) (\<lambda>digito2.
     bnd (rdi cpf 9) (\<lambda>c. if digito1 = c then bnd (rdi cpf 10) (\<lambda>c. ok (digito2 = c)) else ok False)))))"

text \<open>\<open>std::cin.getline(input, n, '\n')\<close> into \<open>char input[n]\<close>, and the value of a (signed) \<open>char\<close>.\<close>

definition getline_buf :: "nat \<Rightarrow> string \<Rightarrow> char option list" where
  "getline_buf n s =
     (let w = take (n - 1) (takeWhile (\<lambda>c. c \<noteq> CHR 0x0A) s)
      in map Some (w @ [CHR 0x00]) @ replicate (n - 1 - length w) None)"

definition char_value :: "char \<Rightarrow> int" where
  "char_value c = (if code c < 128 then code c else code c - 256)"

definition ask_cpf :: string where
  "ask_cpf = nl @ tab @ ''Digite o n'' @ [CHR 0xC3, CHR 0xBA] @ ''mero do CPF sem pontos, espa'' @ [CHR 0xC3, CHR 0xA7] @
     ''os ou tra'' @ [CHR 0xC3, CHR 0xA7] @ ''os: ''"

definition entrada_invalida :: string where
  "entrada_invalida = nl @ tab @ ''ENTRADA INV'' @ A_acute @ ''LIDA'' @ nl"

definition cpf_e_valido :: string where
  "cpf_e_valido = nl @ nl @ tab @ ''O CPF digitado '' @ [CHR 0xC3, CHR 0x89] @ '' v'' @ [CHR 0xC3, CHR 0xA1] @ ''lido'' @ nl @ nl"

definition cpf_nao_valido :: string where
  "cpf_nao_valido = nl @ nl @ tab @ ''O CPF digitado N'' @ A_tilde @ ''O '' @ [CHR 0xC3, CHR 0x89] @ '' V'' @ A_acute @ ''LIDO'' @ nl @ nl"

text \<open>The digits, or \<open>None\<close> when \<open>main\<close> returns early.\<close>

definition ler_cpf :: "char option list \<Rightarrow> int option list option run" where
  "ler_cpf input =
     loop (\<lambda>(i, cpf).
       if i < 11 then
         bnd (rdi input i) (\<lambda>c. bnd (wr cpf i (Some (char_value c - 48))) (\<lambda>cpf.
         bnd (rdi cpf i) (\<lambda>d. ok (if d < 0 \<or> d > 9 then Inr None else Inl (i + 1, cpf)))))
       else ok (Inr (Some cpf))) (0, uninit 11)"

definition mostra_cpf :: "int option list \<Rightarrow> string run" where
  "mostra_cpf cpf =
     for_up 0 11 (\<lambda>i t. bnd (rdi cpf i) (\<lambda>d. ok (t @ dec d @
       (if i = 2 \<or> i = 5 then ''.'' else []) @ (if i = 8 then ''-'' else [])))) []"

text \<open>The text printed and the exit code.\<close>

definition validacpf_main :: "string \<Rightarrow> (string \<times> int) run" where
  "validacpf_main s =
     bnd (ler_cpf (getline_buf 12 s)) (\<lambda>r.
     case r of None \<Rightarrow> ok (ask_cpf @ entrada_invalida, 1)
     | Some cpf \<Rightarrow>
         bnd (mostra_cpf cpf) (\<lambda>t.
         bnd (validaCPF cpf) (\<lambda>b.
         ok (ask_cpf @ nl @ tab @ ''O CPF digitado foi: '' @ t @ (if b then cpf_e_valido else cpf_nao_valido), 0))))"

section \<open>The program geracpf\<close>

text \<open>\<open>rnd k\<close> is what the (k + 1)st call of \<open>rand()\<close> returns.\<close>

definition geracpf_titulo :: string where
  "geracpf_titulo = ''***************************'' @ nl @ '' Gerador automatico de cpf '' @ nl @
     ''  por mbmaciel@gmail.com   '' @ nl @ ''***************************'' @ nl"

definition gera_digitos :: "(nat \<Rightarrow> int) \<Rightarrow> (int option list \<times> string) run" where
  "gera_digitos rnd =
     for_up 0 9 (\<lambda>i (cpfnum, t).
       bnd (mod32 (rnd (nat i)) 9) (\<lambda>d. bnd (wr cpfnum i (Some d)) (\<lambda>cpfnum.
       bnd (rdi cpfnum i) (\<lambda>d. ok (cpfnum, t @ dec d))))) (uninit 10, geracpf_titulo)"

definition total_de :: "int option list \<Rightarrow> int \<Rightarrow> (int \<times> int) run" where
  "total_de cpfnum y =
     for_up 0 9 (\<lambda>i (tot, y).
       bnd (rdi cpfnum i) (\<lambda>c. bnd (i32 (c * y)) (\<lambda>m. bnd (i32 (tot + m)) (\<lambda>tot. ok (tot, y - 1))))) (0, y)"

definition dv_de :: "int \<Rightarrow> int run" where
  "dv_de tot = bnd (mod32 tot 11) (\<lambda>r. if r < 2 then ok 0 else bnd (mod32 tot 11) (\<lambda>r. ok (11 - r)))"

definition geracpf_main :: "(nat \<Rightarrow> int) \<Rightarrow> string run" where
  "geracpf_main rnd =
     bnd (gera_digitos rnd) (\<lambda>(cpfnum, t).
     bnd (total_de cpfnum 10) (\<lambda>(tot, y). bnd (dv_de tot) (\<lambda>dv1.
     bnd (total_de cpfnum 11) (\<lambda>(tot, y). bnd (i32 (dv1 * y)) (\<lambda>m. bnd (i32 (tot + m)) (\<lambda>tot.
     bnd (dv_de tot) (\<lambda>dv2.
     ok (t @ ''-'' @ dec dv1 @ dec dv2 @ nl))))))))"

section \<open>Correctness of validacpf\<close>

lemma rdi_map_Some: "0 \<le> i \<Longrightarrow> i < len ds \<Longrightarrow> rdi (map Some ds) i = ok (at ds i)"
  by (simp add: rdi_def rd_def at_def)

lemma interval_snoc: "0 \<le> i \<Longrightarrow> {0..<i + 1} = insert i {0..<i :: int}"
  by auto

lemma digitosD: "digitos ds \<Longrightarrow> 0 \<le> i \<Longrightarrow> i < len ds \<Longrightarrow> 0 \<le> at ds i \<and> at ds i \<le> 9"
  by (auto simp: digitos_def)

lemma soma_de_step: "0 \<le> i \<Longrightarrow> soma_de ds (i + 1) p = soma_de ds i p + at ds i * (p - i)"
  by (simp add: soma_de_def interval_snoc)

lemma soma_de_bounds:
  assumes "digitos ds" "0 \<le> i" "i \<le> n" "n \<le> len ds" "n \<le> p"
  shows "0 \<le> soma_de ds i p \<and> soma_de ds i p \<le> 9 * p * i"
  using assms(2,3)
proof (induction i rule: int_ge_induct)
  case base
  then show ?case by (simp add: soma_de_def)
next
  case (step i)
  have "0 \<le> at ds i \<and> at ds i \<le> 9" using digitosD [OF assms(1)] step assms(4) by simp
  then have "0 \<le> at ds i * (p - i)" "at ds i * (p - i) \<le> 9 * p"
    using step assms(5) by (auto intro: mult_mono)
  with step show ?case by (simp add: soma_de_step distrib_left)
qed

lemma soma_cpf_sum:
  assumes "digitos ds" "0 \<le> n" "n \<le> len ds" "n \<le> p" "p \<le> 20"
  shows "soma_cpf (map Some ds) n p = ok (soma_de ds n p)"
proof -
  have "wp (soma_cpf (map Some ds) n p) (\<lambda>t. t = soma_de ds n p)"
    unfolding soma_cpf_def
  proof (rule wp_for_up [where I = "\<lambda>i t. t = soma_de ds i p"])
    fix i t assume i: "0 \<le> i" "i < n" and t: "t = soma_de ds i p"
    have d: "0 \<le> at ds i \<and> at ds i \<le> 9" using digitosD [OF assms(1)] i assms(3) by simp
    have m: "0 \<le> at ds i * (p - i)" using d i assms(4) by simp
    have m': "at ds i * (p - i) \<le> 9 * 20" using d i assms(4,5) by (intro mult_mono) auto
    have "9 * p * i \<le> 9 * 20 * 20" using i assms(4,5) by (intro mult_mono) auto
    moreover have "0 \<le> soma_de ds i p \<and> soma_de ds i p \<le> 9 * p * i"
      using i assms by (intro soma_de_bounds [of ds i n p]) auto
    ultimately have "0 \<le> soma_de ds i p" "soma_de ds i p \<le> 3600" by linarith+
    then show "wp (bnd (rdi (map Some ds) i) (\<lambda>c. bnd (i32 (c * (p - i))) (\<lambda>m. i32 (t + m)))) (\<lambda>t. t = soma_de ds (i + 1) p)"
      using i m m' assms(3) by (simp add: rdi_map_Some soma_de_step t)
  qed (use assms(2) in \<open>auto simp: soma_de_def max_def\<close>)
  then show ?thesis by (simp add: wp_eq_ok)
qed

lemma digito_cpf_ok: "0 \<le> s \<Longrightarrow> digito_cpf s = ok (digito_de s)"
  by (simp add: digito_cpf_def digito_de_def mod32_def smod_nonneg i32_def)

lemma dv_de_ok: "0 \<le> s \<Longrightarrow> dv_de s = ok (digito_de s)"
  by (simp add: dv_de_def digito_de_def mod32_def smod_nonneg i32_def)

lemma validaCPF_correct:
  assumes "len ds = 11" "digitos ds"
  shows "validaCPF (map Some ds) = ok (cpf_valid ds)"
proof -
  have "soma_cpf (map Some ds) 9 10 = ok (soma_de ds 9 10)" "soma_cpf (map Some ds) 10 11 = ok (soma_de ds 10 11)"
    using assms by (simp_all add: soma_cpf_sum)
  moreover have "0 \<le> soma_de ds 9 10" "0 \<le> soma_de ds 10 11"
    using soma_de_bounds [OF assms(2), of 9 9 10] soma_de_bounds [OF assms(2), of 10 10 11] assms(1) by auto
  ultimately show ?thesis
    using assms by (auto simp: validaCPF_def digito_cpf_ok rdi_map_Some cpf_valid_def)
qed

section \<open>The dialogue\<close>

lemma dec_digit: "is_digit c \<Longrightarrow> dec (code c - 48) = [c]"
proof -
  assume c: "is_digit c"
  let ?n = "nat (code c - 48)"
  have n: "?n < 10" using c by (auto simp: is_digit_def)
  then have "code (''0123456789'' ! ?n) = code c" using code_digit [OF n] c by (simp add: is_digit_def)
  then have "''0123456789'' ! ?n = c" by (simp add: code_def)
  then show ?thesis using n c by (simp add: dec_def is_digit_def)
qed

lemma code_less: "code c < 256"
proof -
  have "int (of_char c) < 256" using nat_of_char_less_256 [of c] by linarith
  then show ?thesis unfolding code_def of_nat_of_char .
qed

definition cpf_digits :: "string \<Rightarrow> int list" where
  "cpf_digits w = map (\<lambda>c. code c - 48) w"

lemma length_cpf_digits [simp]: "length (cpf_digits w) = length w"
  by (simp add: cpf_digits_def)

lemma char_value_digit: "0 \<le> char_value c - 48 \<and> char_value c - 48 \<le> 9 \<longleftrightarrow> is_digit c"
  using code_less [of c] by (auto simp: char_value_def is_digit_def)

lemma char_value_is_digit: "is_digit c \<Longrightarrow> char_value c = code c"
  by (simp add: char_value_def is_digit_def)

definition cpf_typed :: "string \<Rightarrow> string" where
  "cpf_typed s = take 11 (takeWhile (\<lambda>c. c \<noteq> CHR 0x0A) s)"

definition cpf_format :: "string \<Rightarrow> string" where
  "cpf_format w = take 3 w @ ''.'' @ take 3 (drop 3 w) @ ''.'' @ take 3 (drop 6 w) @ ''-'' @ drop 9 w"

lemma getline_12:
  fixes s i defines "w \<equiv> cpf_typed s"
  assumes "0 \<le> i" "i < 12" "i \<le> len w"
  shows "rdi (getline_buf 12 s) i = ok (if i < len w then at w i else CHR 0x00)"
proof -
  have "length w \<le> 11" by (simp add: w_def cpf_typed_def)
  moreover have "getline_buf 12 s = map Some (w @ [CHR 0x00]) @ replicate (11 - length w) None"
    by (simp add: getline_buf_def w_def cpf_typed_def Let_def)
  ultimately show ?thesis
    using assms(2-4) by (auto simp: rdi_def rd_def at_def nth_append)
qed

lemma ler_cpf_reads:
  fixes s defines "w \<equiv> cpf_typed s"
  shows "ler_cpf (getline_buf 12 s) =
    ok (if length w = 11 \<and> list_all is_digit w then Some (map Some (cpf_digits w)) else None)"
proof -
  have l: "length w \<le> 11" by (simp add: w_def cpf_typed_def)
  let ?r = "if length w = 11 \<and> list_all is_digit w then Some (map Some (cpf_digits w)) else None"
  let ?I = "\<lambda>(i, cpf). 0 \<le> i \<and> i \<le> len w \<and> len cpf = 11 \<and>
      (\<forall>k. 0 \<le> k \<and> k < i \<longrightarrow> is_digit (at w k) \<and> at cpf k = Some (code (at w k) - 48))"
  have "wp (ler_cpf (getline_buf 12 s)) (\<lambda>r. r = ?r)"
    unfolding ler_cpf_def
  proof (rule wp_loop [where I = ?I and m = "\<lambda>(i, cpf). nat (11 - i)"])
    show "?I (0, uninit 11)" by (auto simp: uninit_def)
  next
    fix t assume I: "?I t"
    obtain i cpf where t: "t = (i, cpf)" by (cases t)
    note i = I [unfolded t prod.case]
    let ?c = "if i < len w then at w i else CHR 0x00"
    show "wp (case t of (i, cpf) \<Rightarrow> if i < 11 then
         bnd (rdi (getline_buf 12 s) i) (\<lambda>c. bnd (wr cpf i (Some (char_value c - 48))) (\<lambda>cpf.
         bnd (rdi cpf i) (\<lambda>d. ok (if d < 0 \<or> d > 9 then Inr None else Inl (i + 1, cpf)))))
       else ok (Inr (Some cpf)))
      (\<lambda>x. case x of Inl t' \<Rightarrow> ?I t' \<and> (case t' of (i, cpf) \<Rightarrow> nat (11 - i)) < (case t of (i, cpf) \<Rightarrow> nat (11 - i)) | Inr r \<Rightarrow> r = ?r)"
    proof (cases "i < 11")
      case True
      have g: "rdi (getline_buf 12 s) i = ok ?c" using getline_12 [of i s] i True by (simp add: w_def)
      have w: "wr cpf i (Some (char_value ?c - 48)) = ok (upd cpf i (Some (char_value ?c - 48)))"
        "rdi (upd cpf i (Some (char_value ?c - 48))) i = ok (char_value ?c - 48)"
        using i True by (simp_all add: wr_def rdi_def rd_def)
      show ?thesis
      proof (cases "i < len w \<and> is_digit (at w i)")
        case d: True
        then have "\<not> (char_value ?c - 48 < 0 \<or> char_value ?c - 48 > 9)" using char_value_digit [of ?c] by auto
        moreover have "?I (i + 1, upd cpf i (Some (char_value ?c - 48)))"
          using i True d by (auto simp: at_upd char_value_is_digit)
        ultimately show ?thesis unfolding t prod.case g w bnd_ok using True d by simp
      next
        case d: False
        then have "char_value ?c - 48 < 0 \<or> char_value ?c - 48 > 9"
          using char_value_digit [of ?c] by (auto simp: char_value_def code_def)
        moreover have "\<not> (length w = 11 \<and> list_all is_digit w)"
          using d True i by (auto simp: list_all_length at_def)
        ultimately show ?thesis unfolding t prod.case g w bnd_ok using True by simp
      qed
    next
      case False
      with i l have w: "length w = 11" "i = 11" by auto
      have "is_digit x" if "x \<in> set w" for x
      proof -
        obtain k where "0 \<le> k" "k < len w" "at w k = x" using \<open>x \<in> set w\<close> unfolding in_set_at by blast
        with i w show ?thesis by auto
      qed
      then have "list_all is_digit w" by (simp add: list_all_iff)
      moreover have "cpf = map Some (cpf_digits w)"
        by (rule list_eq_at) (use i w in \<open>auto simp: cpf_digits_def at_def\<close>)
      ultimately show ?thesis using w by (simp add: t)
    qed
  qed
  then show ?thesis by (simp add: wp_eq_ok)
qed

lemma mostra_cpf_format:
  assumes "length w = 11" "list_all is_digit w"
  shows "mostra_cpf (map Some (cpf_digits w)) = ok (cpf_format w)"
proof -
  have "\<exists>a b c d e f g h i j k. w = [a, b, c, d, e, f, g, h, i, j, k]"
    using assms(1) by (auto simp: eval_nat_numeral length_Suc_conv)
  then obtain a b c d e f g h i j k where w: "w = [a, b, c, d, e, f, g, h, i, j, k]" by blast
  show ?thesis
    using assms(2) by (simp add: w mostra_cpf_def cpf_format_def cpf_digits_def rdi_def rd_def at_def dec_digit)
qed

text \<open>
  whatever is typed, validacpf accepts a line whose first eleven characters are digits (and refuses any
  other one with exit code 1), shows the number in the usual form and says that it is valid exactly
  when both check digits are right.
\<close>

theorem validacpf_main_checks:
  "validacpf_main s =
     (let w = cpf_typed s in
      if length w = 11 \<and> list_all is_digit w then
        ok (ask_cpf @ nl @ tab @ ''O CPF digitado foi: '' @ cpf_format w @
          (if cpf_valid (cpf_digits w) then cpf_e_valido else cpf_nao_valido), 0)
      else ok (ask_cpf @ entrada_invalida, 1))"
proof -
  have "digitos (cpf_digits w)" if "list_all is_digit w" for w
    using that by (auto simp: digitos_def cpf_digits_def list_all_iff is_digit_def)
  then show ?thesis
    by (simp add: validacpf_main_def ler_cpf_reads mostra_cpf_format validaCPF_correct Let_def)
qed

section \<open>Correctness of geracpf\<close>

lemma gera_digitos_ok:
  assumes "\<And>k. 0 \<le> rnd k"
  shows "gera_digitos rnd = ok (map Some (map (\<lambda>k. rnd k mod 9) [0..<9]) @ [None],
    geracpf_titulo @ concat (map dec (map (\<lambda>k. rnd k mod 9) [0..<9])))"
proof -
  have m: "mod32 (rnd k) 9 = ok (rnd k mod 9)" for k
    using pos_mod_bound [of 9 "rnd k"] pos_mod_sign [of 9 "rnd k"] assms [of k]
    by (auto simp: mod32_def i32_def smod_nonneg)
  show ?thesis
    by (simp add: gera_digitos_def m uninit_def wr_def upd_def rdi_def rd_def at_def upt_rec eval_nat_numeral)
qed

lemma total_de_sum:
  assumes "length ds = 9" "digitos ds" "10 \<le> y" "y \<le> 20"
  shows "total_de (map Some ds @ [None]) y = ok (soma_de ds 9 y, y - 9)"
proof -
  have "wp (total_de (map Some ds @ [None]) y) (\<lambda>r. r = (soma_de ds 9 y, y - 9))"
    unfolding total_de_def
  proof (rule wp_for_up [where I = "\<lambda>i r. r = (soma_de ds i y, y - i)"])
    fix i r assume i: "0 \<le> i" "i < (9 :: int)" and r: "r = (soma_de ds i y, y - i)"
    have c: "rdi (map Some ds @ [None]) i = ok (at ds i)"
      using i assms(1) by (simp add: rdi_def rd_def at_def nth_append)
    have d: "0 \<le> at ds i \<and> at ds i \<le> 9" using digitosD [OF assms(2)] i assms(1) by simp
    have m: "0 \<le> at ds i * (y - i)" using d i assms(3) by simp
    have m': "at ds i * (y - i) \<le> 9 * 20" using d i assms(3,4) by (intro mult_mono) auto
    have "9 * y * i \<le> 9 * 20 * 20" using i assms(3,4) by (intro mult_mono) auto
    moreover have "0 \<le> soma_de ds i y \<and> soma_de ds i y \<le> 9 * y * i"
      using i assms by (intro soma_de_bounds [of ds i 9 y]) auto
    ultimately have "0 \<le> soma_de ds i y" "soma_de ds i y \<le> 3600" by linarith+
    then show "wp (case r of (tot, y) \<Rightarrow> bnd (rdi (map Some ds @ [None]) i) (\<lambda>c. bnd (i32 (c * y)) (\<lambda>m.
        bnd (i32 (tot + m)) (\<lambda>tot. ok (tot, y - 1))))) (\<lambda>r. r = (soma_de ds (i + 1) y, y - (i + 1)))"
      using i m m' by (simp add: r c soma_de_step)
  qed (auto simp: soma_de_def)
  then show ?thesis by (simp add: wp_eq_ok)
qed

text \<open>The digits with their check digits.\<close>

definition completa :: "int list \<Rightarrow> int list" where
  "completa ds = (let d = digito_de (soma_de ds 9 10); e = digito_de (soma_de (ds @ [d]) 10 11) in ds @ [d, e])"

lemma digito_de_bounds: "0 \<le> digito_de s \<and> digito_de s \<le> 9"
  using pos_mod_bound [of 11 s] by (auto simp: digito_de_def)

lemma soma_de_append: "n \<le> len ds \<Longrightarrow> soma_de (ds @ es) n p = soma_de ds n p"
  unfolding soma_de_def by (rule sum.cong) (auto simp: at_def nth_append)

lemma completa_valid:
  assumes "length ds = 9" "digitos ds"
  shows "cpf_valid (completa ds)" "completa ds = take 9 (completa ds) @ drop 9 (completa ds)" "take 9 (completa ds) = ds"
proof -
  let ?d = "digito_de (soma_de ds 9 10)"
  have "soma_de (ds @ [?d, e]) 10 11 = soma_de (ds @ [?d]) 10 11" for e
    using soma_de_append [of 10 "ds @ [?d]" "[e]"] assms(1) by simp
  moreover have "soma_de (ds @ [?d, e]) 9 10 = soma_de ds 9 10" for e
    using soma_de_append [of 9 ds] assms(1) by simp
  ultimately show "cpf_valid (completa ds)"
    using assms digito_de_bounds by (auto simp: cpf_valid_def completa_def digitos_def Let_def at_def nth_append)
  show "take 9 (completa ds) = ds" using assms(1) by (simp add: completa_def Let_def)
qed simp

text \<open>The characters of a number.\<close>

definition cpf_text :: "int list \<Rightarrow> string" where
  "cpf_text ds = concat (map dec ds)"

lemma dec_of_digit: "0 \<le> d \<Longrightarrow> d \<le> 9 \<Longrightarrow> \<exists>c. is_digit c \<and> dec d = [c] \<and> code c - 48 = d"
proof -
  assume d: "0 \<le> d" "d \<le> 9"
  then have "nat d < 10" by simp
  with d code_digit [OF this] show ?thesis
    by (intro exI [of _ "''0123456789'' ! nat d"]) (auto simp: dec_def is_digit_def)
qed

lemma cpf_text_typed:
  assumes "digitos ds" "length ds = 11"
  shows "cpf_typed (cpf_text ds) = cpf_text ds" "length (cpf_text ds) = 11" "list_all is_digit (cpf_text ds)"
    "cpf_digits (cpf_text ds) = ds"
proof -
  have t: "length (cpf_text es) = length es \<and> list_all is_digit (cpf_text es) \<and> cpf_digits (cpf_text es) = es"
    if "digitos es" for es
    using that
  proof (induction es)
    case (Cons e es)
    then obtain c where "is_digit c" "dec e = [c]" "code c - 48 = e"
      using dec_of_digit [of e] by (auto simp: digitos_def)
    moreover have "digitos es" using Cons.prems by (simp add: digitos_def)
    ultimately show ?case using Cons.IH by (simp add: cpf_text_def cpf_digits_def)
  qed (simp add: cpf_text_def cpf_digits_def)
  from t [OF assms(1)] assms(2) show l: "length (cpf_text ds) = 11" "list_all is_digit (cpf_text ds)"
    "cpf_digits (cpf_text ds) = ds" by simp_all
  have "takeWhile (\<lambda>c. c \<noteq> CHR 0x0A) (cpf_text ds) = cpf_text ds"
    unfolding takeWhile_eq_all_conv using l(2) by (auto simp: list_all_iff is_digit_def code_def)
  then show "cpf_typed (cpf_text ds) = cpf_text ds" by (simp only: cpf_typed_def l(1) take_all order_refl)
qed

text \<open>
  C36: whatever \<open>rand()\<close> returns, geracpf prints nine digits (none of them a 9), a hyphen and two more, and
  validacpf accepts the number when it is typed without the hyphen.
\<close>

theorem geracpf_accepted:
  assumes "\<And>k. 0 \<le> rnd k"
  shows "\<exists>ds. geracpf_main rnd = ok (geracpf_titulo @ cpf_text (take 9 ds) @ ''-'' @ cpf_text (drop 9 ds) @ nl) \<and>
    take 9 ds = map (\<lambda>k. rnd k mod 9) [0..<9] \<and>
    validacpf_main (cpf_text ds) =
      ok (ask_cpf @ nl @ tab @ ''O CPF digitado foi: '' @ cpf_format (cpf_text ds) @ cpf_e_valido, 0)"
proof -
  let ?ds = "map (\<lambda>k. rnd k mod 9) [0..<9]"
  have l: "length ?ds = 9" by simp
  have "0 \<le> rnd k mod 9 \<and> rnd k mod 9 \<le> 9" for k
    using pos_mod_bound [of 9 "rnd k"] pos_mod_sign [of 9 "rnd k"] by linarith
  then have d: "digitos ?ds" by (auto simp: digitos_def)
  let ?d = "digito_de (soma_de ?ds 9 10)" and ?e = "digito_de (soma_de (?ds @ [digito_de (soma_de ?ds 9 10)]) 10 11)"
  note v = completa_valid [OF l d]
  have b: "0 \<le> soma_de ?ds 9 10" "0 \<le> soma_de ?ds 9 11" "soma_de ?ds 9 11 \<le> 9 * 11 * 9"
    using soma_de_bounds [OF d, of 9 9 10] soma_de_bounds [OF d, of 9 9 11] l by simp_all
  have s: "soma_de (?ds @ [?d]) 10 11 = soma_de ?ds 9 11 + ?d * 2"
    using soma_de_step [of 9 "?ds @ [?d]" 11] soma_de_append [of 9 ?ds "[?d]" 11] l by (simp add: at_def nth_append)
  have t: "total_de (map Some ?ds @ [None]) 10 = ok (soma_de ?ds 9 10, 1)"
    "total_de (map Some ?ds @ [None]) 11 = ok (soma_de ?ds 9 11, 2)"
    using total_de_sum [OF l d, of 10] total_de_sum [OF l d, of 11] by simp_all
  have "geracpf_main rnd = ok (geracpf_titulo @ cpf_text ?ds @ ''-'' @ dec ?d @ dec ?e @ nl)"
    using b digito_de_bounds [of "soma_de ?ds 9 10"]
    unfolding geracpf_main_def gera_digitos_ok [OF assms] bnd_ok prod.case t dv_de_ok [OF b(1)] s
    by (simp add: i32_def dv_de_ok cpf_text_def)
  moreover have "drop 9 (completa ?ds) = [?d, ?e]" by (simp add: completa_def Let_def)
  moreover have "cpf_text (completa ?ds) = cpf_typed (cpf_text (completa ?ds))" "digitos (completa ?ds)" "length (completa ?ds) = 11"
    using v(1) cpf_text_typed [of "completa ?ds"] by (auto simp: cpf_valid_def)
  ultimately show ?thesis
    using v cpf_text_typed [of "completa ?ds"]
    by (intro exI [of _ "completa ?ds"]) (simp add: validacpf_main_checks Let_def cpf_text_def)
qed

theorem geracpf_accepted_witness:
  "\<exists>ds. geracpf_main (\<lambda>k. int k) = ok (geracpf_titulo @ cpf_text (take 9 ds) @ ''-'' @ cpf_text (drop 9 ds) @ nl) \<and>
    take 9 ds = [0, 1, 2, 3, 4, 5, 6, 7, 8] \<and>
    validacpf_main (cpf_text ds) =
      ok (ask_cpf @ nl @ tab @ ''O CPF digitado foi: '' @ cpf_format (cpf_text ds) @ cpf_e_valido, 0)"
proof -
  have "map (\<lambda>k. int k mod 9) [0..<9] = [0, 1, 2, 3, 4, 5, 6, 7, 8]" by (simp add: upt_rec)
  then show ?thesis using geracpf_accepted [of "\<lambda>k. int k"] by simp
qed

end
