(* ===== verification/Spec2Isabelle.thy ===== *)
theory Spec2Isabelle
  imports Sort_Programs List_MinStack List_Queue List_Basic List_Sorted List_Union List_Circular
    List_Named Menu_Stack Menu_Queue Menu_Sorted Cxx_Ring Search Flow_Ford Graph_Kruskal Tree_Search
    Tree_Agenda Euler_Hierholzer Date_Easter20 Date_Seconds Date_Calendar Graph_Depth Graph_Cities Graph_Kruskal4 Menu_Ring Cpf_Valid
begin

text \<open>
  A verification library for the algorithmic programs of this repository: the data structures of
  \<open>src/DataStructure\<close>, the calendars of \<open>src/Date\<close> and two of the validators of \<open>src/validation\<close>.  The repository is a collection of self-contained C++ programs, each
  a file with its types, its functions and a \<open>main\<close>; they interact through what they share:
  the same data structure written several times, the same loops, the console.  The library models
  the programs function by function and keeps what they share in theories of its own.

  \<^bold>\<open>How a program is modelled.\<close>  A C++ function becomes a HOL function that returns a
  \<open>run\<close> (\<open>Cxx_Core\<close>): \<open>None\<close> if the function does not return, \<open>Some (Inl e)\<close> if it does
  something undefined (the error \<open>e\<close>: overflow of an \<open>int\<close>, an access outside an array, to a
  null or deleted object or to an uninitialised place, a division by zero, no \<open>return\<close>) or the
  input is at its end, and \<open>Some (Inr x)\<close> if it returns \<open>x\<close>.  Every property that says
  \<open>= ok x\<close> or \<open>\<exists>x. f a = ok x\<close> therefore says that the function returns and does nothing undefined.
  \<open>for\<close> loops over an index are \<open>for_up\<close> and \<open>for_down\<close>, other loops are \<open>loop\<close> and
  \<open>while_run\<close> (\<open>partial_function\<close>), so no fuel is needed and no loop is assumed to end.
  \<open>int\<close> arithmetic is exact and checked (\<open>i32\<close>, \<open>div32\<close>, \<open>mod32\<close>) wherever it can leave
  the 32 bits.  Storage is explicit: arrays are lists with checked accesses (\<open>Cxx_Array\<close>,
  \<open>Cxx_Matrix\<close>), linked cells live in a heap with \<open>new\<close> and \<open>delete\<close> (\<open>Cxx_Heap\<close>,
  \<open>Cxx_DList\<close>), trees reached through one pointer per node are the library's trees, and the
  globals or members of a program are a record or a tuple that its functions take and return.
  Programs that read are functions from what is typed to what is printed (\<open>Cxx_Console\<close> for
  numbers read with \<open>std::cin\<close>, \<open>Cxx_Terminal\<close> and \<open>Cxx_Format\<close> for characters read with
  \<open>scanf\<close> and the padded numbers of \<open>printf\<close>).  \<open>within\<close> (\<open>Cxx_Core\<close>) bounds the errors a program
  can end in, where the properties are about every input.

  \<^bold>\<open>Contracts.\<close>  What several programs promise alike is a locale, proved once for its clients
  and interpreted on every program that provides it: \<open>sorting_routine\<close> (\<open>Cxx_Array\<close>; the sorts),
  \<open>stack_adt\<close>, \<open>min_stack\<close> and \<open>queue_adt\<close> (the linked stacks and queues), \<open>reversal\<close>
  (\<open>Cxx_List\<close>), \<open>dialogue\<close> and \<open>safe_dialogue\<close> (\<open>Cxx_Console\<close>; the interactive programs refine
  the same dialogue on lists), \<open>disjoint_sets\<close> and \<open>parent_arrays\<close> (\<open>Graph_UnionFind\<close>).

  \<^bold>\<open>The parts.\<close>
  \<^item> \<open>DataStructure/sort\<close>: \<open>Sort_Exchange\<close> (bubble, selection, insertion), \<open>Sort_Gap\<close> (shell,
    comb), \<open>Sort_Merge\<close>, \<open>Sort_Quick\<close>, \<open>Sort_Heap\<close>, \<open>Sort_Count\<close> (radix, counting, pigeonhole),
    \<open>Sort_Programs\<close> (the drivers).  Each sort returns the sorted array; the bounds under which
    its index arithmetic does not overflow are hypotheses (\<open>heap_sort\<close>: fewer than \<open>2^30\<close> elements,
    \<open>comb_sort\<close>: ten times the length fits an \<open>int\<close>, \<open>radix_sort\<close>: at most nine digits).
  \<^item> \<open>DataStructure/linked_list\<close>: \<open>List_Basic\<close> (example1), \<open>List_Sorted\<close> (example2), \<open>List_Named\<close>
    (example3, example4), \<open>List_Circular\<close> (example5), \<open>List_Stack\<close> (example6, 7, 7B), \<open>List_MinStack\<close>
    (example7C, 7D), \<open>List_Queue\<close> (example8, 8B), \<open>List_Union\<close> (example9).  Each operation is described on
    the list of cells the heap holds; where a program is wrong the theorems say what it does instead.
  \<^item> \<open>DataStructure/stack\<close>: \<open>Menu_Stack\<close> (source6), \<open>Menu_Queue\<close> (source5), \<open>Menu_Sorted\<close> (source2),
    \<open>Menu_Ring\<close> on \<open>Cxx_Ring\<close> (source3),
    \<open>Search\<close> (source1, source7).  The interactive programs print what the same dialogue on a list prints,
    and never touch a deleted cell, except that source3
    deletes the cell of a list of one element twice when it empties it.
  \<^item> \<open>DataStructure/ford_fulkerson\<close>: \<open>Flow_Network\<close> (flows and cuts, the specification), \<open>Flow_Ford\<close> (the
    two programs: the value of a maximum flow, the edges of a minimum cut).
  \<^item> \<open>DataStructure/grafos/kruskals\<close>: \<open>Graph_Forest\<close> (minimum spanning forests, the specification),
    \<open>Graph_UnionFind\<close> (parents and ranks), \<open>Graph_Kruskal\<close> (kruskals1, kruskals2), \<open>Graph_Kruskal4\<close>
    (kruskals4, on at most eight vertices: its tree when the graph is connected, no end when it is not).
  \<^item> \<open>DataStructure/grafos\<close>: \<open>Graph_Paths\<close> (grafo3, grafo4: every simple path), \<open>Graph_Depth\<close> (grafo5: depth
    first with an explicit stack), \<open>Graph_Cities\<close> (grafo2: a search with a ring buffer that can overflow).
  \<^item> \<open>DataStructure/tree\<close>: \<open>Tree_Search\<close> (aleatorio, binaria), \<open>Tree_Agenda\<close> (the telephone book: its
    operations refine updates of a map, except that removal gives a neighbour the wrong number).
  \<^item> \<open>DataStructure/grafos/euler\<close>: \<open>Graph_Euler\<close> (trails and circuits of a digraph, the specification),
    \<open>Euler_Hierholzer\<close> (hierholzer: the lines of a file to the lines printed).
  \<^item> The calendar, a specification: \<open>Cal_Gregorian\<close> (leap years, lengths of months, the number of a day, its
    day of the week) and \<open>Cal_Easter\<close> (the ecclesiastical rule: the Sunday after the full moon of the epacts).
  \<^item> \<open>Date/pascoa\<close>: \<open>Date_Easter\<close> (pascoa, pascoa1, pascoa2) and \<open>Date_Easter20\<close> (pascoa3, pascoa4).  The
    formula of Meeus gives Easter for every year an \<open>int\<close> can hold from 0 on, that of Clavius for the
    years below 8600 (its epact is the remainder of a number that is negative from there on), those of Oudin, Carter and
    Gauss for 1900 to 2099, where the properties name the years the programs miss it.
  \<^item> \<open>Date/diff_days\<close>, \<open>Date/validate\<close>, \<open>Date/calendario\<close>: \<open>Date_Diff\<close> (days_diff.cxx), \<open>Date_Seconds\<close>
    (days_diff.c and example5, on words of 64 bits), \<open>Date_Weekday\<close> (calendario2, primeirodia2, the day of the
    week of example1), \<open>Date_Calendar\<close> (calendario.c).  Numbers of days are compared with \<open>day_number\<close>; the bounds
    on the years are those under which nothing overflows.

  \<^item> \<open>validation/receita_federal/vivaolinux/cpf\<close>: \<open>Cpf_Valid\<close> (validacpf: exactly the numbers with the right check
    digits are valid; geracpf: what it prints is one of them).

  \<^bold>\<open>Parameters.\<close>  \<open>qsort\<close> of kruskals2 is a parameter, a function of the comparator and the
  array, with the hypothesis that it permutes the edges: the comparator of the program is not an order as the
  standard demands, so that the property about the minimum tree has a condition on the order the edges come back in. \<open>rand()\<close> of
  aleatorio and geracpf is a parameter with the range the C library documents; the date of today that \<open>localtime\<close>
  gives is a parameter of type \<open>tm\<close>; \<open>__isleap\<close> is written out as the macro glibc defines, with the side effects of
  its argument where it has any (\<open>isleap_inc\<close>).  A number that cannot be read with \<open>std::cin\<close> ends the run like the end
  of the input.  \<open>std::sort\<close> is \<open>sort\<close>.

  \<^bold>\<open>Not modelled.\<close>  \<open>bucket_sort.cxx\<close> (its buckets depend on the rounding of floats), the programs on random
  numbers and files in \<open>vetores\<close>, \<open>grafo1\<close>, \<open>kruskals3\<close> (its reader ends without
  the \<open>return\<close> its type asks for) and \<open>fleury\<close> of \<open>grafos\<close>, the doubly
  linked circular list of \<open>stack\<close> (source4, whose backward links a removal corrupts), the other validators (those that read
  uninitialised or foreign memory on every input, and the generator \<open>gerador.c\<close>), the programs of \<open>Date\<close> that do
  not compile (\<open>feriados\<close>) or mostly call the time functions of the C library, and outside \<open>DataStructure\<close>,
  \<open>Date\<close> and \<open>validation\<close> the demonstrations of language features, the vendored libraries, the front ends to GTK, Qt, CGI and
  databases, and the shell and kernel code.
  The memory \<open>new\<close> can deliver is unbounded, and the counters of cells it bounds are exact integers.
\<close>

end
